(* ===== verification/Prelude.thy ===== *)
theory Prelude
  imports Main "HOL-Library.Word"
begin

text \<open>
  What every component shares: the outcomes a C function can have (\<open>fault + 'a\<close>), C strings
  in byte blocks, the \<^verbatim>\<open>string.h\<close> and \<^verbatim>\<open>strings.h\<close> routines the sources call
  (\<^verbatim>\<open>memcpy\<close>, \<^verbatim>\<open>memmem\<close>, \<^verbatim>\<open>strncpy\<close>, \<^verbatim>\<open>strcasecmp\<close>,
  \<^verbatim>\<open>strrchr\<close>, \<^verbatim>\<open>sprintf\<close> with \<^verbatim>\<open>%d\<close> and \<^verbatim>\<open>%s\<close>), 32-bit signed
  arithmetic, and the collections of simplification rules the components add to.
\<close>

named_theorems res_simps \<open>computing with fallible results\<close>
named_theorems buf_simps \<open>sizes and contents of buffers\<close>

section \<open>Faults\<close>

text \<open>
  A C function either returns or does something the language gives no meaning to, ends the
  process, or stops at an \<^verbatim>\<open>assert\<close>. Every such end is a constructor, so that a theorem
  that an operation returns \<open>Inr\<close> says that none of them happens.
\<close>

datatype fault =
    NullDeref           \<comment> \<open>a read, write or call through NULL, arithmetic on NULL\<close>
  | OutOfBounds         \<comment> \<open>an access outside the block a pointer belongs to\<close>
  | OverlapCopy         \<comment> \<open>\<^verbatim>\<open>memcpy\<close> between overlapping regions\<close>
  | UseAfterFree        \<comment> \<open>an access to a freed block\<close>
  | IntOverflow         \<comment> \<open>signed overflow\<close>
  | Uninitialised       \<comment> \<open>use of an indeterminate value\<close>
  | AssertFail          \<comment> \<open>\<^verbatim>\<open>assert\<close> with a false argument\<close>
  | ProcessExit         \<comment> \<open>\<^verbatim>\<open>exit(0)\<close>\<close>
  | Deadlock            \<comment> \<open>locking a mutex the thread already holds\<close>
  | Uncaught            \<comment> \<open>a C++ exception nobody catches\<close>

text \<open>
  An access to a block just freed by the same thread that neither feeds a decision nor leaves
  the block (a pointer of the freed struct set to NULL, a name read for a log line) has no
  effect the model could show: it is recorded, and the run goes on. Every other access to freed
  memory is \<open>UseAfterFree\<close>.
\<close>

datatype stale = StaleRead nat | StaleWrite nat

type_synonym 'a res = "fault + 'a"

definition bindR :: "'a res \<Rightarrow> ('a \<Rightarrow> 'b res) \<Rightarrow> 'b res" where
  "bindR r f = (case r of Inl e \<Rightarrow> Inl e | Inr x \<Rightarrow> f x)"

lemma bindR_Inr [simp]: "bindR (Inr x) f = f x"
  and bindR_Inl [simp]: "bindR (Inl e) f = Inl e"
  by (simp_all add: bindR_def)

lemma bindR_eq_Inr [res_simps]: "bindR r f = Inr y \<longleftrightarrow> (\<exists>x. r = Inr x \<and> f x = Inr y)"
  by (cases r) simp_all

lemma bindR_eq_Inl [res_simps]:
  "bindR r f = Inl e \<longleftrightarrow> r = Inl e \<or> (\<exists>x. r = Inr x \<and> f x = Inl e)"
  by (cases r) simp_all

lemma bindR_assoc: "bindR (bindR r f) g = bindR r (\<lambda>x. bindR (f x) g)"
  by (cases r) simp_all

definition guardR :: "bool \<Rightarrow> fault \<Rightarrow> unit res" where
  "guardR b e = (if b then Inr () else Inl e)"

lemma guardR_True [simp]: "guardR True e = Inr ()"
  and guardR_False [simp]: "guardR False e = Inl e"
  by (simp_all add: guardR_def)

lemma guardR_eq_Inr [res_simps]: "guardR b e = Inr u \<longleftrightarrow> b"
  by (simp add: guardR_def)

text \<open>A postcondition of every run that returns.\<close>

definition ensures :: "'a res \<Rightarrow> ('a \<Rightarrow> bool) \<Rightarrow> bool" where
  "ensures r P \<longleftrightarrow> (\<forall>x. r = Inr x \<longrightarrow> P x)"

named_theorems ensures_rules \<open>postconditions, backwards\<close>

lemma ensures_bind [ensures_rules]: "(\<And>x. r = Inr x \<Longrightarrow> ensures (f x) P) \<Longrightarrow> ensures (bindR r f) P"
  by (auto simp: ensures_def res_simps)

lemma ensures_if [ensures_rules]:
  "(c \<Longrightarrow> ensures r P) \<Longrightarrow> (\<not> c \<Longrightarrow> ensures s P) \<Longrightarrow> ensures (if c then r else s) P"
  by simp

lemma ensures_option [ensures_rules]:
  "(x = None \<Longrightarrow> ensures r P) \<Longrightarrow> (\<And>y. x = Some y \<Longrightarrow> ensures (f y) P) \<Longrightarrow>
   ensures (case x of None \<Rightarrow> r | Some y \<Rightarrow> f y) P"
  by (cases x) simp_all

lemma ensures_prod [ensures_rules]:
  "(\<And>a b. p = (a, b) \<Longrightarrow> ensures (f a b) P) \<Longrightarrow> ensures (case p of (a, b) \<Rightarrow> f a b) P"
  by (cases p) simp

lemma ensures_Inl [ensures_rules]: "ensures (Inl e) P"
  and ensures_Inr: "ensures (Inr x) P = P x"
  by (simp_all add: ensures_def)

lemma ensuresD: "ensures r P \<Longrightarrow> r = Inr x \<Longrightarrow> P x"
  by (simp add: ensures_def)

text \<open>
  Where a function need not return, its result is \<open>'a run\<close>: \<open>None\<close> when it goes on for ever.
\<close>

type_synonym 'a run = "'a res option"

definition bindO :: "'a run \<Rightarrow> ('a \<Rightarrow> 'b run) \<Rightarrow> 'b run" where
  "bindO m f = Option.bind m (\<lambda>r. case r of Inl e \<Rightarrow> Some (Inl e) | Inr x \<Rightarrow> f x)"

lemma bindO_simps [simp]:
  "bindO (Some (Inr x)) f = f x"
  "bindO (Some (Inl e)) f = Some (Inl e)"
  "bindO None f = None"
  by (simp_all add: bindO_def)

lemma bindO_eq_Inr [res_simps]:
  "bindO m f = Some (Inr y) \<longleftrightarrow> (\<exists>x. m = Some (Inr x) \<and> f x = Some (Inr y))"
proof (cases m)
  case (Some r)
  then show ?thesis by (cases r) auto
qed simp

lemma bindO_assoc: "bindO (bindO m f) g = bindO m (\<lambda>x. bindO (f x) g)"
proof (cases m)
  case (Some r)
  then show ?thesis by (cases r) simp_all
qed simp

lemma bindO_return [simp]: "bindO m (\<lambda>x. Some (Inr x)) = m"
proof (cases m)
  case (Some r)
  then show ?thesis by (cases r) simp_all
qed simp

lemma bindO_cong_on:
  "(\<And>x. m = Some (Inr x) \<Longrightarrow> f x = g x) \<Longrightarrow> bindO m f = bindO m g"
proof (cases m)
  case (Some r)
  moreover assume "\<And>x. m = Some (Inr x) \<Longrightarrow> f x = g x"
  ultimately show ?thesis by (cases r) simp_all
qed simp

lemma bindO_mono [partial_function_mono]:
  assumes "mono_option B" and "\<And>y. mono_option (\<lambda>f. C y f)"
  shows "mono_option (\<lambda>f. bindO (B f) (\<lambda>y. C y f))"
  unfolding bindO_def
proof (intro partial_function_mono assms(1))
  show "mono_option (\<lambda>f. case y of Inl e \<Rightarrow> Some (Inl e) | Inr y \<Rightarrow> C y f)" for y
    using assms(2) by (cases y) (auto intro: partial_function_mono)
qed

definition ensures_run :: "'a run \<Rightarrow> ('a \<Rightarrow> bool) \<Rightarrow> bool" where
  "ensures_run m P \<longleftrightarrow> (\<forall>x. m = Some (Inr x) \<longrightarrow> P x)"

named_theorems run_rules \<open>postconditions of runs, backwards\<close>

lemma ensures_run_bind: "(\<And>x. m = Some (Inr x) \<Longrightarrow> ensures_run (f x) P) \<Longrightarrow> ensures_run (bindO m f) P"
  by (auto simp: ensures_run_def res_simps)

lemma ensures_run_if [run_rules]:
  "(c \<Longrightarrow> ensures_run r P) \<Longrightarrow> (\<not> c \<Longrightarrow> ensures_run s P) \<Longrightarrow> ensures_run (if c then r else s) P"
  by simp

lemma ensures_run_prod [run_rules]:
  "(\<And>a b. p = (a, b) \<Longrightarrow> ensures_run (f a b) P) \<Longrightarrow> ensures_run (case p of (a, b) \<Rightarrow> f a b) P"
  by (cases p) simp

lemma ensures_run_option [run_rules]:
  "(x = None \<Longrightarrow> ensures_run r P) \<Longrightarrow> (\<And>y. x = Some y \<Longrightarrow> ensures_run (f y) P) \<Longrightarrow>
   ensures_run (case x of None \<Rightarrow> r | Some y \<Rightarrow> f y) P"
  by (cases x) simp_all

lemma ensures_run_return: "ensures_run (Some (Inr x)) P = P x"
  and ensures_run_fault [run_rules]: "ensures_run (Some (Inl e)) P"
  and ensures_run_none [run_rules]: "ensures_run None P"
  by (simp_all add: ensures_run_def)

lemma ensures_runD: "ensures_run m P \<Longrightarrow> m = Some (Inr x) \<Longrightarrow> P x"
  by (simp add: ensures_run_def)

text \<open>The result with a function applied to it.\<close>

definition map_res :: "('a \<Rightarrow> 'b) \<Rightarrow> 'a res \<Rightarrow> 'b res" where
  "map_res f r = bindR r (\<lambda>x. Inr (f x))"

definition map_run :: "('a \<Rightarrow> 'b) \<Rightarrow> 'a run \<Rightarrow> 'b run" where
  "map_run f m = bindO m (\<lambda>x. Some (Inr (f x)))"

lemma map_res_simps [simp]: "map_res f (Inr x) = Inr (f x)" "map_res f (Inl e) = Inl e"
  by (simp_all add: map_res_def)

lemma map_run_simps [simp]:
  "map_run f (Some (Inr x)) = Some (Inr (f x))" "map_run f (Some (Inl e)) = Some (Inl e)"
  "map_run f None = None"
  by (simp_all add: map_run_def)

lemma bindO_map_run: "bindO (map_run f m) g = bindO m (\<lambda>x. g (f x))"
  by (simp add: map_run_def bindO_assoc)

lemma map_run_bindO: "map_run f (bindO m g) = bindO m (\<lambda>x. map_run f (g x))"
  by (simp add: map_run_def bindO_assoc)

lemma map_run_map_run: "map_run f (map_run g m) = map_run (\<lambda>x. f (g x)) m"
  by (simp add: map_run_def bindO_assoc)

lemma bindR_map_res: "bindR (map_res f m) g = bindR m (\<lambda>x. g (f x))"
  by (cases m) simp_all

lemma map_res_bindR: "map_res f (bindR m g) = bindR m (\<lambda>x. map_res f (g x))"
  by (cases m) simp_all

lemma map_res_map_res: "map_res f (map_res g m) = map_res (\<lambda>x. f (g x)) m"
  by (cases m) simp_all

lemma map_res_eq_Inr [res_simps]: "map_res f m = Inr y \<longleftrightarrow> (\<exists>x. m = Inr x \<and> y = f x)"
  by (cases m) auto

section \<open>Signed 32-bit arithmetic\<close>

definition int_max :: int where
  "int_max = 2147483647"

definition add_i32 :: "int \<Rightarrow> int \<Rightarrow> int res" where
  "add_i32 a b = (if - int_max - 1 \<le> a + b \<and> a + b \<le> int_max then Inr (a + b) else Inl IntOverflow)"

lemma add_i32_eq_Inr [res_simps]:
  "add_i32 a b = Inr c \<longleftrightarrow> c = a + b \<and> - int_max - 1 \<le> a + b \<and> a + b \<le> int_max"
  by (auto simp: add_i32_def)

section \<open>Maps\<close>

lemma map_eqI: "(\<And>k v. m k = Some v \<longleftrightarrow> m' k = Some v) \<Longrightarrow> m = m'"
  by (rule ext) (metis option.exhaust)

section \<open>Blocks of bytes\<close>

abbreviation NUL :: char where
  "NUL \<equiv> CHR 0x00"

abbreviation CR :: char where
  "CR \<equiv> CHR 0x0D"

abbreviation LF :: char where
  "LF \<equiv> CHR 0x0A"

definition crlf :: string where
  "crlf = [CR, LF]"

lemma length_crlf [simp]: "length crlf = 2"
  by (simp add: crlf_def)

text \<open>Writing a run of bytes into a block at an offset; the block keeps its length.\<close>

definition overwrite :: "'a list \<Rightarrow> nat \<Rightarrow> 'a list \<Rightarrow> 'a list" where
  "overwrite xs i ys = take i xs @ ys @ drop (i + length ys) xs"

lemma length_overwrite [simp]:
  "i + length ys \<le> length xs \<Longrightarrow> length (overwrite xs i ys) = length xs"
  by (simp add: overwrite_def)

lemma take_overwrite [simp]: "i \<le> length xs \<Longrightarrow> take i (overwrite xs i ys) = take i xs"
  by (simp add: overwrite_def)

lemma drop_overwrite:
  "i \<le> length xs \<Longrightarrow> drop i (overwrite xs i ys) = ys @ drop (i + length ys) xs"
  by (simp add: overwrite_def)

lemma take_overwrite_snoc:
  "i \<le> length xs \<Longrightarrow> take (i + length ys) (overwrite xs i ys) = take i xs @ ys"
  by (simp add: overwrite_def)

lemma overwrite_Nil [simp]: "overwrite xs i [] = xs"
  by (simp add: overwrite_def)

text \<open>\<^verbatim>\<open>memcpy(block + at, src, n)\<close> from another block.\<close>

definition memcpy_at :: "string \<Rightarrow> int \<Rightarrow> string \<Rightarrow> int \<Rightarrow> string res" where
  "memcpy_at d at src n =
     (if 0 \<le> n \<and> n \<le> int (length src) \<and> 0 \<le> at \<and> at + n \<le> int (length d)
      then Inr (overwrite d (nat at) (take (nat n) src))
      else Inl OutOfBounds)"

text \<open>\<^verbatim>\<open>memcpy\<close> inside one block: the regions must not overlap.\<close>

definition memcpy_within :: "string \<Rightarrow> int \<Rightarrow> int \<Rightarrow> int \<Rightarrow> string res" where
  "memcpy_within d dst src n =
     (if n < 0 \<or> dst < 0 \<or> src < 0 \<or> dst + n > int (length d) \<or> src + n > int (length d)
      then Inl OutOfBounds
      else if 0 < n \<and> \<bar>dst - src\<bar> < n then Inl OverlapCopy
      else Inr (overwrite d (nat dst) (take (nat n) (drop (nat src) d))))"

section \<open>Searching: memmem\<close>

fun memmem :: "'a list \<Rightarrow> 'a list \<Rightarrow> nat option" where
  "memmem h n =
     (if take (length n) h = n then Some 0
      else case h of [] \<Rightarrow> None | _ # h' \<Rightarrow> map_option Suc (memmem h' n))"

declare memmem.simps [simp del]

lemma memmem_Nil: "memmem [] n = (if n = [] then Some 0 else None)"
  by (auto simp: memmem.simps)

lemma memmem_Cons:
  "memmem (x # h) n =
     (if take (length n) (x # h) = n then Some 0 else map_option Suc (memmem h n))"
  by (subst memmem.simps) simp

lemma memmem_Some_occurs: "memmem h n = Some i \<Longrightarrow> take (length n) (drop i h) = n"
proof (induction h arbitrary: i)
  case Nil
  then show ?case by (simp add: memmem_Nil split: if_splits)
next
  case (Cons x h)
  then show ?case by (auto simp: memmem_Cons split: if_splits)
qed

lemma memmem_Some_split: "memmem h n = Some i \<Longrightarrow> h = take i h @ n @ drop (i + length n) h"
  by (metis append_take_drop_id drop_drop memmem_Some_occurs add.commute)

lemma memmem_Some_bound: "memmem h n = Some i \<Longrightarrow> i + length n \<le> length h"
proof (induction h arbitrary: i)
  case Nil
  then show ?case by (simp add: memmem_Nil split: if_splits)
next
  case (Cons x h)
  show ?case
  proof (cases "take (length n) (x # h) = n")
    case True
    then have "length n \<le> length (x # h)" by (metis length_take min.cobounded1)
    with True Cons.prems show ?thesis by (simp add: memmem_Cons)
  next
    case False
    with Cons show ?thesis by (auto simp: memmem_Cons)
  qed
qed

lemma memmem_Some_first:
  "memmem h n = Some i \<Longrightarrow> j < i \<Longrightarrow> take (length n) (drop j h) \<noteq> n"
proof (induction h arbitrary: i j)
  case Nil
  then show ?case by (simp add: memmem_Nil split: if_splits)
next
  case (Cons x h)
  then show ?case
    by (cases j) (auto simp: memmem_Cons split: if_splits)
qed

lemma memmem_None:
  "memmem h n = None \<Longrightarrow> take (length n) (drop j h) \<noteq> n"
proof (induction h arbitrary: j)
  case Nil
  then show ?case by (auto simp: memmem_Nil split: if_splits)
next
  case (Cons x h)
  then show ?case
    by (cases j) (auto simp: memmem_Cons split: if_splits)
qed

text \<open>A needle whose first element is absent from a prefix is first found behind it.\<close>

lemma memmem_append_single:
  "a \<notin> set xs \<Longrightarrow> memmem (xs @ a # ys) [a] = Some (length xs)"
  by (induction xs) (auto simp: memmem_Cons)

lemma memmem_append_first:
  assumes "c \<notin> set xs" and "take (length ns) ys = ns"
  shows "memmem (xs @ c # ys) (c # ns) = Some (length xs)"
  using assms by (induction xs) (auto simp: memmem_Cons)

lemma memmem_single_None: "memmem xs [a] = None \<longleftrightarrow> a \<notin> set xs"
  by (induction xs) (auto simp: memmem_Nil memmem_Cons)

section \<open>C strings\<close>

text \<open>The C string that starts a block: the bytes before the first NUL.\<close>

definition cstr :: "string \<Rightarrow> string" where
  "cstr s = takeWhile (\<lambda>c. c \<noteq> NUL) s"

definition strlen :: "string \<Rightarrow> nat" where
  "strlen s = length (cstr s)"

lemma cstr_no_NUL [simp]: "NUL \<notin> set (cstr s)"
  by (auto simp: cstr_def dest: set_takeWhileD)

lemma cstr_id: "NUL \<notin> set s \<Longrightarrow> cstr s = s"
  by (simp add: cstr_def takeWhile_eq_all_conv) auto

lemma cstr_append_NUL: "NUL \<notin> set s \<Longrightarrow> cstr (s @ NUL # t) = s"
  by (induction s) (auto simp: cstr_def)

lemma cstr_append: "cstr (s @ t) = (if NUL \<in> set s then cstr s else s @ cstr t)"
  by (induction s) (auto simp: cstr_def)

lemma cstr_before_NUL: "cstr (s @ NUL # t) = cstr s"
proof -
  have "cstr (NUL # t) = []" by (simp add: cstr_def)
  then show ?thesis by (cases "NUL \<in> set s") (simp_all add: cstr_append cstr_id)
qed

lemma cstr_idem [simp]: "cstr (cstr s) = cstr s"
  by (rule cstr_id) simp

lemma length_cstr_le: "length (cstr s) \<le> length s"
  by (simp add: cstr_def length_takeWhile_le)

lemma length_cstr_less: "NUL \<in> set s \<Longrightarrow> length (cstr s) < length s"
  unfolding cstr_def by (induction s) auto

text \<open>
  \<^verbatim>\<open>t = malloc(n + 1); strncpy(t, s, n); t[n] = 0\<close>: the copy stops at a NUL of the source
  and pads with NULs.
\<close>

definition strncpy_block :: "string \<Rightarrow> nat \<Rightarrow> string" where
  "strncpy_block s n = (let t = cstr (take n s) in t @ replicate (n - length t) NUL @ [NUL])"

lemma cstr_strncpy_block [simp]: "cstr (strncpy_block s n) = cstr (take n s)"
  by (cases "n - length (cstr (take n s))")
    (simp_all add: strncpy_block_def Let_def cstr_append_NUL)

lemma length_strncpy_block: "length (strncpy_block s n) = Suc n"
  using length_cstr_le [of "take n s"] by (simp add: strncpy_block_def Let_def)

lemma NUL_in_strncpy_block [simp]: "NUL \<in> set (strncpy_block s n)"
  by (simp add: strncpy_block_def Let_def)

text \<open>
  \<^verbatim>\<open>strcpy\<close> and \<^verbatim>\<open>sprintf\<close> into an array of \<open>n\<close> bytes: the text and its NUL must
  fit; the array is represented by the C string it holds.
\<close>

definition strcpy_into :: "nat \<Rightarrow> string \<Rightarrow> string res" where
  "strcpy_into n s = (if length s < n then Inr s else Inl OutOfBounds)"

lemma strcpy_into_eq_Inr [res_simps]: "strcpy_into n s = Inr t \<longleftrightarrow> t = s \<and> length s < n"
  by (auto simp: strcpy_into_def)

lemma strcpy_into_fits: "length s < n \<Longrightarrow> strcpy_into n s = Inr s"
  by (simp add: strcpy_into_def)

text \<open>Case folding in the C locale, and the comparisons built on it.\<close>

definition to_lower :: "char \<Rightarrow> char" where
  "to_lower c = (let n = of_char c :: nat in if 65 \<le> n \<and> n \<le> 90 then char_of (n + 32) else c)"

definition strcasecmp_eq :: "string \<Rightarrow> string \<Rightarrow> bool" where
  "strcasecmp_eq s t \<longleftrightarrow> map to_lower (cstr s) = map to_lower (cstr t)"

definition strncasecmp_eq :: "string \<Rightarrow> string \<Rightarrow> nat \<Rightarrow> bool" where
  "strncasecmp_eq s t n \<longleftrightarrow> map to_lower (take n (cstr s)) = map to_lower (take n (cstr t))"

text \<open>\<^verbatim>\<open>strrchr\<close>: the suffix that starts at the last occurrence.\<close>

fun strrchr :: "string \<Rightarrow> char \<Rightarrow> string option" where
  "strrchr [] c = None"
| "strrchr (x # xs) c =
     (case strrchr xs c of Some t \<Rightarrow> Some t | None \<Rightarrow> if x = c then Some (x # xs) else None)"

lemma strrchr_None: "strrchr s c = None \<longleftrightarrow> c \<notin> set s"
  by (induction s) (auto split: option.splits)

lemma strrchr_append: "c \<notin> set t \<Longrightarrow> strrchr (s @ c # t) c = Some (c # t)"
  by (induction s) (simp_all add: strrchr_None [THEN iffD2])

section \<open>Decimal numerals\<close>

fun dec_nat :: "nat \<Rightarrow> string" where
  "dec_nat n =
     (if n < 10 then [char_of (48 + n)] else dec_nat (n div 10) @ [char_of (48 + n mod 10)])"

declare dec_nat.simps [simp del]

definition dec_int :: "int \<Rightarrow> string" where
  "dec_int i = (if i < 0 then CHR ''-'' # dec_nat (nat (- i)) else dec_nat (nat i))"

text \<open>The reader of a peer: digits, most significant first.\<close>

definition dec_value :: "string \<Rightarrow> nat" where
  "dec_value s = foldl (\<lambda>acc c. 10 * acc + (of_char c - 48)) 0 s"

lemma dec_value_dec_nat: "dec_value (dec_nat n) = n"
proof (induction n rule: dec_nat.induct)
  case (1 n)
  show ?case
  proof (cases "n < 10")
    case True
    then show ?thesis by (simp add: dec_nat.simps [of n] dec_value_def)
  next
    case False
    with 1 have "dec_value (dec_nat (n div 10)) = n div 10" by simp
    moreover have "(48 + n mod 10) mod 256 = 48 + n mod (10::nat)" by simp
    ultimately show ?thesis
      using False by (simp add: dec_nat.simps [of n] dec_value_def)
  qed
qed

lemma length_dec_nat: "n < 10 ^ k \<Longrightarrow> 0 < k \<Longrightarrow> length (dec_nat n) \<le> k"
proof (induction n arbitrary: k rule: dec_nat.induct)
  case (1 n)
  show ?case
  proof (cases "n < 10")
    case True
    with 1 show ?thesis by (simp add: dec_nat.simps [of n])
  next
    case False
    with "1.prems" have "k \<noteq> 1" by auto
    with "1.prems"(2) obtain j where k: "k = Suc j" "0 < j"
      by (cases k) auto
    with "1.prems" have "n div 10 < 10 ^ j" by (simp add: less_mult_imp_div_less mult.commute)
    with False "1.IH" k show ?thesis by (simp add: dec_nat.simps [of n])
  qed
qed

lemma digit_char_not_NUL:
  assumes "m < 10"
  shows "(char_of (48 + m :: nat) :: char) \<noteq> NUL"
proof
  assume "(char_of (48 + m) :: char) = NUL"
  then have "of_char (char_of (48 + m) :: char) = (of_char NUL :: nat)" by simp
  with assms show False by simp
qed

lemma NUL_notin_dec_nat [simp]: "NUL \<notin> set (dec_nat n)"
proof (induction n rule: dec_nat.induct)
  case (1 n)
  with digit_char_not_NUL [of n] digit_char_not_NUL [of "n mod 10"] show ?case
    by (subst dec_nat.simps) auto
qed

section \<open>Heaps\<close>

text \<open>Reading through a pointer: an object that is not there has been freed.\<close>

definition lookup :: "('a \<Rightarrow> 'b option) \<Rightarrow> 'a \<Rightarrow> 'b res" where
  "lookup h p = (case h p of None \<Rightarrow> Inl UseAfterFree | Some x \<Rightarrow> Inr x)"

lemma lookup_simps [simp]:
  "h p = None \<Longrightarrow> lookup h p = Inl UseAfterFree"
  "h p = Some x \<Longrightarrow> lookup h p = Inr x"
  by (simp_all add: lookup_def)

lemma lookup_eq_Inr [res_simps]: "lookup h p = Inr x \<longleftrightarrow> h p = Some x"
  by (simp add: lookup_def split: option.split)

end
