(* ===== verification/Channel.thy ===== *)
theory Channel
  imports Prelude
begin

unbundle bit_operations_syntax

text \<open>
  \<^verbatim>\<open>ReactorHTTP-C/Channel.c\<close>: a file descriptor with the events it is watched for and the
  functions to call. The function pointers the program ever stores are the constructors of
  \<open>callback\<close>, NULL is \<open>None\<close>; the \<^verbatim>\<open>void*\<close> argument is a pointer with the type its callback
  casts it to. Events are the bits of a 32-bit \<^verbatim>\<open>int\<close>.
\<close>

section \<open>The code\<close>

definition TimeOut :: "32 word" where "TimeOut = 0x01"
definition ReadEvent :: "32 word" where "ReadEvent = 0x02"
definition WriteEvent :: "32 word" where "WriteEvent = 0x04"

datatype callback =
    ReadLocalMessage | AcceptConnection | ProcessRead | ProcessWrite | TcpConnectionDestroy

datatype cb_arg = LoopArg nat | ServerArg nat | ConnArg nat

record channel =
  ch_fd :: int
  ch_events :: "32 word"
  readCallback :: "callback option"
  writeCallback :: "callback option"
  destroyCallback :: "callback option"
  ch_arg :: cb_arg

definition channelInit ::
  "int \<Rightarrow> 32 word \<Rightarrow> callback option \<Rightarrow> callback option \<Rightarrow> callback option \<Rightarrow> cb_arg \<Rightarrow> channel" where
  "channelInit fd events readCb writeCb destroyCb arg =
     \<lparr>ch_fd = fd, ch_events = events, readCallback = readCb, writeCallback = writeCb,
      destroyCallback = destroyCb, ch_arg = arg\<rparr>"

definition writeEventEnable :: "channel \<Rightarrow> bool \<Rightarrow> channel" where
  "writeEventEnable channel flag =
     (if flag then channel\<lparr>ch_events := ch_events channel OR WriteEvent\<rparr>
      else channel\<lparr>ch_events := ch_events channel AND NOT WriteEvent\<rparr>)"

definition isEnableWrite :: "channel \<Rightarrow> bool" where
  "isEnableWrite channel \<longleftrightarrow> ch_events channel AND WriteEvent \<noteq> 0"

text \<open>The test \<^verbatim>\<open>events & flag\<close> the dispatchers make.\<close>

definition has_event :: "32 word \<Rightarrow> 32 word \<Rightarrow> bool" where
  "has_event events flag \<longleftrightarrow> events AND flag \<noteq> 0"

section \<open>Bits\<close>

lemma bit_WriteEvent: "bit WriteEvent n \<longleftrightarrow> n = 2"
  using bit_push_bit_iff [of 2 "1 :: 32 word" n]
  by (auto simp: WriteEvent_def bit_1_iff push_bit_eq_mult)

lemma bit_ReadEvent: "bit ReadEvent n \<longleftrightarrow> n = 1"
  using bit_push_bit_iff [of 1 "1 :: 32 word" n]
  by (auto simp: ReadEvent_def bit_1_iff push_bit_eq_mult)

lemma has_event_bit:
  assumes "\<And>n. bit flag n \<longleftrightarrow> n = k"
  shows "has_event events flag \<longleftrightarrow> bit events k"
proof
  assume "has_event events flag"
  then obtain n where "bit (events AND flag) n"
    unfolding has_event_def by (auto simp: bit_eq_iff)
  with assms show "bit events k" by (auto simp: bit_and_iff)
next
  assume "bit events k"
  with assms have "bit (events AND flag) k" by (simp add: bit_and_iff)
  then show "has_event events flag" unfolding has_event_def by auto
qed

lemma has_ReadEvent: "has_event events ReadEvent \<longleftrightarrow> bit events 1"
  by (rule has_event_bit) (rule bit_ReadEvent)

lemma has_WriteEvent: "has_event events WriteEvent \<longleftrightarrow> bit events 2"
  by (rule has_event_bit) (rule bit_WriteEvent)

lemma isEnableWrite_bit: "isEnableWrite c \<longleftrightarrow> bit (ch_events c) 2"
  using has_WriteEvent [of "ch_events c"] by (simp add: isEnableWrite_def has_event_def)

lemma writeEventEnable_frame [simp]:
  "ch_fd (writeEventEnable c f) = ch_fd c"
  "readCallback (writeEventEnable c f) = readCallback c"
  "writeCallback (writeEventEnable c f) = writeCallback c"
  "destroyCallback (writeEventEnable c f) = destroyCallback c"
  "ch_arg (writeEventEnable c f) = ch_arg c"
  by (simp_all add: writeEventEnable_def)

lemma bit_events_writeEventEnable:
  "bit (ch_events (writeEventEnable c f)) n \<longleftrightarrow>
     (if n = 2 then f else bit (ch_events c) n)"
  using bit_imp_le_length [of "ch_events c" n]
  by (auto simp: writeEventEnable_def bit_or_iff bit_and_iff bit_not_iff bit_WriteEvent)

section \<open>Properties\<close>

text \<open>
  Switching the write event of a channel on or off sets exactly that: the write test gives
  the flag, every other event bit keeps its value, the descriptor, the callbacks and their
  argument stay, and a second switch overrides the first.
\<close>

theorem writeEventEnable_correct:
  "isEnableWrite (writeEventEnable c f) = f \<and>
   (\<forall>n. bit (ch_events (writeEventEnable c f)) n = (if n = 2 then f else bit (ch_events c) n)) \<and>
   ch_fd (writeEventEnable c f) = ch_fd c \<and>
   readCallback (writeEventEnable c f) = readCallback c \<and>
   writeCallback (writeEventEnable c f) = writeCallback c \<and>
   destroyCallback (writeEventEnable c f) = destroyCallback c \<and>
   ch_arg (writeEventEnable c f) = ch_arg c \<and>
   writeEventEnable (writeEventEnable c g) f = writeEventEnable c f"
proof -
  have "ch_events (writeEventEnable (writeEventEnable c g) f) = ch_events (writeEventEnable c f)"
    by (rule bit_eqI) (simp add: bit_events_writeEventEnable)
  then have "writeEventEnable (writeEventEnable c g) f = writeEventEnable c f"
    by (intro channel.equality) (simp_all add: writeEventEnable_def)
  then show ?thesis
    by (simp add: isEnableWrite_bit bit_events_writeEventEnable)
qed

end
