(* ===== verification/Dispatcher.thy ===== *)
theory Dispatcher
  imports Channel
begin

text \<open>
  \<^verbatim>\<open>ReactorHTTP-C/Dispatcher.h\<close>: the table of functions an event loop calls. What the loop
  relies on is stated as two locales over the map from descriptors to what they are watched for:
  adding and removing, and modifying on top of it. \<^verbatim>\<open>poll\<close>, \<^verbatim>\<open>select\<close> and
  \<^verbatim>\<open>epoll\<close> are interpretations, in their own theories.
\<close>

section \<open>What a channel is watched for\<close>

text \<open>Reading and writing, as the dispatchers take it from \<^verbatim>\<open>channel->events\<close>.\<close>

type_synonym watch = "bool \<times> bool"

definition watch_of :: "channel \<Rightarrow> watch" where
  "watch_of c = (has_event (ch_events c) ReadEvent, has_event (ch_events c) WriteEvent)"

datatype disp_op = Add channel | Remove channel | Modify channel

text \<open>The meaning of the operations on the map of watched descriptors.\<close>

fun watch_step :: "disp_op \<Rightarrow> (int \<rightharpoonup> watch) \<Rightarrow> (int \<rightharpoonup> watch)" where
  "watch_step (Add c) m = m(ch_fd c \<mapsto> watch_of c)"
| "watch_step (Remove c) m = m(ch_fd c := None)"
| "watch_step (Modify c) m = m(ch_fd c \<mapsto> watch_of c)"

text \<open>
  An operation a loop may make: it watches new descriptors for something while there is room,
  and removes or modifies only what is watched, removing it with the events it is watched for.
\<close>

type_synonym room = "(int \<rightharpoonup> watch) \<Rightarrow> int \<Rightarrow> bool"

fun op_legal :: "room \<Rightarrow> disp_op \<Rightarrow> (int \<rightharpoonup> watch) \<Rightarrow> bool" where
  "op_legal room (Add c) m \<longleftrightarrow>
     0 \<le> ch_fd c \<and> m (ch_fd c) = None \<and> watch_of c \<noteq> (False, False) \<and> room m (ch_fd c)"
| "op_legal room (Remove c) m \<longleftrightarrow> m (ch_fd c) = Some (watch_of c)"
| "op_legal room (Modify c) m \<longleftrightarrow> m (ch_fd c) \<noteq> None \<and> watch_of c \<noteq> (False, False)"

fun ops_legal :: "room \<Rightarrow> disp_op list \<Rightarrow> (int \<rightharpoonup> watch) \<Rightarrow> bool" where
  "ops_legal room [] m \<longleftrightarrow> True"
| "ops_legal room (op # ops) m \<longleftrightarrow> op_legal room op m \<and> ops_legal room ops (watch_step op m)"

section \<open>Calling out\<close>

text \<open>Calling a function for each of a list of events, stopping at a fault.\<close>

fun activate_all :: "(int \<Rightarrow> 32 word \<Rightarrow> 'w \<Rightarrow> 'w run) \<Rightarrow> (int \<times> 32 word) list \<Rightarrow> 'w \<Rightarrow> 'w run" where
  "activate_all act [] w = Some (Inr w)"
| "activate_all act ((fd, ev) # es) w = bindO (act fd ev w) (activate_all act es)"

lemma activate_all_append:
  "activate_all act (es @ es') w = bindO (activate_all act es w) (activate_all act es')"
  by (induction es arbitrary: w) (auto simp: bindO_assoc intro!: bindO_cong_on)

section \<open>The contract\<close>

text \<open>
  The operations return 0 or -1 beside the new data, or end the process. A removal also calls the
  destroy callback of the channel; the contract is about the dispatcher's data.
\<close>

locale watcher =
  fixes dinv :: "'d \<Rightarrow> bool"
    and interest :: "'d \<Rightarrow> int \<rightharpoonup> watch"
    and room :: room
    and add :: "channel \<Rightarrow> 'd \<Rightarrow> (int \<times> 'd) res"
    and remove :: "channel \<Rightarrow> 'd \<Rightarrow> (int \<times> 'd) res"
  assumes add_law: "dinv d \<Longrightarrow> op_legal room (Add c) (interest d) \<Longrightarrow>
      \<exists>d'. add c d = Inr (0, d') \<and> dinv d' \<and> interest d' = watch_step (Add c) (interest d)"
    and remove_law: "dinv d \<Longrightarrow> op_legal room (Remove c) (interest d) \<Longrightarrow>
      \<exists>d'. remove c d = Inr (0, d') \<and> dinv d' \<and> interest d' = watch_step (Remove c) (interest d)"
begin

lemma add_then_remove:
  assumes "dinv d" and "op_legal room (Add c) (interest d)"
  shows "\<exists>d1 d2. add c d = Inr (0, d1) \<and> remove c d1 = Inr (0, d2) \<and> dinv d2 \<and>
    interest d2 = interest d"
proof -
  from add_law [OF assms] obtain d1 where d1: "add c d = Inr (0, d1)" "dinv d1"
      "interest d1 = (interest d)(ch_fd c \<mapsto> watch_of c)" by auto
  then have "op_legal room (Remove c) (interest d1)" by simp
  from remove_law [OF d1(2) this] obtain d2 where
    d2: "remove c d1 = Inr (0, d2)" "dinv d2" "interest d2 = (interest d1)(ch_fd c := None)" by auto
  with d1 assms(2) have "interest d2 = interest d" by (auto simp: fun_eq_iff)
  with d1 d2 show ?thesis by blast
qed

end

locale modifying_watcher = watcher +
  fixes modify :: "channel \<Rightarrow> 'a \<Rightarrow> (int \<times> 'a) res"
  assumes modify_law: "dinv d \<Longrightarrow> op_legal room (Modify c) (interest d) \<Longrightarrow>
      \<exists>d'. modify c d = Inr (0, d') \<and> dinv d' \<and> interest d' = watch_step (Modify c) (interest d)"

text \<open>Running a sequence of operations, stopping at the first that does not return 0.\<close>

fun run_disp ::
  "(channel \<Rightarrow> 'd \<Rightarrow> (int \<times> 'd) res) \<Rightarrow> (channel \<Rightarrow> 'd \<Rightarrow> (int \<times> 'd) res) \<Rightarrow>
   (channel \<Rightarrow> 'd \<Rightarrow> (int \<times> 'd) res) \<Rightarrow> disp_op list \<Rightarrow> 'd \<Rightarrow> 'd option" where
  "run_disp ad rm md [] d = Some d"
| "run_disp ad rm md (op # ops) d =
     (case (case op of Add c \<Rightarrow> ad c d | Remove c \<Rightarrow> rm c d | Modify c \<Rightarrow> md c d) of
        Inl e \<Rightarrow> None
      | Inr (r, d') \<Rightarrow> if r = 0 then run_disp ad rm md ops d' else None)"

context modifying_watcher
begin

lemma step_law:
  assumes "dinv d" and "op_legal room op (interest d)"
  shows "\<exists>d'. (case op of Add c \<Rightarrow> add c d | Remove c \<Rightarrow> remove c d | Modify c \<Rightarrow> modify c d) = Inr (0, d') \<and>
    dinv d' \<and> interest d' = watch_step op (interest d)"
  using assms add_law remove_law modify_law by (cases op) auto

text \<open>
  Along any legal sequence of operations every operation succeeds and the dispatcher watches
  what the sequence says.
\<close>

lemma run_law:
  assumes "dinv d" and "ops_legal room ops (interest d)"
  shows "\<exists>d'. run_disp add remove modify ops d = Some d' \<and> dinv d' \<and>
    interest d' = fold watch_step ops (interest d)"
  using assms
proof (induction ops arbitrary: d)
  case Nil
  then show ?case by simp
next
  case (Cons op ops)
  then obtain d1 where
    d1: "(case op of Add c \<Rightarrow> add c d | Remove c \<Rightarrow> remove c d | Modify c \<Rightarrow> modify c d) = Inr (0, d1)"
      "dinv d1" "interest d1 = watch_step op (interest d)"
    using step_law [of d op] by auto
  with Cons.prems Cons.IH [OF d1(2)] show ?case by simp
qed

end

end
