(* ===== verification/Poll.thy ===== *)
theory Poll
  imports Dispatcher
begin

text \<open>
  \<^verbatim>\<open>ReactorHTTP-C/PollDispatcher.c\<close>. The dispatcher's data is a part of a larger state \<open>'w\<close>
  that the callbacks change, reached through \<open>get\<close> and \<open>put\<close>; \<open>destroy\<close> and \<open>activate\<close> are the
  functions it calls out to. What \<^verbatim>\<open>poll\<close> reports is an argument.
\<close>

section \<open>The code\<close>

definition POLLIN :: "16 word" where "POLLIN = 0x01"
definition POLLOUT :: "16 word" where "POLLOUT = 0x04"

record pollfd =
  pfd :: int
  pevents :: "16 word"
  revents :: "16 word"

record poll_data =
  maxfd :: int
  fds :: "pollfd list"

definition POLL_MAX :: nat where "POLL_MAX = 1024"

definition pollInit :: poll_data where
  "pollInit = \<lparr>maxfd = 0, fds = replicate POLL_MAX \<lparr>pfd = -1, pevents = 0, revents = 0\<rparr>\<rparr>"

definition poll_events :: "channel \<Rightarrow> 16 word" where
  "poll_events c =
     (if has_event (ch_events c) ReadEvent then POLLIN else 0) OR
     (if has_event (ch_events c) WriteEvent then POLLOUT else 0)"

text \<open>The first slot that holds the descriptor \<open>fd\<close>.\<close>

fun find_slot :: "int \<Rightarrow> pollfd list \<Rightarrow> nat option" where
  "find_slot fd [] = None"
| "find_slot fd (p # ps) = (if pfd p = fd then Some 0 else map_option Suc (find_slot fd ps))"

definition pollAdd :: "channel \<Rightarrow> poll_data \<Rightarrow> (int \<times> poll_data) res" where
  "pollAdd channel data =
     (let events = poll_events channel in
      case find_slot (-1) (fds data) of
        None \<Rightarrow> Inr (-1, data)
      | Some i \<Rightarrow>
          Inr (0, data\<lparr>fds := (fds data)[i := (fds data ! i)\<lparr>pfd := ch_fd channel, pevents := events\<rparr>],
                       maxfd := (if maxfd data < int i then int i else maxfd data)\<rparr>))"

definition pollRemove ::
  "('w \<Rightarrow> poll_data) \<Rightarrow> (poll_data \<Rightarrow> 'w \<Rightarrow> 'w) \<Rightarrow> (callback \<Rightarrow> cb_arg \<Rightarrow> 'w \<Rightarrow> 'w res) \<Rightarrow>
   channel \<Rightarrow> 'w \<Rightarrow> (int \<times> 'w) res" where
  "pollRemove get put destroy channel w =
     (let data = get w; i = find_slot (ch_fd channel) (fds data);
          w = (case i of
                 None \<Rightarrow> w
               | Some i \<Rightarrow>
                   put (data\<lparr>fds := (fds data)[i := \<lparr>pfd = -1, pevents = 0, revents = 0\<rparr>]\<rparr>) w) in
      case destroyCallback channel of
        None \<Rightarrow> Inl NullDeref
      | Some f \<Rightarrow>
          bindR (destroy f (ch_arg channel) w) (\<lambda>w. Inr (if i = None then -1 else 0, w)))"

definition pollModify :: "channel \<Rightarrow> poll_data \<Rightarrow> (int \<times> poll_data) res" where
  "pollModify channel data =
     (let events = poll_events channel in
      case find_slot (ch_fd channel) (fds data) of
        None \<Rightarrow> Inr (-1, data)
      | Some i \<Rightarrow> Inr (0, data\<lparr>fds := (fds data)[i := (fds data ! i)\<lparr>pevents := events\<rparr>]\<rparr>))"

text \<open>
  \<^verbatim>\<open>poll\<close> fills \<^verbatim>\<open>revents\<close> of the first \<^verbatim>\<open>maxfd + 1\<close> slots, 0 where the
  descriptor is negative; when it fails (\<open>None\<close>) they keep their old values.
\<close>

definition poll_fill :: "(nat \<Rightarrow> 16 word) option \<Rightarrow> poll_data \<Rightarrow> poll_data" where
  "poll_fill ready data =
     (case ready of
        None \<Rightarrow> data
      | Some r \<Rightarrow>
          data\<lparr>fds := map (\<lambda>(i, p). if int i \<le> maxfd data
                                   then p\<lparr>revents := if pfd p < 0 then 0 else r i\<rparr> else p)
                          (enumerate 0 (fds data))\<rparr>)"

text \<open>The test \<^verbatim>\<open>revents & flag\<close>.\<close>

definition revent :: "pollfd \<Rightarrow> 16 word \<Rightarrow> bool" where
  "revent p flag \<longleftrightarrow> revents p AND flag \<noteq> 0"

partial_function (option) poll_loop ::
  "('w \<Rightarrow> poll_data) \<Rightarrow> (int \<Rightarrow> 32 word \<Rightarrow> 'w \<Rightarrow> 'w run) \<Rightarrow> nat \<Rightarrow> 'w \<Rightarrow> 'w run" where
  "poll_loop get activate i w =
     (if int i \<le> maxfd (get w) then
        (if length (fds (get w)) \<le> i then Some (Inl OutOfBounds)
         else
           (let p = fds (get w) ! i in
            if pfd p = -1 then poll_loop get activate (Suc i) w
            else
              bindO (if revent p POLLIN then activate (pfd p) ReadEvent w else Some (Inr w)) (\<lambda>w.
              bindO (let p = fds (get w) ! i in
                     if revent p POLLOUT then activate (pfd p) WriteEvent w else Some (Inr w)) (\<lambda>w.
              poll_loop get activate (Suc i) w))))
      else Some (Inr w))"

definition pollDispatch ::
  "('w \<Rightarrow> poll_data) \<Rightarrow> (poll_data \<Rightarrow> 'w \<Rightarrow> 'w) \<Rightarrow> (nat \<Rightarrow> 16 word) option \<Rightarrow>
   (int \<Rightarrow> 32 word \<Rightarrow> 'w \<Rightarrow> 'w run) \<Rightarrow> 'w \<Rightarrow> 'w run" where
  "pollDispatch get put ready activate w =
     poll_loop get activate 0 (put (poll_fill ready (get w)) w)"

text \<open>The data block is freed.\<close>

definition pollClear :: "poll_data option \<Rightarrow> poll_data option res" where
  "pollClear data = (case data of None \<Rightarrow> Inl UseAfterFree | Some _ \<Rightarrow> Inr None)"

section \<open>Slots\<close>

lemma find_slot_Some:
  "find_slot fd ps = Some i \<Longrightarrow> i < length ps \<and> pfd (ps ! i) = fd \<and> (\<forall>j < i. pfd (ps ! j) \<noteq> fd)"
proof (induction ps arbitrary: i)
  case (Cons p ps)
  show ?case
  proof (cases "pfd p = fd")
    case False
    with Cons.prems obtain k where k: "i = Suc k" "find_slot fd ps = Some k" by auto
    have "\<forall>j < i. pfd ((p # ps) ! j) \<noteq> fd"
      using Cons.IH [OF k(2)] False k(1) by (auto simp: less_Suc_eq_0_disj)
    with Cons.IH [OF k(2)] k(1) show ?thesis by simp
  qed (use Cons.prems in auto)
qed simp

lemma find_slot_None: "find_slot fd ps = None \<longleftrightarrow> fd \<notin> pfd ` set ps"
  by (induction ps) auto

lemma find_slot_unique:
  assumes "i < length ps" and "pfd (ps ! i) = fd" and "\<And>j. j < i \<Longrightarrow> pfd (ps ! j) \<noteq> fd"
  shows "find_slot fd ps = Some i"
proof (cases "find_slot fd ps")
  case None
  with assms(1,2) show ?thesis by (auto simp: find_slot_None)
next
  case (Some k)
  from find_slot_Some [OF Some] assms show ?thesis
    using Some by (metis linorder_neqE_nat)
qed

section \<open>The invariant\<close>

definition poll_inv :: "poll_data \<Rightarrow> bool" where
  "poll_inv d \<longleftrightarrow> length (fds d) = 1024 \<and> 0 \<le> maxfd d \<and> maxfd d < 1024 \<and>
     (\<forall>i < 1024. -1 \<le> pfd (fds d ! i)) \<and>
     (\<forall>i < 1024. maxfd d < int i \<longrightarrow> pfd (fds d ! i) = -1) \<and>
     (\<forall>i < 1024. \<forall>j < 1024. pfd (fds d ! i) = pfd (fds d ! j) \<longrightarrow> pfd (fds d ! i) \<noteq> -1 \<longrightarrow> i = j)"

definition poll_watch :: "16 word \<Rightarrow> watch" where
  "poll_watch ev = (ev AND POLLIN \<noteq> 0, ev AND POLLOUT \<noteq> 0)"

definition poll_interest :: "poll_data \<Rightarrow> int \<rightharpoonup> watch" where
  "poll_interest d fd =
     (if fd < 0 then None
      else map_option (\<lambda>i. poll_watch (pevents (fds d ! i))) (find_slot fd (fds d)))"

definition poll_room :: room where
  "poll_room m fd \<longleftrightarrow> card (dom m) < 1024"

lemma pollInit_inv: "poll_inv pollInit \<and> poll_interest pollInit = Map.empty"
proof -
  have "find_slot fd (replicate 1024 \<lparr>pfd = -1, pevents = 0, revents = 0\<rparr>) = None" if "0 \<le> fd" for fd
    using that by (auto simp: find_slot_None)
  then show ?thesis
    by (auto simp: poll_inv_def pollInit_def POLL_MAX_def poll_interest_def fun_eq_iff)
qed

lemma poll_watch_events: "poll_watch (poll_events c) = watch_of c"
  by (auto simp: poll_watch_def poll_events_def watch_of_def POLLIN_def POLLOUT_def)

lemma poll_invD:
  assumes "poll_inv d"
  shows "length (fds d) = 1024" "0 \<le> maxfd d" "maxfd d < 1024"
    "i < 1024 \<Longrightarrow> -1 \<le> pfd (fds d ! i)"
    "i < 1024 \<Longrightarrow> maxfd d < int i \<Longrightarrow> pfd (fds d ! i) = -1"
    "i < 1024 \<Longrightarrow> j < 1024 \<Longrightarrow> pfd (fds d ! i) = pfd (fds d ! j) \<Longrightarrow> pfd (fds d ! i) \<noteq> -1 \<Longrightarrow> i = j"
  using assms unfolding poll_inv_def by blast+

text \<open>An occupied slot determines what its descriptor is watched for.\<close>

lemma poll_interest_slot:
  assumes "poll_inv d" and "i < 1024" and "pfd (fds d ! i) = fd" and "fd \<noteq> -1"
  shows "poll_interest d fd = Some (poll_watch (pevents (fds d ! i)))"
proof -
  note inv = poll_invD [OF assms(1)]
  have "pfd (fds d ! j) \<noteq> fd" if "j < i" for j
    using inv(6) [of j i] assms(2-4) that by auto
  then have f: "find_slot fd (fds d) = Some i"
    using inv(1) assms(2,3) by (intro find_slot_unique) auto
  have "-1 \<le> fd" using inv(4) [OF assms(2)] assms(3) by simp
  with assms(4) have "0 \<le> fd" by linarith
  with f show ?thesis by (simp add: poll_interest_def)
qed

lemma poll_interest_None: "poll_interest d fd = None \<longleftrightarrow> fd < 0 \<or> fd \<notin> pfd ` set (fds d)"
  by (simp add: poll_interest_def find_slot_None)

lemma poll_interest_dom: "dom (poll_interest d) = {fd \<in> pfd ` set (fds d). 0 \<le> fd}"
  unfolding dom_def poll_interest_None by auto

lemma poll_full:
  assumes inv: "poll_inv d" and full: "find_slot (-1) (fds d) = None"
  shows "card (dom (poll_interest d)) = 1024"
proof -
  note len = poll_invD(1) [OF inv]
  have ne: "pfd (fds d ! i) \<noteq> -1" if "i < 1024" for i
    using full that len by (auto simp: find_slot_None) (metis image_eqI nth_mem)
  have pos: "0 \<le> pfd (fds d ! i)" if "i < 1024" for i
  proof -
    have "-1 \<le> pfd (fds d ! i)" using poll_invD(4) [OF inv that] .
    with ne [OF that] show ?thesis by linarith
  qed
  have "set (fds d) = (!) (fds d) ` {..<1024}"
    using nth_image [of 1024 "fds d"] len by (simp add: lessThan_atLeast0)
  then have "pfd ` set (fds d) = (\<lambda>i. pfd (fds d ! i)) ` {..<1024}" by (simp add: image_image)
  then have "dom (poll_interest d) = (\<lambda>i. pfd (fds d ! i)) ` {..<1024}"
    using pos by (auto simp: poll_interest_dom)
  moreover have "inj_on (\<lambda>i. pfd (fds d ! i)) {..<1024}"
    using poll_invD(6) [OF inv] ne by (auto simp: inj_on_def)
  ultimately show ?thesis by (simp add: card_image)
qed

lemma poll_interest_Some:
  assumes "poll_inv d"
  shows "poll_interest d fd = Some w \<longleftrightarrow>
    0 \<le> fd \<and> (\<exists>i < 1024. pfd (fds d ! i) = fd \<and> poll_watch (pevents (fds d ! i)) = w)"
proof
  assume "poll_interest d fd = Some w"
  then obtain i where "0 \<le> fd" "find_slot fd (fds d) = Some i" "poll_watch (pevents (fds d ! i)) = w"
    by (auto simp: poll_interest_def split: if_splits)
  with find_slot_Some [of fd "fds d" i] poll_invD(1) [OF assms]
  show "0 \<le> fd \<and> (\<exists>i < 1024. pfd (fds d ! i) = fd \<and> poll_watch (pevents (fds d ! i)) = w)" by auto
next
  assume "0 \<le> fd \<and> (\<exists>i < 1024. pfd (fds d ! i) = fd \<and> poll_watch (pevents (fds d ! i)) = w)"
  with poll_interest_slot [OF assms] show "poll_interest d fd = Some w" by auto
qed

section \<open>The contract\<close>

text \<open>The removal as an operation on the dispatcher's data alone.\<close>

definition poll_remove_data :: "channel \<Rightarrow> poll_data \<Rightarrow> (int \<times> poll_data) res" where
  "poll_remove_data c d = pollRemove (\<lambda>d. d) (\<lambda>d _. d) (\<lambda>_ _ d. Inr d)
     (c\<lparr>destroyCallback := Some TcpConnectionDestroy\<rparr>) d"

text \<open>Replacing one slot, for all three operations.\<close>

lemma poll_set_slot:
  assumes inv: "poll_inv d" and i: "i < 1024" and q: "-1 \<le> pfd q" and m: "int i \<le> m" "maxfd d \<le> m" "m < 1024"
    and new: "\<And>j. pfd q \<noteq> -1 \<Longrightarrow> j < 1024 \<Longrightarrow> j \<noteq> i \<Longrightarrow> pfd (fds d ! j) \<noteq> pfd q"
  shows "poll_inv (d\<lparr>fds := (fds d)[i := q], maxfd := m\<rparr>)" (is "poll_inv ?d")
    and "poll_interest (d\<lparr>fds := (fds d)[i := q], maxfd := m\<rparr>) fd =
      (if pfd q = fd \<and> 0 \<le> fd then Some (poll_watch (pevents q))
       else if pfd (fds d ! i) = fd then None else poll_interest d fd)"
proof -
  note invs = poll_invD [OF inv]
  have nth: "fds ?d ! j = (if j = i then q else fds d ! j)" for j
    using i invs(1) by (simp add: nth_list_update)
  show inv': "poll_inv ?d"
    unfolding poll_inv_def nth
  proof (intro conjI allI impI)
    fix j k assume "j < 1024" "k < 1024"
      "pfd (if j = i then q else fds d ! j) = pfd (if k = i then q else fds d ! k)"
      "pfd (if j = i then q else fds d ! j) \<noteq> -1"
    with new [of j] new [of k] invs(6) [of j k] show "j = k"
      by (cases "j = i"; cases "k = i") auto
  qed (use invs i q m in auto)
  show "poll_interest ?d fd = (if pfd q = fd \<and> 0 \<le> fd then Some (poll_watch (pevents q))
       else if pfd (fds d ! i) = fd then None else poll_interest d fd)"
  proof (cases "0 \<le> fd")
    case neg: False
    then have "poll_interest ?d fd = None" "poll_interest d fd = None"
      by (simp_all add: poll_interest_None)
    with neg show ?thesis by simp
  next
    case pos: True
    consider "pfd q = fd" | "pfd q \<noteq> fd" "pfd (fds d ! i) = fd" | "pfd q \<noteq> fd" "pfd (fds d ! i) \<noteq> fd"
      by blast
    then show ?thesis
    proof cases
      case 1
      have "poll_interest ?d fd = Some (poll_watch (pevents (fds ?d ! i)))"
        using pos 1 i invs(1) by (intro poll_interest_slot [OF inv' i]) simp_all
      with pos 1 i invs(1) show ?thesis by simp
    next
      case 2
      have "pfd (fds ?d ! j) \<noteq> fd" if "j < 1024" for j
        using invs(6) [OF that i] 2 pos i invs(1) by (cases "j = i") auto
      then have "poll_interest ?d fd \<noteq> Some w" for w
        unfolding poll_interest_Some [OF inv'] by blast
      then have "poll_interest ?d fd = None" by blast
      with 2 show ?thesis by simp
    next
      case 3
      then have "(pfd (fds ?d ! j) = fd \<and> poll_watch (pevents (fds ?d ! j)) = w) =
          (pfd (fds d ! j) = fd \<and> poll_watch (pevents (fds d ! j)) = w)" for j w
        unfolding nth by auto
      then have "poll_interest ?d fd = Some w \<longleftrightarrow> poll_interest d fd = Some w" for w
        unfolding poll_interest_Some [OF inv'] poll_interest_Some [OF inv] by simp
      then have "poll_interest ?d fd = poll_interest d fd" by (metis option.exhaust)
      with 3 show ?thesis by simp
    qed
  qed
qed

lemma pollAdd_law:
  assumes inv: "poll_inv d" and legal: "op_legal poll_room (Add c) (poll_interest d)"
  shows "\<exists>d'. pollAdd c d = Inr (0, d') \<and> poll_inv d' \<and> poll_interest d' = watch_step (Add c) (poll_interest d)"
proof -
  from legal have l: "0 \<le> ch_fd c" "poll_interest d (ch_fd c) = None" "card (dom (poll_interest d)) < 1024"
    by (simp_all add: poll_room_def)
  with poll_full [OF inv] obtain i where i: "find_slot (-1) (fds d) = Some i" by fastforce
  note invs = poll_invD [OF inv]
  from find_slot_Some [OF i] invs(1) have i': "i < 1024" "pfd (fds d ! i) = -1" by auto
  have new: "pfd (fds d ! j) \<noteq> ch_fd c" if "j < 1024" for j
    using poll_interest_slot [OF inv that, of "ch_fd c"] l(1,2) by auto
  let ?q = "(fds d ! i)\<lparr>pfd := ch_fd c, pevents := poll_events c\<rparr>"
  let ?m = "if maxfd d < int i then int i else maxfd d"
  let ?d = "d\<lparr>fds := (fds d)[i := ?q], maxfd := ?m\<rparr>"
  have "pollAdd c d = Inr (0, ?d)" using i by (simp add: pollAdd_def)
  moreover have m: "int i \<le> ?m" "maxfd d \<le> ?m" "?m < 1024" "-1 \<le> pfd ?q"
    using invs(3) i'(1) l(1) by auto
  note up = poll_set_slot [OF inv i'(1) m(4,1,2,3)]
  have "poll_inv ?d" by (rule up(1)) (use new in auto)
  moreover have "poll_interest ?d fd = ((poll_interest d)(ch_fd c \<mapsto> watch_of c)) fd" for fd
  proof -
    have "poll_interest ?d fd = (if pfd ?q = fd \<and> 0 \<le> fd then Some (poll_watch (pevents ?q))
       else if pfd (fds d ! i) = fd then None else poll_interest d fd)"
      by (rule up(2)) (use new in auto)
    moreover have "poll_interest d (-1) = None" by (simp add: poll_interest_None)
    ultimately show ?thesis using l(1) i'(2) by (auto simp: poll_watch_events)
  qed
  ultimately show ?thesis by (auto simp: fun_eq_iff)
qed

text \<open>The slot of a watched descriptor.\<close>

lemma poll_watched_slot:
  assumes inv: "poll_inv d" and "poll_interest d fd \<noteq> None"
  obtains i where "find_slot fd (fds d) = Some i" "0 \<le> fd" "i < 1024" "pfd (fds d ! i) = fd"
    "int i \<le> maxfd d"
proof -
  note invs = poll_invD [OF inv]
  from assms(2) obtain i where i: "find_slot fd (fds d) = Some i" "0 \<le> fd"
    by (auto simp: poll_interest_def split: if_splits)
  from find_slot_Some [OF i(1)] invs(1) have i': "i < 1024" "pfd (fds d ! i) = fd" by auto
  have "int i \<le> maxfd d" using invs(5) [OF i'(1)] i'(2) i(2) by (cases "maxfd d < int i") simp_all
  with that i i' show ?thesis by blast
qed

lemma pollRemove_law:
  assumes inv: "poll_inv d" and legal: "op_legal poll_room (Remove c) (poll_interest d)"
  shows "\<exists>d'. poll_remove_data c d = Inr (0, d') \<and> poll_inv d' \<and>
    poll_interest d' = watch_step (Remove c) (poll_interest d)"
proof -
  note invs = poll_invD [OF inv]
  from legal have "poll_interest d (ch_fd c) \<noteq> None" by simp
  with inv obtain i where i: "find_slot (ch_fd c) (fds d) = Some i" "0 \<le> ch_fd c" "i < 1024"
      "pfd (fds d ! i) = ch_fd c" "int i \<le> maxfd d" by (rule poll_watched_slot)
  let ?q = "\<lparr>pfd = -1, pevents = 0, revents = 0\<rparr>"
  let ?d = "d\<lparr>fds := (fds d)[i := ?q], maxfd := maxfd d\<rparr>"
  have "poll_remove_data c d = Inr (0, ?d)" using i by (simp add: poll_remove_data_def pollRemove_def)
  moreover have q: "-1 \<le> pfd ?q" by simp
  note up = poll_set_slot [OF inv i(3) q i(5) order_refl invs(3)]
  have "poll_inv ?d" by (rule up(1)) simp
  moreover have "poll_interest ?d fd = ((poll_interest d)(ch_fd c := None)) fd" for fd
  proof -
    have "poll_interest ?d fd = (if pfd ?q = fd \<and> 0 \<le> fd then Some (poll_watch (pevents ?q))
       else if pfd (fds d ! i) = fd then None else poll_interest d fd)"
      by (rule up(2)) simp
    with i(4) show ?thesis by auto
  qed
  ultimately show ?thesis by (auto simp: fun_eq_iff)
qed

lemma pollModify_law:
  assumes inv: "poll_inv d" and legal: "op_legal poll_room (Modify c) (poll_interest d)"
  shows "\<exists>d'. pollModify c d = Inr (0, d') \<and> poll_inv d' \<and>
    poll_interest d' = watch_step (Modify c) (poll_interest d)"
proof -
  note invs = poll_invD [OF inv]
  from legal have "poll_interest d (ch_fd c) \<noteq> None" by simp
  with inv obtain i where i: "find_slot (ch_fd c) (fds d) = Some i" "0 \<le> ch_fd c" "i < 1024"
      "pfd (fds d ! i) = ch_fd c" "int i \<le> maxfd d" by (rule poll_watched_slot)
  let ?q = "(fds d ! i)\<lparr>pevents := poll_events c\<rparr>"
  let ?d = "d\<lparr>fds := (fds d)[i := ?q], maxfd := maxfd d\<rparr>"
  have "pollModify c d = Inr (0, ?d)" using i by (simp add: pollModify_def)
  moreover have q: "-1 \<le> pfd ?q" using i(2,4) by simp
  have new: "pfd (fds d ! j) \<noteq> pfd ?q" if "pfd ?q \<noteq> -1" "j < 1024" "j \<noteq> i" for j
    using invs(6) [OF that(2) i(3)] that i(4) by auto
  note up = poll_set_slot [OF inv i(3) q i(5) order_refl invs(3) new]
  have "poll_inv ?d" by (rule up(1))
  moreover have "poll_interest ?d fd = ((poll_interest d)(ch_fd c \<mapsto> watch_of c)) fd" for fd
  proof -
    have "poll_interest ?d fd = (if pfd ?q = fd \<and> 0 \<le> fd then Some (poll_watch (pevents ?q))
       else if pfd (fds d ! i) = fd then None else poll_interest d fd)"
      by (rule up(2))
    with i(2,4) show ?thesis by (auto simp: poll_watch_events)
  qed
  ultimately show ?thesis by (auto simp: fun_eq_iff)
qed

interpretation pollw: modifying_watcher poll_inv poll_interest poll_room pollAdd poll_remove_data pollModify
  by unfold_locales (fact pollAdd_law pollRemove_law pollModify_law)+

section \<open>Dispatching\<close>

text \<open>The descriptors and events one round reports, in slot order.\<close>

definition slot_events :: "pollfd \<Rightarrow> (int \<times> 32 word) list" where
  "slot_events p =
     (if pfd p = -1 then []
      else (if revent p POLLIN then [(pfd p, ReadEvent)] else []) @
           (if revent p POLLOUT then [(pfd p, WriteEvent)] else []))"

definition poll_ready :: "poll_data \<Rightarrow> (int \<times> 32 word) list" where
  "poll_ready d = concat (map slot_events (take (nat (maxfd d + 1)) (fds d)))"

text \<open>When the callbacks leave the dispatcher's data alone, the loop calls exactly these.\<close>

lemma poll_loop_slots:
  assumes inv: "poll_inv d" and keep: "\<And>fd ev w w'. act fd ev w = Some (Inr w') \<Longrightarrow> get w' = get w"
    and "get w = d" and "int i \<le> maxfd d + 1"
  shows "poll_loop get act i w =
    activate_all act (concat (map slot_events (drop i (take (nat (maxfd d + 1)) (fds d))))) w"
  using assms(3,4)
proof (induction "nat (maxfd d + 1) - i" arbitrary: i w)
  case 0
  then have "\<not> int i \<le> maxfd d" by linarith
  with 0 show ?case by (subst poll_loop.simps) simp
next
  case (Suc n)
  note invs = poll_invD [OF inv]
  have i: "int i \<le> maxfd d" "i < length (fds d)" "i < nat (maxfd d + 1)"
    using Suc.hyps(2) invs(1-3) by linarith+
  let ?p = "fds d ! i"
  let ?es = "\<lambda>i. concat (map slot_events (drop i (take (nat (maxfd d + 1)) (fds d))))"
  have es: "?es i = slot_events ?p @ ?es (Suc i)"
    using i Cons_nth_drop_Suc [of i "take (nat (maxfd d + 1)) (fds d)"] by (simp flip: Cons_nth_drop_Suc)
  have IH: "poll_loop get act (Suc i) w' = activate_all act (?es (Suc i)) w'" if "get w' = d" for w'
    using Suc.hyps(1) [of "Suc i" w'] Suc.hyps(2) that i(1) by simp
  show ?case
  proof (cases "pfd ?p = -1")
    case True
    with IH [OF Suc.prems(1)] i Suc.prems(1) es show ?thesis
      by (subst poll_loop.simps) (simp add: slot_events_def)
  next
    case False
    let ?in = "if revent ?p POLLIN then act (pfd ?p) ReadEvent w else Some (Inr w)"
    let ?out = "\<lambda>w. if revent ?p POLLOUT then act (pfd ?p) WriteEvent w else Some (Inr w)"
    have "poll_loop get act i w = bindO ?in (\<lambda>w.
        bindO (let p = fds (get w) ! i in
               if revent p POLLOUT then act (pfd p) WriteEvent w else Some (Inr w)) (\<lambda>w.
        poll_loop get act (Suc i) w))"
      using False i Suc.prems(1) by (subst poll_loop.simps) (simp add: Let_def)
    also have "\<dots> = bindO ?in (\<lambda>w. bindO (?out w) (activate_all act (?es (Suc i))))"
    proof (rule bindO_cong_on)
      fix w1 assume "?in = Some (Inr w1)"
      then have w1: "get w1 = d" using keep Suc.prems(1) by (auto split: if_splits)
      have "bindO (?out w1) (poll_loop get act (Suc i)) = bindO (?out w1) (activate_all act (?es (Suc i)))"
      proof (rule bindO_cong_on)
        fix w2 assume "?out w1 = Some (Inr w2)"
        then have "get w2 = d" using keep w1 by (auto split: if_splits)
        then show "poll_loop get act (Suc i) w2 = activate_all act (?es (Suc i)) w2" by (rule IH)
      qed
      with w1 show "bindO (let p = fds (get w1) ! i in
               if revent p POLLOUT then act (pfd p) WriteEvent w1 else Some (Inr w1)) (\<lambda>w.
        poll_loop get act (Suc i) w) = bindO (?out w1) (activate_all act (?es (Suc i)))"
        by (simp add: Let_def)
    qed
    also have "\<dots> = activate_all act (?es i) w"
      unfolding es using False by (simp add: slot_events_def activate_all_append bindO_assoc)
    finally show ?thesis .
  qed
qed

lemma poll_fill_nth:
  assumes "poll_inv d" and "i < 1024"
  shows "fds (poll_fill (Some r) d) ! i =
    (if int i \<le> maxfd d then (fds d ! i)\<lparr>revents := if pfd (fds d ! i) < 0 then 0 else r i\<rparr>
     else fds d ! i)"
  using assms poll_invD(1) [OF assms(1)] by (simp add: poll_fill_def nth_enumerate_eq)

lemma poll_fill_inv:
  assumes inv: "poll_inv d"
  shows "poll_inv (poll_fill (Some r) d)"
proof -
  have "pfd (fds (poll_fill (Some r) d) ! i) = pfd (fds d ! i)" if "i < 1024" for i
    using poll_fill_nth [OF inv that] by simp
  moreover have "maxfd (poll_fill (Some r) d) = maxfd d" "length (fds (poll_fill (Some r) d)) = length (fds d)"
    by (simp_all add: poll_fill_def)
  ultimately show ?thesis using inv by (simp add: poll_inv_def)
qed

lemma poll_ready_mem:
  assumes inv: "poll_inv d"
  shows "(fd, ev) \<in> set (poll_ready (poll_fill (Some r) d)) \<longleftrightarrow>
    0 \<le> fd \<and> (\<exists>i < 1024. pfd (fds d ! i) = fd \<and>
      (ev = ReadEvent \<and> r i AND POLLIN \<noteq> 0 \<or> ev = WriteEvent \<and> r i AND POLLOUT \<noteq> 0))" (is "?l \<longleftrightarrow> ?r")
proof -
  let ?f = "poll_fill (Some r) d"
  note invs = poll_invD [OF inv] and invf = poll_invD [OF poll_fill_inv [OF inv, of r]]
  have m: "maxfd ?f = maxfd d" by (simp add: poll_fill_def)
  have "set (take (nat (maxfd d + 1)) (fds ?f)) = (!) (fds ?f) ` {..<nat (maxfd d + 1)}"
    using nth_image [of "nat (maxfd d + 1)" "fds ?f"] invf(1) invs(3) by (simp add: lessThan_atLeast0)
  then have "?l \<longleftrightarrow> (\<exists>i < nat (maxfd d + 1). (fd, ev) \<in> set (slot_events (fds ?f ! i)))"
    by (auto simp: poll_ready_def m)
  also have "\<dots> \<longleftrightarrow> ?r"
  proof
    assume "\<exists>i < nat (maxfd d + 1). (fd, ev) \<in> set (slot_events (fds ?f ! i))"
    then obtain i where i0: "i < nat (maxfd d + 1)" and i: "(fd, ev) \<in> set (slot_events (fds ?f ! i))" by blast
    then have le: "int i \<le> maxfd d" and lt: "i < 1024" using invs(3) by linarith+
    with i have "pfd (fds d ! i) \<noteq> -1" "pfd (fds d ! i) = fd"
      using poll_fill_nth [OF inv lt, of r] by (auto simp: slot_events_def split: if_splits)
    with invs(4) [OF lt] have "0 \<le> fd" by linarith
    moreover have "ev = ReadEvent \<and> r i AND POLLIN \<noteq> 0 \<or> ev = WriteEvent \<and> r i AND POLLOUT \<noteq> 0"
      using i le poll_fill_nth [OF inv lt, of r] \<open>pfd (fds d ! i) = fd\<close> \<open>0 \<le> fd\<close>
      by (auto simp: slot_events_def revent_def split: if_splits)
    ultimately show ?r using lt \<open>pfd (fds d ! i) = fd\<close> by blast
  next
    assume ?r
    then obtain i where i: "0 \<le> fd" "i < 1024" "pfd (fds d ! i) = fd"
      "ev = ReadEvent \<and> r i AND POLLIN \<noteq> 0 \<or> ev = WriteEvent \<and> r i AND POLLOUT \<noteq> 0" by blast
    have le: "int i \<le> maxfd d" using invs(5) [OF i(2)] i(1,3) by (cases "maxfd d < int i") simp_all
    have "(fd, ev) \<in> set (slot_events (fds ?f ! i))"
      using i le poll_fill_nth [OF inv i(2), of r] by (auto simp: slot_events_def revent_def)
    with le show "\<exists>i < nat (maxfd d + 1). (fd, ev) \<in> set (slot_events (fds ?f ! i))"
      by (intro exI [of _ i]) simp
  qed
  finally show ?thesis .
qed

section \<open>Properties\<close>

text \<open>
  C18. The poll dispatcher watches what the loop asked for: from its initial state, along any
  sequence of additions, removals and modifications that never watches a descriptor twice, never
  more than 1024 at a time, and removes or modifies only watched ones, every operation returns 0
  and the array of \<^verbatim>\<open>pollfd\<close>s represents exactly the requested map.
\<close>

theorem poll_watches_requests:
  assumes "ops_legal poll_room ops Map.empty"
  shows "\<exists>d. run_disp pollAdd poll_remove_data pollModify ops pollInit = Some d \<and> poll_inv d \<and>
    poll_interest d = fold watch_step ops Map.empty"
  using pollw.run_law [of pollInit ops] pollInit_inv assms by simp

theorem poll_watches_requests_witness:
  "let a = channelInit 5 ReadEvent None None None (LoopArg 0);
       b = channelInit 7 ReadEvent None None None (LoopArg 0); c = writeEventEnable a True in
   \<exists>d. run_disp pollAdd poll_remove_data pollModify [Add a, Add b, Modify c, Remove b] pollInit = Some d \<and>
     poll_interest d = [5 \<mapsto> (True, True)]"
proof -
  let ?a = "channelInit 5 ReadEvent None None None (LoopArg 0)"
  let ?b = "channelInit 7 ReadEvent None None None (LoopArg 0)"
  let ?c = "writeEventEnable ?a True"
  have w: "watch_of ?a = (True, False)" "watch_of ?b = (True, False)" "watch_of ?c = (True, True)"
    by (simp_all add: watch_of_def has_event_def channelInit_def writeEventEnable_def ReadEvent_def
        WriteEvent_def)
  have fd: "ch_fd ?a = 5" "ch_fd ?b = 7" "ch_fd ?c = 5" by (simp_all add: channelInit_def)
  have "ops_legal poll_room [Add ?a, Add ?b, Modify ?c, Remove ?b] Map.empty"
    by (simp add: w fd poll_room_def)
  from poll_watches_requests [OF this] show ?thesis by (auto simp: Let_def w fd)
qed

text \<open>
  One round of the poll dispatcher activates every ready descriptor and no other. Where the
  callbacks leave the dispatcher's data alone, the round is the calls of \<open>eventActivate\<close> for the
  ready events in slot order, reading before writing; and an event is among them exactly when some
  slot holds its descriptor and \<^verbatim>\<open>poll\<close> reported it there.
\<close>

theorem pollDispatch_activates_ready:
  assumes "poll_inv (get w)" and "\<And>d w. get (put d w) = d"
    and "\<And>fd ev w w'. act fd ev w = Some (Inr w') \<Longrightarrow> get w' = get w"
  shows "let d = get w; f = poll_fill (Some r) d in
    pollDispatch get put (Some r) act w = activate_all act (poll_ready f) (put f w) \<and>
    (\<forall>fd ev. (fd, ev) \<in> set (poll_ready f) \<longleftrightarrow>
       0 \<le> fd \<and> (\<exists>i < 1024. pfd (fds d ! i) = fd \<and>
         (ev = ReadEvent \<and> r i AND POLLIN \<noteq> 0 \<or> ev = WriteEvent \<and> r i AND POLLOUT \<noteq> 0)))"
proof -
  let ?f = "poll_fill (Some r) (get w)"
  have "poll_loop get act 0 (put ?f w) = activate_all act (poll_ready ?f) (put ?f w)"
    using poll_loop_slots [OF poll_fill_inv [OF assms(1)] assms(3), where w = "put ?f w" and i = 0] assms(2)
      poll_invD(2) [OF poll_fill_inv [OF assms(1), of r]]
    by (simp add: poll_ready_def)
  with poll_ready_mem [OF assms(1)] show ?thesis by (simp add: Let_def pollDispatch_def)
qed

theorem pollDispatch_activates_ready_witness:
  "let d = pollInit\<lparr>fds := (fds pollInit)[0 := \<lparr>pfd = 9, pevents = POLLIN, revents = 0\<rparr>]\<rparr> in
   (9, ReadEvent) \<in> set (poll_ready (poll_fill (Some (\<lambda>_. POLLIN)) d)) \<and>
   pollDispatch fst (\<lambda>d w. (d, snd w)) (Some (\<lambda>_. POLLIN))
     (\<lambda>fd ev w. Some (Inr (fst w, snd w @ [fd]))) (d, []) =
   activate_all (\<lambda>fd ev w. Some (Inr (fst w, snd w @ [fd])))
     (poll_ready (poll_fill (Some (\<lambda>_. POLLIN)) d)) (poll_fill (Some (\<lambda>_. POLLIN)) d, [])"
proof -
  let ?d = "pollInit\<lparr>fds := (fds pollInit)[0 := \<lparr>pfd = 9, pevents = POLLIN, revents = 0\<rparr>]\<rparr>"
  have "poll_inv ?d" by (auto simp: poll_inv_def pollInit_def POLL_MAX_def nth_list_update)
  then show ?thesis
    using pollDispatch_activates_ready [of fst "(?d, [])" "\<lambda>d w. (d, snd w)"
        "\<lambda>fd ev w. Some (Inr (fst w, snd w @ [fd]))" "\<lambda>_. POLLIN"]
    by (auto simp: Let_def pollInit_def POLL_MAX_def POLLIN_def ReadEvent_def intro: exI [of _ 0])
qed

end
