(* ===== verification/Select.thy ===== *)
theory Select
  imports Dispatcher
begin

text \<open>
  \<^verbatim>\<open>ReactorHTTP-C/SelectDispatcher.c\<close>. An \<^verbatim>\<open>fd_set\<close> is a word of 1024 bits; setting
  or clearing a bit outside it is a write out of bounds. The state around the dispatcher's data,
  the callbacks, and what \<^verbatim>\<open>select\<close> reports are arguments, as in \<open>Poll\<close>.
\<close>

section \<open>The code\<close>

type_synonym fd_set = "1024 word"

record select_data =
  readSet :: fd_set
  writeSet :: fd_set

definition SELECT_MAX :: int where "SELECT_MAX = 1024"

definition selectInit :: select_data where
  "selectInit = \<lparr>readSet = 0, writeSet = 0\<rparr>"

definition FD_SET :: "int \<Rightarrow> fd_set \<Rightarrow> fd_set res" where
  "FD_SET fd s = (if 0 \<le> fd \<and> fd < 1024 then Inr (Bit_Operations.set_bit (nat fd) s) else Inl OutOfBounds)"

definition FD_CLR :: "int \<Rightarrow> fd_set \<Rightarrow> fd_set res" where
  "FD_CLR fd s = (if 0 \<le> fd \<and> fd < 1024 then Inr (unset_bit (nat fd) s) else Inl OutOfBounds)"

definition setFdSet :: "channel \<Rightarrow> select_data \<Rightarrow> select_data res" where
  "setFdSet channel data =
     bindR (if has_event (ch_events channel) ReadEvent
            then bindR (FD_SET (ch_fd channel) (readSet data)) (\<lambda>s. Inr (data\<lparr>readSet := s\<rparr>))
            else Inr data) (\<lambda>data.
     if has_event (ch_events channel) WriteEvent
     then bindR (FD_SET (ch_fd channel) (writeSet data)) (\<lambda>s. Inr (data\<lparr>writeSet := s\<rparr>))
     else Inr data)"

definition clearFdSet :: "channel \<Rightarrow> select_data \<Rightarrow> select_data res" where
  "clearFdSet channel data =
     bindR (if has_event (ch_events channel) ReadEvent
            then bindR (FD_CLR (ch_fd channel) (readSet data)) (\<lambda>s. Inr (data\<lparr>readSet := s\<rparr>))
            else Inr data) (\<lambda>data.
     if has_event (ch_events channel) WriteEvent
     then bindR (FD_CLR (ch_fd channel) (writeSet data)) (\<lambda>s. Inr (data\<lparr>writeSet := s\<rparr>))
     else Inr data)"

definition selectAdd :: "channel \<Rightarrow> select_data \<Rightarrow> (int \<times> select_data) res" where
  "selectAdd channel data =
     (if SELECT_MAX \<le> ch_fd channel then Inr (-1, data)
      else bindR (setFdSet channel data) (\<lambda>data. Inr (0, data)))"

definition selectRemove ::
  "('w \<Rightarrow> select_data) \<Rightarrow> (select_data \<Rightarrow> 'w \<Rightarrow> 'w) \<Rightarrow> (callback \<Rightarrow> cb_arg \<Rightarrow> 'w \<Rightarrow> 'w res) \<Rightarrow>
   channel \<Rightarrow> 'w \<Rightarrow> (int \<times> 'w) res" where
  "selectRemove get put destroy channel w =
     bindR (clearFdSet channel (get w)) (\<lambda>data.
     case destroyCallback channel of
       None \<Rightarrow> Inl NullDeref
     | Some f \<Rightarrow> bindR (destroy f (ch_arg channel) (put data w)) (\<lambda>w. Inr (0, w)))"

definition selectModify :: "channel \<Rightarrow> select_data \<Rightarrow> (int \<times> select_data) res" where
  "selectModify channel data =
     bindR (setFdSet channel data) (\<lambda>data.
     bindR (clearFdSet channel data) (\<lambda>data.
     Inr (0, data)))"

text \<open>
  \<^verbatim>\<open>select\<close> leaves in the two copies what is ready of what they ask for, and does not touch
  them when it fails (\<open>None\<close>). The copies are local, so the loop does not look at the data again.
\<close>

fun select_loop ::
  "(int \<Rightarrow> 32 word \<Rightarrow> 'w \<Rightarrow> 'w run) \<Rightarrow> fd_set \<Rightarrow> fd_set \<Rightarrow> nat list \<Rightarrow> 'w \<Rightarrow> 'w run" where
  "select_loop activate rd wr [] w = Some (Inr w)"
| "select_loop activate rd wr (i # is) w =
     bindO (if bit rd i then activate (int i) ReadEvent w else Some (Inr w)) (\<lambda>w.
     bindO (if bit wr i then activate (int i) WriteEvent w else Some (Inr w)) (\<lambda>w.
     select_loop activate rd wr is w))"

definition selectDispatch ::
  "('w \<Rightarrow> select_data) \<Rightarrow> (fd_set \<times> fd_set) option \<Rightarrow>
   (int \<Rightarrow> 32 word \<Rightarrow> 'w \<Rightarrow> 'w run) \<Rightarrow> 'w \<Rightarrow> 'w run" where
  "selectDispatch get ready activate w =
     (let rdtmp = readSet (get w); wrtmp = writeSet (get w);
          (rdtmp, wrtmp) = (case ready of None \<Rightarrow> (rdtmp, wrtmp)
                                        | Some (r, s) \<Rightarrow> (rdtmp AND r, wrtmp AND s)) in
      select_loop activate rdtmp wrtmp [0..<nat SELECT_MAX] w)"

definition selectClear :: "select_data option \<Rightarrow> select_data option res" where
  "selectClear data = (case data of None \<Rightarrow> Inl UseAfterFree | Some _ \<Rightarrow> Inr None)"

section \<open>The sets as a map\<close>

definition select_interest :: "select_data \<Rightarrow> int \<rightharpoonup> watch" where
  "select_interest d fd =
     (if 0 \<le> fd \<and> (bit (readSet d) (nat fd) \<or> bit (writeSet d) (nat fd))
      then Some (bit (readSet d) (nat fd), bit (writeSet d) (nat fd)) else None)"

definition select_room :: room where
  "select_room m fd \<longleftrightarrow> fd < 1024"

lemma setFdSet_bits:
  assumes "0 \<le> ch_fd c" and "ch_fd c < 1024"
  obtains d' where "setFdSet c d = Inr d'"
    "\<And>n. bit (readSet d') n \<longleftrightarrow> bit (readSet d) n \<or> n = nat (ch_fd c) \<and> fst (watch_of c)"
    "\<And>n. bit (writeSet d') n \<longleftrightarrow> bit (writeSet d) n \<or> n = nat (ch_fd c) \<and> snd (watch_of c)"
proof -
  have b: "bit (Bit_Operations.set_bit (nat (ch_fd c)) s) n \<longleftrightarrow> bit s n \<or> n = nat (ch_fd c)"
    for s :: fd_set and n
    using assms by (auto simp: bit_set_bit_iff)
  show ?thesis
    by (rule that [of "d\<lparr>readSet := (if fst (watch_of c) then Bit_Operations.set_bit (nat (ch_fd c)) (readSet d) else readSet d),
        writeSet := (if snd (watch_of c) then Bit_Operations.set_bit (nat (ch_fd c)) (writeSet d) else writeSet d)\<rparr>"])
      (use assms in \<open>auto simp: setFdSet_def FD_SET_def watch_of_def b\<close>)
qed

lemma clearFdSet_bits:
  assumes "0 \<le> ch_fd c" and "ch_fd c < 1024"
  obtains d' where "clearFdSet c d = Inr d'"
    "\<And>n. bit (readSet d') n \<longleftrightarrow> bit (readSet d) n \<and> \<not> (n = nat (ch_fd c) \<and> fst (watch_of c))"
    "\<And>n. bit (writeSet d') n \<longleftrightarrow> bit (writeSet d) n \<and> \<not> (n = nat (ch_fd c) \<and> snd (watch_of c))"
proof -
  show ?thesis
    by (rule that [of "d\<lparr>readSet := (if fst (watch_of c) then unset_bit (nat (ch_fd c)) (readSet d) else readSet d),
        writeSet := (if snd (watch_of c) then unset_bit (nat (ch_fd c)) (writeSet d) else writeSet d)\<rparr>"])
      (use assms in \<open>auto simp: clearFdSet_def FD_CLR_def watch_of_def bit_unset_bit_iff\<close>)
qed

section \<open>The contract, without modification\<close>

definition select_remove_data :: "channel \<Rightarrow> select_data \<Rightarrow> (int \<times> select_data) res" where
  "select_remove_data c d = selectRemove (\<lambda>d. d) (\<lambda>d _. d) (\<lambda>_ _ d. Inr d)
     (c\<lparr>destroyCallback := Some TcpConnectionDestroy\<rparr>) d"

lemma select_interest_None:
  "0 \<le> fd \<Longrightarrow> select_interest d fd = None \<longleftrightarrow> \<not> bit (readSet d) (nat fd) \<and> \<not> bit (writeSet d) (nat fd)"
  by (simp add: select_interest_def)

lemma selectAdd_law:
  assumes "op_legal select_room (Add c) (select_interest d)"
  shows "\<exists>d'. selectAdd c d = Inr (0, d') \<and> select_interest d' = watch_step (Add c) (select_interest d)"
proof -
  from assms have c: "0 \<le> ch_fd c" "ch_fd c < 1024" "select_interest d (ch_fd c) = None"
      "watch_of c \<noteq> (False, False)" by (simp_all add: select_room_def)
  obtain d' where d': "setFdSet c d = Inr d'"
    "\<And>n. bit (readSet d') n \<longleftrightarrow> bit (readSet d) n \<or> n = nat (ch_fd c) \<and> fst (watch_of c)"
    "\<And>n. bit (writeSet d') n \<longleftrightarrow> bit (writeSet d) n \<or> n = nat (ch_fd c) \<and> snd (watch_of c)"
    using setFdSet_bits [OF c(1,2)] by blast
  have "select_interest d' fd = ((select_interest d)(ch_fd c \<mapsto> watch_of c)) fd" for fd
    using c by (cases "watch_of c") (auto simp: select_interest_def d'(2,3) eq_nat_nat_iff split: if_splits)
  with d'(1) c(2) show ?thesis by (auto simp: selectAdd_def SELECT_MAX_def fun_eq_iff)
qed

lemma selectRemove_law:
  assumes "op_legal select_room (Remove c) (select_interest d)"
  shows "\<exists>d'. select_remove_data c d = Inr (0, d') \<and> select_interest d' = watch_step (Remove c) (select_interest d)"
proof -
  from assms have i: "select_interest d (ch_fd c) = Some (watch_of c)" by simp
  then have "0 \<le> ch_fd c" "bit (readSet d) (nat (ch_fd c)) \<or> bit (writeSet d) (nat (ch_fd c))"
    by (auto simp: select_interest_def split: if_splits)
  moreover from this(2) have "nat (ch_fd c) < 1024" by (auto dest: bit_imp_le_length)
  ultimately have c: "0 \<le> ch_fd c" "ch_fd c < 1024" by simp_all
  obtain d' where d': "clearFdSet c d = Inr d'"
    "\<And>n. bit (readSet d') n \<longleftrightarrow> bit (readSet d) n \<and> \<not> (n = nat (ch_fd c) \<and> fst (watch_of c))"
    "\<And>n. bit (writeSet d') n \<longleftrightarrow> bit (writeSet d) n \<and> \<not> (n = nat (ch_fd c) \<and> snd (watch_of c))"
    using clearFdSet_bits [OF c] by blast
  have "select_interest d' fd = ((select_interest d)(ch_fd c := None)) fd" for fd
  proof (cases "fd = ch_fd c")
    case True
    have "watch_of c = (bit (readSet d) (nat (ch_fd c)), bit (writeSet d) (nat (ch_fd c)))"
      using i by (simp add: select_interest_def split: if_splits)
    then have "\<not> bit (readSet d') (nat (ch_fd c))" "\<not> bit (writeSet d') (nat (ch_fd c))"
      by (simp_all add: d'(2,3))
    with True show ?thesis by (simp add: select_interest_def)
  next
    case False
    then have "0 \<le> fd \<Longrightarrow> nat fd \<noteq> nat (ch_fd c)" using c by simp
    with False show ?thesis by (cases "0 \<le> fd") (auto simp: select_interest_def d'(2,3))
  qed
  moreover have "clearFdSet (c\<lparr>destroyCallback := Some TcpConnectionDestroy\<rparr>) d = clearFdSet c d"
    by (simp add: clearFdSet_def)
  ultimately show ?thesis using d'(1) by (auto simp: select_remove_data_def selectRemove_def fun_eq_iff)
qed

interpretation selectw: watcher "\<lambda>_. True" select_interest select_room selectAdd select_remove_data
  by unfold_locales (simp_all add: selectAdd_law selectRemove_law del: op_legal.simps watch_step.simps)

section \<open>Properties\<close>

text \<open>
  Watching a descriptor with the select dispatcher and then removing it leaves the two sets
  watching what they watched before, for any descriptor below 1024 not watched yet and any events.
\<close>

theorem select_add_then_remove:
  assumes "0 \<le> ch_fd c" and "ch_fd c < 1024" and "select_interest d (ch_fd c) = None"
    and "watch_of c \<noteq> (False, False)"
  shows "\<exists>d1 d2. selectAdd c d = Inr (0, d1) \<and> select_interest d1 (ch_fd c) = Some (watch_of c) \<and>
    select_remove_data c d1 = Inr (0, d2) \<and> select_interest d2 = select_interest d"
proof -
  have "op_legal select_room (Add c) (select_interest d)" using assms by (simp add: select_room_def)
  from selectw.add_then_remove [OF _ this] selectAdd_law [OF this] show ?thesis by auto
qed

theorem select_add_then_remove_witness:
  "let c = channelInit 3 ReadEvent None None None (LoopArg 0) in
   \<exists>d1 d2. selectAdd c selectInit = Inr (0, d1) \<and> select_interest d1 3 = Some (True, False) \<and>
     select_remove_data c d1 = Inr (0, d2) \<and> select_interest d2 3 = None"
proof -
  let ?c = "channelInit 3 ReadEvent None None None (LoopArg 0)"
  have w: "watch_of ?c = (True, False)"
    by (simp add: watch_of_def has_event_def channelInit_def ReadEvent_def WriteEvent_def)
  have fd: "ch_fd ?c = 3" by (simp add: channelInit_def)
  have n: "select_interest selectInit 3 = None" by (simp add: select_interest_def selectInit_def)
  from select_add_then_remove [of ?c selectInit] n show ?thesis by (auto simp: Let_def w fd)
qed

text \<open>
  Modifying a channel with the select dispatcher does the opposite of what is asked: it stops
  watching the events the channel wants and goes on watching those it no longer wants. For any
  descriptor below 1024, an event is watched afterwards exactly when it was watched before and the
  channel does not ask for it.
\<close>

theorem selectModify_unwatches:
  assumes "0 \<le> ch_fd c" and "ch_fd c < 1024"
  shows "\<exists>d'. selectModify c d = Inr (0, d') \<and>
    (\<forall>n. bit (readSet d') n \<longleftrightarrow>
       bit (readSet d) n \<and> \<not> (n = nat (ch_fd c) \<and> has_event (ch_events c) ReadEvent)) \<and>
    (\<forall>n. bit (writeSet d') n \<longleftrightarrow>
       bit (writeSet d) n \<and> \<not> (n = nat (ch_fd c) \<and> has_event (ch_events c) WriteEvent))"
proof -
  obtain d1 where d1: "setFdSet c d = Inr d1"
    "\<And>n. bit (readSet d1) n \<longleftrightarrow> bit (readSet d) n \<or> n = nat (ch_fd c) \<and> fst (watch_of c)"
    "\<And>n. bit (writeSet d1) n \<longleftrightarrow> bit (writeSet d) n \<or> n = nat (ch_fd c) \<and> snd (watch_of c)"
    using setFdSet_bits [OF assms] by blast
  obtain d2 where d2: "clearFdSet c d1 = Inr d2"
    "\<And>n. bit (readSet d2) n \<longleftrightarrow> bit (readSet d1) n \<and> \<not> (n = nat (ch_fd c) \<and> fst (watch_of c))"
    "\<And>n. bit (writeSet d2) n \<longleftrightarrow> bit (writeSet d1) n \<and> \<not> (n = nat (ch_fd c) \<and> snd (watch_of c))"
    using clearFdSet_bits [OF assms] by blast
  show ?thesis
    by (intro exI [of _ d2]) (use d1 d2 in \<open>auto simp: selectModify_def watch_of_def\<close>)
qed

theorem selectModify_unwatches_witness:
  "let c = channelInit 3 (ReadEvent OR WriteEvent) None None None (LoopArg 0) in
   \<exists>d'. selectModify c \<lparr>readSet = 8, writeSet = 0\<rparr> = Inr (0, d') \<and>
     \<not> bit (readSet d') 3 \<and> \<not> bit (writeSet d') 3"
proof -
  let ?c = "channelInit 3 (ReadEvent OR WriteEvent) None None None (LoopArg 0)"
  have fd: "ch_fd ?c = 3" by (simp add: channelInit_def)
  have ev: "has_event (ch_events ?c) ReadEvent" "has_event (ch_events ?c) WriteEvent"
    by (simp_all add: channelInit_def has_event_def ReadEvent_def WriteEvent_def)
  from selectModify_unwatches [of ?c "\<lparr>readSet = 8, writeSet = 0\<rparr>"] show ?thesis
    by (auto simp: Let_def fd ev)
qed

end
