(* ===== verification/Buffer.thy ===== *)
theory Buffer
  imports Prelude
begin

text \<open>
  \<^verbatim>\<open>ReactorHTTP-C/Buffer.c\<close>: the growable byte buffer between the sockets and the HTTP
  code. A \<open>buffer\<close> is the C struct; the block \<^verbatim>\<open>data\<close> points to is its list of bytes.
  \<open>mem n\<close> says whether the allocator can provide a block of \<open>n\<close> bytes; what the sockets deliver
  and accept is an argument of the two socket operations. The abstraction of a buffer is the
  queue of its unread bytes, \<open>contents\<close>; the operations refine appending to it and dropping
  from it, which the locale \<open>byte_queue\<close> states as a contract.
\<close>

section \<open>The code\<close>

record buffer =
  buf_data :: string
  capacity :: int
  readPos :: int
  writePos :: int

text \<open>
  The two flags of \<open>bufferInit\<close> are the outcomes of its two \<^verbatim>\<open>malloc\<close>s. The source checks
  the first only; a negative size is a huge \<^verbatim>\<open>size_t\<close>, which no allocator provides.
\<close>

definition bufferInit :: "bool \<Rightarrow> bool \<Rightarrow> int \<Rightarrow> buffer option res" where
  "bufferInit ok_struct ok_data sz =
     (if \<not> ok_struct then Inr None
      else if \<not> ok_data \<or> sz < 0 then Inl NullDeref
      else Inr (Some \<lparr>buf_data = replicate (nat sz) NUL, capacity = sz,
                      readPos = 0, writePos = 0\<rparr>))"

text \<open>
  Buffers live in a heap of structs; \<open>bufferDestroy\<close> frees the data block and the struct.
  \<open>None\<close> is the NULL pointer, for which \<^verbatim>\<open>free\<close> does nothing.
\<close>

type_synonym buf_heap = "nat \<Rightarrow> buffer option"

definition bufferDestroy :: "nat option \<Rightarrow> buf_heap \<Rightarrow> buf_heap res" where
  "bufferDestroy buf h =
     (case buf of
        None \<Rightarrow> Inr h
      | Some p \<Rightarrow> (case h p of None \<Rightarrow> Inl UseAfterFree | Some _ \<Rightarrow> Inr (h(p := None))))"

definition bufferWriteableSize :: "buffer \<Rightarrow> int" where
  "bufferWriteableSize buffer = capacity buffer - writePos buffer"

definition bufferReadableSize :: "buffer \<Rightarrow> int" where
  "bufferReadableSize buffer = writePos buffer - readPos buffer"

definition bufferExtendRoom :: "(int \<Rightarrow> bool) \<Rightarrow> buffer \<Rightarrow> int \<Rightarrow> buffer res" where
  "bufferExtendRoom mem buffer sz =
     (if bufferWriteableSize buffer \<ge> sz then Inr buffer
      else if readPos buffer + bufferWriteableSize buffer \<ge> sz then
        (let readable = bufferReadableSize buffer in
         bindR (memcpy_within (buf_data buffer) 0 (readPos buffer) readable) (\<lambda>d.
         Inr (buffer\<lparr>buf_data := d, readPos := 0, writePos := readable\<rparr>)))
      else
        bindR (add_i32 (capacity buffer) sz) (\<lambda>cap.
        if \<not> mem cap then Inr buffer
        else Inr (buffer\<lparr>buf_data := buf_data buffer @ replicate (nat sz) NUL,
                         capacity := cap\<rparr>)))"

definition bufferAppendData ::
  "(int \<Rightarrow> bool) \<Rightarrow> buffer option \<Rightarrow> string option \<Rightarrow> int \<Rightarrow> (int \<times> buffer option) res" where
  "bufferAppendData mem buffer src sz =
     (case (buffer, src) of
        (Some b, Some s) \<Rightarrow>
          if sz \<le> 0 then Inr (-1, buffer)
          else
            bindR (bufferExtendRoom mem b sz) (\<lambda>b'.
            bindR (memcpy_at (buf_data b') (writePos b') s sz) (\<lambda>d.
            bindR (add_i32 (writePos b') sz) (\<lambda>w.
            Inr (0, Some (b'\<lparr>buf_data := d, writePos := w\<rparr>)))))
      | _ \<Rightarrow> Inr (-1, buffer))"

definition bufferAppendString ::
  "(int \<Rightarrow> bool) \<Rightarrow> buffer option \<Rightarrow> string \<Rightarrow> (int \<times> buffer option) res" where
  "bufferAppendString mem buffer src =
     bufferAppendData mem buffer (Some src) (int (strlen src))"

text \<open>
  \<open>avail\<close> is what the socket holds for this call: \<open>None\<close> when \<^verbatim>\<open>readv\<close> fails, otherwise
  the bytes waiting, of which \<^verbatim>\<open>readv\<close> takes as many as the two segments hold, filling
  the first segment first.
\<close>

definition bufferSocketRead ::
  "(int \<Rightarrow> bool) \<Rightarrow> buffer \<Rightarrow> string option \<Rightarrow> (int \<times> buffer) res" where
  "bufferSocketRead mem buffer avail =
     (let writeable = bufferWriteableSize buffer in
      case avail of
        None \<Rightarrow> Inr (-1, buffer)
      | Some s \<Rightarrow>
          (let got = take (nat (writeable + 40960)) s; result = int (length got);
               seg0 = take (nat writeable) got; tmpbuf = drop (nat writeable) got in
           bindR (memcpy_at (buf_data buffer) (writePos buffer) seg0 (int (length seg0))) (\<lambda>d.
           let buffer = buffer\<lparr>buf_data := d\<rparr> in
           if result \<le> writeable then Inr (result, buffer\<lparr>writePos := writePos buffer + result\<rparr>)
           else
             bindR (bufferAppendData mem (Some (buffer\<lparr>writePos := capacity buffer\<rparr>))
                      (Some tmpbuf) (result - writeable)) (\<lambda>(_, b').
             Inr (result, the b')))))"

text \<open>The readable bytes, and the position of the first CRLF in them.\<close>

definition contents :: "buffer \<Rightarrow> string" where
  "contents buffer =
     take (nat (bufferReadableSize buffer)) (drop (nat (readPos buffer)) (buf_data buffer))"

definition bufferFindCRLF :: "buffer \<Rightarrow> int option" where
  "bufferFindCRLF buffer = map_option (\<lambda>i. readPos buffer + int i) (memmem (contents buffer) crlf)"

text \<open>
  \<^verbatim>\<open>send\<close> fails (\<open>SendErr\<close>) or accepts at most the bytes offered. The model returns the
  accepted bytes beside the C result.
\<close>

datatype send_outcome = SendErr | SendOk nat

definition bufferSendData :: "buffer \<Rightarrow> send_outcome \<Rightarrow> int \<times> buffer \<times> string" where
  "bufferSendData buffer outcome =
     (let readable = bufferReadableSize buffer in
      if readable > 0 then
        (let count = (case outcome of SendErr \<Rightarrow> -1 | SendOk n \<Rightarrow> min (int n) readable) in
         if count > 0
         then (count, buffer\<lparr>readPos := readPos buffer + count\<rparr>, take (nat count) (contents buffer))
         else (count, buffer, []))
      else (0, buffer, []))"

section \<open>The invariant\<close>

definition buffer_inv :: "buffer \<Rightarrow> bool" where
  "buffer_inv b \<longleftrightarrow>
     0 \<le> readPos b \<and> readPos b \<le> writePos b \<and> writePos b \<le> capacity b \<and>
     capacity b \<le> int_max \<and> int (length (buf_data b)) = capacity b"

lemma buffer_invD:
  assumes "buffer_inv b"
  shows "0 \<le> readPos b" "readPos b \<le> writePos b" "writePos b \<le> capacity b"
    "capacity b \<le> int_max" "int (length (buf_data b)) = capacity b"
    "length (buf_data b) = nat (capacity b)"
  using assms by (auto simp: buffer_inv_def)

lemma bufferInit_inv:
  "bufferInit a d sz = Inr (Some b) \<Longrightarrow> sz \<le> int_max \<Longrightarrow> buffer_inv b \<and> contents b = []"
  by (auto simp: bufferInit_def buffer_inv_def contents_def bufferReadableSize_def
      split: if_splits)

lemma length_contents [buf_simps]:
  assumes "buffer_inv b"
  shows "length (contents b) = nat (bufferReadableSize b)"
proof -
  note i = buffer_invD [OF assms]
  then have "nat (writePos b - readPos b) \<le> length (buf_data b) - nat (readPos b)" by linarith
  then show ?thesis by (simp add: contents_def bufferReadableSize_def)
qed

lemma readable_nonneg [buf_simps]: "buffer_inv b \<Longrightarrow> 0 \<le> bufferReadableSize b"
  by (auto simp: bufferReadableSize_def dest: buffer_invD)

lemma writeable_nonneg [buf_simps]: "buffer_inv b \<Longrightarrow> 0 \<le> bufferWriteableSize b"
  by (auto simp: bufferWriteableSize_def dest: buffer_invD)

lemma readable_length:
  "buffer_inv b \<Longrightarrow> bufferReadableSize b = int (length (contents b))"
  by (simp add: length_contents readable_nonneg)

section \<open>Making room\<close>

text \<open>When an append of \<open>n\<close> bytes is defined behaviour and has the room it needs.\<close>

definition append_ok :: "(int \<Rightarrow> bool) \<Rightarrow> buffer \<Rightarrow> int \<Rightarrow> bool" where
  "append_ok mem b n \<longleftrightarrow>
     n \<le> bufferWriteableSize b \<or>
     (n \<le> readPos b + bufferWriteableSize b \<and> bufferReadableSize b \<le> readPos b) \<or>
     (readPos b + bufferWriteableSize b < n \<and> capacity b + n \<le> int_max \<and> mem (capacity b + n))"

lemma extend_ok:
  assumes inv: "buffer_inv b" and ok: "append_ok mem b n" and n: "0 < n"
  obtains b' where "bufferExtendRoom mem b n = Inr b'" "buffer_inv b'" "contents b' = contents b"
    "n \<le> bufferWriteableSize b'"
proof -
  note i = buffer_invD [OF inv]
  consider (room) "n \<le> bufferWriteableSize b"
    | (compact) "bufferWriteableSize b < n" "n \<le> readPos b + bufferWriteableSize b"
        "bufferReadableSize b \<le> readPos b"
    | (grow) "readPos b + bufferWriteableSize b < n" "bufferWriteableSize b < n"
        "capacity b + n \<le> int_max" "mem (capacity b + n)"
    using ok i by (force simp: append_ok_def)
  then show thesis
  proof cases
    case room
    then show ?thesis using inv that by (simp add: bufferExtendRoom_def)
  next
    case compact
    let ?r = "bufferReadableSize b"
    let ?d = "overwrite (buf_data b) 0 (contents b)"
    let ?b = "b\<lparr>buf_data := ?d, readPos := 0, writePos := ?r\<rparr>"
    have r: "0 \<le> ?r" "readPos b + ?r \<le> capacity b" "length (contents b) = nat ?r"
      using i inv by (simp_all add: buf_simps) (simp add: bufferReadableSize_def)
    have "memcpy_within (buf_data b) 0 (readPos b) ?r = Inr ?d"
      using compact r i by (simp add: memcpy_within_def contents_def)
    with compact have eq: "bufferExtendRoom mem b n = Inr ?b"
      by (simp add: bufferExtendRoom_def Let_def)
    have "buffer_inv ?b" using i r by (simp add: buffer_inv_def)
    moreover have "contents ?b = contents b"
    proof -
      have "contents ?b = take (nat ?r) ?d"
        by (simp add: contents_def bufferReadableSize_def)
      also have "\<dots> = contents b" using r by (simp add: overwrite_def)
      finally show ?thesis .
    qed
    moreover have "n \<le> bufferWriteableSize ?b"
      using compact by (simp add: bufferWriteableSize_def bufferReadableSize_def)
    ultimately show ?thesis using eq that by blast
  next
    case grow
    let ?b = "b\<lparr>buf_data := buf_data b @ replicate (nat n) NUL, capacity := capacity b + n\<rparr>"
    from grow n i have eq: "bufferExtendRoom mem b n = Inr ?b"
      by (simp add: bufferExtendRoom_def add_i32_def int_max_def)
    have "buffer_inv ?b" using i n grow by (simp add: buffer_inv_def)
    moreover have "contents ?b = contents b"
      using i by (auto simp: contents_def bufferReadableSize_def)
    moreover have "n \<le> bufferWriteableSize ?b"
      using i by (simp add: bufferWriteableSize_def)
    ultimately show ?thesis using eq that by blast
  qed
qed

text \<open>
  The other direction: an append that is not \<open>append_ok\<close> is a fault, one for each reason.
\<close>

lemma extend_overlap:
  assumes inv: "buffer_inv b"
    and full: "bufferWriteableSize b < n" "n \<le> readPos b + bufferWriteableSize b"
      "readPos b < bufferReadableSize b"
  shows "bufferExtendRoom mem b n = Inl OverlapCopy"
proof -
  have "memcpy_within (buf_data b) 0 (readPos b) (bufferReadableSize b) = Inl OverlapCopy"
    using full buffer_invD [OF inv] by (simp add: memcpy_within_def bufferReadableSize_def)
  with full show ?thesis by (simp add: bufferExtendRoom_def Let_def)
qed

lemma extend_overflow:
  "buffer_inv b \<Longrightarrow> readPos b + bufferWriteableSize b < n \<Longrightarrow> int_max < capacity b + n \<Longrightarrow>
   bufferExtendRoom mem b n = Inl IntOverflow"
  by (auto simp: bufferExtendRoom_def add_i32_def int_max_def bufferWriteableSize_def buffer_inv_def)

lemma extend_no_memory:
  "buffer_inv b \<Longrightarrow> readPos b + bufferWriteableSize b < n \<Longrightarrow> capacity b + n \<le> int_max \<Longrightarrow>
   \<not> mem (capacity b + n) \<Longrightarrow> bufferExtendRoom mem b n = Inr b"
  by (auto simp: bufferExtendRoom_def add_i32_def int_max_def bufferWriteableSize_def buffer_inv_def)

section \<open>Appending\<close>

lemma write_at_end:
  assumes inv: "buffer_inv b" and room: "int (length s) \<le> bufferWriteableSize b"
  defines "b' \<equiv> b\<lparr>buf_data := overwrite (buf_data b) (nat (writePos b)) s,
                   writePos := writePos b + int (length s)\<rparr>"
  shows "buffer_inv b'" "contents b' = contents b @ s"
    "bufferReadableSize b' = bufferReadableSize b + int (length s)"
proof -
  note i = buffer_invD [OF inv]
  have fit: "nat (writePos b) + length s \<le> length (buf_data b)"
    using i room by (simp add: bufferWriteableSize_def)
  with i show "buffer_inv b'"
    by (simp add: b'_def buffer_inv_def)
  have len: "nat (writePos b + int (length s) - readPos b) =
      nat (writePos b) + length s - nat (readPos b)"
    using i by linarith
  have "contents b' = take (nat (writePos b) + length s - nat (readPos b))
      (drop (nat (readPos b)) (overwrite (buf_data b) (nat (writePos b)) s))"
    by (simp add: b'_def contents_def bufferReadableSize_def len)
  also have "\<dots> = drop (nat (readPos b)) (take (nat (writePos b)) (buf_data b) @ s)"
    using fit by (simp add: drop_take [symmetric] take_overwrite_snoc)
  also have "\<dots> = contents b @ s"
    using i fit by (simp add: contents_def bufferReadableSize_def drop_take nat_diff_distrib)
  finally show "contents b' = contents b @ s" .
  show "bufferReadableSize b' = bufferReadableSize b + int (length s)"
    by (simp add: b'_def bufferReadableSize_def)
qed

lemma memcpy_at_end:
  "buffer_inv b \<Longrightarrow> int (length s) \<le> bufferWriteableSize b \<Longrightarrow>
   memcpy_at (buf_data b) (writePos b) s (int (length s)) =
     Inr (overwrite (buf_data b) (nat (writePos b)) s)"
  by (auto simp: memcpy_at_def bufferWriteableSize_def buffer_inv_def)

lemma add_writePos:
  "buffer_inv b \<Longrightarrow> 0 \<le> n \<Longrightarrow> n \<le> bufferWriteableSize b \<Longrightarrow>
   add_i32 (writePos b) n = Inr (writePos b + n)"
  by (auto simp: add_i32_def bufferWriteableSize_def int_max_def buffer_inv_def)

lemma append_step:
  assumes inv: "buffer_inv b" and ok: "append_ok mem b (int (length s))" and s: "s \<noteq> []"
  obtains b' where
    "bufferAppendData mem (Some b) (Some s) (int (length s)) = Inr (0, Some b')"
    "buffer_inv b'" "contents b' = contents b @ s"
proof -
  have pos: "0 < int (length s)" using s by simp
  obtain b1 where b1: "bufferExtendRoom mem b (int (length s)) = Inr b1" "buffer_inv b1"
      "contents b1 = contents b" "int (length s) \<le> bufferWriteableSize b1"
    using extend_ok [OF inv ok pos] .
  note w = write_at_end [OF b1(2,4)]
  have eq: "bufferAppendData mem (Some b) (Some s) (int (length s)) =
      Inr (0, Some (b1\<lparr>buf_data := overwrite (buf_data b1) (nat (writePos b1)) s,
                      writePos := writePos b1 + int (length s)\<rparr>))"
    using s b1 by (simp add: bufferAppendData_def memcpy_at_end add_writePos)
  show thesis
    by (rule that [OF eq w(1)]) (simp add: w(2) b1(3))
qed

lemma append_ok_fresh:
  "buffer_inv b \<Longrightarrow> readPos b = 0 \<Longrightarrow> capacity b + n \<le> int_max \<Longrightarrow> mem (capacity b + n) \<Longrightarrow>
   append_ok mem b n"
  by (auto simp: append_ok_def)

text \<open>The faults of an append that is not \<open>append_ok\<close>.\<close>

lemma append_fault:
  assumes inv: "buffer_inv b" and s: "s \<noteq> []" and bad: "\<not> append_ok mem b (int (length s))"
  shows "bufferAppendData mem (Some b) (Some s) (int (length s)) =
    Inl (if int (length s) \<le> readPos b + bufferWriteableSize b then OverlapCopy
         else if int_max < capacity b + int (length s) then IntOverflow
         else OutOfBounds)"
proof -
  let ?n = "int (length s)"
  consider (overlap) "bufferWriteableSize b < ?n" "?n \<le> readPos b + bufferWriteableSize b"
        "readPos b < bufferReadableSize b"
    | (overflow) "readPos b + bufferWriteableSize b < ?n" "int_max < capacity b + ?n"
    | (memory) "readPos b + bufferWriteableSize b < ?n" "capacity b + ?n \<le> int_max"
        "\<not> mem (capacity b + ?n)"
    using bad by (force simp: append_ok_def)
  then show ?thesis
  proof cases
    case overlap
    with extend_overlap [OF inv overlap] s show ?thesis by (simp add: bufferAppendData_def)
  next
    case overflow
    with extend_overflow [OF inv overflow] s show ?thesis by (simp add: bufferAppendData_def)
  next
    case memory
    moreover have "bufferWriteableSize b < ?n"
      using memory(1) buffer_invD(1) [OF inv] by linarith
    then have "memcpy_at (buf_data b) (writePos b) s ?n = Inl OutOfBounds"
      using buffer_invD [OF inv] by (simp add: memcpy_at_def bufferWriteableSize_def)
    ultimately show ?thesis
      using extend_no_memory [where mem = mem, OF inv memory] s by (simp add: bufferAppendData_def)
  qed
qed

lemma append_nothing:
  "bufferAppendData mem (Some b) (Some []) 0 = Inr (-1, Some b)"
  by (simp add: bufferAppendData_def)

text \<open>
  The calls of the HTTP code append a non-empty text to a buffer that exists and ignore the
  returned code: \<open>buffer_push\<close> is such a call.
\<close>

definition buffer_push :: "(int \<Rightarrow> bool) \<Rightarrow> buffer \<Rightarrow> string \<Rightarrow> buffer res" where
  "buffer_push mem b s =
     bindR (bufferAppendData mem (Some b) (Some s) (int (length s))) (\<lambda>(_, b'). Inr (the b'))"

lemma buffer_push_ok:
  assumes "buffer_inv b" and "append_ok mem b (int (length s))"
  obtains b' where "buffer_push mem b s = Inr b'" "buffer_inv b'" "contents b' = contents b @ s"
proof (cases "s = []")
  case True
  with assms that show ?thesis by (simp add: buffer_push_def append_nothing)
next
  case False
  then obtain b' where
    "bufferAppendData mem (Some b) (Some s) (int (length s)) = Inr (0, Some b')"
    "buffer_inv b'" "contents b' = contents b @ s"
    using append_step assms by blast
  with that show ?thesis by (simp add: buffer_push_def)
qed

lemma buffer_push_Inr:
  assumes inv: "buffer_inv b" and eq: "buffer_push mem b s = Inr b'"
  shows "buffer_inv b' \<and> contents b' = contents b @ s"
proof (cases "append_ok mem b (int (length s)) \<or> s = []")
  case True
  then have "append_ok mem b (int (length s))"
    using inv by (auto simp: append_ok_def bufferWriteableSize_def buffer_inv_def)
  with inv eq show ?thesis by (metis buffer_push_ok Inr_inject)
next
  case False
  with append_fault [OF inv] eq show ?thesis by (simp add: buffer_push_def)
qed

section \<open>Receiving\<close>

lemma socketRead_step:
  fixes b s
  defines "w \<equiv> bufferWriteableSize b"
  defines "got \<equiv> take (nat (w + 40960)) s"
  assumes inv: "buffer_inv b"
    and ok: "w < int (length got) \<Longrightarrow>
      append_ok mem (b\<lparr>buf_data := overwrite (buf_data b) (nat (writePos b)) (take (nat w) got),
                       writePos := capacity b\<rparr>) (int (length got) - w)"
  obtains b' where "bufferSocketRead mem b (Some s) = Inr (int (length got), b')"
    "buffer_inv b'" "contents b' = contents b @ got"
proof -
  have w0: "0 \<le> w" using inv by (simp add: w_def buf_simps)
  let ?seg = "take (nat w) got"
  have fit: "int (length ?seg) \<le> bufferWriteableSize b" using w0 by (simp add: w_def)
  note copy = memcpy_at_end [OF inv fit] and wr = write_at_end [OF inv fit]
  let ?d = "overwrite (buf_data b) (nat (writePos b)) ?seg"
  have unf: "bufferSocketRead mem b (Some s) =
      bindR (memcpy_at (buf_data b) (writePos b) ?seg (int (length ?seg))) (\<lambda>d.
      if int (length got) \<le> w
      then Inr (int (length got),
             b\<lparr>buf_data := d, writePos := writePos (b\<lparr>buf_data := d\<rparr>) + int (length got)\<rparr>)
      else bindR (bufferAppendData mem
               (Some (b\<lparr>buf_data := d, writePos := capacity (b\<lparr>buf_data := d\<rparr>)\<rparr>))
               (Some (drop (nat w) got)) (int (length got) - w))
             (\<lambda>(_, b'). Inr (int (length got), the b')))"
    by (simp only: bufferSocketRead_def Let_def option.case w_def got_def)
  show thesis
  proof (cases "int (length got) \<le> w")
    case True
    then have seg: "?seg = got" using w0 by simp
    have "bufferSocketRead mem b (Some s) =
        Inr (int (length got), b\<lparr>buf_data := ?d, writePos := writePos b + int (length ?seg)\<rparr>)"
      using True copy seg by (simp add: unf)
    then show ?thesis using that wr seg by simp
  next
    case False
    let ?b1 = "b\<lparr>buf_data := ?d, writePos := capacity b\<rparr>"
    have len: "int (length ?seg) = w" using False w0 by simp
    then have b1: "?b1 = b\<lparr>buf_data := ?d, writePos := writePos b + int (length ?seg)\<rparr>"
      by (simp add: w_def bufferWriteableSize_def)
    with wr have inv1: "buffer_inv ?b1" and cont1: "contents ?b1 = contents b @ ?seg" by simp_all
    have rest: "int (length (drop (nat w) got)) = int (length got) - w" "drop (nat w) got \<noteq> []"
      using False w0 by auto
    have "append_ok mem ?b1 (int (length (drop (nat w) got)))"
      using ok False rest by simp
    then obtain b2 where
      b2: "bufferAppendData mem (Some ?b1) (Some (drop (nat w) got)) (int (length got) - w) =
             Inr (0, Some b2)" "buffer_inv b2" "contents b2 = contents ?b1 @ drop (nat w) got"
      using append_step [OF inv1 _ rest(2)] rest(1) by metis
    have "bufferSocketRead mem b (Some s) = Inr (int (length got), b2)"
      using False copy b2(1) by (simp add: unf)
    moreover have "contents b2 = contents b @ got" by (simp only: b2(3) cont1) simp
    ultimately show ?thesis using that b2(2) by blast
  qed
qed

section \<open>Searching and sending\<close>

lemma findCRLF_Some:
  assumes "bufferFindCRLF b = Some p"
  obtains i where "p = readPos b + int i" "memmem (contents b) crlf = Some i"
  using assms by (auto simp: bufferFindCRLF_def)

lemma sendData_step:
  assumes inv: "buffer_inv b" and eq: "bufferSendData b k = (n, b', out)"
  shows "buffer_inv b' \<and> contents b = out @ contents b' \<and>
    (0 < n \<longrightarrow> n = int (length out)) \<and> (n \<le> 0 \<longrightarrow> out = [] \<and> b' = b)"
proof -
  let ?r = "bufferReadableSize b"
  show ?thesis
  proof (cases "0 < ?r \<and> 0 < (case k of SendErr \<Rightarrow> -1 | SendOk m \<Rightarrow> min (int m) ?r)")
    case False
    with inv eq show ?thesis
      by (auto simp: bufferSendData_def Let_def split: send_outcome.splits if_splits)
  next
    case True
    then obtain m where k: "k = SendOk m" by (cases k) auto
    let ?c = "min (int m) ?r"
    from True k eq have e: "n = ?c" "b' = b\<lparr>readPos := readPos b + ?c\<rparr>"
        "out = take (nat ?c) (contents b)"
      by (auto simp: bufferSendData_def Let_def)
    have c: "0 < ?c" "?c \<le> ?r" using True k by auto
    have "buffer_inv b'"
      using inv c by (auto simp: e buffer_inv_def bufferReadableSize_def)
    moreover have "contents b' = drop (nat ?c) (contents b)"
      using c buffer_invD [OF inv]
      by (simp add: e contents_def bufferReadableSize_def drop_take nat_diff_distrib
          nat_add_distrib add.commute)
    moreover have "length out = nat ?c" using c inv by (simp add: e length_contents)
    ultimately show ?thesis using c e by (simp add: min_le_iff_disj)
  qed
qed

section \<open>The contract: a queue of bytes\<close>

text \<open>
  What the HTTP code and the connection rely on: appending puts the bytes behind the queue,
  sending removes what it returns from the front.
\<close>

locale byte_queue =
  fixes qinv :: "'q \<Rightarrow> bool"
    and queue :: "'q \<Rightarrow> 'a list"
    and push :: "'q \<Rightarrow> 'a list \<Rightarrow> 'q res"
    and pop :: "'q \<Rightarrow> 'k \<Rightarrow> 'q \<times> 'a list"
  assumes push_queue: "qinv q \<Longrightarrow> push q s = Inr q' \<Longrightarrow> qinv q' \<and> queue q' = queue q @ s"
    and pop_queue: "qinv q \<Longrightarrow> pop q k = (q', out) \<Longrightarrow> qinv q' \<and> queue q = out @ queue q'"

datatype ('a, 'k) queue_op = Push "'a list" | Pop 'k

fun run_queue ::
  "('q \<Rightarrow> 'a list \<Rightarrow> 'q res) \<Rightarrow> ('q \<Rightarrow> 'k \<Rightarrow> 'q \<times> 'a list) \<Rightarrow> ('a, 'k) queue_op list \<Rightarrow>
   'q \<Rightarrow> ('a list \<times> 'q) res" where
  "run_queue push pop [] q = Inr ([], q)"
| "run_queue push pop (Push s # ops) q = bindR (push q s) (run_queue push pop ops)"
| "run_queue push pop (Pop k # ops) q =
     (let (q', out) = pop q k in
      bindR (run_queue push pop ops q') (\<lambda>(out', q''). Inr (out @ out', q'')))"

fun pushed :: "('a, 'k) queue_op list \<Rightarrow> 'a list" where
  "pushed [] = []"
| "pushed (Push s # ops) = s @ pushed ops"
| "pushed (Pop _ # ops) = pushed ops"

context byte_queue
begin

lemma conservation:
  "qinv q \<Longrightarrow> run_queue push pop ops q = Inr (out, q') \<Longrightarrow>
   qinv q' \<and> queue q @ pushed ops = out @ queue q'"
proof (induction ops arbitrary: q out)
  case Nil
  then show ?case by simp
next
  case (Cons op ops)
  show ?case
  proof (cases op)
    case (Push s)
    with Cons.prems obtain q1 where
      q1: "push q s = Inr q1" "run_queue push pop ops q1 = Inr (out, q')"
      by (auto simp: res_simps)
    with Cons.IH [OF _ q1(2)] push_queue [OF Cons.prems(1) q1(1)] Push show ?thesis by simp
  next
    case (Pop k)
    obtain q1 out1 where q1: "pop q k = (q1, out1)" by fastforce
    with Cons.prems Pop obtain out2 where
      o: "run_queue push pop ops q1 = Inr (out2, q')" "out = out1 @ out2"
      by (auto simp: res_simps)
    with Cons.IH [OF _ o(1)] pop_queue [OF Cons.prems(1) q1] Pop show ?thesis by simp
  qed
qed

lemma fifo_prefix:
  "qinv q \<Longrightarrow> queue q = [] \<Longrightarrow> run_queue push pop ops q = Inr (out, q') \<Longrightarrow>
   \<exists>rest. pushed ops = out @ rest"
  using conservation by fastforce

end

definition buffer_pop :: "buffer \<Rightarrow> send_outcome \<Rightarrow> buffer \<times> string" where
  "buffer_pop b k = (case bufferSendData b k of (_, b', out) \<Rightarrow> (b', out))"

interpretation bufq: byte_queue buffer_inv contents "buffer_push mem" buffer_pop for mem
proof unfold_locales
  show "buffer_inv q' \<and> contents q' = contents q @ s"
    if "buffer_inv q" "buffer_push mem q s = Inr q'" for q s q'
    using that by (rule buffer_push_Inr)
  show "buffer_inv q' \<and> contents q = out @ contents q'"
    if "buffer_inv q" "buffer_pop q k = (q', out)" for q k q' out
    using that sendData_step [of q k] by (auto simp: buffer_pop_def split: prod.splits)
qed

section \<open>Properties\<close>

text \<open>
  C23. Appending a non-empty text of \<open>n\<close> bytes to a well-formed buffer returns 0 and leaves a
  well-formed buffer with the text behind the unread bytes, exactly when \<open>append_ok\<close> holds:
  there is room behind the write position, or the bytes can be moved to the front without
  overlapping themselves, or the block can grow. Otherwise it is one of three faults: a
  \<^verbatim>\<open>memcpy\<close> between overlapping regions, a capacity above \<^verbatim>\<open>INT_MAX\<close>, or (when
  \<^verbatim>\<open>realloc\<close> fails, which \<^verbatim>\<open>bufferExtendRoom\<close> does not report) a write past the block.
\<close>

theorem bufferAppendData_correct:
  assumes "buffer_inv b" and "s \<noteq> []"
  shows "case bufferAppendData mem (Some b) (Some s) (int (length s)) of
      Inr (r, b') \<Rightarrow> append_ok mem b (int (length s)) \<and> r = 0 \<and>
        (\<exists>b1. b' = Some b1 \<and> buffer_inv b1 \<and> contents b1 = contents b @ s)
    | Inl e \<Rightarrow> \<not> append_ok mem b (int (length s)) \<and>
        e = (if int (length s) \<le> readPos b + bufferWriteableSize b then OverlapCopy
             else if int_max < capacity b + int (length s) then IntOverflow else OutOfBounds)"
proof (cases "append_ok mem b (int (length s))")
  case True
  then obtain b1 where
    "bufferAppendData mem (Some b) (Some s) (int (length s)) = Inr (0, Some b1)"
    "buffer_inv b1" "contents b1 = contents b @ s"
    using append_step [OF assms(1) _ assms(2)] by blast
  with True show ?thesis by simp
next
  case False
  with append_fault [OF assms] show ?thesis by simp
qed

definition example_buffer :: buffer where
  "example_buffer = \<lparr>buf_data = ''abcdefgh'', capacity = 8, readPos = 3, writePos = 6\<rparr>"

theorem bufferAppendData_correct_witness:
  "append_ok (\<lambda>_. True) example_buffer 4 \<and>
   (\<exists>b1. bufferAppendData (\<lambda>_. True) (Some example_buffer) (Some ''WXYZ'') 4 = Inr (0, Some b1) \<and>
      contents b1 = ''defWXYZ'')"
proof -
  have inv: "buffer_inv example_buffer" by (simp add: buffer_inv_def example_buffer_def int_max_def)
  have ok: "append_ok (\<lambda>_. True) example_buffer 4"
    by (simp add: append_ok_def example_buffer_def bufferWriteableSize_def bufferReadableSize_def)
  have cont: "contents example_buffer = ''def''"
    by (simp add: contents_def example_buffer_def bufferReadableSize_def)
  from bufferAppendData_correct [OF inv, of "''WXYZ''" "\<lambda>_. True"] ok cont show ?thesis
    by (auto split: sum.splits)
qed

text \<open>
  C17. What a buffer sends is what was appended, in order: along any sequence of appends and
  sends that runs without a fault, the bytes unread at the start followed by all bytes appended
  are the bytes sent followed by the bytes unread at the end. No byte is lost, duplicated or
  reordered by compaction or growth.
\<close>

theorem buffer_stream_conservation:
  assumes "buffer_inv b"
    and "run_queue (buffer_push mem) buffer_pop ops b = Inr (out, b')"
  shows "contents b @ pushed ops = out @ contents b'"
  using bufq.conservation [OF assms] by simp

theorem buffer_stream_conservation_witness:
  "\<exists>b'. run_queue (buffer_push (\<lambda>_. True)) buffer_pop
          [Push ''WXYZ'', Pop (SendOk 5), Push ''uv''] example_buffer = Inr (''defWX'', b') \<and>
        contents b' = ''YZuv''"
proof -
  have inv: "buffer_inv example_buffer" by (simp add: buffer_inv_def example_buffer_def int_max_def)
  have run: "\<exists>b'. run_queue (buffer_push (\<lambda>_. True)) buffer_pop
      [Push ''WXYZ'', Pop (SendOk 5), Push ''uv''] example_buffer = Inr (''defWX'', b')"
    by (simp add: buffer_push_def buffer_pop_def bufferAppendData_def bufferExtendRoom_def
        bufferSendData_def example_buffer_def bufferWriteableSize_def bufferReadableSize_def
        memcpy_within_def memcpy_at_def add_i32_def int_max_def overwrite_def contents_def)
  then obtain b' where r: "run_queue (buffer_push (\<lambda>_. True)) buffer_pop
      [Push ''WXYZ'', Pop (SendOk 5), Push ''uv''] example_buffer = Inr (''defWX'', b')" ..
  have "contents example_buffer = ''def''"
    by (simp add: contents_def example_buffer_def bufferReadableSize_def)
  with r buffer_stream_conservation [OF inv r] show ?thesis by auto
qed

text \<open>
  A read from a socket takes the bytes waiting there, at most the free room plus the 40960
  bytes of the second segment, returns their number and puts exactly them behind the unread
  bytes, also when they do not fit into the block and the remainder goes through an append.
\<close>

theorem bufferSocketRead_receives:
  fixes b s
  defines "w \<equiv> bufferWriteableSize b"
  defines "got \<equiv> take (nat (w + 40960)) s"
  assumes "buffer_inv b"
    and "w < int (length got) \<Longrightarrow>
      append_ok mem (b\<lparr>buf_data := overwrite (buf_data b) (nat (writePos b)) (take (nat w) got),
                       writePos := capacity b\<rparr>) (int (length got) - w)"
  shows "\<exists>b'. bufferSocketRead mem b (Some s) = Inr (int (length got), b') \<and>
    buffer_inv b' \<and> contents b' = contents b @ got"
  using socketRead_step [OF assms(3), of s mem] assms(4) unfolding w_def got_def by metis

theorem bufferSocketRead_receives_witness:
  "\<exists>b'. bufferSocketRead (\<lambda>_. True) example_buffer (Some ''0123456789'') = Inr (10, b') \<and>
        contents b' = ''def0123456789''"
proof -
  have inv: "buffer_inv example_buffer" by (simp add: buffer_inv_def example_buffer_def int_max_def)
  have cont: "contents example_buffer = ''def''"
    by (simp add: contents_def example_buffer_def bufferReadableSize_def)
  have w: "bufferWriteableSize example_buffer = 2"
    by (simp add: example_buffer_def bufferWriteableSize_def)
  have ok: "append_ok (\<lambda>_. True) (example_buffer\<lparr>buf_data := overwrite (buf_data example_buffer)
      (nat (writePos example_buffer)) ''01'', writePos := capacity example_buffer\<rparr>) 8"
    by (simp add: append_ok_def example_buffer_def bufferWriteableSize_def bufferReadableSize_def
        int_max_def)
  from bufferSocketRead_receives [OF inv, of "''0123456789''" "\<lambda>_. True"] ok cont
  show ?thesis by (auto simp: w)
qed

text \<open>
  \<^verbatim>\<open>bufferFindCRLF\<close> returns the first CRLF of the unread bytes, as a position in the
  block between the read and the write position, and NULL exactly when there is none.
\<close>

theorem bufferFindCRLF_first:
  assumes "buffer_inv b"
  shows "case bufferFindCRLF b of
      None \<Rightarrow> \<forall>j. take 2 (drop j (contents b)) \<noteq> crlf
    | Some p \<Rightarrow> readPos b \<le> p \<and> p + 2 \<le> writePos b \<and>
        take 2 (drop (nat p) (buf_data b)) = crlf \<and>
        (\<forall>j < nat (p - readPos b). take 2 (drop j (contents b)) \<noteq> crlf)"
proof (cases "memmem (contents b) crlf")
  case None
  with memmem_None [OF None] show ?thesis by (simp add: bufferFindCRLF_def)
next
  case (Some i)
  note bd = memmem_Some_bound [OF Some] and occ = memmem_Some_occurs [OF Some]
    and first = memmem_Some_first [OF Some]
  note inv = buffer_invD [OF assms]
  have p: "bufferFindCRLF b = Some (readPos b + int i)" using Some by (simp add: bufferFindCRLF_def)
  have len: "i + 2 \<le> nat (writePos b - readPos b)"
    using bd assms by (simp add: length_contents bufferReadableSize_def)
  have "nat (readPos b + int i) = nat (readPos b) + i" using inv by (simp add: nat_add_distrib)
  moreover have "take 2 (drop i (contents b)) = take 2 (drop (nat (readPos b) + i) (buf_data b))"
    using len by (simp add: contents_def bufferReadableSize_def drop_take add.commute min_def)
  moreover have "take 2 (drop i (contents b)) = crlf" using occ by simp
  ultimately show ?thesis using len first inv p by simp
qed

theorem bufferFindCRLF_first_witness:
  "bufferFindCRLF (\<lparr>buf_data = ''ab'' @ crlf @ ''c'' @ crlf, capacity = 7,
     readPos = 1, writePos = 7\<rparr>) = Some 2"
proof -
  let ?b = "\<lparr>buf_data = ''ab'' @ crlf @ ''c'' @ crlf, capacity = 7, readPos = 1, writePos = 7\<rparr>"
  have inv: "buffer_inv ?b" by (simp add: buffer_inv_def crlf_def int_max_def)
  have "bufferFindCRLF ?b = Some 2"
    by (simp add: bufferFindCRLF_def contents_def bufferReadableSize_def crlf_def memmem_Cons)
  with bufferFindCRLF_first [OF inv] show ?thesis by simp
qed

end
