(* ===== verification/HttpText.thy ===== *)
theory HttpText
  imports Prelude
begin

text \<open>
  The string routines of \<^verbatim>\<open>ReactorHTTP-C/HttpRequest.c\<close>: percent decoding in place
  (\<^verbatim>\<open>hexToDec\<close>, \<^verbatim>\<open>decodeMsg\<close>) and the media type of a file name (\<^verbatim>\<open>getFileType\<close>).
  \<open>decode_loop\<close> is the loop with its two pointers into one block; \<open>decode\<close> is what it
  computes, a function on texts.
\<close>

section \<open>The code\<close>

definition schar :: "char \<Rightarrow> int" where
  "schar c = (let n = of_char c :: nat in if n < 128 then int n else int n - 256)"

definition hexToDec :: "char \<Rightarrow> int" where
  "hexToDec c =
     (if schar c \<ge> 48 \<and> schar c \<le> 57 then schar c - 48
      else if schar c \<ge> 97 \<and> schar c \<le> 102 then schar c - 97 + 10
      else if schar c \<ge> 65 \<and> schar c \<le> 70 then schar c - 65 + 10
      else 0)"

definition isxdigit :: "char \<Rightarrow> bool" where
  "isxdigit c = (let n = of_char c :: nat in
     48 \<le> n \<and> n \<le> 57 \<or> 65 \<le> n \<and> n \<le> 70 \<or> 97 \<le> n \<and> n \<le> 102)"

definition hex_pair :: "char \<Rightarrow> char \<Rightarrow> char" where
  "hex_pair a b = char_of (hexToDec a * 16 + hexToDec b)"

text \<open>\<^verbatim>\<open>from[0] == '%' && isxdigit(from[1]) && isxdigit(from[2])\<close>, read by read.\<close>

definition escape_at :: "string \<Rightarrow> nat \<Rightarrow> bool res" where
  "escape_at m i =
     (if m ! i \<noteq> CHR ''%'' then Inr False
      else if length m \<le> i + 1 then Inl OutOfBounds
      else if \<not> isxdigit (m ! (i + 1)) then Inr False
      else if length m \<le> i + 2 then Inl OutOfBounds
      else Inr (isxdigit (m ! (i + 2))))"

function decode_loop :: "string \<Rightarrow> nat \<Rightarrow> nat \<Rightarrow> string res" where
  "decode_loop m to from =
     (if length m \<le> from \<or> length m \<le> to then Inl OutOfBounds
      else if m ! from = NUL then Inr (m[to := NUL])
      else case escape_at m from of
             Inl e \<Rightarrow> Inl e
           | Inr True \<Rightarrow>
               decode_loop (m[to := hex_pair (m ! (from + 1)) (m ! (from + 2))]) (to + 1) (from + 3)
           | Inr False \<Rightarrow> decode_loop (m[to := m ! from]) (to + 1) (from + 1))"
  by pat_completeness auto
termination
  by (relation "measure (\<lambda>(m, to, from). length m - from)") auto

declare decode_loop.simps [simp del]

text \<open>The call \<^verbatim>\<open>decodeMsg(url, url)\<close>.\<close>

definition decodeMsg :: "string \<Rightarrow> string res" where
  "decodeMsg m = decode_loop m 0 0"

definition getFileType :: "string \<Rightarrow> string" where
  "getFileType name =
     (case strrchr (cstr name) (CHR ''.'') of
        None \<Rightarrow> ''text/plain; charset=utf-8''
      | Some dot \<Rightarrow>
          if dot = ''.html'' \<or> dot = ''.htm'' then ''text/html; charset=utf-8''
          else if dot = ''.jpg'' \<or> dot = ''.jpeg'' then ''image/jpeg''
          else if dot = ''.gif'' then ''image/gif''
          else if dot = ''.png'' then ''image/png''
          else if dot = ''.css'' then ''text/css''
          else if dot = ''.au'' then ''audio/basic''
          else if dot = ''.wav'' then ''audio/wav''
          else if dot = ''.avi'' then ''video/x-msvideo''
          else if dot = ''.mov'' \<or> dot = ''.qt'' then ''video/quicktime''
          else if dot = ''.mpeg'' \<or> dot = ''.mpe'' then ''video/mpeg''
          else if dot = ''.vrml'' \<or> dot = ''.wrl'' then ''model/vrml''
          else if dot = ''.midi'' \<or> dot = ''.mid'' then ''audio/midi''
          else if dot = ''.mp3'' then ''audio/mpeg''
          else if dot = ''.ogg'' then ''application/ogg''
          else if dot = ''.pac'' then ''application/x-ns-proxy-autoconfig''
          else ''text/plain; charset=utf-8'')"

text \<open>What the response code needs of a media type, whatever the name.\<close>

lemma getFileType_facts:
  "getFileType name \<noteq> [] \<and> length (getFileType name) < 128 \<and>
   NUL \<notin> set (getFileType name) \<and> LF \<notin> set (getFileType name)"
  by (simp add: getFileType_def split: option.split)

section \<open>Percent decoding as a function on texts\<close>

fun is_escape :: "string \<Rightarrow> bool" where
  "is_escape (c # a # b # t) \<longleftrightarrow> c = CHR ''%'' \<and> isxdigit a \<and> isxdigit b"
| "is_escape _ \<longleftrightarrow> False"

function decode :: "string \<Rightarrow> string" where
  "decode s =
     (if s = [] then []
      else if is_escape s then hex_pair (s ! 1) (s ! 2) # decode (drop 3 s)
      else hd s # decode (tl s))"
  by pat_completeness auto
termination
  by (relation "measure length") auto

declare decode.simps [simp del]

lemma decode_Nil [simp]: "decode [] = []"
  by (simp add: decode.simps)

lemma decode_escape:
  "isxdigit a \<Longrightarrow> isxdigit b \<Longrightarrow> decode (CHR ''%'' # a # b # t) = hex_pair a b # decode t"
  by (subst decode.simps) simp

lemma decode_plain: "\<not> is_escape (c # s) \<Longrightarrow> decode (c # s) = c # decode s"
  by (subst decode.simps) simp

lemma is_escape_percent: "is_escape (c # s) \<Longrightarrow> c = CHR ''%''"
  by (cases "c # s" rule: is_escape.cases) auto

lemma length_decode_le: "length (decode s) \<le> length s"
proof (induction s rule: decode.induct)
  case (1 s)
  show ?case
  proof (cases s)
    case (Cons c t)
    with 1 show ?thesis by (cases "is_escape s") (auto simp: decode.simps [of "c # t"])
  qed simp
qed

lemma decode_no_percent: "CHR ''%'' \<notin> set s \<Longrightarrow> decode s = s"
proof (induction s)
  case (Cons c s)
  then have "\<not> is_escape (c # s)" using is_escape_percent by force
  with Cons show ?case by (simp add: decode_plain)
qed simp

lemma not_isxdigit_NUL [simp]: "\<not> isxdigit NUL"
  by (simp add: isxdigit_def)

section \<open>The loop computes it, in place\<close>

lemma cstr_Nil [simp]: "cstr [] = []"
  and cstr_Cons [simp]: "cstr (c # s) = (if c = NUL then [] else c # cstr s)"
  by (simp_all add: cstr_def)

lemma cstr_drop:
  "i < length m \<Longrightarrow> cstr (drop i m) = (if m ! i = NUL then [] else m ! i # cstr (drop (i + 1) m))"
  by (simp add: Cons_nth_drop_Suc [symmetric])

lemma NUL_drop_Suc:
  "i < length m \<Longrightarrow> m ! i \<noteq> NUL \<Longrightarrow> NUL \<in> set (drop i m) \<Longrightarrow> NUL \<in> set (drop (i + 1) m)"
  by (simp add: Cons_nth_drop_Suc [symmetric])

lemma NUL_drop_length: "NUL \<in> set (drop i m) \<Longrightarrow> i < length m"
  by (cases "i < length m") auto

text \<open>
  Before the terminator the three reads stay inside the block, and they find an escape exactly
  where the rest of the text starts with one.
\<close>

lemma escape_at_is_escape:
  assumes "m ! i \<noteq> NUL" and "NUL \<in> set (drop i m)"
  shows "escape_at m i = Inr (is_escape (cstr (drop i m))) \<and>
    (is_escape (cstr (drop i m)) \<longrightarrow> NUL \<in> set (drop (i + 3) m) \<and>
       cstr (drop i m) = CHR ''%'' # m ! (i + 1) # m ! (i + 2) # cstr (drop (i + 3) m))"
proof -
  have i0: "i < length m" using assms(2) by (rule NUL_drop_length)
  have n1: "NUL \<in> set (drop (i + 1) m)" using NUL_drop_Suc [OF i0 assms] .
  have i1: "i + 1 < length m" using n1 by (rule NUL_drop_length)
  have c0: "cstr (drop i m) = m ! i # cstr (drop (i + 1) m)" using assms(1) cstr_drop [OF i0] by simp
  show ?thesis
  proof (cases "m ! (i + 1) = NUL")
    case True
    then show ?thesis using c0 i1 cstr_drop [OF i1] by (simp add: escape_at_def)
  next
    case False
    have n2: "NUL \<in> set (drop (i + 2) m)" using NUL_drop_Suc [OF i1 False n1] by simp
    have i2: "i + 2 < length m" using n2 by (rule NUL_drop_length)
    have c1: "cstr (drop i m) = m ! i # m ! (i + 1) # cstr (drop (i + 2) m)"
      using c0 cstr_drop [OF i1] False by simp
    show ?thesis
    proof (cases "m ! (i + 2) = NUL")
      case True
      then show ?thesis using c1 i1 i2 cstr_drop [OF i2] by (simp add: escape_at_def)
    next
      case False
      have "NUL \<in> set (drop (i + 3) m)" using NUL_drop_Suc [OF i2 False n2] by (simp add: numeral_3_eq_3)
      then show ?thesis
        using c1 i1 i2 cstr_drop [OF i2] False by (simp add: escape_at_def numeral_3_eq_3)
    qed
  qed
qed

text \<open>
  The write at \<open>to \<le> from\<close> never changes a byte still to be read: what is left to do is to
  decode the text at \<open>from\<close>.
\<close>

lemma decode_loop_computes:
  assumes "to \<le> from" and "NUL \<in> set (drop from m)"
  shows "decode_loop m to from =
    Inr (overwrite m to (decode (cstr (drop from m)) @ [NUL]))"
  using assms
proof (induction m to "from" rule: decode_loop.induct)
  case (1 m to "from")
  have f: "from < length m" using "1.prems"(2) by (rule NUL_drop_length)
  then have t: "to < length m" using "1.prems"(1) by simp
  show ?case
  proof (cases "m ! from = NUL")
    case True
    then show ?thesis
      using f t by (simp add: decode_loop.simps [of m to "from"] cstr_drop [OF f] overwrite_def upd_conv_take_nth_drop)
  next
    case False
    note esc = escape_at_is_escape [OF False "1.prems"(2)]
    show ?thesis
    proof (cases "is_escape (cstr (drop from m))")
      case True
      let ?c = "hex_pair (m ! (from + 1)) (m ! (from + 2))"
      from True esc have e: "escape_at m from = Inr True" and n: "NUL \<in> set (drop (from + 3) m)"
        and c: "cstr (drop from m) = CHR ''%'' # m ! (from + 1) # m ! (from + 2) # cstr (drop (from + 3) m)"
        by simp_all
      have dec: "decode (cstr (drop from m)) = ?c # decode (cstr (drop (from + 3) m))"
        using True unfolding c by (simp add: decode_escape)
      have same: "drop (from + 3) (m[to := ?c]) = drop (from + 3) m"
        using "1.prems"(1) by simp
      have "decode_loop (m[to := ?c]) (to + 1) (from + 3) =
          Inr (overwrite (m[to := ?c]) (to + 1) (decode (cstr (drop (from + 3) m)) @ [NUL]))"
        using "1.IH"(1) [of True] f t False e n "1.prems"(1) same by simp
      moreover have "overwrite (m[to := ?c]) (to + 1) (decode (cstr (drop (from + 3) m)) @ [NUL]) =
          overwrite m to (decode (cstr (drop from m)) @ [NUL])"
        using t by (simp add: overwrite_def dec take_Suc_conv_app_nth)
      ultimately show ?thesis
        using f t False e by (simp add: decode_loop.simps [of m to "from"])
    next
      case no: False
      let ?c = "m ! from"
      from no esc have e: "escape_at m from = Inr False" by simp
      have n: "NUL \<in> set (drop (from + 1) m)" using NUL_drop_Suc [OF f False "1.prems"(2)] .
      have c: "cstr (drop from m) = ?c # cstr (drop (from + 1) m)"
        using cstr_drop [OF f] False by simp
      have dec: "decode (cstr (drop from m)) = ?c # decode (cstr (drop (from + 1) m))"
        using no unfolding c by (simp add: decode_plain)
      have same: "drop (from + 1) (m[to := ?c]) = drop (from + 1) m"
        using "1.prems"(1) by simp
      have "decode_loop (m[to := ?c]) (to + 1) (from + 1) =
          Inr (overwrite (m[to := ?c]) (to + 1) (decode (cstr (drop (from + 1) m)) @ [NUL]))"
        using "1.IH"(2) [of False] f t False e n "1.prems"(1) same by simp
      moreover have "overwrite (m[to := ?c]) (to + 1) (decode (cstr (drop (from + 1) m)) @ [NUL]) =
          overwrite m to (decode (cstr (drop from m)) @ [NUL])"
        using t by (simp add: overwrite_def dec take_Suc_conv_app_nth)
      ultimately show ?thesis
        using f t False e by (simp add: decode_loop.simps [of m to "from"])
    qed
  qed
qed

section \<open>Encoders\<close>

text \<open>
  A client may escape any byte and has to escape the percent sign: \<open>percent_encode P\<close> escapes
  the bytes of \<open>P\<close> and that sign.
\<close>

definition hex_digit :: "nat \<Rightarrow> char" where
  "hex_digit n = (if n < 10 then char_of (48 + n) else char_of (55 + n))"

definition percent_encode :: "(char \<Rightarrow> bool) \<Rightarrow> string \<Rightarrow> string" where
  "percent_encode P s = concat (map (\<lambda>c.
     if P c \<or> c = CHR ''%''
     then [CHR ''%'', hex_digit (of_char c div 16), hex_digit (of_char c mod 16)] else [c]) s)"

lemma hex_digit_value:
  assumes "n < 16"
  shows "isxdigit (hex_digit n) \<and> hexToDec (hex_digit n) = int n"
proof (cases "n < 10")
  case True
  then have "of_char (hex_digit n) = 48 + n" by (simp add: hex_digit_def)
  with True show ?thesis by (simp add: isxdigit_def hexToDec_def schar_def)
next
  case False
  with assms have "of_char (hex_digit n) = 55 + n" by (simp add: hex_digit_def)
  with False assms show ?thesis by (simp add: isxdigit_def hexToDec_def schar_def)
qed

lemma hex_pair_digits: "hex_pair (hex_digit (of_char c div 16)) (hex_digit (of_char c mod 16)) = c"
proof -
  let ?n = "of_char c :: nat"
  have "?n div 16 < 16" by (simp add: less_mult_imp_div_less)
  then have "hexToDec (hex_digit (?n div 16)) * 16 + hexToDec (hex_digit (?n mod 16)) =
      int (?n div 16) * 16 + int (?n mod 16)"
    by (simp add: hex_digit_value)
  also have "\<dots> = int ?n" using div_mult_mod_eq [of ?n 16] by linarith
  also have "\<dots> = of_char c" by (simp only: of_nat_of_char)
  finally show ?thesis by (simp add: hex_pair_def)
qed

lemma decode_percent_encode: "decode (percent_encode P s) = s"
proof (induction s)
  case Nil
  then show ?case by (simp add: percent_encode_def)
next
  case (Cons c s)
  show ?case
  proof (cases "P c \<or> c = CHR ''%''")
    case True
    then have "percent_encode P (c # s) = CHR ''%'' # hex_digit (of_char c div 16) #
        hex_digit (of_char c mod 16) # percent_encode P s"
      by (simp add: percent_encode_def)
    with Cons.IH show ?thesis
      by (simp add: decode_escape hex_digit_value hex_pair_digits less_mult_imp_div_less)
  next
    case False
    then have "percent_encode P (c # s) = c # percent_encode P s" by (simp add: percent_encode_def)
    moreover have "\<not> is_escape (c # percent_encode P s)" using False is_escape_percent by blast
    ultimately show ?thesis using Cons.IH by (simp add: decode_plain)
  qed
qed

lemma hex_digit_not_NUL: "n < 16 \<Longrightarrow> hex_digit n \<noteq> NUL"
  using hex_digit_value [of n] not_isxdigit_NUL by metis

lemma NUL_percent_encode:
  "NUL \<notin> set s \<Longrightarrow> NUL \<notin> set (percent_encode P s)"
proof (induction s)
  case Nil
  then show ?case by (simp add: percent_encode_def)
next
  case (Cons c s)
  have "of_char c div 16 < (16 :: nat)" "of_char c mod 16 < (16 :: nat)"
    by (simp_all add: less_mult_imp_div_less)
  then have "hex_digit (of_char c div 16) \<noteq> NUL" "hex_digit (of_char c mod 16) \<noteq> NUL"
    by (simp_all add: hex_digit_not_NUL)
  with Cons show ?case by (auto simp: percent_encode_def)
qed

section \<open>Properties\<close>

text \<open>
  C25. Decoding a URL in its own block never reads or writes outside the block and returns: the
  block then holds the decoded text (up to a NUL an escape may have produced), has the same
  length, and the bytes behind the old terminator are untouched.
\<close>

theorem decodeMsg_in_place:
  assumes "NUL \<in> set m"
  shows "\<exists>m'. decodeMsg m = Inr m' \<and> length m' = length m \<and>
    cstr m' = cstr (decode (cstr m)) \<and> strlen m' \<le> strlen m \<and>
    drop (Suc (strlen m)) m' = drop (Suc (strlen m)) m"
proof -
  let ?d = "decode (cstr m) @ [NUL]"
  have eq: "decodeMsg m = Inr (overwrite m 0 ?d)"
    using decode_loop_computes [of 0 0 m] assms by (simp add: decodeMsg_def)
  have le: "length (decode (cstr m)) \<le> strlen m" by (simp add: strlen_def length_decode_le)
  have lt: "strlen m < length m" using length_cstr_less [OF assms] by (simp add: strlen_def)
  have c: "cstr (overwrite m 0 ?d) = cstr (decode (cstr m))"
    by (simp add: overwrite_def cstr_append cstr_id)
  moreover have "strlen (overwrite m 0 ?d) \<le> strlen m"
    using le length_cstr_le [of "decode (cstr m)"] by (simp add: strlen_def c)
  moreover have "length (overwrite m 0 ?d) = length m" using le lt by simp
  moreover have "drop (Suc (strlen m)) (overwrite m 0 ?d) = drop (Suc (strlen m)) m"
    using le by (simp add: overwrite_def Suc_diff_le)
  ultimately show ?thesis using eq by blast
qed

theorem decodeMsg_in_place_witness:
  "\<exists>m'. decodeMsg ''/a%20b%2Fc'' = Inl OutOfBounds \<and>
     decodeMsg (''/a%20b%2Fc'' @ [NUL]) = Inr m' \<and> cstr m' = ''/a b/c''"
proof -
  have d: "cstr (decode (cstr (''/a%20b%2Fc'' @ [NUL]))) = ''/a b/c''"
    by code_simp
  have "decodeMsg ''/a%20b%2Fc'' = Inl OutOfBounds"
    by code_simp
  with decodeMsg_in_place [of "''/a%20b%2Fc'' @ [NUL]"] d show ?thesis by auto
qed

text \<open>
  Percent decoding inverts percent encoding: whichever bytes a client chooses to escape,
  the block the server decodes holds the original text.
\<close>

theorem decodeMsg_percent_encode:
  assumes "NUL \<notin> set s"
  shows "\<exists>m'. decodeMsg (percent_encode P s @ [NUL]) = Inr m' \<and> cstr m' = s"
proof -
  have "cstr (percent_encode P s @ [NUL]) = percent_encode P s"
    using NUL_percent_encode [OF assms] by (simp add: cstr_append_NUL)
  with decode_loop_computes [of 0 0 "percent_encode P s @ [NUL]"] show ?thesis
    by (simp add: decodeMsg_def decode_percent_encode overwrite_def cstr_append_NUL assms)
qed

theorem decodeMsg_percent_encode_witness:
  "\<exists>m'. decodeMsg (percent_encode (\<lambda>c. c = CHR '' '') ''/a b%'' @ [NUL]) = Inr m' \<and>
        cstr m' = ''/a b%''"
  using decodeMsg_percent_encode [of "''/a b%''" "\<lambda>c. c = CHR '' ''"] by simp

text \<open>
  The media type depends only on what follows the last dot of the name, is never empty,
  contains no NUL and no line break, and fits the 128-byte value of a response header.
\<close>

theorem getFileType_extension:
  assumes "NUL \<notin> set p" and "NUL \<notin> set e" and "CHR ''.'' \<notin> set e"
  shows "getFileType (p @ CHR ''.'' # e) = getFileType (CHR ''.'' # e) \<and>
    getFileType e = ''text/plain; charset=utf-8'' \<and>
    (\<forall>name. getFileType name \<noteq> [] \<and> length (getFileType name) < 128 \<and>
       NUL \<notin> set (getFileType name) \<and> LF \<notin> set (getFileType name))"
proof -
  have "cstr (p @ CHR ''.'' # e) = p @ CHR ''.'' # e" "cstr (CHR ''.'' # e) = CHR ''.'' # e" "cstr e = e"
    using assms by (simp_all add: cstr_id)
  then have "getFileType (p @ CHR ''.'' # e) = getFileType (CHR ''.'' # e)"
      "getFileType e = ''text/plain; charset=utf-8''"
    using strrchr_append [OF assms(3)] strrchr_append [OF assms(3), of "[]"] assms(3)
    by (simp_all add: getFileType_def strrchr_None [THEN iffD2] del: strrchr.simps)
  moreover have "\<forall>name. getFileType name \<noteq> [] \<and> length (getFileType name) < 128 \<and>
       NUL \<notin> set (getFileType name) \<and> LF \<notin> set (getFileType name)"
    by (simp add: getFileType_facts)
  ultimately show ?thesis by blast
qed

theorem getFileType_extension_witness:
  "getFileType ''img.d/a.jpeg'' = ''image/jpeg''"
  using getFileType_extension [of "''img.d/a''" "''jpeg''"] by (simp add: getFileType_def)

end
