(* ===== verification/SendBody.thy ===== *)
theory SendBody
  imports Buffer HttpText
begin

text \<open>
  The two producers of a response body in \<^verbatim>\<open>ReactorHTTP-C/HttpRequest.c\<close>: \<open>sendFile\<close> and
  \<open>sendDir\<close>. The file calls of the operating system are an \<open>env\<close>: what \<^verbatim>\<open>stat\<close>,
  \<^verbatim>\<open>open\<close> with the following \<^verbatim>\<open>read\<close>s, and \<^verbatim>\<open>scandir\<close> answer for a path, and which
  blocks the allocator can provide. \<^verbatim>\<open>MSG_SEND_AUTO\<close> is defined in this file of the source
  (through \<^verbatim>\<open>TcpConnection.h\<close>), so the producers append to the send buffer only.
\<close>

section \<open>The operating system\<close>

record stat_info =
  st_isdir :: bool
  st_size :: int

datatype read_outcome = ReadErr | ReadBytes string

record env =
  e_mem :: "int \<Rightarrow> bool"
  fs_stat :: "string \<Rightarrow> stat_info option"
  fs_open :: "string \<Rightarrow> (nat \<Rightarrow> read_outcome) option"
  fs_scandir :: "string \<Rightarrow> string list option"

section \<open>The code\<close>

definition buffer_puts :: "(int \<Rightarrow> bool) \<Rightarrow> buffer \<Rightarrow> string \<Rightarrow> buffer res" where
  "buffer_puts mem b s = bindR (bufferAppendString mem (Some b) s) (\<lambda>(_, b'). Inr (the b'))"

text \<open>
  The reading loop: \<open>rd k\<close> is the answer to the \<open>k\<close>-th \<^verbatim>\<open>read\<close> of at most 1024 bytes. An
  error closes the descriptor and goes round again, where \<^verbatim>\<open>read\<close> fails on the closed
  descriptor.
\<close>

partial_function (option) sendFile_loop ::
  "(int \<Rightarrow> bool) \<Rightarrow> (nat \<Rightarrow> read_outcome) \<Rightarrow> nat \<Rightarrow> bool \<Rightarrow> buffer \<Rightarrow> buffer res option" where
  "sendFile_loop mem rd k closed sendBuf =
     (case (if closed then ReadErr else rd k) of
        ReadErr \<Rightarrow> sendFile_loop mem rd (Suc k) True sendBuf
      | ReadBytes s \<Rightarrow>
          if take 1024 s = [] then Some (Inr sendBuf)
          else (case buffer_push mem sendBuf (take 1024 s) of
                  Inl e \<Rightarrow> Some (Inl e)
                | Inr b \<Rightarrow> sendFile_loop mem rd (Suc k) closed b))"

text \<open>A path that cannot be opened stops the process at \<^verbatim>\<open>assert(fd > 0)\<close>.\<close>

definition sendFile :: "env \<Rightarrow> string \<Rightarrow> buffer \<Rightarrow> buffer res option" where
  "sendFile e fileName sendBuf =
     (case fs_open e fileName of
        None \<Rightarrow> Some (Inl AssertFail)
      | Some rd \<Rightarrow> sendFile_loop (e_mem e) rd 0 False sendBuf)"

definition dir_row :: "string \<Rightarrow> stat_info \<Rightarrow> string" where
  "dir_row name st =
     (if st_isdir st
      then ''<tr><td><a href='' @ [CHR 0x22] @ name @ ''/'' @ [CHR 0x22] @ ''>'' @ name @
             ''</a></td><td>'' @ dec_int (st_size st) @ ''</td></tr>''
      else ''<tr><td><a href='' @ [CHR 0x22] @ name @ [CHR 0x22] @ ''>'' @ name @
             ''</a></td><td>'' @ dec_int (st_size st) @ ''</td></tr>'')"

text \<open>
  \<open>cur\<close> is the text in \<^verbatim>\<open>buf[4096]\<close>. The result of \<^verbatim>\<open>stat\<close> on an entry is not checked:
  where it fails, the test that follows reads an uninitialised structure.
\<close>

fun sendDir_loop ::
  "env \<Rightarrow> string \<Rightarrow> string list \<Rightarrow> string \<Rightarrow> buffer \<Rightarrow> (string \<times> buffer) res" where
  "sendDir_loop e dirName [] cur sendBuf = Inr (cur, sendBuf)"
| "sendDir_loop e dirName (name # names) cur sendBuf =
     bindR (strcpy_into 1024 (dirName @ ''/'' @ name)) (\<lambda>subPath.
     case fs_stat e subPath of
       None \<Rightarrow> Inl Uninitialised
     | Some st \<Rightarrow>
         bindR (strcpy_into 4096 (cur @ dir_row name st)) (\<lambda>buf.
         bindR (buffer_puts (e_mem e) sendBuf buf) (\<lambda>b.
         sendDir_loop e dirName names [] b)))"

definition dir_head :: "string \<Rightarrow> string" where
  "dir_head dirName = ''<html><head><title>'' @ dirName @ ''</title></head><body><table>''"

definition dir_tail :: string where
  "dir_tail = ''</table></body></html>''"

text \<open>
  The last \<^verbatim>\<open>sprintf\<close> writes from the start of \<^verbatim>\<open>buf\<close>; when \<^verbatim>\<open>scandir\<close> fails, the
  pointer it should have set is freed uninitialised.
\<close>

definition sendDir :: "env \<Rightarrow> string \<Rightarrow> buffer \<Rightarrow> buffer res" where
  "sendDir e dirName sendBuf =
     bindR (strcpy_into 4096 (dir_head dirName)) (\<lambda>buf.
     let namelist = fs_scandir e dirName;
         names = (case namelist of None \<Rightarrow> [] | Some ns \<Rightarrow> ns) in
     bindR (sendDir_loop e dirName names buf sendBuf) (\<lambda>(_, b).
     bindR (strcpy_into 4096 dir_tail) (\<lambda>buf.
     bindR (buffer_puts (e_mem e) b buf) (\<lambda>b.
     if namelist = None then Inl Uninitialised else Inr b))))"

section \<open>Appending to a buffer that is only appended to\<close>

lemma take_strlen [simp]: "take (strlen s) s = cstr s"
  unfolding strlen_def cstr_def by (rule takeWhile_eq_take [symmetric])

lemma buffer_puts_push: "buffer_puts mem b s = buffer_push mem b (cstr s)"
proof -
  have "bufferAppendData mem (Some b) (Some s) (int (strlen s)) =
      bufferAppendData mem (Some b) (Some (cstr s)) (int (length (cstr s)))"
    by (simp add: bufferAppendData_def memcpy_at_def strlen_def [symmetric] length_cstr_le
        bindR_def split: sum.split) (simp add: strlen_def length_cstr_le)
  then show ?thesis
    by (simp add: buffer_puts_def buffer_push_def bufferAppendString_def)
qed

text \<open>
  \<open>roomy mem b n\<close>: \<open>n\<close> more bytes can be appended in any portions, because they fit behind the
  write position or because nothing has been read yet and the block can grow.
\<close>

definition roomy :: "(int \<Rightarrow> bool) \<Rightarrow> buffer \<Rightarrow> int \<Rightarrow> bool" where
  "roomy mem b n \<longleftrightarrow> n \<le> bufferWriteableSize b \<or>
     readPos b = 0 \<and> capacity b + n \<le> int_max \<and> (\<forall>m. m \<le> capacity b + n \<longrightarrow> mem m)"

lemma roomy_append_ok: "buffer_inv b \<Longrightarrow> roomy mem b n \<Longrightarrow> 0 \<le> k \<Longrightarrow> k \<le> n \<Longrightarrow> append_ok mem b k"
  by (auto simp: roomy_def append_ok_def)

lemma push_after_extend:
  assumes "bufferExtendRoom mem b (int (length s)) = Inr b1" and "buffer_inv b1"
    and "int (length s) \<le> bufferWriteableSize b1" and "s \<noteq> []"
  shows "buffer_push mem b s = Inr (b1\<lparr>buf_data := overwrite (buf_data b1) (nat (writePos b1)) s,
    writePos := writePos b1 + int (length s)\<rparr>)"
  using assms by (simp add: buffer_push_def bufferAppendData_def memcpy_at_end add_writePos)

lemma push_room:
  assumes "buffer_inv b" and "int (length s) \<le> bufferWriteableSize b" and "s \<noteq> []"
  shows "buffer_push mem b s = Inr (b\<lparr>buf_data := overwrite (buf_data b) (nat (writePos b)) s,
    writePos := writePos b + int (length s)\<rparr>)"
  using assms by (intro push_after_extend) (simp_all add: bufferExtendRoom_def)

text \<open>
  \<open>grown b s b'\<close>: \<open>b'\<close> is \<open>b\<close> after appends of \<open>s\<close> that neither moved the unread bytes nor
  took more memory than \<open>s\<close> needs.
\<close>

definition grown :: "buffer \<Rightarrow> string \<Rightarrow> buffer \<Rightarrow> bool" where
  "grown b s b' \<longleftrightarrow> buffer_inv b' \<and> contents b' = contents b @ s \<and> readPos b' = readPos b \<and>
     capacity b \<le> capacity b' \<and> capacity b' \<le> capacity b + int (length s)"

lemma grown_refl: "buffer_inv b \<Longrightarrow> grown b [] b"
  by (simp add: grown_def)

lemma grown_trans: "grown b s b1 \<Longrightarrow> grown b1 t b2 \<Longrightarrow> grown b (s @ t) b2"
  by (auto simp: grown_def)

lemma grownD:
  assumes "grown b s b'"
  shows "buffer_inv b'" "contents b' = contents b @ s" "readPos b' = readPos b"
  using assms by (simp_all add: grown_def)

lemma grown_writeable:
  assumes "buffer_inv b" and "grown b s b'"
  shows "bufferWriteableSize b - int (length s) \<le> bufferWriteableSize b'"
proof -
  have "bufferReadableSize b' = bufferReadableSize b + int (length s)"
    using assms readable_length [of b] readable_length [of b'] by (simp add: grown_def)
  then show ?thesis
    using assms(2) by (simp add: grown_def bufferReadableSize_def bufferWriteableSize_def)
qed

lemma grown_roomy:
  assumes "buffer_inv b" and "grown b s b'" and "roomy mem b n"
  shows "roomy mem b' (n - int (length s))"
  using assms(2,3) grown_writeable [OF assms(1,2)] by (fastforce simp: roomy_def grown_def)

lemma push_roomy:
  assumes inv: "buffer_inv b" and rm: "roomy mem b n" and k: "int (length s) \<le> n"
  obtains b' where "buffer_push mem b s = Inr b'" "grown b s b'"
proof (cases "s = []")
  case True
  with that inv show ?thesis by (simp add: buffer_push_def append_nothing grown_refl)
next
  case ne: False
  let ?l = "int (length s)"
  obtain b1 where b1: "bufferExtendRoom mem b ?l = Inr b1" "buffer_inv b1"
      "contents b1 = contents b" "?l \<le> bufferWriteableSize b1"
    using extend_ok [OF inv roomy_append_ok [OF inv rm _ k]] ne by auto
  have "readPos b1 = readPos b \<and> capacity b \<le> capacity b1 \<and> capacity b1 \<le> capacity b + ?l"
  proof (cases "?l \<le> bufferWriteableSize b")
    case True
    with b1(1) show ?thesis by (auto simp: bufferExtendRoom_def)
  next
    case False
    with rm k have "readPos b = 0" by (auto simp: roomy_def)
    with False b1(1) show ?thesis
      by (auto simp: bufferExtendRoom_def res_simps split: if_splits)
  qed
  with that [OF push_after_extend [OF b1(1,2,4) ne]] b1 write_at_end [OF b1(2,4)] show ?thesis
    by (simp add: grown_def)
qed

lemma puts_roomy:
  assumes "NUL \<notin> set s" and "buffer_inv b" and "roomy mem b n" and "int (length s) \<le> n"
  obtains b' where "buffer_puts mem b s = Inr b'" "grown b s b'"
  using push_roomy [OF assms(2-4)] assms(1) by (auto simp: buffer_puts_push cstr_id)

section \<open>Reading a regular file\<close>

definition file_reads :: "string \<Rightarrow> nat \<Rightarrow> read_outcome" where
  "file_reads c k = ReadBytes (take 1024 (drop (1024 * k) c))"

lemma sendFile_loop_eof:
  "take 1024 (drop (1024 * k) c) = [] \<Longrightarrow> sendFile_loop mem (file_reads c) k False b = Some (Inr b)"
  by (subst sendFile_loop.simps) (simp add: file_reads_def)

lemma sendFile_loop_chunk:
  "take 1024 (drop (1024 * k) c) \<noteq> [] \<Longrightarrow>
   buffer_push mem b (take 1024 (drop (1024 * k) c)) = Inr b' \<Longrightarrow>
   sendFile_loop mem (file_reads c) k False b = sendFile_loop mem (file_reads c) (Suc k) False b'"
  by (subst sendFile_loop.simps) (simp add: file_reads_def)

lemma sendFile_loop_fault:
  "take 1024 (drop (1024 * k) c) \<noteq> [] \<Longrightarrow>
   buffer_push mem b (take 1024 (drop (1024 * k) c)) = Inl e \<Longrightarrow>
   sendFile_loop mem (file_reads c) k False b = Some (Inl e)"
  by (subst sendFile_loop.simps) (simp add: file_reads_def)

lemma sendFile_loop_content:
  assumes "buffer_inv b" and "roomy mem b (int (length (drop (1024 * k) c)))"
  shows "\<exists>b'. sendFile_loop mem (file_reads c) k False b = Some (Inr b') \<and>
    grown b (drop (1024 * k) c) b'"
  using assms
proof (induction "length (drop (1024 * k) c)" arbitrary: k b rule: less_induct)
  case less
  let ?rest = "drop (1024 * k) c"
  let ?s = "take 1024 ?rest"
  show ?case
  proof (cases "?s = []")
    case True
    then have "?rest = []" by simp
    with sendFile_loop_eof [OF True] grown_refl [OF less.prems(1)] show ?thesis by auto
  next
    case False
    have split: "drop (1024 * Suc k) c = drop 1024 ?rest" by (simp add: add.commute)
    obtain b1 where b1: "buffer_push mem b ?s = Inr b1" "grown b ?s b1"
      using push_roomy [OF less.prems, of ?s] by auto
    have "int (length ?rest) - int (length ?s) = int (length (drop (1024 * Suc k) c))"
      unfolding split by (simp add: of_nat_diff [symmetric] min_def add.commute)
    with grown_roomy [OF less.prems(1) b1(2) less.prems(2)]
    have rm: "roomy mem b1 (int (length (drop (1024 * Suc k) c)))" by simp
    have "length (drop (1024 * Suc k) c) < length ?rest" using False by simp
    from less.hyps [OF this grownD(1) [OF b1(2)] rm] obtain b' where
      "sendFile_loop mem (file_reads c) (Suc k) False b1 = Some (Inr b')"
      "grown b1 (drop (1024 * Suc k) c) b'" by blast
    with sendFile_loop_chunk [OF False b1(1)] grown_trans [OF b1(2)] show ?thesis
      unfolding split by (metis append_take_drop_id)
  qed
qed

lemma sendFile_grown:
  assumes "fs_open e f = Some (file_reads c)" and "buffer_inv b"
    and "roomy (e_mem e) b (int (length c))"
  shows "\<exists>b'. sendFile e f b = Some (Inr b') \<and> grown b c b'"
  using sendFile_loop_content [of b "e_mem e" 0 c] assms by (simp add: sendFile_def)

text \<open>After a failed read the loop never ends.\<close>

lemma sendFile_loop_closed: "sendFile_loop mem rd k True b = None"
proof (cases "sendFile_loop mem rd k True b")
  case (Some r)
  have "\<not> True"
  proof (rule sendFile_loop.raw_induct [where P = "\<lambda>mem rd k closed b r. \<not> closed", OF _ Some])
    fix f :: "(int \<Rightarrow> bool) \<Rightarrow> (nat \<Rightarrow> read_outcome) \<Rightarrow> nat \<Rightarrow> bool \<Rightarrow> buffer \<Rightarrow> buffer res option"
    fix mem rd k closed b r
    assume IH: "\<And>mem rd k closed b r. f mem rd k closed b = Some r \<Longrightarrow> \<not> closed"
      and eq: "(case if closed then ReadErr else rd k of
          ReadErr \<Rightarrow> f mem rd (Suc k) True b
        | ReadBytes s \<Rightarrow> if take 1024 s = [] then Some (Inr b)
            else case buffer_push mem b (take 1024 s) of
                   Inl e \<Rightarrow> Some (Inl e) | Inr b \<Rightarrow> f mem rd (Suc k) closed b) = Some r"
    show "\<not> closed"
    proof
      assume closed
      with eq have "f mem rd (Suc k) True b = Some r" by simp
      with IH show False by blast
    qed
  qed
  then show ?thesis by simp
qed simp

lemma sendFile_loop_error:
  "rd k = ReadErr \<Longrightarrow> sendFile_loop mem rd k False b = None"
  by (subst sendFile_loop.simps) (simp add: sendFile_loop_closed)

text \<open>Full chunks that fit behind the write position move it and nothing else.\<close>

lemma sendFile_loop_prefix:
  "buffer_inv b \<Longrightarrow> 1024 * (k + j) \<le> length c \<Longrightarrow> 1024 * int j \<le> bufferWriteableSize b \<Longrightarrow>
   \<exists>b'. sendFile_loop mem (file_reads c) k False b = sendFile_loop mem (file_reads c) (k + j) False b' \<and>
     buffer_inv b' \<and> readPos b' = readPos b \<and> capacity b' = capacity b \<and>
     writePos b' = writePos b + 1024 * int j"
proof (induction j arbitrary: k b)
  case 0
  then show ?case by auto
next
  case (Suc j)
  let ?s = "take 1024 (drop (1024 * k) c)"
  let ?b = "b\<lparr>buf_data := overwrite (buf_data b) (nat (writePos b)) ?s,
              writePos := writePos b + int (length ?s)\<rparr>"
  have len: "length ?s = 1024" using Suc.prems(2) by simp
  then have ne: "?s \<noteq> []" by (metis list.size(3) zero_neq_numeral)
  have fit: "int (length ?s) \<le> bufferWriteableSize b" using Suc.prems(3) len by simp
  note push = push_room [OF Suc.prems(1) fit ne, of mem]
  have "1024 * int j \<le> bufferWriteableSize ?b"
    using Suc.prems(3) len by (simp add: bufferWriteableSize_def)
  moreover have "1024 * (Suc k + j) \<le> length c" using Suc.prems(2) by simp
  ultimately obtain b' where
    "sendFile_loop mem (file_reads c) (Suc k) False ?b = sendFile_loop mem (file_reads c) (Suc k + j) False b'"
    "buffer_inv b'" "readPos b' = readPos ?b" "capacity b' = capacity ?b"
    "writePos b' = writePos ?b + 1024 * int j"
    using Suc.IH [OF write_at_end(1) [OF Suc.prems(1) fit]] by blast
  with sendFile_loop_chunk [OF ne push] len show ?case by auto
qed

section \<open>Listing a directory\<close>

definition entry_ok :: "env \<Rightarrow> string \<Rightarrow> string \<Rightarrow> bool" where
  "entry_ok e dir name \<longleftrightarrow> NUL \<notin> set name \<and> length name < 256 \<and>
     (\<exists>st. fs_stat e (dir @ ''/'' @ name) = Some st \<and> \<bar>st_size st\<bar> < 10 ^ 19)"

definition entry_row :: "env \<Rightarrow> string \<Rightarrow> string \<Rightarrow> string" where
  "entry_row e dir name = dir_row name (the (fs_stat e (dir @ ''/'' @ name)))"

definition listing :: "env \<Rightarrow> string \<Rightarrow> string list \<Rightarrow> string" where
  "listing e dir names = concat (map (entry_row e dir) names)"

lemma length_dec_int: "\<bar>i\<bar> < 10 ^ k \<Longrightarrow> 0 < k \<Longrightarrow> length (dec_int i) \<le> Suc k"
  using length_dec_nat [of "nat i" k] length_dec_nat [of "nat (- i)" k]
  by (auto simp: dec_int_def nat_less_iff nat_power_eq)

lemma NUL_notin_dec_int [simp]: "NUL \<notin> set (dec_int i)"
  by (simp add: dec_int_def)

lemma entry_row_facts:
  assumes "entry_ok e dir name"
  shows "length (entry_row e dir name) < 600" "NUL \<notin> set (entry_row e dir name)"
proof -
  from assms obtain st where
    st: "fs_stat e (dir @ ''/'' @ name) = Some st" "\<bar>st_size st\<bar> < 10 ^ 19" "length name < 256"
      "NUL \<notin> set name"
    by (auto simp: entry_ok_def)
  then show "length (entry_row e dir name) < 600" "NUL \<notin> set (entry_row e dir name)"
    using length_dec_int [OF st(2)] by (simp_all add: entry_row_def dir_row_def)
qed

definition dir_page :: "env \<Rightarrow> string \<Rightarrow> string list \<Rightarrow> string" where
  "dir_page e dir names = dir_head dir @ listing e dir names @ dir_tail"

lemma sendDir_loop_listing:
  assumes "buffer_inv b" and "\<forall>n \<in> set names. entry_ok e dir n" and "length dir < 128"
    and "NUL \<notin> set cur" and "length cur < 1024"
    and "roomy (e_mem e) b n" and "int (length cur + length (listing e dir names)) \<le> n"
  shows "\<exists>b'. sendDir_loop e dir names cur b = Inr (if names = [] then cur else [], b') \<and>
    grown b (if names = [] then [] else cur @ listing e dir names) b'"
  using assms
proof (induction names arbitrary: cur b n)
  case Nil
  then show ?case by (simp add: grown_refl)
next
  case (Cons name names)
  let ?row = "entry_row e dir name"
  from Cons.prems(2) have ok: "entry_ok e dir name" by simp
  note row = entry_row_facts [OF ok]
  have l: "listing e dir (name # names) = ?row @ listing e dir names" by (simp add: listing_def)
  from ok obtain st where st: "fs_stat e (dir @ ''/'' @ name) = Some st" "length name < 256"
    by (auto simp: entry_ok_def)
  then have r: "?row = dir_row name st" by (simp add: entry_row_def)
  have line: "NUL \<notin> set (cur @ ?row)" "length (cur @ ?row) < 4096"
    using Cons.prems(4,5) row by auto
  have "int (length (cur @ ?row)) \<le> n" using Cons.prems(7) by (simp add: l)
  then obtain b1 where b1: "buffer_puts (e_mem e) b (cur @ ?row) = Inr b1" "grown b (cur @ ?row) b1"
    using puts_roomy [OF line(1) Cons.prems(1,6)] by blast
  note rm = grown_roomy [OF Cons.prems(1) b1(2) Cons.prems(6)]
  obtain b' where b': "sendDir_loop e dir names [] b1 = Inr ([], b')"
      "grown b1 (listing e dir names) b'"
    using Cons.IH [of b1 "[]", OF grownD(1) [OF b1(2)] _ Cons.prems(3) _ _ rm] Cons.prems(2,7)
      grown_refl [OF grownD(1) [OF b1(2)]]
    by (cases "names = []") (auto simp: listing_def l)
  have "sendDir_loop e dir (name # names) cur b = Inr ([], b')"
    using Cons.prems(3) st line b1(1) b'(1) by (simp add: strcpy_into_def flip: r)
  with grown_trans [OF b1(2) b'(2)] show ?case by (simp add: l)
qed

lemma sendDir_grown:
  assumes "fs_scandir e dir = Some names" and "names \<noteq> []" and "\<forall>n \<in> set names. entry_ok e dir n"
    and "NUL \<notin> set dir" and "length dir < 128" and "buffer_inv b"
    and "roomy (e_mem e) b (int (length (dir_page e dir names)))"
  shows "\<exists>b'. sendDir e dir b = Inr b' \<and> grown b (dir_page e dir names) b'"
proof -
  let ?n = "int (length (dir_page e dir names))"
  have head: "NUL \<notin> set (dir_head dir)" "length (dir_head dir) < 1024"
    using assms(4,5) by (simp_all add: dir_head_def)
  have tail: "NUL \<notin> set dir_tail" "length dir_tail < 4096" by (simp_all add: dir_tail_def)
  have le: "int (length (dir_head dir) + length (listing e dir names)) \<le> ?n"
    by (simp add: dir_page_def)
  obtain b1 where b1: "sendDir_loop e dir names (dir_head dir) b = Inr ([], b1)"
      "grown b (dir_head dir @ listing e dir names) b1"
    using sendDir_loop_listing [OF assms(6,3,5) head assms(7) le] assms(2) by auto
  from grown_roomy [OF assms(6) b1(2) assms(7)]
  have "roomy (e_mem e) b1 (int (length dir_tail))" by (simp add: dir_page_def)
  then obtain b2 where b2: "buffer_puts (e_mem e) b1 dir_tail = Inr b2" "grown b1 dir_tail b2"
    using puts_roomy [OF tail(1) grownD(1) [OF b1(2)]] by blast
  have "sendDir e dir b = Inr b2"
    using assms(1) head tail b1(1) b2(1) by (simp add: sendDir_def strcpy_into_def)
  with grown_trans [OF b1(2) b2(2)] show ?thesis by (simp add: dir_page_def)
qed

section \<open>Properties\<close>

text \<open>
  Sending a regular file ends and appends exactly the file: whatever its size, the 1024-byte
  reads put its bytes, complete and in order, behind the unread bytes of the send buffer, as long
  as the buffer is roomy.
\<close>

theorem sendFile_delivers:
  assumes "fs_open e f = Some (file_reads c)" and "buffer_inv b"
    and "roomy (e_mem e) b (int (length c))"
  shows "\<exists>b'. sendFile e f b = Some (Inr b') \<and> buffer_inv b' \<and> contents b' = contents b @ c \<and>
    readPos b' = readPos b"
  using sendFile_grown [OF assms] by (auto simp: grown_def)

definition small_env :: "(string \<rightharpoonup> string) \<Rightarrow> env" where
  "small_env files = \<lparr>e_mem = (\<lambda>n. n \<le> 1000000),
     fs_stat = (\<lambda>f. map_option (\<lambda>c. \<lparr>st_isdir = False, st_size = int (length c)\<rparr>) (files f)),
     fs_open = (\<lambda>f. map_option file_reads (files f)),
     fs_scandir = (\<lambda>f. None)\<rparr>"

definition fresh_buffer :: "nat \<Rightarrow> buffer" where
  "fresh_buffer n = \<lparr>buf_data = replicate n NUL, capacity = int n, readPos = 0, writePos = 0\<rparr>"

lemma fresh_buffer_facts:
  "int n \<le> int_max \<Longrightarrow> buffer_inv (fresh_buffer n)"
  "contents (fresh_buffer n) = []"
  "readPos (fresh_buffer n) = 0"
  "bufferWriteableSize (fresh_buffer n) = int n"
  by (simp_all add: fresh_buffer_def buffer_inv_def contents_def bufferReadableSize_def
      bufferWriteableSize_def)

theorem sendFile_delivers_witness:
  "\<exists>b'. sendFile (small_env [''a.txt'' \<mapsto> replicate 5000 (CHR ''x'')]) ''a.txt'' (fresh_buffer 4) =
       Some (Inr b') \<and> contents b' = replicate 5000 (CHR ''x'')"
proof -
  let ?e = "small_env [''a.txt'' \<mapsto> replicate 5000 (CHR ''x'')]"
  have 1: "fs_open ?e ''a.txt'' = Some (file_reads (replicate 5000 (CHR ''x'')))"
    by (simp add: small_env_def)
  have 2: "buffer_inv (fresh_buffer 4)"
    by (rule fresh_buffer_facts) (simp add: int_max_def)
  have 3: "roomy (e_mem ?e) (fresh_buffer 4) (int (length (replicate 5000 (CHR ''x''))))"
    by (simp add: roomy_def small_env_def fresh_buffer_def int_max_def)
  from sendFile_delivers [OF 1 2 3] show ?thesis by (auto simp: fresh_buffer_facts(2))
qed

text \<open>
  A failing read hangs the thread: when some \<^verbatim>\<open>read\<close> fails before the end of the file,
  \<^verbatim>\<open>sendFile\<close> does not return (the loop goes on calling \<^verbatim>\<open>read\<close> on the descriptor it
  closed), unless an append faults first.
\<close>

theorem sendFile_read_error_hangs:
  assumes "fs_open e f = Some rd" and "rd k = ReadErr"
    and "\<forall>j < k. \<exists>s. rd j = ReadBytes s \<and> s \<noteq> []"
  shows "sendFile e f b = None \<or> (\<exists>x. sendFile e f b = Some (Inl x))"
proof -
  have "j \<le> k \<Longrightarrow> sendFile_loop (e_mem e) rd j False b = None \<or>
      (\<exists>x. sendFile_loop (e_mem e) rd j False b = Some (Inl x))" for j
  proof (induction "k - j" arbitrary: j b)
    case 0
    then show ?case using assms(2) by (simp add: sendFile_loop_error)
  next
    case (Suc n)
    then have "j < k" by simp
    with assms(3) obtain s where s: "rd j = ReadBytes s" "s \<noteq> []" by blast
    show ?case
    proof (cases "buffer_push (e_mem e) b (take 1024 s)")
      case (Inl x)
      with s show ?thesis by (subst (1 2) sendFile_loop.simps) simp
    next
      case (Inr b')
      with s have "sendFile_loop (e_mem e) rd j False b = sendFile_loop (e_mem e) rd (Suc j) False b'"
        by (subst sendFile_loop.simps) simp
      with Suc.hyps(1) [of "Suc j" b'] Suc.hyps(2) \<open>j < k\<close> show ?thesis by simp
    qed
  qed
  from this [of 0] assms(1) show ?thesis by (simp add: sendFile_def)
qed

theorem sendFile_read_error_hangs_witness:
  "sendFile ((small_env Map.empty)\<lparr>fs_open := (\<lambda>f. Some (\<lambda>k. ReadErr))\<rparr>) ''bad'' (fresh_buffer 4) = None"
proof -
  let ?e = "(small_env Map.empty)\<lparr>fs_open := (\<lambda>f. Some (\<lambda>k. ReadErr))\<rparr>"
  have "sendFile ?e ''bad'' (fresh_buffer 4) = None \<or>
      (\<exists>x. sendFile ?e ''bad'' (fresh_buffer 4) = Some (Inl x))"
    by (rule sendFile_read_error_hangs [where k = 0 and rd = "\<lambda>k. ReadErr"]) simp_all
  moreover have "sendFile ?e ''bad'' (fresh_buffer 4) \<noteq> Some (Inl x)" for x
    by (simp add: sendFile_def sendFile_loop_error)
  ultimately show ?thesis by blast
qed

text \<open>
  Listing a directory whose entries can be inspected ends and appends one HTML page: head,
  one row per entry in the order of \<^verbatim>\<open>scandir\<close>, tail; no fixed-size array is overrun.
\<close>

theorem sendDir_lists:
  assumes "fs_scandir e dir = Some names" and "names \<noteq> []" and "\<forall>n \<in> set names. entry_ok e dir n"
    and "NUL \<notin> set dir" and "length dir < 128" and "buffer_inv b"
    and "roomy (e_mem e) b (int (length (dir_page e dir names)))"
  shows "\<exists>b'. sendDir e dir b = Inr b' \<and> buffer_inv b' \<and> readPos b' = readPos b \<and>
    contents b' = contents b @ dir_page e dir names"
  using sendDir_grown [OF assms] by (auto simp: grown_def)

theorem sendDir_lists_witness:
  "\<exists>e b'. sendDir e ''d'' (fresh_buffer 500) = Inr b' \<and>
     contents b' = dir_head ''d'' @ dir_row ''x'' \<lparr>st_isdir = False, st_size = 3\<rparr> @ dir_tail"
proof -
  let ?e = "(small_env [''d/x'' \<mapsto> ''abc''])\<lparr>fs_scandir := (\<lambda>f. Some [''x''])\<rparr>"
  have st: "fs_stat ?e (''d'' @ ''/'' @ ''x'') = Some \<lparr>st_isdir = False, st_size = 3\<rparr>"
    by (simp add: small_env_def)
  then have l: "listing ?e ''d'' [''x''] = dir_row ''x'' \<lparr>st_isdir = False, st_size = 3\<rparr>"
    by (simp add: listing_def entry_row_def)
  have ok: "\<forall>n \<in> set [''x'']. entry_ok ?e ''d'' n" using st by (simp add: entry_ok_def)
  have scan: "fs_scandir ?e ''d'' = Some [''x'']" by simp
  have "roomy (e_mem ?e) (fresh_buffer 500) (int (length (dir_page ?e ''d'' [''x''])))"
    unfolding dir_page_def l
    by (simp add: roomy_def small_env_def fresh_buffer_def int_max_def dir_head_def dir_tail_def
        dir_row_def dec_int_def dec_nat.simps)
  from sendDir_lists [OF scan _ ok _ _ _ this] show ?thesis
    unfolding dir_page_def l by (auto simp: fresh_buffer_facts int_max_def)
qed

text \<open>
  A file of 10240 bytes or more breaks a response whose head has already been sent: when the
  send buffer has its initial 10240 bytes and the \<open>h\<close> bytes of the head were all accepted by
  \<^verbatim>\<open>send\<close>, the tenth full chunk does not fit behind the write position, the free space
  before the read position makes the code compact instead of grow, and the \<^verbatim>\<open>memcpy\<close> it
  compacts with moves 9216 bytes down by \<open>h\<close>: overlapping regions, undefined behaviour.
\<close>

theorem sendFile_overlap_after_head_sent:
  assumes "fs_open e f = Some (file_reads c)" and "10240 \<le> length c"
    and "buffer_inv b" and "capacity b = 10240"
    and "readPos b = h" and "writePos b = h" and "0 < h" and "h \<le> 1024"
  shows "sendFile e f b = Some (Inl OverlapCopy)"
proof -
  have "1024 * int 9 \<le> bufferWriteableSize b" using assms by (simp add: bufferWriteableSize_def)
  then obtain b' where b': "sendFile_loop (e_mem e) (file_reads c) 0 False b =
        sendFile_loop (e_mem e) (file_reads c) 9 False b'"
      "buffer_inv b'" "readPos b' = h" "capacity b' = 10240" "writePos b' = h + 9216"
    using sendFile_loop_prefix [OF assms(3), of 0 9 c "e_mem e"] assms by auto
  let ?s = "take 1024 (drop (1024 * 9) c)"
  have len: "length ?s = 1024" using assms(2) by simp
  then have ne: "?s \<noteq> []" by (metis list.size(3) zero_neq_numeral)
  have "\<not> append_ok (e_mem e) b' (int (length ?s))"
    using b' assms unfolding len
    by (simp add: append_ok_def bufferWriteableSize_def bufferReadableSize_def)
  with append_fault [OF b'(2) ne] have "buffer_push (e_mem e) b' ?s = Inl OverlapCopy"
    using b' assms unfolding len by (simp add: buffer_push_def bufferWriteableSize_def)
  with sendFile_loop_fault [OF ne] b'(1) assms(1) show ?thesis by (simp add: sendFile_def)
qed

theorem sendFile_overlap_after_head_sent_witness:
  "sendFile (small_env [''big'' \<mapsto> replicate 10240 (CHR ''x'')]) ''big''
     \<lparr>buf_data = replicate 10240 NUL, capacity = 10240, readPos = 83, writePos = 83\<rparr> =
   Some (Inl OverlapCopy)"
proof (rule sendFile_overlap_after_head_sent [where c = "replicate 10240 (CHR ''x'')" and h = 83])
  show "fs_open (small_env [''big'' \<mapsto> replicate 10240 (CHR ''x'')]) ''big'' =
      Some (file_reads (replicate 10240 (CHR ''x'')))" by (simp add: small_env_def)
  show "buffer_inv \<lparr>buf_data = replicate 10240 NUL, capacity = 10240, readPos = 83, writePos = 83\<rparr>"
    by (simp add: buffer_inv_def int_max_def)
qed simp_all

end
