(* ===== verification/HttpResponse.thy ===== *)
theory HttpResponse
  imports SendBody
begin

text \<open>
  \<^verbatim>\<open>ReactorHTTP-C/HttpResponse.c\<close>: the response under construction and its serialisation
  into the send buffer. The character arrays of the struct are the C strings they hold, with
  every write into them checked against the array's size. \<^verbatim>\<open>MSG_SEND_AUTO\<close> is not defined in
  this file of the source (it does not include \<^verbatim>\<open>TcpConnection.h\<close>), so the head is sent at
  once; what \<^verbatim>\<open>send\<close> accepts is an argument.
\<close>

section \<open>The code\<close>

datatype HttpStatusCode =
    Unknown | OK | MovedPermanently | MovedTemporarily | BadRequest | NotFound

fun status_code :: "HttpStatusCode \<Rightarrow> int" where
  "status_code Unknown = 0"
| "status_code OK = 200"
| "status_code MovedPermanently = 301"
| "status_code MovedTemporarily = 302"
| "status_code BadRequest = 400"
| "status_code NotFound = 404"

text \<open>The function pointer \<^verbatim>\<open>sendDataFunc\<close> is only ever one of two functions or NULL.\<close>

datatype response_body = SendFile | SendDir

record http_response =
  statusCode :: HttpStatusCode
  statusMsg :: string
  fileName :: string
  res_headers :: "(string \<times> string) list"
  headerNum :: int
  sendDataFunc :: "response_body option"

definition ResHeaderSize :: nat where
  "ResHeaderSize = 16"

definition httpResponseInit :: http_response where
  "httpResponseInit =
     \<lparr>statusCode = Unknown, statusMsg = [], fileName = [],
      res_headers = replicate ResHeaderSize ([], []), headerNum = 0, sendDataFunc = None\<rparr>"

text \<open>The struct is freed before its pointer to the headers is set to NULL.\<close>

definition httpResponseDestroy ::
  "nat option \<Rightarrow> (nat \<Rightarrow> http_response option) \<Rightarrow> ((nat \<Rightarrow> http_response option) \<times> stale list) res" where
  "httpResponseDestroy response h =
     (case response of
        None \<Rightarrow> Inr (h, [])
      | Some p \<Rightarrow>
          (case h p of
             None \<Rightarrow> Inl UseAfterFree
           | Some _ \<Rightarrow> Inr (h(p := None), [StaleWrite p])))"

definition httpResponseAddHeader ::
  "http_response option \<Rightarrow> string option \<Rightarrow> string option \<Rightarrow> http_response option res" where
  "httpResponseAddHeader response key val =
     (case (response, key, val) of
        (Some r, Some k, Some v) \<Rightarrow>
          if headerNum r < 0 \<or> int (length (res_headers r)) \<le> headerNum r then Inl OutOfBounds
          else
            bindR (strcpy_into 32 (cstr k)) (\<lambda>k.
            bindR (strcpy_into 128 (cstr v)) (\<lambda>v.
            Inr (Some (r\<lparr>res_headers := (res_headers r)[nat (headerNum r) := (k, v)],
                         headerNum := headerNum r + 1\<rparr>))))
      | _ \<Rightarrow> Inr response)"

definition status_line :: "http_response \<Rightarrow> string" where
  "status_line r =
     ''HTTP/1.1 '' @ dec_int (status_code (statusCode r)) @ '' '' @ statusMsg r @ crlf"

definition header_line :: "string \<times> string \<Rightarrow> string" where
  "header_line kv = (case kv of (k, v) \<Rightarrow> k @ '': '' @ v @ crlf)"

function prepare_loop ::
  "(int \<Rightarrow> bool) \<Rightarrow> http_response \<Rightarrow> int \<Rightarrow> buffer \<Rightarrow> buffer res" where
  "prepare_loop mem r i b =
     (if i < headerNum r then
        (if i < 0 \<or> int (length (res_headers r)) \<le> i then Inl OutOfBounds
         else
           bindR (strcpy_into 1024 (header_line (res_headers r ! nat i))) (\<lambda>tmp.
           bindR (buffer_puts mem b tmp) (prepare_loop mem r (i + 1))))
      else Inr b)"
  by pat_completeness auto
termination
  by (relation "measure (\<lambda>(mem, r, i, b). nat (headerNum r - i))") auto

declare prepare_loop.simps [simp del]

definition prepare_head :: "(int \<Rightarrow> bool) \<Rightarrow> http_response \<Rightarrow> buffer \<Rightarrow> buffer res" where
  "prepare_head mem r sendBuf =
     bindR (strcpy_into 1024 (status_line r)) (\<lambda>tmp.
     bindR (buffer_puts mem sendBuf tmp) (\<lambda>b.
     bindR (prepare_loop mem r 0 b) (\<lambda>b.
     buffer_puts mem b crlf)))"

definition httpResponsePrepareMsg ::
  "env \<Rightarrow> send_outcome \<Rightarrow> http_response \<Rightarrow> buffer \<Rightarrow> (buffer \<times> string) res option" where
  "httpResponsePrepareMsg e outcome response sendBuf =
     (case prepare_head (e_mem e) response sendBuf of
        Inl x \<Rightarrow> Some (Inl x)
      | Inr b \<Rightarrow>
          (case bufferSendData b outcome of
             (_, b, sent) \<Rightarrow>
               (case sendDataFunc response of
                  None \<Rightarrow> Some (Inl NullDeref)
                | Some SendFile \<Rightarrow>
                    map_option (\<lambda>r. bindR r (\<lambda>b. Inr (b, sent))) (sendFile e (fileName response) b)
                | Some SendDir \<Rightarrow>
                    Some (bindR (sendDir e (fileName response) b) (\<lambda>b. Inr (b, sent))))))"

section \<open>Well-formed responses\<close>

definition header_ok :: "string \<times> string \<Rightarrow> bool" where
  "header_ok kv \<longleftrightarrow> length (fst kv) < 32 \<and> length (snd kv) < 128 \<and>
     NUL \<notin> set (fst kv) \<and> NUL \<notin> set (snd kv)"

definition response_wf :: "http_response \<Rightarrow> bool" where
  "response_wf r \<longleftrightarrow>
     0 \<le> headerNum r \<and> headerNum r \<le> 16 \<and> length (res_headers r) = 16 \<and>
     (\<forall>kv \<in> set (res_headers r). header_ok kv) \<and>
     length (statusMsg r) < 128 \<and> NUL \<notin> set (statusMsg r) \<and>
     length (fileName r) < 128 \<and> NUL \<notin> set (fileName r)"

definition headers_of :: "http_response \<Rightarrow> (string \<times> string) list" where
  "headers_of r = take (nat (headerNum r)) (res_headers r)"

definition response_head :: "http_response \<Rightarrow> string" where
  "response_head r = status_line r @ concat (map header_line (headers_of r)) @ crlf"

lemma httpResponseInit_wf: "response_wf httpResponseInit"
  by (simp add: response_wf_def httpResponseInit_def ResHeaderSize_def header_ok_def)

definition add_header :: "http_response \<Rightarrow> string \<Rightarrow> string \<Rightarrow> http_response res" where
  "add_header r k v =
     bindR (httpResponseAddHeader (Some r) (Some k) (Some v)) (\<lambda>r'. Inr (the r'))"

lemma add_header_ok:
  assumes wf: "response_wf r" and "headerNum r < 16" and kv: "header_ok (k, v)"
  shows "add_header r k v = Inr (r\<lparr>res_headers := (res_headers r)[nat (headerNum r) := (k, v)],
      headerNum := headerNum r + 1\<rparr>)"
    and "response_wf (r\<lparr>res_headers := (res_headers r)[nat (headerNum r) := (k, v)],
      headerNum := headerNum r + 1\<rparr>)"
    and "headers_of (r\<lparr>res_headers := (res_headers r)[nat (headerNum r) := (k, v)],
      headerNum := headerNum r + 1\<rparr>) = headers_of r @ [(k, v)]"
proof -
  let ?r = "r\<lparr>res_headers := (res_headers r)[nat (headerNum r) := (k, v)], headerNum := headerNum r + 1\<rparr>"
  show "add_header r k v = Inr ?r"
    using assms
    by (simp add: add_header_def httpResponseAddHeader_def response_wf_def header_ok_def cstr_id
        strcpy_into_def)
  have "set (res_headers ?r) \<subseteq> insert (k, v) (set (res_headers r))"
    by (simp add: set_update_subset_insert)
  then show "response_wf ?r" using assms by (auto simp: response_wf_def)
  show "headers_of ?r = headers_of r @ [(k, v)]"
    using assms by (simp add: headers_of_def response_wf_def nat_add_distrib take_Suc_conv_app_nth)
qed

lemma add_header_full:
  "length (res_headers r) = 16 \<Longrightarrow> 16 \<le> headerNum r \<Longrightarrow> add_header r k v = Inl OutOfBounds"
  by (simp add: add_header_def httpResponseAddHeader_def)

lemma header_line_facts:
  "header_ok kv \<Longrightarrow> length (header_line kv) < 1024 \<and> NUL \<notin> set (header_line kv)"
  by (auto simp: header_ok_def header_line_def crlf_def split: prod.splits)

lemma status_code_range: "0 \<le> status_code c \<and> status_code c < 1000"
  by (cases c) simp_all

lemma status_line_facts:
  "response_wf r \<Longrightarrow> length (status_line r) < 1024 \<and> NUL \<notin> set (status_line r)"
  using length_dec_int [of "status_code (statusCode r)" 3] status_code_range [of "statusCode r"]
  by (auto simp: response_wf_def status_line_def crlf_def)

section \<open>The head of the response\<close>

lemma prepare_loop_appends:
  assumes wf: "response_wf r" and "buffer_inv b" and "0 \<le> i" and "i \<le> headerNum r"
    and "roomy mem b n"
    and "int (length (concat (map header_line (drop (nat i) (headers_of r))))) \<le> n"
  shows "\<exists>b'. prepare_loop mem r i b = Inr b' \<and>
    grown b (concat (map header_line (drop (nat i) (headers_of r)))) b'"
  using assms(2-)
proof (induction "nat (headerNum r - i)" arbitrary: i b n)
  case 0
  then have "i = headerNum r" by simp
  moreover have "drop (nat (headerNum r)) (headers_of r) = []" by (simp add: headers_of_def)
  ultimately show ?case
    using 0 by (simp add: prepare_loop.simps [of mem r "headerNum r"] grown_refl)
next
  case (Suc m)
  then have i: "i < headerNum r" by simp
  have lens: "nat i < length (res_headers r)" "nat i < length (headers_of r)"
    "i < int (length (res_headers r))"
    using wf i Suc.prems(2) by (auto simp: response_wf_def headers_of_def)
  have s: "nat (i + 1) = Suc (nat i)" using Suc.prems(2) by simp
  let ?kv = "res_headers r ! nat i"
  let ?rest = "concat (map header_line (drop (nat (i + 1)) (headers_of r)))"
  have kv: "headers_of r ! nat i = ?kv" using i Suc.prems(2) by (simp add: headers_of_def)
  have d: "drop (nat i) (headers_of r) = ?kv # drop (nat (i + 1)) (headers_of r)"
    using Cons_nth_drop_Suc [OF lens(2)] kv s by simp
  have "header_ok ?kv" using wf lens(1) by (simp add: response_wf_def)
  then have line: "length (header_line ?kv) < 1024" "NUL \<notin> set (header_line ?kv)"
    using header_line_facts by auto
  have "int (length (header_line ?kv)) \<le> n" using Suc.prems(5) by (simp add: d)
  then obtain b1 where b1: "buffer_puts mem b (header_line ?kv) = Inr b1" "grown b (header_line ?kv) b1"
    using puts_roomy [OF line(2) Suc.prems(1,4)] by blast
  have "prepare_loop mem r i b = prepare_loop mem r (i + 1) b1"
    using i Suc.prems(2) lens line b1(1)
    by (subst prepare_loop.simps) (simp add: strcpy_into_def)
  moreover have "m = nat (headerNum r - (i + 1))" using Suc.hyps(2) by simp
  then obtain b' where "prepare_loop mem r (i + 1) b1 = Inr b'" "grown b1 ?rest b'"
    using Suc.hyps(1) [OF _ grownD(1) [OF b1(2)] _ _ grown_roomy [OF Suc.prems(1) b1(2) Suc.prems(4)],
        of "i + 1"] Suc.prems(2,5) i
    by (auto simp: d)
  ultimately show ?case using grown_trans [OF b1(2)] by (simp add: d)
qed

lemma prepare_head_appends:
  assumes wf: "response_wf r" and inv: "buffer_inv b" and rm: "roomy mem b n"
    and n: "int (length (response_head r)) \<le> n"
  obtains b' where "prepare_head mem r b = Inr b'" "grown b (response_head r) b'"
proof -
  note sl = status_line_facts [OF wf]
  let ?hs = "concat (map header_line (headers_of r))"
  obtain b1 where b1: "buffer_puts mem b (status_line r) = Inr b1" "grown b (status_line r) b1"
    using puts_roomy [OF _ inv rm, of "status_line r"] sl n by (auto simp: response_head_def)
  note rm1 = grown_roomy [OF inv b1(2) rm]
  have "0 \<le> headerNum r" using wf by (simp add: response_wf_def)
  then obtain b2 where b2: "prepare_loop mem r 0 b1 = Inr b2" "grown b1 ?hs b2"
    using prepare_loop_appends [OF wf grownD(1) [OF b1(2)] _ _ rm1, of 0] n
    by (auto simp: response_head_def)
  note rm2 = grown_roomy [OF grownD(1) [OF b1(2)] b2(2) rm1]
  have c: "NUL \<notin> set crlf" by (simp add: crlf_def)
  obtain b3 where b3: "buffer_puts mem b2 crlf = Inr b3" "grown b2 crlf b3"
    using puts_roomy [OF c grownD(1) [OF b2(2)] rm2] n by (auto simp: response_head_def)
  have "prepare_head mem r b = Inr b3"
    using sl b1(1) b2(1) b3(1) by (simp add: prepare_head_def strcpy_into_def)
  moreover have "grown b (response_head r) b3"
    using grown_trans [OF b1(2) grown_trans [OF b2(2) b3(2)]] by (simp add: response_head_def)
  ultimately show ?thesis by (rule that)
qed

section \<open>The whole response\<close>

text \<open>\<open>produces e r txt\<close>: the body function of \<open>r\<close> has \<open>txt\<close> to send.\<close>

definition produces :: "env \<Rightarrow> http_response \<Rightarrow> string \<Rightarrow> bool" where
  "produces e r txt \<longleftrightarrow>
     (case sendDataFunc r of
        None \<Rightarrow> False
      | Some SendFile \<Rightarrow> fs_open e (fileName r) = Some (file_reads txt)
      | Some SendDir \<Rightarrow>
          (\<exists>names. fs_scandir e (fileName r) = Some names \<and> names \<noteq> [] \<and>
             (\<forall>n \<in> set names. entry_ok e (fileName r) n) \<and> txt = dir_page e (fileName r) names))"

lemma send_keeps_roomy:
  assumes "buffer_inv b" and "bufferSendData b k = (m, b', out)" and "roomy mem b n"
    and "k = SendErr \<or> n \<le> bufferWriteableSize b"
  shows "roomy mem b' n"
  using assms
  by (auto simp: bufferSendData_def Let_def roomy_def bufferWriteableSize_def
      split: if_splits send_outcome.splits)

lemma prepareMsg_steps:
  assumes wf: "response_wf r" and body: "produces e r txt" and inv: "buffer_inv b"
    and rm: "roomy (e_mem e) b (int (length (response_head r @ txt)))"
    and send: "outcome = SendErr \<or> int (length (response_head r @ txt)) \<le> bufferWriteableSize b"
  shows "\<exists>b1 m b2 sent b3.
    prepare_head (e_mem e) r b = Inr b1 \<and> grown b (response_head r) b1 \<and>
    bufferSendData b1 outcome = (m, b2, sent) \<and> buffer_inv b2 \<and> contents b1 = sent @ contents b2 \<and>
    grown b2 txt b3 \<and> httpResponsePrepareMsg e outcome r b = Some (Inr (b3, sent))"
proof -
  obtain b1 where b1: "prepare_head (e_mem e) r b = Inr b1" "grown b (response_head r) b1"
    using prepare_head_appends [OF wf inv rm] by auto
  note inv1 = grownD(1) [OF b1(2)]
  obtain m b2 sent where s: "bufferSendData b1 outcome = (m, b2, sent)" by (metis prod_cases3)
  with sendData_step [OF inv1 s] have b2: "buffer_inv b2" "contents b1 = sent @ contents b2" by auto
  have "roomy (e_mem e) b1 (int (length txt))" using grown_roomy [OF inv b1(2) rm] by simp
  moreover have "outcome = SendErr \<or> int (length txt) \<le> bufferWriteableSize b1"
    using send grown_writeable [OF inv b1(2)] by auto
  ultimately have rm2: "roomy (e_mem e) b2 (int (length txt))"
    by (rule send_keeps_roomy [OF inv1 s])
  from body show ?thesis
  proof (cases "sendDataFunc r")
    case (Some f)
    show ?thesis
    proof (cases f)
      case SendFile
      with Some body have "fs_open e (fileName r) = Some (file_reads txt)" by (simp add: produces_def)
      from sendFile_grown [OF this b2(1) rm2] obtain b3 where
        "sendFile e (fileName r) b2 = Some (Inr b3)" "grown b2 txt b3" by blast
      then show ?thesis using b1 b2 s Some SendFile by (simp add: httpResponsePrepareMsg_def)
    next
      case SendDir
      with Some body obtain names where n: "fs_scandir e (fileName r) = Some names" "names \<noteq> []"
          "\<forall>n \<in> set names. entry_ok e (fileName r) n" "txt = dir_page e (fileName r) names"
        by (auto simp: produces_def)
      have f: "NUL \<notin> set (fileName r)" "length (fileName r) < 128"
        using wf by (simp_all add: response_wf_def)
      from sendDir_grown [OF n(1-3) f b2(1)] rm2 n(4) obtain b3 where
        "sendDir e (fileName r) b2 = Inr b3" "grown b2 txt b3" by auto
      then show ?thesis using b1 b2 s Some SendDir by (simp add: httpResponsePrepareMsg_def)
    qed
  qed (simp add: produces_def)
qed

section \<open>Properties\<close>

text \<open>
  C16. A well-formed response is serialised completely and in order, if the send buffer has, or is
  given, room for it, and either the socket refuses the bytes sent at once or all of it fits into the
  buffer as it is: what went to the socket at
  once followed by what is left in the send buffer is what the buffer held before, then the
  status line, the headers in the order they were added, the empty line, and the body; the call
  returns and no array is overrun. Without the condition a body may be copied over itself
  (\<open>sendFile_overlap_after_head_sent\<close>).
\<close>

theorem httpResponsePrepareMsg_serialises:
  assumes "response_wf r" and "produces e r txt" and "buffer_inv b"
    and "roomy (e_mem e) b (int (length (response_head r @ txt)))"
    and "outcome = SendErr \<or> int (length (response_head r @ txt)) \<le> bufferWriteableSize b"
  shows "\<exists>b' sent. httpResponsePrepareMsg e outcome r b = Some (Inr (b', sent)) \<and> buffer_inv b' \<and>
    sent @ contents b' = contents b @ response_head r @ txt"
proof -
  from prepareMsg_steps [OF assms] obtain b1 m b2 sent b3 where
    "httpResponsePrepareMsg e outcome r b = Some (Inr (b3, sent))" "grown b (response_head r) b1"
    "contents b1 = sent @ contents b2" "grown b2 txt b3" by blast
  then show ?thesis by (auto simp: grown_def)
qed

theorem httpResponsePrepareMsg_serialises_witness:
  "\<exists>b' sent. httpResponsePrepareMsg (small_env [''f'' \<mapsto> ''hi'']) (SendOk 10)
       (httpResponseInit\<lparr>statusCode := OK, statusMsg := ''OK'', fileName := ''f'',
          sendDataFunc := Some SendFile\<rparr>) (fresh_buffer 100) = Some (Inr (b', sent)) \<and>
     sent @ contents b' = ''HTTP/1.1 200 OK'' @ crlf @ crlf @ ''hi''"
proof -
  let ?e = "small_env [''f'' \<mapsto> ''hi'']"
  let ?r = "httpResponseInit\<lparr>statusCode := OK, statusMsg := ''OK'', fileName := ''f'',
    sendDataFunc := Some SendFile\<rparr>"
  have wf: "response_wf ?r"
    by (simp add: response_wf_def httpResponseInit_def header_ok_def ResHeaderSize_def)
  have p: "produces ?e ?r ''hi''" by (simp add: produces_def small_env_def)
  have inv: "buffer_inv (fresh_buffer 100)" by (rule fresh_buffer_facts) (simp add: int_max_def)
  have h: "response_head ?r = ''HTTP/1.1 200 OK'' @ crlf @ crlf"
    by (simp add: response_head_def status_line_def headers_of_def httpResponseInit_def dec_int_def)
      code_simp
  have fit: "int (length (response_head ?r @ ''hi'')) \<le> bufferWriteableSize (fresh_buffer 100)"
    unfolding h by (simp add: fresh_buffer_facts)
  then have "roomy (e_mem ?e) (fresh_buffer 100) (int (length (response_head ?r @ ''hi'')))"
    by (simp add: roomy_def)
  from httpResponsePrepareMsg_serialises [OF wf p inv this, of "SendOk 10"] fit show ?thesis
    by (auto simp: h fresh_buffer_facts)
qed

text \<open>
  Adding headers appends them in order while there is a free slot of the sixteen, keeps the
  response well formed, and the seventeenth is a write outside the allocated block.
\<close>

theorem httpResponseAddHeader_appends:
  assumes "response_wf r" and "header_ok (k, v)"
  shows "case httpResponseAddHeader (Some r) (Some k) (Some v) of
      Inr r' \<Rightarrow> headerNum r < 16 \<and> (\<exists>r1. r' = Some r1 \<and> response_wf r1 \<and>
        headers_of r1 = headers_of r @ [(k, v)])
    | Inl x \<Rightarrow> headerNum r = 16 \<and> x = OutOfBounds"
proof (cases "headerNum r < 16")
  case True
  note a = add_header_ok [OF assms(1) True assms(2)]
  have "httpResponseAddHeader (Some r) (Some k) (Some v) =
      Inr (Some (r\<lparr>res_headers := (res_headers r)[nat (headerNum r) := (k, v)],
                   headerNum := headerNum r + 1\<rparr>))"
    using True assms
    by (simp add: httpResponseAddHeader_def response_wf_def header_ok_def cstr_id strcpy_into_def)
  with a True show ?thesis by simp
next
  case False
  with assms(1) show ?thesis by (simp add: httpResponseAddHeader_def response_wf_def)
qed

theorem httpResponseAddHeader_appends_witness:
  "\<exists>r. httpResponseAddHeader (Some httpResponseInit) (Some ''Content-length'') (Some ''42'') =
      Inr (Some r) \<and> headers_of r = [(''Content-length'', ''42'')]"
proof -
  have "header_ok (''Content-length'', ''42'')" by (simp add: header_ok_def)
  from httpResponseAddHeader_appends [OF httpResponseInit_wf this]
  show ?thesis by (auto simp: headers_of_def httpResponseInit_def split: sum.splits)
qed

text \<open>
  A response whose body function was never set crashes the thread: after the head has been
  written the code calls through the NULL pointer.
\<close>

theorem httpResponsePrepareMsg_without_body:
  assumes "response_wf r" and "sendDataFunc r = None" and "buffer_inv b"
    and "roomy (e_mem e) b (int (length (response_head r)))"
  shows "httpResponsePrepareMsg e outcome r b = Some (Inl NullDeref)"
proof -
  obtain b1 where "prepare_head (e_mem e) r b = Inr b1"
    using prepare_head_appends [OF assms(1,3,4)] by auto
  with assms(2) show ?thesis by (simp add: httpResponsePrepareMsg_def split: prod.split)
qed

theorem httpResponsePrepareMsg_without_body_witness:
  "httpResponsePrepareMsg (small_env Map.empty) SendErr httpResponseInit (fresh_buffer 100) =
     Some (Inl NullDeref)"
proof -
  have inv: "buffer_inv (fresh_buffer 100)" by (rule fresh_buffer_facts) (simp add: int_max_def)
  have "length (response_head httpResponseInit) < 100"
    by (simp add: response_head_def status_line_def headers_of_def httpResponseInit_def dec_int_def
        dec_nat.simps)
  then have "roomy (e_mem (small_env Map.empty)) (fresh_buffer 100)
      (int (length (response_head httpResponseInit)))"
    by (simp add: roomy_def fresh_buffer_facts)
  from httpResponsePrepareMsg_without_body [OF httpResponseInit_wf _ inv this] show ?thesis
    by (simp add: httpResponseInit_def)
qed

end
