(* ===== verification/HttpRequest.thy ===== *)
theory HttpRequest
  imports HttpResponse
begin

text \<open>
  \<^verbatim>\<open>ReactorHTTP-C/HttpRequest.c\<close>: the request, its line-by-line parser over the receive
  buffer, and the handling of a parsed request. Pointers into the buffer are offsets into its
  block; a string the parser allocates is its block of bytes, NUL included. Arithmetic on the
  NULL a failed search returns, and a failed \<^verbatim>\<open>assert\<close>, are faults. The loop of
  \<open>parseHttpRequest\<close> is a partial function.
\<close>

section \<open>The code: the request\<close>

datatype HttpRequestState = ParseReqLine | ParseReqHeaders | ParseReqBody | ParseReqDone

text \<open>
  The block of header slots: \<open>None\<close> when freed (the pointer is kept), a slot is \<open>None\<close> until a
  header is stored there.
\<close>

record http_request =
  req_method :: "string option"
  req_url :: "string option"
  req_version :: "string option"
  reqHeaders :: "(string \<times> string) option list option"
  reqHeadersNum :: int
  curState :: HttpRequestState

definition HeaderSize :: nat where
  "HeaderSize = 12"

definition httpRequestReset :: "http_request \<Rightarrow> http_request" where
  "httpRequestReset req =
     req\<lparr>curState := ParseReqLine, req_method := None, req_url := None, req_version := None,
         reqHeadersNum := 0\<rparr>"

text \<open>\<open>junk\<close> is what the freshly allocated struct holds.\<close>

definition httpRequestInit :: "http_request \<Rightarrow> http_request" where
  "httpRequestInit junk =
     (httpRequestReset junk)\<lparr>reqHeaders := Some (replicate HeaderSize None)\<rparr>"

text \<open>The headers' strings are freed slot by slot; a slot never filled has no string to free.\<close>

definition free_headers :: "http_request \<Rightarrow> unit res" where
  "free_headers req =
     (case reqHeaders req of
        None \<Rightarrow> Inl UseAfterFree
      | Some hs \<Rightarrow>
          if int (length hs) < reqHeadersNum req then Inl OutOfBounds
          else if None \<in> set (take (nat (reqHeadersNum req)) hs) then Inl Uninitialised
          else Inr ())"

definition httpRequestResetEx :: "http_request \<Rightarrow> http_request res" where
  "httpRequestResetEx req =
     bindR (free_headers req) (\<lambda>_. Inr ((httpRequestReset req)\<lparr>reqHeaders := None\<rparr>))"

definition httpRequestDestroy ::
  "nat option \<Rightarrow> (nat \<Rightarrow> http_request option) \<Rightarrow> (nat \<Rightarrow> http_request option) res" where
  "httpRequestDestroy req h =
     (case req of
        None \<Rightarrow> Inr h
      | Some p \<Rightarrow>
          (case h p of
             None \<Rightarrow> Inl UseAfterFree
           | Some r \<Rightarrow> bindR (httpRequestResetEx r) (\<lambda>_. Inr (h(p := None)))))"

definition httpRequestState :: "http_request \<Rightarrow> HttpRequestState" where
  "httpRequestState request = curState request"

definition httpRequestAddHeader :: "http_request \<Rightarrow> string \<Rightarrow> string \<Rightarrow> http_request res" where
  "httpRequestAddHeader request key val =
     (case reqHeaders request of
        None \<Rightarrow> Inl UseAfterFree
      | Some hs \<Rightarrow>
          if reqHeadersNum request < 0 \<or> int (length hs) \<le> reqHeadersNum request
          then Inl OutOfBounds
          else Inr (request\<lparr>reqHeaders := Some (hs[nat (reqHeadersNum request) := Some (key, val)]),
                            reqHeadersNum := reqHeadersNum request + 1\<rparr>))"

function get_header_loop ::
  "(string \<times> string) option list \<Rightarrow> int \<Rightarrow> string \<Rightarrow> int \<Rightarrow> string option res" where
  "get_header_loop hs num key i =
     (if i < num then
        (if i < 0 \<or> int (length hs) \<le> i then Inl OutOfBounds
         else case hs ! nat i of
                None \<Rightarrow> Inl Uninitialised
              | Some (k, v) \<Rightarrow>
                  if strncasecmp_eq k key (strlen key) then Inr (Some v)
                  else get_header_loop hs num key (i + 1))
      else Inr None)"
  by pat_completeness auto
termination
  by (relation "measure (\<lambda>(hs, num, key, i). nat (num - i))") auto

declare get_header_loop.simps [simp del]

definition httpRequestGetHeader :: "http_request option \<Rightarrow> string \<Rightarrow> string option res" where
  "httpRequestGetHeader request key =
     (case request of
        None \<Rightarrow> Inr None
      | Some r \<Rightarrow>
          (case reqHeaders r of
             None \<Rightarrow> if 0 < reqHeadersNum r then Inl UseAfterFree else Inr None
           | Some hs \<Rightarrow> get_header_loop hs (reqHeadersNum r) key 0))"

section \<open>The code: the parser\<close>

text \<open>\<open>segment d start end\<close>: the bytes between two pointers into the block \<open>d\<close>.\<close>

definition segment :: "string \<Rightarrow> int \<Rightarrow> int \<Rightarrow> string" where
  "segment d start end' = take (nat (end' - start)) (drop (nat start) d)"

text \<open>The pointer behind the separator and the copy handed back through \<^verbatim>\<open>ptr\<close>.\<close>

definition splitRequestLine :: "string \<Rightarrow> int \<Rightarrow> int \<Rightarrow> string option \<Rightarrow> (int \<times> string) res" where
  "splitRequestLine d start end' sub =
     bindR (case sub of
              None \<Rightarrow> Inr end'
            | Some s \<Rightarrow>
                (case memmem (segment d start end') s of
                   None \<Rightarrow> Inl AssertFail
                 | Some i \<Rightarrow> Inr (start + int i)))
       (\<lambda>space. Inr (space + 1, strncpy_block (drop (nat start) d) (nat (space - start))))"

definition parseHttpRequestLine ::
  "http_request \<Rightarrow> buffer \<Rightarrow> (bool \<times> http_request \<times> buffer) res" where
  "parseHttpRequestLine request readBuf =
     (case bufferFindCRLF readBuf of
        None \<Rightarrow> Inl NullDeref
      | Some end' \<Rightarrow>
          (let start = readPos readBuf; lineSize = end' - start; d = buf_data readBuf in
           if lineSize \<noteq> 0 then
             bindR (splitRequestLine d start end' (Some '' '')) (\<lambda>(start, meth).
             bindR (splitRequestLine d start end' (Some '' '')) (\<lambda>(start, url).
             bindR (splitRequestLine d start end' None) (\<lambda>(_, version).
             Inr (True,
                  request\<lparr>req_method := Some meth, req_url := Some url,
                          req_version := Some version, curState := ParseReqHeaders\<rparr>,
                  readBuf\<lparr>readPos := readPos readBuf + lineSize + 2\<rparr>))))
           else Inr (False, request, readBuf)))"

definition parseHttpRequestHeader ::
  "http_request \<Rightarrow> buffer \<Rightarrow> (bool \<times> http_request \<times> buffer) res" where
  "parseHttpRequestHeader request readBuf =
     (case bufferFindCRLF readBuf of
        None \<Rightarrow> Inr (False, request, readBuf)
      | Some end' \<Rightarrow>
          (let start = readPos readBuf; lineSize = end' - start; d = buf_data readBuf in
           case memmem (segment d start end') '': '' of
             Some i \<Rightarrow>
               (let middle = start + int i;
                    key = strncpy_block (drop (nat start) d) (nat (middle - start));
                    val = strncpy_block (drop (nat (middle + 2)) d) (nat (end' - middle - 2)) in
                bindR (httpRequestAddHeader request key val) (\<lambda>request.
                Inr (True, request, readBuf\<lparr>readPos := readPos readBuf + lineSize + 2\<rparr>)))
           | None \<Rightarrow>
               Inr (True, request\<lparr>curState := ParseReqDone\<rparr>,
                    readBuf\<lparr>readPos := readPos readBuf + 2\<rparr>)))"

text \<open>The second half of \<open>processHttpRequest\<close>: the reply for the file \<open>file\<close>.\<close>

definition respond_path :: "env \<Rightarrow> string \<Rightarrow> http_response \<Rightarrow> http_response res" where
  "respond_path e file response =
     (case fs_stat e file of
        None \<Rightarrow>
          bindR (strcpy_into 128 ''404.html'') (\<lambda>fn.
          bindR (strcpy_into 128 ''Not Found'') (\<lambda>msg.
          bindR (add_header (response\<lparr>fileName := fn, statusCode := NotFound, statusMsg := msg\<rparr>)
                   ''Content-type'' (getFileType ''.html'')) (\<lambda>response.
          Inr (response\<lparr>sendDataFunc := Some SendFile\<rparr>))))
      | Some st \<Rightarrow>
          bindR (strcpy_into 128 file) (\<lambda>fn.
          bindR (strcpy_into 128 ''OK'') (\<lambda>msg.
          let response = response\<lparr>fileName := fn, statusCode := OK, statusMsg := msg\<rparr> in
          if st_isdir st then
            bindR (add_header response ''Content-type'' (getFileType ''.html'')) (\<lambda>response.
            Inr (response\<lparr>sendDataFunc := Some SendDir\<rparr>))
          else
            bindR (strcpy_into 12 (dec_int (st_size st))) (\<lambda>tmp.
            bindR (add_header response ''Content-type'' (getFileType file)) (\<lambda>response.
            bindR (add_header response ''Content-length'' tmp) (\<lambda>response.
            Inr (response\<lparr>sendDataFunc := Some SendFile\<rparr>)))))))"

text \<open>
  The C function returns \<^verbatim>\<open>bool\<close>: its \<^verbatim>\<open>-1\<close> is true, its \<^verbatim>\<open>0\<close> is false. The file name
  is the URL block without its first byte.
\<close>

definition processHttpRequest ::
  "env \<Rightarrow> http_request \<Rightarrow> http_response \<Rightarrow> (bool \<times> http_request \<times> http_response) res" where
  "processHttpRequest e request response =
     (case (req_method request, req_url request) of
        (Some meth, Some url) \<Rightarrow>
          if \<not> strcasecmp_eq meth ''get'' then Inr (True, request, response)
          else
            bindR (decodeMsg url) (\<lambda>url.
            let request = request\<lparr>req_url := Some url\<rparr> in
            bindR (if cstr url = ''/'' then Inr ''./''
                   else if NUL \<in> set (tl url) then Inr (cstr (tl url)) else Inl OutOfBounds) (\<lambda>file.
            bindR (respond_path e file response) (\<lambda>response.
            Inr (False, request, response))))
      | _ \<Rightarrow> Inl NullDeref)"

text \<open>
  The parsing loop. \<open>sent\<close> collects what the head of a response sends at once. In the state
  \<open>ParseReqBody\<close> the loop body does nothing.
\<close>

partial_function (option) parse_loop ::
  "env \<Rightarrow> send_outcome \<Rightarrow> http_request \<Rightarrow> buffer \<Rightarrow> http_response \<Rightarrow> buffer \<Rightarrow> string \<Rightarrow>
   (bool \<times> http_request \<times> buffer \<times> http_response \<times> buffer \<times> string) res option" where
  "parse_loop e outcome request readBuf response sendBuf sent =
     (if curState request = ParseReqDone
      then Some (Inr (True, request\<lparr>curState := ParseReqLine\<rparr>, readBuf, response, sendBuf, sent))
      else
        (case (case curState request of
                 ParseReqLine \<Rightarrow> parseHttpRequestLine request readBuf
               | ParseReqHeaders \<Rightarrow> parseHttpRequestHeader request readBuf
               | _ \<Rightarrow> Inr (True, request, readBuf)) of
           Inl x \<Rightarrow> Some (Inl x)
         | Inr (flag, request, readBuf) \<Rightarrow>
             if \<not> flag then Some (Inr (False, request, readBuf, response, sendBuf, sent))
             else if curState request = ParseReqDone then
               (case processHttpRequest e request response of
                  Inl x \<Rightarrow> Some (Inl x)
                | Inr (_, request, response) \<Rightarrow>
                    (case httpResponsePrepareMsg e outcome response sendBuf of
                       None \<Rightarrow> None
                     | Some (Inl x) \<Rightarrow> Some (Inl x)
                     | Some (Inr (sendBuf, s)) \<Rightarrow>
                         parse_loop e outcome request readBuf response sendBuf (sent @ s)))
             else parse_loop e outcome request readBuf response sendBuf sent))"

definition parseHttpRequest ::
  "env \<Rightarrow> send_outcome \<Rightarrow> http_request \<Rightarrow> buffer \<Rightarrow> http_response \<Rightarrow> buffer \<Rightarrow>
   (bool \<times> http_request \<times> buffer \<times> http_response \<times> buffer \<times> string) res option" where
  "parseHttpRequest e outcome request readBuf response sendBuf =
     parse_loop e outcome request readBuf response sendBuf []"

section \<open>Positions in the unread bytes\<close>

lemma segment_contents:
  assumes "buffer_inv b" and "j \<le> i" and "i \<le> length (contents b)"
  shows "segment (buf_data b) (readPos b + int j) (readPos b + int i) =
    take (i - j) (drop j (contents b))"
proof -
  note inv = buffer_invD [OF assms(1)]
  have i: "i \<le> nat (writePos b - readPos b)"
    using assms(1,3) by (simp add: length_contents bufferReadableSize_def)
  have "nat (readPos b + int i - (readPos b + int j)) = i - j" by simp
  moreover have "nat (readPos b + int j) = nat (readPos b) + j" using inv by simp
  ultimately show ?thesis
    using assms(2) i
    by (simp add: segment_def contents_def bufferReadableSize_def drop_take add.commute min_def)
qed

lemma copy_contents:
  assumes "buffer_inv b" and "j + n \<le> length (contents b)"
  shows "strncpy_block (drop (nat (readPos b + int j)) (buf_data b)) n =
    strncpy_block (drop j (contents b)) n"
proof -
  have "take n (drop (nat (readPos b + int j)) (buf_data b)) = take n (drop j (contents b))"
    using segment_contents [OF assms(1), of j "j + n"] assms(2) by (simp add: segment_def)
  then show ?thesis by (simp add: strncpy_block_def)
qed

lemma consume_contents:
  assumes "buffer_inv b" and "n \<le> length (contents b)"
  shows "buffer_inv (b\<lparr>readPos := readPos b + int n\<rparr>)"
    and "contents (b\<lparr>readPos := readPos b + int n\<rparr>) = drop n (contents b)"
proof -
  note inv = buffer_invD [OF assms(1)]
  have "n \<le> nat (writePos b - readPos b)"
    using assms by (simp add: length_contents bufferReadableSize_def)
  then have n: "int n \<le> writePos b - readPos b" using inv by linarith
  with inv show "buffer_inv (b\<lparr>readPos := readPos b + int n\<rparr>)" by (simp add: buffer_inv_def)
  have "nat (readPos b + int n) = nat (readPos b) + n" using inv by simp
  moreover have "nat (writePos b - (readPos b + int n)) = nat (writePos b - readPos b) - n" by simp
  ultimately show "contents (b\<lparr>readPos := readPos b + int n\<rparr>) = drop n (contents b)"
    by (simp add: contents_def bufferReadableSize_def drop_take add.commute)
qed

lemma nat_int_diff [simp]: "nat (int i - int j) = i - j"
  by simp

lemma memmem_single:
  "memmem xs [a] = (if a \<in> set xs then Some (length (takeWhile (\<lambda>x. x \<noteq> a) xs)) else None)"
  by (induction xs) (auto simp: memmem_Nil memmem_Cons)

section \<open>The request line against a reference\<close>

text \<open>The three fields of a request line: up to the first space, to the second, the rest.\<close>

definition cut_space :: "string \<Rightarrow> (string \<times> string) option" where
  "cut_space l =
     (if CHR '' '' \<in> set l
      then Some (takeWhile (\<lambda>c. c \<noteq> CHR '' '') l, tl (dropWhile (\<lambda>c. c \<noteq> CHR '' '') l)) else None)"

definition split_line :: "string \<Rightarrow> (string \<times> string \<times> string) option" where
  "split_line l =
     (case cut_space l of
        None \<Rightarrow> None
      | Some (m, r) \<Rightarrow> (case cut_space r of None \<Rightarrow> None | Some (u, v) \<Rightarrow> Some (m, u, v)))"

lemma cut_space_Some:
  assumes "cut_space l = Some (m, r)"
  shows "l = m @ CHR '' '' # r \<and> CHR '' '' \<notin> set m"
proof -
  let ?P = "\<lambda>c. c \<noteq> CHR '' ''"
  from assms have c: "CHR '' '' \<in> set l" and mr: "m = takeWhile ?P l" "r = tl (dropWhile ?P l)"
    by (auto simp: cut_space_def split: if_splits)
  from c have "dropWhile ?P l \<noteq> []" by (auto simp: dropWhile_eq_Nil_conv)
  then have "dropWhile ?P l = CHR '' '' # r"
    using hd_dropWhile [of ?P l] mr(2) by (cases "dropWhile ?P l") auto
  then have "l = m @ CHR '' '' # r" using takeWhile_dropWhile_id [of ?P l] mr(1) by simp
  moreover have "CHR '' '' \<notin> set m" using mr(1) by (auto dest: set_takeWhileD)
  ultimately show ?thesis ..
qed

lemma cut_space_append: "CHR '' '' \<notin> set m \<Longrightarrow> cut_space (m @ CHR '' '' # r) = Some (m, r)"
  by (induction m) (auto simp: cut_space_def)

definition line_block :: "string \<Rightarrow> string" where
  "line_block s = strncpy_block s (length s)"

lemma cstr_line_block [simp]: "cstr (line_block s) = cstr s"
  by (simp add: line_block_def)

lemma line_block_id: "NUL \<notin> set s \<Longrightarrow> line_block s = s @ [NUL]"
  by (simp add: line_block_def strncpy_block_def cstr_id)

lemma strncpy_block_take: "n \<le> length s \<Longrightarrow> strncpy_block s n = line_block (take n s)"
  by (simp add: line_block_def strncpy_block_def)

text \<open>One call of \<open>splitRequestLine\<close> with a space, at offset \<open>j\<close> of a line of \<open>i\<close> bytes.\<close>

lemma splitRequestLine_space:
  assumes "buffer_inv b" and "j \<le> i" and "i \<le> length (contents b)"
  shows "splitRequestLine (buf_data b) (readPos b + int j) (readPos b + int i) (Some '' '') =
    (case cut_space (take (i - j) (drop j (contents b))) of
       None \<Rightarrow> Inl AssertFail
     | Some (w, r) \<Rightarrow> Inr (readPos b + int (j + length w + 1), line_block w))"
proof -
  let ?l = "take (i - j) (drop j (contents b))"
  note seg = segment_contents [OF assms]
  show ?thesis
  proof (cases "cut_space ?l")
    case None
    then have "CHR '' '' \<notin> set ?l" by (simp add: cut_space_def split: if_splits)
    with None seg show ?thesis by (simp add: splitRequestLine_def memmem_single)
  next
    case (Some wr)
    obtain w r where wr: "wr = (w, r)" by fastforce
    with Some have l: "?l = w @ CHR '' '' # r" "CHR '' '' \<notin> set w" using cut_space_Some by auto
    then have m: "memmem ?l '' '' = Some (length w)"
      by (simp only: l(1)) (rule memmem_append_single)
    have "length ?l = i - j" using assms by simp
    with l have len: "length w < i - j" by simp
    have "take (length w) (drop j (contents b)) = take (length w) ?l" using len by simp
    also have "\<dots> = w" using l(1) by simp
    finally have tk: "take (length w) (drop j (contents b)) = w" .
    have "strncpy_block (drop (nat (readPos b + int j)) (buf_data b)) (length w) =
        strncpy_block (drop j (contents b)) (length w)"
      using assms len by (intro copy_contents) auto
    also have "\<dots> = line_block w"
      using tk len assms by (simp add: strncpy_block_take)
    finally show ?thesis using seg m Some wr by (simp add: splitRequestLine_def add.assoc)
  qed
qed

lemma splitRequestLine_rest:
  assumes "buffer_inv b" and "j \<le> i" and "i \<le> length (contents b)"
  shows "splitRequestLine (buf_data b) (readPos b + int j) (readPos b + int i) None =
    Inr (readPos b + int i + 1, line_block (take (i - j) (drop j (contents b))))"
proof -
  have "strncpy_block (drop (nat (readPos b + int j)) (buf_data b)) (i - j) =
      strncpy_block (drop j (contents b)) (i - j)"
    using assms by (intro copy_contents) auto
  then show ?thesis using assms by (simp add: splitRequestLine_def strncpy_block_take)
qed

lemma parseHttpRequestLine_spec:
  assumes inv: "buffer_inv b" and i: "memmem (contents b) crlf = Some i"
  shows "parseHttpRequestLine req b =
    (if i = 0 then Inr (False, req, b)
     else case split_line (take i (contents b)) of
            None \<Rightarrow> Inl AssertFail
          | Some (m, u, v) \<Rightarrow>
              Inr (True, req\<lparr>req_method := Some (line_block m), req_url := Some (line_block u),
                     req_version := Some (line_block v), curState := ParseReqHeaders\<rparr>,
                   b\<lparr>readPos := readPos b + int (i + 2)\<rparr>))"
proof -
  let ?l = "take i (contents b)"
  have le: "i \<le> length (contents b)" using memmem_Some_bound [OF i] by simp
  have crlf: "bufferFindCRLF b = Some (readPos b + int i)" using i by (simp add: bufferFindCRLF_def)
  have s1: "splitRequestLine (buf_data b) (readPos b) (readPos b + int i) (Some '' '') =
      (case cut_space ?l of None \<Rightarrow> Inl AssertFail
       | Some (w, r) \<Rightarrow> Inr (readPos b + int (length w + 1), line_block w))"
    using splitRequestLine_space [OF inv _ le, of 0] by (simp split: option.split)
  show ?thesis
  proof (cases "i = 0 \<or> cut_space ?l = None")
    case True
    then show ?thesis using crlf s1 by (auto simp: parseHttpRequestLine_def split_line_def)
  next
    case False
    then obtain m r where mr: "cut_space ?l = Some (m, r)" by auto
    then have l: "?l = m @ CHR '' '' # r" using cut_space_Some by blast
    have len: "i = length m + 1 + length r" using arg_cong [OF l, of length] le by simp
    have "drop (length m + 1) ?l = r" using l by simp
    then have r: "take (i - (length m + 1)) (drop (length m + 1) (contents b)) = r"
      by (simp add: drop_take)
    have s2: "splitRequestLine (buf_data b) (readPos b + int (length m + 1)) (readPos b + int i) (Some '' '') =
        (case cut_space r of None \<Rightarrow> Inl AssertFail
         | Some (w, r) \<Rightarrow> Inr (readPos b + int (length m + 1 + length w + 1), line_block w))"
      using splitRequestLine_space [OF inv _ le, of "length m + 1"] len unfolding r by simp
    show ?thesis
    proof (cases "cut_space r")
      case None
      with mr s1 s2 crlf False show ?thesis
        by (simp add: parseHttpRequestLine_def split_line_def)
    next
      case (Some uv)
      obtain u v where uv: "uv = (u, v)" by fastforce
      with Some have r': "r = u @ CHR '' '' # v" using cut_space_Some by auto
      let ?j = "length m + 1 + length u + 1"
      have j: "?j \<le> i" using len r' by simp
      have "drop ?j ?l = v" using l r' by simp
      then have "take (i - ?j) (drop ?j (contents b)) = v" by (simp add: drop_take)
      then have "splitRequestLine (buf_data b) (readPos b + int ?j) (readPos b + int i) None =
          Inr (readPos b + int i + 1, line_block v)"
        using splitRequestLine_rest [OF inv j le] by simp
      with mr s1 s2 crlf False Some uv show ?thesis
        by (simp add: parseHttpRequestLine_def split_line_def add.assoc)
    qed
  qed
qed

lemma parseHttpRequestLine_incomplete:
  "memmem (contents b) crlf = None \<Longrightarrow> parseHttpRequestLine req b = Inl NullDeref"
  by (simp add: parseHttpRequestLine_def bufferFindCRLF_def)

section \<open>Header lines\<close>

definition req_wf :: "http_request \<Rightarrow> bool" where
  "req_wf req \<longleftrightarrow>
     (case reqHeaders req of
        None \<Rightarrow> False
      | Some hs \<Rightarrow> length hs = 12 \<and> 0 \<le> reqHeadersNum req \<and> reqHeadersNum req \<le> 12 \<and>
          None \<notin> set (take (nat (reqHeadersNum req)) hs))"

text \<open>The headers stored so far, as the C strings they are.\<close>

definition stored_headers :: "http_request \<Rightarrow> (string \<times> string) list" where
  "stored_headers req =
     (case reqHeaders req of
        None \<Rightarrow> []
      | Some hs \<Rightarrow> map (\<lambda>h. case the h of (k, v) \<Rightarrow> (cstr k, cstr v)) (take (nat (reqHeadersNum req)) hs))"

lemma httpRequestInit_wf: "req_wf (httpRequestInit junk) \<and> curState (httpRequestInit junk) = ParseReqLine \<and>
    stored_headers (httpRequestInit junk) = []"
  by (simp add: req_wf_def httpRequestInit_def httpRequestReset_def HeaderSize_def stored_headers_def)

lemma req_wf_frame [simp]:
  "req_wf (req\<lparr>curState := s\<rparr>) = req_wf req"
  "req_wf (req\<lparr>req_method := m\<rparr>) = req_wf req"
  "req_wf (req\<lparr>req_url := u\<rparr>) = req_wf req"
  "req_wf (req\<lparr>req_version := v\<rparr>) = req_wf req"
  by (simp_all add: req_wf_def split: option.split)

lemma stored_headers_frame [simp]:
  "stored_headers (req\<lparr>curState := s\<rparr>) = stored_headers req"
  "stored_headers (req\<lparr>req_method := m\<rparr>) = stored_headers req"
  "stored_headers (req\<lparr>req_url := u\<rparr>) = stored_headers req"
  "stored_headers (req\<lparr>req_version := v\<rparr>) = stored_headers req"
  by (simp_all add: stored_headers_def split: option.split)

lemma addHeader_stores:
  assumes wf: "req_wf req" and room: "reqHeadersNum req < 12"
  obtains req' where "httpRequestAddHeader req k v = Inr req'" "req_wf req'"
    "stored_headers req' = stored_headers req @ [(cstr k, cstr v)]"
    "reqHeadersNum req' = reqHeadersNum req + 1" "curState req' = curState req"
    "req_method req' = req_method req" "req_url req' = req_url req" "req_version req' = req_version req"
proof -
  from wf obtain hs where hs: "reqHeaders req = Some hs" "length hs = 12" "0 \<le> reqHeadersNum req"
      "None \<notin> set (take (nat (reqHeadersNum req)) hs)"
    by (auto simp: req_wf_def split: option.splits)
  let ?n = "nat (reqHeadersNum req)"
  let ?req = "req\<lparr>reqHeaders := Some (hs[?n := Some (k, v)]), reqHeadersNum := reqHeadersNum req + 1\<rparr>"
  have n: "nat (reqHeadersNum req + 1) = Suc ?n" "?n < length hs" using hs room by simp_all
  have tk: "take (Suc ?n) (hs[?n := Some (k, v)]) = take ?n hs @ [Some (k, v)]"
    using n(2) by (simp add: take_Suc_conv_app_nth)
  have "httpRequestAddHeader req k v = Inr ?req" using hs room by (simp add: httpRequestAddHeader_def)
  moreover have "req_wf ?req" using hs room by (simp add: req_wf_def n tk)
  moreover have "stored_headers ?req = stored_headers req @ [(cstr k, cstr v)]"
    by (simp add: stored_headers_def hs(1) n tk)
  ultimately show ?thesis using that by simp
qed

lemma addHeader_full:
  "req_wf req \<Longrightarrow> reqHeadersNum req = 12 \<Longrightarrow> httpRequestAddHeader req k v = Inl OutOfBounds"
  by (auto simp: httpRequestAddHeader_def req_wf_def split: option.splits)

lemma parseHttpRequestHeader_spec:
  assumes inv: "buffer_inv b" and i: "memmem (contents b) crlf = Some i"
  shows "parseHttpRequestHeader req b =
    (case memmem (take i (contents b)) '': '' of
       Some j \<Rightarrow>
         bindR (httpRequestAddHeader req (line_block (take j (contents b)))
                  (line_block (drop (j + 2) (take i (contents b))))) (\<lambda>req.
         Inr (True, req, b\<lparr>readPos := readPos b + int (i + 2)\<rparr>))
     | None \<Rightarrow> Inr (True, req\<lparr>curState := ParseReqDone\<rparr>, b\<lparr>readPos := readPos b + 2\<rparr>))"
proof -
  let ?l = "take i (contents b)"
  have le: "i \<le> length (contents b)" using memmem_Some_bound [OF i] by simp
  have crlf: "bufferFindCRLF b = Some (readPos b + int i)" using i by (simp add: bufferFindCRLF_def)
  have seg: "segment (buf_data b) (readPos b) (readPos b + int i) = ?l"
    using segment_contents [OF inv _ le, of 0] by simp
  show ?thesis
  proof (cases "memmem ?l '': ''")
    case None
    with crlf seg show ?thesis by (simp add: parseHttpRequestHeader_def)
  next
    case (Some j)
    have j: "j + 2 \<le> i" using memmem_Some_bound [OF Some] le by simp
    have k: "strncpy_block (drop (nat (readPos b)) (buf_data b)) j = line_block (take j (contents b))"
      using copy_contents [OF inv, of 0 j] j le by (simp add: strncpy_block_take)
    have n: "nat (readPos b + int i - (readPos b + int j) - 2) = i - (j + 2)" by simp
    have p: "readPos b + int j + 2 = readPos b + int (j + 2)" by simp
    have v: "strncpy_block (drop (nat (readPos b + int j + 2)) (buf_data b)) (i - (j + 2)) =
        line_block (drop (j + 2) ?l)"
      using copy_contents [OF inv, of "j + 2" "i - (j + 2)"] j le
      unfolding p by (simp add: strncpy_block_take drop_take)
    have w: "readPos b + (readPos b + int i - readPos b) + 2 = readPos b + int (i + 2)" by simp
    have s: "nat (readPos b + int j - readPos b) = j" by simp
    show ?thesis
      by (simp only: parseHttpRequestHeader_def crlf option.case Let_def seg Some n v w k s)
  qed
qed

lemma parseHttpRequestHeader_incomplete:
  "memmem (contents b) crlf = None \<Longrightarrow> parseHttpRequestHeader req b = Inr (False, req, b)"
  by (simp add: parseHttpRequestHeader_def bufferFindCRLF_def)

section \<open>A whole request\<close>

definition print_request :: "string \<Rightarrow> string \<Rightarrow> string \<Rightarrow> (string \<times> string) list \<Rightarrow> string" where
  "print_request m u v hs =
     m @ '' '' @ u @ '' '' @ v @ crlf @ concat (map header_line hs) @ crlf"

definition field_ok :: "string \<Rightarrow> bool" where
  "field_ok s \<longleftrightarrow> CR \<notin> set s \<and> NUL \<notin> set s"

definition request_ok :: "string \<Rightarrow> string \<Rightarrow> string \<Rightarrow> (string \<times> string) list \<Rightarrow> bool" where
  "request_ok m u v hs \<longleftrightarrow>
     field_ok m \<and> field_ok u \<and> field_ok v \<and> CHR '' '' \<notin> set m \<and> CHR '' '' \<notin> set u \<and>
     (\<forall>(k, w) \<in> set hs. field_ok k \<and> field_ok w \<and> CHR '':'' \<notin> set k)"

text \<open>What \<open>parseHttpRequest\<close> does once the empty line has been read.\<close>

definition finish_request ::
  "env \<Rightarrow> send_outcome \<Rightarrow> http_request \<Rightarrow> buffer \<Rightarrow> http_response \<Rightarrow> buffer \<Rightarrow> string \<Rightarrow>
   (bool \<times> http_request \<times> buffer \<times> http_response \<times> buffer \<times> string) res option" where
  "finish_request e outcome request readBuf response sendBuf sent =
     (case processHttpRequest e request response of
        Inl x \<Rightarrow> Some (Inl x)
      | Inr (_, request, response) \<Rightarrow>
          (case httpResponsePrepareMsg e outcome response sendBuf of
             None \<Rightarrow> None
           | Some (Inl x) \<Rightarrow> Some (Inl x)
           | Some (Inr (sendBuf, s)) \<Rightarrow>
               Some (Inr (True, request\<lparr>curState := ParseReqLine\<rparr>, readBuf, response, sendBuf, sent @ s))))"

lemma processHttpRequest_frame:
  "ensures (processHttpRequest e req resp) (\<lambda>(_, req', _). curState req' = curState req)"
  unfolding processHttpRequest_def Let_def prod.case
  by (intro ensures_rules) (simp_all add: ensures_Inr)

lemma processHttpRequest_state:
  "processHttpRequest e req resp = Inr (f, req', resp') \<Longrightarrow> curState req' = curState req"
  using ensuresD [OF processHttpRequest_frame] by fastforce

lemma parse_loop_done:
  "curState req = ParseReqDone \<Longrightarrow> parse_loop e outcome req b resp sb sent =
     Some (Inr (True, req\<lparr>curState := ParseReqLine\<rparr>, b, resp, sb, sent))"
  by (subst parse_loop.simps) simp

lemma parse_loop_finish:
  assumes "curState req = ParseReqHeaders"
    and "parseHttpRequestHeader req b = Inr (True, req', b')" and "curState req' = ParseReqDone"
  shows "parse_loop e outcome req b resp sb sent = finish_request e outcome req' b' resp sb sent"
proof -
  have "parse_loop e outcome req b resp sb sent =
      (case processHttpRequest e req' resp of
         Inl x \<Rightarrow> Some (Inl x)
       | Inr (_, request, response) \<Rightarrow>
           (case httpResponsePrepareMsg e outcome response sb of
              None \<Rightarrow> None
            | Some (Inl x) \<Rightarrow> Some (Inl x)
            | Some (Inr (sendBuf, s)) \<Rightarrow>
                parse_loop e outcome request b' response sendBuf (sent @ s)))"
    by (subst parse_loop.simps) (simp add: assms)
  also have "\<dots> = finish_request e outcome req' b' resp sb sent"
    using processHttpRequest_state [of e req' resp] assms(3)
    by (auto simp: finish_request_def parse_loop_done split: sum.splits option.splits)
  finally show ?thesis .
qed

end
