(* ===== verification/HttpSession.thy ===== *)
theory HttpSession
  imports HttpRequest
begin

text \<open>
  Whole requests: \<open>parseHttpRequest\<close> on the printed form of a request reads it back, for any
  bytes behind it, and what it leaves in the send buffer is the response the request asks for.
  The ways a request can stop the server are properties too.
\<close>

section \<open>The header phase\<close>

lemma memmem_crlf: "CR \<notin> set l \<Longrightarrow> memmem (l @ crlf @ rest) crlf = Some (length l)"
  using memmem_append_first [of CR l "[LF]" "LF # rest"] by (simp add: crlf_def)

lemma header_line_append: "header_line (k, v) = (k @ '': '' @ v) @ crlf"
  by (simp add: header_line_def)

text \<open>A complete header line: both texts are copied, the line is consumed.\<close>

lemma header_parse:
  assumes inv: "buffer_inv b" and k: "field_ok k" "CHR '':'' \<notin> set k" and v: "field_ok v"
    and cont: "contents b = header_line (k, v) @ rest"
  obtains b' where "buffer_inv b'" "contents b' = rest"
    "parseHttpRequestHeader req b =
       bindR (httpRequestAddHeader req (k @ [NUL]) (v @ [NUL])) (\<lambda>req. Inr (True, req, b'))"
proof -
  let ?l = "k @ '': '' @ v"
  have c: "contents b = ?l @ crlf @ rest" using cont by (simp add: header_line_append)
  have "CR \<notin> set ?l" using k v by (simp add: field_ok_def)
  then have i: "memmem (contents b) crlf = Some (length ?l)" unfolding c by (rule memmem_crlf)
  have tk: "take (length ?l) (contents b) = ?l" unfolding c by simp
  have m: "memmem ?l '': '' = Some (length k)"
    using memmem_append_first [of "CHR '':''" k "'' ''" "'' '' @ v"] k(2) by simp
  have ks: "take (length k) (contents b) = k" "drop (length k + 2) ?l = v" unfolding c by simp_all
  have lb: "line_block k = k @ [NUL]" "line_block v = v @ [NUL]"
    using k v by (simp_all add: field_ok_def line_block_id)
  let ?b = "b\<lparr>readPos := readPos b + int (length ?l + 2)\<rparr>"
  have p: "parseHttpRequestHeader req b =
      bindR (httpRequestAddHeader req (k @ [NUL]) (v @ [NUL])) (\<lambda>req. Inr (True, req, ?b))"
    unfolding parseHttpRequestHeader_spec [OF inv i] tk m by (simp only: option.case ks lb)
  have n: "length ?l + 2 \<le> length (contents b)" unfolding c by simp
  have "contents b = (?l @ crlf) @ rest" using c by simp
  then have "drop (length (?l @ crlf)) (contents b) = rest" by (metis append_eq_conv_conj)
  then have "contents ?b = rest" "buffer_inv ?b"
    using consume_contents [OF inv n] by simp_all
  with p that show ?thesis by blast
qed

lemma header_end:
  assumes inv: "buffer_inv b" and cont: "contents b = crlf @ rest"
  shows "parseHttpRequestHeader req b =
      Inr (True, req\<lparr>curState := ParseReqDone\<rparr>, b\<lparr>readPos := readPos b + 2\<rparr>)"
    and "buffer_inv (b\<lparr>readPos := readPos b + 2\<rparr>)" and "contents (b\<lparr>readPos := readPos b + 2\<rparr>) = rest"
proof -
  have i: "memmem (contents b) crlf = Some 0"
    using memmem_crlf [of "[]"] cont by simp
  show "parseHttpRequestHeader req b =
      Inr (True, req\<lparr>curState := ParseReqDone\<rparr>, b\<lparr>readPos := readPos b + 2\<rparr>)"
    unfolding parseHttpRequestHeader_spec [OF inv i] by (simp add: memmem_Nil)
  have "2 \<le> length (contents b)" using cont by simp
  from consume_contents [OF inv this] cont
  show "buffer_inv (b\<lparr>readPos := readPos b + 2\<rparr>)" "contents (b\<lparr>readPos := readPos b + 2\<rparr>) = rest"
    by simp_all
qed

lemma parse_loop_header:
  assumes "curState req = ParseReqHeaders"
    and "parseHttpRequestHeader req b = Inr (True, req', b')" and "curState req' = ParseReqHeaders"
  shows "parse_loop e outcome req b resp sb sent = parse_loop e outcome req' b' resp sb sent"
  by (subst parse_loop.simps) (simp add: assms)

definition headers_ok :: "(string \<times> string) list \<Rightarrow> bool" where
  "headers_ok hs \<longleftrightarrow> (\<forall>(k, w) \<in> set hs. field_ok k \<and> field_ok w \<and> CHR '':'' \<notin> set k)"

lemma headers_ok_simps [simp]:
  "headers_ok []"
  "headers_ok ((k, w) # hs) \<longleftrightarrow> field_ok k \<and> field_ok w \<and> CHR '':'' \<notin> set k \<and> headers_ok hs"
  by (auto simp: headers_ok_def)

text \<open>The loop reads complete header lines one by one, whatever comes behind them.\<close>

lemma parse_header_lines:
  assumes "curState req = ParseReqHeaders" and "req_wf req" and "buffer_inv b"
    and "contents b = concat (map header_line hs) @ rest" and "headers_ok hs"
    and "reqHeadersNum req + int (length hs) \<le> 12"
  shows "\<exists>req' b'. parse_loop e outcome req b resp sb sent = parse_loop e outcome req' b' resp sb sent \<and>
    curState req' = ParseReqHeaders \<and> req_wf req' \<and> stored_headers req' = stored_headers req @ hs \<and>
    reqHeadersNum req' = reqHeadersNum req + int (length hs) \<and>
    req_method req' = req_method req \<and> req_url req' = req_url req \<and>
    req_version req' = req_version req \<and> buffer_inv b' \<and> contents b' = rest"
  using assms
proof (induction hs arbitrary: req b)
  case Nil
  then show ?case by (intro exI [of _ req] exI [of _ b]) simp
next
  case (Cons kv hs)
  obtain k v where kv: "kv = (k, v)" by fastforce
  have ok: "field_ok k" "CHR '':'' \<notin> set k" "field_ok v" "headers_ok hs" "reqHeadersNum req < 12"
    using Cons.prems(5,6) by (simp_all add: kv)
  have c: "contents b = header_line (k, v) @ (concat (map header_line hs) @ rest)"
    using Cons.prems(4) by (simp add: kv)
  obtain b1 where b1: "buffer_inv b1" "contents b1 = concat (map header_line hs) @ rest"
    "parseHttpRequestHeader req b =
       bindR (httpRequestAddHeader req (k @ [NUL]) (v @ [NUL])) (\<lambda>req. Inr (True, req, b1))"
    by (rule header_parse [OF Cons.prems(3) ok(1-3) c])
  obtain req1 where r: "httpRequestAddHeader req (k @ [NUL]) (v @ [NUL]) = Inr req1" "req_wf req1"
    "stored_headers req1 = stored_headers req @ [(cstr (k @ [NUL]), cstr (v @ [NUL]))]"
    "reqHeadersNum req1 = reqHeadersNum req + 1" "curState req1 = curState req"
    "req_method req1 = req_method req" "req_url req1 = req_url req" "req_version req1 = req_version req"
    by (rule addHeader_stores [OF Cons.prems(2) ok(5), of "k @ [NUL]" "v @ [NUL]"])
  have kv': "cstr (k @ [NUL]) = k" "cstr (v @ [NUL]) = v"
    using ok by (simp_all add: field_ok_def cstr_append_NUL)
  have h: "parseHttpRequestHeader req b = Inr (True, req1, b1)" using b1(3) r(1) by simp
  have st: "curState req1 = ParseReqHeaders" using r(5) Cons.prems(1) by simp
  have n: "reqHeadersNum req1 + int (length hs) \<le> 12" using Cons.prems(6) r(4) by simp
  show ?case
    using Cons.IH [OF st r(2) b1(1,2) ok(4) n] parse_loop_header [OF Cons.prems(1) h st]
    by (simp add: r(3-8) kv kv' add.assoc)
qed

lemma parse_headers:
  assumes "curState req = ParseReqHeaders" and "req_wf req" and "buffer_inv b"
    and "contents b = concat (map header_line hs) @ crlf @ rest" and "headers_ok hs"
    and "reqHeadersNum req + int (length hs) \<le> 12"
  shows "\<exists>req' b'. parse_loop e outcome req b resp sb sent = finish_request e outcome req' b' resp sb sent \<and>
    curState req' = ParseReqDone \<and> req_wf req' \<and> stored_headers req' = stored_headers req @ hs \<and>
    req_method req' = req_method req \<and> req_url req' = req_url req \<and>
    req_version req' = req_version req \<and> buffer_inv b' \<and> contents b' = rest"
proof -
  from parse_header_lines [OF assms] obtain req1 b1 where
    1: "parse_loop e outcome req b resp sb sent = parse_loop e outcome req1 b1 resp sb sent"
      "curState req1 = ParseReqHeaders" "req_wf req1" "stored_headers req1 = stored_headers req @ hs"
      "req_method req1 = req_method req" "req_url req1 = req_url req" "req_version req1 = req_version req"
      "buffer_inv b1" "contents b1 = crlf @ rest" by metis
  note h = header_end [OF 1(8,9)]
  show ?thesis
    using parse_loop_finish [OF 1(2) h(1)] h(2,3) 1
    by (intro exI [of _ "req1\<lparr>curState := ParseReqDone\<rparr>"] exI [of _ "b1\<lparr>readPos := readPos b1 + 2\<rparr>"]) simp
qed

text \<open>One header line more than the array has slots.\<close>

lemma parse_headers_overflow:
  assumes st: "curState req = ParseReqHeaders" and wf: "req_wf req" and inv: "buffer_inv b"
    and cont: "contents b = concat (map header_line hs) @ rest" and ok: "headers_ok hs"
    and n: "12 < reqHeadersNum req + int (length hs)"
  shows "parse_loop e outcome req b resp sb sent = Some (Inl OutOfBounds)"
proof -
  let ?k = "12 - nat (reqHeadersNum req)"
  have n0: "0 \<le> reqHeadersNum req" "reqHeadersNum req \<le> 12"
    using wf by (auto simp: req_wf_def split: option.splits)
  have lt: "?k < length hs" using n n0 by linarith
  obtain k v where kv: "hs ! ?k = (k, v)" by fastforce
  have hs: "hs = take ?k hs @ (k, v) # drop (Suc ?k) hs" using id_take_nth_drop [OF lt] kv by simp
  have okt: "headers_ok (take ?k hs)" using ok by (auto simp: headers_ok_def dest: in_set_takeD)
  have okk: "field_ok k" "CHR '':'' \<notin> set k" "field_ok v"
    using ok nth_mem [OF lt] kv by (fastforce simp: headers_ok_def)+
  let ?rest = "concat (map header_line (drop (Suc ?k) hs)) @ rest"
  have c: "contents b = concat (map header_line (take ?k hs)) @ (header_line (k, v) @ ?rest)"
    unfolding cont by (subst hs) simp
  have len: "reqHeadersNum req + int (length (take ?k hs)) = 12" using lt n0 by simp
  from parse_header_lines [OF st wf inv c okt] len obtain req1 b1 where
    1: "parse_loop e outcome req b resp sb sent = parse_loop e outcome req1 b1 resp sb sent"
      "curState req1 = ParseReqHeaders" "req_wf req1" "reqHeadersNum req1 = 12"
      "buffer_inv b1" "contents b1 = header_line (k, v) @ ?rest" by (metis order_refl)
  obtain b2 where "parseHttpRequestHeader req1 b1 =
      bindR (httpRequestAddHeader req1 (k @ [NUL]) (v @ [NUL])) (\<lambda>req. Inr (True, req, b2))"
    using header_parse [OF 1(5) okk 1(6)] by metis
  then have "parseHttpRequestHeader req1 b1 = Inl OutOfBounds"
    using addHeader_full [OF 1(3,4)] by simp
  then show ?thesis unfolding 1(1) by (subst parse_loop.simps) (simp add: 1(2))
qed

text \<open>A request whose header section is not complete yet.\<close>

lemma parse_headers_partial:
  assumes "curState req = ParseReqHeaders" and "req_wf req" and "buffer_inv b"
    and "contents b = concat (map header_line hs) @ rest" and "headers_ok hs"
    and "reqHeadersNum req + int (length hs) \<le> 12" and r: "memmem rest crlf = None"
  shows "\<exists>req' b'. parse_loop e outcome req b resp sb sent = Some (Inr (False, req', b', resp, sb, sent)) \<and>
    curState req' = ParseReqHeaders \<and> req_wf req' \<and> stored_headers req' = stored_headers req @ hs \<and>
    buffer_inv b' \<and> contents b' = rest"
proof -
  from parse_header_lines [OF assms(1-6)] obtain req1 b1 where
    1: "parse_loop e outcome req b resp sb sent = parse_loop e outcome req1 b1 resp sb sent"
      "curState req1 = ParseReqHeaders" "req_wf req1" "stored_headers req1 = stored_headers req @ hs"
      "buffer_inv b1" "contents b1 = rest" by metis
  have "parseHttpRequestHeader req1 b1 = Inr (False, req1, b1)"
    using parseHttpRequestHeader_incomplete r 1(6) by simp
  then have "parse_loop e outcome req1 b1 resp sb sent = Some (Inr (False, req1, b1, resp, sb, sent))"
    by (subst parse_loop.simps) (simp add: 1(2))
  with 1 show ?thesis by auto
qed

section \<open>The whole request\<close>

lemma split_line_fields:
  "CHR '' '' \<notin> set m \<Longrightarrow> CHR '' '' \<notin> set u \<Longrightarrow>
   split_line (m @ '' '' @ u @ '' '' @ v) = Some (m, u, v)"
  by (simp add: split_line_def cut_space_append)

lemma request_line_step:
  assumes inv: "buffer_inv b" and cont: "contents b = m @ '' '' @ u @ '' '' @ v @ crlf @ rest"
    and ok: "field_ok m" "field_ok u" "field_ok v" "CHR '' '' \<notin> set m" "CHR '' '' \<notin> set u"
  obtains b' where
    "parseHttpRequestLine req b =
       Inr (True, req\<lparr>req_method := Some (m @ [NUL]), req_url := Some (u @ [NUL]),
                     req_version := Some (v @ [NUL]), curState := ParseReqHeaders\<rparr>, b')"
    "buffer_inv b'" "contents b' = rest"
proof -
  let ?l = "m @ '' '' @ u @ '' '' @ v"
  have c: "contents b = ?l @ crlf @ rest" using cont by simp
  have "CR \<notin> set ?l" using ok by (simp add: field_ok_def)
  then have i: "memmem (contents b) crlf = Some (length ?l)" unfolding c by (rule memmem_crlf)
  have tk: "take (length ?l) (contents b) = ?l" unfolding c by simp
  have ne: "length ?l \<noteq> 0" by simp
  have lb: "line_block m = m @ [NUL]" "line_block u = u @ [NUL]" "line_block v = v @ [NUL]"
    using ok by (simp_all add: field_ok_def line_block_id)
  let ?b = "b\<lparr>readPos := readPos b + int (length ?l + 2)\<rparr>"
  have "parseHttpRequestLine req b =
      Inr (True, req\<lparr>req_method := Some (m @ [NUL]), req_url := Some (u @ [NUL]),
                     req_version := Some (v @ [NUL]), curState := ParseReqHeaders\<rparr>, ?b)"
    unfolding parseHttpRequestLine_spec [OF inv i] tk split_line_fields [OF ok(4,5)]
    using ne by (simp only: if_False option.case prod.case lb)
  moreover have n: "length ?l + 2 \<le> length (contents b)" unfolding c by simp
  have "contents b = (?l @ crlf) @ rest" using c by simp
  then have "drop (length (?l @ crlf)) (contents b) = rest" by (metis append_eq_conv_conj)
  then have "contents ?b = rest" "buffer_inv ?b"
    using consume_contents [OF inv n] by simp_all
  ultimately show ?thesis using that by blast
qed

lemma parse_loop_line:
  assumes "curState req = ParseReqLine"
    and "parseHttpRequestLine req b = Inr (True, req', b')" and "curState req' = ParseReqHeaders"
  shows "parse_loop e outcome req b resp sb sent = parse_loop e outcome req' b' resp sb sent"
  by (subst parse_loop.simps) (simp add: assms)

lemma request_okD:
  "request_ok m u v hs \<Longrightarrow> field_ok m \<and> field_ok u \<and> field_ok v \<and> CHR '' '' \<notin> set m \<and>
     CHR '' '' \<notin> set u \<and> headers_ok hs"
  by (simp add: request_ok_def headers_ok_def)

text \<open>The request line is read, the loop goes on with the header section.\<close>

lemma parse_first_line:
  assumes st: "curState req = ParseReqLine" and wf: "req_wf req" and inv: "buffer_inv b"
    and cont: "contents b = m @ '' '' @ u @ '' '' @ v @ crlf @ rest" and ok: "request_ok m u v hs"
  shows "\<exists>req' b'. parseHttpRequest e outcome req b resp sb = parse_loop e outcome req' b' resp sb [] \<and>
    curState req' = ParseReqHeaders \<and> req_wf req' \<and> stored_headers req' = stored_headers req \<and>
    reqHeadersNum req' = reqHeadersNum req \<and>
    req_method req' = Some (m @ [NUL]) \<and> req_url req' = Some (u @ [NUL]) \<and>
    req_version req' = Some (v @ [NUL]) \<and> buffer_inv b' \<and> contents b' = rest"
proof -
  note ok' = request_okD [OF ok]
  let ?req = "req\<lparr>req_method := Some (m @ [NUL]), req_url := Some (u @ [NUL]),
                req_version := Some (v @ [NUL]), curState := ParseReqHeaders\<rparr>"
  obtain b1 where b1: "parseHttpRequestLine req b = Inr (True, ?req, b1)" "buffer_inv b1"
      "contents b1 = rest"
    using request_line_step [OF inv cont] ok' by metis
  have p: "parseHttpRequest e outcome req b resp sb = parse_loop e outcome ?req b1 resp sb []"
    unfolding parseHttpRequest_def by (rule parse_loop_line [OF st b1(1)]) simp
  show ?thesis
    unfolding p using b1(2,3) wf by (intro exI [of _ ?req] exI [of _ b1]) simp
qed

lemma print_request_line:
  "print_request m u v hs @ rest =
   m @ '' '' @ u @ '' '' @ v @ crlf @ (concat (map header_line hs) @ crlf @ rest)"
  by (simp add: print_request_def)

lemma parse_request:
  assumes st: "curState req = ParseReqLine" and wf: "req_wf req" and inv: "buffer_inv b"
    and cont: "contents b = print_request m u v hs @ rest" and ok: "request_ok m u v hs"
    and n: "reqHeadersNum req + int (length hs) \<le> 12"
  shows "\<exists>req' b'. parseHttpRequest e outcome req b resp sb = finish_request e outcome req' b' resp sb [] \<and>
    curState req' = ParseReqDone \<and> req_wf req' \<and> stored_headers req' = stored_headers req @ hs \<and>
    req_method req' = Some (m @ [NUL]) \<and> req_url req' = Some (u @ [NUL]) \<and>
    req_version req' = Some (v @ [NUL]) \<and> buffer_inv b' \<and> contents b' = rest"
proof -
  obtain req1 b1 where
    1: "parseHttpRequest e outcome req b resp sb = parse_loop e outcome req1 b1 resp sb []"
      "curState req1 = ParseReqHeaders" "req_wf req1" "buffer_inv b1"
      "contents b1 = concat (map header_line hs) @ crlf @ rest"
      "stored_headers req1 = stored_headers req" "reqHeadersNum req1 = reqHeadersNum req"
      "req_method req1 = Some (m @ [NUL])" "req_url req1 = Some (u @ [NUL])"
      "req_version req1 = Some (v @ [NUL])"
    using parse_first_line [OF st wf inv cont [unfolded print_request_line] ok] by metis
  have ho: "headers_ok hs" using request_okD [OF ok] by simp
  have n1: "reqHeadersNum req1 + int (length hs) \<le> 12" using n 1(7) by simp
  from parse_headers [OF 1(2-5) ho n1, of e outcome resp sb "[]"]
  show ?thesis by (simp add: 1(1,6-10))
qed

section \<open>What a request is answered\<close>

text \<open>
  The reply of the server for a path: status, reason, headers, and where the body comes from.
\<close>

definition reply_for ::
  "env \<Rightarrow> string \<Rightarrow> HttpStatusCode \<times> string \<times> (string \<times> string) list \<times> response_body \<times> string" where
  "reply_for e p =
     (case fs_stat e p of
        None \<Rightarrow> (NotFound, ''Not Found'', [(''Content-type'', getFileType ''.html'')], SendFile, ''404.html'')
      | Some st \<Rightarrow>
          if st_isdir st then (OK, ''OK'', [(''Content-type'', getFileType ''.html'')], SendDir, p)
          else (OK, ''OK'', [(''Content-type'', getFileType p),
                             (''Content-length'', dec_int (st_size st))], SendFile, p))"

text \<open>The sizes the fixed arrays of the response can hold.\<close>

definition path_ok :: "env \<Rightarrow> string \<Rightarrow> bool" where
  "path_ok e p \<longleftrightarrow> length p < 128 \<and> NUL \<notin> set p \<and>
     (case fs_stat e p of None \<Rightarrow> True | Some st \<Rightarrow> 0 \<le> st_size st \<and> st_size st < 10 ^ 11)"

lemma header_ok_type: "header_ok (''Content-type'', getFileType f)"
  using getFileType_facts [of f] by (simp add: header_ok_def)

lemma dec_int_short:
  assumes "0 \<le> i" and "i < 10 ^ 11"
  shows "length (dec_int i) < 12"
proof -
  have "nat i < 10 ^ 11" using assms by (simp add: nat_less_iff)
  with length_dec_nat [of "nat i" 11] assms show ?thesis by (simp add: dec_int_def)
qed

lemma header_ok_length:
  assumes "0 \<le> i" and "i < 10 ^ 11"
  shows "header_ok (''Content-length'', dec_int i)"
  using dec_int_short [OF assms] by (simp add: header_ok_def)

lemma response_wf_body [simp]: "response_wf (r\<lparr>sendDataFunc := f\<rparr>) = response_wf r"
  by (simp add: response_wf_def)

lemma response_wf_status:
  "response_wf r \<Longrightarrow> length fn < 128 \<Longrightarrow> NUL \<notin> set fn \<Longrightarrow> length msg < 128 \<Longrightarrow> NUL \<notin> set msg \<Longrightarrow>
   response_wf (r\<lparr>fileName := fn, statusCode := c, statusMsg := msg\<rparr>)"
  by (simp add: response_wf_def)

lemma headers_of_frame [simp]:
  "headers_of (r\<lparr>fileName := fn\<rparr>) = headers_of r"
  "headers_of (r\<lparr>statusCode := c\<rparr>) = headers_of r"
  "headers_of (r\<lparr>statusMsg := msg\<rparr>) = headers_of r"
  "headers_of (r\<lparr>sendDataFunc := f\<rparr>) = headers_of r"
  by (simp_all add: headers_of_def)

text \<open>One header on a response with a free slot, as used three times.\<close>

lemma add_header_step:
  assumes "response_wf r" and "headerNum r < 16" and "header_ok (k, v)"
  obtains r' where "add_header r k v = Inr r'" "response_wf r'" "headers_of r' = headers_of r @ [(k, v)]"
    "headerNum r' = headerNum r + 1" "statusCode r' = statusCode r" "statusMsg r' = statusMsg r"
    "fileName r' = fileName r"
  using add_header_ok [OF assms] that by simp

lemma respond_path_reply:
  assumes wf: "response_wf resp" and p: "path_ok e p"
    and r: "reply_for e p = (c, msg, hs, f, fn)" and n: "headerNum resp + int (length hs) \<le> 16"
  shows "\<exists>r. respond_path e p resp = Inr r \<and> response_wf r \<and> statusCode r = c \<and> statusMsg r = msg \<and>
    headers_of r = headers_of resp @ hs \<and> sendDataFunc r = Some f \<and> fileName r = fn"
proof (cases "fs_stat e p")
  case None
  with r have e: "c = NotFound" "msg = ''Not Found''" "hs = [(''Content-type'', getFileType ''.html'')]"
      "f = SendFile" "fn = ''404.html''" by (simp_all add: reply_for_def)
  let ?r = "resp\<lparr>fileName := fn, statusCode := c, statusMsg := msg\<rparr>"
  have w: "response_wf ?r" by (rule response_wf_status [OF wf]) (simp_all add: e)
  have hn: "headerNum ?r < 16" using n e(3) by simp
  from add_header_step [OF w hn header_ok_type [of "''.html''"]] obtain r1 where
    r1: "add_header ?r ''Content-type'' (getFileType ''.html'') = Inr r1" "response_wf r1"
      "headers_of r1 = headers_of ?r @ [(''Content-type'', getFileType ''.html'')]"
      "statusCode r1 = statusCode ?r" "statusMsg r1 = statusMsg ?r" "fileName r1 = fileName ?r" by metis
  show ?thesis
    using None e r1 by (simp add: respond_path_def strcpy_into_def)
next
  case (Some st)
  show ?thesis
  proof (cases "st_isdir st")
    case True
    with r Some have e: "c = OK" "msg = ''OK''" "hs = [(''Content-type'', getFileType ''.html'')]"
        "f = SendDir" "fn = p" by (simp_all add: reply_for_def)
    let ?r = "resp\<lparr>fileName := fn, statusCode := c, statusMsg := msg\<rparr>"
    have w: "response_wf ?r" using p by (intro response_wf_status [OF wf]) (simp_all add: e path_ok_def)
    have hn: "headerNum ?r < 16" using n e(3) by simp
    from add_header_step [OF w hn header_ok_type [of "''.html''"]] obtain r1 where
      r1: "add_header ?r ''Content-type'' (getFileType ''.html'') = Inr r1" "response_wf r1"
        "headers_of r1 = headers_of ?r @ [(''Content-type'', getFileType ''.html'')]"
        "statusCode r1 = statusCode ?r" "statusMsg r1 = statusMsg ?r" "fileName r1 = fileName ?r" by metis
    show ?thesis
      using Some True e r1 p by (simp add: respond_path_def strcpy_into_def path_ok_def)
  next
    case False
    let ?len = "dec_int (st_size st)"
    from False r Some have e: "c = OK" "msg = ''OK''"
        "hs = [(''Content-type'', getFileType p), (''Content-length'', ?len)]"
        "f = SendFile" "fn = p" by (auto simp: reply_for_def)
    let ?r = "resp\<lparr>fileName := fn, statusCode := c, statusMsg := msg\<rparr>"
    have w: "response_wf ?r" using p by (intro response_wf_status [OF wf]) (simp_all add: e path_ok_def)
    have hn: "headerNum ?r < 16" using n e(3) by simp
    from add_header_step [OF w hn header_ok_type [of p]] obtain r1 where
      r1: "add_header ?r ''Content-type'' (getFileType p) = Inr r1" "response_wf r1"
        "headers_of r1 = headers_of ?r @ [(''Content-type'', getFileType p)]"
        "headerNum r1 = headerNum ?r + 1"
        "statusCode r1 = statusCode ?r" "statusMsg r1 = statusMsg ?r" "fileName r1 = fileName ?r" by metis
    have sz: "0 \<le> st_size st" "st_size st < 10 ^ 11" using p Some by (simp_all add: path_ok_def)
    have hn1: "headerNum r1 < 16" using n e(3) r1(4) by simp
    from add_header_step [OF r1(2) hn1 header_ok_length [OF sz]] obtain r2 where
      r2: "add_header r1 ''Content-length'' ?len = Inr r2" "response_wf r2"
        "headers_of r2 = headers_of r1 @ [(''Content-length'', ?len)]"
        "statusCode r2 = statusCode r1" "statusMsg r2 = statusMsg r1" "fileName r2 = fileName r1" by metis
    show ?thesis
      using Some False e r1 r2 p dec_int_short [OF sz]
      by (simp add: respond_path_def strcpy_into_def path_ok_def)
  qed
qed

section \<open>From the request to the response\<close>

text \<open>The path a GET for the URL \<open>u\<close> names: the decoded URL without its first byte.\<close>

definition requested_path :: "string \<Rightarrow> string" where
  "requested_path u = (let d = cstr (decode u) in if d = ''/'' then ''./'' else tl d)"

lemma decodeMsg_block:
  "NUL \<notin> set u \<Longrightarrow> decodeMsg (u @ [NUL]) = Inr (overwrite (u @ [NUL]) 0 (decode u @ [NUL]))"
  using decode_loop_computes [of 0 0 "u @ [NUL]"] by (simp add: decodeMsg_def cstr_append_NUL)

lemma cstr_stop: "cstr (x @ NUL # y) = cstr x"
  by (induction x) (auto simp: cstr_def)

lemma cstr_Cons: "cstr (a # x) = (if a = NUL then [] else a # cstr x)"
  by (simp add: cstr_def)

lemma process_get:
  assumes "req_method req = Some (m @ [NUL])" and "req_url req = Some (u @ [NUL])"
    and "strcasecmp_eq (m @ [NUL]) ''get''" and "NUL \<notin> set u" and "cstr (decode u) \<noteq> []"
  obtains url where "cstr url = cstr (decode u)"
    "processHttpRequest e req resp = bindR (respond_path e (requested_path u) resp)
       (\<lambda>resp. Inr (False, req\<lparr>req_url := Some url\<rparr>, resp))"
proof -
  let ?url = "overwrite (u @ [NUL]) 0 (decode u @ [NUL])"
  have url: "?url = decode u @ NUL # drop (length (decode u @ [NUL])) (u @ [NUL])"
    by (simp add: overwrite_def)
  then have c: "cstr ?url = cstr (decode u)" by (simp only: cstr_stop)
  obtain a d where d: "decode u = a # d" "a \<noteq> NUL"
    using assms(5) by (cases "decode u") (auto simp: cstr_def split: if_splits)
  with url have t: "NUL \<in> set (tl ?url)" "cstr (tl ?url) = tl (cstr (decode u))"
    by (simp_all add: cstr_stop cstr_Cons)
  have "processHttpRequest e req resp = bindR (respond_path e (requested_path u) resp)
      (\<lambda>resp. Inr (False, req\<lparr>req_url := Some ?url\<rparr>, resp))"
    using assms(3) by (simp add: processHttpRequest_def assms(1,2) decodeMsg_block [OF assms(4)] c t
        requested_path_def Let_def)
  with c that show ?thesis by blast
qed

lemma process_other:
  "req_method req = Some (m @ [NUL]) \<Longrightarrow> req_url req = Some url \<Longrightarrow>
   \<not> strcasecmp_eq (m @ [NUL]) ''get'' \<Longrightarrow> processHttpRequest e req resp = Inr (True, req, resp)"
  by (simp add: processHttpRequest_def)

lemma response_head_text:
  "response_head r = ''HTTP/1.1 '' @ dec_int (status_code (statusCode r)) @ '' '' @ statusMsg r @ crlf @
     concat (map header_line (headers_of r)) @ crlf"
  by (simp add: response_head_def status_line_def)

text \<open>The head of the reply, and the text of the whole reply with its body \<open>txt\<close>.\<close>

definition reply_text :: "HttpStatusCode \<Rightarrow> string \<Rightarrow> (string \<times> string) list \<Rightarrow> string \<Rightarrow> string" where
  "reply_text c msg hs txt =
     ''HTTP/1.1 '' @ dec_int (status_code c) @ '' '' @ msg @ crlf @ concat (map header_line hs) @ crlf @ txt"

text \<open>The body of a reply: the bytes of the file, or the page for the directory.\<close>

definition reply_body :: "env \<Rightarrow> response_body \<Rightarrow> string \<Rightarrow> string \<Rightarrow> bool" where
  "reply_body e f fn txt \<longleftrightarrow> produces e (httpResponseInit\<lparr>sendDataFunc := Some f, fileName := fn\<rparr>) txt"

lemma reply_body_produces:
  "sendDataFunc r = Some f \<Longrightarrow> fileName r = fn \<Longrightarrow> produces e r txt = reply_body e f fn txt"
  by (simp add: reply_body_def produces_def split: response_body.split)

lemma finish_get:
  assumes m: "req_method req = Some (m @ [NUL])" "strcasecmp_eq (m @ [NUL]) ''get''"
    and u: "req_url req = Some (u @ [NUL])" "NUL \<notin> set u" "cstr (decode u) \<noteq> []"
    and wf: "response_wf resp" and p: "path_ok e (requested_path u)"
    and r: "reply_for e (requested_path u) = (c, msg, hs, f, fn)"
    and n: "headerNum resp + int (length hs) \<le> 16" and body: "reply_body e f fn txt"
    and inv: "buffer_inv sb"
    and room: "roomy (e_mem e) sb (int (length (reply_text c msg (headers_of resp @ hs) txt)))"
    and send: "outcome = SendErr \<or>
      int (length (reply_text c msg (headers_of resp @ hs) txt)) \<le> bufferWriteableSize sb"
  shows "\<exists>req' resp' sb' s. finish_request e outcome req b resp sb sent =
      Some (Inr (True, req', b, resp', sb', sent @ s)) \<and> curState req' = ParseReqLine \<and>
    req_wf req' = req_wf req \<and> (txt \<noteq> [] \<longrightarrow> contents sb' \<noteq> []) \<and>
    response_wf resp' \<and> headers_of resp' = headers_of resp @ hs \<and> buffer_inv sb' \<and>
    s @ contents sb' = contents sb @ reply_text c msg (headers_of resp @ hs) txt"
proof -
  obtain url where url: "processHttpRequest e req resp =
      bindR (respond_path e (requested_path u) resp)
        (\<lambda>resp. Inr (False, req\<lparr>req_url := Some url\<rparr>, resp))"
    using process_get [OF m(1) u(1) m(2) u(2,3)] by metis
  obtain r1 where r1: "respond_path e (requested_path u) resp = Inr r1" "response_wf r1"
      "statusCode r1 = c" "statusMsg r1 = msg" "headers_of r1 = headers_of resp @ hs"
      "sendDataFunc r1 = Some f" "fileName r1 = fn"
    using respond_path_reply [OF wf p r n] by blast
  have whole: "response_head r1 @ txt = reply_text c msg (headers_of resp @ hs) txt"
    using r1 by (simp add: response_head_text reply_text_def)
  have pr: "produces e r1 txt" using body reply_body_produces [OF r1(6,7)] by simp
  obtain b1 m1 b2 s b3 where s: "httpResponsePrepareMsg e outcome r1 sb = Some (Inr (b3, s))"
      "grown sb (response_head r1) b1" "contents b1 = s @ contents b2" "grown b2 txt b3"
    using prepareMsg_steps [OF r1(2) pr inv] room send unfolding whole by blast
  have f: "finish_request e outcome req b resp sb sent =
      Some (Inr (True, req\<lparr>req_url := Some url, curState := ParseReqLine\<rparr>, b, r1, b3, sent @ s))"
    by (simp add: finish_request_def url r1(1) s(1))
  have "s @ contents b3 = contents sb @ response_head r1 @ txt" "buffer_inv b3"
    "txt \<noteq> [] \<longrightarrow> contents b3 \<noteq> []"
    using s(2-) by (simp_all add: grown_def)
  with f r1(2,5) show ?thesis unfolding whole
    by (intro exI [of _ "req\<lparr>req_url := Some url, curState := ParseReqLine\<rparr>"] exI) simp
qed

text \<open>A GET from its bytes to the reply, for a connection as well.\<close>

lemma get_answered:
  assumes "curState req = ParseReqLine" and "req_wf req" and "buffer_inv b"
    and "contents b = print_request m u v hs @ rest" and "request_ok m u v hs"
    and "reqHeadersNum req + int (length hs) \<le> 12"
    and "strcasecmp_eq (m @ [NUL]) ''get''" and "cstr (decode u) \<noteq> []"
    and "response_wf resp" and "path_ok e (requested_path u)"
    and "reply_for e (requested_path u) = (c, msg, rhs, f, fn)"
    and "headerNum resp + int (length rhs) \<le> 16" and "reply_body e f fn txt"
    and "buffer_inv sb"
    and "roomy (e_mem e) sb (int (length (reply_text c msg (headers_of resp @ rhs) txt)))"
    and "outcome = SendErr \<or>
      int (length (reply_text c msg (headers_of resp @ rhs) txt)) \<le> bufferWriteableSize sb"
  shows "\<exists>req' b' resp' sb' sent. parseHttpRequest e outcome req b resp sb =
      Some (Inr (True, req', b', resp', sb', sent)) \<and> curState req' = ParseReqLine \<and>
    buffer_inv b' \<and> contents b' = rest \<and> buffer_inv sb' \<and>
    req_wf req' \<and> response_wf resp' \<and> (txt \<noteq> [] \<longrightarrow> contents sb' \<noteq> []) \<and>
    sent @ contents sb' = contents sb @ reply_text c msg (headers_of resp @ rhs) txt"
proof -
  from parse_request [OF assms(1-6), of e outcome resp sb] obtain req1 b1 where
    1: "parseHttpRequest e outcome req b resp sb = finish_request e outcome req1 b1 resp sb []"
      "req_method req1 = Some (m @ [NUL])" "req_url req1 = Some (u @ [NUL])"
      "buffer_inv b1" "contents b1 = rest" "req_wf req1" by blast
  have u: "NUL \<notin> set u" using request_okD [OF assms(5)] by (simp add: field_ok_def)
  from finish_get [OF 1(2) assms(7) 1(3) u assms(8-16), of b1 "[]"] 1 show ?thesis by auto
qed

definition received :: "string \<Rightarrow> buffer" where
  "received s = \<lparr>buf_data = s, capacity = int (length s), readPos = 0, writePos = int (length s)\<rparr>"

lemma received_facts:
  "int (length s) \<le> int_max \<Longrightarrow> buffer_inv (received s)"
  "contents (received s) = s"
  by (simp_all add: received_def buffer_inv_def contents_def bufferReadableSize_def)

definition example_request :: http_request where
  "example_request = httpRequestInit
     \<lparr>req_method = None, req_url = None, req_version = None, reqHeaders = None, reqHeadersNum = 0,
      curState = ParseReqDone\<rparr>"

lemma example_request_facts:
  "req_wf example_request" "curState example_request = ParseReqLine"
  "stored_headers example_request = []" "reqHeadersNum example_request = 0"
  using httpRequestInit_wf [of "\<lparr>req_method = None, req_url = None, req_version = None,
      reqHeaders = None, reqHeadersNum = 0, curState = ParseReqDone\<rparr>"]
  by (simp_all add: example_request_def httpRequestInit_def httpRequestReset_def)

section \<open>The loop ends\<close>

text \<open>A header line that is read is either the end of the headers or makes the input shorter.\<close>

lemma httpRequestAddHeader_frame:
  "ensures (httpRequestAddHeader req k v) (\<lambda>req'. curState req' = curState req)"
  unfolding httpRequestAddHeader_def by (intro ensures_rules) (simp_all add: ensures_Inr)

lemma header_progress:
  assumes inv: "buffer_inv b" and h: "parseHttpRequestHeader req b = Inr (True, req', b')"
  shows "buffer_inv b' \<and> (curState req' = ParseReqDone \<or>
    curState req' = curState req \<and> length (contents b') < length (contents b))"
proof (cases "memmem (contents b) crlf")
  case None
  with h show ?thesis by (simp add: parseHttpRequestHeader_incomplete)
next
  case (Some i)
  have le: "i + 2 \<le> length (contents b)" using memmem_Some_bound [OF Some] by simp
  show ?thesis
  proof (cases "memmem (take i (contents b)) '': ''")
    case None
    with h have e: "req' = req\<lparr>curState := ParseReqDone\<rparr>" "b' = b\<lparr>readPos := readPos b + int 2\<rparr>"
      unfolding parseHttpRequestHeader_spec [OF inv Some] by auto
    have "2 \<le> length (contents b)" using le by simp
    from consume_contents(1) [OF inv this] e show ?thesis by simp
  next
    case (Some j)
    with h \<open>memmem (contents b) crlf = Some i\<close> have
      "\<exists>k v. httpRequestAddHeader req k v = Inr req'" "b' = b\<lparr>readPos := readPos b + int (i + 2)\<rparr>"
      unfolding parseHttpRequestHeader_spec [OF inv \<open>memmem (contents b) crlf = Some i\<close>]
      by (auto simp: res_simps)
    moreover from this have "curState req' = curState req"
      using ensuresD [OF httpRequestAddHeader_frame] by blast
    moreover have "length (drop (i + 2) (contents b)) < length (contents b)" using le by simp
    ultimately show ?thesis using consume_contents [OF inv le] by simp
  qed
qed

lemma parse_loop_headers_return:
  assumes "curState req = ParseReqHeaders" and "buffer_inv b"
    and fin: "\<And>req b. finish_request e outcome req b resp sb sent \<noteq> None"
  shows "parse_loop e outcome req b resp sb sent \<noteq> None"
  using assms(1,2)
proof (induction "length (contents b)" arbitrary: req b rule: less_induct)
  case less
  show ?case
  proof (cases "parseHttpRequestHeader req b")
    case (Inl x)
    then show ?thesis by (subst parse_loop.simps) (simp add: less.prems)
  next
    case (Inr r)
    obtain f req' b' where r: "r = (f, req', b')" using prod_cases3 by blast
    show ?thesis
    proof (cases f)
      case False
      with Inr r show ?thesis by (subst parse_loop.simps) (simp add: less.prems)
    next
      case True
      with Inr r have h: "parseHttpRequestHeader req b = Inr (True, req', b')" by simp
      from header_progress [OF less.prems(2) h] show ?thesis
      proof (elim conjE disjE)
        assume "curState req' = ParseReqDone"
        then show ?thesis using parse_loop_finish [OF less.prems(1) h] fin by simp
      next
        assume a: "buffer_inv b'" "curState req' = curState req"
          "length (contents b') < length (contents b)"
        then have st: "curState req' = ParseReqHeaders" using less.prems(1) by simp
        show ?thesis
          using less.hyps [OF a(3) st a(1)] parse_loop_header [OF less.prems(1) h st] by simp
      qed
    qed
  qed
qed

text \<open>Every file the server can open is read without errors up to an end.\<close>

definition files_end :: "env \<Rightarrow> bool" where
  "files_end e \<longleftrightarrow> (\<forall>p rd. fs_open e p = Some rd \<longrightarrow>
     (\<exists>k. rd k = ReadBytes [] \<and> (\<forall>j < k. \<exists>s. rd j = ReadBytes s)))"

lemma sendFile_returns:
  assumes "files_end e"
  shows "sendFile e p b \<noteq> None"
proof (cases "fs_open e p")
  case None
  then show ?thesis by (simp add: sendFile_def)
next
  case (Some rd)
  with assms obtain k where k: "rd k = ReadBytes []" "\<forall>j < k. \<exists>s. rd j = ReadBytes s"
    unfolding files_end_def by blast
  have "j \<le> k \<Longrightarrow> sendFile_loop (e_mem e) rd j False b \<noteq> None" for j
  proof (induction "k - j" arbitrary: j b)
    case 0
    then show ?case using k(1) by (subst sendFile_loop.simps) simp
  next
    case (Suc n)
    then have j: "j < k" "n = k - Suc j" by simp_all
    with k(2) obtain s where "rd j = ReadBytes s" by blast
    moreover have "sendFile_loop (e_mem e) rd (Suc j) False b' \<noteq> None" for b'
      using Suc.hyps(1) [OF j(2)] j(1) by simp
    ultimately show ?case by (subst sendFile_loop.simps) (simp split: sum.split)
  qed
  from this [of 0] Some show ?thesis by (simp add: sendFile_def)
qed

lemma finish_returns: "files_end e \<Longrightarrow> finish_request e outcome req b resp sb sent \<noteq> None"
  by (auto simp: finish_request_def httpResponsePrepareMsg_def sendFile_returns split: sum.splits option.splits
      prod.splits response_body.splits)

lemma parse_loop_line_return:
  assumes st: "curState req = ParseReqLine" and inv: "buffer_inv b"
    and fin: "\<And>req b. finish_request e outcome req b resp sb sent \<noteq> None"
  shows "parse_loop e outcome req b resp sb sent \<noteq> None"
proof (cases "parseHttpRequestLine req b")
  case (Inl x)
  then show ?thesis by (subst parse_loop.simps) (simp add: st)
next
  case (Inr r)
  obtain f req' b' where r: "r = (f, req', b')" using prod_cases3 by blast
  from Inr obtain i where i: "memmem (contents b) crlf = Some i"
    by (cases "memmem (contents b) crlf") (simp_all add: parseHttpRequestLine_incomplete)
  show ?thesis
  proof (cases f)
    case False
    with Inr r show ?thesis by (subst parse_loop.simps) (simp add: st)
  next
    case True
    with Inr r have h: "parseHttpRequestLine req b = Inr (True, req', b')" by simp
    then have e: "curState req' = ParseReqHeaders" "b' = b\<lparr>readPos := readPos b + int (i + 2)\<rparr>"
      unfolding parseHttpRequestLine_spec [OF inv i] by (auto split: if_splits option.splits)
    have "i + 2 \<le> length (contents b)" using memmem_Some_bound [OF i] by simp
    from consume_contents(1) [OF inv this] have "buffer_inv b'" using e(2) by simp
    from parse_loop_headers_return [OF e(1) this fin] parse_loop_line [OF st h e(1)]
    show ?thesis by simp
  qed
qed

text \<open>A request for a small file, and its reply.\<close>

lemma example_get:
  "request_ok ''GET'' ''/%66'' ''HTTP/1.1'' [(''Host'', ''a b'')]"
  "strcasecmp_eq (''GET'' @ [NUL]) ''get''"
  "cstr (decode ''/%66'') = ''/f''" "requested_path ''/%66'' = ''f''"
  "path_ok (small_env [''f'' \<mapsto> ''hi'']) ''f''"
  "reply_for (small_env [''f'' \<mapsto> ''hi'']) ''f'' = (OK, ''OK'',
     [(''Content-type'', ''text/plain; charset=utf-8''), (''Content-length'', ''2'')], SendFile, ''f'')"
  "reply_body (small_env [''f'' \<mapsto> ''hi'']) SendFile ''f'' ''hi''"
proof -
  show d: "cstr (decode ''/%66'') = ''/f''" by code_simp
  have two: "dec_int 2 = ''2''" by code_simp
  show "requested_path ''/%66'' = ''f''" by (simp add: requested_path_def d)
  show "strcasecmp_eq (''GET'' @ [NUL]) ''get''" by code_simp
  show "reply_for (small_env [''f'' \<mapsto> ''hi'']) ''f'' = (OK, ''OK'',
     [(''Content-type'', ''text/plain; charset=utf-8''), (''Content-length'', ''2'')], SendFile, ''f'')"
    by (simp add: reply_for_def small_env_def getFileType_def cstr_def two)
qed (simp_all add: request_ok_def field_ok_def path_ok_def small_env_def reply_body_def produces_def)

lemma example_reply:
  "reply_text OK ''OK'' [(''Content-type'', ''text/plain; charset=utf-8''), (''Content-length'', ''2'')] ''hi'' =
     ''HTTP/1.1 200 OK'' @ crlf @ ''Content-type: text/plain; charset=utf-8'' @ crlf @ ''Content-length: 2'' @
     crlf @ crlf @ ''hi''"
  "length (reply_text OK ''OK'' [(''Content-type'', ''text/plain; charset=utf-8''), (''Content-length'', ''2'')]
     ''hi'') < 100"
proof -
  have code: "dec_int 200 = ''200''" by code_simp
  show "reply_text OK ''OK'' [(''Content-type'', ''text/plain; charset=utf-8''), (''Content-length'', ''2'')] ''hi'' =
     ''HTTP/1.1 200 OK'' @ crlf @ ''Content-type: text/plain; charset=utf-8'' @ crlf @ ''Content-length: 2'' @
     crlf @ crlf @ ''hi''"
    "length (reply_text OK ''OK'' [(''Content-type'', ''text/plain; charset=utf-8''), (''Content-length'', ''2'')]
     ''hi'') < 100"
    by (simp_all add: reply_text_def header_line_def code)
qed

section \<open>Properties\<close>

text \<open>
  C2. A GET request with at most twelve headers is answered with the response of the resource it
  names, if the send buffer has, or is given, room for the whole reply, and either the socket refuses the bytes sent at once or the
  reply fits into the buffer as it is: then no copy is made within the buffer. For any request line
  and header lines the parser reads, and any bytes behind the empty line: the server decodes the URL, drops its
  first byte, and what it sends at once followed by what it leaves in the send buffer is what the
  buffer held before, the status line and headers of \<open>reply_for\<close> (200 with type and length for a
  file, 200 with the listing for a directory, 404 with \<^verbatim>\<open>404.html\<close> otherwise) and the whole
  body; exactly the request is consumed and the parser is ready for the next one. A thirteenth
  header is the fault of \<open>parseHttpRequest_header_overflow\<close>.
\<close>

theorem parseHttpRequest_answers_get:
  assumes "curState req = ParseReqLine" and "req_wf req" and "buffer_inv b"
    and "contents b = print_request m u v hs @ rest" and "request_ok m u v hs"
    and "reqHeadersNum req + int (length hs) \<le> 12"
    and "strcasecmp_eq (m @ [NUL]) ''get''" and "cstr (decode u) \<noteq> []"
    and "response_wf resp" and "path_ok e (requested_path u)"
    and "reply_for e (requested_path u) = (c, msg, rhs, f, fn)"
    and "headerNum resp + int (length rhs) \<le> 16" and "reply_body e f fn txt"
    and "buffer_inv sb"
    and "roomy (e_mem e) sb (int (length (reply_text c msg (headers_of resp @ rhs) txt)))"
    and "outcome = SendErr \<or>
      int (length (reply_text c msg (headers_of resp @ rhs) txt)) \<le> bufferWriteableSize sb"
  shows "\<exists>req' b' resp' sb' sent. parseHttpRequest e outcome req b resp sb =
      Some (Inr (True, req', b', resp', sb', sent)) \<and> curState req' = ParseReqLine \<and>
    buffer_inv b' \<and> contents b' = rest \<and> buffer_inv sb' \<and>
    sent @ contents sb' = contents sb @ reply_text c msg (headers_of resp @ rhs) txt"
  using get_answered [OF assms] by metis

theorem parseHttpRequest_answers_get_witness:
  "\<exists>req' b' resp' sb' sent.
     parseHttpRequest (small_env [''f'' \<mapsto> ''hi'']) (SendOk 10) example_request
       (received (print_request ''GET'' ''/%66'' ''HTTP/1.1'' [(''Host'', ''a b'')] @ ''GET /g''))
       httpResponseInit (fresh_buffer 200) = Some (Inr (True, req', b', resp', sb', sent)) \<and>
     contents b' = ''GET /g'' \<and>
     sent @ contents sb' = ''HTTP/1.1 200 OK'' @ crlf @
       ''Content-type: text/plain; charset=utf-8'' @ crlf @ ''Content-length: 2'' @ crlf @ crlf @ ''hi''"
proof -
  let ?e = "small_env [''f'' \<mapsto> ''hi'']"
  let ?s = "print_request ''GET'' ''/%66'' ''HTTP/1.1'' [(''Host'', ''a b'')] @ ''GET /g''"
  let ?hs = "[(''Content-type'', ''text/plain; charset=utf-8''), (''Content-length'', ''2'')]"
  have s: "length ?s < 100" by (simp add: print_request_def header_line_def)
  have inv: "buffer_inv (received ?s)" using s by (intro received_facts) (simp add: int_max_def)
  have h0: "headers_of httpResponseInit = []" "headerNum httpResponseInit = 0"
    by (simp_all add: headers_of_def httpResponseInit_def)
  have sb: "buffer_inv (fresh_buffer 200)" by (rule fresh_buffer_facts) (simp add: int_max_def)
  have fits: "int (length (reply_text OK ''OK'' ?hs ''hi'')) \<le> bufferWriteableSize (fresh_buffer 200)"
    using example_reply(2) by (simp add: fresh_buffer_facts)
  then have rm: "roomy (e_mem ?e) (fresh_buffer 200) (int (length (reply_text OK ''OK'' ?hs ''hi'')))"
    by (simp add: roomy_def)
  have "\<exists>req' b' resp' sb' sent. parseHttpRequest ?e (SendOk 10) example_request (received ?s)
      httpResponseInit (fresh_buffer 200) = Some (Inr (True, req', b', resp', sb', sent)) \<and>
      curState req' = ParseReqLine \<and> buffer_inv b' \<and> contents b' = ''GET /g'' \<and> buffer_inv sb' \<and>
      sent @ contents sb' = contents (fresh_buffer 200) @
        reply_text OK ''OK'' (headers_of httpResponseInit @ ?hs) ''hi''"
    by (rule parseHttpRequest_answers_get [OF example_request_facts(2,1) inv received_facts(2) example_get(1) _
        example_get(2) _ httpResponseInit_wf _ _ _ _ sb, where fn = "''f''" and f = SendFile])
      (use example_get rm fits in \<open>simp_all add: h0 example_request_facts\<close>)
  then show ?thesis unfolding h0 append_Nil example_reply(1) fresh_buffer_facts(2) by blast
qed

text \<open>
  C11. Parsing inverts printing: from the bytes of a request with any method, the parser recovers
  method, URL, version and every header in order, for up to twelve headers, whatever bytes
  follow; it consumes exactly the request and goes on to process it.
\<close>

theorem parseHttpRequest_roundtrip:
  assumes "curState req = ParseReqLine" and "req_wf req" and "buffer_inv b"
    and "contents b = print_request m u v hs @ rest" and "request_ok m u v hs"
    and "reqHeadersNum req + int (length hs) \<le> 12"
  shows "\<exists>req' b'. parseHttpRequest e outcome req b resp sb = finish_request e outcome req' b' resp sb [] \<and>
    map_option cstr (req_method req') = Some m \<and> map_option cstr (req_url req') = Some u \<and>
    map_option cstr (req_version req') = Some v \<and>
    stored_headers req' = stored_headers req @ hs \<and> req_wf req' \<and>
    curState req' = ParseReqDone \<and> buffer_inv b' \<and> contents b' = rest"
proof -
  have "NUL \<notin> set m" "NUL \<notin> set u" "NUL \<notin> set v"
    using request_okD [OF assms(5)] by (simp_all add: field_ok_def)
  with parse_request [OF assms, of e outcome resp sb] show ?thesis
    by (fastforce simp: cstr_append_NUL)
qed

theorem parseHttpRequest_roundtrip_witness:
  "\<exists>req' b'. parseHttpRequest (small_env Map.empty) SendErr example_request
       (received (print_request ''GET'' ''/x'' ''HTTP/1.1'' [(''A'', ''1''), (''B'', '': 2'')]))
       httpResponseInit (fresh_buffer 9) =
     finish_request (small_env Map.empty) SendErr req' b' httpResponseInit (fresh_buffer 9) [] \<and>
     map_option cstr (req_url req') = Some ''/x'' \<and>
     stored_headers req' = [(''A'', ''1''), (''B'', '': 2'')] \<and> contents b' = []"
proof -
  let ?s = "print_request ''GET'' ''/x'' ''HTTP/1.1'' [(''A'', ''1''), (''B'', '': 2'')]"
  have "length ?s < 100" by (simp add: print_request_def header_line_def)
  then have inv: "buffer_inv (received ?s)" by (intro received_facts) (simp add: int_max_def)
  have ok: "request_ok ''GET'' ''/x'' ''HTTP/1.1'' [(''A'', ''1''), (''B'', '': 2'')]"
    by (simp add: request_ok_def field_ok_def)
  have c: "contents (received ?s) = ?s @ []" by (simp add: received_facts)
  have n: "reqHeadersNum example_request + int (length [(''A'', ''1''), (''B'', '': 2'')]) \<le> 12"
    by (simp add: example_request_facts)
  from parseHttpRequest_roundtrip [OF example_request_facts(2,1) inv c ok n] show ?thesis
    unfolding example_request_facts(3) append_Nil by metis
qed

text \<open>
  A request with more headers than the request struct has slots (twelve) writes outside the
  allocated block, whatever the method and whatever follows.
\<close>

theorem parseHttpRequest_header_overflow:
  assumes "curState req = ParseReqLine" and "req_wf req" and "buffer_inv b"
    and "contents b = print_request m u v hs @ rest" and "request_ok m u v hs"
    and "12 < reqHeadersNum req + int (length hs)"
  shows "parseHttpRequest e outcome req b resp sb = Some (Inl OutOfBounds)"
proof -
  obtain req1 b1 where
    1: "parseHttpRequest e outcome req b resp sb = parse_loop e outcome req1 b1 resp sb []"
      "curState req1 = ParseReqHeaders" "req_wf req1" "buffer_inv b1"
      "contents b1 = concat (map header_line hs) @ crlf @ rest" "reqHeadersNum req1 = reqHeadersNum req"
    using parse_first_line [OF assms(1-3) assms(4) [unfolded print_request_line] assms(5)] by metis
  have ho: "headers_ok hs" using request_okD [OF assms(5)] by simp
  have n: "12 < reqHeadersNum req1 + int (length hs)" using assms(6) 1(6) by simp
  from parse_headers_overflow [OF 1(2-5) ho n] 1(1) show ?thesis by simp
qed

theorem parseHttpRequest_header_overflow_witness:
  "parseHttpRequest (small_env Map.empty) SendErr example_request
     (received (print_request ''GET'' ''/'' ''HTTP/1.1'' (replicate 13 (''A'', ''1''))))
     httpResponseInit (fresh_buffer 9) = Some (Inl OutOfBounds)"
proof -
  let ?s = "print_request ''GET'' ''/'' ''HTTP/1.1'' (replicate 13 (''A'', ''1''))"
  have "length ?s < 1000"
    by (simp add: print_request_def header_line_def length_concat sum_list_replicate)
  then have inv: "buffer_inv (received ?s)" by (intro received_facts) (simp add: int_max_def)
  have ok: "request_ok ''GET'' ''/'' ''HTTP/1.1'' (replicate 13 (''A'', ''1''))"
    by (simp add: request_ok_def field_ok_def)
  have c: "contents (received ?s) = ?s @ []" by (simp add: received_facts)
  have n: "12 < reqHeadersNum example_request + int (length (replicate 13 (''A'', ''1'')))"
    by (simp add: example_request_facts)
  from parseHttpRequest_header_overflow [OF example_request_facts(2,1) inv c ok n] show ?thesis .
qed

text \<open>
  A well-formed request with any method other than GET, as the first one of its connection,
  crashes the server: it is left without a body function, which is called all the same.
\<close>

theorem parseHttpRequest_other_method_crashes:
  assumes "curState req = ParseReqLine" and "req_wf req" and "buffer_inv b"
    and "contents b = print_request m u v hs @ rest" and "request_ok m u v hs"
    and "reqHeadersNum req + int (length hs) \<le> 12"
    and "\<not> strcasecmp_eq (m @ [NUL]) ''get''"
    and "response_wf resp" and "sendDataFunc resp = None" and "buffer_inv sb"
    and "roomy (e_mem e) sb (int (length (response_head resp)))"
  shows "parseHttpRequest e outcome req b resp sb = Some (Inl NullDeref)"
proof -
  from parse_request [OF assms(1-6), of e outcome resp sb] obtain req1 b1 where
    1: "parseHttpRequest e outcome req b resp sb = finish_request e outcome req1 b1 resp sb []"
      "req_method req1 = Some (m @ [NUL])" "req_url req1 = Some (u @ [NUL])" by blast
  have "processHttpRequest e req1 resp = Inr (True, req1, resp)"
    using process_other [OF 1(2,3) assms(7)] by simp
  moreover obtain b2 where "prepare_head (e_mem e) resp sb = Inr b2"
    using prepare_head_appends [OF assms(8,10,11)] by auto
  then have "httpResponsePrepareMsg e outcome resp sb = Some (Inl NullDeref)"
    using assms(9) by (simp add: httpResponsePrepareMsg_def split: prod.split)
  ultimately show ?thesis by (simp add: 1(1) finish_request_def)
qed

theorem parseHttpRequest_other_method_crashes_witness:
  "parseHttpRequest (small_env Map.empty) SendErr example_request
     (received (print_request ''POST'' ''/'' ''HTTP/1.1'' [])) httpResponseInit (fresh_buffer 100) =
   Some (Inl NullDeref)"
proof -
  let ?s = "print_request ''POST'' ''/'' ''HTTP/1.1'' []"
  have "length ?s < 1000" by (simp add: print_request_def header_line_def)
  then have inv: "buffer_inv (received ?s)" by (intro received_facts) (simp add: int_max_def)
  have ok: "request_ok ''POST'' ''/'' ''HTTP/1.1'' []" by (simp add: request_ok_def field_ok_def)
  have c: "contents (received ?s) = ?s @ []" by (simp add: received_facts)
  have n: "reqHeadersNum example_request + int (length ([] :: (string \<times> string) list)) \<le> 12"
    by (simp add: example_request_facts)
  have other: "\<not> strcasecmp_eq (''POST'' @ [NUL]) ''get''" by code_simp
  have sb: "buffer_inv (fresh_buffer 100)" by (rule fresh_buffer_facts) (simp add: int_max_def)
  have "length (response_head httpResponseInit) < 100"
    by (simp add: response_head_def status_line_def headers_of_def httpResponseInit_def dec_int_def
        dec_nat.simps)
  then have rm: "roomy (e_mem (small_env Map.empty)) (fresh_buffer 100)
      (int (length (response_head httpResponseInit)))"
    by (simp add: roomy_def fresh_buffer_facts)
  have nf: "sendDataFunc httpResponseInit = None" by (simp add: httpResponseInit_def)
  from parseHttpRequest_other_method_crashes [OF example_request_facts(2,1) inv c ok n other
      httpResponseInit_wf nf sb rm] show ?thesis .
qed

text \<open>
  The request line decides the call unless it is well formed. Without a CRLF in the received
  bytes the parser computes with NULL; with an empty first line it returns false, nothing changed;
  with fewer than two spaces in the line it stops at an assertion.
\<close>

theorem parseHttpRequest_bad_first_line:
  assumes "curState req = ParseReqLine" and "buffer_inv b"
  shows "case memmem (contents b) crlf of
      None \<Rightarrow> parseHttpRequest e outcome req b resp sb = Some (Inl NullDeref)
    | Some i \<Rightarrow>
        (i = 0 \<longrightarrow> parseHttpRequest e outcome req b resp sb = Some (Inr (False, req, b, resp, sb, []))) \<and>
        (0 < i \<and> count_list (take i (contents b)) (CHR '' '') < 2 \<longrightarrow>
           parseHttpRequest e outcome req b resp sb = Some (Inl AssertFail))"
proof (cases "memmem (contents b) crlf")
  case None
  then show ?thesis
    unfolding parseHttpRequest_def
    by (subst parse_loop.simps) (simp add: assms(1) parseHttpRequestLine_incomplete)
next
  case (Some i)
  let ?l = "take i (contents b)"
  have "split_line ?l = None" if "count_list ?l (CHR '' '') < 2"
  proof (cases "cut_space ?l")
    case None
    then show ?thesis by (simp add: split_line_def)
  next
    case (Some mr)
    obtain m r where mr: "mr = (m, r)" by fastforce
    with Some have "?l = m @ CHR '' '' # r" using cut_space_Some by auto
    with that have "CHR '' '' \<notin> set r" by (auto simp: count_list_0_iff)
    with Some mr show ?thesis by (simp add: split_line_def cut_space_def)
  qed
  with Some show ?thesis
    unfolding parseHttpRequest_def
    by (simp add: parse_loop.simps [of e outcome req] assms(1) parseHttpRequestLine_spec [OF assms(2) Some])
qed

theorem parseHttpRequest_bad_first_line_witness:
  "parseHttpRequest (small_env Map.empty) SendErr example_request (received (''GET /'' @ crlf))
     httpResponseInit (fresh_buffer 9) = Some (Inl AssertFail)"
proof -
  have inv: "buffer_inv (received (''GET /'' @ crlf))"
    by (intro received_facts) (simp add: int_max_def)
  have "memmem (''GET /'' @ crlf) crlf = Some 5" by code_simp
  with parseHttpRequest_bad_first_line [OF example_request_facts(2) inv] show ?thesis
    by (simp add: received_facts)
qed

text \<open>
  A header section cut short by the end of the received bytes makes the parser return false,
  with the complete header lines stored and consumed, the rest of the bytes unread, the parser
  still in the header section, and neither the response nor the send buffer touched.
\<close>

theorem parseHttpRequest_partial_headers:
  assumes "curState req = ParseReqLine" and "req_wf req" and "buffer_inv b"
    and "contents b = m @ '' '' @ u @ '' '' @ v @ crlf @ concat (map header_line hs) @ rest"
    and "request_ok m u v hs" and "reqHeadersNum req + int (length hs) \<le> 12"
    and "memmem rest crlf = None"
  shows "\<exists>req' b'. parseHttpRequest e outcome req b resp sb =
      Some (Inr (False, req', b', resp, sb, [])) \<and> curState req' = ParseReqHeaders \<and>
    stored_headers req' = stored_headers req @ hs \<and> buffer_inv b' \<and> contents b' = rest"
proof -
  from parse_first_line [OF assms(1-5), of e outcome resp sb] obtain req1 b1 where
    1: "parseHttpRequest e outcome req b resp sb = parse_loop e outcome req1 b1 resp sb []"
      "curState req1 = ParseReqHeaders" "req_wf req1" "buffer_inv b1"
      "contents b1 = concat (map header_line hs) @ rest"
      "stored_headers req1 = stored_headers req" "reqHeadersNum req1 = reqHeadersNum req" by metis
  have ho: "headers_ok hs" using request_okD [OF assms(5)] by simp
  have n: "reqHeadersNum req1 + int (length hs) \<le> 12" using assms(6) 1(7) by simp
  from parse_headers_partial [OF 1(2-5) ho n assms(7)] 1(1,6) show ?thesis by metis
qed

theorem parseHttpRequest_partial_headers_witness:
  "\<exists>req' b'. parseHttpRequest (small_env Map.empty) SendErr example_request
       (received (''GET / HTTP/1.1'' @ crlf @ ''Host: a'' @ crlf @ ''Acc'')) httpResponseInit
       (fresh_buffer 9) = Some (Inr (False, req', b', httpResponseInit, fresh_buffer 9, [])) \<and>
     stored_headers req' = [(''Host'', ''a'')] \<and> contents b' = ''Acc''"
proof -
  let ?s = "''GET'' @ '' '' @ ''/'' @ '' '' @ ''HTTP/1.1'' @ crlf @
    concat (map header_line [(''Host'', ''a'')]) @ ''Acc''"
  have s: "?s = ''GET / HTTP/1.1'' @ crlf @ ''Host: a'' @ crlf @ ''Acc''" by (simp add: header_line_def)
  have "length ?s < 100" by (simp add: header_line_def)
  then have inv: "buffer_inv (received ?s)" by (intro received_facts) (simp add: int_max_def)
  have ok: "request_ok ''GET'' ''/'' ''HTTP/1.1'' [(''Host'', ''a'')]"
    by (simp add: request_ok_def field_ok_def)
  have n: "reqHeadersNum example_request + int (length [(''Host'', ''a'')]) \<le> 12"
    by (simp add: example_request_facts)
  have r: "memmem ''Acc'' crlf = None" by code_simp
  from parseHttpRequest_partial_headers [OF example_request_facts(2,1) inv received_facts(2) ok n r,
      of "small_env Map.empty" SendErr httpResponseInit "fresh_buffer 9"]
  show ?thesis unfolding s example_request_facts(3) append_Nil by metis
qed

text \<open>
  C24. The parser never runs on for ever, whatever the bytes in the receive buffer and whatever the
  state of the response and of the send buffer, from the states of the request in
  which it is ever called, when every file that can be opened is read without errors up to an end: it comes
  back with a result, or the call ends in one of the named faults.
\<close>

theorem parseHttpRequest_returns:
  assumes "buffer_inv b" and "files_end e" and "curState req \<noteq> ParseReqBody"
  shows "\<exists>r. parseHttpRequest e outcome req b resp sb = Some r"
proof (cases "curState req")
  case ParseReqLine
  with parse_loop_line_return [OF _ assms(1) finish_returns [OF assms(2)]] show ?thesis
    by (simp add: parseHttpRequest_def)
next
  case ParseReqHeaders
  with parse_loop_headers_return [OF _ assms(1) finish_returns [OF assms(2)]] show ?thesis
    by (simp add: parseHttpRequest_def)
next
  case ParseReqBody
  with assms(3) show ?thesis by simp
next
  case ParseReqDone
  then show ?thesis by (simp add: parseHttpRequest_def parse_loop_done)
qed

theorem parseHttpRequest_returns_witness:
  "\<exists>r. parseHttpRequest (small_env [''f'' \<mapsto> ''hi'']) SendErr example_request
       (received (print_request ''GET'' ''/f'' ''HTTP/1.1'' [])) httpResponseInit (fresh_buffer 9) = Some r"
proof -
  let ?s = "print_request ''GET'' ''/f'' ''HTTP/1.1'' []"
  have "length ?s < 100" by (simp add: print_request_def)
  then have inv: "buffer_inv (received ?s)" by (intro received_facts) (simp add: int_max_def)
  have "files_end (small_env [''f'' \<mapsto> ''hi''])"
    by (auto simp: files_end_def small_env_def file_reads_def intro!: exI [of _ 1])
  from parseHttpRequest_returns [OF inv this] example_request_facts(2) show ?thesis by simp
qed

end
