(* ===== verification/Epoll.thy ===== *)
theory Epoll
  imports Dispatcher
begin

text \<open>
  \<^verbatim>\<open>ReactorHTTP-C/EpollDispatcher.c\<close>, the dispatcher every event loop uses. The kernel's
  interest list of the epoll descriptor is part of the dispatcher's data; \<open>valid\<close> says which
  descriptors are open and can be watched. \<^verbatim>\<open>epoll_ctl\<close> fails as documented: adding a watched
  or unusable descriptor, removing or modifying one that is not watched. What
  \<^verbatim>\<open>epoll_wait\<close> reports is an argument; a failing call reports nothing.
\<close>

section \<open>The code\<close>

definition EPOLLIN :: "32 word" where "EPOLLIN = 0x001"
definition EPOLLOUT :: "32 word" where "EPOLLOUT = 0x004"
definition EPOLLERR :: "32 word" where "EPOLLERR = 0x008"
definition EPOLLHUP :: "32 word" where "EPOLLHUP = 0x010"

datatype ctl_op = EPOLL_CTL_ADD | EPOLL_CTL_DEL | EPOLL_CTL_MOD

text \<open>\<open>ep_events\<close>: whether the array for reported events is allocated.\<close>

record epoll_data =
  epfd :: int
  ep_set :: "int \<rightharpoonup> 32 word"
  ep_events :: bool

definition EPOLL_MAX :: nat where "EPOLL_MAX = 520"

text \<open>The argument is the result of \<^verbatim>\<open>epoll_create\<close>.\<close>

definition epollInit :: "int \<Rightarrow> epoll_data res" where
  "epollInit fd =
     (if fd = -1 then Inl ProcessExit
      else Inr \<lparr>epfd = fd, ep_set = Map.empty, ep_events = True\<rparr>)"

definition epoll_ctl ::
  "(int \<Rightarrow> bool) \<Rightarrow> ctl_op \<Rightarrow> int \<Rightarrow> 32 word \<Rightarrow> epoll_data \<Rightarrow> int \<times> epoll_data" where
  "epoll_ctl valid op fd ev data =
     (if \<not> valid fd \<or> fd = epfd data then (-1, data)
      else case op of
        EPOLL_CTL_ADD \<Rightarrow>
          if ep_set data fd = None then (0, data\<lparr>ep_set := (ep_set data)(fd \<mapsto> ev)\<rparr>) else (-1, data)
      | EPOLL_CTL_DEL \<Rightarrow>
          if ep_set data fd = None then (-1, data) else (0, data\<lparr>ep_set := (ep_set data)(fd := None)\<rparr>)
      | EPOLL_CTL_MOD \<Rightarrow>
          if ep_set data fd = None then (-1, data) else (0, data\<lparr>ep_set := (ep_set data)(fd \<mapsto> ev)\<rparr>))"

definition epollCtl ::
  "(int \<Rightarrow> bool) \<Rightarrow> channel \<Rightarrow> ctl_op \<Rightarrow> epoll_data \<Rightarrow> int \<times> epoll_data" where
  "epollCtl valid channel op data =
     (let events = (if has_event (ch_events channel) ReadEvent then EPOLLIN else 0) OR
                   (if has_event (ch_events channel) WriteEvent then EPOLLOUT else 0) in
      epoll_ctl valid op (ch_fd channel) events data)"

definition epollAdd :: "(int \<Rightarrow> bool) \<Rightarrow> channel \<Rightarrow> epoll_data \<Rightarrow> (int \<times> epoll_data) res" where
  "epollAdd valid channel data =
     (let (ret, data) = epollCtl valid channel EPOLL_CTL_ADD data in
      if ret = -1 then Inl ProcessExit else Inr (ret, data))"

definition epollRemove ::
  "(int \<Rightarrow> bool) \<Rightarrow> ('w \<Rightarrow> epoll_data) \<Rightarrow> (epoll_data \<Rightarrow> 'w \<Rightarrow> 'w) \<Rightarrow>
   (callback \<Rightarrow> cb_arg \<Rightarrow> 'w \<Rightarrow> 'w res) \<Rightarrow> channel \<Rightarrow> 'w \<Rightarrow> (int \<times> 'w) res" where
  "epollRemove valid get put destroy channel w =
     (let (ret, data) = epollCtl valid channel EPOLL_CTL_DEL (get w) in
      if ret = -1 then Inl ProcessExit
      else
        (case destroyCallback channel of
           None \<Rightarrow> Inl NullDeref
         | Some f \<Rightarrow> bindR (destroy f (ch_arg channel) (put data w)) (\<lambda>w. Inr (ret, w))))"

definition epollModify :: "(int \<Rightarrow> bool) \<Rightarrow> channel \<Rightarrow> epoll_data \<Rightarrow> (int \<times> epoll_data) res" where
  "epollModify valid channel data =
     (let (ret, data) = epollCtl valid channel EPOLL_CTL_MOD data in
      if ret = -1 then Inl ProcessExit else Inr (ret, data))"

text \<open>The loop over the reported events, and the whole round; at most 520 are reported.\<close>

fun epoll_loop ::
  "(int \<Rightarrow> 32 word \<Rightarrow> 'w \<Rightarrow> 'w run) \<Rightarrow> (32 word \<times> int) list \<Rightarrow> 'w \<Rightarrow> 'w run" where
  "epoll_loop activate [] w = Some (Inr w)"
| "epoll_loop activate ((events, fd) # es) w =
     (if has_event events EPOLLERR \<or> has_event events EPOLLHUP then epoll_loop activate es w
      else
        bindO (if has_event events EPOLLIN then activate fd ReadEvent w else Some (Inr w)) (\<lambda>w.
        bindO (if has_event events EPOLLOUT then activate fd WriteEvent w else Some (Inr w)) (\<lambda>w.
        epoll_loop activate es w)))"

definition epollDispatch ::
  "(32 word \<times> int) list \<Rightarrow> (int \<Rightarrow> 32 word \<Rightarrow> 'w \<Rightarrow> 'w run) \<Rightarrow> 'w \<Rightarrow> 'w run" where
  "epollDispatch ready activate w = epoll_loop activate (take EPOLL_MAX ready) w"

text \<open>The data block is written after it has been freed.\<close>

definition epollClear ::
  "nat \<Rightarrow> (nat \<Rightarrow> epoll_data option) \<Rightarrow> ((nat \<Rightarrow> epoll_data option) \<times> stale list) res" where
  "epollClear p h =
     (case h p of None \<Rightarrow> Inl UseAfterFree | Some _ \<Rightarrow> Inr (h(p := None), [StaleWrite p]))"

section \<open>The contract\<close>

definition ep_watch :: "32 word \<Rightarrow> watch" where
  "ep_watch ev = (has_event ev EPOLLIN, has_event ev EPOLLOUT)"

definition epoll_interest :: "epoll_data \<Rightarrow> int \<rightharpoonup> watch" where
  "epoll_interest d fd = map_option ep_watch (ep_set d fd)"

definition usable :: "(int \<Rightarrow> bool) \<Rightarrow> epoll_data \<Rightarrow> bool" where
  "usable valid d \<longleftrightarrow> (\<forall>fd. ep_set d fd \<noteq> None \<longrightarrow> valid fd \<and> fd \<noteq> epfd d)"

definition epoll_room :: "(int \<Rightarrow> bool) \<Rightarrow> int \<Rightarrow> room" where
  "epoll_room valid efd m fd \<longleftrightarrow> valid fd \<and> fd \<noteq> efd"

definition epoll_remove_data :: "(int \<Rightarrow> bool) \<Rightarrow> channel \<Rightarrow> epoll_data \<Rightarrow> (int \<times> epoll_data) res" where
  "epoll_remove_data valid c d = epollRemove valid (\<lambda>d. d) (\<lambda>d _. d) (\<lambda>_ _ d. Inr d)
     (c\<lparr>destroyCallback := Some TcpConnectionDestroy\<rparr>) d"

definition watch_mask :: "channel \<Rightarrow> 32 word" where
  "watch_mask c = (if has_event (ch_events c) ReadEvent then EPOLLIN else 0) OR
                  (if has_event (ch_events c) WriteEvent then EPOLLOUT else 0)"

lemma ep_watch_mask: "ep_watch (watch_mask c) = watch_of c"
  by (auto simp: ep_watch_def watch_mask_def watch_of_def EPOLLIN_def EPOLLOUT_def has_event_def)

text \<open>The operations on the data, with their conditions.\<close>

lemma epollAdd_eq:
  "epollAdd valid c d =
     (if valid (ch_fd c) \<and> ch_fd c \<noteq> epfd d \<and> ep_set d (ch_fd c) = None
      then Inr (0, d\<lparr>ep_set := (ep_set d)(ch_fd c \<mapsto> watch_mask c)\<rparr>) else Inl ProcessExit)"
  by (simp add: epollAdd_def epollCtl_def epoll_ctl_def watch_mask_def Let_def)

lemma epollModify_eq:
  "epollModify valid c d =
     (if valid (ch_fd c) \<and> ch_fd c \<noteq> epfd d \<and> ep_set d (ch_fd c) \<noteq> None
      then Inr (0, d\<lparr>ep_set := (ep_set d)(ch_fd c \<mapsto> watch_mask c)\<rparr>) else Inl ProcessExit)"
  by (simp add: epollModify_def epollCtl_def epoll_ctl_def watch_mask_def Let_def)

lemma epollRemove_eq:
  "epollRemove valid get put destroy c w =
     (if valid (ch_fd c) \<and> ch_fd c \<noteq> epfd (get w) \<and> ep_set (get w) (ch_fd c) \<noteq> None
      then case destroyCallback c of
             None \<Rightarrow> Inl NullDeref
           | Some f \<Rightarrow>
               bindR (destroy f (ch_arg c)
                 (put ((get w)\<lparr>ep_set := (ep_set (get w))(ch_fd c := None)\<rparr>) w)) (\<lambda>w. Inr (0, w))
      else Inl ProcessExit)"
  by (simp add: epollRemove_def epollCtl_def epoll_ctl_def Let_def)

lemma epoll_interest_None: "epoll_interest d fd = None \<longleftrightarrow> ep_set d fd = None"
  by (simp add: epoll_interest_def)

interpretation epollw: modifying_watcher "\<lambda>d. usable valid d \<and> epfd d = efd" epoll_interest
    "epoll_room valid efd" "epollAdd valid" "epoll_remove_data valid" "epollModify valid"
  for valid efd
proof unfold_locales
  fix d c
  assume inv: "usable valid d \<and> epfd d = efd"
  show "\<exists>d'. epollAdd valid c d = Inr (0, d') \<and> (usable valid d' \<and> epfd d' = efd) \<and>
      epoll_interest d' = watch_step (Add c) (epoll_interest d)"
    if "op_legal (epoll_room valid efd) (Add c) (epoll_interest d)"
    using that inv
    by (auto simp: epollAdd_eq epoll_room_def epoll_interest_None usable_def epoll_interest_def
        fun_eq_iff ep_watch_mask)
  show "\<exists>d'. epoll_remove_data valid c d = Inr (0, d') \<and> (usable valid d' \<and> epfd d' = efd) \<and>
      epoll_interest d' = watch_step (Remove c) (epoll_interest d)"
    if "op_legal (epoll_room valid efd) (Remove c) (epoll_interest d)"
    using that inv
    by (auto simp: epoll_remove_data_def epollRemove_eq usable_def epoll_interest_def fun_eq_iff)
  show "\<exists>d'. epollModify valid c d = Inr (0, d') \<and> (usable valid d' \<and> epfd d' = efd) \<and>
      epoll_interest d' = watch_step (Modify c) (epoll_interest d)"
    if "op_legal (epoll_room valid efd) (Modify c) (epoll_interest d)"
    using that inv
    by (auto simp: epollModify_eq usable_def epoll_interest_def fun_eq_iff ep_watch_mask)
qed

section \<open>Dispatching\<close>

definition event_calls :: "32 word \<times> int \<Rightarrow> (int \<times> 32 word) list" where
  "event_calls r =
     (case r of (events, fd) \<Rightarrow>
        if has_event events EPOLLERR \<or> has_event events EPOLLHUP then []
        else (if has_event events EPOLLIN then [(fd, ReadEvent)] else []) @
             (if has_event events EPOLLOUT then [(fd, WriteEvent)] else []))"

lemma event_calls_pair:
  "event_calls (events, fd) =
     (if has_event events EPOLLERR \<or> has_event events EPOLLHUP then []
      else (if has_event events EPOLLIN then [(fd, ReadEvent)] else []) @
           (if has_event events EPOLLOUT then [(fd, WriteEvent)] else []))"
  by (simp add: event_calls_def)

lemma epoll_loop_calls:
  "epoll_loop act es w = activate_all act (concat (map event_calls es)) w"
proof (induction es arbitrary: w)
  case (Cons e es)
  obtain ev fd where e: "e = (ev, fd)" by fastforce
  have "epoll_loop act es = activate_all act (concat (map event_calls es))"
    using Cons.IH by (simp add: fun_eq_iff)
  with e show ?case
    by (auto simp: event_calls_pair activate_all_append bindO_assoc)
qed simp

section \<open>Properties\<close>

text \<open>
  The epoll dispatcher watches what the loop asked for: from a new epoll descriptor, along any
  sequence that adds only usable descriptors not watched yet, and removes or modifies only watched
  ones, no operation ends the process and the kernel's list is the requested map.
\<close>

theorem epoll_watches_requests:
  assumes "epollInit efd = Inr d" and "ops_legal (epoll_room valid efd) ops Map.empty"
  shows "\<exists>d'. run_disp (epollAdd valid) (epoll_remove_data valid) (epollModify valid) ops d = Some d' \<and>
    epoll_interest d' = fold watch_step ops Map.empty"
proof -
  from assms(1) have "usable valid d \<and> epfd d = efd" "epoll_interest d = Map.empty"
    by (auto simp: epollInit_def usable_def epoll_interest_def fun_eq_iff split: if_splits)
  with epollw.run_law [of valid d efd ops] assms(2) show ?thesis by auto
qed

theorem epoll_watches_requests_witness:
  "let a = channelInit 5 ReadEvent None None None (LoopArg 0); c = writeEventEnable a True in
   \<exists>d. run_disp (epollAdd (\<lambda>fd. 0 \<le> fd)) (epoll_remove_data (\<lambda>fd. 0 \<le> fd)) (epollModify (\<lambda>fd. 0 \<le> fd))
     [Add a, Modify c] \<lparr>epfd = 4, ep_set = Map.empty, ep_events = True\<rparr> = Some d \<and>
     epoll_interest d = [5 \<mapsto> (True, True)]"
proof -
  let ?a = "channelInit 5 ReadEvent None None None (LoopArg 0)"
  let ?c = "writeEventEnable ?a True"
  have w: "watch_of ?a = (True, False)" "watch_of ?c = (True, True)"
    by (simp_all add: watch_of_def has_event_def channelInit_def writeEventEnable_def ReadEvent_def
        WriteEvent_def)
  have fd: "ch_fd ?a = 5" "ch_fd ?c = 5" by (simp_all add: channelInit_def)
  have i: "epollInit 4 = Inr \<lparr>epfd = 4, ep_set = Map.empty, ep_events = True\<rparr>" by (simp add: epollInit_def)
  have "ops_legal (epoll_room (\<lambda>fd. 0 \<le> fd) 4) [Add ?a, Modify ?c] Map.empty"
    by (simp add: w fd epoll_room_def)
  from epoll_watches_requests [OF i this] show ?thesis by (auto simp: Let_def w fd)
qed

text \<open>
  Asking the epoll dispatcher for what the kernel refuses ends the whole process: adding a
  descriptor that is watched or unusable, modifying or removing one that is not watched; and
  these are the only ways the three operations can fail (a removal also runs the destroy callback).
\<close>

theorem epoll_refusal_exits:
  "let ok = valid (ch_fd c) \<and> ch_fd c \<noteq> epfd d in
   (epollAdd valid c d = Inl ProcessExit) = (\<not> (ok \<and> epoll_interest d (ch_fd c) = None)) \<and>
   (epollModify valid c d = Inl ProcessExit) = (\<not> (ok \<and> epoll_interest d (ch_fd c) \<noteq> None)) \<and>
   (epoll_remove_data valid c d = Inl ProcessExit) = (\<not> (ok \<and> epoll_interest d (ch_fd c) \<noteq> None)) \<and>
   (\<forall>x. epollAdd valid c d = Inl x \<longrightarrow> x = ProcessExit) \<and>
   (\<forall>x. epollModify valid c d = Inl x \<longrightarrow> x = ProcessExit) \<and>
   (\<forall>x. epoll_remove_data valid c d = Inl x \<longrightarrow> x = ProcessExit)"
  by (auto simp: Let_def epollAdd_eq epollModify_eq epoll_remove_data_def epollRemove_eq epoll_interest_None)

theorem epoll_refusal_exits_witness:
  "let c = channelInit 5 ReadEvent None None None (LoopArg 0) in
   epollModify (\<lambda>fd. True) c \<lparr>epfd = 4, ep_set = Map.empty, ep_events = True\<rparr> = Inl ProcessExit"
  using epoll_refusal_exits [of "\<lambda>fd. True" "channelInit 5 ReadEvent None None None (LoopArg 0)"
      "\<lparr>epfd = 4, ep_set = Map.empty, ep_events = True\<rparr>"]
  by (simp add: Let_def epoll_interest_def)

text \<open>
  One round of the epoll dispatcher is the calls of \<open>eventActivate\<close> for the reported events in
  the order reported, reading before writing, with every descriptor that reports an error or a
  hang-up left out: for such a descriptor neither its read nor its write callback is ever called,
  so its connection is not closed.
\<close>

theorem epollDispatch_calls:
  "epollDispatch ready act w = activate_all act (concat (map event_calls (take EPOLL_MAX ready))) w \<and>
   (\<forall>fd ev. (fd, ev) \<in> set (concat (map event_calls (take EPOLL_MAX ready))) \<longrightarrow>
      (\<exists>events. (events, fd) \<in> set ready \<and> \<not> has_event events EPOLLERR \<and> \<not> has_event events EPOLLHUP))"
  by (auto simp: epollDispatch_def epoll_loop_calls event_calls_def split: if_splits dest: in_set_takeD)

theorem epollDispatch_calls_witness:
  "epollDispatch [(EPOLLIN, 5), (EPOLLIN OR EPOLLHUP, 6)]
     (\<lambda>fd ev w. Some (Inr (w @ [fd]))) [] = Some (Inr [5])"
proof -
  have "has_event EPOLLIN EPOLLERR = False" "has_event EPOLLIN EPOLLHUP = False"
    "has_event EPOLLIN EPOLLIN" "has_event EPOLLIN EPOLLOUT = False"
    "has_event (EPOLLIN OR EPOLLHUP) EPOLLHUP"
    by (simp_all add: has_event_def EPOLLIN_def EPOLLERR_def EPOLLHUP_def EPOLLOUT_def)
  then show ?thesis
    using epollDispatch_calls [of "[(EPOLLIN, 5), (EPOLLIN OR EPOLLHUP, 6)]"
        "\<lambda>fd ev w. Some (Inr (w @ [fd]))" "[] :: int list"]
    by (simp add: event_calls_def EPOLL_MAX_def)
qed

end
