(* ===== verification/ChannelMap.thy ===== *)
theory ChannelMap
  imports Channel
begin

text \<open>
  \<^verbatim>\<open>ReactorHTTP-C/ChannelMap.c\<close>: the array of channel pointers indexed by descriptor. A slot
  is \<open>None\<close> for NULL or \<open>Some\<close> of an address in the heap of channels; a NULL array is the empty
  list. \<^verbatim>\<open>malloc\<close> does not clear what it returns: the initial slots are an argument. The
  doubling loop of \<open>makeMapRoom\<close> need not end, so it is a partial function.
\<close>

section \<open>The code\<close>

record channel_map =
  map_size :: int
  map_list :: "nat option list"

type_synonym chan_heap = "nat \<Rightarrow> channel option"

definition channelMapInit :: "(nat \<Rightarrow> nat option) \<Rightarrow> int \<Rightarrow> channel_map" where
  "channelMapInit junk sz = \<lparr>map_size = sz, map_list = map junk [0..<nat sz]\<rparr>"

text \<open>The loop frees every channel in the first \<open>sz\<close> slots.\<close>

function clear_loop ::
  "int \<Rightarrow> int \<Rightarrow> nat option list \<Rightarrow> chan_heap \<Rightarrow> (nat option list \<times> chan_heap) res" where
  "clear_loop i sz ls h =
     (if i < sz then
        (if i < 0 \<or> int (length ls) \<le> i then Inl OutOfBounds
         else case ls ! nat i of
                None \<Rightarrow> clear_loop (i + 1) sz ls h
              | Some p \<Rightarrow>
                  if h p = None then Inl UseAfterFree
                  else clear_loop (i + 1) sz (ls[nat i := None]) (h(p := None)))
      else Inr (ls, h))"
  by pat_completeness auto
termination
  by (relation "measure (\<lambda>(i, sz, ls, h). nat (sz - i))") auto

declare clear_loop.simps [simp del]

text \<open>
  The guard of the source covers the loop only: the last assignment dereferences the pointer
  also when it is NULL.
\<close>

definition channelMapClear ::
  "channel_map option \<Rightarrow> chan_heap \<Rightarrow> (channel_map \<times> chan_heap) res" where
  "channelMapClear m h =
     (case m of
        None \<Rightarrow> Inl NullDeref
      | Some m \<Rightarrow>
          bindR (clear_loop 0 (map_size m) (map_list m) h) (\<lambda>(_, h').
          Inr (\<lparr>map_size = 0, map_list = []\<rparr>, h')))"

definition mul_i32 :: "int \<Rightarrow> int \<Rightarrow> int res" where
  "mul_i32 a b = (if - int_max - 1 \<le> a * b \<and> a * b \<le> int_max then Inr (a * b) else Inl IntOverflow)"

partial_function (option) grow_size :: "int \<Rightarrow> int \<Rightarrow> int res option" where
  "grow_size curSize newSize =
     (if curSize < newSize then
        (case mul_i32 curSize 2 of
           Inl e \<Rightarrow> Some (Inl e)
         | Inr c \<Rightarrow> grow_size c newSize)
      else Some (Inr curSize))"

definition makeMapRoom ::
  "(int \<Rightarrow> bool) \<Rightarrow> channel_map \<Rightarrow> int \<Rightarrow> int \<Rightarrow> (bool \<times> channel_map) res option" where
  "makeMapRoom mem m newSize unitSize =
     (if map_size m < newSize then
        (case grow_size (map_size m) newSize of
           None \<Rightarrow> None
         | Some (Inl e) \<Rightarrow> Some (Inl e)
         | Some (Inr curSize) \<Rightarrow>
             Some (bindR (mul_i32 curSize unitSize) (\<lambda>bytes.
               if \<not> mem bytes then Inr (False, m)
               else Inr (True, m\<lparr>map_list := map_list m @ replicate (nat (curSize - map_size m)) None,
                                 map_size := curSize\<rparr>))))
      else Some (Inr (True, m)))"

section \<open>Lemmas\<close>

definition map_inv :: "channel_map \<Rightarrow> bool" where
  "map_inv m \<longleftrightarrow> 0 < map_size m \<and> int (length (map_list m)) = map_size m"

lemma channelMapInit_inv: "0 < sz \<Longrightarrow> map_inv (channelMapInit junk sz)"
  by (simp add: map_inv_def channelMapInit_def)

text \<open>The channels the loop frees are those of the slots it visits.\<close>

fun slot_ptrs :: "nat option list \<Rightarrow> nat list" where
  "slot_ptrs [] = []"
| "slot_ptrs (None # ls) = slot_ptrs ls"
| "slot_ptrs (Some p # ls) = p # slot_ptrs ls"

definition free_all :: "nat set \<Rightarrow> chan_heap \<Rightarrow> chan_heap" where
  "free_all A h = (\<lambda>p. if p \<in> A then None else h p)"

lemma free_all_empty [simp]: "free_all {} h = h"
  and free_all_insert: "free_all (insert p A) h = free_all A (h(p := None))"
  by (auto simp: free_all_def fun_eq_iff)

lemma drop_Suc_update:
  "i < length ls \<Longrightarrow> drop (Suc i) (ls[i := x]) = drop (Suc i) ls"
  by simp

lemma clear_loop_frees:
  "0 \<le> i \<Longrightarrow> i \<le> int (length ls) \<Longrightarrow> distinct (slot_ptrs (drop (nat i) ls)) \<Longrightarrow>
   (\<forall>p \<in> set (slot_ptrs (drop (nat i) ls)). h p \<noteq> None) \<Longrightarrow>
   \<exists>ls'. clear_loop i (int (length ls)) ls h =
     Inr (ls', free_all (set (slot_ptrs (drop (nat i) ls))) h)"
proof (induction "nat (int (length ls) - i)" arbitrary: i ls h)
  case 0
  then show ?case by (simp add: clear_loop.simps [of i])
next
  case (Suc n)
  then have i: "i < int (length ls)" by simp
  then have lt: "nat i < length ls" using Suc.prems by simp
  have s: "nat (i + 1) = Suc (nat i)" using Suc.prems by simp
  have d: "drop (nat i) ls = ls ! nat i # drop (Suc (nat i)) ls"
    using lt by (simp add: Cons_nth_drop_Suc)
  show ?case
  proof (cases "ls ! nat i")
    case None
    with Suc.hyps(1) [of ls "i + 1" h] Suc.hyps(2) Suc.prems i s d show ?thesis
      by (simp add: clear_loop.simps [of i])
  next
    case (Some p)
    let ?ls = "ls[nat i := None]"
    let ?A = "set (slot_ptrs (drop (Suc (nat i)) ls))"
    have "p \<notin> ?A" "h p \<noteq> None" using Suc.prems(3,4) d Some by auto
    moreover from this have "\<forall>q \<in> ?A. (h(p := None)) q \<noteq> None" using Suc.prems(4) d Some by auto
    moreover have "drop (nat (i + 1)) ?ls = drop (Suc (nat i)) ls" using s by simp
    ultimately have "\<exists>ls'. clear_loop (i + 1) (int (length ?ls)) ?ls (h(p := None)) =
        Inr (ls', free_all ?A (h(p := None)))"
      using Suc.hyps(1) [of ?ls "i + 1" "h(p := None)"] Suc.hyps(2) Suc.prems i d Some by simp
    then show ?thesis
      using i \<open>h p \<noteq> None\<close> Some d Suc.prems(1) by (simp add: clear_loop.simps [of i] free_all_insert)
  qed
qed

text \<open>From a positive size the doubling ends at the first power that is large enough.\<close>

lemma grow_size_step:
  "0 < c \<Longrightarrow> c < n \<Longrightarrow> 2 * n \<le> int_max \<Longrightarrow> grow_size c n = grow_size (2 * c) n"
  by (subst grow_size.simps) (simp add: mul_i32_def int_max_def mult.commute)

lemma grow_size_stop: "n \<le> c \<Longrightarrow> grow_size c n = Some (Inr c)"
  by (subst grow_size.simps) simp

lemma grow_size_power:
  assumes "0 < c" and "2 * n \<le> int_max"
  shows "\<exists>k. grow_size c n = Some (Inr (c * 2 ^ k)) \<and> n \<le> c * 2 ^ k \<and>
    (\<forall>j < k. c * 2 ^ j < n)"
  using assms
proof (induction "nat (n - c)" arbitrary: c rule: less_induct)
  case less
  show ?case
  proof (cases "n \<le> c")
    case True
    then have "grow_size c n = Some (Inr (c * 2 ^ 0))" by (simp add: grow_size_stop)
    with True show ?thesis by (metis mult.right_neutral not_less_zero power_0)
  next
    case False
    with less.prems have "nat (n - 2 * c) < nat (n - c)" by simp
    from less.hyps [OF this] less.prems obtain k where
      k: "grow_size (2 * c) n = Some (Inr (2 * c * 2 ^ k))" "n \<le> 2 * c * 2 ^ k"
        "\<forall>j < k. 2 * c * 2 ^ j < n" by auto
    have "\<forall>j < Suc k. c * 2 ^ j < n"
    proof (intro allI impI)
      fix j assume "j < Suc k"
      with k(3) False show "c * 2 ^ j < n" by (cases j) (auto simp: algebra_simps)
    qed
    moreover have "grow_size c n = Some (Inr (c * 2 ^ Suc k))"
      using grow_size_step [of c n] less.prems False k(1) by (simp add: algebra_simps)
    ultimately show ?thesis using k(2) by (metis mult.left_commute mult.assoc power_Suc)
  qed
qed

lemma grow_size_Some_nonzero: "grow_size c n = Some r \<Longrightarrow> 0 < n \<longrightarrow> c \<noteq> 0"
proof (rule grow_size.raw_induct [where P = "\<lambda>c n r. 0 < n \<longrightarrow> c \<noteq> 0"])
  fix f c n r
  assume IH: "\<And>c n r. f c n = Some r \<Longrightarrow> 0 < n \<longrightarrow> c \<noteq> 0"
    and eq: "(if c < n then case mul_i32 c 2 of Inl e \<Rightarrow> Some (Inl e) | Inr c \<Rightarrow> f c n
              else Some (Inr c)) = Some r"
  show "0 < n \<longrightarrow> c \<noteq> 0"
  proof (intro impI notI)
    assume "0 < n" "c = 0"
    with eq have "f 0 n = Some r" by (simp add: mul_i32_def int_max_def)
    with IH \<open>0 < n\<close> show False by blast
  qed
qed

text \<open>A map doubled \<open>k\<close> times.\<close>

definition grown :: "channel_map \<Rightarrow> nat \<Rightarrow> channel_map" where
  "grown m k = \<lparr>map_size = map_size m * 2 ^ k,
     map_list = map_list m @ replicate (nat (map_size m * 2 ^ k - map_size m)) None\<rparr>"

lemma makeMapRoom_power:
  assumes "map_inv m" and "16 * newSize \<le> int_max" and "map_size m \<le> newSize"
  obtains k where "newSize \<le> map_size m * 2 ^ k" "\<forall>j < k. map_size m * 2 ^ j < newSize"
    "makeMapRoom mem m newSize 8 =
      Some (Inr (if k = 0 \<or> mem (8 * (map_size m * 2 ^ k)) then (True, grown m k) else (False, m)))"
proof -
  have pos: "0 < map_size m" using assms(1) by (simp add: map_inv_def)
  moreover have "2 * newSize \<le> int_max" using assms pos by (simp add: int_max_def)
  ultimately obtain k where
    k: "grow_size (map_size m) newSize = Some (Inr (map_size m * 2 ^ k))"
      "newSize \<le> map_size m * 2 ^ k" "\<forall>j < k. map_size m * 2 ^ j < newSize"
    using grow_size_power by blast
  show ?thesis
  proof (cases k)
    case 0
    with k(2) assms(3) have "newSize = map_size m" by simp
    then show ?thesis using that [of 0] by (simp add: makeMapRoom_def grown_def)
  next
    case (Suc j)
    with k(3) have lt: "map_size m * 2 ^ j < newSize" by simp
    moreover have "0 < map_size m * 2 ^ j" using pos by simp
    ultimately have "mul_i32 (map_size m * 2 ^ k) 8 = Inr (8 * (map_size m * 2 ^ k))"
      using assms(2) by (simp add: mul_i32_def Suc int_max_def)
    moreover have "map_size m < newSize" using k(3) Suc by (cases "newSize = map_size m") (use assms(3) in auto)
    ultimately show ?thesis using k that [of k] Suc by (cases m) (simp add: makeMapRoom_def grown_def)
  qed
qed

lemma makeMapRoom_roomy:
  assumes "map_inv m" and "16 * newSize \<le> int_max" and "map_size m \<le> newSize"
    and mem: "\<And>n. n \<le> 16 * newSize \<Longrightarrow> mem n"
  obtains k where "newSize \<le> map_size m * 2 ^ k" "\<forall>j < k. map_size m * 2 ^ j < newSize"
    "makeMapRoom mem m newSize 8 = Some (Inr (True, grown m k))"
proof (rule makeMapRoom_power [OF assms(1-3), of mem])
  fix k assume k: "newSize \<le> map_size m * 2 ^ k" "\<forall>j < k. map_size m * 2 ^ j < newSize"
    and r: "makeMapRoom mem m newSize 8 =
      Some (Inr (if k = 0 \<or> mem (8 * (map_size m * 2 ^ k)) then (True, grown m k) else (False, m)))"
  have "mem (8 * (map_size m * 2 ^ k))" if "k \<noteq> 0"
  proof -
    from that obtain j where j: "k = Suc j" by (cases k) auto
    with k(2) have "map_size m * 2 ^ j < newSize" by simp
    then show ?thesis by (intro mem) (simp add: j)
  qed
  then have "k = 0 \<or> mem (8 * (map_size m * 2 ^ k))" by blast
  with k r show thesis by (intro that [of k]) simp_all
qed

lemma grown_inv: "map_inv m \<Longrightarrow> map_inv (grown m k)"
  by (simp add: map_inv_def grown_def)

section \<open>Properties\<close>

text \<open>
  Growing a non-empty map to a size within reach returns: with memory, the new size is the
  old one doubled as often as needed to reach the request and no more, the old slots keep their
  pointers and every new slot is NULL; without memory the map is unchanged and the call says so.
\<close>

theorem makeMapRoom_grows:
  assumes "map_inv m" and "16 * newSize \<le> int_max" and "map_size m < newSize"
  shows "\<exists>k. newSize \<le> map_size m * 2 ^ k \<and> (\<forall>j < k. map_size m * 2 ^ j < newSize) \<and>
    makeMapRoom mem m newSize 8 =
      Some (Inr (if mem (8 * (map_size m * 2 ^ k))
        then (True, \<lparr>map_size = map_size m * 2 ^ k,
                     map_list = map_list m @ replicate (nat (map_size m * 2 ^ k - map_size m)) None\<rparr>)
        else (False, m)))"
proof -
  obtain k where k: "newSize \<le> map_size m * 2 ^ k" "\<forall>j < k. map_size m * 2 ^ j < newSize"
    "makeMapRoom mem m newSize 8 =
      Some (Inr (if k = 0 \<or> mem (8 * (map_size m * 2 ^ k)) then (True, grown m k) else (False, m)))"
    using makeMapRoom_power [OF assms(1,2)] assms(3) by (metis less_imp_le)
  moreover from k(1) assms(3) have "k \<noteq> 0" by (cases k) auto
  ultimately show ?thesis unfolding grown_def by auto
qed

theorem makeMapRoom_grows_witness:
  "\<exists>m'. makeMapRoom (\<lambda>_. True) (channelMapInit (\<lambda>_. None) 128) 300 8 = Some (Inr (True, m')) \<and>
     300 \<le> map_size m'"
proof -
  have "map_inv (channelMapInit (\<lambda>_. None) 128)" by (rule channelMapInit_inv) simp
  from makeMapRoom_grows [OF this, of 300 "\<lambda>_. True"] show ?thesis
    by (auto simp: channelMapInit_def int_max_def)
qed

text \<open>
  Once a map has been cleared it cannot be grown: the size is 0, and doubling 0 never
  reaches the request, so the call does not return.
\<close>

theorem makeMapRoom_after_clear_diverges:
  assumes "channelMapClear (Some m) h = Inr (m', h')" and "0 < newSize"
  shows "makeMapRoom mem m' newSize unitSize = None"
proof -
  from assms(1) have m': "map_size m' = 0" by (auto simp: channelMapClear_def res_simps)
  have "grow_size 0 newSize = None"
    using grow_size_Some_nonzero [of 0 newSize] assms(2) by (cases "grow_size 0 newSize") auto
  with m' assms(2) show ?thesis by (simp add: makeMapRoom_def)
qed

theorem makeMapRoom_after_clear_diverges_witness:
  "makeMapRoom (\<lambda>_. True) \<lparr>map_size = 0, map_list = []\<rparr> 5 8 = None"
proof -
  have "channelMapClear (Some (channelMapInit (\<lambda>_. None) 1)) (\<lambda>_. None) =
      Inr (\<lparr>map_size = 0, map_list = []\<rparr>, \<lambda>_. None)"
    by (simp add: channelMapClear_def channelMapInit_def clear_loop.simps)
  from makeMapRoom_after_clear_diverges [OF this] show ?thesis by simp
qed

text \<open>
  Clearing a map whose slots point to distinct live channels frees exactly those channels,
  each once, and leaves an empty map.
\<close>

theorem channelMapClear_frees:
  assumes "map_inv m" and "distinct (slot_ptrs (map_list m))"
    and "\<forall>p \<in> set (slot_ptrs (map_list m)). h p \<noteq> None"
  shows "channelMapClear (Some m) h =
    Inr (\<lparr>map_size = 0, map_list = []\<rparr>, free_all (set (slot_ptrs (map_list m))) h)"
  using clear_loop_frees [of 0 "map_list m" h] assms
  by (auto simp: channelMapClear_def map_inv_def)

theorem channelMapClear_frees_witness:
  "let c = channelInit 1 ReadEvent None None None (LoopArg 0) in
   channelMapClear (Some \<lparr>map_size = 2, map_list = [None, Some 7]\<rparr>) (Map.empty(7 \<mapsto> c)) =
     Inr (\<lparr>map_size = 0, map_list = []\<rparr>, free_all {7} (Map.empty(7 \<mapsto> c)))"
  using channelMapClear_frees [of "\<lparr>map_size = 2, map_list = [None, Some 7]\<rparr>"]
  by (simp add: Let_def map_inv_def)

end
