(* ===== verification/World.thy ===== *)
theory World
  imports HttpSession Epoll ChannelMap
begin

text \<open>
  The structures of \<^verbatim>\<open>EventLoop.h\<close>, \<^verbatim>\<open>TcpConnection.h\<close>, \<^verbatim>\<open>ThreadPool.h\<close>,
  \<^verbatim>\<open>WorkerThread.h\<close> and \<^verbatim>\<open>TcpServer.h\<close>, and the memory of the process: one map from
  addresses to structures per type, \<open>None\<close> where nothing is allocated. The kernel's side is the set
  of open descriptors, the bytes waiting in the wake-up sockets and the bytes sent to each
  connection. \<open>answers\<close> answers the system calls of the \<open>tick\<close>-th callback. The small
  \<^verbatim>\<open>malloc\<close>s whose result the source never checks succeed.
\<close>

section \<open>Structures\<close>

datatype ElemType = ADD | DELETE | MODIFY

record channel_element =
  el_type :: ElemType
  el_channel :: nat
  el_next :: "nat option"

text \<open>
  The dispatcher is always the epoll one. The mutex holds the thread that locked it; a pointer is
  an address, NULL is \<open>None\<close>.
\<close>

record event_loop =
  isQuit :: bool
  dispatcherData :: epoll_data
  el_head :: "nat option"
  el_tail :: "nat option"
  channelMap :: channel_map
  threadID :: nat
  threadName :: string
  loop_mutex :: "nat option"
  socketPair :: "int \<times> int"

record tcp_connection =
  conn_loop :: nat
  conn_channel :: nat
  readBuf :: "nat option"
  writeBuf :: "nat option"
  conn_name :: string
  conn_request :: "nat option"
  conn_response :: "nat option"

record worker_thread =
  wt_threadID :: nat
  wt_name :: string
  wt_loop :: "nat option"

record thread_pool =
  mainLoop :: nat
  isStart :: bool
  threadNum :: int
  workerThreads :: "worker_thread list"
  pool_index :: int

record listener =
  lfd :: int
  port :: "16 word"

record tcp_server =
  srv_threadNum :: int
  srv_mainLoop :: nat
  srv_threadPool :: thread_pool
  srv_listener :: "listener option"

section \<open>The process\<close>

text \<open>
  What the system calls of one callback answer: the bytes \<^verbatim>\<open>readv\<close> finds (\<open>None\<close>: it
  fails), what \<^verbatim>\<open>send\<close> accepts, what \<^verbatim>\<open>accept\<close> returns.
\<close>

record io_answer =
  io_avail :: "string option"
  io_send :: send_outcome
  io_accept :: int

record world =
  loops :: "nat \<Rightarrow> event_loop option"
  channels :: chan_heap
  conns :: "nat \<Rightarrow> tcp_connection option"
  bufs :: buf_heap
  reqs :: "nat \<Rightarrow> http_request option"
  resps :: "nat \<Rightarrow> http_response option"
  nodes :: "nat \<Rightarrow> channel_element option"
  servers :: "nat \<Rightarrow> tcp_server option"
  next_addr :: nat
  self :: nat
  open_fds :: "int \<Rightarrow> bool"
  inbox :: "int \<Rightarrow> string"
  sent :: "int \<Rightarrow> string"
  stales :: "stale list"
  answers :: "nat \<Rightarrow> io_answer"
  tick :: nat
  os :: env

text \<open>Reading through a pointer that may be NULL.\<close>

definition deref :: "('a \<Rightarrow> 'b option) \<Rightarrow> 'a option \<Rightarrow> 'b res" where
  "deref h p = (case p of None \<Rightarrow> Inl NullDeref | Some a \<Rightarrow> lookup h a)"

lemma deref_simps [simp]:
  "deref h None = Inl NullDeref"
  "deref h (Some a) = lookup h a"
  by (simp_all add: deref_def)

definition upd_loop :: "nat \<Rightarrow> (event_loop \<Rightarrow> event_loop) \<Rightarrow> world \<Rightarrow> world" where
  "upd_loop l f w = w\<lparr>loops := (loops w)(l := map_option f (loops w l))\<rparr>"

definition the_loop :: "world \<Rightarrow> nat \<Rightarrow> event_loop" where
  "the_loop w l = the (loops w l)"

text \<open>The loop's epoll data as a part of the world.\<close>

definition get_epoll :: "nat \<Rightarrow> world \<Rightarrow> epoll_data" where
  "get_epoll l w = dispatcherData (the_loop w l)"

definition put_epoll :: "nat \<Rightarrow> epoll_data \<Rightarrow> world \<Rightarrow> world" where
  "put_epoll l d w = upd_loop l (\<lambda>lp. lp\<lparr>dispatcherData := d\<rparr>) w"

text \<open>Closing a descriptor also takes it off every epoll list.\<close>

definition close_fd :: "int \<Rightarrow> world \<Rightarrow> world" where
  "close_fd fd w = w\<lparr>open_fds := (open_fds w)(fd := False),
     loops := (\<lambda>l. map_option (\<lambda>lp. lp\<lparr>dispatcherData :=
       (dispatcherData lp)\<lparr>ep_set := (ep_set (dispatcherData lp))(fd := None)\<rparr>\<rparr>) (loops w l))\<rparr>"

definition lift :: "'a res \<Rightarrow> 'a run" where
  "lift r = Some r"

lemma lift_simps [simp]: "lift (Inr x) = Some (Inr x)" "lift (Inl e) = Some (Inl e)"
  by (simp_all add: lift_def)

lemma upd_loop_simps [simp]:
  "loops (upd_loop l f w) l = map_option f (loops w l)"
  "l' \<noteq> l \<Longrightarrow> loops (upd_loop l f w) l' = loops w l'"
  "channels (upd_loop l f w) = channels w"
  "conns (upd_loop l f w) = conns w"
  "bufs (upd_loop l f w) = bufs w"
  "reqs (upd_loop l f w) = reqs w"
  "resps (upd_loop l f w) = resps w"
  "nodes (upd_loop l f w) = nodes w"
  "servers (upd_loop l f w) = servers w"
  "next_addr (upd_loop l f w) = next_addr w"
  "self (upd_loop l f w) = self w"
  "open_fds (upd_loop l f w) = open_fds w"
  "inbox (upd_loop l f w) = inbox w"
  "sent (upd_loop l f w) = sent w"
  "stales (upd_loop l f w) = stales w"
  "answers (upd_loop l f w) = answers w"
  "tick (upd_loop l f w) = tick w"
  "os (upd_loop l f w) = os w"
  by (simp_all add: upd_loop_def)

lemma upd_loop_upd_loop [simp]: "upd_loop l f (upd_loop l g w) = upd_loop l (\<lambda>lp. f (g lp)) w"
  by (simp add: upd_loop_def option.map_comp comp_def)

lemma upd_loop_id: "loops w l = Some lp \<Longrightarrow> f lp = lp \<Longrightarrow> upd_loop l f w = w"
  by (simp add: upd_loop_def fun_upd_idem)

section \<open>Small worlds\<close>

text \<open>A process that has allocated nothing, and a loop as \<open>eventLoopInitEx\<close> makes it.\<close>

definition blank_world :: "env \<Rightarrow> world" where
  "blank_world e = \<lparr>loops = Map.empty, channels = Map.empty, conns = Map.empty, bufs = Map.empty,
     reqs = Map.empty, resps = Map.empty, nodes = Map.empty, servers = Map.empty, next_addr = 0,
     self = 0, open_fds = (\<lambda>_. False), inbox = (\<lambda>_. []), sent = (\<lambda>_. []), stales = [],
     answers = (\<lambda>_. \<lparr>io_avail = None, io_send = SendErr, io_accept = -1\<rparr>), tick = 0, os = e\<rparr>"

definition fresh_loop :: event_loop where
  "fresh_loop = \<lparr>isQuit = False, dispatcherData = \<lparr>epfd = 3, ep_set = Map.empty, ep_events = True\<rparr>,
     el_head = None, el_tail = None, channelMap = channelMapInit (\<lambda>_. None) 128, threadID = 0,
     threadName = ''MainThread'', loop_mutex = None, socketPair = (4, 5)\<rparr>"

end
