(* ===== verification/EventLoop.thy ===== *)
theory EventLoop
  imports World
begin

text \<open>
  \<^verbatim>\<open>ReactorHTTP-C/EventLoop.c\<close>. A loop is an address \<open>l\<close> in the world. The functions a channel
  points to are called through two arguments, \<open>destroy\<close> and \<open>call\<close>, which the connection and server
  theories supply. Operations that may not return have results of type \<^typ>\<open>'a run\<close>.
\<close>

section \<open>The code\<close>

text \<open>Locking a mutex that is held blocks for ever in a single-threaded run.\<close>

definition mutex_lock :: "nat \<Rightarrow> world \<Rightarrow> world res" where
  "mutex_lock l w =
     bindR (lookup (loops w) l) (\<lambda>lp.
     if loop_mutex lp \<noteq> None then Inl Deadlock
     else Inr (upd_loop l (\<lambda>lp. lp\<lparr>loop_mutex := Some (self w)\<rparr>) w))"

definition mutex_unlock :: "nat \<Rightarrow> world \<Rightarrow> world" where
  "mutex_unlock l w = upd_loop l (\<lambda>lp. lp\<lparr>loop_mutex := None\<rparr>) w"

text \<open>The two ends of the wake-up socket: what is written to the first is read from the second.\<close>

definition taskWakeup :: "nat \<Rightarrow> world \<Rightarrow> world res" where
  "taskWakeup l w =
     bindR (lookup (loops w) l) (\<lambda>lp.
     let fd = snd (socketPair lp) in
     Inr (w\<lparr>inbox := (inbox w)(fd := inbox w fd @ ''hello'')\<rparr>))"

text \<open>Reading from the empty socket blocks.\<close>

definition readLocalMessage :: "nat \<Rightarrow> world \<Rightarrow> world run" where
  "readLocalMessage l w =
     bindO (lift (lookup (loops w) l)) (\<lambda>lp.
     let fd = snd (socketPair lp) in
     if inbox w fd = [] then None
     else Some (Inr (w\<lparr>inbox := (inbox w)(fd := drop 256 (inbox w fd))\<rparr>)))"

definition eventActivate ::
  "(callback \<Rightarrow> cb_arg \<Rightarrow> world \<Rightarrow> world run) \<Rightarrow> nat \<Rightarrow> int \<Rightarrow> 32 word \<Rightarrow> world \<Rightarrow> world run" where
  "eventActivate call l fd event w =
     (if fd < 0 then Some (Inr w)
      else
        bindO (lift (lookup (loops w) l)) (\<lambda>lp.
        if int (length (map_list (channelMap lp))) \<le> fd then Some (Inl OutOfBounds)
        else
          (let channel = map_list (channelMap lp) ! nat fd in
           bindO (lift (deref (channels w) channel)) (\<lambda>c.
           if ch_fd c \<noteq> fd then Some (Inl AssertFail)
           else
             bindO (if has_event event ReadEvent then
                      (case readCallback c of None \<Rightarrow> Some (Inr w) | Some f \<Rightarrow> call f (ch_arg c) w)
                    else Some (Inr w)) (\<lambda>w.
             if has_event event WriteEvent then
               bindO (lift (deref (channels w) channel)) (\<lambda>c.
               case writeCallback c of None \<Rightarrow> Some (Inr w) | Some f \<Rightarrow> call f (ch_arg c) w)
             else Some (Inr w))))))"

definition set_map :: "nat \<Rightarrow> channel_map \<Rightarrow> world \<Rightarrow> world" where
  "set_map l m w = upd_loop l (\<lambda>lp. lp\<lparr>channelMap := m\<rparr>) w"

definition eventLoopAdd :: "nat \<Rightarrow> nat \<Rightarrow> world \<Rightarrow> (int \<times> world) run" where
  "eventLoopAdd l channel w =
     bindO (lift (lookup (channels w) channel)) (\<lambda>c.
     bindO (lift (lookup (loops w) l)) (\<lambda>lp.
     let fd = ch_fd c; m = channelMap lp in
     bindO (if map_size m \<le> fd then makeMapRoom (e_mem (os w)) m fd 8 else Some (Inr (True, m))) (\<lambda>(ok, m).
     let w = set_map l m w in
     if \<not> ok then Some (Inr (-1, w))
     else if fd < 0 \<or> int (length (map_list m)) \<le> fd then Some (Inl OutOfBounds)
     else if map_list m ! nat fd = None then
       (let w = set_map l (m\<lparr>map_list := (map_list m)[nat fd := Some channel]\<rparr>) w in
        bindO (lift (epollAdd (open_fds w) c (get_epoll l w))) (\<lambda>(_, d).
        Some (Inr (0, put_epoll l d w))))
     else Some (Inr (0, w)))))"

definition eventLoopRemove ::
  "(callback \<Rightarrow> cb_arg \<Rightarrow> world \<Rightarrow> world res) \<Rightarrow> nat \<Rightarrow> nat \<Rightarrow> world \<Rightarrow> (int \<times> world) run" where
  "eventLoopRemove destroy l channel w =
     bindO (lift (lookup (channels w) channel)) (\<lambda>c.
     bindO (lift (lookup (loops w) l)) (\<lambda>lp.
     if map_size (channelMap lp) \<le> ch_fd c then Some (Inr (-1, w))
     else lift (epollRemove (open_fds w) (get_epoll l) (put_epoll l) destroy c w)))"

definition eventLoopModify :: "nat \<Rightarrow> nat \<Rightarrow> world \<Rightarrow> (int \<times> world) run" where
  "eventLoopModify l channel w =
     bindO (lift (lookup (channels w) channel)) (\<lambda>c.
     bindO (lift (lookup (loops w) l)) (\<lambda>lp.
     let fd = ch_fd c; m = channelMap lp in
     if fd < 0 \<or> int (length (map_list m)) \<le> fd then Some (Inl OutOfBounds)
     else if map_list m ! nat fd = None then Some (Inr (-1, w))
     else
       bindO (lift (epollModify (open_fds w) c (get_epoll l w))) (\<lambda>(ret, d).
       Some (Inr (ret, put_epoll l d w)))))"

text \<open>One task, and the walk over the linked list of tasks, which frees the nodes.\<close>

definition run_task ::
  "(callback \<Rightarrow> cb_arg \<Rightarrow> world \<Rightarrow> world res) \<Rightarrow> nat \<Rightarrow> ElemType \<Rightarrow> nat \<Rightarrow> world \<Rightarrow> world run" where
  "run_task destroy l ty channel w =
     bindO (case ty of
              ADD \<Rightarrow> eventLoopAdd l channel w
            | DELETE \<Rightarrow> eventLoopRemove destroy l channel w
            | MODIFY \<Rightarrow> eventLoopModify l channel w) (\<lambda>(_, w). Some (Inr w))"

partial_function (option) process_nodes ::
  "(callback \<Rightarrow> cb_arg \<Rightarrow> world \<Rightarrow> world res) \<Rightarrow> nat \<Rightarrow> nat option \<Rightarrow> world \<Rightarrow> world run" where
  "process_nodes destroy l head w =
     (case head of
        None \<Rightarrow> Some (Inr w)
      | Some n \<Rightarrow>
          bindO (lift (lookup (nodes w) n)) (\<lambda>e.
          bindO (run_task destroy l (el_type e) (el_channel e) w) (\<lambda>w.
          bindO (lift (lookup (nodes w) n)) (\<lambda>e.
          process_nodes destroy l (el_next e) (w\<lparr>nodes := (nodes w)(n := None)\<rparr>)))))"

definition eventLoopProcessTask ::
  "(callback \<Rightarrow> cb_arg \<Rightarrow> world \<Rightarrow> world res) \<Rightarrow> nat \<Rightarrow> world \<Rightarrow> world run" where
  "eventLoopProcessTask destroy l w =
     bindO (lift (mutex_lock l w)) (\<lambda>w.
     bindO (process_nodes destroy l (el_head (the_loop w l)) w) (\<lambda>w.
     Some (Inr (mutex_unlock l (upd_loop l (\<lambda>lp. lp\<lparr>el_head := None, el_tail := None\<rparr>) w)))))"

text \<open>The critical section of \<open>eventLoopAddTask\<close>, and the whole function.\<close>

definition push_task :: "nat \<Rightarrow> nat \<Rightarrow> ElemType \<Rightarrow> world \<Rightarrow> world res" where
  "push_task l channel ty w =
     (let n = next_addr w;
          w = w\<lparr>next_addr := Suc n,
                nodes := (nodes w)(n \<mapsto> \<lparr>el_type = ty, el_channel = channel, el_next = None\<rparr>)\<rparr> in
      case el_head (the_loop w l) of
        None \<Rightarrow> Inr (upd_loop l (\<lambda>lp. lp\<lparr>el_head := Some n, el_tail := Some n\<rparr>) w)
      | Some _ \<Rightarrow>
          bindR (deref (nodes w) (el_tail (the_loop w l))) (\<lambda>e.
          let w = w\<lparr>nodes := (nodes w)(the (el_tail (the_loop w l)) \<mapsto> e\<lparr>el_next := Some n\<rparr>)\<rparr> in
          Inr (upd_loop l (\<lambda>lp. lp\<lparr>el_tail := Some n\<rparr>) w)))"

definition eventLoopAddTask ::
  "(callback \<Rightarrow> cb_arg \<Rightarrow> world \<Rightarrow> world res) \<Rightarrow> nat \<Rightarrow> nat \<Rightarrow> ElemType \<Rightarrow> world \<Rightarrow> world run" where
  "eventLoopAddTask destroy l channel ty w =
     bindO (lift (mutex_lock l w)) (\<lambda>w.
     bindO (lift (push_task l channel ty w)) (\<lambda>w.
     let w = mutex_unlock l w in
     if threadID (the_loop w l) = self w then eventLoopProcessTask destroy l w
     else lift (taskWakeup l w)))"

definition destroyChannel :: "nat \<Rightarrow> nat \<Rightarrow> world \<Rightarrow> world res" where
  "destroyChannel l channel w =
     bindR (lookup (channels w) channel) (\<lambda>c.
     bindR (lookup (loops w) l) (\<lambda>lp.
     let fd = ch_fd c; m = channelMap lp in
     if fd < 0 \<or> int (length (map_list m)) \<le> fd then Inl OutOfBounds
     else
       (let w = set_map l (m\<lparr>map_list := (map_list m)[nat fd := None]\<rparr>) w; w = close_fd fd w in
        Inr (w\<lparr>channels := (channels w)(channel := None)\<rparr>))))"

text \<open>
  \<open>efd\<close> and \<open>pair\<close> are the results of \<^verbatim>\<open>epoll_create\<close> and \<^verbatim>\<open>socketpair\<close>, \<open>junk\<close> what
  the unitialised slots of the channel map hold.
\<close>

definition eventLoopInitEx ::
  "(callback \<Rightarrow> cb_arg \<Rightarrow> world \<Rightarrow> world res) \<Rightarrow> int \<Rightarrow> (int \<times> int) option \<Rightarrow> (nat \<Rightarrow> nat option) \<Rightarrow>
   string option \<Rightarrow> world \<Rightarrow> (nat \<times> world) run" where
  "eventLoopInitEx destroy efd pair junk name w =
     bindO (lift (strcpy_into 32 (case name of None \<Rightarrow> ''MainThread'' | Some s \<Rightarrow> s))) (\<lambda>nm.
     bindO (lift (epollInit efd)) (\<lambda>d.
     case pair of
       None \<Rightarrow> Some (Inl ProcessExit)
     | Some (s0, s1) \<Rightarrow>
         (let l = next_addr w; ch = Suc l;
              loop = \<lparr>isQuit = False, dispatcherData = d, el_head = None, el_tail = None,
                      channelMap = channelMapInit junk 128, threadID = self w, threadName = nm,
                      loop_mutex = None, socketPair = (s0, s1)\<rparr>;
              channel = channelInit s1 ReadEvent (Some ReadLocalMessage) None None (LoopArg l);
              w = w\<lparr>next_addr := Suc ch, loops := (loops w)(l \<mapsto> loop),
                    channels := (channels w)(ch \<mapsto> channel),
                    open_fds := (open_fds w)(efd := True, s0 := True, s1 := True)\<rparr> in
          bindO (eventLoopAddTask destroy l ch ADD w) (\<lambda>w. Some (Inr (l, w))))))"

definition eventLoopInit ::
  "(callback \<Rightarrow> cb_arg \<Rightarrow> world \<Rightarrow> world res) \<Rightarrow> int \<Rightarrow> (int \<times> int) option \<Rightarrow> (nat \<Rightarrow> nat option) \<Rightarrow>
   world \<Rightarrow> (nat \<times> world) run" where
  "eventLoopInit destroy efd pair junk w = eventLoopInitEx destroy efd pair junk None w"

text \<open>
  \<open>reports k\<close> is what the \<open>k\<close>-th \<^verbatim>\<open>epoll_wait\<close> reports. A loop called from the wrong thread
  returns at once.
\<close>

definition loop_round ::
  "(callback \<Rightarrow> cb_arg \<Rightarrow> world \<Rightarrow> world res) \<Rightarrow> (callback \<Rightarrow> cb_arg \<Rightarrow> world \<Rightarrow> world run) \<Rightarrow> nat \<Rightarrow>
   (32 word \<times> int) list \<Rightarrow> world \<Rightarrow> world run" where
  "loop_round destroy call l report w =
     bindO (epollDispatch report (eventActivate call l) w) (eventLoopProcessTask destroy l)"

partial_function (option) run_loop ::
  "(callback \<Rightarrow> cb_arg \<Rightarrow> world \<Rightarrow> world res) \<Rightarrow> (callback \<Rightarrow> cb_arg \<Rightarrow> world \<Rightarrow> world run) \<Rightarrow> nat \<Rightarrow>
   (nat \<Rightarrow> (32 word \<times> int) list) \<Rightarrow> nat \<Rightarrow> world \<Rightarrow> world run" where
  "run_loop destroy call l reports k w =
     (if isQuit (the_loop w l) then Some (Inr w)
      else bindO (loop_round destroy call l (reports k) w) (run_loop destroy call l reports (Suc k)))"

definition eventLoopRun ::
  "(callback \<Rightarrow> cb_arg \<Rightarrow> world \<Rightarrow> world res) \<Rightarrow> (callback \<Rightarrow> cb_arg \<Rightarrow> world \<Rightarrow> world run) \<Rightarrow> nat option \<Rightarrow>
   (nat \<Rightarrow> (32 word \<times> int) list) \<Rightarrow> world \<Rightarrow> (int \<times> world) run" where
  "eventLoopRun destroy call loop reports w =
     (case loop of
        None \<Rightarrow> Some (Inl AssertFail)
      | Some l \<Rightarrow>
          bindO (lift (lookup (loops w) l)) (\<lambda>lp.
          if threadID lp \<noteq> self w then Some (Inr (-1, w))
          else bindO (run_loop destroy call l reports 0 w) (\<lambda>w. Some (Inr (0, w)))))"

section \<open>The task queue\<close>

text \<open>
  \<open>set_queue\<close> replaces everything the queue of a loop consists of: the nodes, the two ends, the
  mutex and the allocator's counter. The operations on channels do not look at these.
\<close>

definition set_queue ::
  "nat \<Rightarrow> (nat \<Rightarrow> channel_element option) \<Rightarrow> nat option \<Rightarrow> nat option \<Rightarrow> nat option \<Rightarrow> nat \<Rightarrow> world \<Rightarrow> world" where
  "set_queue l ns h t m k w =
     (upd_loop l (\<lambda>lp. lp\<lparr>el_head := h, el_tail := t, loop_mutex := m\<rparr>) w)\<lparr>nodes := ns, next_addr := k\<rparr>"

lemma lift_map: "lift (map_res f r) = map_run f (lift r)"
  by (cases r) simp_all

lemma set_queue_simps [simp]:
  "loops (set_queue l ns h t m k w) l = map_option (\<lambda>lp. lp\<lparr>el_head := h, el_tail := t, loop_mutex := m\<rparr>) (loops w l)"
  "l' \<noteq> l \<Longrightarrow> loops (set_queue l ns h t m k w) l' = loops w l'"
  "channels (set_queue l ns h t m k w) = channels w"
  "conns (set_queue l ns h t m k w) = conns w"
  "bufs (set_queue l ns h t m k w) = bufs w"
  "reqs (set_queue l ns h t m k w) = reqs w"
  "resps (set_queue l ns h t m k w) = resps w"
  "nodes (set_queue l ns h t m k w) = ns"
  "servers (set_queue l ns h t m k w) = servers w"
  "next_addr (set_queue l ns h t m k w) = k"
  "self (set_queue l ns h t m k w) = self w"
  "open_fds (set_queue l ns h t m k w) = open_fds w"
  "inbox (set_queue l ns h t m k w) = inbox w"
  "sent (set_queue l ns h t m k w) = sent w"
  "stales (set_queue l ns h t m k w) = stales w"
  "answers (set_queue l ns h t m k w) = answers w"
  "tick (set_queue l ns h t m k w) = tick w"
  "os (set_queue l ns h t m k w) = os w"
  by (simp_all add: set_queue_def)

lemma set_queue_set_queue [simp]:
  "set_queue l ns h t m k (set_queue l ns' h' t' m' k' w) = set_queue l ns h t m k w"
  by (simp add: set_queue_def upd_loop_def option.map_comp comp_def)

lemma set_queue_id:
  "loops w l = Some lp \<Longrightarrow> set_queue l (nodes w) (el_head lp) (el_tail lp) (loop_mutex lp) (next_addr w) w = w"
  by (simp add: set_queue_def upd_loop_def fun_upd_idem)

lemma upd_loop_set_queue:
  assumes "\<And>lp. f (lp\<lparr>el_head := h, el_tail := t, loop_mutex := m\<rparr>) = (f lp)\<lparr>el_head := h, el_tail := t, loop_mutex := m\<rparr>"
  shows "upd_loop l' f (set_queue l ns h t m k w) = set_queue l ns h t m k (upd_loop l' f w)"
proof (cases "l' = l")
  case True
  have "(\<lambda>lp. f (lp\<lparr>el_head := h, el_tail := t, loop_mutex := m\<rparr>)) =
      (\<lambda>lp. (f lp)\<lparr>el_head := h, el_tail := t, loop_mutex := m\<rparr>)"
    using assms by auto
  with True show ?thesis
    by (simp add: set_queue_def upd_loop_def option.map_comp comp_def)
next
  case False
  then show ?thesis by (simp add: set_queue_def upd_loop_def fun_upd_twist)
qed

lemma set_map_set_queue:
  "set_map l' mp (set_queue l ns h t m k w) = set_queue l ns h t m k (set_map l' mp w)"
  unfolding set_map_def by (rule upd_loop_set_queue) simp

lemma put_epoll_set_queue:
  "put_epoll l' d (set_queue l ns h t m k w) = set_queue l ns h t m k (put_epoll l' d w)"
  unfolding put_epoll_def by (rule upd_loop_set_queue) simp

lemma close_fd_set_queue:
  "close_fd fd (set_queue l ns h t m k w) = set_queue l ns h t m k (close_fd fd w)"
  by (rule world.equality; cases "loops w l")
    (simp_all add: close_fd_def set_queue_def upd_loop_def option.map_comp comp_def fun_eq_iff)

lemma get_epoll_set_queue:
  "loops w l' \<noteq> None \<Longrightarrow> get_epoll l' (set_queue l ns h t m k w) = get_epoll l' w"
  by (cases "l' = l") (auto simp: get_epoll_def the_loop_def)

text \<open>What the operations on channels see of a loop is not in its queue.\<close>

lemma lookup_loop_set_queue:
  "lookup (loops (set_queue l ns h t m k w)) l' =
     map_res (\<lambda>lp. if l' = l then lp\<lparr>el_head := h, el_tail := t, loop_mutex := m\<rparr> else lp) (lookup (loops w) l')"
  by (cases "l' = l"; cases "loops w l'") simp_all

lemma eventLoopAdd_set_queue:
  "eventLoopAdd l' ch (set_queue l ns h t m k w) =
     map_run (map_prod id (set_queue l ns h t m k)) (eventLoopAdd l' ch w)"
proof (cases "loops w l'")
  case None
  then show ?thesis
    by (cases "channels w ch") (simp_all add: eventLoopAdd_def lookup_loop_set_queue)
next
  case (Some lp)
  let ?lp = "if l' = l then lp\<lparr>el_head := h, el_tail := t, loop_mutex := m\<rparr> else lp"
  have lp: "loops (set_queue l ns h t m k w) l' = Some ?lp" "channelMap ?lp = channelMap lp"
    using Some by auto
  have g: "get_epoll l' (set_queue l ns h t m k (set_map l' mp (set_map l' mp' w))) =
      get_epoll l' (set_map l' mp (set_map l' mp' w))" for mp mp'
    using Some by (intro get_epoll_set_queue) (simp add: set_map_def)
  show ?thesis
    using Some lp
    by (cases "channels w ch")
      (simp_all add: eventLoopAdd_def Let_def map_run_bindO set_map_set_queue put_epoll_set_queue g
        split_def if_distrib [of "map_run f" for f] cong: if_cong)
qed

lemma eventLoopModify_set_queue:
  "eventLoopModify l' ch (set_queue l ns h t m k w) =
     map_run (map_prod id (set_queue l ns h t m k)) (eventLoopModify l' ch w)"
proof (cases "loops w l'")
  case None
  then show ?thesis
    by (cases "channels w ch") (simp_all add: eventLoopModify_def lookup_loop_set_queue)
next
  case (Some lp)
  let ?lp = "if l' = l then lp\<lparr>el_head := h, el_tail := t, loop_mutex := m\<rparr> else lp"
  have lp: "loops (set_queue l ns h t m k w) l' = Some ?lp" "channelMap ?lp = channelMap lp"
    using Some by auto
  have g: "get_epoll l' (set_queue l ns h t m k w) = get_epoll l' w"
    using Some by (intro get_epoll_set_queue) simp
  show ?thesis
    using Some lp g
    by (cases "channels w ch")
      (auto simp: eventLoopModify_def Let_def map_run_bindO put_epoll_set_queue split_def)
qed

lemma destroyChannel_set_queue:
  "destroyChannel l' ch (set_queue l ns h t m k w) = map_res (set_queue l ns h t m k) (destroyChannel l' ch w)"
proof (cases "loops w l'")
  case None
  then show ?thesis
    by (cases "channels w ch") (simp_all add: destroyChannel_def lookup_loop_set_queue bindR_map_res)
next
  case (Some lp)
  let ?lp = "if l' = l then lp\<lparr>el_head := h, el_tail := t, loop_mutex := m\<rparr> else lp"
  have lp: "loops (set_queue l ns h t m k w) l' = Some ?lp" "channelMap ?lp = channelMap lp"
    using Some by auto
  have c: "set_queue l ns h t m k w'\<lparr>channels := cs\<rparr> = set_queue l ns h t m k (w'\<lparr>channels := cs\<rparr>)"
    for w' cs by (simp add: set_queue_def upd_loop_def)
  show ?thesis
    using Some lp
    by (cases "channels w ch")
      (simp_all add: destroyChannel_def Let_def set_map_set_queue close_fd_set_queue c
        if_distrib [of "map_res f" for f] cong: if_cong)
qed

text \<open>A destroy callback that does not look at queues either.\<close>

definition queue_blind :: "(callback \<Rightarrow> cb_arg \<Rightarrow> world \<Rightarrow> world res) \<Rightarrow> bool" where
  "queue_blind destroy \<longleftrightarrow> (\<forall>f a l ns h t m k w.
     destroy f a (set_queue l ns h t m k w) = map_res (set_queue l ns h t m k) (destroy f a w))"

lemma epollRemove_through:
  assumes "get (T w) = get w" and "\<And>d. put d (T w) = T (put d w)"
    and "\<And>f a w. destroy f a (T w) = map_res T (destroy f a w)"
  shows "epollRemove valid get put destroy c (T w) =
    map_res (map_prod id T) (epollRemove valid get put destroy c w)"
  using assms
  by (auto simp: epollRemove_eq bindR_map_res map_res_bindR split: option.split)

lemma eventLoopRemove_set_queue:
  assumes "queue_blind destroy"
  shows "eventLoopRemove destroy l' ch (set_queue l ns h t m k w) =
     map_run (map_prod id (set_queue l ns h t m k)) (eventLoopRemove destroy l' ch w)"
proof (cases "loops w l'")
  case None
  then show ?thesis
    by (cases "channels w ch") (simp_all add: eventLoopRemove_def lookup_loop_set_queue)
next
  case (Some lp)
  let ?lp = "if l' = l then lp\<lparr>el_head := h, el_tail := t, loop_mutex := m\<rparr> else lp"
  let ?T = "set_queue l ns h t m k"
  have lp: "loops (?T w) l' = Some ?lp" "channelMap ?lp = channelMap lp"
    using Some by auto
  have e: "epollRemove v (get_epoll l') (put_epoll l') destroy c (?T w) =
      map_res (map_prod id ?T) (epollRemove v (get_epoll l') (put_epoll l') destroy c w)" for v c
    using assms Some
    by (intro epollRemove_through get_epoll_set_queue put_epoll_set_queue) (auto simp: queue_blind_def)
  show ?thesis
    using Some lp(2)
    by (cases "channels w ch")
      (simp_all only: eventLoopRemove_def set_queue_simps lp(1) lookup_simps lift_simps bindO_simps
        if_distrib [of "map_run f" for f] map_run_simps e lift_map map_prod_simp id_apply)
qed

lemma run_task_set_queue:
  "queue_blind destroy \<Longrightarrow> run_task destroy l' ty ch (set_queue l ns h t m k w) =
     map_run (set_queue l ns h t m k) (run_task destroy l' ty ch w)"
  by (cases ty) (simp_all add: run_task_def eventLoopAdd_set_queue eventLoopModify_set_queue
      eventLoopRemove_set_queue bindO_map_run map_run_bindO split_def)

section \<open>The queue as a list\<close>

text \<open>The nodes from a pointer to the end, and the tasks in them.\<close>

fun chain :: "(nat \<Rightarrow> channel_element option) \<Rightarrow> nat option \<Rightarrow> nat list \<Rightarrow> bool" where
  "chain ns p [] \<longleftrightarrow> p = None"
| "chain ns p (n # ps) \<longleftrightarrow> p = Some n \<and> (\<exists>e. ns n = Some e \<and> chain ns (el_next e) ps)"

definition node_task :: "(nat \<Rightarrow> channel_element option) \<Rightarrow> nat \<Rightarrow> ElemType \<times> nat" where
  "node_task ns n = (case ns n of None \<Rightarrow> (ADD, 0) | Some e \<Rightarrow> (el_type e, el_channel e))"

text \<open>\<open>queued w l ps ts\<close>: the queue of \<open>l\<close> consists of the nodes \<open>ps\<close> with the tasks \<open>ts\<close>.\<close>

definition queued :: "world \<Rightarrow> nat \<Rightarrow> nat list \<Rightarrow> (ElemType \<times> nat) list \<Rightarrow> bool" where
  "queued w l ps ts \<longleftrightarrow>
     (case loops w l of
        None \<Rightarrow> False
      | Some lp \<Rightarrow> chain (nodes w) (el_head lp) ps \<and> distinct ps \<and> (\<forall>n \<in> set ps. n < next_addr w) \<and>
          (ps \<noteq> [] \<longrightarrow> el_tail lp = Some (last ps)) \<and> ts = map (node_task (nodes w)) ps)"

lemma queued_cong:
  "loops w' = loops w \<Longrightarrow> nodes w' = nodes w \<Longrightarrow> next_addr w' = next_addr w \<Longrightarrow>
   queued w' l ps ts = queued w l ps ts"
  by (simp add: queued_def cong: option.case_cong)

fun run_tasks ::
  "(callback \<Rightarrow> cb_arg \<Rightarrow> world \<Rightarrow> world res) \<Rightarrow> nat \<Rightarrow> (ElemType \<times> nat) list \<Rightarrow> world \<Rightarrow> world run" where
  "run_tasks destroy l [] w = Some (Inr w)"
| "run_tasks destroy l ((ty, ch) # ts) w = bindO (run_task destroy l ty ch w) (run_tasks destroy l ts)"

lemma run_tasks_set_queue:
  "queue_blind destroy \<Longrightarrow> run_tasks destroy l' ts (set_queue l ns h t m k w) =
     map_run (set_queue l ns h t m k) (run_tasks destroy l' ts w)"
proof (induction ts arbitrary: w)
  case (Cons t ts)
  then show ?case
    by (cases t) (simp add: run_task_set_queue bindO_map_run map_run_bindO)
qed simp

definition drop_nodes :: "nat list \<Rightarrow> (nat \<Rightarrow> channel_element option) \<Rightarrow> (nat \<Rightarrow> channel_element option)" where
  "drop_nodes ps ns = (\<lambda>n. if n \<in> set ps then None else ns n)"

lemma chain_upd: "n \<notin> set ps \<Longrightarrow> chain (ns(n := x)) p ps = chain ns p ps"
  by (induction ps arbitrary: p) auto

lemma node_task_upd: "n \<notin> set ps \<Longrightarrow> map (node_task (ns(n := x))) ps = map (node_task ns) ps"
  by (auto simp: node_task_def)

lemma drop_nodes_Cons: "drop_nodes ps (ns(n := None)) = drop_nodes (n # ps) ns"
  by (auto simp: drop_nodes_def)

text \<open>The walk runs the tasks of its nodes in order and frees the nodes.\<close>

lemma process_nodes_tasks:
  assumes blind: "queue_blind destroy" and "chain (nodes w) p ps" and "distinct ps"
    and "set_queue l (nodes w) h t m (next_addr w) w = w"
  shows "process_nodes destroy l p w =
    map_run (set_queue l (drop_nodes ps (nodes w)) h t m (next_addr w))
      (run_tasks destroy l (map (node_task (nodes w)) ps) w)"
  using assms(2-)
proof (induction ps arbitrary: p w)
  case Nil
  then show ?case by (subst process_nodes.simps) (simp add: drop_nodes_def)
next
  case (Cons n ps)
  let ?q = "\<lambda>ns. set_queue l ns h t m (next_addr w)"
  from Cons.prems obtain e where e: "p = Some n" "nodes w n = Some e" "chain (nodes w) (el_next e) ps"
      "n \<notin> set ps" "distinct ps" by auto
  let ?t = "run_task destroy l (el_type e) (el_channel e) w"
  let ?ns = "(nodes w)(n := None)"
  have t: "?t = map_run (?q (nodes w)) ?t"
    using run_task_set_queue [OF blind, of l "el_type e" "el_channel e" l "nodes w" h t m "next_addr w" w]
      Cons.prems(3) by simp
  have step: "process_nodes destroy l (el_next e) ((?q (nodes w) w1)\<lparr>nodes := ?ns\<rparr>) =
      map_run (?q (drop_nodes (n # ps) (nodes w))) (run_tasks destroy l (map (node_task (nodes w)) ps) w1)"
    for w1
  proof -
    let ?w = "?q ?ns w1"
    have "chain (nodes ?w) (el_next e) ps" "set_queue l (nodes ?w) h t m (next_addr ?w) ?w = ?w"
      using e(3,4) by (simp_all add: chain_upd)
    from Cons.IH [OF this(1) e(5) this(2)]
    have "process_nodes destroy l (el_next e) ?w =
        map_run (?q (drop_nodes ps ?ns)) (run_tasks destroy l (map (node_task ?ns) ps) ?w)"
      unfolding set_queue_simps .
    moreover have "(?q (nodes w) w1)\<lparr>nodes := ?ns\<rparr> = ?w" by (simp add: set_queue_def)
    ultimately show ?thesis
      by (simp add: node_task_upd [OF e(4)] drop_nodes_Cons run_tasks_set_queue [OF blind] map_run_map_run)
  qed
  have "process_nodes destroy l p w =
      bindO ?t (\<lambda>w. bindO (lift (lookup (nodes w) n)) (\<lambda>e.
        process_nodes destroy l (el_next e) (w\<lparr>nodes := (nodes w)(n := None)\<rparr>)))"
    using e by (subst process_nodes.simps) simp
  also have "\<dots> = bindO ?t (\<lambda>w1. process_nodes destroy l (el_next e) ((?q (nodes w) w1)\<lparr>nodes := ?ns\<rparr>))"
    by (subst t) (simp add: bindO_map_run e(2))
  also have "\<dots> = map_run (?q (drop_nodes (n # ps) (nodes w)))
      (run_tasks destroy l (map (node_task (nodes w)) (n # ps)) w)"
    using e(2) by (simp add: step node_task_def map_run_bindO)
  finally show ?case .
qed

text \<open>A batch of tasks: lock, walk, empty the queue, unlock.\<close>

lemma mutex_lock_free:
  assumes "loops w l = Some lp" and "loop_mutex lp = None"
  shows "mutex_lock l w =
    Inr (set_queue l (nodes w) (el_head lp) (el_tail lp) (Some (self w)) (next_addr w) w)"
  using assms by (simp add: mutex_lock_def set_queue_def upd_loop_def)

lemma empty_queue_unlock:
  "mutex_unlock l (upd_loop l (\<lambda>lp. lp\<lparr>el_head := None, el_tail := None\<rparr>) (set_queue l ns h t m k w)) =
     set_queue l ns None None None k w"
  by (simp add: mutex_unlock_def set_queue_def upd_loop_def option.map_comp comp_def)

lemma queuedD:
  assumes "queued w l ps ts"
  obtains lp where "loops w l = Some lp" "chain (nodes w) (el_head lp) ps" "distinct ps"
    "\<forall>n \<in> set ps. n < next_addr w" "ps \<noteq> [] \<longrightarrow> el_tail lp = Some (last ps)"
    "ts = map (node_task (nodes w)) ps"
  using assms by (auto simp: queued_def split: option.splits)

lemma processTask_tasks:
  assumes blind: "queue_blind destroy" and q: "queued w l ps ts" and free: "loop_mutex (the_loop w l) = None"
  shows "eventLoopProcessTask destroy l w =
    map_run (set_queue l (drop_nodes ps (nodes w)) None None None (next_addr w)) (run_tasks destroy l ts w)"
proof -
  from q obtain lp where lp: "loops w l = Some lp" "chain (nodes w) (el_head lp) ps" "distinct ps"
      "ts = map (node_task (nodes w)) ps" by (rule queuedD)
  let ?w = "set_queue l (nodes w) (el_head lp) (el_tail lp) (Some (self w)) (next_addr w) w"
  have hd: "el_head (the_loop ?w l) = el_head lp" using lp(1) by (simp add: the_loop_def)
  have ch: "chain (nodes ?w) (el_head lp) ps" using lp(2) by simp
  have "process_nodes destroy l (el_head lp) ?w =
      map_run (set_queue l (drop_nodes ps (nodes w)) (el_head lp) (el_tail lp) (Some (self w)) (next_addr w))
        (run_tasks destroy l ts ?w)"
    using process_nodes_tasks [OF blind ch lp(3), of l "el_head lp" "el_tail lp" "Some (self w)"] lp(4) by simp
  with lp(1) free show ?thesis
    by (simp add: eventLoopProcessTask_def mutex_lock_free [OF lp(1)] the_loop_def hd [unfolded the_loop_def]
        bindO_map_run empty_queue_unlock run_tasks_set_queue [OF blind] map_run_map_run)
      (simp add: map_run_def)
qed

lemma chain_snoc:
  assumes "chain ns p ps" and "distinct ps" and "n \<notin> set ps" and "ps \<noteq> []"
    and "ns (last ps) = Some e"
  shows "chain (ns(last ps \<mapsto> e\<lparr>el_next := Some n\<rparr>, n \<mapsto> \<lparr>el_type = ty, el_channel = ch, el_next = None\<rparr>)) p (ps @ [n])"
  using assms
proof (induction ps arbitrary: p)
  case (Cons a ps)
  show ?case
  proof (cases "ps = []")
    case True
    with Cons.prems show ?thesis by auto
  next
    case False
    with Cons.prems have "last ps \<noteq> a" "n \<noteq> a" using last_in_set by fastforce+
    with Cons False show ?thesis by auto
  qed
qed simp

lemma chain_nodes: "chain ns p ps \<Longrightarrow> a \<in> set ps \<Longrightarrow> ns a \<noteq> None"
  by (induction ps arbitrary: p) auto

text \<open>Adding a task appends it to the queue and touches nothing else.\<close>

lemma push_task_appends:
  assumes q: "queued w l ps ts"
  obtains w' ns h where "push_task l ch ty w = Inr w'"
    "queued w' l (ps @ [next_addr w]) (ts @ [(ty, ch)])"
    "w' = set_queue l ns h (Some (next_addr w)) (loop_mutex (the_loop w l)) (Suc (next_addr w)) w"
    "drop_nodes (ps @ [next_addr w]) ns = drop_nodes (ps @ [next_addr w]) (nodes w)"
proof -
  from q obtain lp where lp: "loops w l = Some lp" "chain (nodes w) (el_head lp) ps" "distinct ps"
      "\<forall>n \<in> set ps. n < next_addr w" "ps \<noteq> [] \<longrightarrow> el_tail lp = Some (last ps)"
      "ts = map (node_task (nodes w)) ps" by (rule queuedD)
  let ?n = "next_addr w"
  let ?e = "\<lparr>el_type = ty, el_channel = ch, el_next = None\<rparr>"
  have n: "?n \<notin> set ps" using lp(4) by auto
  have lp': "el_head (the_loop w' l) = el_head lp" "el_tail (the_loop w' l) = el_tail lp"
    if "loops w' l = loops w l" for w' using that lp(1) by (simp_all add: the_loop_def)
  show ?thesis
  proof (cases "ps = []")
    case True
    let ?ns = "(nodes w)(?n \<mapsto> ?e)"
    let ?w = "set_queue l ?ns (Some ?n) (Some ?n) (loop_mutex lp) (Suc ?n) w"
    have "push_task l ch ty w = Inr ?w"
      using True lp(1,2) by (simp add: push_task_def Let_def lp' set_queue_def upd_loop_def)
    moreover have "queued ?w l (ps @ [?n]) (ts @ [(ty, ch)])"
      using True lp(1,6) by (simp add: queued_def node_task_def)
    moreover have "drop_nodes (ps @ [?n]) ?ns = drop_nodes (ps @ [?n]) (nodes w)"
      by (auto simp: drop_nodes_def)
    ultimately show ?thesis using that lp(1) by (simp add: the_loop_def)
  next
    case False
    then have tl: "el_tail lp = Some (last ps)" "last ps \<in> set ps" using lp(5) by simp_all
    with chain_nodes [OF lp(2)] obtain e where e: "nodes w (last ps) = Some e" by blast
    let ?ns = "(nodes w)(last ps \<mapsto> e\<lparr>el_next := Some ?n\<rparr>, ?n \<mapsto> ?e)"
    let ?w = "set_queue l ?ns (el_head lp) (Some ?n) (loop_mutex lp) (Suc ?n) w"
    have ne: "last ps \<noteq> ?n" using tl(2) n by auto
    have "el_head lp \<noteq> None" using False lp(2) by (cases ps) auto
    then have "push_task l ch ty w = Inr ?w"
      using lp(1) tl(1) e ne
      by (auto simp: push_task_def Let_def lp' set_queue_def upd_loop_def fun_upd_twist)
    moreover have "map (node_task ?ns) ps = map (node_task (nodes w)) ps"
      using n e by (auto simp: node_task_def)
    then have "queued ?w l (ps @ [?n]) (ts @ [(ty, ch)])"
      using lp n chain_snoc [OF lp(2,3) n False e] by (auto simp: queued_def node_task_def)
    moreover have "drop_nodes (ps @ [?n]) ?ns = drop_nodes (ps @ [?n]) (nodes w)"
      using tl(2) by (auto simp: drop_nodes_def)
    ultimately show ?thesis using that lp(1) by (simp add: the_loop_def)
  qed
qed

lemma mutex_unlock_set_queue:
  "mutex_unlock l (set_queue l ns h t m k w) = set_queue l ns h t None k w"
  by (simp add: mutex_unlock_def set_queue_def upd_loop_def option.map_comp comp_def)

lemma queued_set_queue:
  "queued w l ps ts \<Longrightarrow> loops w l = Some lp \<Longrightarrow>
   queued (set_queue l (nodes w) (el_head lp) (el_tail lp) m (next_addr w) w) l ps ts"
  by (simp add: queued_def)

text \<open>In the loop's own thread, adding a task runs the whole queue at once.\<close>

lemma addTask_here:
  assumes blind: "queue_blind destroy" and q: "queued w l ps ts"
    and free: "loop_mutex (the_loop w l) = None" and own: "threadID (the_loop w l) = self w"
  shows "eventLoopAddTask destroy l ch ty w =
    map_run (set_queue l (drop_nodes (ps @ [next_addr w]) (nodes w)) None None None (Suc (next_addr w)))
      (run_tasks destroy l (ts @ [(ty, ch)]) w)"
proof -
  from q obtain lp where lp: "loops w l = Some lp" by (rule queuedD)
  let ?w = "set_queue l (nodes w) (el_head lp) (el_tail lp) (Some (self w)) (next_addr w) w"
  have q1: "queued ?w l ps ts" using queued_set_queue [OF q lp] .
  have lm: "loop_mutex (the_loop ?w l) = Some (self w)" using lp by (simp add: the_loop_def)
  obtain w' ns h where raw: "push_task l ch ty ?w = Inr w'"
    "queued w' l (ps @ [next_addr ?w]) (ts @ [(ty, ch)])"
    "w' = set_queue l ns h (Some (next_addr ?w)) (loop_mutex (the_loop ?w l)) (Suc (next_addr ?w)) ?w"
    "drop_nodes (ps @ [next_addr ?w]) ns = drop_nodes (ps @ [next_addr ?w]) (nodes ?w)"
    by (rule push_task_appends [OF q1])
  note w' = raw [unfolded lm set_queue_simps set_queue_set_queue]
  let ?w2 = "set_queue l ns h (Some (next_addr w)) None (Suc (next_addr w)) w"
  have u: "mutex_unlock l w' = ?w2" by (simp add: w'(3) mutex_unlock_set_queue)
  have q2: "queued ?w2 l (ps @ [next_addr w]) (ts @ [(ty, ch)])"
    using w'(2) lp by (simp add: w'(3) queued_def)
  have th: "threadID (the_loop ?w2 l) = self ?w2" "loop_mutex (the_loop ?w2 l) = None"
    using own lp by (simp_all add: the_loop_def)
  have "eventLoopAddTask destroy l ch ty w = eventLoopProcessTask destroy l ?w2"
    using free lp w'(1) u th by (simp add: eventLoopAddTask_def mutex_lock_free [OF lp] the_loop_def)
  then show ?thesis
    using processTask_tasks [OF blind q2 th(2)] w'(4)
    by (simp add: run_tasks_set_queue [OF blind] map_run_map_run)
qed

text \<open>From another thread it is left in the queue and the loop is woken.\<close>

definition woken :: "nat \<Rightarrow> world \<Rightarrow> world" where
  "woken l w = (let fd = snd (socketPair (the_loop w l)) in
     w\<lparr>inbox := (inbox w)(fd := inbox w fd @ ''hello'')\<rparr>)"

lemma woken_simps [simp]:
  "loops (woken l w) = loops w" "nodes (woken l w) = nodes w" "next_addr (woken l w) = next_addr w"
  "self (woken l w) = self w"
  by (simp_all add: woken_def Let_def)

lemma addTask_elsewhere:
  assumes q: "queued w l ps ts" and free: "loop_mutex (the_loop w l) = None"
    and other: "threadID (the_loop w l) \<noteq> self w"
  obtains ns h t where
    "eventLoopAddTask destroy l ch ty w = Some (Inr (set_queue l ns h t None (Suc (next_addr w)) (woken l w)))"
    "queued (set_queue l ns h t None (Suc (next_addr w)) (woken l w)) l (ps @ [next_addr w]) (ts @ [(ty, ch)])"
    "drop_nodes (ps @ [next_addr w]) ns = drop_nodes (ps @ [next_addr w]) (nodes w)"
proof -
  from q obtain lp where lp: "loops w l = Some lp" by (rule queuedD)
  let ?w = "set_queue l (nodes w) (el_head lp) (el_tail lp) (Some (self w)) (next_addr w) w"
  have q1: "queued ?w l ps ts" using queued_set_queue [OF q lp] .
  have lm: "loop_mutex (the_loop ?w l) = Some (self w)" using lp by (simp add: the_loop_def)
  obtain w' ns h where raw: "push_task l ch ty ?w = Inr w'"
    "queued w' l (ps @ [next_addr ?w]) (ts @ [(ty, ch)])"
    "w' = set_queue l ns h (Some (next_addr ?w)) (loop_mutex (the_loop ?w l)) (Suc (next_addr ?w)) ?w"
    "drop_nodes (ps @ [next_addr ?w]) ns = drop_nodes (ps @ [next_addr ?w]) (nodes ?w)"
    by (rule push_task_appends [OF q1])
  note w' = raw [unfolded lm set_queue_simps set_queue_set_queue]
  let ?w2 = "set_queue l ns h (Some (next_addr w)) None (Suc (next_addr w)) w"
  let ?w3 = "set_queue l ns h (Some (next_addr w)) None (Suc (next_addr w)) (woken l w)"
  have u: "mutex_unlock l w' = ?w2" by (simp add: w'(3) mutex_unlock_set_queue)
  have "queued ?w3 l (ps @ [next_addr w]) (ts @ [(ty, ch)])"
    using w'(2) lp by (simp add: w'(3) queued_def)
  moreover have "eventLoopAddTask destroy l ch ty w = Some (Inr ?w3)"
    using free lp w'(1) u other
    by (simp add: eventLoopAddTask_def mutex_lock_free [OF lp] the_loop_def taskWakeup_def Let_def
        woken_def set_queue_def upd_loop_def)
  ultimately show ?thesis using that w'(4) by blast
qed

section \<open>The contract of the queue\<close>

fun post_all :: "('t \<Rightarrow> 'w \<Rightarrow> 'w run) \<Rightarrow> 't list \<Rightarrow> 'w \<Rightarrow> 'w run" where
  "post_all post [] w = Some (Inr w)"
| "post_all post (t # ts) w = bindO (post t w) (post_all post ts)"

text \<open>
  Posting puts a task behind the others and leaves a note for the owner, draining runs the tasks in
  that order and leaves the queue empty; \<open>view\<close> is the state without the queue, which is all that
  tasks can see.
\<close>

locale task_queue =
  fixes rep :: "'w \<Rightarrow> 't list \<Rightarrow> bool"
    and post :: "'t \<Rightarrow> 'w \<Rightarrow> 'w run"
    and drain :: "'w \<Rightarrow> 'w run"
    and view :: "'w \<Rightarrow> 'w"
    and noted :: "'w \<Rightarrow> 'w"
    and exec :: "'t list \<Rightarrow> 'w \<Rightarrow> 'w run"
    and empty :: "'w \<Rightarrow> bool"
  assumes post_law: "rep w ts \<Longrightarrow>
      \<exists>w'. post t w = Some (Inr w') \<and> rep w' (ts @ [t]) \<and> view w' = noted (view w)"
    and drain_law: "rep w ts \<Longrightarrow> map_run view (drain w) = exec ts (view w)"
    and drained: "rep w ts \<Longrightarrow> drain w = Some (Inr w') \<Longrightarrow> empty w'"
begin

lemma post_all_appends:
  "rep w ts \<Longrightarrow> \<exists>w'. post_all post us w = Some (Inr w') \<and> rep w' (ts @ us) \<and>
     view w' = (noted ^^ length us) (view w)"
proof (induction us arbitrary: w ts)
  case Nil
  then show ?case by simp
next
  case (Cons u us)
  from post_law [OF Cons.prems, of u] obtain w1 where
    w1: "post u w = Some (Inr w1)" "rep w1 (ts @ [u])" "view w1 = noted (view w)" by blast
  with Cons.IH [OF w1(2)] show ?case by (simp add: funpow_swap1)
qed

lemma fifo:
  assumes "rep w []"
  shows "\<exists>w1. post_all post us w = Some (Inr w1) \<and>
    map_run view (drain w1) = exec us ((noted ^^ length us) (view w)) \<and>
    (\<forall>w2. drain w1 = Some (Inr w2) \<longrightarrow> empty w2)"
proof -
  from post_all_appends [OF assms, of us] obtain w1 where
    w1: "post_all post us w = Some (Inr w1)" "rep w1 us" "view w1 = (noted ^^ length us) (view w)" by auto
  with drain_law [OF w1(2)] drained [OF w1(2)] show ?thesis by simp
qed

end

definition queue_rep :: "nat \<Rightarrow> world \<Rightarrow> (ElemType \<times> nat) list \<Rightarrow> bool" where
  "queue_rep l w ts \<longleftrightarrow> (\<exists>ps. queued w l ps ts) \<and> loop_mutex (the_loop w l) = None"

text \<open>The same, seen from a thread that is not the loop's; the loop's own thread drains the queue.\<close>

definition foreign_rep :: "nat \<Rightarrow> world \<Rightarrow> (ElemType \<times> nat) list \<Rightarrow> bool" where
  "foreign_rep l w ts \<longleftrightarrow> queue_rep l w ts \<and> threadID (the_loop w l) \<noteq> self w"

definition foreign_post ::
  "(callback \<Rightarrow> cb_arg \<Rightarrow> world \<Rightarrow> world res) \<Rightarrow> nat \<Rightarrow> ElemType \<times> nat \<Rightarrow> world \<Rightarrow> world run" where
  "foreign_post destroy l t w = eventLoopAddTask destroy l (snd t) (fst t) w"

definition as_owner :: "nat \<Rightarrow> world \<Rightarrow> world" where
  "as_owner l w = w\<lparr>self := threadID (the_loop w l)\<rparr>"

definition own_drain :: "(callback \<Rightarrow> cb_arg \<Rightarrow> world \<Rightarrow> world res) \<Rightarrow> nat \<Rightarrow> world \<Rightarrow> world run" where
  "own_drain destroy l w = eventLoopProcessTask destroy l (as_owner l w)"

definition queue_view :: "nat \<Rightarrow> world \<Rightarrow> world" where
  "queue_view l w = set_queue l Map.empty None None None 0 (as_owner l w)"

text \<open>Callbacks that keep the loops of the process and the threads they belong to.\<close>

definition threads :: "world \<Rightarrow> nat \<times> (nat \<Rightarrow> nat option)" where
  "threads w = (self w, \<lambda>l. map_option threadID (loops w l))"

definition threads_kept :: "(callback \<Rightarrow> cb_arg \<Rightarrow> world \<Rightarrow> world res) \<Rightarrow> bool" where
  "threads_kept destroy \<longleftrightarrow> (\<forall>f a w w'. destroy f a w = Inr w' \<longrightarrow> threads w' = threads w)"

lemma threads_upd_loop: "(\<And>lp. threadID (f lp) = threadID lp) \<Longrightarrow> threads (upd_loop l f w) = threads w"
  by (auto simp: threads_def upd_loop_def fun_eq_iff option.map_comp comp_def)

lemma threads_simps [simp]:
  "threads (set_map l m w) = threads w"
  "threads (put_epoll l d w) = threads w"
  "threads (close_fd fd w) = threads w"
  by (simp_all add: set_map_def put_epoll_def threads_upd_loop)
    (simp add: threads_def close_fd_def option.map_comp comp_def)

lemma eventLoopAdd_keeps_threads: "ensures_run (eventLoopAdd l ch w) (\<lambda>(_, w'). threads w' = threads w)"
  unfolding eventLoopAdd_def Let_def
  by (intro run_rules ensures_run_bind) (simp_all add: ensures_run_return)

lemma eventLoopModify_keeps_threads: "ensures_run (eventLoopModify l ch w) (\<lambda>(_, w'). threads w' = threads w)"
  unfolding eventLoopModify_def Let_def
  by (intro run_rules ensures_run_bind) (simp_all add: ensures_run_return)

lemma eventLoopRemove_keeps_threads:
  assumes "threads_kept destroy"
  shows "ensures_run (eventLoopRemove destroy l ch w) (\<lambda>(_, w'). threads w' = threads w)"
proof -
  have "ensures (epollRemove v (get_epoll l) (put_epoll l) destroy c w) (\<lambda>(_, w'). threads w' = threads w)"
    for v c
  proof -
    have "threads x = threads w" if "destroy f a (put_epoll l d w) = Inr x" for f a d x
      using assms that unfolding threads_kept_def by (metis threads_simps(2))
    then show ?thesis
      by (auto simp: epollRemove_eq ensures_def res_simps split: option.split)
  qed
  then show ?thesis
    unfolding eventLoopRemove_def
    by (intro run_rules ensures_run_bind) (simp_all add: ensures_run_return ensures_run_def ensures_def lift_def)
qed

lemma run_task_keeps_threads:
  assumes k: "threads_kept destroy" and r: "run_task destroy l ty ch w = Some (Inr w')"
  shows "threads w' = threads w"
  using r ensures_runD [OF eventLoopAdd_keeps_threads] ensures_runD [OF eventLoopModify_keeps_threads]
    ensures_runD [OF eventLoopRemove_keeps_threads [OF k]]
  by (cases ty) (fastforce simp: run_task_def res_simps)+

lemma run_tasks_threads:
  "threads_kept destroy \<Longrightarrow> run_tasks destroy l ts w = Some (Inr w') \<Longrightarrow> threads w' = threads w"
proof (induction ts arbitrary: w)
  case (Cons t ts)
  obtain ty ch where t: "t = (ty, ch)" by fastforce
  with Cons.prems obtain w1 where w1: "run_task destroy l ty ch w = Some (Inr w1)"
      "run_tasks destroy l ts w1 = Some (Inr w')" by (auto simp: res_simps)
  with Cons.IH [OF Cons.prems(1) w1(2)] run_task_keeps_threads [OF Cons.prems(1) w1(1)] show ?case by simp
qed simp

lemma run_tasks_keeps_threads:
  assumes "threads_kept destroy" and "run_tasks destroy l ts w = Some (Inr w')"
  shows "map_option threadID (loops w' k) = map_option threadID (loops w k)" and "self w' = self w"
  using run_tasks_threads [OF assms] by (simp_all add: threads_def fun_eq_iff)

lemma queue_view_set_queue:
  "loops w l = Some lp \<Longrightarrow> queue_view l (set_queue l ns h t m k w) = queue_view l w"
  by (simp add: queue_view_def as_owner_def the_loop_def set_queue_def upd_loop_def option.map_comp comp_def)

lemma queue_view_woken: "loops w l = Some lp \<Longrightarrow> queue_view l (woken l w) = woken l (queue_view l w)"
  by (simp add: queue_view_def as_owner_def the_loop_def set_queue_def upd_loop_def woken_def Let_def)

lemma foreign_post_law:
  assumes "foreign_rep l w ts"
  shows "\<exists>w'. foreign_post destroy l t w = Some (Inr w') \<and> foreign_rep l w' (ts @ [t]) \<and>
    queue_view l w' = woken l (queue_view l w)"
proof -
  from assms obtain ps where q: "queued w l ps ts" "loop_mutex (the_loop w l) = None"
      "threadID (the_loop w l) \<noteq> self w"
    by (auto simp: queue_rep_def foreign_rep_def)
  from q(1) obtain lp where lp: "loops w l = Some lp" by (rule queuedD)
  obtain ns h u where w':
    "eventLoopAddTask destroy l (snd t) (fst t) w = Some (Inr (set_queue l ns h u None (Suc (next_addr w)) (woken l w)))"
    "queued (set_queue l ns h u None (Suc (next_addr w)) (woken l w)) l (ps @ [next_addr w]) (ts @ [(fst t, snd t)])"
    by (rule addTask_elsewhere [OF q])
  have lw: "loops (woken l w) l = Some lp" using lp by simp
  with w' q(3) lp lw show ?thesis
    by (auto simp: foreign_post_def foreign_rep_def queue_rep_def the_loop_def queue_view_set_queue [OF lw]
        queue_view_woken [OF lp])
qed

lemma own_drain_tasks:
  assumes "queue_blind destroy" and "foreign_rep l w ts"
  obtains ps where "own_drain destroy l w =
    map_run (set_queue l (drop_nodes ps (nodes w)) None None None (next_addr w)) (run_tasks destroy l ts (as_owner l w))"
    "loops w l \<noteq> None"
proof -
  from assms(2) obtain ps where q: "queued w l ps ts" "loop_mutex (the_loop w l) = None"
    by (auto simp: queue_rep_def foreign_rep_def)
  from q(1) obtain lp where lp: "loops w l = Some lp" by (rule queuedD)
  have o: "loops (as_owner l w) = loops w" "nodes (as_owner l w) = nodes w" "next_addr (as_owner l w) = next_addr w"
    by (simp_all add: as_owner_def)
  have q': "queued (as_owner l w) l ps ts" "loop_mutex (the_loop (as_owner l w) l) = None"
    using q by (simp_all add: queued_def the_loop_def o cong: option.case_cong)
  from processTask_tasks [OF assms(1) q'] lp that show ?thesis by (simp add: own_drain_def o)
qed

lemma own_drain_law:
  assumes "queue_blind destroy" and k: "threads_kept destroy" and "foreign_rep l w ts"
  shows "map_run (queue_view l) (own_drain destroy l w) = run_tasks destroy l ts (queue_view l w)"
proof -
  obtain ps where d: "own_drain destroy l w =
      map_run (set_queue l (drop_nodes ps (nodes w)) None None None (next_addr w)) (run_tasks destroy l ts (as_owner l w))"
    "loops w l \<noteq> None" by (rule own_drain_tasks [OF assms(1,3)])
  have "queue_view l (set_queue l (drop_nodes ps (nodes w)) None None None (next_addr w) w1) =
      set_queue l Map.empty None None None 0 w1" if "run_tasks destroy l ts (as_owner l w) = Some (Inr w1)" for w1
  proof -
    note t = run_tasks_keeps_threads [OF k that]
    from d(2) obtain lp where lp: "loops w l = Some lp" by blast
    with t(1) [of l] obtain lp1 where lp1: "loops w1 l = Some lp1" "threadID lp1 = threadID lp"
      by (auto simp: as_owner_def)
    have "self w1 = threadID lp" using t(2) lp by (simp add: as_owner_def the_loop_def)
    then have "w1\<lparr>self := threadID lp\<rparr> = w1" by simp
    with lp1 show ?thesis
      by (simp add: queue_view_set_queue [OF lp1(1)]) (simp add: queue_view_def as_owner_def the_loop_def)
  qed
  note v = this
  have "map_run (queue_view l) (own_drain destroy l w) =
      map_run (set_queue l Map.empty None None None 0) (run_tasks destroy l ts (as_owner l w))"
    unfolding d(1) map_run_map_run unfolding map_run_def by (rule bindO_cong_on) (simp add: v)
  then show ?thesis by (simp add: queue_view_def run_tasks_set_queue [OF assms(1)])
qed

lemma own_drained:
  assumes "queue_blind destroy" and "threads_kept destroy" and "foreign_rep l w ts"
    and "own_drain destroy l w = Some (Inr w')"
  shows "queue_rep l w' []"
proof -
  obtain ps where d: "own_drain destroy l w =
      map_run (set_queue l (drop_nodes ps (nodes w)) None None None (next_addr w)) (run_tasks destroy l ts (as_owner l w))"
    "loops w l \<noteq> None" by (rule own_drain_tasks [OF assms(1,3)])
  with assms(4) obtain w1 where w1: "run_tasks destroy l ts (as_owner l w) = Some (Inr w1)"
      "w' = set_queue l (drop_nodes ps (nodes w)) None None None (next_addr w) w1"
    by (auto simp: map_run_def res_simps)
  from run_tasks_keeps_threads(1) [OF assms(2) w1(1), of l] d(2) obtain lp1 where "loops w1 l = Some lp1"
    by (auto simp: as_owner_def)
  then show ?thesis by (auto simp: queue_rep_def queued_def w1(2) the_loop_def)
qed

section \<open>Registering a channel\<close>

text \<open>The world after a channel has been put into its slot and given to the kernel.\<close>

definition registered :: "nat \<Rightarrow> nat \<Rightarrow> channel \<Rightarrow> channel_map \<Rightarrow> world \<Rightarrow> world" where
  "registered l ch c m w = upd_loop l (\<lambda>lp. lp
     \<lparr>channelMap := m\<lparr>map_list := (map_list m)[nat (ch_fd c) := Some ch]\<rparr>,
      dispatcherData := (dispatcherData lp)
        \<lparr>ep_set := (ep_set (dispatcherData lp))(ch_fd c \<mapsto> watch_mask c)\<rparr>\<rparr>) w"

lemma eventLoopAdd_step:
  assumes c: "channels w ch = Some c" and lp: "loops w l = Some lp"
    and room: "(if map_size (channelMap lp) \<le> ch_fd c then makeMapRoom (e_mem (os w)) (channelMap lp) (ch_fd c) 8
       else Some (Inr (True, channelMap lp))) = Some (Inr (True, m))"
    and fd: "0 \<le> ch_fd c" "ch_fd c < int (length (map_list m))" "map_list m ! nat (ch_fd c) = None"
    and free: "open_fds w (ch_fd c)" "ch_fd c \<noteq> epfd (dispatcherData lp)"
      "ep_set (dispatcherData lp) (ch_fd c) = None"
  shows "eventLoopAdd l ch w = Some (Inr (0, registered l ch c m w))"
proof -
  have ge: "get_epoll l (set_map l m' (set_map l m'' w)) = dispatcherData lp" for m' m''
    using lp by (simp add: get_epoll_def the_loop_def set_map_def)
  have "put_epoll l ((dispatcherData lp)\<lparr>ep_set := (ep_set (dispatcherData lp))(ch_fd c \<mapsto> watch_mask c)\<rparr>)
      (set_map l (m\<lparr>map_list := (map_list m)[nat (ch_fd c) := Some ch]\<rparr>) (set_map l m w)) =
      registered l ch c m w"
    using lp by (simp add: put_epoll_def set_map_def registered_def upd_loop_def)
  moreover have "\<not> ch_fd c < 0" "\<not> int (length (map_list m)) \<le> ch_fd c" using fd by simp_all
  ultimately show ?thesis
    using c lp room fd(3) free ge
    by (simp add: eventLoopAdd_def Let_def epollAdd_eq set_map_def)
qed

lemma power_tight:
  fixes s fd :: int
  assumes "fd \<le> s * 2 ^ k" and "\<forall>j < k. s * 2 ^ j < fd" and "0 < s"
  shows "(\<exists>j. fd = s * 2 ^ j) \<longleftrightarrow> fd = s * 2 ^ k"
proof
  assume "\<exists>j. fd = s * 2 ^ j"
  then obtain j where j: "fd = s * 2 ^ j" ..
  have "\<not> j < k" using assms(2) j by auto
  moreover have "j \<le> k"
  proof (rule ccontr)
    assume "\<not> j \<le> k"
    then have "s * 2 ^ k < s * 2 ^ j" using assms(3) by simp
    with assms(1) j show False by simp
  qed
  ultimately have "j = k" by simp
  with j show "fd = s * 2 ^ k" by simp
qed blast

lemma set_map_same: "loops w l = Some lp \<Longrightarrow> set_map l (channelMap lp) w = w"
  unfolding set_map_def by (rule upd_loop_id) auto

lemma eventLoopAdd_outside:
  assumes "channels w ch = Some c" and "loops w l = Some lp"
    and "(if map_size (channelMap lp) \<le> ch_fd c then makeMapRoom (e_mem (os w)) (channelMap lp) (ch_fd c) 8
       else Some (Inr (True, channelMap lp))) = Some (Inr (True, m))"
    and "ch_fd c < 0 \<or> int (length (map_list m)) \<le> ch_fd c"
  shows "eventLoopAdd l ch w = Some (Inl OutOfBounds)"
  using assms by (simp add: eventLoopAdd_def Let_def)

lemma eventLoopAdd_taken:
  assumes "channels w ch = Some c" and "loops w l = Some lp"
    and "0 \<le> ch_fd c" and "ch_fd c < map_size (channelMap lp)" and "map_inv (channelMap lp)"
    and "map_list (channelMap lp) ! nat (ch_fd c) \<noteq> None"
  shows "eventLoopAdd l ch w = Some (Inr (0, w))"
  using assms by (auto simp: eventLoopAdd_def Let_def map_inv_def set_map_same)

lemma eventLoopAdd_beyond:
  assumes c: "channels w ch = Some c" and lp: "loops w l = Some lp" and inv: "map_inv (channelMap lp)"
    and mem: "\<And>n. n \<le> 16 * ch_fd c \<Longrightarrow> e_mem (os w) n" and small: "16 * ch_fd c \<le> int_max"
    and kernel: "open_fds w (ch_fd c)" "ch_fd c \<noteq> epfd (dispatcherData lp)"
      "ep_set (dispatcherData lp) (ch_fd c) = None"
    and le: "map_size (channelMap lp) \<le> ch_fd c"
  shows "if \<exists>k. ch_fd c = map_size (channelMap lp) * 2 ^ k then eventLoopAdd l ch w = Some (Inl OutOfBounds)
    else \<exists>k. ch_fd c < map_size (grown (channelMap lp) k) \<and> map_size (grown (channelMap lp) k) < 2 * ch_fd c \<and>
      eventLoopAdd l ch w = Some (Inr (0, registered l ch c (grown (channelMap lp) k) w))"
proof -
  let ?m = "channelMap lp" and ?fd = "ch_fd c"
  have pos: "0 < map_size ?m" and len: "int (length (map_list ?m)) = map_size ?m"
    using inv by (simp_all add: map_inv_def)
  obtain k where k: "?fd \<le> map_size ?m * 2 ^ k" "\<forall>j < k. map_size ?m * 2 ^ j < ?fd"
      "makeMapRoom (e_mem (os w)) ?m ?fd 8 = Some (Inr (True, grown ?m k))"
    by (rule makeMapRoom_roomy [OF inv small le mem])
  have r: "(if map_size ?m \<le> ?fd then makeMapRoom (e_mem (os w)) ?m ?fd 8 else Some (Inr (True, ?m))) =
      Some (Inr (True, grown ?m k))" using le k(3) by simp
  have g: "int (length (map_list (grown ?m k))) = map_size ?m * 2 ^ k" "map_size (grown ?m k) = map_size ?m * 2 ^ k"
    using grown_inv [OF inv, of k] by (simp_all add: map_inv_def) (simp_all add: grown_def)
  note t = power_tight [OF k(1,2) pos]
  show ?thesis
  proof (cases "?fd = map_size ?m * 2 ^ k")
    case True
    with t eventLoopAdd_outside [OF c lp r] g show ?thesis by simp
  next
    case neq: False
    with k(1) have lt: "?fd < map_size ?m * 2 ^ k" by simp
    with le obtain j where j: "k = Suc j" by (cases k) auto
    have "map_list (grown ?m k) ! nat ?fd = None"
      using le lt len pos by (simp add: grown_def nth_append) linarith
    then have "eventLoopAdd l ch w = Some (Inr (0, registered l ch c (grown ?m k) w))"
      using eventLoopAdd_step [OF c lp r _ _ _ kernel] lt le pos g by simp
    moreover have "map_size ?m * 2 ^ k < 2 * ?fd" using k(2) j by simp
    moreover have "\<not> (\<exists>k. ?fd = map_size ?m * 2 ^ k)" using t neq by simp
    ultimately show ?thesis
      using lt g(2) by (simp only: if_False) (rule exI [of _ k], simp)
  qed
qed

section \<open>Properties\<close>

text \<open>
  C27. What registering a channel does, for every descriptor the kernel accepts. A descriptor below
  the size of the map goes into its slot and to the kernel if the slot is NULL; if the slot holds
  anything else (the slots of a new map are not initialised) the call reports success and does
  nothing. A larger descriptor makes the map grow by doubling and is then registered, except when
  it is the size times a power of two: the map then grows to exactly that size, one slot short, and
  the slot is read outside it. So is the slot of a negative descriptor.
\<close>

theorem eventLoopAdd_registers:
  assumes c: "channels w ch = Some c" and lp: "loops w l = Some lp" and inv: "map_inv (channelMap lp)"
    and mem: "\<And>n. n \<le> 16 * ch_fd c \<Longrightarrow> e_mem (os w) n" and small: "16 * ch_fd c \<le> int_max"
    and kernel: "open_fds w (ch_fd c)" "ch_fd c \<noteq> epfd (dispatcherData lp)"
      "ep_set (dispatcherData lp) (ch_fd c) = None"
  shows "if ch_fd c < 0 \<or> (\<exists>k. ch_fd c = map_size (channelMap lp) * 2 ^ k)
    then eventLoopAdd l ch w = Some (Inl OutOfBounds)
    else if ch_fd c < map_size (channelMap lp) then
      (if map_list (channelMap lp) ! nat (ch_fd c) = None
       then eventLoopAdd l ch w = Some (Inr (0, registered l ch c (channelMap lp) w))
       else eventLoopAdd l ch w = Some (Inr (0, w)))
    else (\<exists>k. ch_fd c < map_size (grown (channelMap lp) k) \<and>
       map_size (grown (channelMap lp) k) < 2 * ch_fd c \<and>
       eventLoopAdd l ch w = Some (Inr (0, registered l ch c (grown (channelMap lp) k) w)))"
proof (cases "ch_fd c < map_size (channelMap lp)")
  case True
  have "0 < map_size (channelMap lp)" and len: "int (length (map_list (channelMap lp))) = map_size (channelMap lp)"
    using inv by (simp_all add: map_inv_def)
  with True have nk: "\<not> (\<exists>k. ch_fd c = map_size (channelMap lp) * 2 ^ k)"
    by (metis less_le_not_le mult_le_cancel_left1 one_le_numeral one_le_power)
  from True have r: "(if map_size (channelMap lp) \<le> ch_fd c then makeMapRoom (e_mem (os w)) (channelMap lp) (ch_fd c) 8
      else Some (Inr (True, channelMap lp))) = Some (Inr (True, channelMap lp))" by simp
  show ?thesis
    using True nk len eventLoopAdd_outside [OF c lp r] eventLoopAdd_taken [OF c lp _ True inv]
      eventLoopAdd_step [OF c lp r _ _ _ kernel] by auto
next
  case False
  then have "map_size (channelMap lp) \<le> ch_fd c" "\<not> ch_fd c < 0" using inv by (simp_all add: map_inv_def)
  with eventLoopAdd_beyond [OF c lp inv mem small kernel] False show ?thesis by simp
qed

theorem eventLoopAdd_registers_witness:
  "let c = channelInit 128 ReadEvent None None None (LoopArg 0);
       w = (blank_world (small_env Map.empty))\<lparr>loops := [0 \<mapsto> fresh_loop], channels := [1 \<mapsto> c],
            open_fds := (\<lambda>fd. fd = 128)\<rparr> in
   eventLoopAdd 0 1 w = Some (Inl OutOfBounds)"
proof -
  let ?c = "channelInit 128 ReadEvent None None None (LoopArg 0)"
  let ?w = "(blank_world (small_env Map.empty))\<lparr>loops := [0 \<mapsto> fresh_loop], channels := [1 \<mapsto> ?c],
      open_fds := (\<lambda>fd. fd = 128)\<rparr>"
  have m: "channelMap fresh_loop = channelMapInit (\<lambda>_. None) 128" "map_size (channelMap fresh_loop) = 128"
    by (simp_all add: fresh_loop_def channelMapInit_def)
  have inv: "map_inv (channelMap fresh_loop)" unfolding m by (rule channelMapInit_inv) simp
  have "(128 :: int) = 128 * 2 ^ 0" by simp
  then have "\<exists>k. ch_fd ?c = map_size (channelMap fresh_loop) * 2 ^ k"
    by (intro exI [of _ 0]) (simp add: m(2) channelInit_def)
  then have cond: "(ch_fd ?c < 0 \<or> (\<exists>k. ch_fd ?c = map_size (channelMap fresh_loop) * 2 ^ k)) = True"
    by blast
  have "if ch_fd ?c < 0 \<or> (\<exists>k. ch_fd ?c = map_size (channelMap fresh_loop) * 2 ^ k)
    then eventLoopAdd 0 1 ?w = Some (Inl OutOfBounds)
    else if ch_fd ?c < map_size (channelMap fresh_loop) then
      (if map_list (channelMap fresh_loop) ! nat (ch_fd ?c) = None
       then eventLoopAdd 0 1 ?w = Some (Inr (0, registered 0 1 ?c (channelMap fresh_loop) ?w))
       else eventLoopAdd 0 1 ?w = Some (Inr (0, ?w)))
    else (\<exists>k. ch_fd ?c < map_size (grown (channelMap fresh_loop) k) \<and>
       map_size (grown (channelMap fresh_loop) k) < 2 * ch_fd ?c \<and>
       eventLoopAdd 0 1 ?w = Some (Inr (0, registered 0 1 ?c (grown (channelMap fresh_loop) k) ?w)))"
    by (rule eventLoopAdd_registers [OF _ _ inv])
      (simp_all add: blank_world_def small_env_def channelInit_def fresh_loop_def int_max_def)
  then show ?thesis unfolding cond if_True Let_def .
qed

end
