(* ===== verification/TcpConnection.thy ===== *)
theory TcpConnection
  imports EventLoop
begin

text \<open>
  \<^verbatim>\<open>ReactorHTTP-C/TcpConnection.c\<close>: the life of a connection. A callback gets the address
  of its connection; what its system calls answer is \<open>answers w (tick w)\<close>. Only
  \<open>tcpConnectionDestroy\<close> is ever a destroy callback, so \<open>call_destroy\<close> is the function the event
  loop theory is given.
\<close>

section \<open>The code\<close>

text \<open>The condition of \<open>tcpConnectionDestroy\<close>, with its short-circuit evaluation.\<close>

definition buffers_empty :: "tcp_connection \<Rightarrow> buf_heap \<Rightarrow> bool res" where
  "buffers_empty conn bs =
     (case readBuf conn of
        None \<Rightarrow> Inr False
      | Some rb \<Rightarrow>
          bindR (lookup bs rb) (\<lambda>r.
          if bufferReadableSize r \<noteq> 0 then Inr False
          else
            (case writeBuf conn of
               None \<Rightarrow> Inr False
             | Some wb \<Rightarrow> bindR (lookup bs wb) (\<lambda>b. Inr (bufferReadableSize b = 0)))))"

text \<open>
  Nothing happens unless both buffers are empty. The log line at the end reads the name of the
  connection, which may just have been freed.
\<close>

definition tcpConnectionDestroy :: "nat \<Rightarrow> world \<Rightarrow> world res" where
  "tcpConnectionDestroy p w =
     bindR (lookup (conns w) p) (\<lambda>conn.
     bindR (buffers_empty conn (bufs w)) (\<lambda>empty.
     if empty then
       bindR (destroyChannel (conn_loop conn) (conn_channel conn) w) (\<lambda>w.
       bindR (bufferDestroy (readBuf conn) (bufs w)) (\<lambda>bs.
       bindR (bufferDestroy (writeBuf conn) bs) (\<lambda>bs.
       bindR (httpRequestDestroy (conn_request conn) (reqs w)) (\<lambda>rq.
       bindR (httpResponseDestroy (conn_response conn) (resps w)) (\<lambda>(rs, st).
       Inr (w\<lparr>bufs := bs, reqs := rq, resps := rs, conns := (conns w)(p := None),
              stales := stales w @ st @ [StaleRead p]\<rparr>))))))
     else Inr w))"

definition call_destroy :: "callback \<Rightarrow> cb_arg \<Rightarrow> world \<Rightarrow> world res" where
  "call_destroy f a w =
     (case (f, a) of
        (TcpConnectionDestroy, ConnArg p) \<Rightarrow> tcpConnectionDestroy p w
      | _ \<Rightarrow> Inl UseAfterFree)"

abbreviation addTask :: "nat \<Rightarrow> nat \<Rightarrow> ElemType \<Rightarrow> world \<Rightarrow> world run" where
  "addTask \<equiv> eventLoopAddTask call_destroy"

text \<open>Switching the write event of a channel in memory.\<close>

definition set_write :: "nat \<Rightarrow> bool \<Rightarrow> world \<Rightarrow> world res" where
  "set_write ch flag w =
     bindR (lookup (channels w) ch) (\<lambda>c.
     Inr (w\<lparr>channels := (channels w)(ch \<mapsto> writeEventEnable c flag)\<rparr>))"

definition bad_request :: string where
  "bad_request = ''Http/1.1 400 Bad Request'' @ crlf @ crlf"

text \<open>
  Parsing with the buffers, the request and the response of the connection; a refused request is
  answered with \<open>bad_request\<close>.
\<close>

definition parse_conn :: "nat \<Rightarrow> int \<Rightarrow> send_outcome \<Rightarrow> world \<Rightarrow> world run" where
  "parse_conn p socket outcome w =
     bindO (lift (lookup (conns w) p)) (\<lambda>conn.
     bindO (lift (deref (reqs w) (conn_request conn))) (\<lambda>rq.
     bindO (lift (deref (bufs w) (readBuf conn))) (\<lambda>rb.
     bindO (lift (deref (resps w) (conn_response conn))) (\<lambda>rs.
     bindO (lift (deref (bufs w) (writeBuf conn))) (\<lambda>wb.
     bindO (parseHttpRequest (os w) outcome rq rb rs wb) (\<lambda>(flag, rq, rb, rs, wb, out).
     bindO (if flag then Some (Inr wb) else lift (buffer_puts (e_mem (os w)) wb bad_request)) (\<lambda>wb.
     Some (Inr (w\<lparr>reqs := (reqs w)(the (conn_request conn) \<mapsto> rq),
                  resps := (resps w)(the (conn_response conn) \<mapsto> rs),
                  bufs := (bufs w)(the (readBuf conn) \<mapsto> rb, the (writeBuf conn) \<mapsto> wb),
                  sent := (sent w)(socket := sent w socket @ out)\<rparr>)))))))))"

text \<open>The log line prints the unread bytes as a string: there must be a NUL behind them.\<close>

definition processRead :: "nat \<Rightarrow> world \<Rightarrow> world run" where
  "processRead p w =
     bindO (lift (lookup (conns w) p)) (\<lambda>conn.
     bindO (lift (deref (bufs w) (readBuf conn))) (\<lambda>rb.
     bindO (lift (lookup (channels w) (conn_channel conn))) (\<lambda>c.
     bindO (lift (bufferSocketRead (e_mem (os w)) rb (io_avail (answers w (tick w))))) (\<lambda>(count, rb).
     let w = w\<lparr>bufs := (bufs w)(the (readBuf conn) \<mapsto> rb)\<rparr> in
     if NUL \<notin> set (drop (nat (readPos rb)) (buf_data rb)) then Some (Inl OutOfBounds)
     else if count > 0 then
       bindO (lift (set_write (conn_channel conn) True w)) (\<lambda>w.
       bindO (addTask (conn_loop conn) (conn_channel conn) MODIFY w)
         (parse_conn p (ch_fd c) (io_send (answers w (tick w)))))
     else addTask (conn_loop conn) (conn_channel conn) DELETE w))))"

definition processWrite :: "nat \<Rightarrow> world \<Rightarrow> world run" where
  "processWrite p w =
     bindO (lift (lookup (conns w) p)) (\<lambda>conn.
     bindO (lift (deref (bufs w) (writeBuf conn))) (\<lambda>wb.
     bindO (lift (lookup (channels w) (conn_channel conn))) (\<lambda>c.
     (case bufferSendData wb (io_send (answers w (tick w))) of
        (count, wb, out) \<Rightarrow>
          (let w = w\<lparr>bufs := (bufs w)(the (writeBuf conn) \<mapsto> wb),
                     sent := (sent w)(ch_fd c := sent w (ch_fd c) @ out)\<rparr> in
           if count > 0 \<and> bufferReadableSize wb = 0 then
             bindO (lift (set_write (conn_channel conn) False w)) (\<lambda>w.
             bindO (addTask (conn_loop conn) (conn_channel conn) MODIFY w) (\<lambda>w.
             bindO (lift (lookup (conns w) p)) (\<lambda>conn.
             addTask (conn_loop conn) (conn_channel conn) DELETE w)))
           else Some (Inr w))))))"

definition blank_request :: http_request where
  "blank_request = \<lparr>req_method = None, req_url = None, req_version = None, reqHeaders = None,
     reqHeadersNum = 0, curState = ParseReqLine\<rparr>"

definition tcpConnectionInit :: "int \<Rightarrow> nat \<Rightarrow> world \<Rightarrow> (nat \<times> world) run" where
  "tcpConnectionInit fd l w =
     bindO (lift (bufferInit True (e_mem (os w) 10240) 10240)) (\<lambda>r.
     bindO (lift (bufferInit True (e_mem (os w) 10240) 10240)) (\<lambda>b.
     bindO (lift (strcpy_into 32 (''Connection-'' @ dec_int fd))) (\<lambda>name.
     let p = next_addr w; rb = p + 1; wb = p + 2; rq = p + 3; rs = p + 4; ch = p + 5;
         conn = \<lparr>conn_loop = l, conn_channel = ch, readBuf = Some rb, writeBuf = Some wb,
                 conn_name = name, conn_request = Some rq, conn_response = Some rs\<rparr>;
         c = channelInit fd ReadEvent (Some ProcessRead) (Some ProcessWrite)
               (Some TcpConnectionDestroy) (ConnArg p);
         w = w\<lparr>next_addr := p + 6, conns := (conns w)(p \<mapsto> conn),
               bufs := (bufs w)(rb := r, wb := b),
               reqs := (reqs w)(rq \<mapsto> httpRequestInit blank_request),
               resps := (resps w)(rs \<mapsto> httpResponseInit),
               channels := (channels w)(ch \<mapsto> c)\<rparr> in
     bindO (addTask l ch ADD w) (\<lambda>w. Some (Inr (p, w))))))"

section \<open>The destroy callback and the queue\<close>

lemma heaps_set_queue:
  "(set_queue l ns h t m k w)\<lparr>bufs := bs, reqs := rq, resps := rs, conns := cs, stales := st\<rparr> =
     set_queue l ns h t m k (w\<lparr>bufs := bs, reqs := rq, resps := rs, conns := cs, stales := st\<rparr>)"
  by (simp add: set_queue_def upd_loop_def)

lemma tcpConnectionDestroy_set_queue:
  "tcpConnectionDestroy p (set_queue l ns h t m k w) = map_res (set_queue l ns h t m k) (tcpConnectionDestroy p w)"
proof (cases "conns w p")
  case None
  then show ?thesis by (simp add: tcpConnectionDestroy_def)
next
  case (Some conn)
  let ?T = "set_queue l ns h t m k"
  show ?thesis
    using Some
    by (cases "buffers_empty conn (bufs w)")
      (simp_all add: tcpConnectionDestroy_def destroyChannel_set_queue bindR_map_res
        map_res_bindR split_def heaps_set_queue)
qed

lemma call_destroy_blind: "queue_blind call_destroy"
  by (auto simp: queue_blind_def call_destroy_def tcpConnectionDestroy_set_queue
      split: callback.split cb_arg.split)

lemma destroyChannel_keeps_threads: "ensures (destroyChannel l ch w) (\<lambda>w'. threads w' = threads w)"
proof -
  have c: "threads (x\<lparr>channels := h\<rparr>) = threads x" for x h by (simp add: threads_def)
  show ?thesis
    unfolding destroyChannel_def Let_def by (intro ensures_rules) (simp add: ensures_Inr c)
qed

lemma call_destroy_keeps: "threads_kept call_destroy"
proof -
  have c: "threads (x\<lparr>bufs := a, reqs := b, resps := d, conns := e, stales := f\<rparr>) = threads x"
    for x a b d e f by (simp add: threads_def)
  have "ensures (tcpConnectionDestroy p w) (\<lambda>w'. threads w' = threads w)" for p w
    unfolding tcpConnectionDestroy_def
    by (intro ensures_rules)
      (simp_all add: ensures_Inr c ensuresD [OF destroyChannel_keeps_threads])
  then show ?thesis
    by (auto simp: threads_kept_def call_destroy_def ensures_def split: callback.splits cb_arg.splits)
qed

interpretation loopq: task_queue "foreign_rep l" "foreign_post call_destroy l" "own_drain call_destroy l"
    "queue_view l" "woken l" "run_tasks call_destroy l" "\<lambda>w. queue_rep l w []" for l
  by unfold_locales
    (fact foreign_post_law, fact own_drain_law [OF call_destroy_blind call_destroy_keeps],
     fact own_drained [OF call_destroy_blind call_destroy_keeps])

section \<open>Adding a task in the loop's own thread\<close>

text \<open>A loop at rest in its own thread: nothing queued, the mutex free.\<close>

definition idle :: "world \<Rightarrow> nat \<Rightarrow> bool" where
  "idle w l \<longleftrightarrow>
     (case loops w l of
        None \<Rightarrow> False
      | Some lp \<Rightarrow> el_head lp = None \<and> loop_mutex lp = None \<and> threadID lp = self w) \<and>
     (\<forall>n \<ge> next_addr w. nodes w n = None)"

text \<open>The traces the run of one task leaves in the queue: none but a used address.\<close>

definition settled :: "nat \<Rightarrow> world \<Rightarrow> world \<Rightarrow> world" where
  "settled l w0 w = set_queue l (nodes w0) None None None (Suc (next_addr w0)) w"

lemma addTask_idle:
  assumes "idle w l"
  shows "addTask l ch ty w = map_run (settled l w) (run_task call_destroy l ty ch w)"
proof -
  from assms obtain lp where lp: "loops w l = Some lp" "el_head lp = None" "loop_mutex lp = None"
      "threadID lp = self w" by (auto simp: idle_def split: option.splits)
  have q: "queued w l [] []" using lp by (simp add: queued_def)
  have "nodes w (next_addr w) = None" using assms by (simp add: idle_def)
  then have d: "drop_nodes [next_addr w] (nodes w) = nodes w" by (auto simp: drop_nodes_def)
  have "addTask l ch ty w =
      map_run (set_queue l (drop_nodes ([] @ [next_addr w]) (nodes w)) None None None (Suc (next_addr w)))
        (run_tasks call_destroy l ([] @ [(ty, ch)]) w)"
    using lp by (intro addTask_here [OF call_destroy_blind q]) (simp_all add: the_loop_def)
  moreover have "run_tasks call_destroy l [] = (\<lambda>w. Some (Inr w))" by (simp add: fun_eq_iff)
  ultimately show ?thesis
    using d by (simp add: settled_def [abs_def])
qed

lemma settled_simps [simp]:
  "loops (settled l w0 w) l = map_option (\<lambda>lp. lp\<lparr>el_head := None, el_tail := None, loop_mutex := None\<rparr>) (loops w l)"
  "channels (settled l w0 w) = channels w"
  "conns (settled l w0 w) = conns w"
  "bufs (settled l w0 w) = bufs w"
  "reqs (settled l w0 w) = reqs w"
  "resps (settled l w0 w) = resps w"
  "nodes (settled l w0 w) = nodes w0"
  "next_addr (settled l w0 w) = Suc (next_addr w0)"
  "self (settled l w0 w) = self w"
  "open_fds (settled l w0 w) = open_fds w"
  "inbox (settled l w0 w) = inbox w"
  "sent (settled l w0 w) = sent w"
  "stales (settled l w0 w) = stales w"
  "answers (settled l w0 w) = answers w"
  "tick (settled l w0 w) = tick w"
  "os (settled l w0 w) = os w"
  by (simp_all add: settled_def)

lemma idle_settled:
  assumes "idle w0 l" and "loops w l = Some lp" and "threadID lp = self w"
  shows "idle (settled l w0 w) l"
  using assms by (simp add: idle_def)

section \<open>Single tasks\<close>

definition unwatched :: "nat \<Rightarrow> int \<Rightarrow> world \<Rightarrow> world" where
  "unwatched l fd w = upd_loop l (\<lambda>lp. lp\<lparr>dispatcherData := (dispatcherData lp)
     \<lparr>ep_set := (ep_set (dispatcherData lp))(fd := None)\<rparr>\<rparr>) w"

definition rewatched :: "nat \<Rightarrow> channel \<Rightarrow> world \<Rightarrow> world" where
  "rewatched l c w = upd_loop l (\<lambda>lp. lp\<lparr>dispatcherData := (dispatcherData lp)
     \<lparr>ep_set := (ep_set (dispatcherData lp))(ch_fd c \<mapsto> watch_mask c)\<rparr>\<rparr>) w"

lemma modify_task:
  assumes "channels w ch = Some c" and "loops w l = Some lp"
    and "0 \<le> ch_fd c" and "ch_fd c < int (length (map_list (channelMap lp)))"
    and "map_list (channelMap lp) ! nat (ch_fd c) \<noteq> None"
    and "open_fds w (ch_fd c)" and "ch_fd c \<noteq> epfd (dispatcherData lp)"
    and "ep_set (dispatcherData lp) (ch_fd c) \<noteq> None"
  shows "run_task call_destroy l MODIFY ch w = Some (Inr (rewatched l c w))"
proof -
  have "get_epoll l w = dispatcherData lp" using assms(2) by (simp add: get_epoll_def the_loop_def)
  moreover have "put_epoll l ((dispatcherData lp)\<lparr>ep_set := (ep_set (dispatcherData lp))(ch_fd c \<mapsto> watch_mask c)\<rparr>) w =
      rewatched l c w"
    using assms(2) by (simp add: put_epoll_def rewatched_def upd_loop_def)
  ultimately show ?thesis
    using assms by (auto simp: run_task_def eventLoopModify_def Let_def epollModify_eq)
qed

lemma modify_refused:
  assumes "channels w ch = Some c" and "loops w l = Some lp"
    and "0 \<le> ch_fd c" and "ch_fd c < int (length (map_list (channelMap lp)))"
    and "map_list (channelMap lp) ! nat (ch_fd c) \<noteq> None"
    and "ep_set (dispatcherData lp) (ch_fd c) = None"
  shows "run_task call_destroy l MODIFY ch w = Some (Inl ProcessExit)"
proof -
  have "get_epoll l w = dispatcherData lp" using assms(2) by (simp add: get_epoll_def the_loop_def)
  with assms show ?thesis by (auto simp: run_task_def eventLoopModify_def Let_def epollModify_eq)
qed

lemma delete_task:
  assumes "channels w ch = Some c" and "loops w l = Some lp"
    and "ch_fd c < map_size (channelMap lp)" and "destroyCallback c = Some f"
    and "open_fds w (ch_fd c)" and "ch_fd c \<noteq> epfd (dispatcherData lp)"
    and "ep_set (dispatcherData lp) (ch_fd c) \<noteq> None"
  shows "run_task call_destroy l DELETE ch w = Some (call_destroy f (ch_arg c) (unwatched l (ch_fd c) w))"
proof -
  have "get_epoll l w = dispatcherData lp" using assms(2) by (simp add: get_epoll_def the_loop_def)
  moreover have "put_epoll l ((dispatcherData lp)\<lparr>ep_set := (ep_set (dispatcherData lp))(ch_fd c := None)\<rparr>) w =
      unwatched l (ch_fd c) w"
    using assms(2) by (simp add: put_epoll_def unwatched_def upd_loop_def)
  ultimately show ?thesis
    using assms
    by (cases "call_destroy f (ch_arg c) (unwatched l (ch_fd c) w)")
      (simp_all add: run_task_def eventLoopRemove_def epollRemove_eq)
qed

section \<open>A live connection\<close>

text \<open>
  Everything a connection points to is allocated and well formed, its channel is the one its loop
  has in the slot of the descriptor, and the kernel may watch the descriptor.
\<close>

definition slot_ok :: "event_loop \<Rightarrow> channel \<Rightarrow> nat \<Rightarrow> bool" where
  "slot_ok lp c ch \<longleftrightarrow> 0 \<le> ch_fd c \<and> ch_fd c < map_size (channelMap lp) \<and>
     int (length (map_list (channelMap lp))) = map_size (channelMap lp) \<and>
     map_list (channelMap lp) ! nat (ch_fd c) = Some ch \<and> ch_fd c \<noteq> epfd (dispatcherData lp)"

definition conn_channel_ok :: "channel \<Rightarrow> nat \<Rightarrow> bool" where
  "conn_channel_ok c p \<longleftrightarrow> readCallback c = Some ProcessRead \<and> writeCallback c = Some ProcessWrite \<and>
     destroyCallback c = Some TcpConnectionDestroy \<and> ch_arg c = ConnArg p"

definition conn_live :: "world \<Rightarrow> nat \<Rightarrow> bool" where
  "conn_live w p \<longleftrightarrow>
     (case conns w p of
        None \<Rightarrow> False
      | Some conn \<Rightarrow>
          (case (channels w (conn_channel conn), loops w (conn_loop conn)) of
             (Some c, Some lp) \<Rightarrow>
               slot_ok lp c (conn_channel conn) \<and> conn_channel_ok c p \<and> open_fds w (ch_fd c)
           | _ \<Rightarrow> False) \<and>
          (case (readBuf conn, writeBuf conn, conn_request conn, conn_response conn) of
             (Some rb, Some wb, Some rq, Some rs) \<Rightarrow>
               rb \<noteq> wb \<and>
               (case (bufs w rb, bufs w wb, reqs w rq, resps w rs) of
                  (Some r, Some b, Some q, Some s) \<Rightarrow>
                    buffer_inv r \<and> buffer_inv b \<and> req_wf q \<and> response_wf s
                | _ \<Rightarrow> False)
           | _ \<Rightarrow> False))"

lemma conn_liveE:
  assumes "conn_live w p"
  obtains conn c lp rb wb rq rs r b q s where
    "conns w p = Some conn" "channels w (conn_channel conn) = Some c" "loops w (conn_loop conn) = Some lp"
    "slot_ok lp c (conn_channel conn)" "conn_channel_ok c p" "open_fds w (ch_fd c)"
    "readBuf conn = Some rb" "writeBuf conn = Some wb" "conn_request conn = Some rq"
    "conn_response conn = Some rs" "rb \<noteq> wb" "bufs w rb = Some r" "bufs w wb = Some b"
    "reqs w rq = Some q" "resps w rs = Some s" "buffer_inv r" "buffer_inv b" "req_wf q" "response_wf s"
  using assms
  by (cases "conns w p") (auto simp: conn_live_def split: option.splits)

text \<open>The parts of a connection, by name.\<close>

definition the_conn :: "world \<Rightarrow> nat \<Rightarrow> tcp_connection" where
  "the_conn w p = the (conns w p)"

definition conn_chan :: "world \<Rightarrow> nat \<Rightarrow> channel" where
  "conn_chan w p = the (channels w (conn_channel (the_conn w p)))"

definition conn_fd :: "world \<Rightarrow> nat \<Rightarrow> int" where
  "conn_fd w p = ch_fd (conn_chan w p)"

definition read_buffer :: "world \<Rightarrow> nat \<Rightarrow> buffer" where
  "read_buffer w p = the (bufs w (the (readBuf (the_conn w p))))"

definition write_buffer :: "world \<Rightarrow> nat \<Rightarrow> buffer" where
  "write_buffer w p = the (bufs w (the (writeBuf (the_conn w p))))"

definition watched :: "world \<Rightarrow> nat \<Rightarrow> bool" where
  "watched w p \<longleftrightarrow> ep_set (dispatcherData (the_loop w (conn_loop (the_conn w p)))) (conn_fd w p) \<noteq> None"

text \<open>Nothing of the connection \<open>conn\<close> is left: memory, descriptor, slot and kernel list.\<close>

definition released :: "world \<Rightarrow> nat \<Rightarrow> tcp_connection \<Rightarrow> int \<Rightarrow> bool" where
  "released w p conn fd \<longleftrightarrow>
     conns w p = None \<and> channels w (conn_channel conn) = None \<and>
     bufs w (the (readBuf conn)) = None \<and> bufs w (the (writeBuf conn)) = None \<and>
     reqs w (the (conn_request conn)) = None \<and> resps w (the (conn_response conn)) = None \<and>
     \<not> open_fds w fd \<and> 0 \<le> fd \<and> fd < int (length (map_list (channelMap (the_loop w (conn_loop conn))))) \<and>
     map_list (channelMap (the_loop w (conn_loop conn))) ! nat fd = None \<and>
     ep_set (dispatcherData (the_loop w (conn_loop conn))) fd = None"

text \<open>What two worlds may differ in when one connection is served.\<close>

definition others_kept :: "world \<Rightarrow> world \<Rightarrow> nat \<Rightarrow> tcp_connection \<Rightarrow> int \<Rightarrow> bool" where
  "others_kept w w' p conn fd \<longleftrightarrow>
     (\<forall>x. x \<noteq> p \<longrightarrow> conns w' x = conns w x) \<and>
     (\<forall>x. x \<noteq> conn_channel conn \<longrightarrow> channels w' x = channels w x) \<and>
     (\<forall>x. Some x \<notin> {readBuf conn, writeBuf conn} \<longrightarrow> bufs w' x = bufs w x) \<and>
     (\<forall>x. Some x \<noteq> conn_request conn \<longrightarrow> reqs w' x = reqs w x) \<and>
     (\<forall>x. Some x \<noteq> conn_response conn \<longrightarrow> resps w' x = resps w x) \<and>
     (\<forall>x. x \<noteq> fd \<longrightarrow> open_fds w' x = open_fds w x \<and> sent w' x = sent w x)"

lemma free_headers_wf: "req_wf q \<Longrightarrow> free_headers q = Inr ()"
  by (auto simp: req_wf_def free_headers_def split: option.splits)

text \<open>The destroy callback frees all of it, or nothing.\<close>

lemma destroy_live:
  assumes live: "conn_live w p" and conn: "conns w p = Some conn"
  shows "\<exists>w'. tcpConnectionDestroy p w = Inr w' \<and>
    (if contents (read_buffer w p) = [] \<and> contents (write_buffer w p) = []
     then released w' p conn (conn_fd w p) \<and> others_kept w w' p conn (conn_fd w p) \<and>
       sent w' = sent w \<and> self w' = self w \<and> nodes w' = nodes w \<and> next_addr w' = next_addr w \<and>
       (\<forall>l. map_option (\<lambda>lp. (el_head lp, loop_mutex lp, threadID lp)) (loops w' l) =
            map_option (\<lambda>lp. (el_head lp, loop_mutex lp, threadID lp)) (loops w l))
     else w' = w)"
proof -
  from live obtain conn' c lp rb wb rq rs r b q s where
    L: "conns w p = Some conn'" "channels w (conn_channel conn') = Some c" "loops w (conn_loop conn') = Some lp"
    "slot_ok lp c (conn_channel conn')" "conn_channel_ok c p" "open_fds w (ch_fd c)"
    "readBuf conn' = Some rb" "writeBuf conn' = Some wb" "conn_request conn' = Some rq"
    "conn_response conn' = Some rs" "rb \<noteq> wb" "bufs w rb = Some r" "bufs w wb = Some b"
    "reqs w rq = Some q" "resps w rs = Some s" "buffer_inv r" "buffer_inv b" "req_wf q" "response_wf s"
    by (rule conn_liveE)
  have eq: "conn' = conn" using L(1) conn by simp
  note L = L [unfolded eq]
  have names: "the_conn w p = conn" "conn_chan w p = c" "conn_fd w p = ch_fd c"
      "read_buffer w p = r" "write_buffer w p = b"
    using L by (simp_all add: the_conn_def conn_chan_def conn_fd_def read_buffer_def write_buffer_def)
  have e: "bufferReadableSize r = 0 \<longleftrightarrow> contents r = []" "bufferReadableSize b = 0 \<longleftrightarrow> contents b = []"
    using readable_length [OF L(16)] readable_length [OF L(17)] by auto
  have be: "buffers_empty conn (bufs w) = Inr (contents r = [] \<and> contents b = [])"
    using L e by (auto simp: buffers_empty_def)
  show ?thesis
  proof (cases "contents r = [] \<and> contents b = []")
    case False
    then have n: "(contents r = [] \<and> contents b = []) = False" by blast
    have "tcpConnectionDestroy p w = Inr w" by (simp add: tcpConnectionDestroy_def L(1) be n)
    then show ?thesis unfolding names n by simp
  next
    case True
    have sl: "0 \<le> ch_fd c" "ch_fd c < int (length (map_list (channelMap lp)))"
      "nat (ch_fd c) < length (map_list (channelMap lp))"
      using L(4) by (auto simp: slot_ok_def)
    let ?m = "(channelMap lp)\<lparr>map_list := (map_list (channelMap lp))[nat (ch_fd c) := None]\<rparr>"
    let ?w1 = "(close_fd (ch_fd c) (set_map (conn_loop conn) ?m w))\<lparr>channels := (channels w)(conn_channel conn := None)\<rparr>"
    have d: "destroyChannel (conn_loop conn) (conn_channel conn) w = Inr ?w1"
      using L sl by (simp add: destroyChannel_def Let_def close_fd_def set_map_def)
    let ?w2 = "?w1\<lparr>bufs := (bufs w)(rb := None, wb := None), reqs := (reqs w)(rq := None),
      resps := (resps w)(rs := None), conns := (conns w)(p := None),
      stales := stales w @ [StaleWrite rs] @ [StaleRead p]\<rparr>"
    have k: "tcpConnectionDestroy p w = Inr ?w2"
      using L True d by (simp add: tcpConnectionDestroy_def be bufferDestroy_def httpRequestDestroy_def
          httpResponseDestroy_def httpRequestResetEx_def free_headers_wf close_fd_def set_map_def)
    have "released ?w2 p conn (ch_fd c)"
      using L sl by (simp add: released_def close_fd_def set_map_def the_loop_def)
    moreover have "others_kept w ?w2 p conn (ch_fd c)"
      using L by (auto simp: others_kept_def close_fd_def set_map_def)
    moreover have "map_option (\<lambda>lp. (el_head lp, loop_mutex lp, threadID lp)) (loops ?w2 l) =
        map_option (\<lambda>lp. (el_head lp, loop_mutex lp, threadID lp)) (loops w l)" for l
      by (cases "l = conn_loop conn") (simp_all add: close_fd_def set_map_def option.map_comp comp_def)
    ultimately show ?thesis
      using True k by (auto simp: names close_fd_def set_map_def)
  qed
qed

section \<open>Tasks for a connection\<close>

text \<open>The same connection in another world: only kernel lists, queues and the write event differ.\<close>

definition same_conn :: "world \<Rightarrow> world \<Rightarrow> nat \<Rightarrow> bool" where
  "same_conn w w' p \<longleftrightarrow> conns w' = conns w \<and> bufs w' = bufs w \<and> reqs w' = reqs w \<and> resps w' = resps w \<and>
     open_fds w' = open_fds w \<and> sent w' = sent w \<and> self w' = self w \<and> answers w' = answers w \<and>
     tick w' = tick w \<and> os w' = os w \<and> inbox w' = inbox w \<and> stales w' = stales w \<and>
     (\<forall>x. x \<noteq> conn_channel (the_conn w p) \<longrightarrow> channels w' x = channels w x) \<and>
     (\<exists>f. channels w' (conn_channel (the_conn w p)) =
        map_option (\<lambda>c. writeEventEnable c f) (channels w (conn_channel (the_conn w p))) \<or>
      channels w' (conn_channel (the_conn w p)) = channels w (conn_channel (the_conn w p))) \<and>
     (\<forall>l. map_option (\<lambda>lp. (channelMap lp, epfd (dispatcherData lp))) (loops w' l) =
          map_option (\<lambda>lp. (channelMap lp, epfd (dispatcherData lp))) (loops w l))"

lemma same_conn_live:
  assumes "conn_live w p" and "same_conn w w' p"
  shows "conn_live w' p" and "conn_fd w' p = conn_fd w p" and "the_conn w' p = the_conn w p"
    and "read_buffer w' p = read_buffer w p" and "write_buffer w' p = write_buffer w p"
proof -
  from assms(1) obtain conn c lp rb wb rq rs r b q s where
    L: "conns w p = Some conn" "channels w (conn_channel conn) = Some c" "loops w (conn_loop conn) = Some lp"
    "slot_ok lp c (conn_channel conn)" "conn_channel_ok c p" "open_fds w (ch_fd c)"
    "readBuf conn = Some rb" "writeBuf conn = Some wb" "conn_request conn = Some rq"
    "conn_response conn = Some rs" "rb \<noteq> wb" "bufs w rb = Some r" "bufs w wb = Some b"
    "reqs w rq = Some q" "resps w rs = Some s" "buffer_inv r" "buffer_inv b" "req_wf q" "response_wf s"
    by (rule conn_liveE)
  have tc: "the_conn w p = conn" using L(1) by (simp add: the_conn_def)
  from assms(2) have same: "conns w' = conns w" "bufs w' = bufs w" "reqs w' = reqs w" "resps w' = resps w"
      "open_fds w' = open_fds w"
    and chs: "\<exists>f. channels w' (conn_channel conn) =
        map_option (\<lambda>c. writeEventEnable c f) (channels w (conn_channel conn)) \<or>
      channels w' (conn_channel conn) = channels w (conn_channel conn)"
    and lps: "map_option (\<lambda>lp. (channelMap lp, epfd (dispatcherData lp))) (loops w' (conn_loop conn)) =
          map_option (\<lambda>lp. (channelMap lp, epfd (dispatcherData lp))) (loops w (conn_loop conn))"
    unfolding same_conn_def tc by simp_all
  obtain c' where c': "channels w' (conn_channel conn) = Some c'" "ch_fd c' = ch_fd c" "conn_channel_ok c' p"
    using chs L(2,5) by (auto simp: conn_channel_ok_def)
  obtain lp' where lp': "loops w' (conn_loop conn) = Some lp'" "channelMap lp' = channelMap lp"
      "epfd (dispatcherData lp') = epfd (dispatcherData lp)"
    using lps L(3) by auto
  have "slot_ok lp' c' (conn_channel conn)" using L(4) c'(2) lp'(2,3) by (simp add: slot_ok_def)
  with L c' lp' same show "conn_live w' p" by (simp add: conn_live_def)
  show "conn_fd w' p = conn_fd w p"
    using c' L(1,2) same(1) by (simp add: conn_fd_def conn_chan_def the_conn_def)
  show "the_conn w' p = the_conn w p" "read_buffer w' p = read_buffer w p" "write_buffer w' p = write_buffer w p"
    using same by (simp_all add: the_conn_def read_buffer_def write_buffer_def)
qed

lemma same_conn_trans: "same_conn w w1 p \<Longrightarrow> (\<forall>x. channels w2 x = channels w1 x) \<Longrightarrow>
   conns w2 = conns w1 \<Longrightarrow> bufs w2 = bufs w1 \<Longrightarrow> reqs w2 = reqs w1 \<Longrightarrow> resps w2 = resps w1 \<Longrightarrow>
   open_fds w2 = open_fds w1 \<Longrightarrow> sent w2 = sent w1 \<Longrightarrow> self w2 = self w1 \<Longrightarrow> answers w2 = answers w1 \<Longrightarrow>
   tick w2 = tick w1 \<Longrightarrow> os w2 = os w1 \<Longrightarrow> inbox w2 = inbox w1 \<Longrightarrow> stales w2 = stales w1 \<Longrightarrow>
   (\<forall>l. map_option (\<lambda>lp. (channelMap lp, epfd (dispatcherData lp))) (loops w2 l) =
        map_option (\<lambda>lp. (channelMap lp, epfd (dispatcherData lp))) (loops w1 l)) \<Longrightarrow> same_conn w w2 p"
  by (simp add: same_conn_def)

lemma loop_facts_upd:
  assumes "\<And>lp. channelMap (f lp) = channelMap lp" and "\<And>lp. epfd (dispatcherData (f lp)) = epfd (dispatcherData lp)"
  shows "map_option (\<lambda>lp. (channelMap lp, epfd (dispatcherData lp))) (loops (upd_loop l f w) l') =
    map_option (\<lambda>lp. (channelMap lp, epfd (dispatcherData lp))) (loops w l')"
  by (cases "l' = l") (simp_all add: option.map_comp comp_def assms)

lemma loop_facts_settled:
  "map_option (\<lambda>lp. (channelMap lp, epfd (dispatcherData lp))) (loops (settled l w0 w) l') =
    map_option (\<lambda>lp. (channelMap lp, epfd (dispatcherData lp))) (loops w l')"
  by (cases "l' = l") (simp_all add: option.map_comp comp_def settled_def)

text \<open>Telling the kernel the channel's events.\<close>

lemma modify_conn:
  assumes live: "conn_live w p" and w: "watched w p" and idle: "idle w (conn_loop (the_conn w p))"
  shows "\<exists>w'. addTask (conn_loop (the_conn w p)) (conn_channel (the_conn w p)) MODIFY w = Some (Inr w') \<and>
    same_conn w w' p \<and> channels w' = channels w \<and> watched w' p \<and> idle w' (conn_loop (the_conn w p)) \<and>
    ep_set (dispatcherData (the_loop w' (conn_loop (the_conn w p)))) (conn_fd w p) = Some (watch_mask (conn_chan w p))"
proof -
  from live obtain conn c lp where
    L: "conns w p = Some conn" "channels w (conn_channel conn) = Some c" "loops w (conn_loop conn) = Some lp"
    "slot_ok lp c (conn_channel conn)" "open_fds w (ch_fd c)" by (rule conn_liveE)
  let ?l = "conn_loop conn"
  have names: "the_conn w p = conn" "conn_chan w p = c" "conn_fd w p = ch_fd c" "the_loop w ?l = lp"
    using L by (simp_all add: the_conn_def conn_chan_def conn_fd_def the_loop_def)
  have sl: "0 \<le> ch_fd c" "ch_fd c < int (length (map_list (channelMap lp)))"
    "map_list (channelMap lp) ! nat (ch_fd c) \<noteq> None" "ch_fd c \<noteq> epfd (dispatcherData lp)"
    using L(4) by (auto simp: slot_ok_def)
  have ep: "ep_set (dispatcherData lp) (ch_fd c) \<noteq> None" using w by (simp add: watched_def names)
  have t: "run_task call_destroy ?l MODIFY (conn_channel conn) w = Some (Inr (rewatched ?l c w))"
    by (rule modify_task [OF L(2,3) sl(1-3) L(5) sl(4) ep])
  let ?w = "settled ?l w (rewatched ?l c w)"
  have "addTask ?l (conn_channel conn) MODIFY w = Some (Inr ?w)"
    using addTask_idle idle t by (simp add: names)
  moreover have "same_conn w ?w p"
    by (simp add: same_conn_def loop_facts_settled) (simp add: rewatched_def loop_facts_upd)
  moreover have "channels ?w = channels w" by (simp add: rewatched_def)
  moreover have "the_conn ?w p = conn" "conn_fd ?w p = ch_fd c"
    using L by (simp_all add: the_conn_def conn_fd_def conn_chan_def rewatched_def)
  then have "watched ?w p" using L(3) by (simp add: watched_def the_loop_def rewatched_def)
  moreover have "idle ?w ?l"
    using idle L(3) by (simp add: names idle_def rewatched_def)
  moreover have "ep_set (dispatcherData (the_loop ?w ?l)) (ch_fd c) = Some (watch_mask c)"
    using L(3) by (simp add: the_loop_def rewatched_def)
  ultimately show ?thesis unfolding names by blast
qed

lemma released_settled:
  "released (settled (conn_loop conn) w0 w) p conn fd = released w p conn fd" if "loops w (conn_loop conn) \<noteq> None"
  using that by (auto simp: released_def the_loop_def)

lemma others_kept_settled: "others_kept w (settled l w0 w') p conn fd = others_kept w w' p conn fd"
  by (simp add: others_kept_def)

lemma others_kept_unwatched: "others_kept (unwatched l f w) w' p conn fd = others_kept w w' p conn fd"
  by (simp add: others_kept_def unwatched_def)

text \<open>Taking the connection off the kernel's list, which destroys it if its buffers are empty.\<close>

lemma delete_conn:
  assumes live: "conn_live w p" and w: "watched w p" and idle: "idle w (conn_loop (the_conn w p))"
  shows "\<exists>w'. addTask (conn_loop (the_conn w p)) (conn_channel (the_conn w p)) DELETE w = Some (Inr w') \<and>
    sent w' = sent w \<and> idle w' (conn_loop (the_conn w p)) \<and>
    (if contents (read_buffer w p) = [] \<and> contents (write_buffer w p) = []
     then released w' p (the_conn w p) (conn_fd w p) \<and> others_kept w w' p (the_conn w p) (conn_fd w p)
     else same_conn w w' p \<and> channels w' = channels w \<and> \<not> watched w' p)"
proof -
  from live obtain conn c lp where
    L: "conns w p = Some conn" "channels w (conn_channel conn) = Some c" "loops w (conn_loop conn) = Some lp"
    "slot_ok lp c (conn_channel conn)" "conn_channel_ok c p" "open_fds w (ch_fd c)" by (rule conn_liveE)
  let ?l = "conn_loop conn"
  let ?u = "unwatched ?l (ch_fd c) w"
  have names: "the_conn w p = conn" "conn_chan w p = c" "conn_fd w p = ch_fd c" "the_loop w ?l = lp"
    using L by (simp_all add: the_conn_def conn_chan_def conn_fd_def the_loop_def)
  have sl: "ch_fd c < map_size (channelMap lp)" "ch_fd c \<noteq> epfd (dispatcherData lp)"
    using L(4) by (auto simp: slot_ok_def)
  have cb: "destroyCallback c = Some TcpConnectionDestroy" "ch_arg c = ConnArg p"
    using L(5) by (simp_all add: conn_channel_ok_def)
  have ep: "ep_set (dispatcherData lp) (ch_fd c) \<noteq> None" using w by (simp add: watched_def names)
  have t: "run_task call_destroy ?l DELETE (conn_channel conn) w = Some (tcpConnectionDestroy p ?u)"
    using delete_task [OF L(2,3) sl(1) cb(1) L(6) sl(2) ep] cb(2) by (simp add: call_destroy_def)
  have same: "same_conn w ?u p"
    by (simp add: same_conn_def) (simp add: unwatched_def loop_facts_upd)
  note su = same_conn_live [OF live same]
  have cu: "conns ?u p = Some conn" using L(1) by (simp add: unwatched_def)
  from destroy_live [OF su(1) cu] obtain w1 where
    w1: "tcpConnectionDestroy p ?u = Inr w1"
      "if contents (read_buffer w p) = [] \<and> contents (write_buffer w p) = []
       then released w1 p conn (ch_fd c) \<and> others_kept ?u w1 p conn (ch_fd c) \<and>
         sent w1 = sent ?u \<and> self w1 = self ?u \<and> nodes w1 = nodes ?u \<and> next_addr w1 = next_addr ?u \<and>
         (\<forall>l. map_option (\<lambda>lp. (el_head lp, loop_mutex lp, threadID lp)) (loops w1 l) =
              map_option (\<lambda>lp. (el_head lp, loop_mutex lp, threadID lp)) (loops ?u l))
       else w1 = ?u"
    unfolding su names by blast
  let ?w = "settled ?l w w1"
  have a: "addTask ?l (conn_channel conn) DELETE w = Some (Inr ?w)"
    using addTask_idle idle t w1(1) by (simp add: names)
  have lu: "loops ?u ?l = Some (lp\<lparr>dispatcherData := (dispatcherData lp)
      \<lparr>ep_set := (ep_set (dispatcherData lp))(ch_fd c := None)\<rparr>\<rparr>)"
    using L(3) by (simp add: unwatched_def)
  have th: "threadID lp = self w" using idle L(3) by (simp add: names idle_def)
  show ?thesis
  proof (cases "contents (read_buffer w p) = [] \<and> contents (write_buffer w p) = []")
    case True
    with w1(2) have R: "released w1 p conn (ch_fd c)" "others_kept ?u w1 p conn (ch_fd c)" "sent w1 = sent w"
        "self w1 = self w"
        "map_option (\<lambda>lp. (el_head lp, loop_mutex lp, threadID lp)) (loops w1 ?l) =
         map_option (\<lambda>lp. (el_head lp, loop_mutex lp, threadID lp)) (loops ?u ?l)"
      by (simp_all add: unwatched_def)
    from R(5) lu obtain lp1 where lp1: "loops w1 ?l = Some lp1" "threadID lp1 = threadID lp" by auto
    have "idle ?w ?l" using idle lp1 th R(4) by (simp add: names idle_def)
    with True R a lp1 show ?thesis
      unfolding names by (auto simp: released_settled others_kept_settled others_kept_unwatched)
  next
    case False
    with w1(2) have w1u: "w1 = ?u" by (simp split: if_splits)
    have i: "idle ?w ?l" using idle lu th by (simp add: names idle_def w1u) (simp add: unwatched_def)
    have s: "same_conn w ?w p"
      by (simp add: w1u same_conn_def loop_facts_settled) (simp add: unwatched_def loop_facts_upd)
    have "the_conn ?w p = conn" "conn_fd ?w p = ch_fd c"
      using same_conn_live [OF live s] names by simp_all
    then have nw: "\<not> watched ?w p"
      using lu by (simp add: watched_def the_loop_def w1u)
    have "channels ?w = channels w" "sent ?w = sent w" by (simp_all add: w1u unwatched_def)
    with a i s nw False show ?thesis unfolding names by auto
  qed
qed

section \<open>Writing\<close>

lemma sendData_accepts:
  assumes inv: "buffer_inv b" and "contents b \<noteq> []" and "0 < n"
  obtains b' where "bufferSendData b (SendOk n) = (int (min n (length (contents b))), b', take n (contents b))"
    "buffer_inv b'" "contents b' = drop n (contents b)"
proof -
  let ?c = "contents b"
  have r: "bufferReadableSize b = int (length ?c)" using readable_length [OF inv] .
  let ?m = "min (int n) (int (length ?c))"
  have m: "?m = int (min n (length ?c))" by simp
  have pos: "0 < int (length ?c)" "0 < ?m" using assms(2,3) by simp_all
  obtain b' where s: "bufferSendData b (SendOk n) = (?m, b', take (nat ?m) ?c)"
    using pos by (simp add: bufferSendData_def Let_def r)
  have t: "take (nat ?m) ?c = take n ?c" unfolding m by (simp add: min_def)
  from sendData_step [OF inv s] have "buffer_inv b'" "?c = take n ?c @ contents b'" unfolding t by simp_all
  moreover from this(2) have "contents b' = drop n ?c" by (metis append_take_drop_id same_append_eq)
  ultimately show ?thesis using that s [unfolded t, unfolded m] by blast
qed

text \<open>A connection whose buffers have been replaced.\<close>

lemma conn_live_bufs:
  assumes live: "conn_live w p" and "buffer_inv r'" and "buffer_inv b'"
    and w': "w' = w\<lparr>bufs := (bufs w)(the (readBuf (the_conn w p)) \<mapsto> r', the (writeBuf (the_conn w p)) \<mapsto> b'), sent := st\<rparr>"
  shows "conn_live w' p" and "conn_fd w' p = conn_fd w p" and "the_conn w' p = the_conn w p"
    and "conn_chan w' p = conn_chan w p" and "read_buffer w' p = r'" and "write_buffer w' p = b'"
    and "watched w' p = watched w p" and "idle w' l = idle w l"
proof -
  from live obtain conn c lp rb wb rq rs r b q s where
    L: "conns w p = Some conn" "channels w (conn_channel conn) = Some c" "loops w (conn_loop conn) = Some lp"
    "slot_ok lp c (conn_channel conn)" "conn_channel_ok c p" "open_fds w (ch_fd c)"
    "readBuf conn = Some rb" "writeBuf conn = Some wb" "conn_request conn = Some rq"
    "conn_response conn = Some rs" "rb \<noteq> wb" "bufs w rb = Some r" "bufs w wb = Some b"
    "reqs w rq = Some q" "resps w rs = Some s" "buffer_inv r" "buffer_inv b" "req_wf q" "response_wf s"
    by (rule conn_liveE)
  have tc: "the_conn w p = conn" using L(1) by (simp add: the_conn_def)
  show "conn_live w' p" using L assms(2,3) by (simp add: conn_live_def w' tc)
  show "conn_fd w' p = conn_fd w p" "the_conn w' p = the_conn w p" "conn_chan w' p = conn_chan w p"
    by (simp_all add: conn_fd_def the_conn_def conn_chan_def w')
  show "read_buffer w' p = r'" "write_buffer w' p = b'"
    using L tc by (simp_all add: read_buffer_def write_buffer_def w' the_conn_def)
  show "watched w' p = watched w p" "idle w' l = idle w l"
    by (simp_all add: watched_def the_loop_def the_conn_def conn_fd_def conn_chan_def w' idle_def
        cong: option.case_cong)
qed

lemma set_write_conn:
  assumes live: "conn_live w p"
  obtains w' where "set_write (conn_channel (the_conn w p)) f w = Inr w'" "same_conn w w' p"
    "conn_chan w' p = writeEventEnable (conn_chan w p) f" "loops w' = loops w"
    "watched w' p = watched w p" "idle w' l = idle w l"
proof -
  from live obtain conn c where
    L: "conns w p = Some conn" "channels w (conn_channel conn) = Some c" by (rule conn_liveE)
  let ?w = "w\<lparr>channels := (channels w)(conn_channel conn \<mapsto> writeEventEnable c f)\<rparr>"
  have tc: "the_conn w p = conn" "conn_chan w p = c" using L by (simp_all add: the_conn_def conn_chan_def)
  show ?thesis
  proof (rule that)
    show "set_write (conn_channel (the_conn w p)) f w = Inr ?w" using L by (simp add: set_write_def tc)
    show "same_conn w ?w p" using L by (auto simp: same_conn_def tc)
    show "conn_chan ?w p = writeEventEnable (conn_chan w p) f"
      unfolding tc using L by (simp add: conn_chan_def the_conn_def)
    then have "conn_fd ?w p = conn_fd w p" by (simp add: conn_fd_def)
    then show "watched ?w p = watched w p" by (simp add: watched_def the_loop_def the_conn_def)
  qed (simp_all add: idle_def cong: option.case_cong)
qed

lemma same_conn_trans2:
  assumes "same_conn w w1 p" and "same_conn w1 w2 p" and "channels w2 = channels w1"
  shows "same_conn w w2 p"
  using assms by (simp add: same_conn_def)

lemma others_kept_from_same:
  assumes "same_conn w w1 p" and "the_conn w p = conn" and "others_kept w1 w' p conn fd"
  shows "others_kept w w' p conn fd"
  using assms by (auto simp: others_kept_def same_conn_def)

lemma others_kept_same: "same_conn w w1 p \<Longrightarrow> others_kept w w1 p (the_conn w p) fd"
  by (simp add: others_kept_def same_conn_def)

lemma others_kept_trans:
  "others_kept w w1 p conn fd \<Longrightarrow> others_kept w1 w2 p conn fd \<Longrightarrow> others_kept w w2 p conn fd"
  by (simp add: others_kept_def)

text \<open>After the last byte: write event off, kernel told, connection deleted.\<close>

lemma finish_write:
  assumes live: "conn_live w p" and wt: "watched w p" and idle: "idle w (conn_loop (the_conn w p))"
    and empty: "contents (write_buffer w p) = []"
  shows "\<exists>w'. bindO (lift (set_write (conn_channel (the_conn w p)) False w)) (\<lambda>w1.
      bindO (addTask (conn_loop (the_conn w p)) (conn_channel (the_conn w p)) MODIFY w1) (\<lambda>w1.
      bindO (lift (lookup (conns w1) p)) (\<lambda>conn.
      addTask (conn_loop conn) (conn_channel conn) DELETE w1))) = Some (Inr w') \<and>
    sent w' = sent w \<and> idle w' (conn_loop (the_conn w p)) \<and>
    (if contents (read_buffer w p) = []
     then released w' p (the_conn w p) (conn_fd w p) \<and> others_kept w w' p (the_conn w p) (conn_fd w p)
     else same_conn w w' p \<and> \<not> watched w' p)"
proof -
  let ?l = "conn_loop (the_conn w p)" and ?ch = "conn_channel (the_conn w p)"
  obtain w1 where w1: "set_write ?ch False w = Inr w1" "same_conn w w1 p" "watched w1 p" "idle w1 ?l"
    using set_write_conn [OF live, of False ?l] wt idle by metis
  note s1 = same_conn_live [OF live w1(2)]
  obtain w2 where w2: "addTask ?l ?ch MODIFY w1 = Some (Inr w2)" "same_conn w1 w2 p"
      "channels w2 = channels w1" "watched w2 p" "idle w2 ?l"
    using modify_conn [OF s1(1) w1(3)] w1(4) unfolding s1(3) by metis
  have ww2: "same_conn w w2 p" by (rule same_conn_trans2 [OF w1(2) w2(2,3)])
  note s2 = same_conn_live [OF live ww2]
  obtain w3 where w3: "addTask ?l ?ch DELETE w2 = Some (Inr w3)" "sent w3 = sent w2" "idle w3 ?l"
      "if contents (read_buffer w p) = [] \<and> contents (write_buffer w p) = []
       then released w3 p (the_conn w p) (conn_fd w p) \<and> others_kept w2 w3 p (the_conn w p) (conn_fd w p)
       else same_conn w2 w3 p \<and> channels w3 = channels w2 \<and> \<not> watched w3 p"
    using delete_conn [OF s2(1) w2(4)] w2(5) unfolding s2(2-5) by metis
  have "conns w2 p = Some (the_conn w p)"
    using s2(1,3) by (auto simp: the_conn_def conn_live_def split: option.splits)
  then have "bindO (lift (set_write ?ch False w)) (\<lambda>w. bindO (addTask ?l ?ch MODIFY w) (\<lambda>w.
      bindO (lift (lookup (conns w) p)) (\<lambda>conn. addTask (conn_loop conn) (conn_channel conn) DELETE w))) =
      Some (Inr w3)"
    using w1(1) w2(1) w3(1) by simp
  moreover have "sent w3 = sent w" using w3(2) ww2 by (simp add: same_conn_def)
  ultimately show ?thesis
    using w3(3,4) empty others_kept_from_same [OF ww2 refl] same_conn_trans2 [OF ww2]
    by (intro exI [of _ w3]) (simp split: if_splits)
qed

text \<open>A connection the kernel no longer watches cannot be told so once more.\<close>

lemma processWrite_unwatched:
  assumes live: "conn_live w p" and nw: "\<not> watched w p" and idle: "idle w (conn_loop (the_conn w p))"
    and ne: "contents (write_buffer w p) \<noteq> []" and n: "length (contents (write_buffer w p)) \<le> n"
    and io: "io_send (answers w (tick w)) = SendOk n"
  shows "processWrite p w = Some (Inl ProcessExit)"
proof -
  from live obtain conn c lp rb wb rq rs r b q s where
    L: "conns w p = Some conn" "channels w (conn_channel conn) = Some c" "loops w (conn_loop conn) = Some lp"
    "slot_ok lp c (conn_channel conn)" "conn_channel_ok c p" "open_fds w (ch_fd c)"
    "readBuf conn = Some rb" "writeBuf conn = Some wb" "conn_request conn = Some rq"
    "conn_response conn = Some rs" "rb \<noteq> wb" "bufs w rb = Some r" "bufs w wb = Some b"
    "reqs w rq = Some q" "resps w rs = Some s" "buffer_inv r" "buffer_inv b" "req_wf q" "response_wf s"
    by (rule conn_liveE)
  have names: "the_conn w p = conn" "conn_fd w p = ch_fd c" "write_buffer w p = b" "the_loop w (conn_loop conn) = lp"
    using L by (simp_all add: the_conn_def conn_chan_def conn_fd_def write_buffer_def the_loop_def)
  have "0 < n" using ne n by (cases "contents (write_buffer w p)") auto
  then obtain b' where b': "bufferSendData b (SendOk n) = (int (min n (length (contents b))), b', take n (contents b))"
      "buffer_inv b'" "contents b' = drop n (contents b)"
    using sendData_accepts [OF L(17) ne [unfolded names]] by blast
  have sent_all: "bufferReadableSize b' = 0" "0 < int (min n (length (contents b)))"
    using readable_length [OF b'(2)] b'(3) n ne \<open>0 < n\<close> by (simp_all add: names)
  let ?w = "w\<lparr>bufs := (bufs w)(wb \<mapsto> b'), sent := (sent w)(ch_fd c := sent w (ch_fd c) @ take n (contents b)),
    channels := (channels w)(conn_channel conn \<mapsto> writeEventEnable c False)\<rparr>"
  have idle': "idle ?w (conn_loop conn)" using idle by (simp add: idle_def names cong: option.case_cong)
  have sl: "0 \<le> ch_fd c" "ch_fd c < int (length (map_list (channelMap lp)))"
    "map_list (channelMap lp) ! nat (ch_fd c) \<noteq> None"
    using L(4) by (auto simp: slot_ok_def)
  have "ep_set (dispatcherData lp) (ch_fd c) = None" using nw by (simp add: watched_def names)
  then have "run_task call_destroy (conn_loop conn) MODIFY (conn_channel conn) ?w = Some (Inl ProcessExit)"
    using L sl by (intro modify_refused [where c = "writeEventEnable c False" and lp = lp]) simp_all
  then have "addTask (conn_loop conn) (conn_channel conn) MODIFY ?w = Some (Inl ProcessExit)"
    by (simp add: addTask_idle [OF idle'])
  with L b'(1) sent_all io show ?thesis
    by (simp add: processWrite_def Let_def set_write_def)
qed

lemma processWrite_step:
  assumes live: "conn_live w p" and wt: "watched w p" and idle: "idle w (conn_loop (the_conn w p))"
    and ne: "contents (write_buffer w p) \<noteq> []" and n: "0 < n"
    and io: "io_send (answers w (tick w)) = SendOk n"
  shows "\<exists>w'. processWrite p w = Some (Inr w') \<and> idle w' (conn_loop (the_conn w p)) \<and>
    sent w' = (sent w)(conn_fd w p := sent w (conn_fd w p) @ take n (contents (write_buffer w p))) \<and>
    (if n < length (contents (write_buffer w p))
     then conn_live w' p \<and> watched w' p \<and> conn_chan w' p = conn_chan w p \<and>
       contents (write_buffer w' p) = drop n (contents (write_buffer w p)) \<and>
       read_buffer w' p = read_buffer w p \<and> the_conn w' p = the_conn w p \<and> tick w' = tick w \<and>
       answers w' = answers w \<and> others_kept w w' p (the_conn w p) (conn_fd w p)
     else if contents (read_buffer w p) = []
     then released w' p (the_conn w p) (conn_fd w p) \<and> others_kept w w' p (the_conn w p) (conn_fd w p)
     else conn_live w' p \<and> \<not> watched w' p)"
proof -
  from live obtain conn c lp rb wb rq rs r b q s where
    L: "conns w p = Some conn" "channels w (conn_channel conn) = Some c" "loops w (conn_loop conn) = Some lp"
    "slot_ok lp c (conn_channel conn)" "conn_channel_ok c p" "open_fds w (ch_fd c)"
    "readBuf conn = Some rb" "writeBuf conn = Some wb" "conn_request conn = Some rq"
    "conn_response conn = Some rs" "rb \<noteq> wb" "bufs w rb = Some r" "bufs w wb = Some b"
    "reqs w rq = Some q" "resps w rs = Some s" "buffer_inv r" "buffer_inv b" "req_wf q" "response_wf s"
    by (rule conn_liveE)
  have names: "the_conn w p = conn" "conn_chan w p = c" "conn_fd w p = ch_fd c"
      "read_buffer w p = r" "write_buffer w p = b"
    using L by (simp_all add: the_conn_def conn_chan_def conn_fd_def read_buffer_def write_buffer_def)
  obtain b' where b': "bufferSendData b (SendOk n) = (int (min n (length (contents b))), b', take n (contents b))"
      "buffer_inv b'" "contents b' = drop n (contents b)"
    using sendData_accepts [OF L(17) ne [unfolded names] n] by blast
  let ?st = "(sent w)(ch_fd c := sent w (ch_fd c) @ take n (contents b))"
  let ?w = "w\<lparr>bufs := (bufs w)(wb \<mapsto> b'), sent := ?st\<rparr>"
  have eqw: "?w = w\<lparr>bufs := (bufs w)(the (readBuf (the_conn w p)) \<mapsto> r, the (writeBuf (the_conn w p)) \<mapsto> b'), sent := ?st\<rparr>"
    using L by (simp add: names fun_upd_idem)
  note cb = conn_live_bufs [OF live L(16) b'(2) eqw]
  have pos: "0 < int (min n (length (contents b)))" using n ne by (simp add: names)
  have e: "bufferReadableSize b' = 0 \<longleftrightarrow> length (contents b) \<le> n"
    using readable_length [OF b'(2)] b'(3) by simp
  let ?fin = "bindO (lift (set_write (conn_channel conn) False ?w)) (\<lambda>w.
      bindO (addTask (conn_loop conn) (conn_channel conn) MODIFY w) (\<lambda>w.
      bindO (lift (lookup (conns w) p)) (\<lambda>conn. addTask (conn_loop conn) (conn_channel conn) DELETE w)))"
  have run: "processWrite p w = (if length (contents b) \<le> n then ?fin else Some (Inr ?w))"
    using L io b'(1) e pos by (simp add: processWrite_def Let_def)
  show ?thesis
  proof (cases "n < length (contents b)")
    case True
    have "others_kept w ?w p conn (ch_fd c)" using L by (auto simp: others_kept_def)
    with True run cb idle wt b'(3) show ?thesis
      unfolding names by (intro exI [of _ ?w]) simp
  next
    case False
    have emp: "contents (write_buffer ?w p) = []" using False b'(3) cb(6) by simp
    obtain w' where w': "?fin = Some (Inr w')" "sent w' = sent ?w" "idle w' (conn_loop conn)"
        "if contents r = [] then released w' p conn (ch_fd c) \<and> others_kept ?w w' p conn (ch_fd c)
         else same_conn ?w w' p \<and> \<not> watched w' p"
      using finish_write [OF cb(1)] wt idle emp unfolding cb names by blast
    have ok: "others_kept w w' p conn (ch_fd c)" if "others_kept ?w w' p conn (ch_fd c)"
      using that L by (auto simp: others_kept_def)
    have lv: "conn_live w' p" if "same_conn ?w w' p" by (rule same_conn_live(1) [OF cb(1) that])
    from False w' run ok lv show ?thesis
      unfolding names by (intro exI [of _ w']) (simp split: if_splits)
  qed
qed

section \<open>Reading\<close>

text \<open>Bytes that fit behind the unread ones.\<close>

definition received_into :: "buffer \<Rightarrow> string \<Rightarrow> buffer" where
  "received_into b s = b\<lparr>buf_data := overwrite (buf_data b) (nat (writePos b)) s,
     writePos := writePos b + int (length s)\<rparr>"

lemma socketRead_fits:
  assumes inv: "buffer_inv b" and fits: "int (length s) \<le> bufferWriteableSize b"
  shows "bufferSocketRead mem b (Some s) = Inr (int (length s), received_into b s)"
    and "buffer_inv (received_into b s)" and "contents (received_into b s) = contents b @ s"
proof -
  note i = buffer_invD [OF inv]
  let ?w = "bufferWriteableSize b"
  have w: "0 \<le> ?w" using i by (simp add: bufferWriteableSize_def)
  have le: "length s \<le> nat (?w + 40960)" "length s \<le> nat ?w" using fits w by simp_all
  have m: "memcpy_at (buf_data b) (writePos b) s (int (length s)) =
      Inr (overwrite (buf_data b) (nat (writePos b)) s)"
    using i fits by (simp add: memcpy_at_def bufferWriteableSize_def)
  show "bufferSocketRead mem b (Some s) = Inr (int (length s), received_into b s)"
    using le m fits by (simp add: bufferSocketRead_def Let_def received_into_def)
  from write_at_end [OF inv fits] show "buffer_inv (received_into b s)"
    "contents (received_into b s) = contents b @ s" by (simp_all add: received_into_def)
qed

text \<open>The log line finds its NUL.\<close>

definition logged_ok :: "buffer \<Rightarrow> bool" where
  "logged_ok b \<longleftrightarrow> NUL \<in> set (drop (nat (readPos b)) (buf_data b))"

text \<open>No more bytes from the peer: the connection is deleted.\<close>

lemma processRead_end_step:
  assumes live: "conn_live w p" and wt: "watched w p" and idle: "idle w (conn_loop (the_conn w p))"
    and io: "io_avail (answers w (tick w)) = None \<or> io_avail (answers w (tick w)) = Some []"
    and log: "logged_ok (read_buffer w p)"
  shows "\<exists>w'. processRead p w = Some (Inr w') \<and> sent w' = sent w \<and> idle w' (conn_loop (the_conn w p)) \<and>
    (if contents (read_buffer w p) = [] \<and> contents (write_buffer w p) = []
     then released w' p (the_conn w p) (conn_fd w p) \<and> others_kept w w' p (the_conn w p) (conn_fd w p)
     else same_conn w w' p \<and> channels w' = channels w \<and> \<not> watched w' p)"
proof -
  from live obtain conn c lp rb wb rq rs r b q s where
    L: "conns w p = Some conn" "channels w (conn_channel conn) = Some c" "loops w (conn_loop conn) = Some lp"
    "slot_ok lp c (conn_channel conn)" "conn_channel_ok c p" "open_fds w (ch_fd c)"
    "readBuf conn = Some rb" "writeBuf conn = Some wb" "conn_request conn = Some rq"
    "conn_response conn = Some rs" "rb \<noteq> wb" "bufs w rb = Some r" "bufs w wb = Some b"
    "reqs w rq = Some q" "resps w rs = Some s" "buffer_inv r" "buffer_inv b" "req_wf q" "response_wf s"
    by (rule conn_liveE)
  have names: "the_conn w p = conn" "read_buffer w p = r"
    using L by (simp_all add: the_conn_def read_buffer_def)
  have "received_into r [] = r" by (simp add: received_into_def)
  then have "\<exists>n \<le> 0. bufferSocketRead (e_mem (os w)) r (io_avail (answers w (tick w))) = Inr (n, r)"
    using io socketRead_fits(1) [OF L(16), of "[]"] buffer_invD [OF L(16)]
    by (auto simp: bufferSocketRead_def [of _ _ None] bufferWriteableSize_def)
  then obtain n where n: "n \<le> 0" "bufferSocketRead (e_mem (os w)) r (io_avail (answers w (tick w))) = Inr (n, r)"
    by blast
  have "w\<lparr>bufs := (bufs w)(rb \<mapsto> r)\<rparr> = w" using L(12) by (simp add: fun_upd_idem)
  then have "processRead p w = addTask (conn_loop conn) (conn_channel conn) DELETE w"
    using L n log by (simp add: processRead_def Let_def logged_ok_def names)
  with delete_conn [OF live wt idle] show ?thesis by (simp add: names)
qed

text \<open>A connection whose request, response and buffers have been replaced.\<close>

lemma conn_live_parsed:
  assumes live: "conn_live w p" and "buffer_inv r'" and "buffer_inv b'" and "req_wf q'" and "response_wf s'"
    and w': "w' = w\<lparr>reqs := (reqs w)(the (conn_request (the_conn w p)) \<mapsto> q'),
      resps := (resps w)(the (conn_response (the_conn w p)) \<mapsto> s'),
      bufs := (bufs w)(the (readBuf (the_conn w p)) \<mapsto> r', the (writeBuf (the_conn w p)) \<mapsto> b'), sent := st\<rparr>"
  shows "conn_live w' p" and "conn_fd w' p = conn_fd w p" and "the_conn w' p = the_conn w p"
    and "conn_chan w' p = conn_chan w p" and "read_buffer w' p = r'" and "write_buffer w' p = b'"
    and "watched w' p = watched w p" and "idle w' l = idle w l"
proof -
  from live obtain conn c lp rb wb rq rs r b q s where
    L: "conns w p = Some conn" "channels w (conn_channel conn) = Some c" "loops w (conn_loop conn) = Some lp"
    "slot_ok lp c (conn_channel conn)" "conn_channel_ok c p" "open_fds w (ch_fd c)"
    "readBuf conn = Some rb" "writeBuf conn = Some wb" "conn_request conn = Some rq"
    "conn_response conn = Some rs" "rb \<noteq> wb" "bufs w rb = Some r" "bufs w wb = Some b"
    "reqs w rq = Some q" "resps w rs = Some s" "buffer_inv r" "buffer_inv b" "req_wf q" "response_wf s"
    by (rule conn_liveE)
  have tc: "the_conn w p = conn" using L(1) by (simp add: the_conn_def)
  show "conn_live w' p" using L assms(2-5) by (simp add: conn_live_def w' tc)
  show "conn_fd w' p = conn_fd w p" "the_conn w' p = the_conn w p" "conn_chan w' p = conn_chan w p"
    by (simp_all add: conn_fd_def the_conn_def conn_chan_def w')
  show "read_buffer w' p = r'" "write_buffer w' p = b'"
    using L tc by (simp_all add: read_buffer_def write_buffer_def w' the_conn_def)
  show "watched w' p = watched w p" "idle w' l = idle w l"
    by (simp_all add: watched_def the_loop_def the_conn_def conn_fd_def conn_chan_def w' idle_def
        cong: option.case_cong)
qed

definition the_request :: "world \<Rightarrow> nat \<Rightarrow> http_request" where
  "the_request w p = the (reqs w (the (conn_request (the_conn w p))))"

definition the_response :: "world \<Rightarrow> nat \<Rightarrow> http_response" where
  "the_response w p = the (resps w (the (conn_response (the_conn w p))))"

text \<open>Bytes from the peer: the write event is switched on, then they are parsed.\<close>

lemma processRead_bytes_step:
  assumes live: "conn_live w p" and wt: "watched w p" and idle: "idle w (conn_loop (the_conn w p))"
    and io: "io_avail (answers w (tick w)) = Some s" "s \<noteq> []"
    and fits: "int (length s) \<le> bufferWriteableSize (read_buffer w p)"
    and log: "logged_ok (received_into (read_buffer w p) s)"
  shows "\<exists>w1. processRead p w = parse_conn p (conn_fd w p) (io_send (answers w (tick w))) w1 \<and>
    conn_live w1 p \<and> the_conn w1 p = the_conn w p \<and> conn_fd w1 p = conn_fd w p \<and>
    read_buffer w1 p = received_into (read_buffer w p) s \<and> write_buffer w1 p = write_buffer w p \<and>
    the_request w1 p = the_request w p \<and> the_response w1 p = the_response w p \<and>
    sent w1 = sent w \<and> os w1 = os w \<and> tick w1 = tick w \<and> answers w1 = answers w \<and>
    watched w1 p \<and> idle w1 (conn_loop (the_conn w p)) \<and>
    ep_set (dispatcherData (the_loop w1 (conn_loop (the_conn w p)))) (conn_fd w p) =
      Some (watch_mask (writeEventEnable (conn_chan w p) True)) \<and>
    others_kept w w1 p (the_conn w p) (conn_fd w p)"
proof -
  from live obtain conn c lp rb wb rq rs r b q s' where
    L: "conns w p = Some conn" "channels w (conn_channel conn) = Some c" "loops w (conn_loop conn) = Some lp"
    "slot_ok lp c (conn_channel conn)" "conn_channel_ok c p" "open_fds w (ch_fd c)"
    "readBuf conn = Some rb" "writeBuf conn = Some wb" "conn_request conn = Some rq"
    "conn_response conn = Some rs" "rb \<noteq> wb" "bufs w rb = Some r" "bufs w wb = Some b"
    "reqs w rq = Some q" "resps w rs = Some s'" "buffer_inv r" "buffer_inv b" "req_wf q" "response_wf s'"
    by (rule conn_liveE)
  have names: "the_conn w p = conn" "conn_chan w p = c" "conn_fd w p = ch_fd c"
      "read_buffer w p = r" "write_buffer w p = b"
    using L by (simp_all add: the_conn_def conn_chan_def conn_fd_def read_buffer_def write_buffer_def)
  note f = fits [unfolded names]
  note rd = socketRead_fits [OF L(16) f]
  let ?r = "received_into r s"
  let ?w = "w\<lparr>bufs := (bufs w)(rb \<mapsto> ?r)\<rparr>"
  have eqw: "?w = w\<lparr>bufs := (bufs w)(the (readBuf (the_conn w p)) \<mapsto> ?r, the (writeBuf (the_conn w p)) \<mapsto> b), sent := sent w\<rparr>"
    using L by (auto simp: names fun_upd_idem fun_upd_twist)
  note cb = conn_live_bufs [OF live rd(2) L(17) eqw]
  obtain w1 where w1: "set_write (conn_channel conn) True ?w = Inr w1" "same_conn ?w w1 p"
      "conn_chan w1 p = writeEventEnable c True" "watched w1 p" "idle w1 (conn_loop conn)"
    using set_write_conn [OF cb(1), of True "conn_loop conn"] wt idle unfolding cb names by metis
  note s1 = same_conn_live [OF cb(1) w1(2)]
  obtain w2 where w2: "addTask (conn_loop conn) (conn_channel conn) MODIFY w1 = Some (Inr w2)"
      "same_conn w1 w2 p" "channels w2 = channels w1" "watched w2 p" "idle w2 (conn_loop conn)"
      "ep_set (dispatcherData (the_loop w2 (conn_loop conn))) (ch_fd c) = Some (watch_mask (writeEventEnable c True))"
    using modify_conn [OF s1(1) w1(4)] w1(3,5) unfolding s1 cb names by metis
  have s2: "same_conn ?w w2 p" by (rule same_conn_trans2 [OF w1(2) w2(2,3)])
  note l2 = same_conn_live [OF cb(1) s2]
  have "answers w1 = answers w" "tick w1 = tick w" using w1(2) by (simp_all add: same_conn_def)
  then have "processRead p w = parse_conn p (ch_fd c) (io_send (answers w (tick w))) w2"
    using L rd(1) io log w1(1) w2(1) by (simp add: processRead_def Let_def logged_ok_def names)
  moreover have "the_request w2 p = the_request w p" "the_response w2 p = the_response w p"
    "sent w2 = sent w" "os w2 = os w" "tick w2 = tick w" "answers w2 = answers w"
    using s2 l2(3) cb(3) by (simp_all add: the_request_def the_response_def same_conn_def)
  moreover have "others_kept w ?w p conn (ch_fd c)" using L by (auto simp: others_kept_def)
  with others_kept_same [OF s2, of "ch_fd c"] have "others_kept w w2 p conn (ch_fd c)"
    unfolding cb names by (rule others_kept_trans [rotated])
  ultimately show ?thesis
    using l2 cb w2(4-6) unfolding names by (intro exI [of _ w2]) simp
qed

text \<open>A whole GET request arrives and the reply is left to be written.\<close>

lemma processRead_get_step:
  assumes live: "conn_live w p" and wt: "watched w p" and idle: "idle w (conn_loop (the_conn w p))"
    and io: "io_avail (answers w (tick w)) = Some s" "s \<noteq> []"
    and fits: "int (length s) \<le> bufferWriteableSize (read_buffer w p)"
    and log: "logged_ok (received_into (read_buffer w p) s)"
    and req: "curState (the_request w p) = ParseReqLine"
      "contents (read_buffer w p) @ s = print_request m u v hs @ rest" "request_ok m u v hs"
      "reqHeadersNum (the_request w p) + int (length hs) \<le> 12"
      "strcasecmp_eq (m @ [NUL]) ''get''" "cstr (decode u) \<noteq> []"
    and path: "path_ok (os w) (requested_path u)"
      "reply_for (os w) (requested_path u) = (c, msg, rhs, f, fn)"
      "headerNum (the_response w p) + int (length rhs) \<le> 16" "reply_body (os w) f fn txt"
    and room: "roomy (e_mem (os w)) (write_buffer w p)
      (int (length (reply_text c msg (headers_of (the_response w p) @ rhs) txt)))"
      "io_send (answers w (tick w)) = SendErr \<or>
       int (length (reply_text c msg (headers_of (the_response w p) @ rhs) txt))
         \<le> bufferWriteableSize (write_buffer w p)"
  shows "\<exists>w' now. processRead p w = Some (Inr w') \<and> conn_live w' p \<and> watched w' p \<and>
    idle w' (conn_loop (the_conn w p)) \<and> the_conn w' p = the_conn w p \<and> conn_fd w' p = conn_fd w p \<and>
    contents (read_buffer w' p) = rest \<and>
    sent w' = (sent w)(conn_fd w p := sent w (conn_fd w p) @ now) \<and>
    now @ contents (write_buffer w' p) = contents (write_buffer w p) @
      reply_text c msg (headers_of (the_response w p) @ rhs) txt \<and>
    (txt \<noteq> [] \<longrightarrow> contents (write_buffer w' p) \<noteq> []) \<and> tick w' = tick w \<and> answers w' = answers w \<and>
    ep_set (dispatcherData (the_loop w' (conn_loop (the_conn w p)))) (conn_fd w p) =
      Some (watch_mask (writeEventEnable (conn_chan w p) True)) \<and>
    others_kept w w' p (the_conn w p) (conn_fd w p)"
proof -
  let ?o = "io_send (answers w (tick w))" and ?fd = "conn_fd w p"
  obtain w1 where
    w1: "processRead p w = parse_conn p ?fd ?o w1" "conn_live w1 p" "the_conn w1 p = the_conn w p"
    "conn_fd w1 p = ?fd" "read_buffer w1 p = received_into (read_buffer w p) s"
    "write_buffer w1 p = write_buffer w p" "the_request w1 p = the_request w p"
    "the_response w1 p = the_response w p" "sent w1 = sent w" "os w1 = os w" "tick w1 = tick w"
    "answers w1 = answers w" "watched w1 p" "idle w1 (conn_loop (the_conn w p))"
    "ep_set (dispatcherData (the_loop w1 (conn_loop (the_conn w p)))) ?fd =
       Some (watch_mask (writeEventEnable (conn_chan w p) True))"
    "others_kept w w1 p (the_conn w p) (conn_fd w p)"
    using processRead_bytes_step [OF live wt idle io fits log] by blast
  from live have inv0: "buffer_inv (read_buffer w p)"
    by (rule conn_liveE) (simp add: read_buffer_def the_conn_def)
  from w1(2) obtain conn c' lp rb wb rq rs r b q s' where
    L: "conns w1 p = Some conn" "channels w1 (conn_channel conn) = Some c'" "loops w1 (conn_loop conn) = Some lp"
    "slot_ok lp c' (conn_channel conn)" "conn_channel_ok c' p" "open_fds w1 (ch_fd c')"
    "readBuf conn = Some rb" "writeBuf conn = Some wb" "conn_request conn = Some rq"
    "conn_response conn = Some rs" "rb \<noteq> wb" "bufs w1 rb = Some r" "bufs w1 wb = Some b"
    "reqs w1 rq = Some q" "resps w1 rs = Some s'" "buffer_inv r" "buffer_inv b" "req_wf q" "response_wf s'"
    by (rule conn_liveE)
  have names: "the_conn w1 p = conn" "read_buffer w1 p = r" "write_buffer w1 p = b"
      "the_request w1 p = q" "the_response w1 p = s'"
    using L by (simp_all add: the_conn_def read_buffer_def write_buffer_def the_request_def the_response_def)
  note E = w1(5-8) [unfolded names]
  have cr: "contents r = print_request m u v hs @ rest"
    using socketRead_fits(3) [OF inv0 fits] E(1) req(2) by simp
  note g = get_answered [where req = q and b = r and resp = s' and sb = b and e = "os w" and outcome = ?o]
  obtain req' b' resp' sb' now where
    G: "parseHttpRequest (os w) ?o q r s' b = Some (Inr (True, req', b', resp', sb', now))"
      "buffer_inv b'" "contents b' = rest" "buffer_inv sb'" "req_wf req'" "response_wf resp'"
      "txt \<noteq> [] \<longrightarrow> contents sb' \<noteq> []"
      "now @ contents sb' = contents b @ reply_text c msg (headers_of s' @ rhs) txt"
    using g [OF _ L(18) L(16) cr req(3) _ req(5,6) L(19) path(1,2) _ path(4) L(17)] req(1,4) path(3) room
    unfolding E by blast
  let ?w = "w1\<lparr>reqs := (reqs w1)(rq \<mapsto> req'), resps := (resps w1)(rs \<mapsto> resp'),
    bufs := (bufs w1)(rb \<mapsto> b', wb \<mapsto> sb'), sent := (sent w)(?fd := sent w ?fd @ now)\<rparr>"
  have eqw: "?w = w1\<lparr>reqs := (reqs w1)(the (conn_request (the_conn w1 p)) \<mapsto> req'),
      resps := (resps w1)(the (conn_response (the_conn w1 p)) \<mapsto> resp'),
      bufs := (bufs w1)(the (readBuf (the_conn w1 p)) \<mapsto> b', the (writeBuf (the_conn w1 p)) \<mapsto> sb'),
      sent := (sent w)(?fd := sent w ?fd @ now)\<rparr>"
    using L by (simp add: names)
  note cp = conn_live_parsed [OF w1(2) G(2,4,5,6) eqw]
  have "parse_conn p ?fd ?o w1 = Some (Inr ?w)"
    using L G(1) w1(9,10) by (simp add: parse_conn_def)
  moreover have "the_loop ?w l = the_loop w1 l" for l by (simp add: the_loop_def)
  moreover have "others_kept w1 ?w p conn ?fd" using L w1(9) by (auto simp: others_kept_def)
  with w1(16) have "others_kept w ?w p (the_conn w p) ?fd"
    unfolding w1(3) [symmetric] names(1) by (rule others_kept_trans)
  ultimately show ?thesis
    using cp w1 G E by (intro exI [of _ ?w] exI [of _ now]) simp
qed

section \<open>Properties\<close>

text \<open>
  C9. Tasks given to a loop by other threads are run by the loop's own thread exactly once and in
  the order they were given. Each \<open>eventLoopAddTask\<close> returns and writes one wake-up to the loop's
  socket pair; when the loop's thread then works off the queue, the outcome is that of running the
  tasks one after the other on the state without a queue, whatever they do, faults and
  non-termination included; after it the queue is empty.
\<close>

theorem tasks_run_fifo:
  assumes "foreign_rep l w []"
  shows "\<exists>w1. post_all (foreign_post call_destroy l) us w = Some (Inr w1) \<and>
    map_run (queue_view l) (own_drain call_destroy l w1) =
      run_tasks call_destroy l us ((woken l ^^ length us) (queue_view l w)) \<and>
    (\<forall>w2. own_drain call_destroy l w1 = Some (Inr w2) \<longrightarrow> queue_rep l w2 [])"
  by (rule loopq.fifo [OF assms])

theorem tasks_run_fifo_witness:
  "\<exists>w1. post_all (foreign_post call_destroy 0) [(DELETE, 3), (MODIFY, 4)]
       ((blank_world (small_env Map.empty))\<lparr>loops := [0 \<mapsto> fresh_loop\<lparr>threadID := 9\<rparr>]\<rparr>) = Some (Inr w1) \<and>
     own_drain call_destroy 0 w1 = Some (Inl UseAfterFree)"
proof -
  let ?w = "(blank_world (small_env Map.empty))\<lparr>loops := [0 \<mapsto> fresh_loop\<lparr>threadID := 9\<rparr>]\<rparr>"
  have "foreign_rep 0 ?w []"
    by (simp add: foreign_rep_def queue_rep_def queued_def the_loop_def blank_world_def fresh_loop_def)
  from tasks_run_fifo [OF this, of "[(DELETE, 3), (MODIFY, 4)]"] obtain w1 where
    w1: "post_all (foreign_post call_destroy 0) [(DELETE, 3), (MODIFY, 4)] ?w = Some (Inr w1)"
      "map_run (queue_view 0) (own_drain call_destroy 0 w1) =
        run_tasks call_destroy 0 [(DELETE, 3), (MODIFY, 4)]
          ((woken 0 ^^ length [(DELETE, 3 :: nat), (MODIFY, 4)]) (queue_view 0 ?w))" by blast
  have "channels (queue_view 0 ?w) 3 = None" by (simp add: queue_view_def as_owner_def blank_world_def)
  then have "map_run (queue_view 0) (own_drain call_destroy 0 w1) = Some (Inl UseAfterFree)"
    unfolding w1(2) by (simp add: run_task_def eventLoopRemove_def woken_def Let_def numeral_2_eq_2)
  then have "own_drain call_destroy 0 w1 = Some (Inl UseAfterFree)"
    by (cases "own_drain call_destroy 0 w1" rule: option.exhaust; cases "the (own_drain call_destroy 0 w1)")
      (auto simp: map_run_def)
  with w1(1) show ?thesis by blast
qed

end
