(* ===== verification/WorkerThread.thy ===== *)
theory WorkerThread
  imports TcpConnection
begin

text \<open>
  \<^verbatim>\<open>ReactorHTTP-C/WorkerThread.c\<close>. The hand-over of a new event loop from a worker thread to
  the main thread is a step relation over the program counters of \<open>workerThreadRun\<close> and
  \<open>subThreadRunning\<close>, the mutex, and the waiting set of the condition variable; waits may end
  spuriously. What the main thread finds after the hand-over is the sequential \<open>workerThreadRun\<close>.
\<close>

section \<open>The code: sequential parts\<close>

definition workerThreadInit :: "worker_thread \<Rightarrow> int \<Rightarrow> worker_thread res" where
  "workerThreadInit thread index =
     bindR (strcpy_into 24 (''SubThread-'' @ dec_int index)) (\<lambda>name.
     Inr (thread\<lparr>wt_loop := None, wt_threadID := 0, wt_name := name\<rparr>))"

text \<open>
  \<open>tid\<close>, \<open>efd\<close>, \<open>pair\<close> and \<open>junk\<close>: the new thread, and what its calls in \<open>eventLoopInitEx\<close> give.
  The loop is made in the worker thread; the main thread returns when it is there.
\<close>

definition workerThreadRun ::
  "nat \<Rightarrow> int \<Rightarrow> (int \<times> int) option \<Rightarrow> (nat \<Rightarrow> nat option) \<Rightarrow> worker_thread \<Rightarrow> world \<Rightarrow>
   (worker_thread \<times> world) run" where
  "workerThreadRun tid efd pair junk thread w =
     bindO (eventLoopInitEx call_destroy efd pair junk (Some (wt_name thread)) (w\<lparr>self := tid\<rparr>)) (\<lambda>(l, w').
     Some (Inr (thread\<lparr>wt_threadID := tid, wt_loop := Some l\<rparr>, w'\<lparr>self := self w\<rparr>)))"

section \<open>The code: the hand-over, step by step\<close>

datatype main_pc = MCreate | MLock | MTest | MWait | MWoken | MUnlock | MReturn
datatype sub_pc = SNone | SLock | SInit | SUnlock | SSignal | SRun
datatype holder = Main | Sub

record handover =
  m_pc :: main_pc
  s_pc :: sub_pc
  mtx :: "holder option"
  loop_set :: bool

definition handover_init :: handover where
  "handover_init = \<lparr>m_pc = MCreate, s_pc = SNone, mtx = None, loop_set = False\<rparr>"

text \<open>
  One step of either thread. \<^verbatim>\<open>pthread_cond_wait\<close> gives the mutex back and waits in one step;
  a signal wakes a waiting main thread and is lost otherwise; the woken thread takes the mutex
  before it tests again.
\<close>

inductive hstep :: "handover \<Rightarrow> handover \<Rightarrow> bool" where
  m_create: "m_pc h = MCreate \<Longrightarrow> hstep h (h\<lparr>m_pc := MLock, s_pc := SLock\<rparr>)"
| m_lock: "m_pc h = MLock \<Longrightarrow> mtx h = None \<Longrightarrow> hstep h (h\<lparr>m_pc := MTest, mtx := Some Main\<rparr>)"
| m_found: "m_pc h = MTest \<Longrightarrow> loop_set h \<Longrightarrow> hstep h (h\<lparr>m_pc := MUnlock\<rparr>)"
| m_wait: "m_pc h = MTest \<Longrightarrow> \<not> loop_set h \<Longrightarrow> hstep h (h\<lparr>m_pc := MWait, mtx := None\<rparr>)"
| m_relock: "m_pc h = MWoken \<Longrightarrow> mtx h = None \<Longrightarrow> hstep h (h\<lparr>m_pc := MTest, mtx := Some Main\<rparr>)"
| m_unlock: "m_pc h = MUnlock \<Longrightarrow> hstep h (h\<lparr>m_pc := MReturn, mtx := None\<rparr>)"
| s_lock: "s_pc h = SLock \<Longrightarrow> mtx h = None \<Longrightarrow> hstep h (h\<lparr>s_pc := SInit, mtx := Some Sub\<rparr>)"
| s_init: "s_pc h = SInit \<Longrightarrow> hstep h (h\<lparr>s_pc := SUnlock, loop_set := True\<rparr>)"
| s_unlock: "s_pc h = SUnlock \<Longrightarrow> hstep h (h\<lparr>s_pc := SSignal, mtx := None\<rparr>)"
| s_signal: "s_pc h = SSignal \<Longrightarrow>
    hstep h (h\<lparr>s_pc := SRun, m_pc := (if m_pc h = MWait then MWoken else m_pc h)\<rparr>)"

text \<open>A wait that ends without a signal.\<close>

inductive spurious :: "handover \<Rightarrow> handover \<Rightarrow> bool" where
  wake: "m_pc h = MWait \<Longrightarrow> spurious h (h\<lparr>m_pc := MWoken\<rparr>)"

inductive_cases hstepE: "hstep h h'"
inductive_cases spuriousE: "spurious h h'"

inductive reach :: "handover \<Rightarrow> bool" where
  init: "reach handover_init"
| step: "reach h \<Longrightarrow> hstep h h' \<Longrightarrow> reach h'"
| spurious: "reach h \<Longrightarrow> spurious h h' \<Longrightarrow> reach h'"

section \<open>The invariant\<close>

definition handover_inv :: "handover \<Rightarrow> bool" where
  "handover_inv h \<longleftrightarrow>
     (mtx h = Some Main \<longleftrightarrow> m_pc h \<in> {MTest, MUnlock}) \<and>
     (mtx h = Some Sub \<longleftrightarrow> s_pc h \<in> {SInit, SUnlock}) \<and>
     (loop_set h \<longleftrightarrow> s_pc h \<in> {SUnlock, SSignal, SRun}) \<and>
     (m_pc h = MCreate \<longleftrightarrow> s_pc h = SNone) \<and>
     (m_pc h \<in> {MUnlock, MReturn} \<longrightarrow> loop_set h) \<and>
     (m_pc h = MWait \<longrightarrow> s_pc h \<noteq> SRun)"

lemma handover_init_inv: "handover_inv handover_init"
  by (simp add: handover_inv_def handover_init_def)

lemma hstep_inv: "handover_inv h \<Longrightarrow> hstep h h' \<Longrightarrow> handover_inv h'"
  by (erule hstepE) (auto simp: handover_inv_def)

lemma spurious_inv: "handover_inv h \<Longrightarrow> spurious h h' \<Longrightarrow> handover_inv h'"
  by (erule spuriousE) (auto simp: handover_inv_def)

lemma reach_inv: "reach h \<Longrightarrow> handover_inv h"
  by (induction rule: reach.induct) (auto intro: handover_init_inv hstep_inv spurious_inv)

text \<open>A bound on the steps left when no wait ends spuriously.\<close>

fun sub_rank :: "sub_pc \<Rightarrow> nat" where
  "sub_rank SNone = 5"
| "sub_rank SLock = 4"
| "sub_rank SInit = 3"
| "sub_rank SUnlock = 2"
| "sub_rank SSignal = 1"
| "sub_rank SRun = 0"

definition rank :: "handover \<Rightarrow> nat" where
  "rank h = 4 * sub_rank (s_pc h) +
     (if loop_set h then (case m_pc h of MCreate \<Rightarrow> 9 | MLock \<Rightarrow> 3 | MTest \<Rightarrow> 2 | MWait \<Rightarrow> 4 | MWoken \<Rightarrow> 3
        | MUnlock \<Rightarrow> 1 | MReturn \<Rightarrow> 0)
      else (case m_pc h of MCreate \<Rightarrow> 9 | MLock \<Rightarrow> 6 | MTest \<Rightarrow> 5 | MWait \<Rightarrow> 4 | MWoken \<Rightarrow> 6
        | MUnlock \<Rightarrow> 1 | MReturn \<Rightarrow> 0))"

lemma hstep_rank: "handover_inv h \<Longrightarrow> hstep h h' \<Longrightarrow> rank h' < rank h"
  by (erule hstepE) (auto simp: handover_inv_def rank_def split: main_pc.splits)

lemma hstep_runs:
  "handover_inv h \<Longrightarrow> (hstep ^^ n) h h' \<Longrightarrow> handover_inv h' \<and> n + rank h' \<le> rank h"
proof (induction n arbitrary: h')
  case (Suc n)
  from Suc.prems(2) obtain h1 where h1: "(hstep ^^ n) h h1" "hstep h1 h'" by auto
  with Suc.IH [OF Suc.prems(1)] hstep_inv hstep_rank show ?case by fastforce
qed simp

text \<open>Some thread can always go on until both are through.\<close>

lemma hstep_progress:
  assumes "handover_inv h" and "\<not> (m_pc h = MReturn \<and> s_pc h = SRun)"
  shows "\<exists>h'. hstep h h'"
proof (cases "s_pc h")
  case SNone
  with assms(1) have "m_pc h = MCreate" by (simp add: handover_inv_def)
  then show ?thesis by (blast intro: hstep.intros)
next
  case SLock
  show ?thesis
  proof (cases "mtx h")
    case None
    with SLock show ?thesis by (blast intro: hstep.intros)
  next
    case (Some x)
    with SLock assms(1) have "m_pc h \<in> {MTest, MUnlock}" by (cases x) (auto simp: handover_inv_def)
    then show ?thesis by (cases "loop_set h") (auto intro: hstep.intros)
  qed
next
  case SRun
  with assms have m: "mtx h = Some Main \<longleftrightarrow> m_pc h \<in> {MTest, MUnlock}" "mtx h \<noteq> Some Sub"
      "m_pc h \<noteq> MWait" "m_pc h \<noteq> MCreate" "m_pc h \<noteq> MReturn" "loop_set h"
    by (auto simp: handover_inv_def)
  have "mtx h = None \<or> mtx h = Some Main" using m(2) by (metis holder.exhaust option.exhaust)
  with m show ?thesis by (cases "m_pc h") (auto intro: hstep.intros)
qed (blast intro: hstep.intros)+

lemma hstep_completes:
  "handover_inv h \<Longrightarrow> \<exists>h'. hstep\<^sup>*\<^sup>* h h' \<and> m_pc h' = MReturn \<and> s_pc h' = SRun"
proof (induction "rank h" arbitrary: h rule: less_induct)
  case less
  show ?case
  proof (cases "m_pc h = MReturn \<and> s_pc h = SRun")
    case False
    with hstep_progress [OF less.prems] obtain h1 where h1: "hstep h h1" by blast
    with less.hyps [OF hstep_rank [OF less.prems h1] hstep_inv [OF less.prems h1]]
    show ?thesis by (meson converse_rtranclp_into_rtranclp)
  qed blast
qed

section \<open>Properties\<close>

text \<open>
  C28. The hand-over of the event loop is safe: in every reachable state, whatever the interleaving
  and however many waits end spuriously, the two threads are never both inside the region the mutex
  protects, and when \<^verbatim>\<open>workerThreadRun\<close> returns the loop of the worker has been made.
\<close>

theorem handover_safe:
  assumes "reach h"
  shows "\<not> (m_pc h \<in> {MTest, MUnlock} \<and> s_pc h \<in> {SInit, SUnlock}) \<and>
    (m_pc h = MReturn \<longrightarrow> loop_set h)"
  using reach_inv [OF assms] by (auto simp: handover_inv_def)

theorem handover_safe_witness:
  "reach (handover_init\<lparr>m_pc := MLock, s_pc := SLock\<rparr>) \<and>
   \<not> (m_pc (handover_init\<lparr>m_pc := MLock, s_pc := SLock\<rparr>) \<in> {MTest, MUnlock} \<and>
      s_pc (handover_init\<lparr>m_pc := MLock, s_pc := SLock\<rparr>) \<in> {SInit, SUnlock})"
proof -
  have "reach (handover_init\<lparr>m_pc := MLock, s_pc := SLock\<rparr>)"
    by (rule reach.step [OF reach.init], rule hstep.m_create) (simp add: handover_init_def)
  with handover_safe [OF this] show ?thesis by blast
qed

text \<open>
  C29. The hand-over always completes: no wake-up is lost. From every reachable state both threads
  get through (the main thread returns, the worker runs its loop), some thread can move until then,
  and without spurious wake-ups no more than \<open>rank\<close> steps are left, so no schedule can avoid it.
\<close>

theorem handover_completes:
  assumes "reach h"
  shows "(\<exists>h'. hstep\<^sup>*\<^sup>* h h' \<and> m_pc h' = MReturn \<and> s_pc h' = SRun) \<and>
    (\<not> (m_pc h = MReturn \<and> s_pc h = SRun) \<longrightarrow> (\<exists>h'. hstep h h')) \<and>
    (\<forall>n h'. (hstep ^^ n) h h' \<longrightarrow> n \<le> rank h)"
  using hstep_completes [OF reach_inv [OF assms]] hstep_progress [OF reach_inv [OF assms]]
    hstep_runs [OF reach_inv [OF assms]] by fastforce

theorem handover_completes_witness:
  "(\<exists>h'. hstep\<^sup>*\<^sup>* handover_init h' \<and> m_pc h' = MReturn \<and> s_pc h' = SRun) \<and>
   \<not> (\<exists>n h'. (hstep ^^ n) handover_init h' \<and> 29 < n)"
proof -
  have "rank handover_init = 29" by (simp add: rank_def handover_init_def)
  with handover_completes [OF reach.init] show ?thesis by force
qed

end
