(* ===== verification/Server.thy ===== *)
theory Server
  imports WorkerThread
begin

text \<open>
  \<^verbatim>\<open>ReactorHTTP-C/ThreadPool.c\<close>, \<^verbatim>\<open>TcpServer.c\<close> and \<^verbatim>\<open>main.c\<close>: the pool of worker
  loops, the listening socket, and the function behind each callback. What the kernel answers while
  the server is set up is an argument; a callback reads \<open>answers\<close> at the current \<open>tick\<close>.
\<close>

section \<open>The code: the pool\<close>

text \<open>\<open>junk\<close> is what the unitialised array of workers holds.\<close>

definition threadPoolInit :: "worker_thread \<Rightarrow> nat \<Rightarrow> int \<Rightarrow> thread_pool" where
  "threadPoolInit junk main count =
     \<lparr>mainLoop = main, isStart = False, threadNum = count,
      workerThreads = replicate (nat count) junk, pool_index = 0\<rparr>"

text \<open>
  What a worker thread is given: its number, and the answers to the system calls of its
  \<open>eventLoopInitEx\<close>.
\<close>

record worker_answer =
  wa_tid :: nat
  wa_epfd :: int
  wa_pair :: "(int \<times> int) option"
  wa_junk :: "nat \<Rightarrow> nat option"

fun start_workers ::
  "(nat \<Rightarrow> worker_answer) \<Rightarrow> nat \<Rightarrow> worker_thread list \<Rightarrow> world \<Rightarrow> (worker_thread list \<times> world) run" where
  "start_workers wa i [] w = Some (Inr ([], w))"
| "start_workers wa i (t # ts) w =
     bindO (lift (workerThreadInit t (int i))) (\<lambda>t.
     bindO (workerThreadRun (wa_tid (wa i)) (wa_epfd (wa i)) (wa_pair (wa i)) (wa_junk (wa i)) t w) (\<lambda>(t, w).
     bindO (start_workers wa (Suc i) ts w) (\<lambda>(ts, w). Some (Inr (t # ts, w)))))"

definition threadPoolRun ::
  "(nat \<Rightarrow> worker_answer) \<Rightarrow> thread_pool \<Rightarrow> world \<Rightarrow> (thread_pool \<times> world) run" where
  "threadPoolRun wa pool w =
     (if isStart pool then Some (Inl AssertFail)
      else
        bindO (lift (lookup (loops w) (mainLoop pool))) (\<lambda>lp.
        if threadID lp \<noteq> self w then Some (Inl ProcessExit)
        else
          (let pool = pool\<lparr>isStart := True\<rparr> in
           if threadNum pool \<noteq> 0 then
             bindO (start_workers wa 0 (workerThreads pool) w) (\<lambda>(ts, w).
             Some (Inr (pool\<lparr>workerThreads := ts\<rparr>, w)))
           else Some (Inr (pool, w)))))"

definition takeWorkerEventLoop :: "thread_pool \<Rightarrow> world \<Rightarrow> (nat option \<times> thread_pool) res" where
  "takeWorkerEventLoop pool w =
     (if \<not> isStart pool then Inl AssertFail
      else
        bindR (lookup (loops w) (mainLoop pool)) (\<lambda>lp.
        if threadID lp \<noteq> self w then Inl ProcessExit
        else if 0 < threadNum pool then
          (let i = pool_index pool in
           if i < 0 \<or> int (length (workerThreads pool)) \<le> i then Inl OutOfBounds
           else Inr (wt_loop (workerThreads pool ! nat i), pool\<lparr>pool_index := (i + 1) mod threadNum pool\<rparr>))
        else Inr (Some (mainLoop pool), pool)))"

section \<open>The code: the server\<close>

record listen_answer =
  la_socket :: int
  la_setsockopt :: int
  la_bind :: int
  la_listen :: int

text \<open>On an error the socket already made stays open.\<close>

definition listenerInit :: "listen_answer \<Rightarrow> 16 word \<Rightarrow> world \<Rightarrow> listener option \<times> world" where
  "listenerInit a p w =
     (let fd = la_socket a in
      if fd = -1 then (None, w)
      else
        (let w = w\<lparr>open_fds := (open_fds w)(fd := True)\<rparr> in
         if la_setsockopt a = -1 then (None, w)
         else if la_bind a = -1 then (None, w)
         else if la_listen a = -1 then (None, w)
         else (Some \<lparr>lfd = fd, port = p\<rparr>, w)))"

text \<open>The listener is made first and not checked; the server is an address in the world.\<close>

definition tcpServerInit ::
  "listen_answer \<Rightarrow> int \<Rightarrow> (int \<times> int) option \<Rightarrow> (nat \<Rightarrow> nat option) \<Rightarrow> worker_thread \<Rightarrow>
   16 word \<Rightarrow> int \<Rightarrow> world \<Rightarrow> (nat \<times> world) run" where
  "tcpServerInit a efd pair junk jt p n w =
     (let s = next_addr w; w = w\<lparr>next_addr := Suc s\<rparr>; (lst, w) = listenerInit a p w in
      bindO (eventLoopInit call_destroy efd pair junk w) (\<lambda>(l, w).
      Some (Inr (s, w\<lparr>servers := (servers w)(s \<mapsto>
        \<lparr>srv_threadNum = n, srv_mainLoop = l, srv_threadPool = threadPoolInit jt l n, srv_listener = lst\<rparr>)\<rparr>))))"

text \<open>The result of \<^verbatim>\<open>accept\<close> is not checked either.\<close>

definition acceptConnection :: "nat \<Rightarrow> world \<Rightarrow> world run" where
  "acceptConnection s w =
     bindO (lift (lookup (servers w) s)) (\<lambda>server.
     case srv_listener server of
       None \<Rightarrow> Some (Inl NullDeref)
     | Some _ \<Rightarrow>
         (let cfd = io_accept (answers w (tick w));
              w = (if cfd < 0 then w else w\<lparr>open_fds := (open_fds w)(cfd := True)\<rparr>) in
          bindO (lift (takeWorkerEventLoop (srv_threadPool server) w)) (\<lambda>(loop, pool).
          let w = w\<lparr>servers := (servers w)(s \<mapsto> server\<lparr>srv_threadPool := pool\<rparr>)\<rparr> in
          case loop of
            None \<Rightarrow> Some (Inl NullDeref)
          | Some l \<Rightarrow> bindO (tcpConnectionInit cfd l w) (\<lambda>(_, w). Some (Inr w)))))"

text \<open>The call through a channel's function pointer; the next callback gets the next answers.\<close>

definition call_callback :: "callback \<Rightarrow> cb_arg \<Rightarrow> world \<Rightarrow> world run" where
  "call_callback f a w =
     bindO (case (f, a) of
              (ReadLocalMessage, LoopArg l) \<Rightarrow> readLocalMessage l w
            | (AcceptConnection, ServerArg s) \<Rightarrow> acceptConnection s w
            | (ProcessRead, ConnArg p) \<Rightarrow> processRead p w
            | (ProcessWrite, ConnArg p) \<Rightarrow> processWrite p w
            | (TcpConnectionDestroy, ConnArg p) \<Rightarrow> lift (tcpConnectionDestroy p w)
            | _ \<Rightarrow> Some (Inl UseAfterFree))
       (\<lambda>w. Some (Inr (w\<lparr>tick := Suc (tick w)\<rparr>)))"

definition tcpServerRun ::
  "(nat \<Rightarrow> worker_answer) \<Rightarrow> (nat \<Rightarrow> (32 word \<times> int) list) \<Rightarrow> nat \<Rightarrow> world \<Rightarrow> world run" where
  "tcpServerRun wa reports s w =
     bindO (lift (lookup (servers w) s)) (\<lambda>server.
     bindO (threadPoolRun wa (srv_threadPool server) w) (\<lambda>(pool, w).
     let w = w\<lparr>servers := (servers w)(s \<mapsto> server\<lparr>srv_threadPool := pool\<rparr>)\<rparr> in
     case srv_listener server of
       None \<Rightarrow> Some (Inl NullDeref)
     | Some lst \<Rightarrow>
         (let ch = next_addr w;
              c = channelInit (lfd lst) ReadEvent (Some AcceptConnection) None None (ServerArg s);
              w = w\<lparr>next_addr := Suc ch, channels := (channels w)(ch \<mapsto> c)\<rparr> in
          bindO (addTask (srv_mainLoop server) ch ADD w) (\<lambda>w.
          bindO (eventLoopRun call_destroy call_callback (Some (srv_mainLoop server)) reports w) (\<lambda>(_, w).
          Some (Inr w))))))"

text \<open>\<^verbatim>\<open>main\<close> ignores whether \<^verbatim>\<open>chdir\<close> succeeds; what it changes is in \<open>os\<close>.\<close>

definition server_main ::
  "listen_answer \<Rightarrow> int \<Rightarrow> (int \<times> int) option \<Rightarrow> (nat \<Rightarrow> nat option) \<Rightarrow> worker_thread \<Rightarrow>
   (nat \<Rightarrow> worker_answer) \<Rightarrow> (nat \<Rightarrow> (32 word \<times> int) list) \<Rightarrow> world \<Rightarrow> world run" where
  "server_main a efd pair junk jt wa reports w =
     bindO (tcpServerInit a efd pair junk jt 10000 4 w) (\<lambda>(s, w). tcpServerRun wa reports s w)"

section \<open>Round robin\<close>

text \<open>A running pool, seen from the main thread.\<close>

definition pool_ok :: "thread_pool \<Rightarrow> world \<Rightarrow> bool" where
  "pool_ok pool w \<longleftrightarrow> isStart pool \<and> threadNum pool = int (length (workerThreads pool)) \<and>
     (case loops w (mainLoop pool) of None \<Rightarrow> False | Some lp \<Rightarrow> threadID lp = self w) \<and>
     0 \<le> pool_index pool \<and> (0 < threadNum pool \<longrightarrow> pool_index pool < threadNum pool)"

lemma pool_ok_cong: "loops w' = loops w \<Longrightarrow> self w' = self w \<Longrightarrow> pool_ok pool w' = pool_ok pool w"
  by (simp add: pool_ok_def cong: option.case_cong)

fun take_loops :: "nat \<Rightarrow> thread_pool \<Rightarrow> world \<Rightarrow> (nat option list \<times> thread_pool) res" where
  "take_loops 0 pool w = Inr ([], pool)"
| "take_loops (Suc k) pool w =
     bindR (takeWorkerEventLoop pool w) (\<lambda>(l, pool).
     bindR (take_loops k pool w) (\<lambda>(ls, pool). Inr (l # ls, pool)))"

definition turn :: "thread_pool \<Rightarrow> nat \<Rightarrow> nat" where
  "turn pool j = (nat (pool_index pool) + j) mod length (workerThreads pool)"

lemma take_one:
  assumes "pool_ok pool w" and "workerThreads pool \<noteq> []"
  shows "takeWorkerEventLoop pool w = Inr (wt_loop (workerThreads pool ! turn pool 0),
      pool\<lparr>pool_index := int (turn pool 1)\<rparr>)"
    and "pool_ok (pool\<lparr>pool_index := int (turn pool 1)\<rparr>) w"
    and "turn (pool\<lparr>pool_index := int (turn pool 1)\<rparr>) j = turn pool (Suc j)"
proof -
  let ?n = "length (workerThreads pool)"
  from assms obtain i where i: "pool_index pool = int i" "i < ?n" "threadNum pool = int ?n"
    by (cases "pool_index pool") (auto simp: pool_ok_def)
  have m: "(int i + 1) mod int ?n = int (Suc i mod ?n)"
    by (simp add: zmod_int add.commute)
  show "takeWorkerEventLoop pool w = Inr (wt_loop (workerThreads pool ! turn pool 0),
      pool\<lparr>pool_index := int (turn pool 1)\<rparr>)"
    using assms i m
    by (auto simp: takeWorkerEventLoop_def pool_ok_def turn_def Let_def split: option.splits)
  show "pool_ok (pool\<lparr>pool_index := int (turn pool 1)\<rparr>) w"
    using assms i by (simp add: pool_ok_def turn_def)
  show "turn (pool\<lparr>pool_index := int (turn pool 1)\<rparr>) j = turn pool (Suc j)"
    by (simp add: turn_def mod_simps)
qed

lemma take_loops_turns:
  assumes "pool_ok pool w" and "workerThreads pool \<noteq> []"
  shows "take_loops k pool w = Inr (map (\<lambda>j. wt_loop (workerThreads pool ! turn pool j)) [0..<k],
     pool\<lparr>pool_index := int (turn pool k)\<rparr>)"
  using assms
proof (induction k arbitrary: pool)
  case 0
  then have "int (turn pool 0) = pool_index pool" by (auto simp: pool_ok_def turn_def)
  then show ?case by simp
next
  case (Suc k)
  note one = take_one [OF Suc.prems]
  have "map f [0..<Suc k] = f 0 # map (\<lambda>j. f (Suc j)) [0..<k]" for f :: "nat \<Rightarrow> nat option"
    by (simp add: upt_conv_Cons map_Suc_upt [symmetric] comp_def del: upt_Suc)
  with Suc.IH [OF one(2)] Suc.prems(2) show ?case
    by (simp add: one(1) one(3) [unfolded One_nat_def] del: upt_Suc)
qed

lemma turns_rotate:
  assumes "0 \<le> pool_index pool" and "pool_index pool < int (length (workerThreads pool))"
  shows "map (\<lambda>j. wt_loop (workerThreads pool ! turn pool j)) [0..<length (workerThreads pool)] =
    rotate (nat (pool_index pool)) (map wt_loop (workerThreads pool))"
proof (rule nth_equalityI)
  let ?n = "length (workerThreads pool)" and ?i = "nat (pool_index pool)"
  fix j assume "j < length (map (\<lambda>j. wt_loop (workerThreads pool ! turn pool j)) [0..<?n])"
  then have "j < ?n" "(?i + j) mod ?n < ?n" by (auto intro: mod_less_divisor)
  then show "map (\<lambda>j. wt_loop (workerThreads pool ! turn pool j)) [0..<?n] ! j =
      rotate ?i (map wt_loop (workerThreads pool)) ! j"
    by (simp add: nth_rotate turn_def)
qed simp

text \<open>
  Connections are handed out in turn. The \<open>j\<close>-th of any number of calls gives the loop of the
  worker \<open>j\<close> places after the current one, counted cyclically; as many calls as there are workers
  give every worker's loop exactly once and leave the pool as it was. A pool without workers always
  gives the main loop.
\<close>

theorem takeWorkerEventLoop_round_robin:
  assumes "pool_ok pool w"
  shows "if workerThreads pool = [] then take_loops k pool w = Inr (replicate k (Some (mainLoop pool)), pool)
    else take_loops k pool w = Inr (map (\<lambda>j. wt_loop (workerThreads pool ! turn pool j)) [0..<k],
        pool\<lparr>pool_index := int (turn pool k)\<rparr>) \<and>
      take_loops (length (workerThreads pool)) pool w =
        Inr (rotate (nat (pool_index pool)) (map wt_loop (workerThreads pool)), pool)"
proof (cases "workerThreads pool = []")
  case True
  then have "takeWorkerEventLoop pool w = Inr (Some (mainLoop pool), pool)"
    using assms by (auto simp: pool_ok_def takeWorkerEventLoop_def split: option.splits)
  then have "take_loops k pool w = Inr (replicate k (Some (mainLoop pool)), pool)"
    by (induction k) simp_all
  with True show ?thesis by simp
next
  case False
  then have i: "0 \<le> pool_index pool" "pool_index pool < int (length (workerThreads pool))"
    using assms by (auto simp: pool_ok_def)
  then have "int (turn pool (length (workerThreads pool))) = pool_index pool" by (simp add: turn_def)
  with False take_loops_turns [OF assms False] turns_rotate [OF i] show ?thesis by simp
qed

theorem takeWorkerEventLoop_round_robin_witness:
  "let t = (\<lambda>l. \<lparr>wt_threadID = 0, wt_name = '''', wt_loop = Some l\<rparr>);
       pool = \<lparr>mainLoop = 0, isStart = True, threadNum = 3, workerThreads = [t 7, t 8, t 9], pool_index = 2\<rparr>;
       w = (blank_world (small_env Map.empty))\<lparr>loops := [0 \<mapsto> fresh_loop]\<rparr> in
   take_loops 3 pool w = Inr ([Some 9, Some 7, Some 8], pool)"
proof -
  let ?t = "\<lambda>l. \<lparr>wt_threadID = 0, wt_name = '''', wt_loop = Some l\<rparr>"
  let ?pool = "\<lparr>mainLoop = 0, isStart = True, threadNum = 3, workerThreads = [?t 7, ?t 8, ?t 9], pool_index = 2\<rparr>"
  let ?w = "(blank_world (small_env Map.empty))\<lparr>loops := [0 \<mapsto> fresh_loop]\<rparr>"
  have "pool_ok ?pool ?w" by (simp add: pool_ok_def fresh_loop_def blank_world_def)
  from takeWorkerEventLoop_round_robin [OF this, of 3] show ?thesis
    by (simp add: Let_def turn_def upt_rec)
qed

section \<open>A new connection\<close>

text \<open>The world when \<open>tcpConnectionInit\<close> has made the connection and not yet given it to the loop.\<close>

definition conn_made :: "int \<Rightarrow> nat \<Rightarrow> world \<Rightarrow> world" where
  "conn_made fd l w =
     (let p = next_addr w in
      w\<lparr>next_addr := p + 6,
        conns := (conns w)(p \<mapsto> \<lparr>conn_loop = l, conn_channel = p + 5, readBuf = Some (p + 1),
          writeBuf = Some (p + 2), conn_name = ''Connection-'' @ dec_int fd,
          conn_request = Some (p + 3), conn_response = Some (p + 4)\<rparr>),
        bufs := (bufs w)(p + 1 \<mapsto> fresh_buffer 10240, p + 2 \<mapsto> fresh_buffer 10240),
        reqs := (reqs w)(p + 3 \<mapsto> httpRequestInit blank_request),
        resps := (resps w)(p + 4 \<mapsto> httpResponseInit),
        channels := (channels w)(p + 5 \<mapsto> channelInit fd ReadEvent (Some ProcessRead) (Some ProcessWrite)
          (Some TcpConnectionDestroy) (ConnArg p))\<rparr>)"

lemma tcpConnectionInit_made:
  assumes "e_mem (os w) 10240" and "0 \<le> fd" and "fd \<le> int_max"
  shows "tcpConnectionInit fd l w =
    bindO (addTask l (next_addr w + 5) ADD (conn_made fd l w)) (\<lambda>w'. Some (Inr (next_addr w, w')))"
proof -
  have "length (dec_int fd) \<le> 10"
    using length_dec_nat [of "nat fd" 10] assms(2,3) by (simp add: dec_int_def int_max_def)
  then have "strcpy_into 32 (''Connection-'' @ dec_int fd) = Inr (''Connection-'' @ dec_int fd)"
    by (intro strcpy_into_fits) simp
  moreover have "bufferInit True True 10240 = Inr (Some (fresh_buffer 10240))"
    by (simp add: bufferInit_def fresh_buffer_def)
  ultimately show ?thesis
    using assms(1) by (simp add: tcpConnectionInit_def conn_made_def Let_def)
qed

lemma conn_made_simps [simp]:
  "loops (conn_made fd l w) = loops w" "nodes (conn_made fd l w) = nodes w"
  "self (conn_made fd l w) = self w" "next_addr (conn_made fd l w) = next_addr w + 6"
  "open_fds (conn_made fd l w) = open_fds w" "os (conn_made fd l w) = os w"
  "servers (conn_made fd l w) = servers w"
  by (simp_all add: conn_made_def Let_def)

text \<open>A registered connection that has just been made.\<close>

definition conn_new :: "world \<Rightarrow> nat \<Rightarrow> nat \<Rightarrow> int \<Rightarrow> bool" where
  "conn_new w p l fd \<longleftrightarrow> conn_live w p \<and> watched w p \<and> idle w l \<and> conn_loop (the_conn w p) = l \<and>
     conn_fd w p = fd \<and> read_buffer w p = fresh_buffer 10240 \<and> write_buffer w p = fresh_buffer 10240 \<and>
     the_request w p = httpRequestInit blank_request \<and> the_response w p = httpResponseInit \<and>
     ep_set (dispatcherData (the_loop w l)) fd = Some EPOLLIN"

lemma registered_conn_new:
  assumes w: "w = set_queue l ns None None None k (registered l (p + 5) c (channelMap lp) w0)"
    and lp: "loops w0 l = Some lp" "map_inv (channelMap lp)" "threadID lp = self w0"
    and fd: "0 \<le> fd" "fd < map_size (channelMap lp)" "fd \<noteq> epfd (dispatcherData lp)" "open_fds w0 fd"
    and ns: "\<forall>n \<ge> k. ns n = None"
    and c: "c = channelInit fd ReadEvent (Some ProcessRead) (Some ProcessWrite) (Some TcpConnectionDestroy) (ConnArg p)"
    and made: "conns w0 p = Some \<lparr>conn_loop = l, conn_channel = p + 5, readBuf = Some (p + 1),
          writeBuf = Some (p + 2), conn_name = nm, conn_request = Some (p + 3), conn_response = Some (p + 4)\<rparr>"
      "bufs w0 (p + 1) = Some (fresh_buffer 10240)" "bufs w0 (p + 2) = Some (fresh_buffer 10240)"
      "reqs w0 (p + 3) = Some (httpRequestInit blank_request)" "resps w0 (p + 4) = Some httpResponseInit"
      "channels w0 (p + 5) = Some c"
  shows "conn_new w p l fd"
proof -
  have b: "buffer_inv (fresh_buffer 10240)" by (rule fresh_buffer_facts) (simp add: int_max_def)
  have q: "req_wf (httpRequestInit blank_request)"
    by (simp add: req_wf_def httpRequestInit_def httpRequestReset_def HeaderSize_def)
  have m: "watch_mask c = EPOLLIN"
    by (simp add: c watch_mask_def channelInit_def has_event_def ReadEvent_def WriteEvent_def EPOLLIN_def)
  have cf: "ch_fd c = fd" "conn_channel_ok c p"
    by (simp_all add: c channelInit_def conn_channel_ok_def)
  have len: "int (length (map_list (channelMap lp))) = map_size (channelMap lp)"
    "nat fd < length (map_list (channelMap lp))"
    using lp(2) fd by (auto simp: map_inv_def)
  have lw: "loops w l = Some (lp\<lparr>channelMap := (channelMap lp)\<lparr>map_list := (map_list (channelMap lp))[nat fd := Some (p + 5)]\<rparr>,
      dispatcherData := (dispatcherData lp)\<lparr>ep_set := (ep_set (dispatcherData lp))(fd \<mapsto> EPOLLIN)\<rparr>,
      el_head := None, el_tail := None, loop_mutex := None\<rparr>)"
    using lp(1) by (simp add: w registered_def m cf)
  have tc: "conns w p = conns w0 p" "bufs w = bufs w0" "reqs w = reqs w0" "resps w = resps w0"
      "channels w = channels w0" "open_fds w = open_fds w0" "self w = self w0" "nodes w = ns" "next_addr w = k"
    by (simp_all add: w registered_def)
  have cl: "conn_live w p"
    using fd len b q httpResponseInit_wf cf made by (simp add: conn_live_def tc lw slot_ok_def)
  have "the_conn w p = the (conns w0 p)" "conn_fd w p = fd"
    using made cf by (simp_all add: the_conn_def conn_fd_def conn_chan_def tc)
  with cl made lw show ?thesis
    by (simp add: conn_new_def watched_def the_loop_def idle_def tc lp ns read_buffer_def write_buffer_def
        the_request_def the_response_def)
qed

lemma tcpConnectionInit_elsewhere:
  assumes mem: "e_mem (os w) 10240"
    and rep: "foreign_rep l w []" and fresh: "\<forall>n \<ge> next_addr w. nodes w n = None"
    and lp: "loops w l = Some lp" "map_inv (channelMap lp)"
    and fd: "0 \<le> fd" "fd \<le> int_max" "fd < map_size (channelMap lp)" "map_list (channelMap lp) ! nat fd = None"
      "fd \<noteq> epfd (dispatcherData lp)" "ep_set (dispatcherData lp) fd = None" "open_fds w fd"
  shows "\<exists>w1 w2. tcpConnectionInit fd l w = Some (Inr (next_addr w, w1)) \<and>
    own_drain call_destroy l w1 = Some (Inr w2) \<and> conn_new w2 (next_addr w) l fd \<and>
    servers w1 = servers w \<and> servers w2 = servers w \<and>
    (\<forall>p. p \<noteq> next_addr w \<longrightarrow> conns w2 p = conns w p) \<and>
    inbox w1 = (inbox w)(snd (socketPair lp) := inbox w (snd (socketPair lp)) @ ''hello'')"
proof -
  let ?p = "next_addr w" and ?w = "conn_made fd l w"
  let ?ch = "?p + 5" and ?na = "?p + 6"
  let ?c = "channelInit fd ReadEvent (Some ProcessRead) (Some ProcessWrite) (Some TcpConnectionDestroy) (ConnArg ?p)"
  from rep have q: "queued ?w l [] []" "loop_mutex (the_loop ?w l) = None" "threadID (the_loop ?w l) \<noteq> self ?w"
    by (auto simp: foreign_rep_def queue_rep_def queued_def the_loop_def split: option.splits)
  obtain ns h t where a:
    "addTask l ?ch ADD ?w = Some (Inr (set_queue l ns h t None (Suc (next_addr ?w)) (woken l ?w)))"
    "queued (set_queue l ns h t None (Suc (next_addr ?w)) (woken l ?w)) l ([] @ [next_addr ?w]) ([] @ [(ADD, ?ch)])"
    "drop_nodes ([] @ [next_addr ?w]) ns = drop_nodes ([] @ [next_addr ?w]) (nodes ?w)"
    by (rule addTask_elsewhere [OF q])
  let ?w1 = "set_queue l ns h t None (Suc (next_addr ?w)) (woken l ?w)"
  let ?o = "as_owner l ?w1"
  have init: "tcpConnectionInit fd l w = Some (Inr (?p, ?w1))"
    using tcpConnectionInit_made [OF mem fd(1,2)] a(1) by simp
  have lo: "loops ?o l = Some (lp\<lparr>el_head := h, el_tail := t, loop_mutex := None\<rparr>)"
    using lp by (simp add: as_owner_def)
  have so: "self ?o = threadID lp" using lp by (simp add: as_owner_def the_loop_def)
  have co: "channels ?o ?ch = Some ?c" "open_fds ?o = open_fds w" "conns ?o = conns ?w" "bufs ?o = bufs ?w"
      "reqs ?o = reqs ?w" "resps ?o = resps ?w" "servers ?o = servers w"
    by (simp_all add: as_owner_def woken_def conn_made_def Let_def)
  have qo: "queued ?o l [next_addr ?w] [(ADD, ?ch)]" "loop_mutex (the_loop ?o l) = None"
  proof -
    have "loops ?o = loops ?w1" "nodes ?o = nodes ?w1" "next_addr ?o = next_addr ?w1"
      by (simp_all add: as_owner_def)
    then have "queued ?o l [next_addr ?w] [(ADD, ?ch)] = queued ?w1 l [next_addr ?w] [(ADD, ?ch)]"
      by (rule queued_cong)
    then show "queued ?o l [next_addr ?w] [(ADD, ?ch)]" using a(2) by (simp only: append_Nil)
    show "loop_mutex (the_loop ?o l) = None" unfolding the_loop_def lo by simp
  qed
  let ?r = "registered l ?ch ?c (channelMap lp) ?o"
  have "eventLoopAdd l ?ch ?o = Some (Inr (0, ?r))"
  proof (rule eventLoopAdd_step [OF co(1) lo])
    show "(if map_size (channelMap (lp\<lparr>el_head := h, el_tail := t, loop_mutex := None\<rparr>)) \<le> ch_fd ?c
        then makeMapRoom (e_mem (os ?o)) (channelMap (lp\<lparr>el_head := h, el_tail := t, loop_mutex := None\<rparr>)) (ch_fd ?c) 8
        else Some (Inr (True, channelMap (lp\<lparr>el_head := h, el_tail := t, loop_mutex := None\<rparr>)))) =
        Some (Inr (True, channelMap lp))" using fd by (simp add: channelInit_def)
  qed (use fd lp(2) co(2) in \<open>auto simp: channelInit_def map_inv_def\<close>)
  then have t: "run_tasks call_destroy l [(ADD, ?ch)] ?o = Some (Inr ?r)" by (simp add: run_task_def)
  let ?w2 = "set_queue l (drop_nodes [next_addr ?w] (nodes w)) None None None (Suc (next_addr ?w)) ?r"
  have d: "own_drain call_destroy l ?w1 = Some (Inr ?w2)"
    unfolding own_drain_def processTask_tasks [OF call_destroy_blind qo] t
    using a(3) by (simp add: as_owner_def)
  have "conn_new ?w2 ?p l fd"
  proof (rule registered_conn_new [where nm = "''Connection-'' @ dec_int fd" and lp = "lp\<lparr>el_head := h, el_tail := t, loop_mutex := None\<rparr>"])
    show "?w2 = set_queue l (drop_nodes [next_addr ?w] (nodes w)) None None None (Suc (next_addr ?w))
        (registered l (?p + 5) ?c (channelMap (lp\<lparr>el_head := h, el_tail := t, loop_mutex := None\<rparr>)) ?o)" by simp
  qed (use lo lp so fd fresh co in \<open>auto simp: drop_nodes_def conn_made_def Let_def\<close>)
  moreover have "servers ?w1 = servers w" by (simp add: woken_def Let_def)
  moreover have "servers ?w2 = servers w" using co(7) by (simp add: registered_def)
  moreover have "conns ?w2 p = conns w p" if "p \<noteq> ?p" for p
    using that co(3) by (simp add: registered_def conn_made_def Let_def)
  moreover have "inbox ?w1 = (inbox w)(snd (socketPair lp) := inbox w (snd (socketPair lp)) @ ''hello'')"
    using lp by (simp add: woken_def Let_def the_loop_def) (simp add: conn_made_def Let_def)
  ultimately show ?thesis using init d by blast
qed

section \<open>Properties\<close>

text \<open>
  C22. A client that connects is served by the worker whose turn it is. When \<^verbatim>\<open>accept\<close> has
  given a descriptor the worker has room for, \<open>acceptConnection\<close> in the main thread makes the
  connection with empty buffers and leaves it in the queue of that worker's loop, which it wakes;
  the turn passes to the next worker. When the worker's own thread then works off its queue, the
  connection is in the slot of its descriptor and watched for input, and no other connection has
  changed.
\<close>

theorem acceptConnection_registers:
  fixes w :: world and s l :: nat
  defines "cfd \<equiv> io_accept (answers w (tick w))" and "p \<equiv> next_addr w"
  assumes srv: "servers w s = Some server" "srv_listener server = Some lst"
    and pool: "pool_ok (srv_threadPool server) w" "workerThreads (srv_threadPool server) \<noteq> []"
      "wt_loop (workerThreads (srv_threadPool server) ! turn (srv_threadPool server) 0) = Some l"
    and mem: "e_mem (os w) 10240"
    and rep: "foreign_rep l w []" and fresh: "\<forall>n \<ge> next_addr w. nodes w n = None"
    and lp: "loops w l = Some lp" "map_inv (channelMap lp)"
    and fd: "0 \<le> cfd" "cfd \<le> int_max" "cfd < map_size (channelMap lp)" "map_list (channelMap lp) ! nat cfd = None"
      "cfd \<noteq> epfd (dispatcherData lp)" "ep_set (dispatcherData lp) cfd = None"
  shows "\<exists>w1 w2. acceptConnection s w = Some (Inr w1) \<and> own_drain call_destroy l w1 = Some (Inr w2) \<and>
    conn_new w2 p l cfd \<and> (\<forall>q. q \<noteq> p \<longrightarrow> conns w2 q = conns w q) \<and>
    servers w1 s = Some (server\<lparr>srv_threadPool := (srv_threadPool server)
      \<lparr>pool_index := int (turn (srv_threadPool server) 1)\<rparr>\<rparr>) \<and>
    inbox w1 (snd (socketPair lp)) = inbox w (snd (socketPair lp)) @ ''hello''"
proof -
  let ?server = "server\<lparr>srv_threadPool := (srv_threadPool server)
      \<lparr>pool_index := int (turn (srv_threadPool server) 1)\<rparr>\<rparr>"
  let ?wf = "w\<lparr>open_fds := (open_fds w)(cfd := True)\<rparr>"
  let ?w = "?wf\<lparr>servers := (servers w)(s \<mapsto> ?server)\<rparr>"
  have pool': "pool_ok (srv_threadPool server) ?wf" using pool(1) by (subst pool_ok_cong [of _ w]) simp_all
  have a: "acceptConnection s w = bindO (tcpConnectionInit cfd l ?w) (\<lambda>(_, w). Some (Inr w))"
    using srv fd(1) take_one(1) [OF pool' pool(2)] pool(3)
    by (simp add: acceptConnection_def Let_def cfd_def)
  have r: "foreign_rep l ?w []"
    using rep by (auto simp: foreign_rep_def queue_rep_def queued_def the_loop_def split: option.splits)
  obtain w1 w2 where w12: "tcpConnectionInit cfd l ?w = Some (Inr (next_addr ?w, w1))"
    "own_drain call_destroy l w1 = Some (Inr w2)" "conn_new w2 (next_addr ?w) l cfd" "servers w1 = servers ?w"
    "\<forall>p. p \<noteq> next_addr ?w \<longrightarrow> conns w2 p = conns ?w p"
    "inbox w1 = (inbox ?w)(snd (socketPair lp) := inbox ?w (snd (socketPair lp)) @ ''hello'')"
    using tcpConnectionInit_elsewhere [OF _ r, of lp cfd] mem fresh lp fd by auto
  with a show ?thesis unfolding p_def by (intro exI [of _ w1] exI [of _ w2]) simp
qed

definition example_server :: tcp_server where
  "example_server = \<lparr>srv_threadNum = 1, srv_mainLoop = 0,
     srv_threadPool = \<lparr>mainLoop = 0, isStart = True, threadNum = 1,
       workerThreads = [\<lparr>wt_threadID = 9, wt_name = ''SubThread-0'', wt_loop = Some 1\<rparr>], pool_index = 0\<rparr>,
     srv_listener = Some \<lparr>lfd = 6, port = 10000\<rparr>\<rparr>"

text \<open>A running server with one worker, to which a client connects on descriptor 7.\<close>

definition example_world :: world where
  "example_world = (blank_world (small_env Map.empty))
     \<lparr>loops := [0 \<mapsto> fresh_loop, 1 \<mapsto> fresh_loop\<lparr>threadID := 9, dispatcherData := \<lparr>epfd = 10, ep_set = Map.empty, ep_events = True\<rparr>\<rparr>],
      servers := [5 \<mapsto> example_server], next_addr := 20,
      answers := (\<lambda>_. \<lparr>io_avail = None, io_send = SendErr, io_accept = 7\<rparr>)\<rparr>"

theorem acceptConnection_registers_witness:
  "\<exists>w1 w2. acceptConnection 5 example_world = Some (Inr w1) \<and>
     own_drain call_destroy 1 w1 = Some (Inr w2) \<and> conn_new w2 20 1 7"
proof -
  note ex = example_world_def example_server_def blank_world_def fresh_loop_def small_env_def
  have pool: "pool_ok (srv_threadPool example_server) example_world"
    "workerThreads (srv_threadPool example_server) \<noteq> []"
    "wt_loop (workerThreads (srv_threadPool example_server) ! turn (srv_threadPool example_server) 0) = Some 1"
    by (simp_all add: ex pool_ok_def turn_def)
  have rep: "foreign_rep 1 example_world []"
    by (simp add: ex foreign_rep_def queue_rep_def queued_def the_loop_def)
  let ?lp = "fresh_loop\<lparr>threadID := 9, dispatcherData := \<lparr>epfd = 10, ep_set = Map.empty, ep_events = True\<rparr>\<rparr>"
  have lp: "loops example_world 1 = Some ?lp" "map_inv (channelMap ?lp)"
    using channelMapInit_inv [of 128 "\<lambda>_. None"] by (simp_all add: ex)
  have cf: "io_accept (answers example_world (tick example_world)) = 7" "next_addr example_world = 20"
    by (simp_all add: ex)
  have "\<exists>w1 w2. acceptConnection 5 example_world = Some (Inr w1) \<and> own_drain call_destroy 1 w1 = Some (Inr w2) \<and>
    conn_new w2 (next_addr example_world) 1 (io_accept (answers example_world (tick example_world))) \<and>
    (\<forall>q. q \<noteq> next_addr example_world \<longrightarrow> conns w2 q = conns example_world q) \<and>
    servers w1 5 = Some (example_server\<lparr>srv_threadPool := (srv_threadPool example_server)
      \<lparr>pool_index := int (turn (srv_threadPool example_server) 1)\<rparr>\<rparr>) \<and>
    inbox w1 (snd (socketPair ?lp)) = inbox example_world (snd (socketPair ?lp)) @ ''hello''"
    by (rule acceptConnection_registers [OF _ _ pool _ rep _ lp])
      (simp_all add: cf, simp_all add: ex int_max_def channelMapInit_def)
  then show ?thesis unfolding cf by blast
qed

end
