(* ===== verification/Serving.thy ===== *)
theory Serving
  imports Server
begin

text \<open>
  A connection from its first byte to its last: what the rounds of an event loop do when the kernel
  reports its descriptor. A round is \<open>loop_round\<close> with the functions of \<open>Server\<close> behind the
  callbacks; \<open>rounds\<close> is a number of iterations of \<open>run_loop\<close>.
\<close>

section \<open>Rounds\<close>

abbreviation served_round :: "nat \<Rightarrow> (32 word \<times> int) list \<Rightarrow> world \<Rightarrow> world run" where
  "served_round \<equiv> loop_round call_destroy call_callback"

fun rounds :: "nat \<Rightarrow> (32 word \<times> int) list list \<Rightarrow> world \<Rightarrow> world run" where
  "rounds l [] w = Some (Inr w)"
| "rounds l (r # rs) w = bindO (served_round l r w) (rounds l rs)"

lemma rounds_append: "rounds l (rs @ qs) w = bindO (rounds l rs w) (rounds l qs)"
  by (induction rs arbitrary: w) (auto simp: bindO_assoc intro: bindO_cong_on)

text \<open>The end of a round in which nothing was queued.\<close>

definition tidy :: "nat \<Rightarrow> world \<Rightarrow> world" where
  "tidy l w = set_queue l (nodes w) None None None (next_addr w) w"

lemma processTask_idle:
  assumes "idle w l"
  shows "eventLoopProcessTask call_destroy l w = Some (Inr (tidy l w))"
proof -
  from assms have q: "queued w l [] []" "loop_mutex (the_loop w l) = None"
    by (auto simp: idle_def queued_def the_loop_def split: option.splits)
  have "drop_nodes [] (nodes w) = nodes w" by (simp add: drop_nodes_def)
  with processTask_tasks [OF call_destroy_blind q] show ?thesis by (simp add: tidy_def)
qed

lemma idle_tidy: "idle w l \<Longrightarrow> idle (tidy l w) l"
  by (auto simp: idle_def tidy_def split: option.splits)

lemma tidy_simps [simp]:
  "conns (tidy l w) = conns w" "channels (tidy l w) = channels w" "bufs (tidy l w) = bufs w"
  "reqs (tidy l w) = reqs w" "resps (tidy l w) = resps w" "open_fds (tidy l w) = open_fds w"
  "sent (tidy l w) = sent w" "self (tidy l w) = self w" "answers (tidy l w) = answers w"
  "tick (tidy l w) = tick w" "os (tidy l w) = os w" "inbox (tidy l w) = inbox w"
  "stales (tidy l w) = stales w"
  "loops (tidy l w) l = map_option (\<lambda>lp. lp\<lparr>el_head := None, el_tail := None, loop_mutex := None\<rparr>) (loops w l)"
  by (simp_all add: tidy_def)

lemma same_conn_tidy: "same_conn w (tidy l w) p"
proof -
  have "map_option (\<lambda>lp. (channelMap lp, epfd (dispatcherData lp))) (loops (tidy l w) k) =
      map_option (\<lambda>lp. (channelMap lp, epfd (dispatcherData lp))) (loops w k)" for k
    by (cases "k = l") (simp_all add: option.map_comp comp_def tidy_def)
  then show ?thesis by (simp add: same_conn_def)
qed

text \<open>The next answers.\<close>

definition ticked :: "world \<Rightarrow> world" where
  "ticked w = w\<lparr>tick := Suc (tick w)\<rparr>"

lemma ticked_simps [simp]:
  "loops (ticked w) = loops w" "channels (ticked w) = channels w" "conns (ticked w) = conns w"
  "bufs (ticked w) = bufs w" "reqs (ticked w) = reqs w" "resps (ticked w) = resps w"
  "nodes (ticked w) = nodes w" "next_addr (ticked w) = next_addr w" "self (ticked w) = self w"
  "open_fds (ticked w) = open_fds w" "sent (ticked w) = sent w" "answers (ticked w) = answers w"
  "tick (ticked w) = Suc (tick w)" "os (ticked w) = os w"
  by (simp_all add: ticked_def)

text \<open>What a connection consists of does not depend on the tick or the loop's queue.\<close>

lemma conn_ticked [simp]:
  "conn_live (ticked w) p = conn_live w p" "the_conn (ticked w) p = the_conn w p"
  "conn_fd (ticked w) p = conn_fd w p" "read_buffer (ticked w) p = read_buffer w p"
  "write_buffer (ticked w) p = write_buffer w p" "watched (ticked w) p = watched w p"
  "idle (ticked w) l = idle w l" "conn_chan (ticked w) p = conn_chan w p"
  "released (ticked w) p conn fd = released w p conn fd"
  "others_kept w0 (ticked w) p conn fd = others_kept w0 w p conn fd"
  "others_kept (ticked w) w1 p conn fd = others_kept w w1 p conn fd"
  by (simp_all add: conn_live_def the_conn_def conn_fd_def conn_chan_def read_buffer_def write_buffer_def
      watched_def the_loop_def idle_def released_def others_kept_def cong: option.case_cong)

lemma conn_tidy [simp]:
  "the_conn (tidy l w) p = the_conn w p" "conn_chan (tidy l w) p = conn_chan w p"
  "conn_fd (tidy l w) p = conn_fd w p" "read_buffer (tidy l w) p = read_buffer w p"
  "write_buffer (tidy l w) p = write_buffer w p"
  "others_kept w0 (tidy l w) p conn fd = others_kept w0 w p conn fd"
  "others_kept (tidy l w) w1 p conn fd = others_kept w w1 p conn fd"
  by (simp_all add: the_conn_def conn_fd_def conn_chan_def read_buffer_def write_buffer_def others_kept_def)

lemma conn_live_tidy: "conn_live w p \<Longrightarrow> conn_live (tidy l w) p"
  using same_conn_live(1) [OF _ same_conn_tidy] by blast

lemma watched_tidy:
  "loops w l \<noteq> None \<Longrightarrow> conn_loop (the_conn w p) = l \<Longrightarrow> watched (tidy l w) p = watched w p"
  by (auto simp: watched_def the_loop_def)

lemma released_tidy:
  "loops w l \<noteq> None \<Longrightarrow> conn_loop conn = l \<Longrightarrow> released (tidy l w) p conn fd = released w p conn fd"
  by (auto simp: released_def the_loop_def)

section \<open>Events on a connection\<close>

lemma event_bits:
  "has_event ReadEvent ReadEvent" "\<not> has_event ReadEvent WriteEvent"
  "has_event WriteEvent WriteEvent" "\<not> has_event WriteEvent ReadEvent"
  by (simp_all add: has_event_def ReadEvent_def WriteEvent_def)

lemma activate_conn:
  assumes live: "conn_live w p" and l: "conn_loop (the_conn w p) = l" and fd: "conn_fd w p = fd"
  shows "eventActivate call_callback l fd ReadEvent w = bindO (processRead p w) (\<lambda>w. Some (Inr (ticked w)))"
    and "eventActivate call_callback l fd WriteEvent w = bindO (processWrite p w) (\<lambda>w. Some (Inr (ticked w)))"
proof -
  from live obtain conn c lp where
    L: "conns w p = Some conn" "channels w (conn_channel conn) = Some c" "loops w (conn_loop conn) = Some lp"
    "slot_ok lp c (conn_channel conn)" "conn_channel_ok c p" by (rule conn_liveE)
  have names: "conn_loop conn = l" "ch_fd c = fd"
    using L l fd by (simp_all add: the_conn_def conn_chan_def conn_fd_def)
  have sl: "0 \<le> fd" "fd < int (length (map_list (channelMap lp)))"
    "map_list (channelMap lp) ! nat fd = Some (conn_channel conn)"
    using L(4) names by (auto simp: slot_ok_def)
  show "eventActivate call_callback l fd ReadEvent w = bindO (processRead p w) (\<lambda>w. Some (Inr (ticked w)))"
    "eventActivate call_callback l fd WriteEvent w = bindO (processWrite p w) (\<lambda>w. Some (Inr (ticked w)))"
    using L sl names
    by (simp_all add: eventActivate_def Let_def event_bits conn_channel_ok_def call_callback_def ticked_def
        bindO_assoc)
qed

lemma epoll_bits:
  "\<not> has_event EPOLLIN EPOLLERR" "\<not> has_event EPOLLIN EPOLLHUP" "has_event EPOLLIN EPOLLIN"
  "\<not> has_event EPOLLIN EPOLLOUT" "\<not> has_event EPOLLOUT EPOLLERR" "\<not> has_event EPOLLOUT EPOLLHUP"
  "\<not> has_event EPOLLOUT EPOLLIN" "has_event EPOLLOUT EPOLLOUT"
  by (simp_all add: has_event_def EPOLLIN_def EPOLLOUT_def EPOLLERR_def EPOLLHUP_def)

lemma round_single:
  "served_round l [(EPOLLIN, fd)] w =
     bindO (eventActivate call_callback l fd ReadEvent w) (eventLoopProcessTask call_destroy l)"
  "served_round l [(EPOLLOUT, fd)] w =
     bindO (eventActivate call_callback l fd WriteEvent w) (eventLoopProcessTask call_destroy l)"
  by (simp_all add: loop_round_def epollDispatch_def EPOLL_MAX_def epoll_bits bindO_assoc)

text \<open>One round in which the socket takes the next bytes.\<close>

lemma idle_loop: "idle w l \<Longrightarrow> loops w l \<noteq> None"
  by (auto simp: idle_def split: option.splits)

lemma write_round:
  assumes live: "conn_live w p" and wt: "watched w p" and idle: "idle w l"
    and l: "conn_loop (the_conn w p) = l" and fd: "conn_fd w p = fd"
    and ne: "contents (write_buffer w p) \<noteq> []" and rd: "contents (read_buffer w p) = []"
    and n: "0 < n" "io_send (answers w (tick w)) = SendOk n"
  shows "\<exists>w'. served_round l [(EPOLLOUT, fd)] w = Some (Inr w') \<and>
    sent w' = (sent w)(fd := sent w fd @ take n (contents (write_buffer w p))) \<and>
    others_kept w w' p (the_conn w p) fd \<and>
    (if n < length (contents (write_buffer w p))
     then conn_live w' p \<and> watched w' p \<and> idle w' l \<and> the_conn w' p = the_conn w p \<and> conn_fd w' p = fd \<and>
       contents (write_buffer w' p) = drop n (contents (write_buffer w p)) \<and>
       contents (read_buffer w' p) = [] \<and> tick w' = Suc (tick w) \<and> answers w' = answers w
     else released w' p (the_conn w p) fd)"
proof -
  obtain w1 where w1: "processWrite p w = Some (Inr w1)" "idle w1 l"
    "sent w1 = (sent w)(fd := sent w fd @ take n (contents (write_buffer w p)))"
    "if n < length (contents (write_buffer w p))
     then conn_live w1 p \<and> watched w1 p \<and> conn_chan w1 p = conn_chan w p \<and>
       contents (write_buffer w1 p) = drop n (contents (write_buffer w p)) \<and>
       read_buffer w1 p = read_buffer w p \<and> the_conn w1 p = the_conn w p \<and> tick w1 = tick w \<and>
       answers w1 = answers w \<and> others_kept w w1 p (the_conn w p) fd
     else released w1 p (the_conn w p) fd \<and> others_kept w w1 p (the_conn w p) fd"
    using processWrite_step [OF live wt _ ne n] idle rd unfolding l fd by auto
  let ?w = "tidy l (ticked w1)"
  have r: "served_round l [(EPOLLOUT, fd)] w = Some (Inr ?w)"
    using w1(1,2) by (simp add: round_single activate_conn [OF live l fd] processTask_idle)
  have lp: "loops (ticked w1) l \<noteq> None" using idle_loop [OF w1(2)] by simp
  have "idle ?w l" using w1(2) by (intro idle_tidy) simp
  moreover have "conn_live ?w p" if "conn_live w1 p" using that by (intro conn_live_tidy) simp
  moreover have "watched ?w p" if "watched w1 p" "the_conn w1 p = the_conn w p"
    using that lp l by (subst watched_tidy) simp_all
  moreover have "conn_fd ?w p = fd" if "conn_chan w1 p = conn_chan w p"
    using that fd by (simp add: conn_fd_def)
  moreover have "released ?w p (the_conn w p) fd" if "released w1 p (the_conn w p) fd"
    using that lp l by (subst released_tidy) simp_all
  ultimately show ?thesis
    using r w1(3,4) rd by (intro exI [of _ ?w]) (simp split: if_splits)
qed

text \<open>Rounds until the last byte.\<close>

lemma write_rounds:
  assumes "conn_live w p" and "watched w p" and "idle w l"
    and "conn_loop (the_conn w p) = l" and "conn_fd w p = fd"
    and "contents (write_buffer w p) \<noteq> []" and "contents (read_buffer w p) = []"
    and acc: "\<And>t. tick w \<le> t \<Longrightarrow> \<exists>n > 0. io_send (answers w t) = SendOk n"
  shows "\<exists>k w'. k \<le> length (contents (write_buffer w p)) \<and>
    rounds l (replicate k [(EPOLLOUT, fd)]) w = Some (Inr w') \<and>
    sent w' = (sent w)(fd := sent w fd @ contents (write_buffer w p)) \<and>
    released w' p (the_conn w p) fd \<and> others_kept w w' p (the_conn w p) fd"
  using assms
proof (induction "length (contents (write_buffer w p))" arbitrary: w rule: less_induct)
  case less
  let ?c = "contents (write_buffer w p)"
  obtain n where n: "0 < n" "io_send (answers w (tick w)) = SendOk n" using less.prems(8) by blast
  obtain w1 where w1: "served_round l [(EPOLLOUT, fd)] w = Some (Inr w1)"
    "sent w1 = (sent w)(fd := sent w fd @ take n ?c)" "others_kept w w1 p (the_conn w p) fd"
    "if n < length ?c
     then conn_live w1 p \<and> watched w1 p \<and> idle w1 l \<and> the_conn w1 p = the_conn w p \<and> conn_fd w1 p = fd \<and>
       contents (write_buffer w1 p) = drop n ?c \<and> contents (read_buffer w1 p) = [] \<and>
       tick w1 = Suc (tick w) \<and> answers w1 = answers w
     else released w1 p (the_conn w p) fd"
    using write_round [OF less.prems(1-7) n] by blast
  show ?case
  proof (cases "n < length ?c")
    case False
    with w1 less.prems(6) show ?thesis
      by (intro exI [of _ 1] exI [of _ w1]) (auto simp: Suc_le_eq)
  next
    case True
    with w1(4) have L: "conn_live w1 p" "watched w1 p" "idle w1 l" "the_conn w1 p = the_conn w p"
      "conn_fd w1 p = fd" "contents (write_buffer w1 p) = drop n ?c" "contents (read_buffer w1 p) = []"
      "tick w1 = Suc (tick w)" "answers w1 = answers w" by simp_all
    have acc1: "\<exists>n > 0. io_send (answers w1 t) = SendOk n" if "tick w1 \<le> t" for t
      using less.prems(8) [of t] that L(8,9) by simp
    have ne: "contents (write_buffer w1 p) \<noteq> []" using True L(6) by simp
    have lt: "length (contents (write_buffer w1 p)) < length ?c" using n(1) L(6) less.prems(6) by simp
    have l1: "conn_loop (the_conn w1 p) = l" using L(4) less.prems(4) by simp
    obtain k w' where K: "k \<le> length (contents (write_buffer w1 p))"
      "rounds l (replicate k [(EPOLLOUT, fd)]) w1 = Some (Inr w')"
      "sent w' = (sent w1)(fd := sent w1 fd @ drop n ?c)"
      "released w' p (the_conn w p) fd" "others_kept w1 w' p (the_conn w p) fd"
      using less.hyps [OF lt L(1-3) l1 L(5) ne L(7) acc1] unfolding L(4,6) by blast
    have "others_kept w w' p (the_conn w p) fd"
      using w1(3) K(5) by (simp add: others_kept_def)
    moreover have "Suc k \<le> length ?c" using K(1) lt by simp
    ultimately show ?thesis
      using w1 K by (intro exI [of _ "Suc k"] exI [of _ w']) simp
  qed
qed

section \<open>A whole connection\<close>

lemma read_get_round:
  assumes live: "conn_live w p" and wt: "watched w p" and idle: "idle w l"
    and l: "conn_loop (the_conn w p) = l" and fd: "conn_fd w p = fd"
    and io: "io_avail (answers w (tick w)) = Some s" "s \<noteq> []"
    and fits: "int (length s) \<le> bufferWriteableSize (read_buffer w p)"
    and log: "logged_ok (received_into (read_buffer w p) s)"
    and req: "curState (the_request w p) = ParseReqLine"
      "contents (read_buffer w p) @ s = print_request m u v hs @ rest" "request_ok m u v hs"
      "reqHeadersNum (the_request w p) + int (length hs) \<le> 12"
      "strcasecmp_eq (m @ [NUL]) ''get''" "cstr (decode u) \<noteq> []"
    and path: "path_ok (os w) (requested_path u)"
      "reply_for (os w) (requested_path u) = (c, msg, rhs, f, fn)"
      "headerNum (the_response w p) + int (length rhs) \<le> 16" "reply_body (os w) f fn txt"
    and room: "roomy (e_mem (os w)) (write_buffer w p)
      (int (length (reply_text c msg (headers_of (the_response w p) @ rhs) txt)))"
      "io_send (answers w (tick w)) = SendErr \<or>
       int (length (reply_text c msg (headers_of (the_response w p) @ rhs) txt))
         \<le> bufferWriteableSize (write_buffer w p)"
  shows "\<exists>w' now. served_round l [(EPOLLIN, fd)] w = Some (Inr w') \<and> conn_live w' p \<and> watched w' p \<and>
    idle w' l \<and> the_conn w' p = the_conn w p \<and> conn_fd w' p = fd \<and>
    contents (read_buffer w' p) = rest \<and> sent w' = (sent w)(fd := sent w fd @ now) \<and>
    now @ contents (write_buffer w' p) = contents (write_buffer w p) @
      reply_text c msg (headers_of (the_response w p) @ rhs) txt \<and>
    (txt \<noteq> [] \<longrightarrow> contents (write_buffer w' p) \<noteq> []) \<and> tick w' = Suc (tick w) \<and> answers w' = answers w \<and>
    ep_set (dispatcherData (the_loop w' l)) fd = Some (watch_mask (writeEventEnable (conn_chan w p) True)) \<and>
    others_kept w w' p (the_conn w p) fd"
proof -
  obtain w1 now where w1: "processRead p w = Some (Inr w1)" "conn_live w1 p" "watched w1 p" "idle w1 l"
    "the_conn w1 p = the_conn w p" "conn_fd w1 p = fd" "contents (read_buffer w1 p) = rest"
    "sent w1 = (sent w)(fd := sent w fd @ now)"
    "now @ contents (write_buffer w1 p) = contents (write_buffer w p) @
      reply_text c msg (headers_of (the_response w p) @ rhs) txt"
    "txt \<noteq> [] \<longrightarrow> contents (write_buffer w1 p) \<noteq> []" "tick w1 = tick w" "answers w1 = answers w"
    "ep_set (dispatcherData (the_loop w1 l)) fd = Some (watch_mask (writeEventEnable (conn_chan w p) True))"
    "others_kept w w1 p (the_conn w p) fd"
    using processRead_get_step [OF live wt _ io fits log req path room] idle unfolding l fd by blast
  let ?w = "tidy l (ticked w1)"
  have lp: "loops w1 l \<noteq> None" using idle_loop [OF w1(4)] .
  then have "dispatcherData (the_loop ?w l) = dispatcherData (the_loop w1 l)" by (auto simp: the_loop_def)
  moreover have "served_round l [(EPOLLIN, fd)] w = Some (Inr ?w)"
    using w1(1,4) by (simp add: round_single activate_conn [OF live l fd] processTask_idle)
  moreover have "idle ?w l" using w1(4) by (intro idle_tidy) simp
  moreover have "conn_live ?w p" using w1(2) by (intro conn_live_tidy) simp
  moreover have "watched ?w p" using w1(3,5) lp l by (subst watched_tidy) simp_all
  ultimately show ?thesis
    using w1 by (intro exI [of _ ?w] exI [of _ now]) simp
qed

section \<open>A client that goes away\<close>

lemma activate_released:
  assumes "released w p conn fd" and "idle w l" and "conn_loop conn = l"
  shows "eventActivate call_callback l fd WriteEvent w = Some (Inl NullDeref)"
proof -
  from idle_loop [OF assms(2)] obtain lp where lp: "loops w l = Some lp" by blast
  with assms have "0 \<le> fd" "fd < int (length (map_list (channelMap lp)))" "map_list (channelMap lp) ! nat fd = None"
    by (auto simp: released_def the_loop_def)
  with lp show ?thesis by (simp add: eventActivate_def Let_def)
qed

lemma round_both:
  "served_round l [(EPOLLIN OR EPOLLOUT, fd)] w =
     bindO (eventActivate call_callback l fd ReadEvent w) (\<lambda>w.
     bindO (eventActivate call_callback l fd WriteEvent w) (eventLoopProcessTask call_destroy l))"
proof -
  have "\<not> has_event (EPOLLIN OR EPOLLOUT) EPOLLERR" "\<not> has_event (EPOLLIN OR EPOLLOUT) EPOLLHUP"
    "has_event (EPOLLIN OR EPOLLOUT) EPOLLIN" "has_event (EPOLLIN OR EPOLLOUT) EPOLLOUT"
    by (simp_all add: has_event_def EPOLLIN_def EPOLLOUT_def EPOLLERR_def EPOLLHUP_def)
  then show ?thesis
    by (simp add: loop_round_def epollDispatch_def EPOLL_MAX_def bindO_assoc)
qed

lemma processWrite_nothing:
  assumes live: "conn_live w p" and none: "contents (write_buffer w p) = []"
  shows "processWrite p w = Some (Inr w)"
proof -
  from live obtain conn c lp rb wb rq rs r b q s where
    L: "conns w p = Some conn" "channels w (conn_channel conn) = Some c" "loops w (conn_loop conn) = Some lp"
    "slot_ok lp c (conn_channel conn)" "conn_channel_ok c p" "open_fds w (ch_fd c)"
    "readBuf conn = Some rb" "writeBuf conn = Some wb" "conn_request conn = Some rq"
    "conn_response conn = Some rs" "rb \<noteq> wb" "bufs w rb = Some r" "bufs w wb = Some b"
    "reqs w rq = Some q" "resps w rs = Some s" "buffer_inv r" "buffer_inv b" "req_wf q" "response_wf s"
    by (rule conn_liveE)
  have "write_buffer w p = b" using L by (simp add: write_buffer_def the_conn_def)
  then have "bufferSendData b o' = (0, b, [])" for o'
    using readable_length [OF L(17)] none by (simp add: bufferSendData_def)
  moreover have "w\<lparr>bufs := (bufs w)(wb \<mapsto> b), sent := (sent w)(ch_fd c := sent w (ch_fd c) @ [])\<rparr> = w"
    using L(13) by (simp add: fun_upd_idem)
  ultimately show ?thesis using L by (simp add: processWrite_def Let_def)
qed

section \<open>Properties\<close>

text \<open>
  C1. A client is served from its request to the close of its connection. Over a connection just
  registered, a whole GET request arrives in one read; after the round that reads it, and at most as
  many rounds reporting the socket writable as the reply has bytes, whatever positive number of
  bytes \<^verbatim>\<open>send\<close> takes each time, the client has been sent exactly the reply for the
  resource it named (status line, headers, body), everything of the connection has been released
  and nothing of any other connection has changed. The body must not be empty, and a reply sent
  while the request is parsed must fit the buffer.
\<close>

theorem server_serves_get:
  assumes new: "conn_new w p l fd"
    and io: "io_avail (answers w (tick w)) = Some (print_request m u v hs)"
    and req: "request_ok m u v hs" "length (print_request m u v hs) < 10240" "length hs \<le> 12"
      "strcasecmp_eq (m @ [NUL]) ''get''" "cstr (decode u) \<noteq> []"
    and path: "path_ok (os w) (requested_path u)"
      "reply_for (os w) (requested_path u) = (c, msg, rhs, f, fn)" "length rhs \<le> 16"
      "reply_body (os w) f fn txt" "txt \<noteq> []"
    and room: "roomy (e_mem (os w)) (fresh_buffer 10240) (int (length (reply_text c msg rhs txt)))"
      "io_send (answers w (tick w)) = SendErr \<or> length (reply_text c msg rhs txt) \<le> 10240"
    and acc: "\<And>t. tick w < t \<Longrightarrow> \<exists>n > 0. io_send (answers w t) = SendOk n"
  shows "\<exists>k w'. k \<le> length (reply_text c msg rhs txt) \<and>
    rounds l ([(EPOLLIN, fd)] # replicate k [(EPOLLOUT, fd)]) w = Some (Inr w') \<and>
    sent w' = (sent w)(fd := sent w fd @ reply_text c msg rhs txt) \<and>
    released w' p (the_conn w p) fd \<and> others_kept w w' p (the_conn w p) fd"
proof -
  let ?s = "print_request m u v hs" and ?t = "reply_text c msg rhs txt"
  from new have N: "conn_live w p" "watched w p" "idle w l" "conn_loop (the_conn w p) = l" "conn_fd w p = fd"
    "read_buffer w p = fresh_buffer 10240" "write_buffer w p = fresh_buffer 10240"
    "the_request w p = httpRequestInit blank_request" "the_response w p = httpResponseInit"
    by (simp_all add: conn_new_def)
  have B: "contents (fresh_buffer 10240) = []" "bufferWriteableSize (fresh_buffer 10240) = 10240"
    by (simp_all add: fresh_buffer_def contents_def bufferReadableSize_def bufferWriteableSize_def)
  have ne: "?s \<noteq> []" using req(1) by (simp add: print_request_def)
  have log: "logged_ok (received_into (fresh_buffer 10240) ?s)"
    using req(2) by (simp add: logged_ok_def received_into_def fresh_buffer_def overwrite_def)
  have h0: "headers_of httpResponseInit = []" "headerNum httpResponseInit = 0"
    by (simp_all add: headers_of_def httpResponseInit_def)
  have q0: "curState (httpRequestInit blank_request) = ParseReqLine" "reqHeadersNum (httpRequestInit blank_request) = 0"
    by (simp_all add: httpRequestInit_def httpRequestReset_def)
  obtain w1 now where w1: "served_round l [(EPOLLIN, fd)] w = Some (Inr w1)" "conn_live w1 p" "watched w1 p"
    "idle w1 l" "the_conn w1 p = the_conn w p" "conn_fd w1 p = fd" "contents (read_buffer w1 p) = []"
    "sent w1 = (sent w)(fd := sent w fd @ now)" "now @ contents (write_buffer w1 p) = ?t"
    "contents (write_buffer w1 p) \<noteq> []" "tick w1 = Suc (tick w)" "answers w1 = answers w"
    "others_kept w w1 p (the_conn w p) fd"
    using read_get_round [OF N(1-5) io ne, of m u v hs "[]" c msg rhs f fn "txt"]
      req path log room unfolding N(6-9) B h0 q0 by auto
  have acc1: "\<exists>n > 0. io_send (answers w1 t) = SendOk n" if "tick w1 \<le> t" for t
    using acc [of t] that w1(11,12) by simp
  obtain k w' where K: "k \<le> length (contents (write_buffer w1 p))"
    "rounds l (replicate k [(EPOLLOUT, fd)]) w1 = Some (Inr w')"
    "sent w' = (sent w1)(fd := sent w1 fd @ contents (write_buffer w1 p))"
    "released w' p (the_conn w p) fd" "others_kept w1 w' p (the_conn w p) fd"
    using write_rounds [OF w1(2-4) _ w1(6,10,7) acc1] N(4) unfolding w1(5) by blast
  have "length (contents (write_buffer w1 p)) \<le> length ?t" unfolding w1(9) [symmetric] by simp
  moreover have "sent w' = (sent w)(fd := sent w fd @ ?t)"
    unfolding K(3) w1(8) w1(9) [symmetric] by simp
  ultimately show ?thesis
    using K w1(1) others_kept_trans [OF w1(13) K(5)] by (intro exI [of _ k] exI [of _ w']) simp
qed

text \<open>
  When the peer closes the connection (or reading fails) and the kernel reports input only, the
  connection goes away with everything it holds if both of its buffers are empty. If they are not,
  nothing is released: memory and descriptor stay, the kernel no longer watches the descriptor, and
  so nothing will ever release them.
\<close>

theorem hangup_closes:
  assumes live: "conn_live w p" and wt: "watched w p" and idle: "idle w l"
    and l: "conn_loop (the_conn w p) = l" and fd: "conn_fd w p = fd"
    and io: "io_avail (answers w (tick w)) = None \<or> io_avail (answers w (tick w)) = Some []"
    and log: "logged_ok (read_buffer w p)"
  shows "\<exists>w'. served_round l [(EPOLLIN, fd)] w = Some (Inr w') \<and> sent w' = sent w \<and> idle w' l \<and>
    (if contents (read_buffer w p) = [] \<and> contents (write_buffer w p) = []
     then released w' p (the_conn w p) fd \<and> others_kept w w' p (the_conn w p) fd
     else conn_live w' p \<and> \<not> watched w' p \<and> read_buffer w' p = read_buffer w p \<and>
       write_buffer w' p = write_buffer w p)"
proof -
  obtain w1 where w1: "processRead p w = Some (Inr w1)" "sent w1 = sent w" "idle w1 l"
    "if contents (read_buffer w p) = [] \<and> contents (write_buffer w p) = []
     then released w1 p (the_conn w p) fd \<and> others_kept w w1 p (the_conn w p) fd
     else same_conn w w1 p \<and> channels w1 = channels w \<and> \<not> watched w1 p"
    using processRead_end_step [OF live wt _ io log] idle unfolding l fd by blast
  let ?w = "tidy l (ticked w1)"
  have lp: "loops (ticked w1) l \<noteq> None" using idle_loop [OF w1(3)] by simp
  have r: "served_round l [(EPOLLIN, fd)] w = Some (Inr ?w)"
    using w1(1,3) by (simp add: round_single activate_conn [OF live l fd] processTask_idle)
  have i: "idle ?w l" using w1(3) by (intro idle_tidy) simp
  show ?thesis
  proof (cases "contents (read_buffer w p) = [] \<and> contents (write_buffer w p) = []")
    case True
    with w1(4) have "released w1 p (the_conn w p) fd" "others_kept w w1 p (the_conn w p) fd" by simp_all
    moreover from this have "released ?w p (the_conn w p) fd" using lp l by (subst released_tidy) simp_all
    ultimately show ?thesis using True r i w1(2) by (intro exI [of _ ?w]) simp
  next
    case False
    with w1(4) have s: "same_conn w w1 p" "\<not> watched w1 p" by (simp_all split: if_splits)
    note sl = same_conn_live [OF live s(1)]
    have "conn_live ?w p" using sl(1) by (intro conn_live_tidy) simp
    moreover have "\<not> watched ?w p" using s(2) sl(3) l lp by (subst watched_tidy) simp_all
    ultimately show ?thesis using False r i w1(2) sl by (intro exI [of _ ?w]) auto
  qed
qed

text \<open>
  C26. When the kernel reports the end of the input together with room for output, a connection with
  empty buffers is freed by the first event, and the second event then reads the channel through
  the slot that is NULL by now. With the whole reply still to be sent and accepted by the socket,
  the connection is taken off the kernel's list by the first event, and the second event's attempt
  to modify it there ends the process. Either way one client brings the whole server down.
\<close>

theorem hangup_with_output_crashes:
  assumes live: "conn_live w p" and wt: "watched w p" and idle: "idle w l"
    and l: "conn_loop (the_conn w p) = l" and fd: "conn_fd w p = fd"
    and io: "io_avail (answers w (tick w)) = None \<or> io_avail (answers w (tick w)) = Some []"
    and log: "logged_ok (read_buffer w p)"
    and acc: "io_send (answers w (Suc (tick w))) = SendOk n" "length (contents (write_buffer w p)) \<le> n"
    and both: "contents (write_buffer w p) = [] \<longrightarrow> contents (read_buffer w p) = []"
  shows "served_round l [(EPOLLIN OR EPOLLOUT, fd)] w =
    Some (Inl (if contents (write_buffer w p) = [] then NullDeref else ProcessExit))"
proof -
  obtain w1 where w1: "processRead p w = Some (Inr w1)" "sent w1 = sent w" "idle w1 l"
    "if contents (read_buffer w p) = [] \<and> contents (write_buffer w p) = []
     then released w1 p (the_conn w p) fd \<and> others_kept w w1 p (the_conn w p) fd
     else same_conn w w1 p \<and> channels w1 = channels w \<and> \<not> watched w1 p"
    using processRead_end_step [OF live wt _ io log] idle unfolding l fd by blast
  have i: "idle (ticked w1) l" using w1(3) by simp
  have r: "served_round l [(EPOLLIN OR EPOLLOUT, fd)] w =
      bindO (eventActivate call_callback l fd WriteEvent (ticked w1)) (eventLoopProcessTask call_destroy l)"
    using w1(1) by (simp add: round_both activate_conn [OF live l fd])
  show ?thesis
  proof (cases "contents (write_buffer w p) = []")
    case True
    with w1(4) both have "released (ticked w1) p (the_conn w p) fd" by simp
    with True r activate_released [OF _ i l] show ?thesis by simp
  next
    case False
    with w1(4) have s: "same_conn w w1 p" "\<not> watched w1 p" by (simp_all split: if_splits)
    note sl = same_conn_live [OF live s(1)]
    have a: "answers w1 = answers w" "tick w1 = tick w" using s(1) by (simp_all add: same_conn_def)
    have "processWrite p (ticked w1) = Some (Inl ProcessExit)"
      by (rule processWrite_unwatched [where n = n]) (use sl s(2) i l a acc False in simp_all)
    moreover have "eventActivate call_callback l fd WriteEvent (ticked w1) =
        bindO (processWrite p (ticked w1)) (\<lambda>w. Some (Inr (ticked w)))"
      by (rule activate_conn(2)) (use sl l fd in simp_all)
    ultimately show ?thesis using False r by simp
  qed
qed

section \<open>Examples\<close>

text \<open>A connection on descriptor 7, just registered with the loop at address 0.\<close>

definition wired :: "env \<Rightarrow> (nat \<Rightarrow> io_answer) \<Rightarrow> world" where
  "wired e a = set_queue 0 Map.empty None None None 6
     (registered 0 (0 + 5) (channelInit 7 ReadEvent (Some ProcessRead) (Some ProcessWrite) (Some TcpConnectionDestroy) (ConnArg 0))
       (channelMap fresh_loop)
       ((conn_made 7 0 (blank_world e))\<lparr>loops := [0 \<mapsto> fresh_loop], open_fds := (\<lambda>fd. fd = 7), answers := a\<rparr>))"

lemma wired_new: "conn_new (wired e a) 0 0 7"
proof (rule registered_conn_new [OF wired_def])
  show "map_inv (channelMap fresh_loop)"
    using channelMapInit_inv [of 128 "\<lambda>_. None"] by (simp add: fresh_loop_def)
qed (simp_all add: fresh_loop_def blank_world_def conn_made_def channelMapInit_def)

lemma wired_simps [simp]:
  "os (wired e a) = e" "answers (wired e a) = a" "tick (wired e a) = 0" "sent (wired e a) fd = []"
  by (simp_all add: wired_def registered_def blank_world_def conn_made_def Let_def)

lemma conn_newD:
  assumes "conn_new w p l fd"
  shows "conn_live w p" "watched w p" "idle w l" "conn_loop (the_conn w p) = l" "conn_fd w p = fd"
    "contents (read_buffer w p) = []" "contents (write_buffer w p) = []" "logged_ok (read_buffer w p)"
  using assms
  by (simp_all add: conn_new_def fresh_buffer_def contents_def bufferReadableSize_def logged_ok_def)

theorem server_serves_get_witness:
  "\<exists>k w'. rounds 0 ([(EPOLLIN, 7)] # replicate k [(EPOLLOUT, 7)])
      (wired (small_env [''f'' \<mapsto> ''hi'']) (\<lambda>_. \<lparr>io_avail = Some (print_request ''GET'' ''/%66'' ''HTTP/1.1'' [(''Host'', ''a b'')]),
         io_send = SendOk 3, io_accept = -1\<rparr>)) = Some (Inr w') \<and>
    sent w' 7 = ''HTTP/1.1 200 OK'' @ crlf @ ''Content-type: text/plain; charset=utf-8'' @ crlf @
      ''Content-length: 2'' @ crlf @ crlf @ ''hi'' \<and> \<not> open_fds w' 7"
proof -
  let ?a = "\<lambda>_. \<lparr>io_avail = Some (print_request ''GET'' ''/%66'' ''HTTP/1.1'' [(''Host'', ''a b'')]),
         io_send = SendOk 3, io_accept = -1\<rparr>"
  let ?e = "small_env [''f'' \<mapsto> ''hi'']" and ?s = "print_request ''GET'' ''/%66'' ''HTTP/1.1'' [(''Host'', ''a b'')]"
  let ?hs = "[(''Content-type'', ''text/plain; charset=utf-8''), (''Content-length'', ''2'')]"
  let ?t = "reply_text OK ''OK'' ?hs ''hi''" and ?w = "wired ?e ?a"
  have s: "length ?s < 100" by (simp add: print_request_def header_line_def)
  have rm: "roomy (e_mem ?e) (fresh_buffer 10240) (int (length ?t))"
    using example_reply(2) by (simp add: roomy_def fresh_buffer_facts)
  obtain k w' where "rounds 0 ([(EPOLLIN, 7)] # replicate k [(EPOLLOUT, 7)]) ?w = Some (Inr w')"
    "sent w' = (sent ?w)(7 := sent ?w 7 @ ?t)" "released w' 0 (the_conn ?w 0) 7"
    using server_serves_get [OF wired_new, of ?e ?a "''GET''" "''/%66''" "''HTTP/1.1''" "[(''Host'', ''a b'')]"
        OK "''OK''" ?hs SendFile "''f''" "''hi''"]
      s rm example_get example_reply(2) by auto
  then show ?thesis by (intro exI [of _ k] exI [of _ w']) (simp add: released_def example_reply(1))
qed

theorem hangup_closes_witness:
  "\<exists>w'. served_round 0 [(EPOLLIN, 7)]
      (wired (small_env Map.empty) (\<lambda>_. \<lparr>io_avail = Some [], io_send = SendErr, io_accept = -1\<rparr>)) = Some (Inr w') \<and>
    conns w' 0 = None \<and> \<not> open_fds w' 7"
proof -
  let ?w = "wired (small_env Map.empty) (\<lambda>_. \<lparr>io_avail = Some [], io_send = SendErr, io_accept = -1\<rparr>)"
  note n = conn_newD [OF wired_new]
  from hangup_closes [OF n(1-5) _ n(8), of "small_env Map.empty" "\<lambda>_. \<lparr>io_avail = Some [], io_send = SendErr, io_accept = -1\<rparr>"]
  obtain w' where "served_round 0 [(EPOLLIN, 7)] ?w = Some (Inr w')" "released w' 0 (the_conn ?w 0) 7"
    by (auto simp: n)
  then show ?thesis by (auto simp: released_def)
qed

theorem hangup_with_output_crashes_witness:
  "served_round 0 [(EPOLLIN OR EPOLLOUT, 7)]
      (wired (small_env Map.empty) (\<lambda>_. \<lparr>io_avail = Some [], io_send = SendOk 1, io_accept = -1\<rparr>)) =
   Some (Inl NullDeref)"
proof -
  note n = conn_newD [OF wired_new]
  from hangup_with_output_crashes [OF n(1-5) _ n(8), of "small_env Map.empty"
      "\<lambda>_. \<lparr>io_avail = Some [], io_send = SendOk 1, io_accept = -1\<rparr>" 1]
  show ?thesis by (simp add: n)
qed

end
