(* ===== verification/SimpleHttp.thy ===== *)
theory SimpleHttp
  imports SendBody Epoll
begin

text \<open>
  \<^verbatim>\<open>SimpleHTTP/Server.c\<close> and \<^verbatim>\<open>simple_http.c\<close>: the one-file server, which starts a
  detached thread for every event. A thread is a function on \<open>sh_world\<close>; what its system calls
  answer is a \<open>thread_answer\<close>. Descriptors are watched edge-triggered and do not block.
\<close>

section \<open>The process and its kernel\<close>

record fd_info =
  i_fd :: int
  i_epfd :: int

record sh_world =
  sw_open :: "int \<Rightarrow> bool"
  sw_nonblock :: "int \<Rightarrow> bool"
  sw_epoll :: epoll_data
  sw_infos :: "nat \<Rightarrow> fd_info option"
  sw_next :: nat
  sw_sent :: "int \<Rightarrow> string"

text \<open>The files: attributes, contents of what can be opened, entries of directories.\<close>

record sh_env =
  sh_stat :: "string \<Rightarrow> stat_info option"
  sh_content :: "string \<Rightarrow> string option"
  sh_scandir :: "string \<Rightarrow> string list option"

datatype recv_outcome = RecvBytes string | RecvAgain | RecvFail
datatype sendfile_outcome = SfSent nat | SfAgain | SfFail

text \<open>
  \<open>ta_send k\<close> is how many bytes the \<open>k\<close>-th \<^verbatim>\<open>send\<close> takes; an error takes none. An empty
  \<open>RecvBytes\<close> is the end of the input.
\<close>

record thread_answer =
  ta_accept :: int
  ta_recv :: "nat \<Rightarrow> recv_outcome"
  ta_send :: "nat \<Rightarrow> nat"
  ta_sendfile :: "nat \<Rightarrow> sendfile_outcome"

section \<open>The code: sending\<close>

text \<open>What a thread has sent, and how many times it has called \<^verbatim>\<open>send\<close>.\<close>

record outbox =
  ob_sent :: string
  ob_calls :: nat

definition send_out :: "thread_answer \<Rightarrow> string \<Rightarrow> outbox \<Rightarrow> outbox" where
  "send_out ta s ob =
     ob\<lparr>ob_sent := ob_sent ob @ take (ta_send ta (ob_calls ob)) s, ob_calls := Suc (ob_calls ob)\<rparr>"

definition s_getFileType :: "string \<Rightarrow> string" where
  "s_getFileType name =
     (case strrchr (cstr name) (CHR ''.'') of
        None \<Rightarrow> ''text/plain; charset=utf-8''
      | Some dot \<Rightarrow>
          if dot = ''.html'' \<or> dot = ''.htm'' then ''text/html; charset=utf-8''
          else if dot = ''.jpg'' \<or> dot = ''.jpeg'' then ''image/jpeg''
          else if dot = ''.gif'' then ''image/gif''
          else if dot = ''.png'' then ''image/png''
          else if dot = ''.css'' then ''text/css''
          else if dot = ''.au'' then ''audio/basic''
          else if dot = ''.wav'' then ''audio/wav''
          else if dot = ''.avi'' then ''video/x-msvideo''
          else if dot = ''.mov'' \<or> dot = ''.qt'' then ''video/quicktime''
          else if dot = ''.mpeg'' \<or> dot = ''.mpe'' then ''video/mpeg''
          else if dot = ''.vrml'' \<or> dot = ''.wrl'' then ''model/vrml''
          else if dot = ''.midi'' \<or> dot = ''.mid'' then ''audio/midi''
          else if dot = ''.mp3'' then ''audio/mpeg''
          else if dot = ''.mp4'' then ''video/mpeg4''
          else if dot = ''.ogg'' then ''application/ogg''
          else if dot = ''.pac'' then ''application/x-ns-proxy-autoconfig''
          else ''text/plain; charset=utf-8'')"

definition sendHeadMsg ::
  "thread_answer \<Rightarrow> int \<Rightarrow> string \<Rightarrow> string \<Rightarrow> int \<Rightarrow> outbox \<Rightarrow> outbox res" where
  "sendHeadMsg ta status descr type len ob =
     bindR (strcpy_into 4096
       (''http/1.1 '' @ dec_int status @ '' '' @ descr @ crlf @ ''content-type: '' @ type @ crlf @
        ''content-length: '' @ dec_int len @ crlf @ crlf)) (\<lambda>buf.
     Inr (send_out ta buf ob))"

text \<open>The size of the file as the \<^verbatim>\<open>int\<close> it is stored in.\<close>

definition to_i32 :: "int \<Rightarrow> int" where
  "to_i32 n = sint (word_of_int n :: 32 word)"

text \<open>
  The loop goes round again after every failure, whichever it is; \<open>k\<close> counts the calls of
  \<^verbatim>\<open>sendfile\<close>.
\<close>

partial_function (option) sendfile_loop ::
  "(nat \<Rightarrow> sendfile_outcome) \<Rightarrow> string \<Rightarrow> int \<Rightarrow> nat \<Rightarrow> nat \<Rightarrow> outbox \<Rightarrow> outbox option" where
  "sendfile_loop sf content fsize k offset ob =
     (if int offset < fsize then
        (case sf k of
           SfSent n \<Rightarrow>
             (let m = min n (nat fsize - offset) in
              sendfile_loop sf content fsize (Suc k) (offset + length (take m (drop offset content)))
                (ob\<lparr>ob_sent := ob_sent ob @ take m (drop offset content)\<rparr>))
         | SfAgain \<Rightarrow> sendfile_loop sf content fsize (Suc k) offset ob
         | SfFail \<Rightarrow> sendfile_loop sf content fsize (Suc k) offset ob)
      else Some ob)"

definition s_sendFile :: "sh_env \<Rightarrow> thread_answer \<Rightarrow> string \<Rightarrow> outbox \<Rightarrow> outbox run" where
  "s_sendFile e ta fileName ob =
     (case sh_content e fileName of
        None \<Rightarrow> Some (Inl AssertFail)
      | Some content \<Rightarrow>
          map_option Inr (sendfile_loop (ta_sendfile ta) content (to_i32 (int (length content))) 0 0 ob))"

definition s_dir_row :: "string \<Rightarrow> stat_info \<Rightarrow> string" where
  "s_dir_row name st =
     (if st_isdir st
      then ''<tr><td><a href='' @ [CHR 0x22] @ name @ ''/'' @ [CHR 0x22] @ ''>'' @ name @
             ''</a></td><td>'' @ dec_int (st_size st) @ ''</td></tr>''
      else ''<tr><td><a href='' @ [CHR 0x22] @ name @ [CHR 0x22] @ ''>'' @ name @
             ''</a></td><td>'' @ dec_int (st_size st) @ ''</td></tr>'')"

fun s_sendDir_loop ::
  "sh_env \<Rightarrow> thread_answer \<Rightarrow> string \<Rightarrow> string list \<Rightarrow> string \<Rightarrow> outbox \<Rightarrow> outbox res" where
  "s_sendDir_loop e ta dirName [] cur ob = Inr ob"
| "s_sendDir_loop e ta dirName (name # names) cur ob =
     bindR (strcpy_into 1024 (dirName @ ''/'' @ name)) (\<lambda>subPath.
     case sh_stat e subPath of
       None \<Rightarrow> Inl Uninitialised
     | Some st \<Rightarrow>
         bindR (strcpy_into 4096 (cur @ s_dir_row name st)) (\<lambda>buf.
         s_sendDir_loop e ta dirName names [] (send_out ta buf ob)))"

text \<open>When \<^verbatim>\<open>scandir\<close> fails, the pointer it should have set is freed uninitialised.\<close>

definition s_sendDir :: "sh_env \<Rightarrow> thread_answer \<Rightarrow> string \<Rightarrow> outbox \<Rightarrow> outbox res" where
  "s_sendDir e ta dirName ob =
     bindR (strcpy_into 4096 (''<html><head><title>'' @ dirName @ ''</title></head><body><table>'')) (\<lambda>buf.
     let namelist = sh_scandir e dirName;
         names = (case namelist of None \<Rightarrow> [] | Some ns \<Rightarrow> ns) in
     bindR (s_sendDir_loop e ta dirName names buf ob) (\<lambda>ob.
     let ob = send_out ta ''</table></body></html>'' ob in
     if namelist = None then Inl Uninitialised else Inr ob))"

section \<open>The code: one request\<close>

text \<open>The loop of \<^verbatim>\<open>decodeMsg\<close> is the text of the other server's, character by character.\<close>

definition s_decodeMsg :: "string \<Rightarrow> string res" where
  "s_decodeMsg m = decode_loop m 0 0"

text \<open>\<^verbatim>\<open>sscanf(line, "%[^ ] %[^ ]", method, path)\<close> into 12 and 1024 bytes.\<close>

definition is_space :: "char \<Rightarrow> bool" where
  "is_space c = (let n = of_char c :: nat in n = 32 \<or> 9 \<le> n \<and> n \<le> 13)"

definition scan_line :: "string \<Rightarrow> (string \<times> string) res" where
  "scan_line line =
     (let s = cstr line;
          method = takeWhile (\<lambda>c. c \<noteq> CHR '' '') s;
          path = takeWhile (\<lambda>c. c \<noteq> CHR '' '') (dropWhile is_space (dropWhile (\<lambda>c. c \<noteq> CHR '' '') s)) in
      if method = [] then Inl Uninitialised
      else if 12 \<le> length method then Inl OutOfBounds
      else if path = [] then Inl Uninitialised
      else if 1024 \<le> length path then Inl OutOfBounds
      else Inr (method, path))"

text \<open>A method other than GET is not answered.\<close>

definition parseRequestLine ::
  "sh_env \<Rightarrow> thread_answer \<Rightarrow> string \<Rightarrow> outbox \<Rightarrow> (int \<times> outbox) run" where
  "parseRequestLine e ta line ob =
     (case bindR (scan_line line) (\<lambda>(method, path).
           bindR (s_decodeMsg (path @ [NUL])) (\<lambda>block. Inr (method, block))) of
        Inl f \<Rightarrow> Some (Inl f)
      | Inr (method, block) \<Rightarrow>
          if \<not> strcasecmp_eq method ''get'' then Some (Inr (-1, ob))
          else
            (let file = (if cstr block = ''/'' then ''./'' else cstr (drop 1 block)) in
             case sh_stat e file of
               None \<Rightarrow>
                 (case sendHeadMsg ta 404 ''Not Found'' (s_getFileType ''.html'') (-1) ob of
                    Inl f \<Rightarrow> Some (Inl f)
                  | Inr ob \<Rightarrow> bindO (s_sendFile e ta ''404.html'' ob) (\<lambda>ob. Some (Inr (0, ob))))
             | Some st \<Rightarrow>
                 if st_isdir st then
                   (case bindR (sendHeadMsg ta 200 ''OK'' (s_getFileType ''.html'') (-1) ob) (s_sendDir e ta file) of
                      Inl f \<Rightarrow> Some (Inl f)
                    | Inr ob \<Rightarrow> Some (Inr (0, ob)))
                 else
                   (case sendHeadMsg ta 200 ''OK'' (s_getFileType file) (to_i32 (st_size st)) ob of
                      Inl f \<Rightarrow> Some (Inl f)
                    | Inr ob \<Rightarrow> bindO (s_sendFile e ta file ob) (\<lambda>ob. Some (Inr (0, ob))))))"

text \<open>
  The receiving loop: 1024 bytes at a time, kept while they fit the zeroed 4096 bytes; the index
  counts dropped bytes as well. It ends with the result of the last \<^verbatim>\<open>recv\<close>.
\<close>

datatype recv_end = NoMore | Closed | Failed

partial_function (option) recv_loop ::
  "(nat \<Rightarrow> recv_outcome) \<Rightarrow> nat \<Rightarrow> int \<Rightarrow> string \<Rightarrow> (recv_end \<times> string) run" where
  "recv_loop rd k hasReadidx buf =
     (case rd k of
        RecvAgain \<Rightarrow> Some (Inr (NoMore, buf))
      | RecvFail \<Rightarrow> Some (Inr (Failed, buf))
      | RecvBytes s \<Rightarrow>
          (let tmp = take 1024 s; len = int (length tmp) in
           if len = 0 then Some (Inr (Closed, buf))
           else
             bindO (Some (bindR (add_i32 hasReadidx len) (\<lambda>idx.
               if idx < 4096 then bindR (memcpy_at buf hasReadidx tmp len) (\<lambda>buf. Inr (idx, buf))
               else Inr (idx, buf)))) (\<lambda>(idx, buf).
             recv_loop rd (Suc k) idx buf)))"

definition free_info :: "nat \<Rightarrow> sh_world \<Rightarrow> sh_world" where
  "free_info p w = w\<lparr>sw_infos := (sw_infos w)(p := None)\<rparr>"

definition recvHttpRequest :: "sh_env \<Rightarrow> thread_answer \<Rightarrow> nat \<Rightarrow> sh_world \<Rightarrow> sh_world run" where
  "recvHttpRequest e ta p w =
     (case sw_infos w p of
        None \<Rightarrow> Some (Inl UseAfterFree)
      | Some info \<Rightarrow>
          bindO (recv_loop (ta_recv ta) 0 0 (replicate 4096 NUL)) (\<lambda>(len, buf).
          case len of
            NoMore \<Rightarrow>
              (case memmem (cstr buf) crlf of
                 None \<Rightarrow> Some (Inl NullDeref)
               | Some reqLen \<Rightarrow>
                   bindO (parseRequestLine e ta (buf[reqLen := NUL]) \<lparr>ob_sent = [], ob_calls = 0\<rparr>) (\<lambda>(_, ob).
                   Some (Inr (free_info p (w\<lparr>sw_sent := (sw_sent w)(i_fd info := sw_sent w (i_fd info) @ ob_sent ob)\<rparr>)))))
          | Closed \<Rightarrow>
              (let (_, d) = epoll_ctl (sw_open w) EPOLL_CTL_DEL (i_fd info) 0 (sw_epoll w) in
               Some (Inr (free_info p (w\<lparr>sw_epoll := d\<lparr>ep_set := (ep_set d)(i_fd info := None)\<rparr>,
                                         sw_open := (sw_open w)(i_fd info := False)\<rparr>))))
          | Failed \<Rightarrow> Some (Inr (free_info p w))))"

section \<open>The code: connections\<close>

definition EPOLLET :: "32 word" where "EPOLLET = 0x80000000"

text \<open>On an error the thread returns without freeing its argument.\<close>

definition acceptClient :: "thread_answer \<Rightarrow> nat \<Rightarrow> sh_world \<Rightarrow> sh_world res" where
  "acceptClient ta p w =
     (case sw_infos w p of
        None \<Rightarrow> Inl UseAfterFree
      | Some info \<Rightarrow>
          (let connFd = ta_accept ta in
           if connFd = -1 then Inr w
           else
             (let w = w\<lparr>sw_open := (sw_open w)(connFd := True), sw_nonblock := (sw_nonblock w)(connFd := True)\<rparr>;
                  (ret, d) = epoll_ctl (sw_open w) EPOLL_CTL_ADD connFd (EPOLLIN OR EPOLLET) (sw_epoll w) in
              if ret = -1 then Inr w
              else Inr (free_info p (w\<lparr>sw_epoll := d\<rparr>)))))"

record sock_answer =
  sa_socket :: int
  sa_setsockopt :: int
  sa_bind :: int
  sa_listen :: int

definition initListenFd :: "sock_answer \<Rightarrow> sh_world \<Rightarrow> int \<times> sh_world" where
  "initListenFd a w =
     (let fd = sa_socket a in
      if fd = -1 then (-1, w)
      else
        (let w = w\<lparr>sw_open := (sw_open w)(fd := True)\<rparr> in
         if sa_setsockopt a = -1 then (-1, w)
         else if sa_bind a = -1 then (-1, w)
         else if sa_listen a = -1 then (-1, w)
         else (fd, w)))"

text \<open>One reported event: a thread with a fresh argument. Here it runs at once and to its end.\<close>

definition spawn :: "sh_env \<Rightarrow> int \<Rightarrow> int \<Rightarrow> int \<times> thread_answer \<Rightarrow> sh_world \<Rightarrow> sh_world run" where
  "spawn e efd listenFd ev w =
     (let (fd, ta) = ev; p = sw_next w;
          w = w\<lparr>sw_next := Suc p, sw_infos := (sw_infos w)(p \<mapsto> \<lparr>i_fd = fd, i_epfd = efd\<rparr>)\<rparr> in
      if fd = listenFd then Some (acceptClient ta p w) else recvHttpRequest e ta p w)"

fun spawn_all :: "sh_env \<Rightarrow> int \<Rightarrow> int \<Rightarrow> (int \<times> thread_answer) list \<Rightarrow> sh_world \<Rightarrow> sh_world run" where
  "spawn_all e efd listenFd [] w = Some (Inr w)"
| "spawn_all e efd listenFd (ev # evs) w =
     bindO (spawn e efd listenFd ev w) (spawn_all e efd listenFd evs)"

text \<open>
  \<open>efd\<close> is what \<^verbatim>\<open>epoll_create\<close> answers; each round reports at most 1024 events. The source
  never leaves the loop: the rounds are as many as \<open>reports\<close> has.
\<close>

definition epollRun ::
  "sh_env \<Rightarrow> int \<Rightarrow> (int \<times> thread_answer) list list \<Rightarrow> int \<Rightarrow> sh_world \<Rightarrow> (int \<times> sh_world) run" where
  "epollRun e efd reports listenFd w =
     (if efd = -1 then Some (Inr (-1, w))
      else
        (let (ret, d) = epoll_ctl (sw_open w) EPOLL_CTL_ADD listenFd EPOLLIN
               \<lparr>epfd = efd, ep_set = Map.empty, ep_events = True\<rparr> in
         if ret = -1 then Some (Inr (-1, w))
         else
           bindO (spawn_all e efd listenFd (concat (map (take 1024) reports)) (w\<lparr>sw_epoll := d\<rparr>)) (\<lambda>w.
           Some (Inr (0, w)))))"

text \<open>The program: port and directory are its arguments; the result of listening is not checked.\<close>

definition simple_main ::
  "sh_env \<Rightarrow> sock_answer \<Rightarrow> int \<Rightarrow> (int \<times> thread_answer) list list \<Rightarrow> string list \<Rightarrow> sh_world \<Rightarrow> (int \<times> sh_world) run" where
  "simple_main e a efd reports argv w =
     (if length argv < 3 then Some (Inr (-1, w))
      else
        (let (listenFd, w) = initListenFd a w in
         bindO (epollRun e efd reports listenFd w) (\<lambda>(_, w). Some (Inr (0, w)))))"

section \<open>Receiving\<close>

text \<open>The zeroed block with a text at its start.\<close>

definition fill :: "string \<Rightarrow> string" where
  "fill s = s @ replicate (4096 - length s) NUL"

lemma fill_facts:
  assumes "length s < 4096"
  shows "length (fill s) = 4096" and "NUL \<notin> set s \<Longrightarrow> cstr (fill s) = s"
proof -
  from assms obtain k where "4096 - length s = Suc k" by (cases "4096 - length s") auto
  then show "NUL \<notin> set s \<Longrightarrow> cstr (fill s) = s" by (simp add: fill_def cstr_append_NUL)
qed (use assms in \<open>simp add: fill_def\<close>)

lemma memcpy_fill:
  assumes "length s + length t < 4096"
  shows "memcpy_at (fill s) (int (length s)) t (int (length t)) = Inr (fill (s @ t))"
proof -
  have "overwrite (fill s) (length s) t = fill (s @ t)"
    using assms by (simp add: overwrite_def fill_def)
  then show ?thesis using assms by (simp add: memcpy_at_def fill_facts)
qed

text \<open>The input a client sends in portions before the socket has no more.\<close>

definition feed :: "string list \<Rightarrow> nat \<Rightarrow> recv_outcome" where
  "feed cs k = (if k < length cs then RecvBytes (cs ! k) else RecvAgain)"

lemma recv_loop_feed:
  assumes "\<And>i. i < length cs \<Longrightarrow> rd (k + i) = RecvBytes (cs ! i)" and "rd (k + length cs) = RecvAgain"
    and "\<forall>c \<in> set cs. c \<noteq> [] \<and> length c \<le> 1024" and "length s + length (concat cs) < 4096"
  shows "recv_loop rd k (int (length s)) (fill s) = Some (Inr (NoMore, fill (s @ concat cs)))"
  using assms
proof (induction cs arbitrary: k s)
  case Nil
  then show ?case by (subst recv_loop.simps) simp
next
  case (Cons c cs)
  have c: "c \<noteq> []" "length c \<le> 1024" "rd k = RecvBytes c"
    using Cons.prems(3) Cons.prems(1) [of 0] by simp_all
  have "length s + length c < 4096" using Cons.prems(4) by simp
  then have m: "memcpy_at (fill s) (int (length s)) c (int (length c)) = Inr (fill (s @ c))"
    and a: "add_i32 (int (length s)) (int (length c)) = Inr (int (length (s @ c)))"
    by (simp_all add: memcpy_fill add_i32_def int_max_def)
  have "recv_loop rd (Suc k) (int (length (s @ c))) (fill (s @ c)) = Some (Inr (NoMore, fill ((s @ c) @ concat cs)))"
  proof (rule Cons.IH)
    fix i assume "i < length cs"
    then show "rd (Suc k + i) = RecvBytes (cs ! i)" using Cons.prems(1) [of "Suc i"] by simp
  qed (use Cons.prems in auto)
  then show ?case
    using c m a \<open>length s + length c < 4096\<close> by (subst recv_loop.simps) (simp add: Let_def)
qed

lemma recv_feed:
  assumes "\<forall>c \<in> set cs. c \<noteq> [] \<and> length c \<le> 1024" and "length (concat cs) < 4096"
  shows "recv_loop (feed cs) 0 0 (replicate 4096 NUL) = Some (Inr (NoMore, fill (concat cs)))"
  using recv_loop_feed [of cs "feed cs" 0 "[]"] assms by (simp add: feed_def fill_def)

section \<open>Sending a file\<close>

lemma sendfile_step_again:
  "int offset < fsize \<Longrightarrow> sf k \<in> {SfAgain, SfFail, SfSent 0} \<Longrightarrow>
   sendfile_loop sf content fsize k offset ob = sendfile_loop sf content fsize (Suc k) offset ob"
  by (subst sendfile_loop.simps) auto

lemma sendfile_wait:
  "int offset < fsize \<Longrightarrow> (\<And>i. i < d \<Longrightarrow> sf (k + i) \<in> {SfAgain, SfFail, SfSent 0}) \<Longrightarrow>
   sendfile_loop sf content fsize k offset ob = sendfile_loop sf content fsize (k + d) offset ob"
proof (induction d arbitrary: k)
  case (Suc d)
  have "sf k \<in> {SfAgain, SfFail, SfSent 0}" using Suc.prems(2) [of 0] by simp
  with Suc.prems(1) have "sendfile_loop sf content fsize k offset ob =
      sendfile_loop sf content fsize (Suc k) offset ob" by (rule sendfile_step_again)
  also have "\<dots> = sendfile_loop sf content fsize (Suc k + d) offset ob"
    using Suc.prems(2) [of "Suc _"] by (intro Suc.IH Suc.prems(1)) simp
  finally show ?case by simp
qed simp

text \<open>A socket that takes something again and again.\<close>

definition progresses :: "(nat \<Rightarrow> sendfile_outcome) \<Rightarrow> bool" where
  "progresses sf \<longleftrightarrow> (\<forall>k. \<exists>j \<ge> k. \<exists>n > 0. sf j = SfSent n)"

lemma next_progress:
  assumes "progresses sf"
  obtains d n where "sf (k + d) = SfSent n" "0 < n" "\<And>i. i < d \<Longrightarrow> sf (k + i) \<in> {SfAgain, SfFail, SfSent 0}"
proof -
  let ?P = "\<lambda>d. \<exists>n > 0. sf (k + d) = SfSent n"
  from assms obtain j where j: "k \<le> j" "\<exists>n > 0. sf j = SfSent n" unfolding progresses_def by blast
  then have "?P (j - k)" by simp
  then have L: "?P (LEAST d. ?P d)" by (rule LeastI)
  moreover have "sf (k + i) \<in> {SfAgain, SfFail, SfSent 0}" if "i < (LEAST d. ?P d)" for i
  proof -
    have "\<not> ?P i" using that by (rule not_less_Least)
    then show ?thesis by (cases "sf (k + i)") auto
  qed
  ultimately show ?thesis using that by blast
qed

lemma sendfile_loop_sends:
  assumes "progresses sf" and "offset \<le> length content"
  shows "sendfile_loop sf content (int (length content)) k offset ob =
    Some (ob\<lparr>ob_sent := ob_sent ob @ drop offset content\<rparr>)"
  using assms(2)
proof (induction "length content - offset" arbitrary: k offset ob rule: less_induct)
  case less
  let ?n = "int (length content)"
  show ?case
  proof (cases "offset < length content")
    case False
    with less.prems show ?thesis by (subst sendfile_loop.simps) simp
  next
    case True
    obtain d n where d: "sf (k + d) = SfSent n" "0 < n" "\<And>i. i < d \<Longrightarrow> sf (k + i) \<in> {SfAgain, SfFail, SfSent 0}"
      using next_progress [OF assms(1)] by metis
    let ?m = "min n (length content - offset)" and ?off = "offset + min n (length content - offset)"
    have m: "0 < ?m" "?off \<le> length content" using True d(2) by simp_all
    have "sendfile_loop sf content ?n k offset ob = sendfile_loop sf content ?n (k + d) offset ob"
      using True d(3) by (intro sendfile_wait) simp_all
    also have "\<dots> = sendfile_loop sf content ?n (Suc (k + d)) ?off
        (ob\<lparr>ob_sent := ob_sent ob @ take ?m (drop offset content)\<rparr>)"
      using True d(1) by (subst sendfile_loop.simps) (simp add: Let_def min.absorb2)
    also have "\<dots> = Some (ob\<lparr>ob_sent := (ob_sent ob @ take ?m (drop offset content)) @ drop ?off content\<rparr>)"
      using less.hyps [of ?off] m True by simp
    also have "(ob_sent ob @ take ?m (drop offset content)) @ drop ?off content = ob_sent ob @ drop offset content"
      by (metis append.assoc append_take_drop_id drop_drop add.commute)
    finally show ?thesis .
  qed
qed

lemma to_i32_eq: "to_i32 n = (n + 2147483648) mod 4294967296 - 2147483648"
  by (simp add: to_i32_def sint_sbintrunc' signed_take_bit_eq_take_bit_shift take_bit_eq_mod)

lemma to_i32_small: "0 \<le> n \<Longrightarrow> n \<le> int_max \<Longrightarrow> to_i32 n = n"
  by (simp add: to_i32_eq int_max_def add.commute)

lemma to_i32_large: "int_max < n \<Longrightarrow> n < 2 ^ 32 \<Longrightarrow> to_i32 n < 0"
  using mod_add_self2 [of "n - 2147483648" 4294967296] mod_pos_pos_trivial [of "n - 2147483648" 4294967296]
  by (simp add: to_i32_eq int_max_def add.commute)

text \<open>A call sequence in which nothing is ever taken.\<close>

lemma sendfile_loop_stuck:
  assumes "\<And>k. sf k \<in> {SfAgain, SfFail, SfSent 0}" and "int offset < fsize"
  shows "sendfile_loop sf content fsize k offset ob = None"
proof (cases "sendfile_loop sf content fsize k offset ob")
  case (Some r)
  have "\<not> ((\<forall>k. sf k \<in> {SfAgain, SfFail, SfSent 0}) \<and> int offset < fsize)"
  proof (rule sendfile_loop.raw_induct [where
        P = "\<lambda>sf content fsize k offset ob r. \<not> ((\<forall>k. sf k \<in> {SfAgain, SfFail, SfSent 0}) \<and> int offset < fsize)",
        OF _ Some])
    fix f :: "(nat \<Rightarrow> sendfile_outcome) \<Rightarrow> string \<Rightarrow> int \<Rightarrow> nat \<Rightarrow> nat \<Rightarrow> outbox \<Rightarrow> outbox option"
    fix sf content fsize k offset ob r
    assume IH: "\<And>sf content fsize k offset ob r. f sf content fsize k offset ob = Some r \<Longrightarrow>
          \<not> ((\<forall>k. sf k \<in> {SfAgain, SfFail, SfSent 0}) \<and> int offset < fsize)"
      and eq: "(if int offset < fsize then
        (case sf k of
           SfSent n \<Rightarrow>
             (let m = min n (nat fsize - offset) in
              f sf content fsize (Suc k) (offset + length (take m (drop offset content)))
                (ob\<lparr>ob_sent := ob_sent ob @ take m (drop offset content)\<rparr>))
         | SfAgain \<Rightarrow> f sf content fsize (Suc k) offset ob
         | SfFail \<Rightarrow> f sf content fsize (Suc k) offset ob)
        else Some ob) = Some r"
    show "\<not> ((\<forall>k. sf k \<in> {SfAgain, SfFail, SfSent 0}) \<and> int offset < fsize)"
    proof
      assume a: "(\<forall>k. sf k \<in> {SfAgain, SfFail, SfSent 0}) \<and> int offset < fsize"
      then have "sf k \<in> {SfAgain, SfFail, SfSent 0}" by blast
      with eq a have "f sf content fsize (Suc k) offset ob = Some r" by (cases "sf k") (simp_all add: Let_def)
      with IH a show False by blast
    qed
  qed
  with assms show ?thesis by blast
qed simp

section \<open>A request\<close>

text \<open>A first line the scanner takes apart.\<close>

lemma takeWhile_stop: "(\<forall>x \<in> set xs. P x) \<Longrightarrow> \<not> P y \<Longrightarrow> takeWhile P (xs @ y # ys) = xs"
  by (induction xs) simp_all

lemma dropWhile_stop: "(\<forall>x \<in> set xs. P x) \<Longrightarrow> \<not> P y \<Longrightarrow> dropWhile P (xs @ y # ys) = y # ys"
  by (induction xs) simp_all

definition simple_word :: "string \<Rightarrow> bool" where
  "simple_word s \<longleftrightarrow> s \<noteq> [] \<and> (\<forall>c \<in> set s. \<not> is_space c \<and> c \<noteq> NUL)"

lemma simple_wordD:
  assumes "simple_word s"
  shows "s \<noteq> []" and "CHR '' '' \<notin> set s" and "NUL \<notin> set s" and "CR \<notin> set s" and "\<not> is_space (hd s)"
proof -
  show ne: "s \<noteq> []" using assms by (simp add: simple_word_def)
  have w: "\<forall>c \<in> set s. \<not> is_space c \<and> c \<noteq> NUL" using assms by (simp add: simple_word_def)
  have "is_space (CHR '' '')" "is_space CR" by (simp_all add: is_space_def)
  with w show "CHR '' '' \<notin> set s" "CR \<notin> set s" "NUL \<notin> set s" by blast+
  show "\<not> is_space (hd s)" using w ne by simp
qed

lemma scan_line_words:
  assumes m: "simple_word m" "length m < 12" and u: "simple_word u" "length u < 1024" and v: "NUL \<notin> set v"
  shows "scan_line (m @ '' '' @ u @ '' '' @ v @ NUL # t) = Inr (m, u)"
proof -
  note M = simple_wordD [OF m(1)] and U = simple_wordD [OF u(1)]
  let ?s = "m @ CHR '' '' # u @ CHR '' '' # v"
  have c: "cstr (m @ CHR '' '' # u @ CHR '' '' # v @ NUL # t) = ?s"
    using cstr_append_NUL [of ?s t] M(3) U(3) v by simp
  have ms: "\<forall>x \<in> set m. x \<noteq> CHR '' ''" and us: "\<forall>x \<in> set u. x \<noteq> CHR '' ''" using M(2) U(2) by auto
  have tm: "takeWhile (\<lambda>c. c \<noteq> CHR '' '') ?s = m" by (rule takeWhile_stop [OF ms]) simp
  have dm: "dropWhile (\<lambda>c. c \<noteq> CHR '' '') ?s = CHR '' '' # u @ CHR '' '' # v"
    by (rule dropWhile_stop [OF ms]) simp
  have sp: "is_space (CHR '' '')" by (simp add: is_space_def)
  have ds: "dropWhile is_space (u @ CHR '' '' # v) = u @ CHR '' '' # v"
    using U(1,5) by (cases u) simp_all
  have tu: "takeWhile (\<lambda>c. c \<noteq> CHR '' '') (u @ CHR '' '' # v) = u" by (rule takeWhile_stop [OF us]) simp
  show ?thesis using M(1) U(1) m(2) u(2) by (simp add: scan_line_def Let_def c tm dm ds tu sp)
qed

lemma s_decode_path:
  assumes "NUL \<notin> set u" and d: "cstr (decode u) = CHR ''/'' # f"
  shows "\<exists>block. s_decodeMsg (u @ [NUL]) = Inr block \<and> cstr block = CHR ''/'' # f \<and> cstr (drop 1 block) = f"
proof -
  have cu: "cstr (u @ [NUL]) = u" using assms(1) by (simp add: cstr_append_NUL)
  let ?b = "overwrite (u @ [NUL]) 0 (decode u @ [NUL])"
  have b: "s_decodeMsg (u @ [NUL]) = Inr ?b"
    using decode_loop_computes [of 0 0 "u @ [NUL]"] by (simp add: s_decodeMsg_def cu)
  obtain t where t: "?b = decode u @ NUL # t" by (simp add: overwrite_def)
  then have cb: "cstr ?b = cstr (decode u)" by (simp add: cstr_before_NUL)
  moreover have "cstr (drop 1 ?b) = f"
  proof -
    have "decode u \<noteq> []" using d by (auto simp: cstr_def)
    then obtain x xs where x: "decode u = x # xs" by (cases "decode u") auto
    with d have "x = CHR ''/''" "cstr xs = f" by (auto simp: cstr_def split: if_splits)
    then show ?thesis unfolding t unfolding x by (simp add: cstr_before_NUL)
  qed
  ultimately show ?thesis using b d by auto
qed

text \<open>The head of a reply, and the head and the file for a path.\<close>

definition simple_head :: "int \<Rightarrow> string \<Rightarrow> string \<Rightarrow> int \<Rightarrow> string" where
  "simple_head status descr type len =
     ''http/1.1 '' @ dec_int status @ '' '' @ descr @ crlf @ ''content-type: '' @ type @ crlf @
     ''content-length: '' @ dec_int len @ crlf @ crlf"

definition simple_reply :: "sh_env \<Rightarrow> string \<Rightarrow> (string \<times> string) option" where
  "simple_reply e file =
     (case sh_stat e file of
        None \<Rightarrow> Some (simple_head 404 ''Not Found'' ''text/html; charset=utf-8'' (-1), ''404.html'')
      | Some st \<Rightarrow>
          if st_isdir st then None
          else Some (simple_head 200 ''OK'' (s_getFileType file) (to_i32 (st_size st)), file))"

lemma s_getFileType_length: "length (s_getFileType name) \<le> 40"
  by (simp add: s_getFileType_def split: option.split)

lemma to_i32_digits: "length (dec_int (to_i32 n)) \<le> 11"
proof -
  have "- 2147483648 \<le> to_i32 n" "to_i32 n < 2147483648"
    unfolding to_i32_eq by simp_all
  then show ?thesis using length_dec_int [of "to_i32 n" 10] by simp
qed

lemma sendHeadMsg_sends:
  assumes "length (simple_head status descr type len) < 4096"
    and "length (simple_head status descr type len) \<le> ta_send ta (ob_calls ob)"
  shows "sendHeadMsg ta status descr type len ob =
    Inr (ob\<lparr>ob_sent := ob_sent ob @ simple_head status descr type len, ob_calls := Suc (ob_calls ob)\<rparr>)"
  using assms by (simp add: sendHeadMsg_def simple_head_def strcpy_into_def send_out_def)

lemma simple_head_short:
  "length (simple_head 404 ''Not Found'' ''text/html; charset=utf-8'' (-1)) < 4096"
  "length (simple_head 200 ''OK'' (s_getFileType name) (to_i32 n)) < 4096"
proof -
  have d: "dec_int 404 = ''404''" "dec_int 200 = ''200''" "dec_int (- 1) = ''-1''" by code_simp+
  show "length (simple_head 404 ''Not Found'' ''text/html; charset=utf-8'' (-1)) < 4096"
    "length (simple_head 200 ''OK'' (s_getFileType name) (to_i32 n)) < 4096"
    using s_getFileType_length [of name] to_i32_digits [of n] by (simp_all add: simple_head_def d)
qed

lemma s_sendFile_sends:
  assumes "sh_content e f = Some content" and "int (length content) \<le> int_max" and "progresses (ta_sendfile ta)"
  shows "s_sendFile e ta f ob = Some (Inr (ob\<lparr>ob_sent := ob_sent ob @ content\<rparr>))"
  using assms sendfile_loop_sends [OF assms(3), of 0 content 0 ob]
  by (simp add: s_sendFile_def to_i32_small)

lemma parseRequestLine_replies:
  assumes line: "scan_line line = Inr (m, u)" "NUL \<notin> set u" "strcasecmp_eq m ''get''"
    and d: "cstr (decode u) = CHR ''/'' # f" and fl: "file = (if f = [] then ''./'' else f)"
    and r: "simple_reply e file = Some (pre, name)" "sh_content e name = Some content"
      "int (length content) \<le> int_max"
    and ta: "length pre \<le> ta_send ta (ob_calls ob)" "progresses (ta_sendfile ta)"
  shows "parseRequestLine e ta line ob = Some (Inr (0, ob\<lparr>ob_sent := ob_sent ob @ pre @ content,
    ob_calls := Suc (ob_calls ob)\<rparr>))"
proof -
  obtain block where b: "s_decodeMsg (u @ [NUL]) = Inr block" "cstr block = CHR ''/'' # f" "cstr (drop 1 block) = f"
    using s_decode_path [OF line(2) d] by blast
  have f: "(if cstr block = ''/'' then ''./'' else cstr (drop 1 block)) = file" using b fl by simp
  have html: "s_getFileType ''.html'' = ''text/html; charset=utf-8''" by code_simp
  note sf = s_sendFile_sends [OF r(2,3) ta(2)]
  show ?thesis
  proof (cases "sh_stat e file")
    case None
    with r(1) have h: "pre = simple_head 404 ''Not Found'' ''text/html; charset=utf-8'' (-1)" "name = ''404.html''"
      by (simp_all add: simple_reply_def)
    note s = sendHeadMsg_sends [OF simple_head_short(1) ta(1) [unfolded h(1)]]
    show ?thesis
      using line b(1) None sf by (simp add: parseRequestLine_def Let_def f html s h)
  next
    case (Some st)
    with r(1) have h: "\<not> st_isdir st" "pre = simple_head 200 ''OK'' (s_getFileType file) (to_i32 (st_size st))" "name = file"
      by (auto simp: simple_reply_def split: if_splits)
    note s = sendHeadMsg_sends [OF simple_head_short(2) ta(1) [unfolded h(2)]]
    show ?thesis
      using line b(1) Some sf h(1) by (simp add: parseRequestLine_def Let_def f s h(2,3))
  qed
qed

section \<open>Properties\<close>

text \<open>
  C20. The one-file server answers a GET request. However the client's bytes are cut into portions
  (fewer than 4096 in all, at most 1024 each), and whatever \<^verbatim>\<open>sendfile\<close> answers in between
  as long as it takes something again and again, the thread for the event returns, has sent exactly
  the head and the contents of the file the first line names (or of \<^verbatim>\<open>404.html\<close> where there
  is none), has freed its argument, and left everything else alone; the connection stays open.
\<close>

theorem recvHttpRequest_serves:
  assumes info: "sw_infos w p = Some info"
    and cs: "ta_recv ta = feed cs" "\<forall>c \<in> set cs. c \<noteq> [] \<and> length c \<le> 1024" "length (concat cs) < 4096"
      "concat cs = m @ '' '' @ u @ '' '' @ v @ crlf @ rest"
    and words: "simple_word m" "length m < 12" "simple_word u" "length u < 1024"
      "NUL \<notin> set v" "CR \<notin> set v" "NUL \<notin> set rest"
    and get: "strcasecmp_eq m ''get''"
    and d: "cstr (decode u) = CHR ''/'' # f" and fl: "file = (if f = [] then ''./'' else f)"
    and r: "simple_reply e file = Some (pre, name)" "sh_content e name = Some content"
      "int (length content) \<le> int_max"
    and sends: "length pre \<le> ta_send ta 0" "progresses (ta_sendfile ta)"
  shows "recvHttpRequest e ta p w = Some (Inr (w\<lparr>sw_infos := (sw_infos w)(p := None),
    sw_sent := (sw_sent w)(i_fd info := sw_sent w (i_fd info) @ pre @ content)\<rparr>))"
proof -
  note M = simple_wordD [OF words(1)] and U = simple_wordD [OF words(3)]
  let ?l = "m @ CHR '' '' # u @ CHR '' '' # v"
  have t: "concat cs = ?l @ CR # LF # rest" using cs(4) by (simp add: crlf_def)
  have nn: "NUL \<notin> set (concat cs)" unfolding t using M(3) U(3) words(5,7) by simp
  have cb: "cstr (fill (concat cs)) = ?l @ CR # LF # rest"
    using fill_facts(2) [OF cs(3) nn] by (simp only: t)
  have "CR \<notin> set ?l" using M(4) U(4) words(6) by simp
  then have mm: "memmem (cstr (fill (concat cs))) crlf = Some (length ?l)"
    unfolding cb crlf_def by (rule memmem_append_first) simp
  obtain tl' where "(fill (concat cs))[length ?l := NUL] = ?l @ NUL # tl'"
    unfolding fill_def t by (simp add: list_update_append)
  then have ln: "(fill (concat cs))[length ?l := NUL] = m @ '' '' @ u @ '' '' @ v @ NUL # tl'" by simp
  have sc: "scan_line ((fill (concat cs))[length ?l := NUL]) = Inr (m, u)"
    unfolding ln by (rule scan_line_words [OF words(1-5)])
  have p: "parseRequestLine e ta ((fill (concat cs))[length ?l := NUL]) \<lparr>ob_sent = [], ob_calls = 0\<rparr> =
      Some (Inr (0, \<lparr>ob_sent = pre @ content, ob_calls = 1\<rparr>))"
    using parseRequestLine_replies [OF sc U(3) get d fl r, of ta "\<lparr>ob_sent = [], ob_calls = 0\<rparr>"] sends by simp
  have "recv_loop (ta_recv ta) 0 0 (replicate 4096 NUL) = Some (Inr (NoMore, fill (concat cs)))"
    using recv_feed [OF cs(2,3)] by (simp add: cs(1))
  then show ?thesis
    unfolding recvHttpRequest_def by (simp add: info mm p free_info_def del: length_append)
qed

theorem recvHttpRequest_serves_witness:
  "let ta = \<lparr>ta_accept = -1, ta_recv = feed [''GET /a%20'', ''b HTTP/1.1'' @ crlf @ ''Host: x'' @ crlf @ crlf],
         ta_send = (\<lambda>_. 1000), ta_sendfile = (\<lambda>k. if even k then SfAgain else SfSent 2)\<rparr>;
       e = \<lparr>sh_stat = [''a b'' \<mapsto> \<lparr>st_isdir = False, st_size = 5\<rparr>], sh_content = [''a b'' \<mapsto> ''hello''],
         sh_scandir = Map.empty\<rparr>;
       w = \<lparr>sw_open = (\<lambda>_. True), sw_nonblock = (\<lambda>_. True), sw_epoll = \<lparr>epfd = 3, ep_set = Map.empty, ep_events = True\<rparr>,
         sw_infos = [0 \<mapsto> \<lparr>i_fd = 7, i_epfd = 3\<rparr>], sw_next = 1, sw_sent = (\<lambda>_. [])\<rparr> in
   \<exists>w'. recvHttpRequest e ta 0 w = Some (Inr w') \<and>
     sw_sent w' 7 = simple_head 200 ''OK'' ''text/plain; charset=utf-8'' 5 @ ''hello'' \<and> sw_infos w' 0 = None"
proof -
  let ?cs = "[''GET /a%20'', ''b HTTP/1.1'' @ crlf @ ''Host: x'' @ crlf @ crlf]"
  let ?ta = "\<lparr>ta_accept = -1, ta_recv = feed ?cs,
         ta_send = (\<lambda>_. 1000), ta_sendfile = (\<lambda>k. if even k then SfAgain else SfSent 2)\<rparr>"
  let ?e = "\<lparr>sh_stat = [''a b'' \<mapsto> \<lparr>st_isdir = False, st_size = 5\<rparr>], sh_content = [''a b'' \<mapsto> ''hello''],
         sh_scandir = Map.empty\<rparr>"
  let ?w = "\<lparr>sw_open = (\<lambda>_. True), sw_nonblock = (\<lambda>_. True), sw_epoll = \<lparr>epfd = 3, ep_set = Map.empty, ep_events = True\<rparr>,
         sw_infos = [0 \<mapsto> \<lparr>i_fd = 7, i_epfd = 3\<rparr>], sw_next = 1, sw_sent = (\<lambda>_. [])\<rparr>"
  let ?pre = "simple_head 200 ''OK'' ''text/plain; charset=utf-8'' 5"
  have pg: "progresses (ta_sendfile ?ta)"
    unfolding progresses_def
  proof
    fix k
    have "odd (Suc (2 * k))" "k \<le> Suc (2 * k)" by simp_all
    then show "\<exists>j \<ge> k. \<exists>n > 0. ta_sendfile ?ta j = SfSent n"
      by (intro exI [of _ "Suc (2 * k)"]) simp
  qed
  have ty: "s_getFileType ''a b'' = ''text/plain; charset=utf-8''" by code_simp
  have i5: "to_i32 5 = 5" by (simp add: to_i32_eq)
  have dc: "cstr (decode ''/a%20b'') = CHR ''/'' # ''a b''" by code_simp
  have gt: "strcasecmp_eq ''GET'' ''get''" by code_simp
  have sw: "simple_word ''GET''" "simple_word ''/a%20b''" by (simp_all add: simple_word_def is_space_def)
  have d5: "dec_int 200 = ''200''" "dec_int 5 = ''5''" by code_simp+
  have "recvHttpRequest ?e ?ta 0 ?w = Some (Inr (?w\<lparr>sw_infos := (sw_infos ?w)(0 := None),
    sw_sent := (sw_sent ?w)(i_fd \<lparr>i_fd = 7, i_epfd = 3\<rparr> := sw_sent ?w (i_fd \<lparr>i_fd = 7, i_epfd = 3\<rparr>) @ ?pre @ ''hello'')\<rparr>))"
    by (rule recvHttpRequest_serves [OF _ _ _ _ _ sw(1) _ sw(2) _ _ _ _ gt dc refl _ _ _ _ pg, where cs = ?cs
          and v = "''HTTP/1.1''" and rest = "''Host: x'' @ crlf @ crlf" and name = "''a b''"])
      (simp_all add: simple_reply_def ty i5 crlf_def int_max_def simple_head_def d5)
  then show ?thesis by (simp add: Let_def)
qed

text \<open>
  What the one-file server does with bad input, the whole of which it has read: without a line
  break it computes with a NULL pointer; with a method of twelve bytes or more it writes behind the
  method's array; with a method other than GET it sends nothing at all and leaves the connection as
  it is. If the client hangs up, the descriptor is closed and no longer watched.
\<close>

theorem recvHttpRequest_bad_input:
  assumes info: "sw_infos w p = Some info"
    and cs: "ta_recv ta = feed cs" "\<forall>c \<in> set cs. c \<noteq> [] \<and> length c \<le> 1024" "length (concat cs) < 4096"
      "NUL \<notin> set (concat cs)"
  shows "(memmem (concat cs) crlf = None \<longrightarrow> recvHttpRequest e ta p w = Some (Inl NullDeref)) \<and>
    (\<forall>m rest. concat cs = m @ '' '' @ rest @ crlf \<longrightarrow> CHR '' '' \<notin> set m \<longrightarrow> CR \<notin> set m \<longrightarrow> CR \<notin> set rest \<longrightarrow>
       12 \<le> length m \<longrightarrow> recvHttpRequest e ta p w = Some (Inl OutOfBounds)) \<and>
    (\<forall>m u v. concat cs = m @ '' '' @ u @ '' '' @ v @ crlf \<longrightarrow> simple_word m \<longrightarrow> length m < 12 \<longrightarrow>
       simple_word u \<longrightarrow> length u < 1024 \<longrightarrow> CR \<notin> set v \<longrightarrow> \<not> strcasecmp_eq m ''get'' \<longrightarrow>
       recvHttpRequest e ta p w = Some (Inr (w\<lparr>sw_infos := (sw_infos w)(p := None)\<rparr>))) \<and>
    (\<forall>ta'. ta_recv ta' 0 = RecvBytes [] \<longrightarrow>
       (\<exists>w'. recvHttpRequest e ta' p w = Some (Inr w') \<and> \<not> sw_open w' (i_fd info) \<and>
         ep_set (sw_epoll w') (i_fd info) = None \<and> sw_infos w' p = None))"
proof (intro conjI allI impI)
  have rl: "recv_loop (ta_recv ta) 0 0 (replicate 4096 NUL) = Some (Inr (NoMore, fill (concat cs)))"
    using recv_feed [OF cs(2,3)] by (simp add: cs(1))
  note cb = fill_facts(2) [OF cs(3,4)]
  have run: "recvHttpRequest e ta p w =
      bindO (parseRequestLine e ta (m @ CHR '' '' # t @ NUL # tl') \<lparr>ob_sent = [], ob_calls = 0\<rparr>) (\<lambda>(_, ob).
        Some (Inr (free_info p (w\<lparr>sw_sent := (sw_sent w)(i_fd info := sw_sent w (i_fd info) @ ob_sent ob)\<rparr>))))"
    if c: "concat cs = (m @ CHR '' '' # t) @ CR # [LF]" "CR \<notin> set (m @ CHR '' '' # t)"
      and tl: "tl' = LF # replicate (4096 - length (concat cs)) NUL" for m t tl'
  proof -
    have "memmem (cstr (fill (concat cs))) crlf = Some (length (m @ CHR '' '' # t))"
      unfolding cb unfolding c(1) crlf_def by (rule memmem_append_first [OF c(2)]) simp
    moreover have "(fill (concat cs))[length (m @ CHR '' '' # t) := NUL] = m @ CHR '' '' # t @ NUL # tl'"
      unfolding fill_def tl unfolding c(1) by (simp add: list_update_append)
    ultimately show ?thesis
      unfolding recvHttpRequest_def info rl by (simp del: length_append)
  qed
  show "recvHttpRequest e ta p w = Some (Inl NullDeref)" if "memmem (concat cs) crlf = None"
    unfolding recvHttpRequest_def using that by (simp add: info rl cb)
  show "recvHttpRequest e ta p w = Some (Inl OutOfBounds)"
    if c: "concat cs = m @ '' '' @ rest @ crlf" "CHR '' '' \<notin> set m" "CR \<notin> set m" "CR \<notin> set rest" "12 \<le> length m"
    for m rest
  proof -
    define tl' where "tl' = LF # replicate (4096 - length (concat cs)) NUL"
    have nul: "NUL \<notin> set (m @ CHR '' '' # rest)" using cs(4) c(1) by auto
    have "cstr ((m @ CHR '' '' # rest) @ NUL # tl') = m @ CHR '' '' # rest" by (rule cstr_append_NUL [OF nul])
    moreover have "takeWhile (\<lambda>c. c \<noteq> CHR '' '') (m @ CHR '' '' # rest) = m"
      by (rule takeWhile_stop) (use c(2) in auto)
    ultimately have "scan_line (m @ CHR '' '' # rest @ NUL # tl') = Inl OutOfBounds"
      using c(5) by (auto simp: scan_line_def Let_def)
    moreover have "recvHttpRequest e ta p w =
      bindO (parseRequestLine e ta (m @ CHR '' '' # rest @ NUL # tl') \<lparr>ob_sent = [], ob_calls = 0\<rparr>) (\<lambda>(_, ob).
        Some (Inr (free_info p (w\<lparr>sw_sent := (sw_sent w)(i_fd info := sw_sent w (i_fd info) @ ob_sent ob)\<rparr>))))"
      by (rule run) (use c in \<open>simp_all add: crlf_def tl'_def\<close>)
    ultimately show ?thesis by (simp add: parseRequestLine_def)
  qed
  show "recvHttpRequest e ta p w = Some (Inr (w\<lparr>sw_infos := (sw_infos w)(p := None)\<rparr>))"
    if c: "concat cs = m @ '' '' @ u @ '' '' @ v @ crlf" "simple_word m" "length m < 12"
      "simple_word u" "length u < 1024" "CR \<notin> set v" "\<not> strcasecmp_eq m ''get''" for m u v
  proof -
    define tl' where "tl' = LF # replicate (4096 - length (concat cs)) NUL"
    have nv: "NUL \<notin> set v" using cs(4) c(1) by auto
    have sc: "scan_line (m @ CHR '' '' # (u @ CHR '' '' # v) @ NUL # tl') = Inr (m, u)"
      using scan_line_words [OF c(2-5) nv] by simp
    have "s_decodeMsg (u @ [NUL]) = Inr (overwrite (u @ [NUL]) 0 (decode (cstr (drop 0 (u @ [NUL]))) @ [NUL]))"
      unfolding s_decodeMsg_def by (rule decode_loop_computes) simp_all
    then have "parseRequestLine e ta (m @ CHR '' '' # (u @ CHR '' '' # v) @ NUL # tl') \<lparr>ob_sent = [], ob_calls = 0\<rparr> =
        Some (Inr (-1, \<lparr>ob_sent = [], ob_calls = 0\<rparr>))"
      unfolding parseRequestLine_def sc using c(7) by simp
    moreover have "recvHttpRequest e ta p w =
      bindO (parseRequestLine e ta (m @ CHR '' '' # (u @ CHR '' '' # v) @ NUL # tl') \<lparr>ob_sent = [], ob_calls = 0\<rparr>) (\<lambda>(_, ob).
        Some (Inr (free_info p (w\<lparr>sw_sent := (sw_sent w)(i_fd info := sw_sent w (i_fd info) @ ob_sent ob)\<rparr>))))"
      by (rule run) (use c simple_wordD [OF c(2)] simple_wordD [OF c(4)] in \<open>simp_all add: crlf_def tl'_def\<close>)
    ultimately show ?thesis by (simp add: free_info_def)
  qed
  show "\<exists>w'. recvHttpRequest e ta' p w = Some (Inr w') \<and> \<not> sw_open w' (i_fd info) \<and>
      ep_set (sw_epoll w') (i_fd info) = None \<and> sw_infos w' p = None" if "ta_recv ta' 0 = RecvBytes []" for ta'
    using that by (simp add: recvHttpRequest_def info recv_loop.simps [of _ 0] free_info_def split: prod.split)
qed

theorem recvHttpRequest_bad_input_witness:
  "let ta = \<lparr>ta_accept = -1, ta_recv = feed [''GET /index.html''], ta_send = (\<lambda>_. 0), ta_sendfile = (\<lambda>_. SfFail)\<rparr>;
       w = \<lparr>sw_open = (\<lambda>_. True), sw_nonblock = (\<lambda>_. True), sw_epoll = \<lparr>epfd = 3, ep_set = Map.empty, ep_events = True\<rparr>,
         sw_infos = [0 \<mapsto> \<lparr>i_fd = 7, i_epfd = 3\<rparr>], sw_next = 1, sw_sent = (\<lambda>_. [])\<rparr> in
   recvHttpRequest \<lparr>sh_stat = Map.empty, sh_content = Map.empty, sh_scandir = Map.empty\<rparr> ta 0 w = Some (Inl NullDeref)"
proof -
  have "memmem (concat [''GET /index.html'']) crlf = None" by code_simp
  then show ?thesis
    using recvHttpRequest_bad_input [of "\<lparr>sw_open = (\<lambda>_. True), sw_nonblock = (\<lambda>_. True),
        sw_epoll = \<lparr>epfd = 3, ep_set = Map.empty, ep_events = True\<rparr>, sw_infos = [0 \<mapsto> \<lparr>i_fd = 7, i_epfd = 3\<rparr>],
        sw_next = 1, sw_sent = (\<lambda>_. [])\<rparr>" 0 "\<lparr>i_fd = 7, i_epfd = 3\<rparr>"
      "\<lparr>ta_accept = -1, ta_recv = feed [''GET /index.html''], ta_send = (\<lambda>_. 0), ta_sendfile = (\<lambda>_. SfFail)\<rparr>"
      "[''GET /index.html'']"]
    by (simp add: Let_def)
qed

text \<open>
  Sending a file to a client that no longer takes anything never ends: every failure of
  \<^verbatim>\<open>sendfile\<close>, temporary or not, goes round again. A file of two gigabytes or more (and less
  than four) has a negative size as an \<^verbatim>\<open>int\<close>: nothing of it is sent, and the call succeeds.
\<close>

theorem s_sendFile_fails:
  assumes "sh_content e f = Some content" and "content \<noteq> []"
  shows "(int (length content) \<le> int_max \<longrightarrow> (\<forall>k. ta_sendfile ta k \<in> {SfAgain, SfFail, SfSent 0}) \<longrightarrow>
      s_sendFile e ta f ob = None) \<and>
    (int_max < int (length content) \<longrightarrow> int (length content) < 2 ^ 32 \<longrightarrow> s_sendFile e ta f ob = Some (Inr ob))"
proof (intro conjI impI)
  assume "int (length content) \<le> int_max" "\<forall>k. ta_sendfile ta k \<in> {SfAgain, SfFail, SfSent 0}"
  moreover from this have "sendfile_loop (ta_sendfile ta) content (int (length content)) 0 0 ob = None"
    using assms(2) by (intro sendfile_loop_stuck) (blast, simp)
  ultimately show "s_sendFile e ta f ob = None"
    using assms(1) by (simp add: s_sendFile_def to_i32_small)
next
  assume "int_max < int (length content)" "int (length content) < 2 ^ 32"
  then have "to_i32 (int (length content)) < 0" by (rule to_i32_large)
  then show "s_sendFile e ta f ob = Some (Inr ob)"
    using assms(1) by (simp add: s_sendFile_def sendfile_loop.simps [of _ _ _ 0])
qed

theorem s_sendFile_fails_witness:
  "s_sendFile \<lparr>sh_stat = Map.empty, sh_content = [''f'' \<mapsto> ''x''], sh_scandir = Map.empty\<rparr>
     \<lparr>ta_accept = -1, ta_recv = feed [], ta_send = (\<lambda>_. 0), ta_sendfile = (\<lambda>_. SfFail)\<rparr> ''f'' \<lparr>ob_sent = [], ob_calls = 0\<rparr> = None"
  using s_sendFile_fails [of "\<lparr>sh_stat = Map.empty, sh_content = [''f'' \<mapsto> ''x''], sh_scandir = Map.empty\<rparr>" "''f''" "''x''"
     "\<lparr>ta_accept = -1, ta_recv = feed [], ta_send = (\<lambda>_. 0), ta_sendfile = (\<lambda>_. SfFail)\<rparr>" "\<lparr>ob_sent = [], ob_calls = 0\<rparr>"]
  by (simp add: int_max_def)

text \<open>
  The two servers give the same media type to every file name but one kind: the reactor has lost
  the line for \<^verbatim>\<open>.mp4\<close>, which it serves as text.
\<close>

theorem getFileType_agrees:
  "s_getFileType name = (if strrchr (cstr name) (CHR ''.'') = Some ''.mp4'' then ''video/mpeg4'' else getFileType name) \<and>
   getFileType ''a.mp4'' = ''text/plain; charset=utf-8''"
proof
  show "s_getFileType name = (if strrchr (cstr name) (CHR ''.'') = Some ''.mp4'' then ''video/mpeg4'' else getFileType name)"
  proof (cases "strrchr (cstr name) (CHR ''.'')")
    case (Some d)
    show ?thesis by (cases "d = ''.mp4''") (simp_all add: s_getFileType_def getFileType_def Some)
  qed (simp add: s_getFileType_def getFileType_def)
qed code_simp

end
