(* ===== verification/Fibers.thy ===== *)
theory Fibers
  imports Prelude
begin

text \<open>
  \<^verbatim>\<open>Coroutine/version2/Fiber.cpp\<close>: coroutines over \<^verbatim>\<open>ucontext\<close>. A fiber is an object at
  an address; what a thread executes is the stack it is on, and a saved context is the stack it
  continues on. The thread-local variables of \<^verbatim>\<open>Fiber.cpp\<close> and \<^verbatim>\<open>Scheduler.cpp\<close> are a record
  per thread. A thread is named by its kernel id.
\<close>

section \<open>The code\<close>

type_synonym tid = "32 word"

text \<open>\<^verbatim>\<open>READY\<close>, \<^verbatim>\<open>RUNNING\<close> and \<^verbatim>\<open>TERM\<close> of \<^verbatim>\<open>Fiber::State\<close>.\<close>

datatype fiber_state = FReady | FRunning | FTerm

datatype stack = ThreadStack tid | FiberStack nat

text \<open>
  What \<^verbatim>\<open>ucontext_t\<close> holds: the point in the constructor \<^verbatim>\<open>getcontext\<close> was called at, which has
  returned; the start of \<^verbatim>\<open>MainFunc\<close> on the fiber's own stack; or a stack \<^verbatim>\<open>swapcontext\<close> left.
\<close>

datatype ucontext = Stale | Entry | At stack

text \<open>Of a fiber made by \<^verbatim>\<open>Fiber()\<close> the member \<open>m_runInScheduler\<close> is indeterminate (\<open>None\<close>).\<close>

record fiber =
  m_id :: "64 word"
  fib_cb :: "nat option"
  m_runInScheduler :: "bool option"
  m_stacksize :: "32 word"
  m_state :: fiber_state
  m_ctx :: ucontext
  m_stack :: bool

record thread_local =
  t_fiber :: "nat option"
  t_thread_fiber :: "nat option"
  t_scheduler_fiber :: "nat option"
  on_stack :: stack

record fibers =
  fib :: "nat \<Rightarrow> fiber option"
  loc :: "tid \<Rightarrow> thread_local"
  s_fiber_id :: "64 word"
  s_fiber_count :: "64 word"

definition g_fiber_stack_size :: "64 word" where
  "g_fiber_stack_size = 128 * 1024"

definition upd_fiber :: "nat \<Rightarrow> (fiber \<Rightarrow> fiber) \<Rightarrow> 'a fibers_scheme \<Rightarrow> 'a fibers_scheme" where
  "upd_fiber f g w = w\<lparr>fib := (fib w)(f := map_option g (fib w f))\<rparr>"

definition upd_loc :: "tid \<Rightarrow> (thread_local \<Rightarrow> thread_local) \<Rightarrow> 'a fibers_scheme \<Rightarrow> 'a fibers_scheme" where
  "upd_loc t g w = w\<lparr>loc := (loc w)(t := g (loc w t))\<rparr>"

definition fiber_SetThis :: "tid \<Rightarrow> nat option \<Rightarrow> 'a fibers_scheme \<Rightarrow> 'a fibers_scheme" where
  "fiber_SetThis t f = upd_loc t (\<lambda>l. l\<lparr>t_fiber := f\<rparr>)"

text \<open>The private constructor; \<open>a\<close> is the address of the new object.\<close>

definition fiber_main :: "tid \<Rightarrow> nat \<Rightarrow> 'a fibers_scheme \<Rightarrow> 'a fibers_scheme" where
  "fiber_main t a w =
     (fiber_SetThis t (Some a) w)
       \<lparr>fib := (fib w)(a \<mapsto> \<lparr>m_id = s_fiber_id w, fib_cb = None, m_runInScheduler = None, m_stacksize = 0,
          m_state = FRunning, m_ctx = Stale, m_stack = False\<rparr>),
        s_fiber_count := s_fiber_count w + 1, s_fiber_id := s_fiber_id w + 1\<rparr>"

text \<open>The public constructor; the stack size is stored in 32 bits.\<close>

definition fiber_new :: "nat \<Rightarrow> nat option \<Rightarrow> 64 word \<Rightarrow> bool \<Rightarrow> 'a fibers_scheme \<Rightarrow> 'a fibers_scheme" where
  "fiber_new a cb stacksize run_in_scheduler w =
     w\<lparr>fib := (fib w)(a \<mapsto> \<lparr>m_id = s_fiber_id w, fib_cb = cb, m_runInScheduler = Some run_in_scheduler,
          m_stacksize = ucast (if stacksize \<noteq> 0 then stacksize else g_fiber_stack_size),
          m_state = FReady, m_ctx = Entry, m_stack = True\<rparr>),
       s_fiber_id := s_fiber_id w + 1, s_fiber_count := s_fiber_count w + 1\<rparr>"

text \<open>\<open>GetThis\<close>: the fiber, and the state with the thread's main fiber, at \<open>a\<close>, if there was none.\<close>

definition fiber_GetThis :: "tid \<Rightarrow> nat \<Rightarrow> 'a fibers_scheme \<Rightarrow> (nat \<times> 'a fibers_scheme) res" where
  "fiber_GetThis t a w =
     (case t_fiber (loc w t) of
        Some f \<Rightarrow> if fib w f = None then Inl UseAfterFree else Inr (f, w)
      | None \<Rightarrow> Inr (a, upd_loc t (\<lambda>l. l\<lparr>t_thread_fiber := Some a\<rparr>) (fiber_main t a w)))"

text \<open>\<^verbatim>\<open>swapcontext(&a->m_ctx, &b->m_ctx)\<close> in a thread.\<close>

definition swap_context :: "tid \<Rightarrow> nat \<Rightarrow> nat \<Rightarrow> 'a fibers_scheme \<Rightarrow> 'a fibers_scheme res" where
  "swap_context t a b w =
     (if fib w a = None \<or> fib w b = None then Inl UseAfterFree
      else
        (let w = upd_fiber a (\<lambda>x. x\<lparr>m_ctx := At (on_stack (loc w t))\<rparr>) w in
         case m_ctx (the (fib w b)) of
           Stale \<Rightarrow> Inl UseAfterFree
         | Entry \<Rightarrow> Inr (upd_loc t (\<lambda>l. l\<lparr>on_stack := FiberStack b\<rparr>) w)
         | At s \<Rightarrow> Inr (upd_loc t (\<lambda>l. l\<lparr>on_stack := s\<rparr>) w)))"

text \<open>The fiber whose context the code swaps with.\<close>

definition main_of :: "tid \<Rightarrow> fiber \<Rightarrow> 'a fibers_scheme \<Rightarrow> nat res" where
  "main_of t x w =
     (case m_runInScheduler x of
        None \<Rightarrow> Inl Uninitialised
      | Some r \<Rightarrow>
          (case (if r then t_scheduler_fiber (loc w t) else t_thread_fiber (loc w t)) of
             None \<Rightarrow> Inl NullDeref
           | Some m \<Rightarrow> Inr m))"

definition fiber_resume :: "tid \<Rightarrow> nat \<Rightarrow> 'a fibers_scheme \<Rightarrow> 'a fibers_scheme res" where
  "fiber_resume t f w =
     (case fib w f of
        None \<Rightarrow> Inl UseAfterFree
      | Some x \<Rightarrow>
          if m_state x = FTerm \<or> m_state x = FRunning then Inl AssertFail
          else
            (let w = upd_fiber f (\<lambda>x. x\<lparr>m_state := FRunning\<rparr>) (fiber_SetThis t (Some f) w) in
             bindR (main_of t x w) (\<lambda>m. swap_context t m f w)))"

text \<open>
  \<open>yield\<close> in two steps: what it writes, and the swap. Between them the fiber is marked ready and its
  thread is still on its stack.
\<close>

definition yield_mark :: "tid \<Rightarrow> nat \<Rightarrow> 'a fibers_scheme \<Rightarrow> 'a fibers_scheme res" where
  "yield_mark t f w =
     (case fib w f of
        None \<Rightarrow> Inl UseAfterFree
      | Some x \<Rightarrow>
          if m_state x \<noteq> FRunning \<and> m_state x \<noteq> FTerm then Inl AssertFail
          else Inr (upd_fiber f (\<lambda>x. if m_state x \<noteq> FTerm then x\<lparr>m_state := FReady\<rparr> else x)
                 (fiber_SetThis t (t_thread_fiber (loc w t)) w)))"

definition yield_swap :: "tid \<Rightarrow> nat \<Rightarrow> 'a fibers_scheme \<Rightarrow> 'a fibers_scheme res" where
  "yield_swap t f w =
     (case fib w f of
        None \<Rightarrow> Inl UseAfterFree
      | Some x \<Rightarrow> bindR (main_of t x w) (\<lambda>m. swap_context t f m w))"

definition fiber_yield :: "tid \<Rightarrow> nat \<Rightarrow> 'a fibers_scheme \<Rightarrow> 'a fibers_scheme res" where
  "fiber_yield t f w = bindR (yield_mark t f w) (yield_swap t f)"

text \<open>
  \<open>MainFunc\<close> up to the call of the entry function, which is returned with the fiber, and from its
  return on. Calling an empty function throws.
\<close>

definition main_func_enter :: "tid \<Rightarrow> 'a fibers_scheme \<Rightarrow> (nat \<times> nat) res" where
  "main_func_enter t w =
     (case t_fiber (loc w t) of
        None \<Rightarrow> Inl NullDeref
      | Some f \<Rightarrow>
          (case fib w f of
             None \<Rightarrow> Inl UseAfterFree
           | Some x \<Rightarrow> (case fib_cb x of None \<Rightarrow> Inl NullDeref | Some cb \<Rightarrow> Inr (f, cb))))"

definition main_func_exit :: "tid \<Rightarrow> nat \<Rightarrow> 'a fibers_scheme \<Rightarrow> 'a fibers_scheme res" where
  "main_func_exit t f w =
     (case fib w f of
        None \<Rightarrow> Inl UseAfterFree
      | Some _ \<Rightarrow> fiber_yield t f (upd_fiber f (\<lambda>x. x\<lparr>fib_cb := None, m_state := FTerm\<rparr>) w))"

text \<open>The second \<^verbatim>\<open>assert\<close> assigns: \<^verbatim>\<open>m_state = TERM\<close>, which is not zero.\<close>

definition fiber_reset :: "nat \<Rightarrow> nat option \<Rightarrow> 'a fibers_scheme \<Rightarrow> 'a fibers_scheme res" where
  "fiber_reset f cb w =
     (case fib w f of
        None \<Rightarrow> Inl UseAfterFree
      | Some x \<Rightarrow>
          if \<not> m_stack x then Inl AssertFail
          else Inr (upd_fiber f (\<lambda>x. x\<lparr>m_state := FTerm, fib_cb := cb, m_ctx := Entry, m_state := FReady\<rparr>) w))"

definition TotalFibers :: "'a fibers_scheme \<Rightarrow> 64 word" where
  "TotalFibers w = s_fiber_count w"

definition GetFiberId :: "'a fibers_scheme \<Rightarrow> 64 word" where
  "GetFiberId w = s_fiber_id w"

section \<open>Switching to a fiber and back\<close>

lemma upd_fiber_simps [simp]:
  "fib (upd_fiber f g w) = (fib w)(f := map_option g (fib w f))"
  "loc (upd_fiber f g w) = loc w" "s_fiber_id (upd_fiber f g w) = s_fiber_id w"
  "s_fiber_count (upd_fiber f g w) = s_fiber_count w" "fibers.more (upd_fiber f g w) = fibers.more w"
  by (simp_all add: upd_fiber_def)

lemma upd_loc_simps [simp]:
  "fib (upd_loc t g w) = fib w" "loc (upd_loc t g w) = (loc w)(t := g (loc w t))"
  "s_fiber_id (upd_loc t g w) = s_fiber_id w" "s_fiber_count (upd_loc t g w) = s_fiber_count w"
  "fibers.more (upd_loc t g w) = fibers.more w"
  by (simp_all add: upd_loc_def)

lemma fiber_SetThis_simps [simp]:
  "fib (fiber_SetThis t f w) = fib w" "loc (fiber_SetThis t f w) = (loc w)(t := (loc w t)\<lparr>t_fiber := f\<rparr>)"
  "s_fiber_id (fiber_SetThis t f w) = s_fiber_id w" "s_fiber_count (fiber_SetThis t f w) = s_fiber_count w"
  "fibers.more (fiber_SetThis t f w) = fibers.more w"
  by (simp_all add: fiber_SetThis_def)

text \<open>A fiber that can be switched to continues where it was, on its own stack.\<close>

definition own_context :: "nat \<Rightarrow> fiber \<Rightarrow> bool" where
  "own_context f x \<longleftrightarrow> m_ctx x = Entry \<or> m_ctx x = At (FiberStack f)"

lemma main_of_cong: "m_runInScheduler x = m_runInScheduler y \<Longrightarrow>
    t_scheduler_fiber (loc w t) = t_scheduler_fiber (loc v t) \<Longrightarrow>
    t_thread_fiber (loc w t) = t_thread_fiber (loc v t) \<Longrightarrow> main_of t x w = main_of t y v"
  by (auto simp: main_of_def split: option.split)

lemma fiber_resume_ok:
  assumes "fib w f = Some x" and "m_state x = FReady" and "own_context f x"
    and "main_of t x w = Inr m" and "m \<noteq> f" and "fib w m = Some y"
  shows "fiber_resume t f w = Inr (w\<lparr>
    fib := (fib w)(f \<mapsto> x\<lparr>m_state := FRunning\<rparr>, m \<mapsto> y\<lparr>m_ctx := At (on_stack (loc w t))\<rparr>),
    loc := (loc w)(t := (loc w t)\<lparr>t_fiber := Some f, on_stack := FiberStack f\<rparr>)\<rparr>)"
proof -
  have "main_of t x (upd_fiber f (\<lambda>x. x\<lparr>m_state := FRunning\<rparr>) (fiber_SetThis t (Some f) w)) = Inr m"
    using assms(4) by (simp add: main_of_def split: option.splits if_splits)
  with assms show ?thesis
    by (auto simp: fiber_resume_def swap_context_def own_context_def Let_def upd_fiber_def upd_loc_def
        fiber_SetThis_def fun_upd_twist split: ucontext.splits)
qed

lemma yield_mark_ok:
  assumes "fib w f = Some x" and "m_state x \<noteq> FReady"
  shows "yield_mark t f w = Inr (w\<lparr>
    fib := (fib w)(f \<mapsto> (if m_state x = FTerm then x else x\<lparr>m_state := FReady\<rparr>)),
    loc := (loc w)(t := (loc w t)\<lparr>t_fiber := t_thread_fiber (loc w t)\<rparr>)\<rparr>)"
  using assms by (cases "m_state x") (simp_all add: yield_mark_def upd_fiber_def fiber_SetThis_def upd_loc_def)

lemma yield_swap_ok:
  assumes "fib w f = Some x" and "main_of t x w = Inr m" and "m \<noteq> f"
    and "fib w m = Some y" and "m_ctx y = At s"
  shows "yield_swap t f w = Inr (w\<lparr>fib := (fib w)(f \<mapsto> x\<lparr>m_ctx := At (on_stack (loc w t))\<rparr>),
    loc := (loc w)(t := (loc w t)\<lparr>on_stack := s\<rparr>)\<rparr>)"
  using assms by (simp add: yield_swap_def swap_context_def Let_def upd_fiber_def upd_loc_def)

lemma fiber_yield_ok:
  assumes "fib w f = Some x" and "m_state x \<noteq> FReady" and "main_of t x w = Inr m" and "m \<noteq> f"
    and "fib w m = Some y" and "m_ctx y = At s"
  shows "fiber_yield t f w = Inr (w\<lparr>
    fib := (fib w)(f \<mapsto> (if m_state x = FTerm then x else x\<lparr>m_state := FReady\<rparr>)\<lparr>m_ctx := At (on_stack (loc w t))\<rparr>),
    loc := (loc w)(t := (loc w t)\<lparr>t_fiber := t_thread_fiber (loc w t), on_stack := s\<rparr>)\<rparr>)"
proof -
  define x' where "x' = (if m_state x = FTerm then x else x\<lparr>m_state := FReady\<rparr>)"
  define w' where "w' = w\<lparr>fib := (fib w)(f \<mapsto> x'), loc := (loc w)(t := (loc w t)\<lparr>t_fiber := t_thread_fiber (loc w t)\<rparr>)\<rparr>"
  have mark: "yield_mark t f w = Inr w'" using yield_mark_ok [OF assms(1,2)] by (simp add: w'_def x'_def)
  have "main_of t x' w' = Inr m"
    using assms(3) by (simp add: main_of_def w'_def x'_def split: option.splits if_splits)
  then have "yield_swap t f w' = Inr (w'\<lparr>fib := (fib w')(f \<mapsto> x'\<lparr>m_ctx := At (on_stack (loc w' t))\<rparr>),
      loc := (loc w')(t := (loc w' t)\<lparr>on_stack := s\<rparr>)\<rparr>)"
    by (rule yield_swap_ok [rotated]) (use assms in \<open>auto simp: w'_def\<close>)
  then show ?thesis by (simp add: fiber_yield_def mark) (simp add: w'_def x'_def)
qed

section \<open>Threads and their fibers\<close>

text \<open>
  What threads do with fibers of the scheduler, each step a call that returns: a thread starts and
  makes its main fiber; a fiber is made, or a finished one given a new function; a thread on its own
  stack resumes a fiber; the fiber a thread runs yields or returns from its function.
\<close>

inductive fiber_step :: "fibers \<Rightarrow> fibers \<Rightarrow> bool" where
  start: "t_fiber (loc w t) = None \<Longrightarrow> fib w a = None \<Longrightarrow> fiber_GetThis t a w = Inr (m, w') \<Longrightarrow>
    fiber_step w (upd_loc t (\<lambda>l. l\<lparr>t_scheduler_fiber := Some m\<rparr>) w')"
| new: "fib w a = None \<Longrightarrow> fiber_step w (fiber_new a cb stacksize True w)"
| reuse: "fib w f = Some x \<Longrightarrow> m_state x = FTerm \<Longrightarrow> fiber_reset f cb w = Inr w' \<Longrightarrow> fiber_step w w'"
| resume: "on_stack (loc w t) = ThreadStack t \<Longrightarrow> fib w f = Some x \<Longrightarrow> m_runInScheduler x = Some True \<Longrightarrow>
    fiber_resume t f w = Inr w' \<Longrightarrow> fiber_step w w'"
| yield: "on_stack (loc w t) = FiberStack f \<Longrightarrow> fiber_yield t f w = Inr w' \<Longrightarrow> fiber_step w w'"
| exit: "on_stack (loc w t) = FiberStack f \<Longrightarrow> main_func_exit t f w = Inr w' \<Longrightarrow> fiber_step w w'"

inductive_cases fiber_stepE: "fiber_step w w'"

definition fibers_init :: fibers where
  "fibers_init = \<lparr>fib = Map.empty,
     loc = (\<lambda>t. \<lparr>t_fiber = None, t_thread_fiber = None, t_scheduler_fiber = None, on_stack = ThreadStack t\<rparr>),
     s_fiber_id = 0, s_fiber_count = 0\<rparr>"

text \<open>
  What holds of a thread: before it has a main fiber it is on its own stack; then the main fiber is
  there, and keeps the thread's stack while the thread is on that of a fiber, which is running.
\<close>

definition thread_ok :: "fibers \<Rightarrow> tid \<Rightarrow> bool" where
  "thread_ok w t \<longleftrightarrow>
     t_scheduler_fiber (loc w t) = t_thread_fiber (loc w t) \<and>
     (case t_thread_fiber (loc w t) of
        None \<Rightarrow> on_stack (loc w t) = ThreadStack t
      | Some m \<Rightarrow> t_fiber (loc w t) \<noteq> None \<and>
          (\<exists>x. fib w m = Some x \<and> m_runInScheduler x = None \<and> m_state x = FRunning \<and> \<not> m_stack x \<and>
             (on_stack (loc w t) = ThreadStack t \<or>
              m_ctx x = At (ThreadStack t) \<and>
              (\<exists>f y. on_stack (loc w t) = FiberStack f \<and> fib w f = Some y \<and> m_state y = FRunning \<and>
                 m_runInScheduler y = Some True))))"

text \<open>No two threads share a main fiber or a stack; a fiber of the scheduler continues on its own stack.\<close>

definition fibers_inv :: "fibers \<Rightarrow> bool" where
  "fibers_inv w \<longleftrightarrow> (\<forall>t. thread_ok w t) \<and>
     (\<forall>t u m. t_thread_fiber (loc w t) = Some m \<longrightarrow> t_thread_fiber (loc w u) = Some m \<longrightarrow> t = u) \<and>
     (\<forall>t u f. on_stack (loc w t) = FiberStack f \<longrightarrow> on_stack (loc w u) = FiberStack f \<longrightarrow> t = u) \<and>
     (\<forall>f x. fib w f = Some x \<longrightarrow> m_runInScheduler x = Some True \<longrightarrow> own_context f x)"

lemma fibers_invD:
  assumes "fibers_inv w"
  shows "thread_ok w t"
    and "t_thread_fiber (loc w t) = Some m \<Longrightarrow> t_thread_fiber (loc w u) = Some m \<Longrightarrow> t = u"
    and "on_stack (loc w t) = FiberStack f \<Longrightarrow> on_stack (loc w u) = FiberStack f \<Longrightarrow> t = u"
    and "fib w f = Some x \<Longrightarrow> m_runInScheduler x = Some True \<Longrightarrow> own_context f x"
  using assms unfolding fibers_inv_def by blast+

lemma fibers_init_inv: "fibers_inv fibers_init"
  by (simp add: fibers_inv_def fibers_init_def thread_ok_def)

text \<open>Threads that an operation does not touch.\<close>

lemma thread_ok_cong:
  assumes "thread_ok w t" and "loc w' t = loc w t"
    and "\<And>m x. t_thread_fiber (loc w t) = Some m \<Longrightarrow> fib w m = Some x \<Longrightarrow> fib w' m = Some x"
    and "\<And>f x. on_stack (loc w t) = FiberStack f \<Longrightarrow> fib w f = Some x \<Longrightarrow> fib w' f = Some x"
  shows "thread_ok w' t"
  using assms unfolding thread_ok_def by (auto split: option.splits)

lemma new_inv:
  assumes "fibers_inv w" and "fib w a = None"
  shows "fibers_inv (fiber_new a cb stacksize True w)"
proof -
  have "thread_ok (fiber_new a cb stacksize True w) t" for t
    by (rule thread_ok_cong [OF fibers_invD(1) [OF assms(1)]])
      (use assms(2) in \<open>auto simp: fiber_new_def\<close>)
  then show ?thesis
    using assms unfolding fibers_inv_def by (auto simp: fiber_new_def own_context_def)
qed

lemma start_inv:
  assumes "fibers_inv w" and "t_fiber (loc w t) = None" and "fib w a = None"
    and "fiber_GetThis t a w = Inr (m, w')"
  shows "fibers_inv (upd_loc t (\<lambda>l. l\<lparr>t_scheduler_fiber := Some m\<rparr>) w')"
proof -
  have t: "t_thread_fiber (loc w t) = None" "on_stack (loc w t) = ThreadStack t"
    using fibers_invD(1) [OF assms(1), of t] assms(2) by (auto simp: thread_ok_def split: option.splits)
  have fresh: "t_thread_fiber (loc w u) \<noteq> Some a" for u
    using fibers_invD(1) [OF assms(1), of u] assms(3) by (auto simp: thread_ok_def)
  have m: "m = a" "w' = upd_loc t (\<lambda>l. l\<lparr>t_thread_fiber := Some a\<rparr>) (fiber_main t a w)"
    using assms(2,4) by (auto simp: fiber_GetThis_def)
  let ?w = "upd_loc t (\<lambda>l. l\<lparr>t_scheduler_fiber := Some m\<rparr>) w'"
  have "thread_ok ?w u" for u
  proof (cases "u = t")
    case True
    then show ?thesis using t by (simp add: thread_ok_def m fiber_main_def)
  next
    case False
    show ?thesis
      by (rule thread_ok_cong [OF fibers_invD(1) [OF assms(1)]])
        (use False assms(3) in \<open>auto simp: m fiber_main_def\<close>)
  qed
  then show ?thesis
    using assms(1,3) t fresh unfolding fibers_inv_def
    by (auto simp: m fiber_main_def)
qed

text \<open>Changing a fiber no thread is on, and which is no thread's main fiber.\<close>

lemma unused_inv:
  assumes "fibers_inv w" and "fib w f = Some x" and "m_state x \<noteq> FRunning" and "own_context f x'"
  shows "fibers_inv (w\<lparr>fib := (fib w)(f \<mapsto> x')\<rparr>)"
proof -
  have main: "t_thread_fiber (loc w t) \<noteq> Some f" and stack: "on_stack (loc w t) \<noteq> FiberStack f" for t
    using fibers_invD(1) [OF assms(1), of t] assms(2,3) by (auto simp: thread_ok_def split: option.splits)
  have "thread_ok (w\<lparr>fib := (fib w)(f \<mapsto> x')\<rparr>) t" for t
    by (rule thread_ok_cong [OF fibers_invD(1) [OF assms(1)]]) (use main stack in auto)
  then show ?thesis using assms(1,4) unfolding fibers_inv_def by auto
qed

lemma reuse_inv:
  assumes "fibers_inv w" and "fib w f = Some x" and "m_state x = FTerm" and "fiber_reset f cb w = Inr w'"
  shows "fibers_inv w'"
proof -
  have "w' = w\<lparr>fib := (fib w)(f \<mapsto> x\<lparr>m_state := FTerm, fib_cb := cb, m_ctx := Entry, m_state := FReady\<rparr>)\<rparr>"
    using assms(2,4) by (auto simp: fiber_reset_def upd_fiber_def split: if_splits)
  with assms show ?thesis
    using unused_inv [OF assms(1,2), of "x\<lparr>m_state := FTerm, fib_cb := cb, m_ctx := Entry, m_state := FReady\<rparr>"]
    by (simp add: own_context_def)
qed

text \<open>A resume that returns: what it found and did.\<close>

lemma resume_cases:
  assumes "fibers_inv w" and "fib w f = Some x" and "m_runInScheduler x = Some True"
    and "fiber_resume t f w = Inr w'"
  obtains m y where "m_state x = FReady" and "t_thread_fiber (loc w t) = Some m" and "m \<noteq> f"
    and "fib w m = Some y" and "m_runInScheduler y = None" and "main_of t x w = Inr m"
    and "w' = w\<lparr>fib := (fib w)(f \<mapsto> x\<lparr>m_state := FRunning\<rparr>, m \<mapsto> y\<lparr>m_ctx := At (on_stack (loc w t))\<rparr>),
      loc := (loc w)(t := (loc w t)\<lparr>t_fiber := Some f, on_stack := FiberStack f\<rparr>)\<rparr>"
proof -
  have r: "m_state x = FReady"
    using assms(2,4) by (cases "m_state x") (auto simp: fiber_resume_def)
  obtain m where m: "t_scheduler_fiber (loc w t) = Some m"
    using assms(2-4) r
    by (cases "t_scheduler_fiber (loc w t)") (auto simp: fiber_resume_def main_of_def Let_def)
  have ok: "thread_ok w t" by (rule fibers_invD) fact
  have tm: "t_thread_fiber (loc w t) = Some m" using ok m by (simp add: thread_ok_def)
  with ok obtain y where y: "t_thread_fiber (loc w t) = Some m" "fib w m = Some y" "m_runInScheduler y = None"
    by (auto simp: thread_ok_def)
  have mo: "main_of t x w = Inr m" using m assms(3) by (simp add: main_of_def)
  have mf: "m \<noteq> f" using y assms(2,3) by auto
  have own: "own_context f x" by (rule fibers_invD(4)) (use assms r in auto)
  from fiber_resume_ok [OF assms(2) r own mo mf y(2)] assms(4)
  show thesis by (intro that [OF r y(1) mf y(2,3) mo]) simp
qed

lemma resume_inv:
  assumes "fibers_inv w" and "on_stack (loc w t) = ThreadStack t" and "fib w f = Some x"
    and "m_runInScheduler x = Some True" and "fiber_resume t f w = Inr w'"
  shows "fibers_inv w'"
proof -
  from resume_cases [OF assms(1,3-5)] obtain m y where r: "m_state x = FReady"
    and m: "t_thread_fiber (loc w t) = Some m" "m \<noteq> f" "fib w m = Some y" "m_runInScheduler y = None"
    and w': "w' = w\<lparr>fib := (fib w)(f \<mapsto> x\<lparr>m_state := FRunning\<rparr>, m \<mapsto> y\<lparr>m_ctx := At (on_stack (loc w t))\<rparr>),
      loc := (loc w)(t := (loc w t)\<lparr>t_fiber := Some f, on_stack := FiberStack f\<rparr>)\<rparr>" by metis
  have free: "on_stack (loc w u) \<noteq> FiberStack f" "t_thread_fiber (loc w u) \<noteq> Some f" for u
    using fibers_invD(1) [OF assms(1), of u] assms(3) r by (auto simp: thread_ok_def split: option.splits)
  have notm: "on_stack (loc w u) \<noteq> FiberStack m" for u
    using fibers_invD(1) [OF assms(1), of u] m(3,4) by (auto simp: thread_ok_def split: option.splits)
  have "thread_ok w' u" for u
  proof (cases "u = t")
    case True
    then show ?thesis using fibers_invD(1) [OF assms(1), of t] m assms(2-4) by (auto simp: thread_ok_def w')
  next
    case False
    then have "t_thread_fiber (loc w u) \<noteq> Some m" using fibers_invD(2) [OF assms(1)] m(1) by blast
    then show ?thesis
      by (intro thread_ok_cong [OF fibers_invD(1) [OF assms(1)]]) (use False free notm in \<open>auto simp: w'\<close>)
  qed
  then show ?thesis
    using assms(1,3) free m(2-4) unfolding fibers_inv_def by (auto simp: w' own_context_def)
qed

text \<open>What a fiber finds that runs, and giving up the thread.\<close>

lemma running_fiber:
  assumes "fibers_inv w" and "on_stack (loc w t) = FiberStack f"
  obtains m x y where "t_thread_fiber (loc w t) = Some m" and "fib w m = Some y"
    and "m_runInScheduler y = None" and "m_ctx y = At (ThreadStack t)" and "m \<noteq> f"
    and "fib w f = Some x" and "m_state x = FRunning" and "m_runInScheduler x = Some True" and "main_of t x w = Inr m"
proof -
  have "thread_ok w t" by (rule fibers_invD) fact
  with assms(2) show thesis
    by (auto simp: thread_ok_def main_of_def split: option.splits intro!: that)
qed

lemma leave_inv:
  assumes "fibers_inv w" and "on_stack (loc w t) = FiberStack f" and "own_context f x'"
  shows "fibers_inv (w\<lparr>fib := (fib w)(f \<mapsto> x'),
    loc := (loc w)(t := (loc w t)\<lparr>t_fiber := t_thread_fiber (loc w t), on_stack := ThreadStack t\<rparr>)\<rparr>)"
    (is "fibers_inv ?w")
proof -
  from running_fiber [OF assms(1,2)] obtain m x y where
    m: "t_thread_fiber (loc w t) = Some m" "fib w m = Some y" "m_runInScheduler y = None" "m \<noteq> f"
    and f: "fib w f = Some x" "m_runInScheduler x = Some True" by metis
  have main: "t_thread_fiber (loc w u) \<noteq> Some f" for u
    using fibers_invD(1) [OF assms(1), of u] f by (auto simp: thread_ok_def)
  have "thread_ok ?w u" for u
  proof (cases "u = t")
    case True
    then show ?thesis using fibers_invD(1) [OF assms(1), of t] m f by (auto simp: thread_ok_def)
  next
    case False
    then have "on_stack (loc w u) \<noteq> FiberStack f" using fibers_invD(3) [OF assms(1)] assms(2) by blast
    then show ?thesis
      by (intro thread_ok_cong [OF fibers_invD(1) [OF assms(1)]]) (use False main in auto)
  qed
  then show ?thesis using assms(1,3) unfolding fibers_inv_def by auto
qed

lemma yield_inv:
  assumes "fibers_inv w" and "on_stack (loc w t) = FiberStack f" and "fiber_yield t f w = Inr w'"
  shows "fibers_inv w'"
proof -
  from running_fiber [OF assms(1,2)] obtain m x y where
    f: "fib w f = Some x" "m_state x = FRunning" "main_of t x w = Inr m" "m \<noteq> f" "fib w m = Some y" "m_ctx y = At (ThreadStack t)"
    by metis
  then have "fiber_yield t f w = Inr (w\<lparr>fib := (fib w)(f \<mapsto> x\<lparr>m_state := FReady, m_ctx := At (FiberStack f)\<rparr>),
      loc := (loc w)(t := (loc w t)\<lparr>t_fiber := t_thread_fiber (loc w t), on_stack := ThreadStack t\<rparr>)\<rparr>)"
    using fiber_yield_ok [OF f(1) _ f(3-6)] assms(2) by simp
  with leave_inv [OF assms(1,2), of "x\<lparr>m_state := FReady, m_ctx := At (FiberStack f)\<rparr>"] assms(3)
  show ?thesis by (simp add: own_context_def)
qed

lemma main_func_exit_ok:
  assumes "fibers_inv w" and "on_stack (loc w t) = FiberStack f" and "fib w f = Some x"
  shows "main_func_exit t f w = Inr (w\<lparr>
    fib := (fib w)(f \<mapsto> x\<lparr>fib_cb := None, m_state := FTerm, m_ctx := At (FiberStack f)\<rparr>),
    loc := (loc w)(t := (loc w t)\<lparr>t_fiber := t_thread_fiber (loc w t), on_stack := ThreadStack t\<rparr>)\<rparr>)"
proof -
  from running_fiber [OF assms(1,2)] obtain m x' y where f': "fib w f = Some x'" "main_of t x' w = Inr m"
      and f: "m \<noteq> f" "fib w m = Some y" "m_ctx y = At (ThreadStack t)" by metis
  have mo: "main_of t x w = Inr m" using f' assms(3) by simp
  let ?x = "x\<lparr>fib_cb := None, m_state := FTerm\<rparr>"
  let ?w = "upd_fiber f (\<lambda>x. x\<lparr>fib_cb := None, m_state := FTerm\<rparr>) w"
  have "fib ?w f = Some ?x" "m_state ?x \<noteq> FReady" "fib ?w m = Some y" using f assms(3) by auto
  moreover have "main_of t ?x ?w = Inr m"
    using mo by (simp add: main_of_def split: option.splits if_splits)
  ultimately have "fiber_yield t f ?w = Inr (?w\<lparr>fib := (fib ?w)(f \<mapsto> ?x\<lparr>m_ctx := At (on_stack (loc ?w t))\<rparr>),
      loc := (loc ?w)(t := (loc ?w t)\<lparr>t_fiber := t_thread_fiber (loc ?w t), on_stack := ThreadStack t\<rparr>)\<rparr>)"
    using fiber_yield_ok [of ?w f ?x t m y "ThreadStack t"] f by simp
  with assms(2,3) show ?thesis by (simp add: main_func_exit_def upd_fiber_def)
qed

lemma exit_inv:
  assumes "fibers_inv w" and "on_stack (loc w t) = FiberStack f" and "main_func_exit t f w = Inr w'"
  shows "fibers_inv w'"
proof -
  from running_fiber [OF assms(1,2)] obtain x where x: "fib w f = Some x" by metis
  from leave_inv [OF assms(1,2), of "x\<lparr>fib_cb := None, m_state := FTerm, m_ctx := At (FiberStack f)\<rparr>"]
    main_func_exit_ok [OF assms(1,2) x] assms(3)
  show ?thesis by (simp add: own_context_def)
qed

lemma fiber_step_inv: "fiber_step w w' \<Longrightarrow> fibers_inv w \<Longrightarrow> fibers_inv w'"
  by (induction rule: fiber_step.induct)
    (blast intro: start_inv new_inv reuse_inv resume_inv yield_inv exit_inv)+

lemma fiber_steps_inv: "fiber_step\<^sup>*\<^sup>* fibers_init w \<Longrightarrow> fibers_inv w"
  by (induction rule: rtranclp_induct) (auto intro: fibers_init_inv fiber_step_inv)

section \<open>Properties\<close>

text \<open>A scheduler thread 5 with main fiber 3, and a fiber 2 it is to run.\<close>

definition example_fibers :: fibers where
  "example_fibers = fiber_new 2 (Some 70) 0 True
     (upd_loc 5 (\<lambda>l. l\<lparr>t_thread_fiber := Some 3, t_scheduler_fiber := Some 3\<rparr>) (fiber_main 5 3 fibers_init))"

lemma example_fibers_simps:
  "fib example_fibers = [3 \<mapsto> \<lparr>m_id = 0, fib_cb = None, m_runInScheduler = None, m_stacksize = 0,
       m_state = FRunning, m_ctx = Stale, m_stack = False\<rparr>,
     2 \<mapsto> \<lparr>m_id = 1, fib_cb = Some 70, m_runInScheduler = Some True, m_stacksize = 0x20000,
       m_state = FReady, m_ctx = Entry, m_stack = True\<rparr>]"
  "loc example_fibers = (loc fibers_init)
     (5 := \<lparr>t_fiber = Some 3, t_thread_fiber = Some 3, t_scheduler_fiber = Some 3, on_stack = ThreadStack 5\<rparr>)"
  by (simp_all add: example_fibers_def fiber_new_def fiber_main_def fibers_init_def g_fiber_stack_size_def)

lemma example_fibers_reached: "fiber_step\<^sup>*\<^sup>* fibers_init example_fibers"
proof -
  let ?w = "upd_loc 5 (\<lambda>l. l\<lparr>t_thread_fiber := Some 3\<rparr>) (fiber_main 5 3 fibers_init)"
  have "fiber_step fibers_init (upd_loc 5 (\<lambda>l. l\<lparr>t_scheduler_fiber := Some 3\<rparr>) ?w)"
    by (rule fiber_step.start [where a = 3]) (simp_all add: fibers_init_def fiber_GetThis_def)
  moreover have "fiber_step (upd_loc 5 (\<lambda>l. l\<lparr>t_scheduler_fiber := Some 3\<rparr>) ?w)
      (fiber_new 2 (Some 70) 0 True (upd_loc 5 (\<lambda>l. l\<lparr>t_scheduler_fiber := Some 3\<rparr>) ?w))"
    by (rule fiber_step.new) (simp add: fibers_init_def fiber_main_def)
  moreover have "fiber_new 2 (Some 70) 0 True (upd_loc 5 (\<lambda>l. l\<lparr>t_scheduler_fiber := Some 3\<rparr>) ?w) = example_fibers"
    by (simp add: example_fibers_def upd_loc_def)
  ultimately show ?thesis by (metis rtranclp.simps)
qed

text \<open>
  C10. Threads that resume fibers from their own stacks, and fibers that yield and end, never
  have two threads on one stack: whatever is run on a fiber's stack is run by one thread, which finds
  its way back to its own; and a fiber that is not marked running is on no thread.
\<close>

theorem fiber_on_one_thread:
  assumes "fiber_step\<^sup>*\<^sup>* fibers_init w" and "on_stack (loc w t) = FiberStack f"
  shows "(\<forall>u. on_stack (loc w u) = FiberStack f \<longrightarrow> u = t) \<and>
    (\<exists>x. fib w f = Some x \<and> m_state x = FRunning \<and>
      main_func_exit t f w = Inr (w\<lparr>fib := (fib w)(f \<mapsto> x\<lparr>fib_cb := None, m_state := FTerm, m_ctx := At (FiberStack f)\<rparr>),
        loc := (loc w)(t := (loc w t)\<lparr>t_fiber := t_thread_fiber (loc w t), on_stack := ThreadStack t\<rparr>)\<rparr>))"
proof -
  have inv: "fibers_inv w" using assms(1) by (rule fiber_steps_inv)
  from running_fiber [OF inv assms(2)] obtain x where x: "fib w f = Some x" "m_state x = FRunning" by metis
  show ?thesis
    using fibers_invD(3) [OF inv] assms(2) x main_func_exit_ok [OF inv assms(2) x(1)] by blast
qed

lemma example_resumed:
  "fiber_resume 5 2 example_fibers = Inr (example_fibers\<lparr>
     fib := (fib example_fibers)(2 \<mapsto> (the (fib example_fibers 2))\<lparr>m_state := FRunning\<rparr>,
       3 \<mapsto> (the (fib example_fibers 3))\<lparr>m_ctx := At (ThreadStack 5)\<rparr>),
     loc := (loc example_fibers)(5 := (loc example_fibers 5)\<lparr>t_fiber := Some 2, on_stack := FiberStack 2\<rparr>)\<rparr>)"
  using fiber_resume_ok [of example_fibers 2 "the (fib example_fibers 2)" 5 3 "the (fib example_fibers 3)"]
  by (simp add: example_fibers_simps own_context_def main_of_def)

theorem fiber_on_one_thread_witness:
  "case fiber_resume 5 2 example_fibers of Inl e \<Rightarrow> False
   | Inr w \<Rightarrow> on_stack (loc w 5) = FiberStack 2 \<and> on_stack (loc w 6) = ThreadStack 6 \<and>
       isl (main_func_exit 5 2 w) = False"
proof -
  obtain w where w: "fiber_resume 5 2 example_fibers = Inr w" using example_resumed by blast
  have fs: "fiber_step example_fibers w"
    by (rule fiber_step.resume [where t = 5 and f = 2 and x = "the (fib example_fibers 2)"])
      (use w in \<open>simp_all add: example_fibers_simps\<close>)
  have st: "on_stack (loc w 5) = FiberStack 2" "on_stack (loc w 6) = ThreadStack 6"
    using w unfolding example_resumed by (auto simp: example_fibers_simps fibers_init_def)
  from fiber_on_one_thread [OF rtranclp.rtrancl_into_rtrancl [OF example_fibers_reached fs] st(1)] show ?thesis
    by (auto simp: w st)
qed

text \<open>
  The two steps of \<open>yield\<close> are not one: a fiber is marked ready before its thread has left
  its stack, and a second scheduler thread that resumes it then runs on the same stack, from the
  context saved before.
\<close>

theorem yield_window_shares_stack:
  assumes "fiber_step\<^sup>*\<^sup>* fibers_init w" and "on_stack (loc w t) = FiberStack f"
    and "on_stack (loc w u) = ThreadStack u" and "t_thread_fiber (loc w u) = Some m"
  shows "\<exists>w1 w2. yield_mark t f w = Inr w1 \<and> fiber_resume u f w1 = Inr w2 \<and>
    on_stack (loc w2 t) = FiberStack f \<and> on_stack (loc w2 u) = FiberStack f"
proof -
  have inv: "fibers_inv w" using assms(1) by (rule fiber_steps_inv)
  from running_fiber [OF inv assms(2)] obtain x where
    x: "fib w f = Some x" "m_state x = FRunning" "m_runInScheduler x = Some True" by metis
  have own: "own_context f x" using fibers_invD(4) [OF inv x(1,3)] .
  have u: "u \<noteq> t" using assms(2,3) by auto
  have "thread_ok w u" by (rule fibers_invD) fact
  with assms(4) obtain y where y: "fib w m = Some y" "m_runInScheduler y = None"
    and sched: "t_scheduler_fiber (loc w u) = Some m" by (auto simp: thread_ok_def)
  have mf: "m \<noteq> f" using x y by auto
  define w1 where "w1 = w\<lparr>fib := (fib w)(f \<mapsto> x\<lparr>m_state := FReady\<rparr>),
    loc := (loc w)(t := (loc w t)\<lparr>t_fiber := t_thread_fiber (loc w t)\<rparr>)\<rparr>"
  have "yield_mark t f w = Inr w1" using yield_mark_ok [OF x(1)] x(2) by (simp add: w1_def)
  moreover have "fiber_resume u f w1 = Inr (w1\<lparr>
      fib := (fib w1)(f \<mapsto> x\<lparr>m_state := FReady, m_state := FRunning\<rparr>, m \<mapsto> y\<lparr>m_ctx := At (on_stack (loc w1 u))\<rparr>),
      loc := (loc w1)(u := (loc w1 u)\<lparr>t_fiber := Some f, on_stack := FiberStack f\<rparr>)\<rparr>)"
    by (rule fiber_resume_ok)
      (use own mf y sched u x in \<open>auto simp: w1_def own_context_def main_of_def\<close>)
  ultimately show ?thesis using assms(2) u by (auto simp: w1_def)
qed

text \<open>A second thread 6 with main fiber 4 beside the first, which runs the fiber 2.\<close>

lemma yield_window_example:
  "\<exists>w. fiber_step\<^sup>*\<^sup>* fibers_init w \<and> on_stack (loc w 5) = FiberStack 2 \<and> on_stack (loc w 6) = ThreadStack 6 \<and>
     t_thread_fiber (loc w 6) = Some 4"
proof -
  obtain w where w: "fiber_resume 5 2 example_fibers = Inr w" using example_resumed by blast
  have "fiber_step example_fibers w"
    by (rule fiber_step.resume [where t = 5 and f = 2 and x = "the (fib example_fibers 2)"])
      (use w in \<open>simp_all add: example_fibers_simps\<close>)
  then have reached: "fiber_step\<^sup>*\<^sup>* fibers_init w"
    using example_fibers_reached by (rule rtranclp.rtrancl_into_rtrancl [rotated])
  have st: "on_stack (loc w 5) = FiberStack 2" "loc w 6 = loc fibers_init 6" "fib w 4 = None"
    using w unfolding example_resumed by (auto simp: example_fibers_simps)
  then have g: "fiber_GetThis 6 4 w = Inr (4, upd_loc 6 (\<lambda>l. l\<lparr>t_thread_fiber := Some 4\<rparr>) (fiber_main 6 4 w))"
    by (simp add: fiber_GetThis_def fibers_init_def)
  have "fiber_step w (upd_loc 6 (\<lambda>l. l\<lparr>t_scheduler_fiber := Some 4\<rparr>)
      (upd_loc 6 (\<lambda>l. l\<lparr>t_thread_fiber := Some 4\<rparr>) (fiber_main 6 4 w)))"
    by (rule fiber_step.start [OF _ st(3) g]) (simp add: st fibers_init_def)
  from rtranclp.rtrancl_into_rtrancl [OF reached this] show ?thesis
    by (intro exI conjI) (assumption, simp_all add: st fiber_main_def fibers_init_def)
qed

theorem yield_window_shares_stack_witness:
  "\<exists>w1 w2 :: fibers. fiber_resume 6 2 w1 = Inr w2 \<and> on_stack (loc w2 5) = FiberStack 2 \<and> on_stack (loc w2 6) = FiberStack 2"
proof -
  from yield_window_example obtain w where
    "fiber_step\<^sup>*\<^sup>* fibers_init w" "on_stack (loc w 5) = FiberStack 2" "on_stack (loc w 6) = ThreadStack 6"
    "t_thread_fiber (loc w 6) = Some 4" by blast
  from yield_window_shares_stack [OF this] show ?thesis by blast
qed

text \<open>
  \<open>yield\<close> sets \<open>t_fiber\<close> to the thread's main fiber also where it returns to the scheduler's root
  fiber, which then is not what \<open>GetThis\<close> gives.
\<close>

lemma GetThis_after_nested_yield:
  assumes "fib w f = Some x" and "m_state x = FRunning" and "m_runInScheduler x = Some True"
    and "t_scheduler_fiber (loc w t) = Some r" and "r \<noteq> f" and "fib w r = Some y" and "m_ctx y = At (FiberStack r)"
    and "t_thread_fiber (loc w t) = Some m" and "m \<noteq> r" and "m \<noteq> f" and "fib w m = Some z"
  shows "\<exists>w'. fiber_yield t f w = Inr w' \<and> on_stack (loc w' t) = FiberStack r \<and> fiber_GetThis t a w' = Inr (m, w')"
  using assms
  by (subst fiber_yield_ok [of w f x t r y "FiberStack r"]) (auto simp: main_of_def fiber_GetThis_def)

text \<open>\<open>reset\<close> does not stop at a fiber that is running: it makes it ready.\<close>

lemma fiber_reset_any_state:
  assumes "fib w f = Some x" and "m_stack x"
  shows "\<exists>w'. fiber_reset f cb w = Inr w' \<and> m_state (the (fib w' f)) = FReady \<and> m_ctx (the (fib w' f)) = Entry"
  using assms by (auto simp: fiber_reset_def)

end
