(* ===== verification/Schedulers.thy ===== *)
theory Schedulers
  imports Fibers "HOL-Library.Multiset"
begin

text \<open>
  \<^verbatim>\<open>Coroutine/version2/Scheduler.cpp\<close> and \<^verbatim>\<open>Scheduler.h\<close>: a queue of fibers and functions
  that a pool of threads runs. What holds the mutex is one step; \<^verbatim>\<open>run\<close> is cut at its calls of
  \<^verbatim>\<open>resume\<close>, where the thread leaves it, and its local variables are a frame per thread. The
  virtual \<^verbatim>\<open>tickle\<close> is an argument.
\<close>

section \<open>The code\<close>

text \<open>The functions the scheduler itself makes fibers of; other numbers are those of the program.\<close>

definition RUN_FN :: nat where "RUN_FN = 0"
definition IDLE_FN :: nat where "IDLE_FN = 1"

record sched_task =
  task_fiber :: "nat option"
  task_cb :: "nat option"
  task_thread :: tid

definition any_thread :: tid where
  "any_thread = - 1"

definition task_reset :: sched_task where
  "task_reset = \<lparr>task_fiber = None, task_cb = None, task_thread = any_thread\<rparr>"

definition fiber_task :: "nat option \<Rightarrow> tid \<Rightarrow> sched_task" where
  "fiber_task f thr = \<lparr>task_fiber = f, task_cb = None, task_thread = thr\<rparr>"

definition cb_task :: "nat option \<Rightarrow> tid \<Rightarrow> sched_task" where
  "cb_task cb thr = \<lparr>task_fiber = None, task_cb = cb, task_thread = thr\<rparr>"

text \<open>Where a thread is in \<open>run\<close>: at the top of the loop, behind the fetch, behind one of the resumes.\<close>

datatype run_pc = RFetch | RTask | RAfterFiber | RAfterCb | RAfterIdle | RExit

record run_frame =
  idle_fiber :: nat
  cb_fiber :: "nat option"
  r_task :: sched_task
  r_pc :: run_pc

text \<open>
  \<open>s_locked\<close>: the mutex is left locked; \<open>t_scheduler\<close>: the threads whose scheduler this one is.
\<close>

record scheduler = fibers +
  sched_name :: string
  m_threads :: "tid list"
  m_tasks :: "sched_task list"
  m_threadIds :: "tid list"
  m_threadCount :: "64 word"
  m_activeThreadCount :: "64 word"
  m_idleThreadCount :: "64 word"
  m_userCaller :: bool
  m_rootFiber :: "nat option"
  m_rootThread :: tid
  m_stopping :: bool
  s_locked :: bool
  t_scheduler :: "tid \<Rightarrow> bool"
  frames :: "tid \<Rightarrow> run_frame option"

text \<open>
  The constructor, in thread \<open>t\<close>; \<open>am\<close> and \<open>ar\<close>: the addresses of the main fiber, if the thread has
  none, and of the root fiber.
\<close>

definition scheduler_init ::
  "tid \<Rightarrow> nat \<Rightarrow> nat \<Rightarrow> 64 word \<Rightarrow> bool \<Rightarrow> string \<Rightarrow> 'a scheduler_scheme \<Rightarrow> 'a scheduler_scheme res" where
  "scheduler_init t am ar threads use_caller name s =
     (if threads = 0 then Inl AssertFail
      else
        (let s = s\<lparr>sched_name := name, m_threads := [], m_tasks := [], m_threadIds := [], m_activeThreadCount := 0,
             m_idleThreadCount := 0, m_userCaller := use_caller, m_rootFiber := None, m_stopping := False,
             s_locked := False\<rparr> in
         if use_caller then
           bindR (fiber_GetThis t am s) (\<lambda>(_, s).
             let s = fiber_new ar (Some RUN_FN) 0 False (s\<lparr>t_scheduler := (t_scheduler s)(t := True), m_rootFiber := Some ar\<rparr>) in
             Inr ((upd_loc t (\<lambda>l. l\<lparr>t_scheduler_fiber := Some ar\<rparr>) s)
               \<lparr>m_rootThread := t, m_threadIds := [t], m_threadCount := threads - 1\<rparr>))
         else Inr (s\<lparr>m_rootThread := any_thread, m_threadCount := threads\<rparr>)))"

definition scheduler_GetThis :: "tid \<Rightarrow> 'a scheduler_scheme \<Rightarrow> bool" where
  "scheduler_GetThis t s = t_scheduler s t"

definition scheduler_destroy :: "tid \<Rightarrow> 'a scheduler_scheme \<Rightarrow> 'a scheduler_scheme res" where
  "scheduler_destroy t s =
     (if \<not> m_stopping s then Inl AssertFail
      else Inr (if scheduler_GetThis t s then s\<lparr>t_scheduler := (t_scheduler s)(t := False)\<rparr> else s))"

text \<open>The base class's \<open>tickle\<close>, and the main fiber of a scheduler thread.\<close>

definition scheduler_tickle :: "'a scheduler_scheme \<Rightarrow> 'a scheduler_scheme res" where
  "scheduler_tickle s = Inr s"

definition GetMainFiber :: "tid \<Rightarrow> 'a scheduler_scheme \<Rightarrow> nat option" where
  "GetMainFiber t s = t_scheduler_fiber (loc s t)"

definition setThis :: "tid \<Rightarrow> 'a scheduler_scheme \<Rightarrow> 'a scheduler_scheme" where
  "setThis t s = s\<lparr>t_scheduler := (t_scheduler s)(t := True)\<rparr>"

text \<open>
  \<open>start\<close>: \<open>tids\<close> are the ids of the new threads. When the scheduler is stopping it returns between
  \<^verbatim>\<open>lock\<close> and \<^verbatim>\<open>unlock\<close>.
\<close>

definition scheduler_start :: "tid list \<Rightarrow> 'a scheduler_scheme \<Rightarrow> 'a scheduler_scheme res" where
  "scheduler_start tids s =
     (if s_locked s then Inl Deadlock
      else if m_stopping s then Inr (s\<lparr>s_locked := True\<rparr>)
      else if m_threads s \<noteq> [] then Inl AssertFail
      else Inr (s\<lparr>m_threads := tids, m_threadIds := m_threadIds s @ tids\<rparr>))"

definition hasIdleThreads :: "'a scheduler_scheme \<Rightarrow> bool" where
  "hasIdleThreads s \<longleftrightarrow> 0 < m_idleThreadCount s"

definition scheduleNoLock :: "sched_task \<Rightarrow> 'a scheduler_scheme \<Rightarrow> bool \<times> 'a scheduler_scheme" where
  "scheduleNoLock ft s =
     (m_tasks s = [],
      if task_fiber ft \<noteq> None \<or> task_cb ft \<noteq> None then s\<lparr>m_tasks := m_tasks s @ [ft]\<rparr> else s)"

definition schedule ::
  "('a scheduler_scheme \<Rightarrow> 'a scheduler_scheme res) \<Rightarrow> sched_task \<Rightarrow> 'a scheduler_scheme \<Rightarrow> 'a scheduler_scheme res" where
  "schedule tickle ft s =
     (if s_locked s then Inl Deadlock
      else (let (need_tickle, s) = scheduleNoLock ft s in if need_tickle then tickle s else Inr s))"

fun schedule_loop :: "sched_task list \<Rightarrow> bool \<Rightarrow> 'a scheduler_scheme \<Rightarrow> bool \<times> 'a scheduler_scheme" where
  "schedule_loop [] need s = (need, s)"
| "schedule_loop (ft # fts) need s =
     (let (n, s) = scheduleNoLock ft s in schedule_loop fts (n \<or> need) s)"

definition schedule_range ::
  "('a scheduler_scheme \<Rightarrow> 'a scheduler_scheme res) \<Rightarrow> sched_task list \<Rightarrow> 'a scheduler_scheme \<Rightarrow> 'a scheduler_scheme res" where
  "schedule_range tickle fts s =
     (if s_locked s then Inl Deadlock
      else (let (need_tickle, s) = schedule_loop fts False s in if need_tickle then tickle s else Inr s))"

text \<open>The head of \<open>run\<close>, to the loop; \<open>am\<close> and \<open>ai\<close>: the addresses of a main fiber and the idle fiber.\<close>

definition run_begin :: "tid \<Rightarrow> nat \<Rightarrow> nat \<Rightarrow> 'a scheduler_scheme \<Rightarrow> 'a scheduler_scheme res" where
  "run_begin t am ai s =
     (let s = setThis t s in
      bindR (if t \<noteq> m_rootThread s
             then bindR (fiber_GetThis t am s) (\<lambda>(m, s). Inr (upd_loc t (\<lambda>l. l\<lparr>t_scheduler_fiber := Some m\<rparr>) s))
             else Inr s) (\<lambda>s.
      Inr ((fiber_new ai (Some IDLE_FN) 0 True s)
        \<lparr>frames := (frames s)(t \<mapsto> \<lparr>idle_fiber = ai, cb_fiber = None, r_task = task_reset, r_pc = RFetch\<rparr>)\<rparr>)))"

text \<open>
  The walk over the queue: the task found, the tasks left, and whether other threads are to be told:
  when one was passed over, or when the iterator is not at the end.
\<close>

fun take_task ::
  "tid \<Rightarrow> (nat \<Rightarrow> fiber option) \<Rightarrow> sched_task list \<Rightarrow> (sched_task option \<times> sched_task list \<times> bool) res" where
  "take_task t fb [] = Inr (None, [], False)"
| "take_task t fb (x # xs) =
     (if task_thread x \<noteq> any_thread \<and> task_thread x \<noteq> t then
        bindR (take_task t fb xs) (\<lambda>(found, rest, _). Inr (found, x # rest, True))
      else if task_fiber x = None \<and> task_cb x = None then Inl AssertFail
      else
        bindR (case task_fiber x of
            None \<Rightarrow> Inr ()
          | Some f \<Rightarrow>
              (case fb f of None \<Rightarrow> Inl UseAfterFree | Some y \<Rightarrow> guardR (m_state y = FReady) AssertFail)) (\<lambda>_.
        Inr (Some x, xs, xs \<noteq> [])))"

definition run_fetch ::
  "('a scheduler_scheme \<Rightarrow> 'a scheduler_scheme res) \<Rightarrow> tid \<Rightarrow> 'a scheduler_scheme \<Rightarrow> 'a scheduler_scheme res" where
  "run_fetch tickle t s =
     (case frames s t of
        None \<Rightarrow> Inl UseAfterFree
      | Some fr \<Rightarrow>
          if s_locked s then Inl Deadlock
          else
            bindR (take_task t (fib s) (m_tasks s)) (\<lambda>(found, rest, tickle_me).
              let s = s\<lparr>m_tasks := rest,
                    m_activeThreadCount := m_activeThreadCount s + (if found = None then 0 else 1),
                    frames := (frames s)(t \<mapsto> fr\<lparr>r_task := (case found of None \<Rightarrow> task_reset | Some x \<Rightarrow> x), r_pc := RTask\<rparr>)\<rparr> in
              if tickle_me then tickle s else Inr s))"

text \<open>
  From there to the resume. \<open>ac\<close>: the address of a new fiber for a function. What \<^verbatim>\<open>cb_fiber\<close>
  held stays in the heap: nobody has its address unless a shared pointer keeps it.
\<close>

definition run_resume :: "tid \<Rightarrow> nat \<Rightarrow> 'a scheduler_scheme \<Rightarrow> 'a scheduler_scheme res" where
  "run_resume t ac s =
     (case frames s t of
        None \<Rightarrow> Inl UseAfterFree
      | Some fr \<Rightarrow>
          (case task_fiber (r_task fr) of
             Some f \<Rightarrow> fiber_resume t f (s\<lparr>frames := (frames s)(t \<mapsto> fr\<lparr>r_pc := RAfterFiber\<rparr>)\<rparr>)
           | None \<Rightarrow>
               (case task_cb (r_task fr) of
                  Some cb \<Rightarrow>
                    bindR (case cb_fiber fr of
                        Some c \<Rightarrow> bindR (fiber_reset c (Some cb) s) (\<lambda>s. Inr (c, s))
                      | None \<Rightarrow> Inr (ac, fiber_new ac (Some cb) 0 True s)) (\<lambda>(c, s).
                    fiber_resume t c (s\<lparr>frames := (frames s)
                      (t \<mapsto> fr\<lparr>cb_fiber := Some c, r_task := task_reset, r_pc := RAfterCb\<rparr>)\<rparr>))
                | None \<Rightarrow>
                    (case fib s (idle_fiber fr) of
                       None \<Rightarrow> Inl UseAfterFree
                     | Some x \<Rightarrow>
                         if m_state x = FTerm then Inr (s\<lparr>frames := (frames s)(t \<mapsto> fr\<lparr>r_pc := RExit\<rparr>)\<rparr>)
                         else fiber_resume t (idle_fiber fr) (s\<lparr>m_idleThreadCount := m_idleThreadCount s + 1,
                           frames := (frames s)(t \<mapsto> fr\<lparr>r_pc := RAfterIdle\<rparr>)\<rparr>)))))"

text \<open>Behind the resume, to the top of the loop.\<close>

definition run_return :: "tid \<Rightarrow> 'a scheduler_scheme \<Rightarrow> 'a scheduler_scheme res" where
  "run_return t s =
     (case frames s t of
        None \<Rightarrow> Inl UseAfterFree
      | Some fr \<Rightarrow>
          (case r_pc fr of
             RAfterFiber \<Rightarrow> Inr (s\<lparr>m_activeThreadCount := m_activeThreadCount s - 1,
               frames := (frames s)(t \<mapsto> fr\<lparr>r_task := task_reset, r_pc := RFetch\<rparr>)\<rparr>)
           | RAfterCb \<Rightarrow> Inr (s\<lparr>m_activeThreadCount := m_activeThreadCount s - 1,
               frames := (frames s)(t \<mapsto> fr\<lparr>cb_fiber := None, r_task := task_reset, r_pc := RFetch\<rparr>)\<rparr>)
           | RAfterIdle \<Rightarrow> Inr (s\<lparr>m_idleThreadCount := m_idleThreadCount s - 1,
               frames := (frames s)(t \<mapsto> fr\<lparr>r_task := task_reset, r_pc := RFetch\<rparr>)\<rparr>)
           | _ \<Rightarrow> Inr s))"

text \<open>The base class's idle function returns at once; its \<open>stopping\<close>.\<close>

definition scheduler_idle :: "'a scheduler_scheme \<Rightarrow> 'a scheduler_scheme" where
  "scheduler_idle s = s"

definition scheduler_stopping :: "'a scheduler_scheme \<Rightarrow> (bool \<times> 'a scheduler_scheme) res" where
  "scheduler_stopping s =
     (if s_locked s then Inl Deadlock
      else Inr (m_stopping s \<and> m_tasks s = [] \<and> m_activeThreadCount s = 0, s))"

fun tickle_times :: "('a scheduler_scheme \<Rightarrow> 'a scheduler_scheme res) \<Rightarrow> nat \<Rightarrow> 'a scheduler_scheme \<Rightarrow> 'a scheduler_scheme res" where
  "tickle_times tickle 0 s = Inr s"
| "tickle_times tickle (Suc n) s = bindR (tickle s) (tickle_times tickle n)"

text \<open>
  \<open>stop\<close>, up to the resume of the root fiber, whether it has returned already, and from there on: the
  threads to be joined. \<open>stopping\<close> is the virtual one.
\<close>

definition stop_begin ::
  "('a scheduler_scheme \<Rightarrow> 'a scheduler_scheme res) \<Rightarrow> ('a scheduler_scheme \<Rightarrow> (bool \<times> 'a scheduler_scheme) res) \<Rightarrow>
   tid \<Rightarrow> 'a scheduler_scheme \<Rightarrow> (bool \<times> 'a scheduler_scheme) res" where
  "stop_begin tickle stopping t s =
     bindR (stopping s) (\<lambda>(b, s).
     if b then Inr (True, s)
     else
       (let s = s\<lparr>m_stopping := True\<rparr> in
        bindR (guardR (scheduler_GetThis t s = m_userCaller s) AssertFail) (\<lambda>_.
        bindR (tickle_times tickle (unat (m_threadCount s)) s) (\<lambda>s.
        case m_rootFiber s of
          None \<Rightarrow> Inr (False, s)
        | Some _ \<Rightarrow>
            bindR (tickle s) (\<lambda>s.
            case m_rootFiber s of
              None \<Rightarrow> Inr (False, s)
            | Some r \<Rightarrow> bindR (fiber_resume t r s) (\<lambda>s. Inr (False, s)))))))"

definition stop_end :: "'a scheduler_scheme \<Rightarrow> (tid list \<times> 'a scheduler_scheme) res" where
  "stop_end s = (if s_locked s then Inl Deadlock else Inr (m_threads s, s\<lparr>m_threads := []\<rparr>))"

section \<open>The queue\<close>

definition eligible :: "tid \<Rightarrow> sched_task \<Rightarrow> bool" where
  "eligible t x \<longleftrightarrow> task_thread x = any_thread \<or> task_thread x = t"

text \<open>The assertions on the task found.\<close>

definition task_fault :: "(nat \<Rightarrow> fiber option) \<Rightarrow> sched_task \<Rightarrow> fault option" where
  "task_fault fb x =
     (case task_fiber x of
        None \<Rightarrow> if task_cb x = None then Some AssertFail else None
      | Some f \<Rightarrow>
          (case fb f of
             None \<Rightarrow> Some UseAfterFree
           | Some y \<Rightarrow> if m_state y = FReady then None else Some AssertFail))"

lemma take_task_none: "\<forall>x \<in> set xs. \<not> eligible t x \<Longrightarrow> take_task t fb xs = Inr (None, xs, xs \<noteq> [])"
  by (induction xs) (auto simp: eligible_def)

lemma take_task_found:
  assumes "\<forall>y \<in> set pre. \<not> eligible t y" and "eligible t x"
  shows "take_task t fb (pre @ x # post) =
    (case task_fault fb x of Some e \<Rightarrow> Inl e | None \<Rightarrow> Inr (Some x, pre @ post, pre @ post \<noteq> []))"
  using assms
proof (induction pre)
  case Nil
  then show ?case by (auto simp: eligible_def task_fault_def split: option.split)
next
  case (Cons y pre)
  then show ?case by (cases "task_fault fb x") (auto simp: eligible_def)
qed

lemma take_task_cases:
  obtains (none) "\<forall>x \<in> set xs. \<not> eligible t x"
  | (found) pre x post where "xs = pre @ x # post" and "\<forall>y \<in> set pre. \<not> eligible t y" and "eligible t x"
  using split_list_first_prop [of xs "eligible t"] by blast

lemma scheduleNoLock_eq:
  "snd (scheduleNoLock ft s) = s\<lparr>m_tasks := m_tasks s @ (if task_fiber ft \<noteq> None \<or> task_cb ft \<noteq> None then [ft] else [])\<rparr>"
  by (simp add: scheduleNoLock_def)

definition runnable :: "sched_task \<Rightarrow> bool" where
  "runnable ft \<longleftrightarrow> task_fiber ft \<noteq> None \<or> task_cb ft \<noteq> None"

lemma schedule_loop_eq:
  "schedule_loop fts need s =
     (need \<or> fts \<noteq> [] \<and> m_tasks s = [], s\<lparr>m_tasks := m_tasks s @ filter runnable fts\<rparr>)"
proof (induction fts arbitrary: need s)
  case (Cons ft fts)
  then show ?case by (auto simp: scheduleNoLock_def runnable_def Let_def)
qed simp

section \<open>Runs of a scheduler\<close>

text \<open>
  What the threads of a process do with a scheduler, in any order, with what it means for its tasks.
  The fibers the threads are on may do anything to fibers (\<open>fibers\<close>); \<open>return\<close> is the return of a
  \<^verbatim>\<open>resume\<close>.
\<close>

datatype sched_event = Scheduled "sched_task list" | Taken tid sched_task | Finished tid | Quiet

inductive sched_step ::
  "('a scheduler_scheme \<Rightarrow> 'a scheduler_scheme res) \<Rightarrow> 'a scheduler_scheme \<Rightarrow> sched_event \<Rightarrow> 'a scheduler_scheme \<Rightarrow> bool"
  for tickle where
  one: "schedule tickle ft s = Inr s' \<Longrightarrow> sched_step tickle s (Scheduled (filter runnable [ft])) s'"
| many: "schedule_range tickle fts s = Inr s' \<Longrightarrow> sched_step tickle s (Scheduled (filter runnable fts)) s'"
| run: "frames s t = None \<Longrightarrow> run_begin t am ai s = Inr s' \<Longrightarrow> sched_step tickle s Quiet s'"
| fetch: "frames s t = Some fr \<Longrightarrow> r_pc fr = RFetch \<Longrightarrow> run_fetch tickle t s = Inr s' \<Longrightarrow> frames s' t = Some fr' \<Longrightarrow>
    sched_step tickle s (if runnable (r_task fr') then Taken t (r_task fr') else Quiet) s'"
| resume: "frames s t = Some fr \<Longrightarrow> r_pc fr = RTask \<Longrightarrow> run_resume t ac s = Inr s' \<Longrightarrow> sched_step tickle s Quiet s'"
| task_return: "frames s t = Some fr \<Longrightarrow> r_pc fr = RAfterFiber \<or> r_pc fr = RAfterCb \<Longrightarrow> run_return t s = Inr s' \<Longrightarrow>
    sched_step tickle s (Finished t) s'"
| idle_return: "frames s t = Some fr \<Longrightarrow> r_pc fr = RAfterIdle \<Longrightarrow> run_return t s = Inr s' \<Longrightarrow> sched_step tickle s Quiet s'"
| stop: "stop_begin tickle scheduler_stopping t s = Inr (b, s') \<Longrightarrow> sched_step tickle s Quiet s'"
| fibers: "sched_step tickle s Quiet (s\<lparr>fib := fb, loc := lc, s_fiber_id := i, s_fiber_count := c\<rparr>)"

inductive sched_run ::
  "('a scheduler_scheme \<Rightarrow> 'a scheduler_scheme res) \<Rightarrow> 'a scheduler_scheme \<Rightarrow> sched_event list \<Rightarrow> 'a scheduler_scheme \<Rightarrow> bool"
  for tickle s where
  none: "sched_run tickle s [] s"
| step: "sched_run tickle s tr s' \<Longrightarrow> sched_step tickle s' e s'' \<Longrightarrow> sched_run tickle s (tr @ [e]) s''"

fun scheduled :: "sched_event list \<Rightarrow> sched_task list" where
  "scheduled [] = []"
| "scheduled (Scheduled fts # tr) = fts @ scheduled tr"
| "scheduled (_ # tr) = scheduled tr"

fun taken :: "sched_event list \<Rightarrow> sched_task list" where
  "taken [] = []"
| "taken (Taken t x # tr) = x # taken tr"
| "taken (_ # tr) = taken tr"

fun finished :: "sched_event list \<Rightarrow> nat" where
  "finished [] = 0"
| "finished (Finished t # tr) = Suc (finished tr)"
| "finished (_ # tr) = finished tr"

lemma trace_snoc [simp]:
  "scheduled (tr @ [e]) = scheduled tr @ scheduled [e]"
  "taken (tr @ [e]) = taken tr @ taken [e]"
  "finished (tr @ [e]) = finished tr + finished [e]"
proof -
  show "scheduled (tr @ [e]) = scheduled tr @ scheduled [e]" by (induction tr rule: scheduled.induct) simp_all
  show "taken (tr @ [e]) = taken tr @ taken [e]" by (induction tr rule: taken.induct) simp_all
  show "finished (tr @ [e]) = finished tr + finished [e]" by (induction tr rule: finished.induct) simp_all
qed

text \<open>The threads between the fetch of a task and its end, and those that idle.\<close>

definition busy :: "(tid \<Rightarrow> run_frame option) \<Rightarrow> tid set" where
  "busy fs = {t. \<exists>fr. fs t = Some fr \<and>
     (r_pc fr = RTask \<and> runnable (r_task fr) \<or> r_pc fr = RAfterFiber \<or> r_pc fr = RAfterCb)}"

definition idling :: "(tid \<Rightarrow> run_frame option) \<Rightarrow> tid set" where
  "idling fs = {t. \<exists>fr. fs t = Some fr \<and> r_pc fr = RAfterIdle}"

definition counts_ok :: "'a scheduler_scheme \<Rightarrow> bool" where
  "counts_ok s \<longleftrightarrow> m_activeThreadCount s = of_nat (card (busy (frames s))) \<and>
     m_idleThreadCount s = of_nat (card (idling (frames s)))"

text \<open>There are fewer threads than the counters can count.\<close>

lemma card_threads: "card (T :: tid set) < 2 ^ 64"
proof -
  have "card T \<le> CARD(32 word)" by (rule card_mono) simp_all
  then show ?thesis by (simp add: card_word)
qed

lemma unat_card [simp]: "unat (of_nat (card (T :: tid set)) :: 64 word) = card T"
  using card_threads [of T] by (simp add: unat_of_nat)

lemma busy_upd:
  "busy (fs(t \<mapsto> fr)) = (if r_pc fr = RTask \<and> runnable (r_task fr) \<or> r_pc fr = RAfterFiber \<or> r_pc fr = RAfterCb
     then insert t (busy fs) else busy fs - {t})"
  by (auto simp: busy_def)

lemma idling_upd:
  "idling (fs(t \<mapsto> fr)) = (if r_pc fr = RAfterIdle then insert t (idling fs) else idling fs - {t})"
  by (auto simp: idling_def)

lemma in_busy: "fs t = Some fr \<Longrightarrow> t \<in> busy fs \<longleftrightarrow>
    r_pc fr = RTask \<and> runnable (r_task fr) \<or> r_pc fr = RAfterFiber \<or> r_pc fr = RAfterCb"
  and in_idling: "fs t = Some fr \<Longrightarrow> t \<in> idling fs \<longleftrightarrow> r_pc fr = RAfterIdle"
  by (auto simp: busy_def idling_def)

lemma not_running [simp]: "fs t = None \<Longrightarrow> t \<notin> busy fs" "fs t = None \<Longrightarrow> t \<notin> idling fs"
  by (auto simp: busy_def idling_def)

lemma finite_threads [simp]: "finite (T :: tid set)"
  by simp

lemma of_nat_card_insert:
  "t \<notin> T \<Longrightarrow> (of_nat (card (insert t T)) :: 64 word) = of_nat (card T) + 1" for t :: tid
  by (simp add: card_insert_disjoint)

text \<open>The members of the scheduler that its queue and counters live in; fibers are beside them.\<close>

definition core :: "'a scheduler_scheme \<Rightarrow> _" where
  "core s = (m_tasks s, m_activeThreadCount s, m_idleThreadCount s, frames s)"

lemma more_core: "fibers.more s' = fibers.more s \<Longrightarrow> core s' = core s"
  by (cases s, cases s') (simp add: core_def)

lemma core_fields:
  assumes "core s' = core s"
  shows "m_tasks s' = m_tasks s" "m_activeThreadCount s' = m_activeThreadCount s"
    "m_idleThreadCount s' = m_idleThreadCount s" "frames s' = frames s"
  using assms by (simp_all add: core_def)

lemma fiber_new_more [simp]: "fibers.more (fiber_new a cb n r w) = fibers.more w"
  by (simp add: fiber_new_def)

lemma GetThis_more: "fiber_GetThis t a w = Inr (m, w') \<Longrightarrow> fibers.more w' = fibers.more w"
  by (auto simp: fiber_GetThis_def fiber_main_def split: option.splits if_splits)

lemma swap_more: "swap_context t a b w = Inr w' \<Longrightarrow> fibers.more w' = fibers.more w"
  by (auto simp: swap_context_def Let_def split: if_splits ucontext.splits)

lemma resume_more: "fiber_resume t f w = Inr w' \<Longrightarrow> fibers.more w' = fibers.more w"
  by (auto simp: fiber_resume_def Let_def res_simps dest!: swap_more split: option.splits if_splits)

lemma reset_more: "fiber_reset f cb w = Inr w' \<Longrightarrow> fibers.more w' = fibers.more w"
  by (auto simp: fiber_reset_def split: option.splits if_splits)

lemmas fiber_core = GetThis_more [THEN more_core] resume_more [THEN more_core] reset_more [THEN more_core]

lemma upd_core [simp]:
  "core (upd_fiber f g s) = core s" "core (upd_loc t h s) = core s" "core (fiber_new a cb n r s) = core s"
  by (rule more_core; simp)+

lemmas upd_core_fields [simp] =
  core_fields [OF upd_core(1)] core_fields [OF upd_core(2)] core_fields [OF upd_core(3)]

text \<open>What the operations do to the queue and the frames, with any \<open>tickle\<close> that leaves them alone.\<close>

locale notifier =
  fixes tickle :: "'a scheduler_scheme \<Rightarrow> 'a scheduler_scheme res"
  assumes tickle_core: "tickle s = Inr s' \<Longrightarrow> core s' = core s"
begin

lemma tickles_core: "tickle_times tickle n s = Inr s' \<Longrightarrow> core s' = core s"
  by (induction n arbitrary: s) (auto simp: res_simps dest!: tickle_core)

lemma schedule_core:
  "schedule tickle ft s = Inr s' \<Longrightarrow>
   core s' = core (s\<lparr>m_tasks := m_tasks s @ filter runnable [ft]\<rparr>)"
  by (auto simp: schedule_def scheduleNoLock_def runnable_def Let_def dest!: tickle_core split: if_splits)

lemma schedule_range_core:
  "schedule_range tickle fts s = Inr s' \<Longrightarrow> core s' = core (s\<lparr>m_tasks := m_tasks s @ filter runnable fts\<rparr>)"
  by (auto simp: schedule_range_def schedule_loop_eq dest!: tickle_core split: if_splits)

lemma run_begin_core:
  assumes "run_begin t am ai s = Inr s'"
  shows "core s' = core (s\<lparr>frames := (frames s)(t \<mapsto> \<lparr>idle_fiber = ai, cb_fiber = None, r_task = task_reset, r_pc = RFetch\<rparr>)\<rparr>)"
  using assms
  by (auto simp: run_begin_def setThis_def Let_def res_simps core_def
      dest!: GetThis_more [THEN more_core] split: if_splits)

lemma run_fetch_core:
  assumes "run_fetch tickle t s = Inr s'" and "frames s t = Some fr"
  obtains (idle) "\<forall>x \<in> set (m_tasks s). \<not> eligible t x"
      and "core s' = core (s\<lparr>frames := (frames s)(t \<mapsto> fr\<lparr>r_task := task_reset, r_pc := RTask\<rparr>)\<rparr>)"
  | (task) pre x post where "m_tasks s = pre @ x # post" and "\<forall>y \<in> set pre. \<not> eligible t y" and "eligible t x"
      and "runnable x"
      and "core s' = core (s\<lparr>m_tasks := pre @ post, m_activeThreadCount := m_activeThreadCount s + 1,
        frames := (frames s)(t \<mapsto> fr\<lparr>r_task := x, r_pc := RTask\<rparr>)\<rparr>)"
proof (cases rule: take_task_cases [of "m_tasks s" t])
  case none
  with assms take_task_none [OF none, of "fib s"] show thesis
    by (intro that(1)) (auto simp: run_fetch_def core_def Let_def split: if_splits dest!: tickle_core)
next
  case (found pre x post)
  have "task_fault (fib s) x = None"
    using assms take_task_found [OF found(2,3), of "fib s" post]
    by (cases "task_fault (fib s) x") (auto simp: run_fetch_def found(1) split: if_splits)
  moreover from this have "runnable x" by (auto simp: task_fault_def runnable_def split: option.splits if_splits)
  ultimately show thesis
    using assms take_task_found [OF found(2,3), of "fib s" post] found
    by (intro that(2) [of pre x post])
      (auto simp: run_fetch_def core_def Let_def split: if_splits dest!: tickle_core)
qed

end

lemma run_resume_core:
  assumes "run_resume t ac s = Inr s'" and "frames s t = Some fr"
  obtains (task) fr' where "runnable (r_task fr)" and "r_pc fr' = RAfterFiber \<or> r_pc fr' = RAfterCb"
      and "core s' = core (s\<lparr>frames := (frames s)(t \<mapsto> fr')\<rparr>)"
  | (idle) "\<not> runnable (r_task fr)"
      and "core s' = core (s\<lparr>m_idleThreadCount := m_idleThreadCount s + 1, frames := (frames s)(t \<mapsto> fr\<lparr>r_pc := RAfterIdle\<rparr>)\<rparr>)"
  | (exit) "\<not> runnable (r_task fr)" and "core s' = core (s\<lparr>frames := (frames s)(t \<mapsto> fr\<lparr>r_pc := RExit\<rparr>)\<rparr>)"
proof (cases "task_fiber (r_task fr)")
  case (Some f)
  with assms show thesis
    by (intro that(1) [of "fr\<lparr>r_pc := RAfterFiber\<rparr>"])
      (auto simp: run_resume_def runnable_def dest!: fiber_core(2))
next
  case no_fiber: None
  show thesis
  proof (cases "task_cb (r_task fr)")
    case (Some cb)
    with no_fiber assms obtain c s1 where
      s1: "core s1 = core s" and
      s': "fiber_resume t c (s1\<lparr>frames := (frames s1)(t \<mapsto> fr\<lparr>cb_fiber := Some c, r_task := task_reset, r_pc := RAfterCb\<rparr>)\<rparr>) = Inr s'"
    proof (cases "cb_fiber fr")
      case None
      with no_fiber assms Some show ?thesis
        by (intro that [of "fiber_new ac (Some cb) 0 True s" ac]) (simp_all add: run_resume_def)
    next
      case (Some c)
      with no_fiber assms \<open>task_cb (r_task fr) = _\<close> show ?thesis
        by (auto simp: run_resume_def res_simps intro: that dest: fiber_core(3))
    qed
    from fiber_core(2) [OF s'] s1 show thesis
      by (intro that(1) [of "fr\<lparr>cb_fiber := Some c, r_task := task_reset, r_pc := RAfterCb\<rparr>"])
        (use Some in \<open>auto simp: runnable_def core_def\<close>)
  next
    case None
    with no_fiber assms show thesis
      by (cases "fib s (idle_fiber fr)"; cases "m_state (the (fib s (idle_fiber fr))) = FTerm")
        (auto simp: run_resume_def runnable_def core_def dest!: fiber_core(2) intro: that(2,3))
  qed
qed

lemma run_return_core:
  assumes "run_return t s = Inr s'" and "frames s t = Some fr"
  shows "r_pc fr = RAfterFiber \<or> r_pc fr = RAfterCb \<Longrightarrow> r_pc (the (frames s' t)) = RFetch \<and>
      core s' = core (s\<lparr>m_activeThreadCount := m_activeThreadCount s - 1, frames := (frames s)(t \<mapsto> the (frames s' t))\<rparr>)"
    and "r_pc fr = RAfterIdle \<Longrightarrow> r_pc (the (frames s' t)) = RFetch \<and>
      core s' = core (s\<lparr>m_idleThreadCount := m_idleThreadCount s - 1, frames := (frames s)(t \<mapsto> the (frames s' t))\<rparr>)"
  using assms by (auto simp: run_return_def core_def)

lemma counts_core: "core s' = core s \<Longrightarrow> counts_ok s' = counts_ok s"
  by (simp add: counts_ok_def core_def)

text \<open>
  What each event does to the tasks: in the queue, in the hands of a thread, done.
\<close>

definition account :: "'a scheduler_scheme \<Rightarrow> sched_event \<Rightarrow> 'a scheduler_scheme \<Rightarrow> bool" where
  "account s e s' \<longleftrightarrow>
     mset (m_tasks s) + mset (scheduled [e]) = mset (taken [e]) + mset (m_tasks s') \<and>
     card (busy (frames s)) + length (taken [e]) = finished [e] + card (busy (frames s'))"

definition accounted :: "'a scheduler_scheme \<Rightarrow> sched_event \<Rightarrow> 'a scheduler_scheme \<Rightarrow> bool" where
  "accounted s e s' \<longleftrightarrow> account s e s' \<and> (counts_ok s \<longrightarrow> counts_ok s')"

lemma accounted_core: "core s' = core s1 \<Longrightarrow> accounted s e s1 \<Longrightarrow> accounted s e s'"
  by (simp add: accounted_def account_def counts_ok_def core_def)

lemmas account_simps = accounted_def account_def counts_ok_def busy_upd idling_upd

lemma card_busy_in:
  fixes t :: tid
  assumes "t \<in> T"
  obtains n where "card T = Suc n" and "card (T - {t}) = n"
  using assms card.remove [OF finite_threads] by blast

context notifier begin

lemma stop_core:
  assumes "stop_begin tickle scheduler_stopping t s = Inr (b, s')"
  shows "core s' = core s"
proof -
  let ?s = "s\<lparr>m_stopping := True\<rparr>"
  have upd: "core ?s = core s" by (simp add: core_def)
  show ?thesis
  proof (cases "s' = s")
    case False
    with assms obtain s2 where s2: "tickle_times tickle (unat (m_threadCount ?s)) ?s = Inr s2"
      and last: "(case m_rootFiber s2 of None \<Rightarrow> Inr (False, s2)
        | Some _ \<Rightarrow> bindR (tickle s2) (\<lambda>s. case m_rootFiber s of None \<Rightarrow> Inr (False, s)
            | Some r \<Rightarrow> bindR (fiber_resume t r s) (\<lambda>s. Inr (False, s)))) = Inr (b, s')"
      unfolding stop_begin_def scheduler_stopping_def Let_def by (auto simp: res_simps split: if_splits)
    have c2: "core s2 = core s" using tickles_core [OF s2] upd by simp
    show ?thesis
    proof (cases "m_rootFiber s2")
      case None
      with last c2 show ?thesis by simp
    next
      case (Some r)
      with last obtain s3 where s3: "tickle s2 = Inr s3"
        and "(case m_rootFiber s3 of None \<Rightarrow> Inr (False, s3)
          | Some r \<Rightarrow> bindR (fiber_resume t r s3) (\<lambda>s. Inr (False, s))) = Inr (b, s')"
        by (auto simp: res_simps)
      then have "s' = s3 \<or> (\<exists>r. fiber_resume t r s3 = Inr s')" by (auto simp: res_simps split: option.splits)
      then have "core s' = core s3" using fiber_core(2) by auto
      with tickle_core [OF s3] c2 show ?thesis by simp
    qed
  qed simp
qed

text \<open>Every step accounts for its tasks, and the counters stay those of the threads.\<close>

lemma step_account:
  assumes "sched_step tickle s e s'"
  shows "accounted s e s'"
  using assms
proof cases
  case (one ft)
  show ?thesis by (rule accounted_core [OF schedule_core [OF one(2)]]) (simp add: one(1) account_simps)
next
  case (many fts)
  show ?thesis by (rule accounted_core [OF schedule_range_core [OF many(2)]]) (simp add: many(1) account_simps)
next
  case (run t am ai)
  show ?thesis by (rule accounted_core [OF run_begin_core [OF run(3)]]) (simp add: run(1,2) account_simps)
next
  case (fetch t fr fr')
  have t: "t \<notin> busy (frames s)" "t \<notin> idling (frames s)" using fetch(2,3) by (simp_all add: in_busy in_idling)
  from fetch(4,2) show ?thesis
  proof (cases rule: run_fetch_core)
    case idle
    have "r_task fr' = task_reset" using core_fields(4) [OF idle(2)] fetch(5) by auto
    then have "e = Quiet" by (simp add: fetch(1) task_reset_def runnable_def)
    with t show ?thesis
      by (intro accounted_core [OF idle(2)]) (simp add: account_simps task_reset_def runnable_def)
  next
    case (task pre x post)
    have "r_task fr' = x" using core_fields(4) [OF task(5)] fetch(5) by auto
    with task have "e = Taken t x" by (simp add: fetch(1))
    with t task show ?thesis
      by (intro accounted_core [OF task(5)]) (simp add: account_simps of_nat_card_insert card_insert_disjoint)
  qed
next
  case (resume t fr ac)
  from resume(4,2) show ?thesis
  proof (cases rule: run_resume_core)
    case (task fr')
    then show ?thesis using resume(2,3)
      by (intro accounted_core [OF task(3)])
        (auto simp: resume(1) account_simps in_busy in_idling insert_absorb)
  next
    case idle
    then have "t \<notin> busy (frames s)" "t \<notin> idling (frames s)" using resume(2,3) by (simp_all add: in_busy in_idling)
    then show ?thesis
      by (intro accounted_core [OF idle(2)]) (simp add: resume(1) account_simps of_nat_card_insert)
  next
    case exit
    then have "t \<notin> busy (frames s)" "t \<notin> idling (frames s)" using resume(2,3) by (simp_all add: in_busy in_idling)
    then show ?thesis by (intro accounted_core [OF exit(2)]) (simp add: resume(1) account_simps)
  qed
next
  case (task_return t fr)
  then have t: "t \<in> busy (frames s)" "t \<notin> idling (frames s)" by (auto simp: in_busy in_idling)
  have pc: "r_pc (the (frames s' t)) = RFetch" using run_return_core(1) [OF task_return(4,2,3)] by simp
  obtain n where n: "card (busy (frames s)) = Suc n" "card (busy (frames s) - {t}) = n"
    using t(1) by (rule card_busy_in)
  show ?thesis
    by (rule accounted_core [OF conjunct2 [OF run_return_core(1) [OF task_return(4,2,3)]]])
      (simp add: task_return(1) pc t n account_simps)
next
  case (idle_return t fr)
  then have t: "t \<notin> busy (frames s)" "t \<in> idling (frames s)" by (auto simp: in_busy in_idling)
  have pc: "r_pc (the (frames s' t)) = RFetch" using run_return_core(2) [OF idle_return(4,2,3)] by simp
  obtain n where n: "card (idling (frames s)) = Suc n" "card (idling (frames s) - {t}) = n"
    using t(2) by (rule card_busy_in)
  show ?thesis
    by (rule accounted_core [OF conjunct2 [OF run_return_core(2) [OF idle_return(4,2,3)]]])
      (simp add: idle_return(1) pc t n account_simps)
next
  case (stop t b)
  show ?thesis by (rule accounted_core [OF stop_core [OF stop(2)]]) (simp add: stop(1) account_simps)
next
  case (fibers fb lc i c)
  show ?thesis by (rule accounted_core [where ?s1.0 = s]) (simp_all add: fibers core_def account_simps)
qed

lemma run_account:
  assumes "sched_run tickle s tr s'" and "m_tasks s = []" and "busy (frames s) = {}" and "counts_ok s"
  shows "mset (scheduled tr) = mset (taken tr) + mset (m_tasks s') \<and>
    length (taken tr) = finished tr + card (busy (frames s')) \<and> counts_ok s'"
  using assms(1)
proof induction
  case none
  then show ?case using assms(2-4) by simp
next
  case (step tr s' e s'')
  from step_account [OF step.hyps(2)] step.IH show ?case by (auto simp: accounted_def account_def)
qed

lemma drained:
  assumes "sched_run tickle s tr s'" and "m_tasks s = []" and "frames s = Map.empty"
    and "m_activeThreadCount s = 0" and "m_idleThreadCount s = 0"
  shows "mset (scheduled tr) = mset (taken tr) + mset (m_tasks s') \<and>
    length (taken tr) = finished tr + unat (m_activeThreadCount s') \<and>
    (scheduler_stopping s' = Inr (True, s'') \<longrightarrow>
      mset (scheduled tr) = mset (taken tr) \<and> finished tr = length (taken tr) \<and> busy (frames s') = {})"
proof -
  have b: "busy (frames s) = {}" "counts_ok s"
    using assms(3-5) by (simp_all add: busy_def idling_def counts_ok_def)
  from run_account [OF assms(1,2) b]
  have a: "mset (scheduled tr) = mset (taken tr) + mset (m_tasks s')"
    "length (taken tr) = finished tr + card (busy (frames s'))" "counts_ok s'" by auto
  then have c: "unat (m_activeThreadCount s') = card (busy (frames s'))" by (simp add: counts_ok_def)
  then have "m_activeThreadCount s' = 0 \<Longrightarrow> busy (frames s') = {}" by (metis card_0_eq finite_threads unat_0)
  with a c show ?thesis by (auto simp: scheduler_stopping_def split: if_splits)
qed

end

interpretation base: notifier "scheduler_tickle :: 'a scheduler_scheme \<Rightarrow> 'a scheduler_scheme res"
  by unfold_locales (simp add: scheduler_tickle_def)

section \<open>Properties\<close>

text \<open>
  A fetch, whatever \<^verbatim>\<open>tickle\<close> is: the first task that is for any thread or for this one
  is taken out and counted, the others stay in order, and other threads are told exactly when some
  are left. A task without fiber and function, and a fiber that is not ready, stop the process.
\<close>

theorem run_fetch_takes_first:
  assumes "frames s t = Some fr" and "\<not> s_locked s"
  shows "run_fetch tickle t s =
    (case dropWhile (\<lambda>x. \<not> eligible t x) (m_tasks s) of
       [] \<Rightarrow> (let s' = s\<lparr>frames := (frames s)(t \<mapsto> fr\<lparr>r_task := task_reset, r_pc := RTask\<rparr>)\<rparr> in
              if m_tasks s \<noteq> [] then tickle s' else Inr s')
     | x # post \<Rightarrow>
         (case task_fault (fib s) x of
            Some e \<Rightarrow> Inl e
          | None \<Rightarrow>
              (let rest = takeWhile (\<lambda>x. \<not> eligible t x) (m_tasks s) @ post;
                   s' = s\<lparr>m_tasks := rest, m_activeThreadCount := m_activeThreadCount s + 1,
                     frames := (frames s)(t \<mapsto> fr\<lparr>r_task := x, r_pc := RTask\<rparr>)\<rparr> in
               if rest \<noteq> [] then tickle s' else Inr s')))"
proof (cases rule: take_task_cases [of "m_tasks s" t])
  case none
  then have dw: "dropWhile (\<lambda>x. \<not> eligible t x) (m_tasks s) = []" by (simp add: dropWhile_eq_Nil_conv)
  show ?thesis using assms take_task_none [OF none, of "fib s"] unfolding dw by (simp add: run_fetch_def)
next
  case (found pre x post)
  have tw: "takeWhile (\<lambda>x. \<not> eligible t x) (m_tasks s) = pre"
    using found by (simp add: takeWhile_append)
  have dw: "dropWhile (\<lambda>x. \<not> eligible t x) (m_tasks s) = x # post"
    using found by (simp add: dropWhile_append)
  show ?thesis
    using assms take_task_found [OF found(2,3), of "fib s" post]
    by (cases "task_fault (fib s) x") (simp_all add: run_fetch_def found(1) Let_def tw [unfolded found(1)] dw [unfolded found(1)])
qed

text \<open>A scheduler with one thread 5 that is about to fetch; a task for thread 6 and one for any thread.\<close>

definition example_sched :: scheduler where
  "example_sched = \<lparr>fib = Map.empty, loc = loc fibers_init, s_fiber_id = 0, s_fiber_count = 0, sched_name = ''S'',
     m_threads = [5], m_tasks = [cb_task (Some 70) 6, cb_task (Some 71) any_thread], m_threadIds = [5],
     m_threadCount = 1, m_activeThreadCount = 0, m_idleThreadCount = 0, m_userCaller = False, m_rootFiber = None,
     m_rootThread = any_thread, m_stopping = False, s_locked = False, t_scheduler = (\<lambda>_. False),
     frames = [5 \<mapsto> \<lparr>idle_fiber = 9, cb_fiber = None, r_task = task_reset, r_pc = RFetch\<rparr>]\<rparr>"

theorem run_fetch_takes_first_witness:
  "case run_fetch scheduler_tickle 5 example_sched of Inl e \<Rightarrow> False
   | Inr s \<Rightarrow> m_tasks s = [cb_task (Some 70) 6] \<and> m_activeThreadCount s = 1 \<and>
       r_task (the (frames s 5)) = cb_task (Some 71) any_thread"
  by (subst run_fetch_takes_first)
    (simp_all add: example_sched_def eligible_def cb_task_def any_thread_def task_fault_def scheduler_tickle_def Let_def)

text \<open>
  C12. Over any run of any number of threads, the tasks scheduled are those taken and those still
  in the queue, each once; the active counter is the number of tasks taken and not finished; so when
  \<^verbatim>\<open>stopping\<close> says yes, every task has been taken and is done.
\<close>

theorem stopping_means_drained:
  assumes "sched_run scheduler_tickle s tr s'" and "m_tasks s = []" and "frames s = Map.empty"
    and "m_activeThreadCount s = 0" and "m_idleThreadCount s = 0"
  shows "mset (scheduled tr) = mset (taken tr) + mset (m_tasks s') \<and>
    length (taken tr) = finished tr + unat (m_activeThreadCount s') \<and>
    (scheduler_stopping s' = Inr (True, s'') \<longrightarrow>
      mset (scheduled tr) = mset (taken tr) \<and> finished tr = length (taken tr) \<and> busy (frames s') = {})"
  by (rule base.drained [OF assms])

text \<open>A run: a function is scheduled, thread 5 comes and fetches it.\<close>

definition idle_sched :: scheduler where
  "idle_sched = example_sched\<lparr>m_tasks := [], frames := Map.empty, m_stopping := True\<rparr>"

lemma idle_sched_run:
  "\<exists>s'. sched_run scheduler_tickle idle_sched
     [Scheduled [cb_task (Some 70) any_thread], Quiet, Taken 5 (cb_task (Some 70) any_thread)] s'"
proof -
  note defs = idle_sched_def example_sched_def fibers_init_def Let_def
  let ?x = "cb_task (Some 70) any_thread"
  let ?s1 = "idle_sched\<lparr>m_tasks := [?x]\<rparr>"
  have run: "runnable ?x" "eligible 5 ?x" "task_fault h ?x = None" for h
    by (simp_all add: cb_task_def runnable_def eligible_def task_fault_def)
  have "schedule scheduler_tickle ?x idle_sched = Inr ?s1"
    by (simp add: defs schedule_def scheduleNoLock_def scheduler_tickle_def cb_task_def)
  from sched_run.step [OF sched_run.none sched_step.one [OF this]] run
  have r1: "sched_run scheduler_tickle idle_sched [Scheduled [?x]] ?s1" by simp
  obtain s2 where s2: "run_begin 5 3 4 ?s1 = Inr s2"
    by (simp add: defs run_begin_def setThis_def any_thread_def fiber_GetThis_def)
  then have c2: "core s2 = core (?s1\<lparr>frames := [5 \<mapsto> \<lparr>idle_fiber = 4, cb_fiber = None, r_task = task_reset, r_pc = RFetch\<rparr>]\<rparr>)"
    using base.run_begin_core [OF s2] by (simp add: idle_sched_def)
  have "\<not> s_locked s2"
    using s2 by (auto simp: defs run_begin_def setThis_def any_thread_def fiber_GetThis_def fiber_new_def
        fiber_main_def upd_loc_def fiber_SetThis_def)
  then have "run_fetch scheduler_tickle 5 s2 = Inr (s2\<lparr>m_tasks := [], m_activeThreadCount := m_activeThreadCount s2 + 1,
      frames := (frames s2)(5 \<mapsto> \<lparr>idle_fiber = 4, cb_fiber = None, r_task = ?x, r_pc = RTask\<rparr>)\<rparr>)"
    using take_task_found [of "[]" 5 ?x "fib s2" "[]"] run core_fields [OF c2] by (simp add: run_fetch_def)
  from sched_step.fetch [OF _ _ this] core_fields(4) [OF c2] run(1)
  have f: "\<exists>s3. sched_step scheduler_tickle s2 (Taken 5 ?x) s3" by fastforce
  have "sched_step scheduler_tickle ?s1 Quiet s2"
    by (rule sched_step.run [OF _ s2]) (simp add: defs)
  note r2 = sched_run.step [OF r1 this]
  from f obtain s3 where "sched_step scheduler_tickle s2 (Taken 5 ?x) s3" by blast
  from sched_run.step [OF r2 this] show ?thesis by auto
qed

theorem stopping_means_drained_witness:
  "\<exists>s'. sched_run scheduler_tickle idle_sched
     [Scheduled [cb_task (Some 70) any_thread], Quiet, Taken 5 (cb_task (Some 70) any_thread)] s' \<and>
     m_tasks s' = [] \<and> m_activeThreadCount s' = 1"
proof -
  from idle_sched_run obtain s' where s': "sched_run scheduler_tickle idle_sched
     [Scheduled [cb_task (Some 70) any_thread], Quiet, Taken 5 (cb_task (Some 70) any_thread)] s'" by blast
  have "mset (m_tasks s') = {#} \<and> unat (m_activeThreadCount s') = 1"
    using stopping_means_drained [OF s', of s'] by (simp add: idle_sched_def example_sched_def)
  then have "m_tasks s' = [] \<and> m_activeThreadCount s' = 1" by (simp add: word_unat_eq_iff)
  with s' show ?thesis by blast
qed

text \<open>Two rounds of a thread that finds the queue empty, the idle fiber's run between them.\<close>

definition worker_round ::
  "tid \<Rightarrow> nat \<Rightarrow> scheduler \<Rightarrow> scheduler res" where
  "worker_round t idle s =
     bindR (run_fetch scheduler_tickle t s) (\<lambda>s.
     bindR (run_resume t 0 s) (\<lambda>s.
     bindR (main_func_exit t idle (scheduler_idle s)) (\<lambda>s.
     bindR (run_return t s) (\<lambda>s.
     bindR (run_fetch scheduler_tickle t s) (\<lambda>s. run_resume t 0 s)))))"

text \<open>
  A pool thread of the base class does not outlive its first look at an empty queue: the
  idle function returns at once, and the next look ends \<^verbatim>\<open>run\<close>, though nothing is stopping.
\<close>

theorem base_worker_exits:
  assumes "frames s t = Some fr" and "idle_fiber fr = idle" and "m_tasks s = []" and "\<not> s_locked s"
    and "fib s idle = Some x" and "m_state x = FReady" and "m_ctx x = Entry" and "main_of t x s = Inr m"
    and "m \<noteq> idle" and "fib s m = Some y"
  shows "\<exists>s'. worker_round t idle s = Inr s' \<and> m_stopping s' = m_stopping s \<and>
    frames s' t = Some (fr\<lparr>r_task := task_reset, r_pc := RExit\<rparr>) \<and> m_idleThreadCount s' = m_idleThreadCount s"
proof -
  have fetch: "run_fetch scheduler_tickle t s = Inr (s\<lparr>frames := (frames s)(t \<mapsto> fr\<lparr>r_task := task_reset, r_pc := RTask\<rparr>)\<rparr>)"
    if "frames s t = Some fr" "m_tasks s = []" "\<not> s_locked s" for s :: scheduler and fr
    using that by (simp add: run_fetch_def)
  let ?s1 = "s\<lparr>frames := (frames s)(t \<mapsto> fr\<lparr>r_task := task_reset, r_pc := RTask\<rparr>)\<rparr>"
  let ?s2 = "?s1\<lparr>m_idleThreadCount := m_idleThreadCount s + 1,
      frames := (frames ?s1)(t \<mapsto> fr\<lparr>r_task := task_reset, r_pc := RAfterIdle\<rparr>)\<rparr>"
  have m: "main_of t x ?s2 = Inr m" using assms(8) by (simp add: main_of_def split: option.splits if_splits)
  let ?s3 = "?s2\<lparr>fib := (fib ?s2)(idle \<mapsto> x\<lparr>m_state := FRunning\<rparr>, m \<mapsto> y\<lparr>m_ctx := At (on_stack (loc ?s2 t))\<rparr>),
      loc := (loc ?s2)(t := (loc ?s2 t)\<lparr>t_fiber := Some idle, on_stack := FiberStack idle\<rparr>)\<rparr>"
  have "fiber_resume t idle ?s2 = Inr ?s3"
    by (rule fiber_resume_ok [OF _ _ _ m assms(9)]) (use assms in \<open>simp_all add: own_context_def\<close>)
  then have resume: "run_resume t 0 ?s1 = Inr ?s3"
    using assms by (simp add: run_resume_def task_reset_def)
  let ?x = "x\<lparr>m_state := FRunning, fib_cb := None, m_state := FTerm\<rparr>"
  let ?s4 = "upd_fiber idle (\<lambda>x. x\<lparr>fib_cb := None, m_state := FTerm\<rparr>) ?s3"
  have "main_of t ?x ?s4 = Inr m"
    using assms(8) by (simp add: main_of_def upd_fiber_def split: option.splits if_splits)
  from fiber_yield_ok [OF _ _ this assms(9)] assms(5,9,10)
  have yield: "fiber_yield t idle ?s4 = Inr (?s4\<lparr>
    fib := (fib ?s4)(idle \<mapsto> ?x\<lparr>m_ctx := At (FiberStack idle)\<rparr>),
    loc := (loc ?s4)(t := (loc ?s4 t)\<lparr>t_fiber := t_thread_fiber (loc ?s4 t), on_stack := on_stack (loc ?s2 t)\<rparr>)\<rparr>)"
    (is "_ = Inr ?s5") by simp
  define s5 where "s5 = ?s5"
  have exit: "main_func_exit t idle ?s3 = Inr s5"
    using yield assms(9) by (simp add: main_func_exit_def s5_def)
  have five: "m_tasks s5 = []" "\<not> s_locked s5" "m_stopping s5 = m_stopping s" "m_idleThreadCount s5 = m_idleThreadCount s + 1"
    "frames s5 t = Some (fr\<lparr>r_task := task_reset, r_pc := RAfterIdle\<rparr>)" "fib s5 idle = Some (?x\<lparr>m_ctx := At (FiberStack idle)\<rparr>)"
    using assms(3,4) by (simp_all add: s5_def upd_fiber_def)
  define s6 where "s6 = s5\<lparr>m_idleThreadCount := m_idleThreadCount s,
    frames := (frames s5)(t \<mapsto> fr\<lparr>r_task := task_reset, r_pc := RFetch\<rparr>)\<rparr>"
  have home: "run_return t s5 = Inr s6" by (simp add: run_return_def five s6_def)
  define s7 where "s7 = s6\<lparr>frames := (frames s6)(t \<mapsto> fr\<lparr>r_task := task_reset, r_pc := RTask\<rparr>)\<rparr>"
  have again: "run_fetch scheduler_tickle t s6 = Inr s7"
    using fetch [of s6 "fr\<lparr>r_task := task_reset, r_pc := RFetch\<rparr>"] five by (simp add: s6_def s7_def)
  have "run_resume t 0 s7 = Inr (s7\<lparr>frames := (frames s7)(t \<mapsto> fr\<lparr>r_task := task_reset, r_pc := RExit\<rparr>)\<rparr>)"
    by (simp add: run_resume_def s7_def s6_def task_reset_def five assms(2))
  then have "worker_round t idle s = Inr (s7\<lparr>frames := (frames s7)(t \<mapsto> fr\<lparr>r_task := task_reset, r_pc := RExit\<rparr>)\<rparr>)"
    unfolding worker_round_def scheduler_idle_def fetch [OF assms(1,3,4)] bindR_Inr resume exit home again .
  then show ?thesis by (intro exI conjI) (assumption, simp_all add: s7_def s6_def five)
qed

theorem base_worker_exits_witness:
  "\<exists>s'. worker_round 5 2 (example_sched\<lparr>m_tasks := [], fib := fib example_fibers, loc := loc example_fibers,
     frames := [5 \<mapsto> \<lparr>idle_fiber = 2, cb_fiber = None, r_task = task_reset, r_pc = RFetch\<rparr>]\<rparr>) = Inr s' \<and>
     \<not> m_stopping s' \<and> r_pc (the (frames s' 5)) = RExit"
  (is "\<exists>s'. worker_round 5 2 ?s = Inr s' \<and> _")
proof -
  have m: "main_of 5 (the (fib example_fibers 2)) ?s = Inr 3" by (simp add: main_of_def example_fibers_simps)
  have "\<exists>s'. worker_round 5 2 ?s = Inr s' \<and> m_stopping s' = m_stopping ?s \<and>
      frames s' 5 = Some ((the (frames ?s 5))\<lparr>r_task := task_reset, r_pc := RExit\<rparr>) \<and>
      m_idleThreadCount s' = m_idleThreadCount ?s"
    by (rule base_worker_exits [OF _ _ _ _ _ _ _ m, where y = "the (fib example_fibers 3)"])
      (simp_all add: example_sched_def example_fibers_simps)
  then show ?thesis by (auto simp: example_sched_def)
qed

end
