(* ===== verification/Timers.thy ===== *)
theory Timers
  imports Prelude "HOL-Library.Product_Lexorder"
begin

text \<open>
  \<^verbatim>\<open>Coroutine/version2/Timer.cpp\<close>: timers and their manager. A timer is an object at an
  address; the \<^verbatim>\<open>std::set\<close> the manager keeps is the list of addresses in its order, which is that
  of the comparator: by time, then by address. Times are unsigned 64-bit milliseconds and wrap. The
  clock's value and the address of a new object are arguments; every operation holds the manager's
  lock and is one step.
\<close>

section \<open>The code\<close>

text \<open>
  A callback is a function of the program or the one \<^verbatim>\<open>std::bind\<close> makes of \<^verbatim>\<open>OnTimer\<close>, a
  weak pointer and a function; an empty \<^verbatim>\<open>std::function\<close> is \<open>None\<close>.
\<close>

datatype timer_cb = Plain nat | OnTimer nat "nat option"

record timer =
  m_recurring :: bool
  m_ms :: "64 word"
  m_next :: "64 word"
  m_cb :: "timer_cb option"

text \<open>\<open>at_front\<close> counts the calls of the virtual \<^verbatim>\<open>onTimerInsertedAtFront\<close>.\<close>

record timer_manager =
  tm_heap :: "nat \<Rightarrow> timer option"
  m_timers :: "nat list"
  m_tickled :: bool
  m_previouseTime :: "64 word"
  at_front :: nat

text \<open>What the comparator compares; \<open>timer_less\<close> is the comparator on pointers.\<close>

definition timer_key :: "(nat \<Rightarrow> timer option) \<Rightarrow> nat \<Rightarrow> 64 word \<times> nat" where
  "timer_key h t = (m_next (the (h t)), t)"

definition timer_less :: "(nat \<Rightarrow> timer option) \<Rightarrow> nat option \<Rightarrow> nat option \<Rightarrow> bool" where
  "timer_less h lhs rhs =
     (case (lhs, rhs) of
        (None, None) \<Rightarrow> False
      | (None, Some _) \<Rightarrow> True
      | (Some _, None) \<Rightarrow> False
      | (Some a, Some b) \<Rightarrow>
          if m_next (the (h a)) < m_next (the (h b)) then True
          else if m_next (the (h b)) < m_next (the (h a)) then False
          else a < b)"

text \<open>The operations of the set: insertion of a new pointer, erasing at an iterator found.\<close>

definition set_insert :: "(nat \<Rightarrow> timer option) \<Rightarrow> nat \<Rightarrow> nat list \<Rightarrow> nat list" where
  "set_insert h t ts = (if t \<in> set ts then ts else insort_key (timer_key h) t ts)"

definition timerManagerInit :: "64 word \<Rightarrow> timer_manager" where
  "timerManagerInit now = \<lparr>tm_heap = Map.empty, m_timers = [], m_tickled = False, m_previouseTime = now, at_front = 0\<rparr>"

definition new_timer :: "64 word \<Rightarrow> 64 word \<Rightarrow> timer_cb option \<Rightarrow> bool \<Rightarrow> timer" where
  "new_timer now ms cb recurring = \<lparr>m_recurring = recurring, m_ms = ms, m_next = now + ms, m_cb = cb\<rparr>"

text \<open>The protected \<^verbatim>\<open>addTimer(val, lock)\<close>.\<close>

definition insertTimer :: "nat \<Rightarrow> timer_manager \<Rightarrow> timer_manager" where
  "insertTimer t m =
     (let ts = set_insert (tm_heap m) t (m_timers m);
          front = (hd ts = t) \<and> \<not> m_tickled m in
      m\<lparr>m_timers := ts, m_tickled := m_tickled m \<or> front,
        at_front := at_front m + (if front then 1 else 0)\<rparr>)"

definition addTimer ::
  "nat \<Rightarrow> 64 word \<Rightarrow> 64 word \<Rightarrow> timer_cb option \<Rightarrow> bool \<Rightarrow> timer_manager \<Rightarrow> nat \<times> timer_manager" where
  "addTimer t now ms cb recurring m =
     (t, insertTimer t (m\<lparr>tm_heap := (tm_heap m)(t \<mapsto> new_timer now ms cb recurring)\<rparr>))"

definition addConditionTimer ::
  "nat \<Rightarrow> 64 word \<Rightarrow> 64 word \<Rightarrow> nat option \<Rightarrow> nat \<Rightarrow> bool \<Rightarrow> timer_manager \<Rightarrow> nat \<times> timer_manager" where
  "addConditionTimer t now ms cb weak_cond recurring m =
     addTimer t now ms (Some (OnTimer weak_cond cb)) recurring m"

text \<open>
  Calling a callback, \<open>alive\<close> telling which objects still exist: the functions called. Calling an
  empty function throws.
\<close>

definition run_cb :: "(nat \<Rightarrow> bool) \<Rightarrow> timer_cb option \<Rightarrow> nat list res" where
  "run_cb alive cb =
     (case cb of
        None \<Rightarrow> Inl NullDeref
      | Some (Plain f) \<Rightarrow> Inr [f]
      | Some (OnTimer c f) \<Rightarrow>
          if alive c then (case f of None \<Rightarrow> Inl NullDeref | Some f \<Rightarrow> Inr [f]) else Inr [])"

definition timer_cancel :: "nat \<Rightarrow> timer_manager \<Rightarrow> (bool \<times> timer_manager) res" where
  "timer_cancel t m =
     (case tm_heap m t of
        None \<Rightarrow> Inl UseAfterFree
      | Some x \<Rightarrow>
          if m_cb x \<noteq> None then
            (if t \<in> set (m_timers m) then
               Inr (True, m\<lparr>tm_heap := (tm_heap m)(t \<mapsto> x\<lparr>m_cb := None\<rparr>), m_timers := remove1 t (m_timers m)\<rparr>)
             else Inl OutOfBounds)
          else Inr (False, m))"

definition timer_refresh :: "64 word \<Rightarrow> nat \<Rightarrow> timer_manager \<Rightarrow> (bool \<times> timer_manager) res" where
  "timer_refresh now t m =
     (case tm_heap m t of
        None \<Rightarrow> Inl UseAfterFree
      | Some x \<Rightarrow>
          if m_cb x = None then Inr (False, m)
          else if t \<notin> set (m_timers m) then Inr (False, m)
          else
            (let h = (tm_heap m)(t \<mapsto> x\<lparr>m_next := now + m_ms x\<rparr>) in
             Inr (True, m\<lparr>tm_heap := h, m_timers := set_insert h t (remove1 t (m_timers m))\<rparr>)))"

definition timer_reset :: "64 word \<Rightarrow> nat \<Rightarrow> 64 word \<Rightarrow> bool \<Rightarrow> timer_manager \<Rightarrow> (bool \<times> timer_manager) res" where
  "timer_reset now t ms from_now m =
     (case tm_heap m t of
        None \<Rightarrow> Inl UseAfterFree
      | Some x \<Rightarrow>
          if ms = m_ms x \<and> \<not> from_now then Inr (True, m)
          else if m_cb x = None then Inr (False, m)
          else if t \<notin> set (m_timers m) then Inr (False, m)
          else
            (let start = (if from_now then now else m_next x - m_ms x) in
             Inr (True, insertTimer t
               (m\<lparr>tm_heap := (tm_heap m)(t \<mapsto> x\<lparr>m_ms := ms, m_next := start + ms\<rparr>),
                  m_timers := remove1 t (m_timers m)\<rparr>))))"

text \<open>\<open>~0ull\<close> when there is no timer.\<close>

definition getNextTimer :: "64 word \<Rightarrow> timer_manager \<Rightarrow> 64 word \<times> timer_manager" where
  "getNextTimer now m =
     (let m = m\<lparr>m_tickled := False\<rparr> in
      case m_timers m of
        [] \<Rightarrow> (- 1, m)
      | t # _ \<Rightarrow>
          (let next = m_next (the (tm_heap m t)) in
           if next \<le> now then (0, m) else (next - now, m)))"

definition detectClockRollover :: "64 word \<Rightarrow> timer_manager \<Rightarrow> bool \<times> timer_manager" where
  "detectClockRollover now m =
     (now < m_previouseTime m \<and> now < m_previouseTime m - 60 * 60 * 1000, m\<lparr>m_previouseTime := now\<rparr>)"

text \<open>
  The loop over the expired timers: their callbacks, and the manager with the recurring ones back
  in. A timer found through the set whose object is gone cannot occur: the set owns its timers.
\<close>

fun expire_loop :: "64 word \<Rightarrow> nat list \<Rightarrow> timer_manager \<Rightarrow> (timer_cb option list \<times> timer_manager) res" where
  "expire_loop now [] m = Inr ([], m)"
| "expire_loop now (t # ts) m =
     (case tm_heap m t of
        None \<Rightarrow> Inl UseAfterFree
      | Some x \<Rightarrow>
          (let m' = (if m_recurring x then
                      (let h = (tm_heap m)(t \<mapsto> x\<lparr>m_next := now + m_ms x\<rparr>) in
                       m\<lparr>tm_heap := h, m_timers := set_insert h t (m_timers m)\<rparr>)
                    else m\<lparr>tm_heap := (tm_heap m)(t \<mapsto> x\<lparr>m_cb := None\<rparr>)\<rparr>) in
           bindR (expire_loop now ts m') (\<lambda>(cbs, m). Inr (m_cb x # cbs, m))))"

text \<open>
  \<open>tmp\<close>: the address of \<^verbatim>\<open>now_timer\<close>, which \<^verbatim>\<open>lower_bound\<close> is given; the loop behind it steps
  over the timers due at this very millisecond.
\<close>

definition listExpiredCb :: "nat \<Rightarrow> 64 word \<Rightarrow> timer_manager \<Rightarrow> (timer_cb option list \<times> timer_manager) res" where
  "listExpiredCb tmp now m =
     (case m_timers m of
        [] \<Rightarrow> Inr ([], m)
      | first # _ \<Rightarrow>
          (let (rollover, m) = detectClockRollover now m in
           if \<not> rollover \<and> now < m_next (the (tm_heap m first)) then Inr ([], m)
           else
             (let h = (tm_heap m)(tmp \<mapsto> \<lparr>m_recurring = False, m_ms = 0, m_next = now, m_cb = None\<rparr>);
                  before = (if rollover then m_timers m
                            else takeWhile (\<lambda>t. timer_less h (Some t) (Some tmp)) (m_timers m));
                  rest = drop (length before) (m_timers m);
                  expired = before @ takeWhile (\<lambda>t. m_next (the (tm_heap m t)) = now) rest in
              expire_loop now expired (m\<lparr>m_timers := drop (length expired) (m_timers m)\<rparr>))))"

definition hasTimer :: "timer_manager \<Rightarrow> bool" where
  "hasTimer m \<longleftrightarrow> m_timers m \<noteq> []"

section \<open>The invariant\<close>

text \<open>
  The list is in the order of the comparator, without duplicates, and its timers exist; a timer that
  still has its callback is in it.
\<close>

definition timers_inv :: "timer_manager \<Rightarrow> bool" where
  "timers_inv m \<longleftrightarrow> sorted (map (timer_key (tm_heap m)) (m_timers m)) \<and> distinct (m_timers m) \<and>
     (\<forall>t \<in> set (m_timers m). tm_heap m t \<noteq> None) \<and>
     (\<forall>t x. tm_heap m t = Some x \<longrightarrow> m_cb x \<noteq> None \<longrightarrow> t \<in> set (m_timers m))"

lemma timer_less_key: "timer_less h (Some a) (Some b) \<longleftrightarrow> timer_key h a < timer_key h b"
  by (auto simp: timer_less_def timer_key_def less_prod_def)

lemma timer_key_cong:
  "t \<notin> set ts \<Longrightarrow> map (timer_key (h(t := x))) ts = map (timer_key h) ts"
  by (induction ts) (simp_all add: timer_key_def)

lemma insort_key_cong:
  "t \<notin> set ts \<Longrightarrow> sorted (map (timer_key h) ts) \<Longrightarrow>
   sorted (map (timer_key (h(t := x))) (insort_key (timer_key (h(t := x))) t ts))"
  by (simp add: sorted_insort_key timer_key_cong)

lemma timers_inv_init: "timers_inv (timerManagerInit now)"
  by (simp add: timers_inv_def timerManagerInit_def)

text \<open>Putting a timer in with any time, when it is not in the list.\<close>

lemma timers_inv_insert:
  assumes "timers_inv m" and "t \<notin> set (m_timers m)"
  shows "timers_inv (m\<lparr>tm_heap := (tm_heap m)(t \<mapsto> x),
    m_timers := set_insert ((tm_heap m)(t \<mapsto> x)) t (m_timers m)\<rparr>)"
  using assms
  by (auto simp: timers_inv_def set_insert_def insort_key_cong set_insort_key distinct_insort)

lemma timers_inv_remove:
  assumes "timers_inv m" and "m_cb x = None"
  shows "timers_inv (m\<lparr>tm_heap := (tm_heap m)(t \<mapsto> x), m_timers := remove1 t (m_timers m)\<rparr>)"
  using assms
  by (auto simp: timers_inv_def timer_key_cong sorted_map_remove1)

lemma timers_inv_ext:
  "timers_inv m \<Longrightarrow> tm_heap m' = tm_heap m \<Longrightarrow> m_timers m' = m_timers m \<Longrightarrow> timers_inv m'"
  by (simp add: timers_inv_def)

lemma insertTimer_eq:
  "tm_heap (insertTimer t m) = tm_heap m" "m_timers (insertTimer t m) = set_insert (tm_heap m) t (m_timers m)"
  by (simp_all add: insertTimer_def Let_def)

section \<open>Every operation keeps the invariant\<close>

text \<open>The head of the list is a least timer; the due timers are a prefix of it.\<close>

lemma timer_key_time: "timer_key h a \<le> timer_key h b \<Longrightarrow> m_next (the (h a)) \<le> m_next (the (h b))"
  by (auto simp: timer_key_def)

lemma timers_inv_times:
  assumes "timers_inv m"
  shows "sorted (map (\<lambda>t. m_next (the (tm_heap m t))) (m_timers m))"
proof -
  have "sorted_wrt (\<lambda>a b. timer_key (tm_heap m) a \<le> timer_key (tm_heap m) b) (m_timers m)"
    using assms by (simp add: timers_inv_def sorted_wrt_map)
  then show ?thesis
    unfolding sorted_wrt_map by (rule sorted_wrt_mono_rel [rotated]) (rule timer_key_time)
qed

lemma insertTimer_known:
  assumes "timers_inv m" and "t \<in> set (m_timers m)"
  shows "timers_inv (insertTimer t (m\<lparr>tm_heap := (tm_heap m)(t \<mapsto> x), m_timers := remove1 t (m_timers m)\<rparr>))"
    and "timers_inv (m\<lparr>tm_heap := (tm_heap m)(t \<mapsto> x),
      m_timers := set_insert ((tm_heap m)(t \<mapsto> x)) t (remove1 t (m_timers m))\<rparr>)"
proof -
  have "t \<notin> set (remove1 t (m_timers m))" and "distinct (m_timers m)"
    using assms by (simp_all add: timers_inv_def)
  with assms show *: "timers_inv (m\<lparr>tm_heap := (tm_heap m)(t \<mapsto> x),
      m_timers := set_insert ((tm_heap m)(t \<mapsto> x)) t (remove1 t (m_timers m))\<rparr>)"
    by (auto simp: timers_inv_def set_insert_def insort_key_cong set_insort_key distinct_insort sorted_map_remove1)
  show "timers_inv (insertTimer t (m\<lparr>tm_heap := (tm_heap m)(t \<mapsto> x), m_timers := remove1 t (m_timers m)\<rparr>))"
    by (rule timers_inv_ext [OF *]) (simp_all add: insertTimer_eq)
qed

lemma addTimer_inv:
  assumes "timers_inv m" and "tm_heap m t = None"
  shows "timers_inv (snd (addTimer t now ms cb recurring m))"
proof -
  have "t \<notin> set (m_timers m)" using assms by (auto simp: timers_inv_def)
  from timers_inv_insert [OF assms(1) this, of "new_timer now ms cb recurring"] show ?thesis
    by (rule timers_inv_ext) (simp_all add: addTimer_def insertTimer_eq)
qed

lemma cancel_inv: "timers_inv m \<Longrightarrow> timer_cancel t m = Inr (b, m') \<Longrightarrow> timers_inv m'"
  by (auto simp: timer_cancel_def timers_inv_remove split: option.splits if_splits)

lemma refresh_inv: "timers_inv m \<Longrightarrow> timer_refresh now t m = Inr (b, m') \<Longrightarrow> timers_inv m'"
  by (auto simp: timer_refresh_def Let_def insertTimer_known split: option.splits if_splits)

lemma reset_inv: "timers_inv m \<Longrightarrow> timer_reset now t ms fn m = Inr (b, m') \<Longrightarrow> timers_inv m'"
  by (auto simp: timer_reset_def Let_def insertTimer_known split: option.splits if_splits)

lemma getNextTimer_state: "snd (getNextTimer now m) = m\<lparr>m_tickled := False\<rparr>"
  by (simp add: getNextTimer_def Let_def split: list.splits)

section \<open>The expired timers\<close>

text \<open>
  The loop over the expired timers: they are out of the list and exist, and every timer of the heap
  that has a callback is in the list or among them.
\<close>

definition expiring :: "nat list \<Rightarrow> timer_manager \<Rightarrow> bool" where
  "expiring es m \<longleftrightarrow> sorted (map (timer_key (tm_heap m)) (m_timers m)) \<and> distinct (m_timers m @ es) \<and>
     (\<forall>t \<in> set (m_timers m @ es). tm_heap m t \<noteq> None) \<and>
     (\<forall>t x. tm_heap m t = Some x \<longrightarrow> m_cb x \<noteq> None \<longrightarrow> t \<in> set (m_timers m @ es))"

definition expired_timer :: "64 word \<Rightarrow> timer \<Rightarrow> timer" where
  "expired_timer now x = (if m_recurring x then x\<lparr>m_next := now + m_ms x\<rparr> else x\<lparr>m_cb := None\<rparr>)"

text \<open>One round of the loop.\<close>

definition expire_one :: "64 word \<Rightarrow> nat \<Rightarrow> timer \<Rightarrow> timer_manager \<Rightarrow> timer_manager" where
  "expire_one now t x m =
     (let h = (tm_heap m)(t \<mapsto> expired_timer now x) in
      m\<lparr>tm_heap := h, m_timers := (if m_recurring x then set_insert h t (m_timers m) else m_timers m)\<rparr>)"

lemma expire_loop_Cons:
  "tm_heap m t = Some x \<Longrightarrow> expire_loop now (t # ts) m =
     bindR (expire_loop now ts (expire_one now t x m)) (\<lambda>(cbs, m). Inr (m_cb x # cbs, m))"
  by (simp add: expire_one_def expired_timer_def Let_def)

lemma expire_one_simps [simp]:
  "tm_heap (expire_one now t x m) = (tm_heap m)(t \<mapsto> expired_timer now x)"
  "set (m_timers (expire_one now t x m)) = set (m_timers m) \<union> (if m_recurring x then {t} else {})"
  "m_tickled (expire_one now t x m) = m_tickled m"
  "at_front (expire_one now t x m) = at_front m"
  "m_previouseTime (expire_one now t x m) = m_previouseTime m"
  by (auto simp: expire_one_def Let_def set_insert_def set_insort_key)

lemma expire_one_inv:
  assumes "expiring (t # ts) m" and "tm_heap m t = Some x"
  shows "expiring ts (expire_one now t x m)"
proof -
  have t: "t \<notin> set (m_timers m)" "t \<notin> set ts" using assms(1) by (auto simp: expiring_def)
  have cb: "m_cb (expired_timer now x) \<noteq> None \<Longrightarrow> m_recurring x"
    by (simp add: expired_timer_def split: if_splits)
  have m: "sorted (map (timer_key (tm_heap m)) (m_timers m))" "distinct (m_timers m @ ts)"
    "\<And>u. u \<in> set (m_timers m) \<union> set ts \<Longrightarrow> \<exists>y. tm_heap m u = Some y"
    using assms(1) by (auto simp: expiring_def)
  have m4: "u \<in> set (m_timers m) \<union> set ts" if "tm_heap m u = Some y" "m_cb y \<noteq> None" "u \<noteq> t" for u y
  proof -
    have "u \<in> set (m_timers m @ t # ts)" using assms(1) that unfolding expiring_def by blast
    with that show ?thesis by simp
  qed
  let ?m = "expire_one now t x m"
  have "sorted (map (timer_key (tm_heap ?m)) (m_timers ?m)) \<and> distinct (m_timers ?m @ ts)"
    using t m(1,2)
    by (auto simp: expire_one_def Let_def set_insert_def insort_key_cong set_insort_key
        distinct_insort timer_key_cong)
  moreover have "tm_heap ?m u \<noteq> None" if "u \<in> set (m_timers ?m @ ts)" for u
    using that m(3) [of u] by (auto split: if_splits)
  moreover have "u \<in> set (m_timers ?m @ ts)" if "tm_heap ?m u = Some y" "m_cb y \<noteq> None" for u y
    using that m4 [of u y] cb by (auto split: if_splits)
  ultimately show ?thesis unfolding expiring_def by blast
qed

lemma expire_loop_correct:
  assumes "expiring es m"
  shows "\<exists>m'. expire_loop now es m = Inr (map (\<lambda>t. m_cb (the (tm_heap m t))) es, m') \<and> timers_inv m' \<and>
    set (m_timers m') = set (m_timers m) \<union> {t \<in> set es. m_recurring (the (tm_heap m t))} \<and>
    (\<forall>t. tm_heap m' t = (if t \<in> set es then map_option (expired_timer now) (tm_heap m t) else tm_heap m t)) \<and>
    m_tickled m' = m_tickled m \<and> at_front m' = at_front m \<and> m_previouseTime m' = m_previouseTime m"
  using assms
proof (induction es arbitrary: m)
  case Nil
  then show ?case by (simp add: expiring_def timers_inv_def)
next
  case (Cons t ts)
  then obtain x where x: "tm_heap m t = Some x" by (auto simp: expiring_def)
  have t: "t \<notin> set ts" using Cons.prems by (simp add: expiring_def)
  let ?m = "expire_one now t x m"
  from Cons.IH [OF expire_one_inv [OF Cons.prems x]] obtain m' where
    m': "expire_loop now ts ?m = Inr (map (\<lambda>t. m_cb (the (tm_heap ?m t))) ts, m')" "timers_inv m'"
      "set (m_timers m') = set (m_timers ?m) \<union> {t \<in> set ts. m_recurring (the (tm_heap ?m t))}"
      "\<forall>t. tm_heap m' t = (if t \<in> set ts then map_option (expired_timer now) (tm_heap ?m t) else tm_heap ?m t)"
      "m_tickled m' = m_tickled ?m" "at_front m' = at_front ?m" "m_previouseTime m' = m_previouseTime ?m"
    by blast
  have cbs: "map (\<lambda>t. m_cb (the (tm_heap ?m t))) ts = map (\<lambda>t. m_cb (the (tm_heap m t))) ts"
    using t by (auto intro: map_cong)
  have rs: "{u \<in> set ts. m_recurring (the (tm_heap ?m u))} = {u \<in> set ts. m_recurring (the (tm_heap m u))}"
    using t by auto
  show ?case
    by (rule exI [of _ m'])
      (use m' cbs rs t x in \<open>auto simp: expire_loop_Cons simp del: expire_loop.simps\<close>)
qed

text \<open>What \<^verbatim>\<open>lower_bound\<close> and the loop behind it select: a prefix of a list in order.\<close>

lemma takeWhile_below:
  fixes f :: "'a \<Rightarrow> 'b::linorder"
  assumes "sorted (map f xs)"
  shows "takeWhile (\<lambda>x. f x \<le> c) xs = filter (\<lambda>x. f x \<le> c) xs"
    and "dropWhile (\<lambda>x. f x \<le> c) xs = filter (\<lambda>x. \<not> f x \<le> c) xs"
proof -
  have none: "filter (\<lambda>x. f x \<le> c) ys = [] \<and> filter (\<lambda>x. \<not> f x \<le> c) ys = ys"
    if "\<forall>y \<in> set ys. f x \<le> f y" "\<not> f x \<le> c" for x ys
    using that by (force simp: filter_empty_conv filter_id_conv)
  show "takeWhile (\<lambda>x. f x \<le> c) xs = filter (\<lambda>x. f x \<le> c) xs"
    using assms by (induction xs) (use none in auto)
  show "dropWhile (\<lambda>x. f x \<le> c) xs = filter (\<lambda>x. \<not> f x \<le> c) xs"
    using assms by (induction xs) (use none in auto)
qed

lemma lower_bound_then_equal:
  fixes f :: "'a \<Rightarrow> 'b::linorder"
  assumes "sorted (map f xs)"
    and "\<And>x. x \<in> set xs \<Longrightarrow> Q x \<Longrightarrow> f x \<le> c" and "\<And>x. x \<in> set xs \<Longrightarrow> \<not> Q x \<Longrightarrow> c \<le> f x"
  shows "takeWhile Q xs @ takeWhile (\<lambda>x. f x = c) (drop (length (takeWhile Q xs)) xs) =
    filter (\<lambda>x. f x \<le> c) xs"
  using assms
proof (induction xs)
  case (Cons x xs)
  show ?case
  proof (cases "Q x")
    case True
    with Cons show ?thesis by simp
  next
    case False
    then have "c \<le> f y" if "y \<in> set (x # xs)" for y
      using Cons.prems(1) Cons.prems(3) [of x] that by fastforce
    then have "takeWhile (\<lambda>x. f x = c) (x # xs) = takeWhile (\<lambda>x. f x \<le> c) (x # xs)"
      by (intro takeWhile_cong) (auto intro: antisym)
    also have "\<dots> = filter (\<lambda>x. f x \<le> c) (x # xs)" by (rule takeWhile_below) (rule Cons.prems)
    finally show ?thesis using False by simp
  qed
qed simp

lemma drop_due:
  fixes f :: "'a \<Rightarrow> 'b::linorder"
  assumes "sorted (map f xs)"
  shows "drop (length (filter (\<lambda>x. f x \<le> c) xs)) xs = filter (\<lambda>x. \<not> f x \<le> c) xs"
proof -
  have "drop (length (filter (\<lambda>x. f x \<le> c) xs)) xs = dropWhile (\<lambda>x. f x \<le> c) xs"
    unfolding dropWhile_eq_drop takeWhile_below(1) [OF assms] ..
  then show ?thesis by (simp add: takeWhile_below(2) [OF assms])
qed

text \<open>The timers due at a time; every one of them after a jump of the clock.\<close>

definition due :: "bool \<Rightarrow> 64 word \<Rightarrow> timer \<Rightarrow> bool" where
  "due rollover now x \<longleftrightarrow> rollover \<or> m_next x \<le> now"

lemma expiring_split:
  assumes "timers_inv m"
  shows "expiring (filter P (m_timers m)) (m\<lparr>m_timers := filter (\<lambda>t. \<not> P t) (m_timers m)\<rparr>)"
  using assms unfolding timers_inv_def expiring_def
  by (auto simp: sorted_wrt_filter sorted_wrt_map)

lemma listExpiredCb_selects:
  fixes now :: "64 word"
  assumes "timers_inv m" and "tm_heap m tmp = None"
  defines "d \<equiv> \<lambda>t. due (fst (detectClockRollover now m)) now (the (tm_heap m t))"
  defines "m1 \<equiv> (if m_timers m = [] then m else m\<lparr>m_previouseTime := now\<rparr>)"
  shows "listExpiredCb tmp now m =
    expire_loop now (filter d (m_timers m)) (m1\<lparr>m_timers := filter (\<lambda>t. \<not> d t) (m_timers m)\<rparr>)"
proof (cases "m_timers m")
  case Nil
  then show ?thesis by (simp add: listExpiredCb_def m1_def)
next
  case (Cons first ts)
  define roll where "roll = fst (detectClockRollover now m)"
  have det: "detectClockRollover now m = (roll, m\<lparr>m_previouseTime := now\<rparr>)"
    by (simp add: roll_def detectClockRollover_def)
  let ?f = "\<lambda>t. m_next (the (tm_heap m t))"
  have sorted: "sorted (map ?f (m_timers m))" by (rule timers_inv_times) fact
  have m1: "m1 = m\<lparr>m_previouseTime := now\<rparr>" using Cons by (simp add: m1_def)
  show ?thesis
  proof (cases roll)
    case True
    then have "d = (\<lambda>t. True)" by (simp add: d_def due_def roll_def)
    with True show ?thesis by (simp add: listExpiredCb_def Cons det m1)
  next
    case False
    then have d: "d = (\<lambda>t. ?f t \<le> now)" by (simp add: d_def due_def roll_def)
    show ?thesis
    proof (cases "now < ?f first")
      case True
      then have "now < ?f t" if "t \<in> set (m_timers m)" for t
        using sorted that unfolding Cons by auto
      then have "filter d (m_timers m) = []" "filter (\<lambda>t. \<not> d t) (m_timers m) = m_timers m"
        by (auto simp: d filter_empty_conv filter_id_conv not_le)
      with True False show ?thesis by (simp add: listExpiredCb_def Cons det m1)
    next
      case early: False
      let ?h = "(tm_heap m)(tmp \<mapsto> \<lparr>m_recurring = False, m_ms = 0, m_next = now, m_cb = None\<rparr>)"
      let ?Q = "\<lambda>t. timer_less ?h (Some t) (Some tmp)"
      have "t \<noteq> tmp" if "t \<in> set (m_timers m)" for t
        using assms(1,2) that by (auto simp: timers_inv_def)
      then have Q: "?Q t \<Longrightarrow> ?f t \<le> now" "\<not> ?Q t \<Longrightarrow> now \<le> ?f t" if "t \<in> set (m_timers m)" for t
        using that by (auto simp: timer_less_def split: if_splits)
      have sel: "takeWhile ?Q (m_timers m) @ takeWhile (\<lambda>t. ?f t = now) (drop (length (takeWhile ?Q (m_timers m))) (m_timers m)) =
          filter d (m_timers m)"
        unfolding d by (rule lower_bound_then_equal [OF sorted]) (use Q in auto)
      have rest: "drop (length (filter d (m_timers m))) (m_timers m) = filter (\<lambda>t. \<not> d t) (m_timers m)"
        unfolding d by (rule drop_due [OF sorted])
      have "listExpiredCb tmp now m = expire_loop now (filter d (m_timers m))
          (m\<lparr>m_previouseTime := now, m_timers := drop (length (filter d (m_timers m))) (m_timers m)\<rparr>)"
        using False early unfolding sel [symmetric]
        by (simp add: listExpiredCb_def det Cons Let_def del: takeWhile.simps)
      then show ?thesis by (simp add: rest m1)
    qed
  qed
qed

text \<open>What a call of \<^verbatim>\<open>listExpiredCb\<close> does to a manager that is in order.\<close>

lemma listExpiredCb_outcome:
  fixes now :: "64 word"
  assumes "timers_inv m" and "tm_heap m tmp = None"
  defines "d \<equiv> \<lambda>x. due (fst (detectClockRollover now m)) now x"
  shows "\<exists>m'. listExpiredCb tmp now m =
      Inr (map (\<lambda>t. m_cb (the (tm_heap m t))) (filter (\<lambda>t. d (the (tm_heap m t))) (m_timers m)), m') \<and>
    timers_inv m' \<and>
    set (m_timers m') = {t \<in> set (m_timers m). d (the (tm_heap m t)) \<longrightarrow> m_recurring (the (tm_heap m t))} \<and>
    (\<forall>t. tm_heap m' t =
      (if t \<in> set (m_timers m) \<and> d (the (tm_heap m t)) then map_option (expired_timer now) (tm_heap m t)
       else tm_heap m t))"
proof -
  let ?d = "\<lambda>t. d (the (tm_heap m t))"
  let ?m1 = "(if m_timers m = [] then m else m\<lparr>m_previouseTime := now\<rparr>)\<lparr>m_timers := filter (\<lambda>t. \<not> ?d t) (m_timers m)\<rparr>"
  have heap: "tm_heap ?m1 = tm_heap m" "m_timers ?m1 = filter (\<lambda>t. \<not> ?d t) (m_timers m)" by simp_all
  have "expiring (filter ?d (m_timers m)) ?m1"
    using expiring_split [OF assms(1), of ?d] unfolding expiring_def heap by simp
  from expire_loop_correct [OF this, of now] show ?thesis
    unfolding listExpiredCb_selects [OF assms(1,2), of now] d_def [symmetric] heap
    by (elim ex_forward) auto
qed

section \<open>Runs of the manager\<close>

text \<open>
  The calls a program makes of a manager and its timers, in any order, at any times of the clock. A
  new object gets an address no object of the run had: one that is reused belongs to an object
  nobody can reach.
\<close>

inductive tstep :: "timer_manager \<Rightarrow> timer_manager \<Rightarrow> bool" where
  add: "tm_heap m t = None \<Longrightarrow> tstep m (snd (addTimer t now ms cb recurring m))"
| add_condition: "tm_heap m t = None \<Longrightarrow> tstep m (snd (addConditionTimer t now ms f c recurring m))"
| cancel: "timer_cancel t m = Inr (b, m') \<Longrightarrow> tstep m m'"
| refresh: "timer_refresh now t m = Inr (b, m') \<Longrightarrow> tstep m m'"
| reset: "timer_reset now t ms from_now m = Inr (b, m') \<Longrightarrow> tstep m m'"
| next_timer: "tstep m (snd (getNextTimer now m))"
| expire: "tm_heap m tmp = None \<Longrightarrow> listExpiredCb tmp now m = Inr (cbs, m') \<Longrightarrow> tstep m m'"

inductive_cases tstepE: "tstep m m'"

lemma expire_inv:
  assumes "timers_inv m" and "tm_heap m tmp = None" and "listExpiredCb tmp now m = Inr (cbs, m')"
  shows "timers_inv m'"
  using listExpiredCb_outcome [OF assms(1,2), of now] assms(3) by auto

lemma tstep_inv: "tstep m m' \<Longrightarrow> timers_inv m \<Longrightarrow> timers_inv m'"
  by (erule tstepE)
    (auto simp: addConditionTimer_def getNextTimer_state
      intro: addTimer_inv cancel_inv refresh_inv reset_inv expire_inv timers_inv_ext)

lemma tsteps_inv: "tstep\<^sup>*\<^sup>* m m' \<Longrightarrow> timers_inv m \<Longrightarrow> timers_inv m'"
  by (induction rule: rtranclp_induct) (auto intro: tstep_inv)

text \<open>A timer that was cancelled, or that has expired and does not recur.\<close>

definition dead :: "nat \<Rightarrow> timer_manager \<Rightarrow> bool" where
  "dead t m \<longleftrightarrow> t \<notin> set (m_timers m) \<and> (\<exists>x. tm_heap m t = Some x \<and> m_cb x = None)"

lemma set_set_insert [simp]: "set (set_insert h t ts) = insert t (set ts)"
  by (auto simp: set_insert_def set_insort_key)

lemma expire_dead:
  assumes "timers_inv m" and "tm_heap m tmp = None" and "listExpiredCb tmp now m = Inr (cbs, m')" and "dead t m"
  shows "dead t m'"
  using listExpiredCb_outcome [OF assms(1,2), of now] assms(3,4) by (auto simp: dead_def)

lemma tstep_dead: "tstep m m' \<Longrightarrow> timers_inv m \<Longrightarrow> dead t m \<Longrightarrow> dead t m'"
  by (erule tstepE)
    (auto simp: dead_def addConditionTimer_def addTimer_def insertTimer_eq getNextTimer_state
      timer_cancel_def timer_refresh_def timer_reset_def Let_def
      dest: notin_set_remove1 expire_dead [unfolded dead_def] split: option.splits if_splits)

lemma tsteps_dead: "tstep\<^sup>*\<^sup>* m m' \<Longrightarrow> timers_inv m \<Longrightarrow> dead t m \<Longrightarrow> dead t m'"
  by (induction rule: rtranclp_induct) (auto intro: tstep_dead tsteps_inv)

section \<open>Properties\<close>

text \<open>
  C13. In every run of a manager the list is in the order of the comparator, without
  duplicates, and holds every timer that still has its callback; so \<^verbatim>\<open>cancel\<close> finds the timer
  it erases, and \<^verbatim>\<open>listExpiredCb\<close> goes through.
\<close>

theorem timers_stay_consistent:
  assumes "tstep\<^sup>*\<^sup>* (timerManagerInit start) m"
  shows "timers_inv m \<and> (tm_heap m t \<noteq> None \<longrightarrow> (\<exists>r. timer_cancel t m = Inr r)) \<and>
    (tm_heap m tmp = None \<longrightarrow> (\<exists>r. listExpiredCb tmp now m = Inr r))"
proof (intro conjI impI)
  show inv: "timers_inv m" using assms timers_inv_init by (rule tsteps_inv)
  then show "\<exists>r. timer_cancel t m = Inr r" if "tm_heap m t \<noteq> None"
    using that by (auto simp: timers_inv_def timer_cancel_def split: option.splits)
  show "\<exists>r. listExpiredCb tmp now m = Inr r" if "tm_heap m tmp = None"
    using listExpiredCb_outcome [OF inv that, of now] by auto
qed

text \<open>Two timers, the second earlier, and a third at the same millisecond.\<close>

definition example_timers :: timer_manager where
  "example_timers =
     snd (addTimer 3 1000 50 (Some (Plain 9)) True
       (snd (addConditionTimer 2 1000 50 (Some 8) 77 False
         (snd (addTimer 1 1000 500 (Some (Plain 7)) False (timerManagerInit 1000))))))"

lemma tsteps_add:
  "tstep\<^sup>*\<^sup>* s m \<Longrightarrow> tm_heap m t = None \<Longrightarrow> tstep\<^sup>*\<^sup>* s (snd (addTimer t now ms cb recurring m))"
  by (blast intro: rtranclp.rtrancl_into_rtrancl tstep.add)

lemma tsteps_add_condition:
  "tstep\<^sup>*\<^sup>* s m \<Longrightarrow> tm_heap m t = None \<Longrightarrow> tstep\<^sup>*\<^sup>* s (snd (addConditionTimer t now ms f c recurring m))"
  by (blast intro: rtranclp.rtrancl_into_rtrancl tstep.add_condition)

lemma example_timers_reached: "tstep\<^sup>*\<^sup>* (timerManagerInit 1000) example_timers"
  unfolding example_timers_def
  by (intro tsteps_add tsteps_add_condition rtranclp.rtrancl_refl)
    (simp_all add: timerManagerInit_def addTimer_def addConditionTimer_def insertTimer_eq)

lemma example_timers_eq:
  "tm_heap example_timers =
     [1 \<mapsto> new_timer 1000 500 (Some (Plain 7)) False, 2 \<mapsto> new_timer 1000 50 (Some (OnTimer 77 (Some 8))) False,
      3 \<mapsto> new_timer 1000 50 (Some (Plain 9)) True]"
  "m_timers example_timers = [2, 3, 1]"
  "m_previouseTime example_timers = 1000"
  by (auto simp: example_timers_def addTimer_def addConditionTimer_def insertTimer_def timerManagerInit_def
      set_insert_def new_timer_def timer_key_def less_eq_prod_def Let_def)

lemma example_timers_inv: "timers_inv example_timers"
  using example_timers_reached timers_inv_init by (rule tsteps_inv)

theorem timers_stay_consistent_witness:
  "timers_inv example_timers \<and> (\<exists>r. timer_cancel 1 example_timers = Inr r) \<and>
   (\<exists>r. listExpiredCb 99 2000 example_timers = Inr r)"
  using timers_stay_consistent [OF example_timers_reached] by (simp add: example_timers_eq)

text \<open>
  C14. \<^verbatim>\<open>listExpiredCb\<close> on a manager in order: the callbacks are those of the timers due at
  that time (of all timers, when the clock jumped back), earliest first; a recurring timer stays in
  the list with its period from now, any other due timer leaves it and loses its callback; every
  other timer is as it was.
\<close>

theorem listExpiredCb_correct:
  fixes now :: "64 word"
  assumes "timers_inv m" and "tm_heap m tmp = None" and "listExpiredCb tmp now m = Inr (cbs, m')"
    and "d = due (fst (detectClockRollover now m)) now"
  shows "cbs = map (\<lambda>t. m_cb (the (tm_heap m t))) (filter (\<lambda>t. d (the (tm_heap m t))) (m_timers m)) \<and>
    timers_inv m' \<and>
    set (m_timers m') = {t \<in> set (m_timers m). m_recurring (the (tm_heap m t)) \<or> \<not> d (the (tm_heap m t))} \<and>
    tm_heap m' t =
      (if t \<in> set (m_timers m) \<and> d (the (tm_heap m t))
       then map_option (\<lambda>x. if m_recurring x then x\<lparr>m_next := now + m_ms x\<rparr> else x\<lparr>m_cb := None\<rparr>) (tm_heap m t)
       else tm_heap m t)"
  using listExpiredCb_outcome [OF assms(1,2), of now] assms(3,4) by (auto simp: expired_timer_def [abs_def])

lemma example_expired:
  "listExpiredCb 99 1050 example_timers = Inr ([Some (OnTimer 77 (Some 8)), Some (Plain 9)],
     example_timers\<lparr>tm_heap := (tm_heap example_timers)
         (2 \<mapsto> (new_timer 1000 50 None False), 3 \<mapsto> (new_timer 1050 50 (Some (Plain 9)) True)),
       m_timers := [3, 1], m_previouseTime := 1050\<rparr>)"
  by (simp add: listExpiredCb_def detectClockRollover_def example_timers_eq timer_less_def Let_def
      new_timer_def set_insert_def timer_key_def less_eq_prod_def)

theorem listExpiredCb_correct_witness:
  "case listExpiredCb 99 1050 example_timers of Inl e \<Rightarrow> False
   | Inr (cbs, m) \<Rightarrow> cbs = [Some (OnTimer 77 (Some 8)), Some (Plain 9)] \<and> timers_inv m \<and> set (m_timers m) = {1, 3}"
  using listExpiredCb_correct [OF example_timers_inv _ example_expired refl, of 1]
  by (auto simp: example_expired example_timers_eq due_def detectClockRollover_def new_timer_def)

text \<open>
  A timer that was cancelled is never called again, whatever the program does with it and
  with the manager: it is in no list of expired timers, cannot be cancelled, refreshed or moved; only
  a \<^verbatim>\<open>reset\<close> to the period it had reports success all the same.
\<close>

theorem cancelled_timer_stays_dead:
  assumes "timers_inv m" and "timer_cancel t m = Inr (True, m1)" and "tstep\<^sup>*\<^sup>* m1 m2"
  shows "t \<notin> set (m_timers m2) \<and> timer_cancel t m2 = Inr (False, m2) \<and> timer_refresh now t m2 = Inr (False, m2) \<and>
    timer_reset now t ms from_now m2 = Inr (ms = m_ms (the (tm_heap m2 t)) \<and> \<not> from_now, m2)"
proof -
  have "dead t m1"
    using assms(1,2) by (auto simp: dead_def timer_cancel_def timers_inv_def split: option.splits if_splits)
  moreover have "timers_inv m1" using assms(1,2) by (rule cancel_inv)
  ultimately have "dead t m2" using assms(3) by (blast intro: tsteps_dead)
  then show ?thesis by (auto simp: dead_def timer_cancel_def timer_refresh_def timer_reset_def)
qed

theorem cancelled_timer_stays_dead_witness:
  "case timer_cancel 2 example_timers of Inl e \<Rightarrow> False
   | Inr (b, m) \<Rightarrow> 2 \<notin> set (m_timers m) \<and> timer_reset 1010 2 50 False m = Inr (True, m)"
proof -
  have "timer_cancel 2 example_timers = Inr (True, example_timers\<lparr>tm_heap := (tm_heap example_timers)
      (2 \<mapsto> new_timer 1000 50 None False), m_timers := [3, 1]\<rparr>)"
    by (simp add: timer_cancel_def example_timers_eq new_timer_def)
  from this cancelled_timer_stays_dead [OF example_timers_inv this rtranclp.rtrancl_refl, of 1010 50 False]
  show ?thesis by (simp add: new_timer_def)
qed

text \<open>
  The time to wait that \<^verbatim>\<open>getNextTimer\<close> returns is 0 exactly when a timer is due; before
  it has passed none is, after it one is. A timer put in later with an earlier time than all others
  is reported through \<^verbatim>\<open>onTimerInsertedAtFront\<close>.
\<close>

theorem getNextTimer_earliest:
  fixes now :: "64 word"
  assumes "timers_inv m" and "m_timers m \<noteq> []" and "getNextTimer now m = (d, m')"
    and "is_due = (\<lambda>n. \<exists>t \<in> set (m_timers m). m_next (the (tm_heap m t)) \<le> n)"
  shows "(d = 0 \<longleftrightarrow> is_due now) \<and> (now \<le> n \<longrightarrow> n - now < d \<longrightarrow> \<not> is_due n) \<and> is_due (now + d) \<and>
    (tm_heap m t = None \<longrightarrow> \<not> is_due (later + ms) \<longrightarrow>
      at_front (snd (addTimer t later ms cb recurring m')) = at_front m' + 1)"
proof -
  obtain u us where us: "m_timers m = u # us" using assms(2) by (cases "m_timers m") auto
  define k where "k = m_next (the (tm_heap m u))"
  have "k \<le> m_next (the (tm_heap m t))" if "t \<in> set (m_timers m)" for t
    using timers_inv_times [OF assms(1)] that unfolding us k_def by auto
  then have is_due: "is_due n \<longleftrightarrow> k \<le> n" for n
    unfolding assms(4) us k_def by (auto intro: order_trans)
  have d: "d = (if k \<le> now then 0 else k - now)" and m': "m' = m\<lparr>m_tickled := False\<rparr>"
    using assms(3) by (auto simp: getNextTimer_def us k_def Let_def split: if_splits)
  have "t \<notin> set (m_timers m)" if "tm_heap m t = None" using assms(1) that by (auto simp: timers_inv_def)
  then have front: "at_front (snd (addTimer t later ms cb recurring m')) = at_front m' + 1"
    if "tm_heap m t = None" "\<not> k \<le> later + ms"
    using that by (auto simp: addTimer_def insertTimer_def m' set_insert_def us timer_key_def new_timer_def
        k_def less_eq_prod_def Let_def)
  have "\<not> k \<le> n" if "now \<le> n" "n - now < d"
    using that by (auto simp: d not_le word_less_nat_alt word_le_nat_alt unat_sub_if_size split: if_splits)
  with front show ?thesis by (auto simp: is_due d)
qed

theorem getNextTimer_earliest_witness:
  "fst (getNextTimer 1020 example_timers) = 30 \<and> fst (getNextTimer 1020 example_timers) \<noteq> 0"
proof -
  have "getNextTimer 1020 example_timers = (30, example_timers\<lparr>m_tickled := False\<rparr>)"
    by (simp add: getNextTimer_def example_timers_eq new_timer_def)
  from this getNextTimer_earliest [OF example_timers_inv _ this refl, of 1040 4 1010 5 None False]
  show ?thesis by (simp add: example_timers_eq new_timer_def)
qed

text \<open>
  What counts as a jump of the clock: going back by more than an hour, and, the subtraction being
  unsigned, going back at all within the first hour.
\<close>

lemma detectClockRollover_exact:
  "fst (detectClockRollover now m) \<longleftrightarrow> now < m_previouseTime m \<and>
     (unat now + 3600000 < unat (m_previouseTime m) \<or> unat (m_previouseTime m) < 3600000)"
proof -
  have "now < m_previouseTime m - 3600000 \<longleftrightarrow>
      unat now + 3600000 < unat (m_previouseTime m) \<or> unat (m_previouseTime m) < 3600000"
    if "now < m_previouseTime m"
  proof (cases "unat (m_previouseTime m) < 3600000")
    case True
    then have "unat (m_previouseTime m - 3600000) = unat (m_previouseTime m) + 2 ^ 64 - 3600000"
      by (simp add: unat_sub_if_size word_size)
    with True that show ?thesis by (simp add: word_less_nat_alt)
  next
    case False
    then have "unat (m_previouseTime m - 3600000) = unat (m_previouseTime m) - 3600000"
      by (simp add: unat_sub_if_size word_size)
    with False show ?thesis by (auto simp: word_less_nat_alt)
  qed
  then show ?thesis by (auto simp: detectClockRollover_def)
qed

end
