(* ===== verification/IOManagers.thy ===== *)
theory IOManagers
  imports Schedulers Timers Epoll
begin

text \<open>
  \<^verbatim>\<open>Coroutine/version2/IOManager.cpp\<close>: a scheduler and a timer manager over one epoll
  descriptor. Who waits for an event of a descriptor is kept in a context per descriptor; the idle
  fibers of the scheduler's threads wait in \<^verbatim>\<open>epoll_wait\<close>, woken through a pipe. The kernel's
  interest list is that of \<open>Epoll\<close>; the system calls are taken to be the kernel's, not those of
  \<^verbatim>\<open>Hook.cpp\<close>. A writer finds room in the pipe.
\<close>

section \<open>The code: contexts\<close>

definition IO_NONE :: "32 word" where "IO_NONE = 0x0"
definition IO_READ :: "32 word" where "IO_READ = 0x1"
definition IO_WRITE :: "32 word" where "IO_WRITE = 0x4"
definition EPOLLET :: "32 word" where "EPOLLET = 0x80000000"

text \<open>\<open>ec_scheduler\<close>: whether the pointer is set; there is one scheduler.\<close>

record event_context =
  ec_scheduler :: bool
  ec_fiber :: "nat option"
  ec_cb :: "nat option"

record fd_context =
  fc_read :: event_context
  fc_write :: event_context
  fc_fd :: int
  fc_events :: "32 word"

definition clean_context :: event_context where
  "clean_context = \<lparr>ec_scheduler = False, ec_fiber = None, ec_cb = None\<rparr>"

definition new_fd_context :: "int \<Rightarrow> fd_context" where
  "new_fd_context fd = \<lparr>fc_read = clean_context, fc_write = clean_context, fc_fd = fd, fc_events = IO_NONE\<rparr>"

text \<open>\<open>getContext\<close> gives a reference: reading and writing through it.\<close>

definition getContext :: "32 word \<Rightarrow> fd_context \<Rightarrow> event_context res" where
  "getContext ev c =
     (if ev = IO_READ then Inr (fc_read c) else if ev = IO_WRITE then Inr (fc_write c) else Inl AssertFail)"

definition putContext :: "32 word \<Rightarrow> event_context \<Rightarrow> fd_context \<Rightarrow> fd_context" where
  "putContext ev x c = (if ev = IO_READ then c\<lparr>fc_read := x\<rparr> else c\<lparr>fc_write := x\<rparr>)"

definition resetContext :: "event_context \<Rightarrow> event_context" where
  "resetContext x = x\<lparr>ec_scheduler := False, ec_fiber := None, ec_cb := None\<rparr>"

text \<open>
  \<open>fdc\<close>: the contexts, by address; \<open>ep_ptr\<close>: the pointer the kernel keeps for a descriptor. The
  descriptor of the pipe is kept with its number instead.
\<close>

record iomanager = scheduler +
  io_timers :: timer_manager
  ep :: epoll_data
  ep_ptr :: "int \<rightharpoonup> nat"
  m_tickleFds :: "int \<times> int"
  pipe_bytes :: nat
  m_pendingEventCount :: "64 word"
  fdc :: "nat \<Rightarrow> fd_context option"
  m_fdContexts :: "nat option list"

definition put_ctx :: "nat \<Rightarrow> fd_context \<Rightarrow> iomanager \<Rightarrow> iomanager" where
  "put_ctx p c s = s\<lparr>fdc := (fdc s)(p \<mapsto> c)\<rparr>"

definition ctl :: "(int \<Rightarrow> bool) \<Rightarrow> ctl_op \<Rightarrow> int \<Rightarrow> 32 word \<Rightarrow> nat \<Rightarrow> iomanager \<Rightarrow> int \<times> iomanager" where
  "ctl valid op fd ev p s =
     (let (rt, d) = epoll_ctl valid op fd ev (ep s) in
      (rt, if rt = 0 then s\<lparr>ep := d, ep_ptr := (ep_ptr s)(fd := if op = EPOLL_CTL_DEL then None else Some p)\<rparr> else s))"

definition iom_tickle :: "iomanager \<Rightarrow> iomanager res" where
  "iom_tickle s = (if \<not> hasIdleThreads s then Inr s else Inr (s\<lparr>pipe_bytes := pipe_bytes s + 1\<rparr>))"

text \<open>Waking an idle thread leaves queue and frames alone, so the manager is a scheduler as well.\<close>

interpretation iom: notifier iom_tickle
  by unfold_locales (auto simp: iom_tickle_def core_def split: if_splits)

text \<open>
  \<open>triggerEvent\<close> on the context at \<open>p\<close>. \<^verbatim>\<open>schedule(&ctx.cb)\<close> swaps the function out of the
  context into the task.
\<close>

definition triggerEvent :: "32 word \<Rightarrow> nat \<Rightarrow> iomanager \<Rightarrow> iomanager res" where
  "triggerEvent ev p s =
     (case fdc s p of
        None \<Rightarrow> Inl UseAfterFree
      | Some c \<Rightarrow>
          if \<not> has_event (fc_events c) ev then Inl AssertFail
          else
            (let c = c\<lparr>fc_events := fc_events c AND NOT ev\<rparr> in
             bindR (getContext ev c) (\<lambda>x.
             if \<not> ec_scheduler x then Inl NullDeref
             else
               (let (task, x) = (if ec_cb x \<noteq> None then (cb_task (ec_cb x) any_thread, x\<lparr>ec_cb := None\<rparr>)
                                 else (fiber_task (ec_fiber x) any_thread, x\<lparr>ec_fiber := None\<rparr>)) in
                schedule iom_tickle task (put_ctx p (putContext ev (x\<lparr>ec_scheduler := False\<rparr>) c) s)))))"

section \<open>The code: the table of contexts\<close>

text \<open>\<open>fresh\<close>: the addresses of new contexts.\<close>

fun resize_loop ::
  "(nat \<Rightarrow> nat) \<Rightarrow> nat \<Rightarrow> nat option list \<Rightarrow> (nat \<Rightarrow> fd_context option) \<Rightarrow> nat option list \<times> (nat \<Rightarrow> fd_context option)"
  where
  "resize_loop fresh i [] h = ([], h)"
| "resize_loop fresh i (Some p # v) h = (let (v, h) = resize_loop fresh (Suc i) v h in (Some p # v, h))"
| "resize_loop fresh i (None # v) h =
     (let (v, h) = resize_loop fresh (Suc i) v (h(fresh i \<mapsto> new_fd_context (int i))) in (Some (fresh i) # v, h))"

definition contextResize :: "(nat \<Rightarrow> nat) \<Rightarrow> nat \<Rightarrow> iomanager \<Rightarrow> iomanager" where
  "contextResize fresh n s =
     (let v = take n (m_fdContexts s) @ replicate (n - length (m_fdContexts s)) None;
          (v, h) = resize_loop fresh 0 v (fdc s) in
      s\<lparr>m_fdContexts := v, fdc := h\<rparr>)"

definition context_at :: "int \<Rightarrow> iomanager \<Rightarrow> nat res" where
  "context_at fd s =
     (if fd < 0 \<or> int (length (m_fdContexts s)) \<le> fd then Inl OutOfBounds
      else (case m_fdContexts s ! nat fd of None \<Rightarrow> Inl NullDeref | Some p \<Rightarrow> Inr p))"

text \<open>
  \<open>addEvent\<close>: the look at the table under the read lock; the growth under the write lock, by
  \<^verbatim>\<open>fd * 1.5\<close>, which a \<^verbatim>\<open>double\<close> holds exactly; the rest under the context's lock. \<open>a\<close>: the
  address of a main fiber, if the thread has none.
\<close>

definition addEvent_look :: "int \<Rightarrow> iomanager \<Rightarrow> nat option res" where
  "addEvent_look fd s =
     (if fd < int (length (m_fdContexts s)) then bindR (context_at fd s) (\<lambda>p. Inr (Some p)) else Inr None)"

definition addEvent_grow :: "(nat \<Rightarrow> nat) \<Rightarrow> int \<Rightarrow> iomanager \<Rightarrow> (nat \<times> iomanager) res" where
  "addEvent_grow fresh fd s =
     (let s = contextResize fresh (nat (3 * fd div 2)) s in bindR (context_at fd s) (\<lambda>p. Inr (p, s)))"

definition addEvent_on ::
  "(int \<Rightarrow> bool) \<Rightarrow> tid \<Rightarrow> nat \<Rightarrow> int \<Rightarrow> 32 word \<Rightarrow> nat option \<Rightarrow> nat \<Rightarrow> iomanager \<Rightarrow> (int \<times> iomanager) res" where
  "addEvent_on valid t a fd ev cb p s =
     (case fdc s p of
        None \<Rightarrow> Inl UseAfterFree
      | Some c \<Rightarrow>
          if has_event (fc_events c) ev then Inl AssertFail
          else
            (let op = (if fc_events c \<noteq> 0 then EPOLL_CTL_MOD else EPOLL_CTL_ADD);
                 (rt, s) = ctl valid op fd (EPOLLET OR fc_events c OR ev) p s in
             if rt \<noteq> 0 then Inr (-1, s)
             else
               (let s = s\<lparr>m_pendingEventCount := m_pendingEventCount s + 1\<rparr>;
                    c = c\<lparr>fc_events := fc_events c OR ev\<rparr> in
                bindR (getContext ev c) (\<lambda>x.
                if ec_scheduler x \<or> ec_fiber x \<noteq> None \<or> ec_cb x \<noteq> None then Inl AssertFail
                else
                  (let x = x\<lparr>ec_scheduler := scheduler_GetThis t s\<rparr> in
                   case cb of
                     Some f \<Rightarrow> Inr (0, put_ctx p (putContext ev (x\<lparr>ec_cb := Some f\<rparr>) c) s)
                   | None \<Rightarrow>
                       bindR (fiber_GetThis t a s) (\<lambda>(f, s).
                       case fib s f of
                         None \<Rightarrow> Inl UseAfterFree
                       | Some y \<Rightarrow>
                           if m_state y \<noteq> FRunning then Inl AssertFail
                           else Inr (0, put_ctx p (putContext ev (x\<lparr>ec_fiber := Some f\<rparr>) c) s)))))))"

definition addEvent ::
  "(int \<Rightarrow> bool) \<Rightarrow> (nat \<Rightarrow> nat) \<Rightarrow> tid \<Rightarrow> nat \<Rightarrow> int \<Rightarrow> 32 word \<Rightarrow> nat option \<Rightarrow> iomanager \<Rightarrow> (int \<times> iomanager) res" where
  "addEvent valid fresh t a fd ev cb s =
     bindR (addEvent_look fd s) (\<lambda>found.
     bindR (case found of Some p \<Rightarrow> Inr (p, s) | None \<Rightarrow> addEvent_grow fresh fd s) (\<lambda>(p, s).
     addEvent_on valid t a fd ev cb p s))"

section \<open>The code: removing events\<close>

text \<open>The calls that unregister agree in what they look up first.\<close>

definition delEvent :: "(int \<Rightarrow> bool) \<Rightarrow> int \<Rightarrow> 32 word \<Rightarrow> iomanager \<Rightarrow> (bool \<times> iomanager) res" where
  "delEvent valid fd ev s =
     (if int (length (m_fdContexts s)) \<le> fd then Inr (False, s)
      else
        bindR (context_at fd s) (\<lambda>p.
        case fdc s p of
          None \<Rightarrow> Inl UseAfterFree
        | Some c \<Rightarrow>
            if \<not> has_event (fc_events c) ev then Inr (False, s)
            else
              (let new_events = fc_events c AND NOT ev;
                   op = (if new_events \<noteq> 0 then EPOLL_CTL_MOD else EPOLL_CTL_DEL);
                   (rt, s) = ctl valid op fd (EPOLLET OR new_events) p s in
               if rt \<noteq> 0 then Inr (False, s)
               else
                 (let s = s\<lparr>m_pendingEventCount := m_pendingEventCount s - 1\<rparr>;
                      c = c\<lparr>fc_events := new_events\<rparr> in
                  bindR (getContext ev c) (\<lambda>x.
                  Inr (True, put_ctx p (putContext ev (resetContext x) c) s))))))"

definition trigger_and_count :: "32 word \<Rightarrow> nat \<Rightarrow> iomanager \<Rightarrow> iomanager res" where
  "trigger_and_count ev p s =
     bindR (triggerEvent ev p s) (\<lambda>s. Inr (s\<lparr>m_pendingEventCount := m_pendingEventCount s - 1\<rparr>))"

definition cancelEvent :: "(int \<Rightarrow> bool) \<Rightarrow> int \<Rightarrow> 32 word \<Rightarrow> iomanager \<Rightarrow> (bool \<times> iomanager) res" where
  "cancelEvent valid fd ev s =
     (if int (length (m_fdContexts s)) \<le> fd then Inr (False, s)
      else
        bindR (context_at fd s) (\<lambda>p.
        case fdc s p of
          None \<Rightarrow> Inl UseAfterFree
        | Some c \<Rightarrow>
            if \<not> has_event (fc_events c) ev then Inr (False, s)
            else
              (let new_events = fc_events c AND NOT ev;
                   op = (if new_events \<noteq> 0 then EPOLL_CTL_MOD else EPOLL_CTL_DEL);
                   (rt, s) = ctl valid op fd (EPOLLET OR new_events) p s in
               if rt \<noteq> 0 then Inr (False, s)
               else bindR (trigger_and_count ev p s) (\<lambda>s. Inr (True, s)))))"

text \<open>Two triggers in a row, of those a mask asks for; what the context then has is read again.\<close>

definition trigger_if :: "bool \<Rightarrow> 32 word \<Rightarrow> nat \<Rightarrow> iomanager \<Rightarrow> iomanager res" where
  "trigger_if b ev p s = (if b then trigger_and_count ev p s else Inr s)"

definition events_of :: "nat \<Rightarrow> iomanager \<Rightarrow> 32 word" where
  "events_of p s = (case fdc s p of None \<Rightarrow> 0 | Some c \<Rightarrow> fc_events c)"

definition cancelAll :: "(int \<Rightarrow> bool) \<Rightarrow> int \<Rightarrow> iomanager \<Rightarrow> (bool \<times> iomanager) res" where
  "cancelAll valid fd s =
     (if int (length (m_fdContexts s)) \<le> fd then Inr (False, s)
      else
        bindR (context_at fd s) (\<lambda>p.
        case fdc s p of
          None \<Rightarrow> Inl UseAfterFree
        | Some c \<Rightarrow>
            if fc_events c = 0 then Inr (False, s)
            else
              (let (rt, s) = ctl valid EPOLL_CTL_DEL fd 0 p s in
               if rt \<noteq> 0 then Inr (False, s)
               else
                 bindR (trigger_if (has_event (events_of p s) IO_READ) IO_READ p s) (\<lambda>s.
                 bindR (trigger_if (has_event (events_of p s) IO_WRITE) IO_WRITE p s) (\<lambda>s.
                 if events_of p s = 0 then Inr (True, s) else Inl AssertFail)))))"

section \<open>The code: waiting\<close>

definition onTimerInsertedAtFront :: "iomanager \<Rightarrow> iomanager res" where
  "onTimerInsertedAtFront s = iom_tickle s"

text \<open>\<open>addTimer\<close> of the timer manager in the subclass: where it was put first, the hook is called.\<close>

definition iom_addTimer ::
  "nat \<Rightarrow> 64 word \<Rightarrow> 64 word \<Rightarrow> timer_cb option \<Rightarrow> bool \<Rightarrow> iomanager \<Rightarrow> (nat \<times> iomanager) res" where
  "iom_addTimer t now ms cb recurring s =
     (let (t, m) = addTimer t now ms cb recurring (io_timers s) in
      bindR (if at_front m \<noteq> at_front (io_timers s) then onTimerInsertedAtFront (s\<lparr>io_timers := m\<rparr>)
             else Inr (s\<lparr>io_timers := m\<rparr>)) (\<lambda>s. Inr (t, s)))"

text \<open>The scheduler's own \<open>stopping\<close> is only asked when the rest holds.\<close>

definition iom_stopping :: "64 word \<Rightarrow> iomanager \<Rightarrow> (bool \<times> 64 word \<times> iomanager) res" where
  "iom_stopping now s =
     (let (timeout, m) = getNextTimer now (io_timers s); s = s\<lparr>io_timers := m\<rparr> in
      if timeout = - 1 \<and> m_pendingEventCount s = 0
      then bindR (scheduler_stopping s) (\<lambda>(b, s). Inr (b, timeout, s))
      else Inr (False, timeout, s))"

definition iom_GetThis :: "tid \<Rightarrow> iomanager \<Rightarrow> bool" where
  "iom_GetThis t s = scheduler_GetThis t s"

text \<open>What \<^verbatim>\<open>next_timeout\<close> becomes, and the \<open>int\<close> \<^verbatim>\<open>epoll_wait\<close> is given.\<close>

definition clamp_timeout :: "64 word \<Rightarrow> 64 word" where
  "clamp_timeout nt =
     (if nt \<noteq> - 1 then (if 3000 < sint (ucast nt :: 32 word) then 3000 else nt) else 3000)"

definition wait_timeout :: "64 word \<Rightarrow> int" where
  "wait_timeout nt = sint (ucast (clamp_timeout nt) :: 32 word)"

text \<open>
  What calls of \<^verbatim>\<open>epoll_wait\<close> give: a signal, another error, or events, each with its mask and
  the context's address, none for the pipe. The loop that calls again gives the timeouts used and the
  events; without a further result it blocks.
\<close>

datatype wait_result = Interrupted | Failed | Reported "(32 word \<times> nat option) list"

fun wait_loop :: "wait_result list \<Rightarrow> 64 word \<Rightarrow> (int list \<times> (32 word \<times> nat option) list) option" where
  "wait_loop [] nt = None"
| "wait_loop (Interrupted # ws) nt =
     map_option (\<lambda>(ts, es). (wait_timeout nt # ts, es)) (wait_loop ws (clamp_timeout nt))"
| "wait_loop (Failed # ws) nt = Some ([wait_timeout nt], [])"
| "wait_loop (Reported es # ws) nt = Some ([wait_timeout nt], es)"

text \<open>\<open>fn\<close>: the number of the function object that a timer's callback is as a task.\<close>

definition run_timers :: "(timer_cb \<Rightarrow> nat) \<Rightarrow> nat \<Rightarrow> 64 word \<Rightarrow> iomanager \<Rightarrow> iomanager res" where
  "run_timers fn tmp now s =
     bindR (listExpiredCb tmp now (io_timers s)) (\<lambda>(cbs, m).
     let s = s\<lparr>io_timers := m\<rparr> in
     if cbs = [] then Inr s
     else schedule_range iom_tickle (map (\<lambda>cb. cb_task (map_option fn cb) any_thread) cbs) s)"

text \<open>The loop body for one reported event.\<close>

definition idle_event :: "(int \<Rightarrow> bool) \<Rightarrow> 32 word \<times> nat option \<Rightarrow> iomanager \<Rightarrow> iomanager res" where
  "idle_event valid e s =
     (case snd e of
        None \<Rightarrow> Inr (s\<lparr>pipe_bytes := 0\<rparr>)
      | Some p \<Rightarrow>
          (case fdc s p of
             None \<Rightarrow> Inl UseAfterFree
           | Some c \<Rightarrow>
               (let mask = (if has_event (fst e) (EPOLLERR OR EPOLLHUP)
                            then fst e OR ((EPOLLIN OR EPOLLOUT) AND fc_events c) else fst e);
                    real_events = (if has_event mask EPOLLIN then IO_READ else IO_NONE) OR
                                  (if has_event mask EPOLLOUT then IO_WRITE else IO_NONE) in
                if fc_events c AND real_events = IO_NONE then Inr s
                else
                  (let left_events = fc_events c AND NOT real_events;
                       op = (if left_events \<noteq> 0 then EPOLL_CTL_MOD else EPOLL_CTL_DEL);
                       (rt2, s) = ctl valid op (fc_fd c) (EPOLLET OR left_events) p s in
                   if rt2 \<noteq> 0 then Inr s
                   else
                     bindR (trigger_if (has_event real_events IO_READ) IO_READ p s) (\<lambda>s.
                     trigger_if (has_event real_events IO_WRITE) IO_WRITE p s)))))"

fun idle_events :: "(int \<Rightarrow> bool) \<Rightarrow> (32 word \<times> nat option) list \<Rightarrow> iomanager \<Rightarrow> iomanager res" where
  "idle_events valid [] s = Inr s"
| "idle_events valid (e # es) s = bindR (idle_event valid e s) (idle_events valid es)"

definition MAX_EVENTS :: nat where "MAX_EVENTS = 256"

text \<open>
  A round of the loop of \<open>idle\<close>, up to the yield, and whether the loop ends instead; \<open>now\<close> and \<open>now'\<close>:
  the clock in \<open>stopping\<close> and behind the wait.
\<close>

definition idle_round ::
  "(int \<Rightarrow> bool) \<Rightarrow> (timer_cb \<Rightarrow> nat) \<Rightarrow> nat \<Rightarrow> 64 word \<Rightarrow> 64 word \<Rightarrow> wait_result list \<Rightarrow> iomanager \<Rightarrow> (bool \<times> iomanager) run" where
  "idle_round valid fn tmp now now' ws s =
     (case iom_stopping now s of
        Inl e \<Rightarrow> Some (Inl e)
      | Inr (True, _, s) \<Rightarrow> Some (Inr (True, s))
      | Inr (False, nt, s) \<Rightarrow>
          (case wait_loop ws nt of
             None \<Rightarrow> None
           | Some (_, es) \<Rightarrow>
               Some (bindR (run_timers fn tmp now' s) (\<lambda>s.
                     bindR (idle_events valid (take MAX_EVENTS es) s) (\<lambda>s. Inr (False, s))))))"

section \<open>The code: construction\<close>

text \<open>
  \<open>efd\<close>, \<open>pair\<close>: what \<^verbatim>\<open>epoll_create\<close> and \<^verbatim>\<open>pipe\<close> give. The manager starts its threads itself.
\<close>

definition iom_init ::
  "tid \<Rightarrow> nat \<Rightarrow> nat \<Rightarrow> 64 word \<Rightarrow> bool \<Rightarrow> string \<Rightarrow> (int \<Rightarrow> bool) \<Rightarrow> int \<Rightarrow> (int \<times> int) option \<Rightarrow> (nat \<Rightarrow> nat) \<Rightarrow>
   tid list \<Rightarrow> 64 word \<Rightarrow> iomanager \<Rightarrow> iomanager res" where
  "iom_init t am ar threads use_caller name valid efd pair fresh tids now s =
     bindR (scheduler_init t am ar threads use_caller name s) (\<lambda>s.
     bindR (guardR (0 < efd) AssertFail) (\<lambda>_.
     case pair of
       None \<Rightarrow> Inl AssertFail
     | Some pair \<Rightarrow>
         (let (rt, d) = epoll_ctl valid EPOLL_CTL_ADD (fst pair) (EPOLLIN OR EPOLLET)
                \<lparr>epfd = efd, ep_set = Map.empty, ep_events = True\<rparr> in
          if rt \<noteq> 0 then Inl AssertFail
          else scheduler_start tids (contextResize fresh 32
            (s\<lparr>io_timers := timerManagerInit now, ep := d, ep_ptr := Map.empty, m_tickleFds := pair, pipe_bytes := 0,
               m_pendingEventCount := 0, m_fdContexts := []\<rparr>)))))"

text \<open>The end of the destructor, behind \<open>stop\<close>: the contexts in the table are deleted.\<close>

definition iom_delete_contexts :: "iomanager \<Rightarrow> iomanager" where
  "iom_delete_contexts s = s\<lparr>fdc := fdc s |` (- {p. Some p \<in> set (m_fdContexts s)})\<rparr>"

section \<open>The table\<close>

text \<open>What a context may hold: the events it has, and for each of them who waits, nothing else.\<close>

definition waiting :: "event_context \<Rightarrow> bool" where
  "waiting x \<longleftrightarrow> ec_scheduler x \<and> (ec_cb x = None) \<noteq> (ec_fiber x = None)"

definition reads :: "fd_context \<Rightarrow> bool" where
  "reads c \<longleftrightarrow> has_event (fc_events c) IO_READ"

definition writes :: "fd_context \<Rightarrow> bool" where
  "writes c \<longleftrightarrow> has_event (fc_events c) IO_WRITE"

definition ctx_ok :: "fd_context \<Rightarrow> bool" where
  "ctx_ok c \<longleftrightarrow> fc_events c = (if reads c then IO_READ else 0) OR (if writes c then IO_WRITE else 0) \<and>
     (if reads c then waiting (fc_read c) else fc_read c = clean_context) \<and>
     (if writes c then waiting (fc_write c) else fc_write c = clean_context)"

lemmas io_bits = IO_READ_def IO_WRITE_def IO_NONE_def has_event_def

lemma events_cases:
  assumes "ctx_ok c"
  obtains (none) "fc_events c = 0" "\<not> reads c" "\<not> writes c"
  | (rd) "fc_events c = IO_READ" "reads c" "\<not> writes c"
  | (wr) "fc_events c = IO_WRITE" "\<not> reads c" "writes c"
  | (both) "fc_events c = IO_READ OR IO_WRITE" "reads c" "writes c"
  using assms by (cases "reads c"; cases "writes c") (auto simp: ctx_ok_def)

lemma io_masks:
  "has_event 0 IO_READ = False" "has_event 0 IO_WRITE = False"
  "has_event IO_READ IO_READ" "has_event IO_WRITE IO_WRITE"
  "has_event IO_READ IO_WRITE = False" "has_event IO_WRITE IO_READ = False"
  "has_event (IO_READ OR IO_WRITE) IO_READ" "has_event (IO_READ OR IO_WRITE) IO_WRITE"
  "IO_READ AND NOT IO_READ = 0" "IO_WRITE AND NOT IO_WRITE = 0"
  "IO_READ AND NOT IO_WRITE = IO_READ" "IO_WRITE AND NOT IO_READ = IO_WRITE"
  "(IO_READ OR IO_WRITE) AND NOT IO_READ = IO_WRITE" "(IO_READ OR IO_WRITE) AND NOT IO_WRITE = IO_READ"
  "IO_READ OR IO_READ = IO_READ" "IO_WRITE OR IO_WRITE = IO_WRITE" "IO_WRITE OR IO_READ = IO_READ OR IO_WRITE"
  "IO_READ \<noteq> 0" "IO_WRITE \<noteq> 0" "IO_READ OR IO_WRITE \<noteq> 0" "IO_READ \<noteq> IO_WRITE" "IO_WRITE \<noteq> IO_READ"
  by (simp_all add: io_bits)

definition kernel_mask :: "fd_context \<Rightarrow> 32 word option" where
  "kernel_mask c = (if fc_events c = 0 then None else Some (EPOLLET OR fc_events c))"

definition waiters :: "fd_context \<Rightarrow> nat" where
  "waiters c = (if reads c then 1 else 0) + (if writes c then 1 else 0)"

text \<open>
  The entry of a descriptor: its context, and what the kernel has of it. The read end of the pipe
  has a context too, with no events.
\<close>

definition entry_ok :: "iomanager \<Rightarrow> nat \<Rightarrow> nat \<Rightarrow> fd_context \<Rightarrow> bool" where
  "entry_ok s i p c \<longleftrightarrow> m_fdContexts s ! i = Some p \<and> fdc s p = Some c \<and> fc_fd c = int i \<and> ctx_ok c \<and>
     (if int i = fst (m_tickleFds s) then fc_events c = 0 else ep_set (ep s) (int i) = kernel_mask c) \<and>
     ep_ptr s (int i) = (if fc_events c = 0 then None else Some p)"

definition ctx_at :: "iomanager \<Rightarrow> nat \<Rightarrow> fd_context" where
  "ctx_at s i = the (fdc s (the (m_fdContexts s ! i)))"

definition io_inv :: "iomanager \<Rightarrow> bool" where
  "io_inv s \<longleftrightarrow> distinct (m_fdContexts s) \<and>
     (\<forall>i < length (m_fdContexts s). \<exists>p c. entry_ok s i p c) \<and>
     (\<forall>fd. fd < 0 \<or> int (length (m_fdContexts s)) \<le> fd \<longrightarrow>
        (fd \<noteq> fst (m_tickleFds s) \<longrightarrow> ep_set (ep s) fd = None) \<and> ep_ptr s fd = None) \<and>
     ep_set (ep s) (fst (m_tickleFds s)) \<noteq> None \<and>
     m_pendingEventCount s = of_nat (\<Sum>i < length (m_fdContexts s). waiters (ctx_at s i))"

lemma io_invE:
  assumes "io_inv s" and "i < length (m_fdContexts s)"
  obtains p c where "entry_ok s i p c"
  using assms unfolding io_inv_def by blast

lemma entry_ctx: "entry_ok s i p c \<Longrightarrow> ctx_at s i = c"
  by (simp add: entry_ok_def ctx_at_def)

text \<open>The operations change one entry.\<close>

definition changed :: "iomanager \<Rightarrow> nat \<Rightarrow> nat \<Rightarrow> fd_context \<Rightarrow> iomanager \<Rightarrow> bool" where
  "changed s i p c' s' \<longleftrightarrow> m_fdContexts s' = m_fdContexts s \<and> m_tickleFds s' = m_tickleFds s \<and>
     fdc s' = (fdc s)(p \<mapsto> c') \<and> epfd (ep s') = epfd (ep s) \<and>
     ep_set (ep s') = (ep_set (ep s))(int i := kernel_mask c') \<and>
     ep_ptr s' = (ep_ptr s)(int i := (if fc_events c' = 0 then None else Some p))"

lemma changed_inv:
  assumes "io_inv s" and "i < length (m_fdContexts s)" and "entry_ok s i p c" and "int i \<noteq> fst (m_tickleFds s)"
    and "changed s i p c' s'" and "ctx_ok c'" and "fc_fd c' = int i"
    and "m_pendingEventCount s' + of_nat (waiters c) = m_pendingEventCount s + of_nat (waiters c')"
  shows "io_inv s' \<and> entry_ok s' i p c'"
proof -
  let ?n = "length (m_fdContexts s)"
  have p: "m_fdContexts s ! i = Some p" using assms(3) by (simp add: entry_ok_def)
  have other: "m_fdContexts s ! j \<noteq> Some p" if "j < ?n" "j \<noteq> i" for j
    using assms(1,2) p that unfolding io_inv_def by (metis nth_eq_iff_index_eq)
  have own: "entry_ok s' i p c'"
    using assms(4-7) p by (simp add: entry_ok_def changed_def)
  have rest: "entry_ok s' j q d" if "j < ?n" "j \<noteq> i" "entry_ok s j q d" for j q d
    using that other [OF that(1,2)] assms(5) by (auto simp: entry_ok_def changed_def)
  have entries: "\<exists>p c. entry_ok s' j p c" if "j < ?n" for j
  proof (cases "j = i")
    case False
    note j = that
    obtain q d where "entry_ok s j q d" using assms(1) j by (rule io_invE)
    with rest [OF that False] show ?thesis by blast
  qed (use own in blast)
  have "(\<Sum>j < ?n. waiters (ctx_at s' j)) + waiters c = (\<Sum>j < ?n. waiters (ctx_at s j)) + waiters c'"
  proof -
    have same: "ctx_at s' j = ctx_at s j" if "j < ?n" "j \<noteq> i" for j
    proof -
      note j = that(1)
      obtain q d where "entry_ok s j q d" using assms(1) j by (rule io_invE)
      with entry_ctx [OF this] entry_ctx [OF rest [OF that this]] show ?thesis by simp
    qed
    have "(\<Sum>j \<in> {..<?n} - {i}. waiters (ctx_at s' j)) = (\<Sum>j \<in> {..<?n} - {i}. waiters (ctx_at s j))"
      by (rule sum.cong) (auto simp: same)
    then show ?thesis
      using assms(2) sum.remove [of "{..<?n}" i "\<lambda>j. waiters (ctx_at s' j)"]
        sum.remove [of "{..<?n}" i "\<lambda>j. waiters (ctx_at s j)"] entry_ctx [OF own] entry_ctx [OF assms(3)]
      by simp
  qed
  then have "of_nat (\<Sum>j < ?n. waiters (ctx_at s' j)) + of_nat (waiters c) =
      (of_nat (\<Sum>j < ?n. waiters (ctx_at s j)) + of_nat (waiters c') :: 64 word)"
    by (metis of_nat_add)
  moreover have "m_pendingEventCount s = of_nat (\<Sum>j < ?n. waiters (ctx_at s j))"
    using assms(1) unfolding io_inv_def by blast
  ultimately have pending: "m_pendingEventCount s' = of_nat (\<Sum>j < ?n. waiters (ctx_at s' j))"
    using assms(8) by (metis add_right_cancel)
  have same: "m_fdContexts s' = m_fdContexts s" "m_tickleFds s' = m_tickleFds s"
    using assms(5) by (simp_all add: changed_def)
  have "(fd \<noteq> fst (m_tickleFds s) \<longrightarrow> ep_set (ep s') fd = None) \<and> ep_ptr s' fd = None"
    if "fd < 0 \<or> int ?n \<le> fd" for fd
    using assms(1,2,5) that unfolding io_inv_def changed_def by auto
  moreover have "ep_set (ep s') (fst (m_tickleFds s)) \<noteq> None"
    using assms(1,4,5) unfolding io_inv_def changed_def by auto
  ultimately have "io_inv s'"
    using assms(1) entries pending unfolding io_inv_def same by blast
  with own show ?thesis by blast
qed

section \<open>The operations on one entry\<close>

lemma ctl_ok:
  assumes "valid fd" and "fd \<noteq> epfd (ep s)" and "op = EPOLL_CTL_ADD \<longleftrightarrow> ep_set (ep s) fd = None"
  shows "ctl valid op fd ev p s = (0, s\<lparr>
    ep := (ep s)\<lparr>ep_set := (ep_set (ep s))(fd := if op = EPOLL_CTL_DEL then None else Some ev)\<rparr>,
    ep_ptr := (ep_ptr s)(fd := if op = EPOLL_CTL_DEL then None else Some p)\<rparr>)"
  using assms by (cases op) (auto simp: ctl_def epoll_ctl_def)

lemma ctl_refused:
  assumes "\<not> (valid fd \<and> fd \<noteq> epfd (ep s) \<and> (op = EPOLL_CTL_ADD \<longleftrightarrow> ep_set (ep s) fd = None))"
  shows "ctl valid op fd ev p s = (-1, s)"
  using assms by (cases op) (auto simp: ctl_def epoll_ctl_def)

definition waiter_task :: "event_context \<Rightarrow> sched_task" where
  "waiter_task x = (if ec_cb x \<noteq> None then cb_task (ec_cb x) any_thread else fiber_task (ec_fiber x) any_thread)"

definition without_read :: "bool \<Rightarrow> fd_context \<Rightarrow> fd_context" where
  "without_read b c = (if b then c\<lparr>fc_events := fc_events c AND NOT IO_READ, fc_read := clean_context\<rparr> else c)"

definition without_write :: "bool \<Rightarrow> fd_context \<Rightarrow> fd_context" where
  "without_write b c = (if b then c\<lparr>fc_events := fc_events c AND NOT IO_WRITE, fc_write := clean_context\<rparr> else c)"

lemma runnable_waiter: "waiting x \<Longrightarrow> runnable (waiter_task x)"
  by (auto simp: waiting_def waiter_task_def runnable_def cb_task_def fiber_task_def)

lemma schedule_iom:
  assumes "runnable ft" and "\<not> s_locked s"
  shows "schedule iom_tickle ft s = Inr (s\<lparr>m_tasks := m_tasks s @ [ft],
    pipe_bytes := pipe_bytes s + (if m_tasks s = [] \<and> hasIdleThreads s then 1 else 0)\<rparr>)"
  using assms
  by (auto simp: schedule_def scheduleNoLock_def iom_tickle_def runnable_def hasIdleThreads_def)

lemma triggerEvent_ok:
  assumes "fdc s p = Some c" and "ctx_ok c" and "\<not> s_locked s"
  shows "reads c \<Longrightarrow> triggerEvent IO_READ p s =
      schedule iom_tickle (waiter_task (fc_read c)) (put_ctx p (without_read True c) s)"
    and "writes c \<Longrightarrow> triggerEvent IO_WRITE p s =
      schedule iom_tickle (waiter_task (fc_write c)) (put_ctx p (without_write True c) s)"
proof -
  have clean: "(x\<lparr>ec_cb := None\<rparr>)\<lparr>ec_scheduler := False\<rparr> = clean_context" if "waiting x" "ec_cb x \<noteq> None" for x
    using that by (cases x) (auto simp: waiting_def clean_context_def)
  have clean': "(x\<lparr>ec_fiber := None\<rparr>)\<lparr>ec_scheduler := False\<rparr> = clean_context" if "waiting x" "ec_cb x = None" for x
    using that by (cases x) (auto simp: waiting_def clean_context_def)
  have w: "waiting x \<Longrightarrow> ec_scheduler x" for x by (simp add: waiting_def)
  show "triggerEvent IO_READ p s =
      schedule iom_tickle (waiter_task (fc_read c)) (put_ctx p (without_read True c) s)" if "reads c"
  proof -
    have x: "waiting (fc_read c)" using assms(2) that by (simp add: ctx_ok_def)
    show ?thesis
      using assms(1) that w [OF x] clean [OF x] clean' [OF x]
      by (cases "ec_cb (fc_read c) = None")
        (simp_all add: triggerEvent_def reads_def getContext_def putContext_def without_read_def waiter_task_def Let_def)
  qed
  show "triggerEvent IO_WRITE p s =
      schedule iom_tickle (waiter_task (fc_write c)) (put_ctx p (without_write True c) s)" if "writes c"
  proof -
    have x: "waiting (fc_write c)" using assms(2) that by (simp add: ctx_ok_def)
    show ?thesis
      using assms(1) that w [OF x] clean [OF x] clean' [OF x]
      by (cases "ec_cb (fc_write c) = None")
        (simp_all add: triggerEvent_def writes_def getContext_def putContext_def without_write_def waiter_task_def io_masks Let_def)
  qed
qed

lemma without_ok:
  assumes "ctx_ok c"
  shows "ctx_ok (without_read b c)" and "ctx_ok (without_write b c)"
    and "reads (without_read b c) \<longleftrightarrow> reads c \<and> \<not> b" and "writes (without_read b c) = writes c"
    and "reads (without_write b c) = reads c" and "writes (without_write b c) \<longleftrightarrow> writes c \<and> \<not> b"
    and "fc_fd (without_read b c) = fc_fd c" and "fc_fd (without_write b c) = fc_fd c"
    and "fc_write (without_read b c) = fc_write c"
proof -
  from assms show "reads (without_read b c) \<longleftrightarrow> reads c \<and> \<not> b" "writes (without_read b c) = writes c"
    "reads (without_write b c) = reads c" "writes (without_write b c) \<longleftrightarrow> writes c \<and> \<not> b"
    by (cases rule: events_cases; simp add: without_read_def without_write_def reads_def writes_def io_masks)+
  with assms show "ctx_ok (without_read b c)" "ctx_ok (without_write b c)"
    by (cases rule: events_cases; simp add: ctx_ok_def; auto simp: without_read_def without_write_def io_masks)+
qed (simp_all add: without_read_def without_write_def)

text \<open>Waking the waiters of a context: its reader, its writer, or both.\<close>

definition woken :: "bool \<Rightarrow> bool \<Rightarrow> fd_context \<Rightarrow> sched_task list" where
  "woken r w c = (if r then [waiter_task (fc_read c)] else []) @ (if w then [waiter_task (fc_write c)] else [])"

definition after_triggers :: "bool \<Rightarrow> bool \<Rightarrow> nat \<Rightarrow> fd_context \<Rightarrow> iomanager \<Rightarrow> iomanager" where
  "after_triggers r w p c s = s\<lparr>fdc := (fdc s)(p \<mapsto> without_write w (without_read r c)),
     m_tasks := m_tasks s @ woken r w c,
     m_pendingEventCount := m_pendingEventCount s - of_nat (length (woken r w c)),
     pipe_bytes := pipe_bytes s + (if woken r w c \<noteq> [] \<and> m_tasks s = [] \<and> hasIdleThreads s then 1 else 0)\<rparr>"

lemma trigger_read:
  assumes "fdc s p = Some c" and "ctx_ok c" and "\<not> s_locked s" and "r \<longrightarrow> reads c"
  shows "trigger_if r IO_READ p s = Inr (after_triggers r False p c s)"
proof (cases r)
  case True
  then have "waiting (fc_read c)" using assms(2,4) by (simp add: ctx_ok_def)
  then show ?thesis
    using triggerEvent_ok(1) [OF assms(1-3)] assms(3,4) True
    by (simp add: trigger_if_def trigger_and_count_def schedule_iom runnable_waiter put_ctx_def after_triggers_def
        woken_def without_write_def hasIdleThreads_def)
next
  case False
  with assms(1) show ?thesis
    by (simp add: trigger_if_def after_triggers_def woken_def without_write_def without_read_def fun_upd_idem)
qed

lemma trigger_write:
  assumes "fdc s p = Some c" and "ctx_ok c" and "\<not> s_locked s" and "w \<longrightarrow> writes c"
  shows "trigger_if w IO_WRITE p s = Inr (after_triggers False w p c s)"
proof (cases w)
  case True
  then have "waiting (fc_write c)" using assms(2,4) by (simp add: ctx_ok_def)
  then show ?thesis
    using triggerEvent_ok(2) [OF assms(1-3)] assms(3,4) True
    by (simp add: trigger_if_def trigger_and_count_def schedule_iom runnable_waiter put_ctx_def after_triggers_def
        woken_def without_read_def hasIdleThreads_def)
next
  case False
  with assms(1) show ?thesis
    by (simp add: trigger_if_def after_triggers_def woken_def without_write_def without_read_def fun_upd_idem)
qed

lemma after_triggers_twice:
  assumes "fdc s p = Some c"
  shows "after_triggers False w p (without_read r c) (after_triggers r False p c s) = after_triggers r w p c s"
proof -
  have "fc_write (without_read r c) = fc_write c" by (simp add: without_read_def)
  then show ?thesis
    by (cases r; cases w)
      (simp_all add: after_triggers_def woken_def without_read_def [of False] without_write_def [of False] hasIdleThreads_def)
qed

lemma triggers_ok:
  assumes "fdc s p = Some c" and "ctx_ok c" and "\<not> s_locked s" and "r \<longrightarrow> reads c" and "w \<longrightarrow> writes c"
  shows "bindR (trigger_if r IO_READ p s) (trigger_if w IO_WRITE p) = Inr (after_triggers r w p c s)"
proof -
  let ?s = "after_triggers r False p c s"
  have "fdc ?s p = Some (without_read r c)" by (simp add: after_triggers_def without_write_def)
  moreover have "w \<longrightarrow> writes (without_read r c)" using assms(5) without_ok(4) [OF assms(2)] by simp
  ultimately have "trigger_if w IO_WRITE p ?s = Inr (after_triggers False w p (without_read r c) ?s)"
    using assms(3) by (intro trigger_write without_ok assms(2)) (simp_all add: after_triggers_def)
  then show ?thesis
    using trigger_read [OF assms(1-4)] after_triggers_twice [OF assms(1)] by simp
qed

text \<open>Together with the kernel's part: events \<open>r\<close> and \<open>w\<close> of an entry end.\<close>

definition events_end ::
  "bool \<Rightarrow> bool \<Rightarrow> nat \<Rightarrow> nat \<Rightarrow> fd_context \<Rightarrow> iomanager \<Rightarrow> iomanager" where
  "events_end r w i p c s =
     (let c' = without_write w (without_read r c) in
      after_triggers r w p c (s\<lparr>ep := (ep s)\<lparr>ep_set := (ep_set (ep s))(int i := kernel_mask c')\<rparr>,
        ep_ptr := (ep_ptr s)(int i := (if fc_events c' = 0 then None else Some p))\<rparr>))"

lemma waiters_without:
  assumes "ctx_ok c" and "r \<longrightarrow> reads c" and "w \<longrightarrow> writes c"
  shows "waiters (without_write w (without_read r c)) + length (woken r w c) = waiters c"
proof -
  let ?c = "without_write w (without_read r c)"
  have "ctx_ok (without_read r c)" using assms(1) by (rule without_ok)
  then have "reads ?c \<longleftrightarrow> reads c \<and> \<not> r" "writes ?c \<longleftrightarrow> writes c \<and> \<not> w"
    using without_ok(3-6) [OF assms(1)] without_ok(5,6) by auto
  then show ?thesis using assms(2,3) by (auto simp: waiters_def woken_def)
qed

lemma events_end_inv:
  assumes "io_inv s" and "i < length (m_fdContexts s)" and "entry_ok s i p c" and "int i \<noteq> fst (m_tickleFds s)"
    and "r \<longrightarrow> reads c" and "w \<longrightarrow> writes c"
  shows "io_inv (events_end r w i p c s) \<and>
    entry_ok (events_end r w i p c s) i p (without_write w (without_read r c))"
proof -
  have c: "ctx_ok c" "fc_fd c = int i" using assms(3) by (simp_all add: entry_ok_def)
  let ?c = "without_write w (without_read r c)"
  have "of_nat (waiters c) = (of_nat (waiters ?c) + of_nat (length (woken r w c)) :: 64 word)"
    using waiters_without [OF c(1) assms(5,6)] by (metis of_nat_add)
  then show ?thesis
    by (intro changed_inv [OF assms(1-4)])
      (simp_all add: changed_def events_end_def after_triggers_def Let_def without_ok c)
qed

lemma context_at_entry:
  assumes "i < length (m_fdContexts s)" and "entry_ok s i p c"
  shows "context_at (int i) s = Inr p" and "fdc s p = Some c"
  using assms by (simp_all add: context_at_def entry_ok_def)

text \<open>What the kernel has, and the call that takes events off, whichever operation it needs.\<close>

lemma ctl_left:
  assumes "entry_ok s i p c" and "int i \<noteq> fst (m_tickleFds s)" and "valid (int i)" and "int i \<noteq> epfd (ep s)"
    and "fc_events c \<noteq> 0" and "fc_events c' = left"
  shows "ctl valid (if left \<noteq> 0 then EPOLL_CTL_MOD else EPOLL_CTL_DEL) (int i) (EPOLLET OR left) p s =
    (0, s\<lparr>ep := (ep s)\<lparr>ep_set := (ep_set (ep s))(int i := kernel_mask c')\<rparr>,
        ep_ptr := (ep_ptr s)(int i := (if left = 0 then None else Some p))\<rparr>)"
proof -
  have "ep_set (ep s) (int i) \<noteq> None" using assms(1,2,5) by (simp add: entry_ok_def kernel_mask_def)
  then show ?thesis using assms(3,4,6) by (subst ctl_ok) (auto simp: kernel_mask_def)
qed

lemma cancelEvent_ok:
  assumes "io_inv s" and "i < length (m_fdContexts s)" and "entry_ok s i p c" and "int i \<noteq> fst (m_tickleFds s)"
    and "valid (int i)" and "int i \<noteq> epfd (ep s)" and "\<not> s_locked s"
  shows "cancelEvent valid (int i) IO_READ s =
      Inr (if reads c then (True, events_end True False i p c s) else (False, s))"
    and "cancelEvent valid (int i) IO_WRITE s =
      Inr (if writes c then (True, events_end False True i p c s) else (False, s))"
proof -
  note look = context_at_entry [OF assms(2,3)]
  have c: "ctx_ok c" using assms(3) by (simp add: entry_ok_def)
  have wo: "without_write False x = x" "without_read False x = x" for x
    by (simp_all add: without_write_def without_read_def)
  show "cancelEvent valid (int i) IO_READ s =
      Inr (if reads c then (True, events_end True False i p c s) else (False, s))"
  proof (cases "reads c")
    case True
    then have nz: "fc_events c \<noteq> 0" by (auto simp: reads_def has_event_def)
    note ctl = ctl_left [where valid = valid, OF assms(3-6) nz, of "without_read True c"]
    have "trigger_and_count IO_READ p s' = Inr (after_triggers True False p c s')" if "fdc s' p = Some c" "\<not> s_locked s'" for s'
      using trigger_read [OF that(1) c that(2), of True] True by (simp add: trigger_if_def)
    with True look assms(2,7) ctl show ?thesis
      by (auto simp: cancelEvent_def reads_def Let_def events_end_def wo without_read_def)
  next
    case False
    with look assms(2) show ?thesis by (simp add: cancelEvent_def reads_def)
  qed
  show "cancelEvent valid (int i) IO_WRITE s =
      Inr (if writes c then (True, events_end False True i p c s) else (False, s))"
  proof (cases "writes c")
    case True
    then have nz: "fc_events c \<noteq> 0" by (auto simp: writes_def has_event_def)
    note ctl = ctl_left [where valid = valid, OF assms(3-6) nz, of "without_write True c"]
    have "trigger_and_count IO_WRITE p s' = Inr (after_triggers False True p c s')" if "fdc s' p = Some c" "\<not> s_locked s'" for s'
      using trigger_write [OF that(1) c that(2), of True] True by (simp add: trigger_if_def)
    with True look assms(2,7) ctl show ?thesis
      by (auto simp: cancelEvent_def writes_def Let_def events_end_def wo without_write_def)
  next
    case False
    with look assms(2) show ?thesis by (simp add: cancelEvent_def writes_def)
  qed
qed

lemma all_gone:
  assumes "ctx_ok c"
  shows "fc_events (without_write (writes c) (without_read (reads c) c)) = 0"
  using assms by (cases rule: events_cases) (simp_all add: without_write_def without_read_def io_masks)

lemma cancelAll_ok:
  assumes "io_inv s" and "i < length (m_fdContexts s)" and "entry_ok s i p c" and "int i \<noteq> fst (m_tickleFds s)"
    and "valid (int i)" and "int i \<noteq> epfd (ep s)" and "\<not> s_locked s"
  shows "cancelAll valid (int i) s =
    Inr (if fc_events c \<noteq> 0 then (True, events_end (reads c) (writes c) i p c s) else (False, s))"
proof (cases "fc_events c = 0")
  case True
  with context_at_entry [OF assms(2,3)] assms(2) show ?thesis by (simp add: cancelAll_def)
next
  case False
  note look = context_at_entry [OF assms(2,3)]
  have c: "ctx_ok c" using assms(3) by (simp add: entry_ok_def)
  let ?c = "without_write (writes c) (without_read (reads c) c)"
  let ?s = "s\<lparr>ep := (ep s)\<lparr>ep_set := (ep_set (ep s))(int i := None)\<rparr>, ep_ptr := (ep_ptr s)(int i := None)\<rparr>"
  have "ep_set (ep s) (int i) \<noteq> None" using assms(3,4) False by (simp add: entry_ok_def kernel_mask_def)
  then have ctl: "ctl valid EPOLL_CTL_DEL (int i) 0 p s = (0, ?s)"
    using assms(5,6) by (subst ctl_ok) simp_all
  have fdc: "fdc ?s p = Some c" "\<not> s_locked ?s" using look assms(7) by simp_all
  let ?s1 = "after_triggers (reads c) False p c ?s"
  have r: "trigger_if (reads c) IO_READ p ?s = Inr ?s1" by (rule trigger_read [OF fdc(1) c fdc(2)]) simp
  have w: "trigger_if (writes c) IO_WRITE p ?s1 = Inr (after_triggers (reads c) (writes c) p c ?s)"
    using triggers_ok [OF fdc(1) c fdc(2), of "reads c" "writes c"] r by simp
  have "fdc ?s1 p = Some (without_read (reads c) c)" by (simp add: after_triggers_def without_write_def)
  then have e1: "has_event (events_of p ?s1) IO_WRITE = writes c"
    using without_ok(4) [OF c] by (simp add: events_of_def writes_def)
  have e0: "has_event (events_of p ?s) IO_READ = reads c" using fdc by (simp add: events_of_def reads_def)
  have e2: "events_of p (after_triggers (reads c) (writes c) p c ?s) = 0"
    using all_gone [OF c] by (simp add: events_of_def after_triggers_def)
  have "events_end (reads c) (writes c) i p c s = after_triggers (reads c) (writes c) p c ?s"
    using all_gone [OF c] by (simp add: events_end_def kernel_mask_def)
  then show ?thesis
    using look assms(2) False by (simp add: cancelAll_def ctl e0 r e1 w e2)
qed

lemma delEvent_ok:
  assumes "io_inv s" and "i < length (m_fdContexts s)" and "entry_ok s i p c" and "int i \<noteq> fst (m_tickleFds s)"
    and "valid (int i)" and "int i \<noteq> epfd (ep s)"
  shows "delEvent valid (int i) IO_READ s = Inr (if reads c
      then (True, (events_end True False i p c s)\<lparr>m_tasks := m_tasks s, pipe_bytes := pipe_bytes s\<rparr>) else (False, s))"
    and "delEvent valid (int i) IO_WRITE s = Inr (if writes c
      then (True, (events_end False True i p c s)\<lparr>m_tasks := m_tasks s, pipe_bytes := pipe_bytes s\<rparr>) else (False, s))"
proof -
  note look = context_at_entry [OF assms(2,3)]
  have wo: "without_write False x = x" "without_read False x = x" for x
    by (simp_all add: without_write_def without_read_def)
  have reset: "resetContext x = clean_context" for x by (simp add: resetContext_def clean_context_def)
  show "delEvent valid (int i) IO_READ s = Inr (if reads c
      then (True, (events_end True False i p c s)\<lparr>m_tasks := m_tasks s, pipe_bytes := pipe_bytes s\<rparr>) else (False, s))"
  proof (cases "reads c")
    case True
    then have nz: "fc_events c \<noteq> 0" by (auto simp: reads_def has_event_def)
    note ctl = ctl_left [where valid = valid, OF assms(3-6) nz, of "without_read True c"]
    with True look assms(2) ctl show ?thesis
      by (auto simp: delEvent_def reads_def Let_def events_end_def wo without_read_def after_triggers_def woken_def
          getContext_def putContext_def put_ctx_def reset)
  next
    case False
    with look assms(2) show ?thesis by (simp add: delEvent_def reads_def)
  qed
  show "delEvent valid (int i) IO_WRITE s = Inr (if writes c
      then (True, (events_end False True i p c s)\<lparr>m_tasks := m_tasks s, pipe_bytes := pipe_bytes s\<rparr>) else (False, s))"
  proof (cases "writes c")
    case True
    then have nz: "fc_events c \<noteq> 0" by (auto simp: writes_def has_event_def)
    note ctl = ctl_left [where valid = valid, OF assms(3-6) nz, of "without_write True c"]
    with True look assms(2) ctl show ?thesis
      by (auto simp: delEvent_def writes_def Let_def events_end_def wo without_write_def after_triggers_def woken_def
          getContext_def putContext_def put_ctx_def reset io_masks)
  next
    case False
    with look assms(2) show ?thesis by (simp add: delEvent_def writes_def)
  qed
qed

text \<open>What a reported mask asks for: an error or a hang-up asks for all there is.\<close>

definition asks_read :: "32 word \<Rightarrow> fd_context \<Rightarrow> bool" where
  "asks_read m c \<longleftrightarrow> has_event m EPOLLIN \<or> has_event m (EPOLLERR OR EPOLLHUP) \<and> reads c"

definition asks_write :: "32 word \<Rightarrow> fd_context \<Rightarrow> bool" where
  "asks_write m c \<longleftrightarrow> has_event m EPOLLOUT \<or> has_event m (EPOLLERR OR EPOLLHUP) \<and> writes c"

lemma has_event_or: "has_event (a OR b) k \<longleftrightarrow> has_event a k \<or> has_event b k"
proof -
  have "(a OR b) AND k = (a AND k) OR (b AND k)" by (simp add: bit_eq_iff bit_simps) auto
  then show ?thesis by (auto simp: has_event_def bit_eq_iff bit_simps)
qed

lemma asked_mask:
  assumes "ctx_ok c"
  shows "has_event (if has_event m (EPOLLERR OR EPOLLHUP) then m OR ((EPOLLIN OR EPOLLOUT) AND fc_events c) else m) EPOLLIN
      = asks_read m c"
    and "has_event (if has_event m (EPOLLERR OR EPOLLHUP) then m OR ((EPOLLIN OR EPOLLOUT) AND fc_events c) else m) EPOLLOUT
      = asks_write m c"
proof -
  have e: "EPOLLIN = IO_READ" "EPOLLOUT = IO_WRITE" by (simp_all add: EPOLLIN_def EPOLLOUT_def io_bits)
  have "has_event ((IO_READ OR IO_WRITE) AND fc_events c) IO_READ = reads c"
    "has_event ((IO_READ OR IO_WRITE) AND fc_events c) IO_WRITE = writes c"
    using assms by (cases rule: events_cases; simp add: io_masks; simp add: io_bits)+
  then show "has_event (if has_event m (EPOLLERR OR EPOLLHUP) then m OR ((EPOLLIN OR EPOLLOUT) AND fc_events c) else m) EPOLLIN
      = asks_read m c"
    "has_event (if has_event m (EPOLLERR OR EPOLLHUP) then m OR ((EPOLLIN OR EPOLLOUT) AND fc_events c) else m) EPOLLOUT
      = asks_write m c"
    unfolding asks_read_def asks_write_def e by (auto simp: has_event_or)
qed

lemma real_events_facts:
  fixes r w :: bool
  assumes "ctx_ok c"
  defines "real \<equiv> (if r then IO_READ else IO_NONE) OR (if w then IO_WRITE else IO_NONE)"
  shows "fc_events c AND real = IO_NONE \<longleftrightarrow> \<not> (r \<and> reads c \<or> w \<and> writes c)"
    and "has_event real IO_READ = r" and "has_event real IO_WRITE = w"
    and "fc_events c AND NOT real = fc_events (without_write w (without_read r c))"
proof -
  show "fc_events c AND real = IO_NONE \<longleftrightarrow> \<not> (r \<and> reads c \<or> w \<and> writes c)"
    using assms(1) unfolding real_def by (cases rule: events_cases; cases r; cases w; simp; simp add: io_bits)
  show "has_event real IO_READ = r" "has_event real IO_WRITE = w"
    unfolding real_def by (cases r; cases w; simp add: io_bits)+
  show "fc_events c AND NOT real = fc_events (without_write w (without_read r c))"
    using assms(1) unfolding real_def
    by (cases rule: events_cases; cases r; cases w; simp add: without_write_def without_read_def; simp add: io_bits)
qed

text \<open>
  A reported event on an entry. Where the mask asks for more than is registered by now, a trigger
  stops at its assertion; where it asks for nothing that is, nothing happens.
\<close>

lemma idle_event_ok:
  assumes "io_inv s" and "i < length (m_fdContexts s)" and "entry_ok s i p c" and "int i \<noteq> fst (m_tickleFds s)"
    and "valid (int i)" and "int i \<noteq> epfd (ep s)" and "\<not> s_locked s"
    and "r = asks_read m c" and "w = asks_write m c"
  shows "idle_event valid (m, Some p) s =
    (if \<not> (r \<and> reads c \<or> w \<and> writes c) then Inr s
     else if (r \<longrightarrow> reads c) \<and> (w \<longrightarrow> writes c) then Inr (events_end r w i p c s) else Inl AssertFail)"
proof -
  have c: "ctx_ok c" "fc_fd c = int i" "fdc s p = Some c" using assms(3) by (simp_all add: entry_ok_def)
  note masks = asked_mask [OF c(1), of m, folded assms(8,9)]
  let ?real = "(if r then IO_READ else IO_NONE) OR (if w then IO_WRITE else IO_NONE)"
  note real = real_events_facts [OF c(1), of r w]
  have unf: "idle_event valid (m, Some p) s =
      (if fc_events c AND ?real = IO_NONE then Inr s
       else (let left = fc_events c AND NOT ?real;
                 (rt2, s) = ctl valid (if left \<noteq> 0 then EPOLL_CTL_MOD else EPOLL_CTL_DEL) (fc_fd c) (EPOLLET OR left) p s in
             if rt2 \<noteq> 0 then Inr s
             else bindR (trigger_if (has_event ?real IO_READ) IO_READ p s) (trigger_if (has_event ?real IO_WRITE) IO_WRITE p)))"
    by (simp only: idle_event_def snd_conv fst_conv option.case c(3) Let_def masks)
  show ?thesis
  proof (cases "r \<and> reads c \<or> w \<and> writes c")
    case False
    then show ?thesis using real(1) unfolding unf by simp
  next
    case True
    let ?c = "without_write w (without_read r c)"
    let ?s = "s\<lparr>ep := (ep s)\<lparr>ep_set := (ep_set (ep s))(int i := kernel_mask ?c)\<rparr>,
      ep_ptr := (ep_ptr s)(int i := (if fc_events ?c = 0 then None else Some p))\<rparr>"
    have nz: "fc_events c \<noteq> 0" using True by (auto simp: reads_def writes_def has_event_def)
    note ctl = ctl_left [where valid = valid, OF assms(3-6) nz refl, of ?c]
    have go: "idle_event valid (m, Some p) s = bindR (trigger_if r IO_READ p ?s) (trigger_if w IO_WRITE p)"
      using True real unfolding unf by (simp add: c(2) ctl)
    have s: "fdc ?s p = Some c" "\<not> s_locked ?s" using c assms(7) by simp_all
    show ?thesis
    proof (cases "(r \<longrightarrow> reads c) \<and> (w \<longrightarrow> writes c)")
      case all: True
      then show ?thesis
        using True triggers_ok [OF s(1) c(1) s(2)] unfolding go by (simp add: events_end_def Let_def)
    next
      case missing: False
      show ?thesis
      proof (cases "r \<and> \<not> reads c")
        case True
        then have "trigger_if r IO_READ p ?s = Inl AssertFail"
          by (simp add: trigger_if_def trigger_and_count_def triggerEvent_def c reads_def)
        with missing \<open>r \<and> reads c \<or> w \<and> writes c\<close> show ?thesis unfolding go by auto
      next
        case ready: False
        then have w: "w" "\<not> writes c" using missing by auto
        have first: "trigger_if r IO_READ p ?s = Inr (after_triggers r False p c ?s)"
          by (rule trigger_read [OF s(1) c(1) s(2)]) (use ready in simp)
        have "\<not> has_event (fc_events (without_read r c)) IO_WRITE"
          using w without_ok(4) [OF c(1), of r] by (simp add: writes_def)
        then have "trigger_if w IO_WRITE p (after_triggers r False p c ?s) = Inl AssertFail"
          using w by (simp add: trigger_if_def trigger_and_count_def triggerEvent_def after_triggers_def without_write_def)
        with missing \<open>r \<and> reads c \<or> w \<and> writes c\<close> show ?thesis unfolding go first by auto
      qed
    qed
  qed
qed

text \<open>An event is added, for a function, or for the fiber that runs.\<close>

definition with_event :: "32 word \<Rightarrow> event_context \<Rightarrow> fd_context \<Rightarrow> fd_context" where
  "with_event ev x c = putContext ev x (c\<lparr>fc_events := fc_events c OR ev\<rparr>)"

definition event_added :: "32 word \<Rightarrow> event_context \<Rightarrow> nat \<Rightarrow> nat \<Rightarrow> fd_context \<Rightarrow> iomanager \<Rightarrow> iomanager" where
  "event_added ev x i p c s =
     s\<lparr>fdc := (fdc s)(p \<mapsto> with_event ev x c), m_pendingEventCount := m_pendingEventCount s + 1,
       ep := (ep s)\<lparr>ep_set := (ep_set (ep s))(int i := kernel_mask (with_event ev x c))\<rparr>,
       ep_ptr := (ep_ptr s)(int i \<mapsto> p)\<rparr>"

lemma with_event_facts:
  assumes "ctx_ok c" and "ev = IO_READ \<or> ev = IO_WRITE" and "\<not> has_event (fc_events c) ev" and "waiting x"
  shows "ctx_ok (with_event ev x c)" and "fc_fd (with_event ev x c) = fc_fd c"
    and "waiters (with_event ev x c) = waiters c + 1" and "fc_events (with_event ev x c) = fc_events c OR ev"
    and "fc_events (with_event ev x c) \<noteq> 0"
proof -
  note defs = with_event_def putContext_def
  show "ctx_ok (with_event ev x c)" "waiters (with_event ev x c) = waiters c + 1" "fc_events (with_event ev x c) \<noteq> 0"
    using assms(1-4)
    by (cases rule: events_cases; elim disjE; simp add: defs io_masks ctx_ok_def reads_def writes_def waiters_def)+
  show "fc_fd (with_event ev x c) = fc_fd c" "fc_events (with_event ev x c) = fc_events c OR ev"
    by (simp_all add: defs)
qed

lemma clean_slot:
  assumes "ctx_ok c" and "ev = IO_READ \<or> ev = IO_WRITE" and "\<not> has_event (fc_events c) ev"
  shows "getContext ev (c\<lparr>fc_events := e\<rparr>) = Inr clean_context"
  using assms by (auto simp: getContext_def ctx_ok_def reads_def writes_def io_masks)

lemma event_added_inv:
  assumes "io_inv s" and "i < length (m_fdContexts s)" and "entry_ok s i p c" and "int i \<noteq> fst (m_tickleFds s)"
    and "ev = IO_READ \<or> ev = IO_WRITE" and "\<not> has_event (fc_events c) ev" and "waiting x"
  shows "io_inv (event_added ev x i p c s) \<and> entry_ok (event_added ev x i p c s) i p (with_event ev x c)"
proof -
  have c: "ctx_ok c" "fc_fd c = int i" using assms(3) by (simp_all add: entry_ok_def)
  note facts = with_event_facts [OF c(1) assms(5-7)]
  show ?thesis
    using facts(5)
    by (intro changed_inv [OF assms(1-4)]) (simp_all add: changed_def event_added_def facts(1-4) c)
qed

definition cb_context :: "nat \<Rightarrow> event_context" where
  "cb_context f = \<lparr>ec_scheduler = True, ec_fiber = None, ec_cb = Some f\<rparr>"

definition fiber_context :: "nat \<Rightarrow> event_context" where
  "fiber_context f = \<lparr>ec_scheduler = True, ec_fiber = Some f, ec_cb = None\<rparr>"

lemma waiting_contexts [simp]: "waiting (cb_context f)" "waiting (fiber_context f)"
  by (simp_all add: waiting_def cb_context_def fiber_context_def)

lemma addEvent_on_entry:
  assumes "i < length (m_fdContexts s)" and "entry_ok s i p c"
  shows "addEvent valid fresh t a (int i) ev cb s = addEvent_on valid t a (int i) ev cb p s"
  using context_at_entry [OF assms] assms(1) by (simp add: addEvent_def addEvent_look_def)

lemma ctl_add:
  assumes "io_inv s" and "entry_ok s i p c"
  shows "ctl valid (if fc_events c \<noteq> 0 then EPOLL_CTL_MOD else EPOLL_CTL_ADD) (int i) ev p s =
    (if valid (int i) \<and> int i \<noteq> epfd (ep s) \<and> int i \<noteq> fst (m_tickleFds s)
     then (0, s\<lparr>ep := (ep s)\<lparr>ep_set := (ep_set (ep s))(int i \<mapsto> ev)\<rparr>, ep_ptr := (ep_ptr s)(int i \<mapsto> p)\<rparr>)
     else (-1, s))"
proof (cases "int i = fst (m_tickleFds s)")
  case True
  then have "fc_events c = 0" "ep_set (ep s) (int i) \<noteq> None"
    using assms by (auto simp: entry_ok_def io_inv_def)
  with True show ?thesis by (simp add: ctl_refused)
next
  case False
  then have "ep_set (ep s) (int i) = kernel_mask c" using assms(2) by (simp add: entry_ok_def)
  with False show ?thesis
    by (auto simp: kernel_mask_def ctl_ok ctl_refused)
qed

lemma addEvent_ok:
  assumes "io_inv s" and "i < length (m_fdContexts s)" and "entry_ok s i p c"
    and "ev = IO_READ \<or> ev = IO_WRITE" and "\<not> has_event (fc_events c) ev"
  shows "\<not> (valid (int i) \<and> int i \<noteq> epfd (ep s) \<and> int i \<noteq> fst (m_tickleFds s)) \<Longrightarrow>
      addEvent valid fresh t a (int i) ev cb s = Inr (-1, s)"
    and "valid (int i) \<Longrightarrow> int i \<noteq> epfd (ep s) \<Longrightarrow> int i \<noteq> fst (m_tickleFds s) \<Longrightarrow> scheduler_GetThis t s \<Longrightarrow>
      addEvent valid fresh t a (int i) ev (Some f) s = Inr (0, event_added ev (cb_context f) i p c s)"
    and "valid (int i) \<Longrightarrow> int i \<noteq> epfd (ep s) \<Longrightarrow> int i \<noteq> fst (m_tickleFds s) \<Longrightarrow> scheduler_GetThis t s \<Longrightarrow>
      t_fiber (loc s t) = Some g \<Longrightarrow> fib s g = Some y \<Longrightarrow> m_state y = FRunning \<Longrightarrow>
      addEvent valid fresh t a (int i) ev None s = Inr (0, event_added ev (fiber_context g) i p c s)"
proof -
  have c: "ctx_ok c" "fdc s p = Some c" using assms(3) by (simp_all add: entry_ok_def)
  note clean = clean_slot [OF c(1) assms(4,5)]
  have km: "kernel_mask (with_event ev x c) = Some (EPOLLET OR fc_events c OR ev)" for x
    using c(1) assms(4,5)
    by (cases rule: events_cases; elim disjE; simp add: kernel_mask_def with_event_def putContext_def io_masks or.assoc)
  note on = addEvent_on_entry [OF assms(2,3)] addEvent_on_def ctl_add [OF assms(1,3)]
  show "addEvent valid fresh t a (int i) ev cb s = Inr (-1, s)"
    if "\<not> (valid (int i) \<and> int i \<noteq> epfd (ep s) \<and> int i \<noteq> fst (m_tickleFds s))"
  proof -
    have "ctl valid (if fc_events c \<noteq> 0 then EPOLL_CTL_MOD else EPOLL_CTL_ADD) (int i) e p s = (-1, s)" for e
      unfolding ctl_add [OF assms(1,3)] by (rule if_not_P [OF that])
    with assms(5) show ?thesis by (simp add: addEvent_on_entry [OF assms(2,3)] addEvent_on_def c)
  qed
  show "addEvent valid fresh t a (int i) ev (Some f) s = Inr (0, event_added ev (cb_context f) i p c s)"
    if "valid (int i)" "int i \<noteq> epfd (ep s)" "int i \<noteq> fst (m_tickleFds s)" "scheduler_GetThis t s"
    using that assms(5)
    by (simp add: on c clean Let_def clean_context_def scheduler_GetThis_def put_ctx_def event_added_def
        km [unfolded with_event_def]
        cb_context_def with_event_def)
  show "addEvent valid fresh t a (int i) ev None s = Inr (0, event_added ev (fiber_context g) i p c s)"
    if "valid (int i)" "int i \<noteq> epfd (ep s)" "int i \<noteq> fst (m_tickleFds s)" "scheduler_GetThis t s"
      "t_fiber (loc s t) = Some g" "fib s g = Some y" "m_state y = FRunning"
    using that assms(5)
    by (simp add: on c clean Let_def clean_context_def scheduler_GetThis_def put_ctx_def event_added_def
        km [unfolded with_event_def]
        fiber_context_def with_event_def fiber_GetThis_def)
qed

section \<open>Growth\<close>

text \<open>New contexts come at addresses that are not in use.\<close>

definition fresh_for :: "(nat \<Rightarrow> nat) \<Rightarrow> iomanager \<Rightarrow> bool" where
  "fresh_for fresh s \<longleftrightarrow> inj fresh \<and> (\<forall>i. fdc s (fresh i) = None)"

lemma resize_loop_some:
  "resize_loop fresh i (map Some ps @ v) h =
     (map Some ps @ fst (resize_loop fresh (i + length ps) v h), snd (resize_loop fresh (i + length ps) v h))"
  by (induction ps arbitrary: i) (auto simp: Let_def split: prod.split)

lemma resize_loop_none:
  "inj fresh \<Longrightarrow> resize_loop fresh i (replicate k None) h =
     (map (\<lambda>j. Some (fresh j)) [i..<i + k],
      \<lambda>p. if \<exists>j \<in> {i..<i + k}. fresh j = p then Some (new_fd_context (int (the_inv fresh p))) else h p)"
proof (induction k arbitrary: i h)
  case (Suc k)
  let ?h = "h(fresh i \<mapsto> new_fd_context (int i))"
  note IH = Suc.IH [OF Suc.prems, of "Suc i" ?h]
  have "resize_loop fresh i (replicate (Suc k) None) h =
      (Some (fresh i) # map (\<lambda>j. Some (fresh j)) [Suc i..<Suc i + k],
       \<lambda>p. if \<exists>j \<in> {Suc i..<Suc i + k}. fresh j = p then Some (new_fd_context (int (the_inv fresh p))) else ?h p)"
    by (simp only: replicate.simps resize_loop.simps(3) Let_def IH prod.case)
  moreover have "Some (fresh i) # map (\<lambda>j. Some (fresh j)) [Suc i..<Suc i + k] = map (\<lambda>j. Some (fresh j)) [i..<i + Suc k]"
    by (simp add: upt_conv_Cons del: upt_Suc)
  moreover have "{i..<i + Suc k} = insert i {Suc i..<Suc i + k}" by auto
  ultimately show ?case using Suc.prems by (auto simp: fun_eq_iff the_inv_f_f)
qed simp

lemma io_inv_table:
  assumes "io_inv s"
  obtains ps where "m_fdContexts s = map Some ps"
proof -
  have "x \<noteq> None" if "x \<in> set (m_fdContexts s)" for x
    using assms that by (auto simp: io_inv_def entry_ok_def in_set_conv_nth)
  then have "map Some (map the (m_fdContexts s)) = m_fdContexts s" by (simp add: map_idI)
  with that [of "map the (m_fdContexts s)"] show thesis by simp
qed

lemma contextResize_grow:
  assumes "io_inv s" and "fresh_for fresh s" and "length (m_fdContexts s) \<le> n"
  shows "contextResize fresh n s = s\<lparr>
    m_fdContexts := m_fdContexts s @ map (\<lambda>j. Some (fresh j)) [length (m_fdContexts s)..<n],
    fdc := (\<lambda>p. if \<exists>j \<in> {length (m_fdContexts s)..<n}. fresh j = p then Some (new_fd_context (int (the_inv fresh p)))
            else fdc s p)\<rparr>"
proof -
  obtain ps where ps: "m_fdContexts s = map Some ps" using assms(1) by (rule io_inv_table)
  have "inj fresh" using assms(2) by (simp add: fresh_for_def)
  from resize_loop_none [OF this, of "length ps" "n - length ps" "fdc s"]
  show ?thesis
    using assms(3) ps by (simp add: contextResize_def resize_loop_some Let_def case_prod_beta)
qed

lemma resize_old_entry:
  assumes "io_inv s" and "fresh_for fresh s" and "length (m_fdContexts s) \<le> n"
    and "i < length (m_fdContexts s)" and e: "entry_ok s i p c"
  shows "entry_ok (contextResize fresh n s) i p c"
proof -
  have "p \<noteq> fresh j" for j
  proof
    assume "p = fresh j"
    with assms(2) have "fdc s p = None" by (simp add: fresh_for_def)
    with e show False by (simp add: entry_ok_def)
  qed
  with assms(4) e show ?thesis by (auto simp: contextResize_grow [OF assms(1-3)] entry_ok_def nth_append)
qed

lemma resize_new_entry:
  assumes "io_inv s" and "fresh_for fresh s" and "length (m_fdContexts s) \<le> n"
    and "length (m_fdContexts s) \<le> i" and "i < n"
  shows "entry_ok (contextResize fresh n s) i (fresh i) (new_fd_context (int i))"
proof -
  have inj: "inj fresh" using assms(2) by (simp add: fresh_for_def)
  have "ep_set (ep s) (int i) = None \<or> int i = fst (m_tickleFds s)" "ep_ptr s (int i) = None"
    using assms(1,4) unfolding io_inv_def by auto
  with assms(4,5) show ?thesis
    by (auto simp: contextResize_grow [OF assms(1-3)] entry_ok_def nth_append the_inv_f_f [OF inj] new_fd_context_def
        ctx_ok_def reads_def writes_def has_event_def IO_NONE_def kernel_mask_def)
qed

lemma resize_distinct:
  assumes "io_inv s" and "fresh_for fresh s" and "length (m_fdContexts s) \<le> n"
  shows "distinct (m_fdContexts (contextResize fresh n s))"
proof -
  have "Some (fresh j) \<notin> set (m_fdContexts s)" for j
  proof
    assume "Some (fresh j) \<in> set (m_fdContexts s)"
    then obtain i where i: "i < length (m_fdContexts s)" "m_fdContexts s ! i = Some (fresh j)" by (auto simp: in_set_conv_nth)
    obtain p c where "entry_ok s i p c" using assms(1) i(1) by (rule io_invE)
    moreover have "fdc s (fresh j) = None" using assms(2) by (simp add: fresh_for_def)
    ultimately show False using i by (simp add: entry_ok_def)
  qed
  moreover have "distinct (m_fdContexts s)" using assms(1) by (simp add: io_inv_def)
  moreover have "inj (\<lambda>j. Some (fresh j))" using assms(2) by (auto simp: inj_def fresh_for_def)
  ultimately show ?thesis by (auto simp: contextResize_grow [OF assms] distinct_map intro: inj_on_subset)
qed

lemma resize_waiters:
  assumes "io_inv s" and "fresh_for fresh s" and "length (m_fdContexts s) \<le> n"
  shows "(\<Sum>i < n. waiters (ctx_at (contextResize fresh n s) i)) = (\<Sum>i < length (m_fdContexts s). waiters (ctx_at s i))"
proof -
  let ?n = "length (m_fdContexts s)" and ?s = "contextResize fresh n s"
  have "waiters (ctx_at ?s i) = (if i < ?n then waiters (ctx_at s i) else 0)" if "i < n" for i
  proof (cases "i < ?n")
    case True
    obtain p c where pc: "entry_ok s i p c" using assms(1) True by (rule io_invE)
    from entry_ctx [OF pc] entry_ctx [OF resize_old_entry [OF assms True pc]] True show ?thesis by simp
  next
    case False
    then have "entry_ok ?s i (fresh i) (new_fd_context (int i))" using resize_new_entry [OF assms] that by simp
    from entry_ctx [OF this] False show ?thesis
      by (simp add: waiters_def reads_def writes_def new_fd_context_def has_event_def IO_NONE_def)
  qed
  then have "(\<Sum>i < n. waiters (ctx_at ?s i)) = (\<Sum>i < n. if i < ?n then waiters (ctx_at s i) else 0)"
    by (intro sum.cong) auto
  also have "\<dots> = (\<Sum>i \<in> {..<n} \<inter> {i. i < ?n}. waiters (ctx_at s i))" by (simp add: sum.If_cases)
  also have "{..<n} \<inter> {i. i < ?n} = {..<?n}" using assms(3) by auto
  finally show ?thesis .
qed

lemma contextResize_inv:
  assumes "io_inv s" and "fresh_for fresh s" and "length (m_fdContexts s) \<le> n"
  shows "io_inv (contextResize fresh n s)"
proof -
  let ?s = "contextResize fresh n s"
  note grow = contextResize_grow [OF assms]
  have len: "length (m_fdContexts ?s) = n" using assms(3) by (simp add: grow)
  have "\<exists>p c. entry_ok ?s i p c" if "i < n" for i
  proof (cases "i < length (m_fdContexts s)")
    case True
    obtain p c where "entry_ok s i p c" using assms(1) True by (rule io_invE)
    from resize_old_entry [OF assms True this] show ?thesis by blast
  next
    case False
    then show ?thesis using resize_new_entry [OF assms, of i] that by auto
  qed
  moreover have "(fd \<noteq> fst (m_tickleFds ?s) \<longrightarrow> ep_set (ep ?s) fd = None) \<and> ep_ptr ?s fd = None"
    if "fd < 0 \<or> int n \<le> fd" for fd
    using assms(1,3) that by (auto simp: io_inv_def grow)
  moreover have "ep_set (ep ?s) (fst (m_tickleFds ?s)) \<noteq> None" "m_pendingEventCount ?s = m_pendingEventCount s"
    using assms(1) by (simp_all add: io_inv_def grow)
  ultimately show ?thesis
    using resize_distinct [OF assms] resize_waiters [OF assms] assms(1) by (simp add: io_inv_def len)
qed

section \<open>Runs of a manager\<close>

text \<open>What the table, the kernel's part and the count are; the rest a step may change freely.\<close>

definition same_table :: "iomanager \<Rightarrow> iomanager \<Rightarrow> bool" where
  "same_table s s' \<longleftrightarrow> fdc s' = fdc s \<and> m_fdContexts s' = m_fdContexts s \<and> ep s' = ep s \<and> ep_ptr s' = ep_ptr s \<and>
     m_tickleFds s' = m_tickleFds s \<and> m_pendingEventCount s' = m_pendingEventCount s"

lemma same_table_entry: "same_table s s' \<Longrightarrow> entry_ok s' i p c = entry_ok s i p c"
  by (simp add: same_table_def entry_ok_def)

lemma same_table_inv:
  assumes "same_table s s'"
  shows "io_inv s' = io_inv s"
proof -
  have "ctx_at s' = ctx_at s" using assms by (simp add: same_table_def ctx_at_def fun_eq_iff)
  moreover have "entry_ok s' = entry_ok s" using same_table_entry [OF assms] by (simp add: fun_eq_iff)
  ultimately show ?thesis using assms unfolding io_inv_def same_table_def by (elim conjE) (simp only:)
qed

text \<open>
  The calls of the program and the rounds of the idle fibers, in any order. An event is added by a
  thread of the manager, for a function or for the fiber it runs; the events reported are for
  contexts in the table, with any mask.
\<close>

inductive io_step :: "(int \<Rightarrow> bool) \<Rightarrow> iomanager \<Rightarrow> iomanager \<Rightarrow> bool" for valid where
  add_cb: "iom_GetThis t s \<Longrightarrow> fresh_for fresh s \<Longrightarrow> ev = IO_READ \<or> ev = IO_WRITE \<Longrightarrow>
    addEvent valid fresh t a fd ev (Some f) s = Inr (rt, s') \<Longrightarrow> io_step valid s s'"
| add_fiber: "iom_GetThis t s \<Longrightarrow> fresh_for fresh s \<Longrightarrow> ev = IO_READ \<or> ev = IO_WRITE \<Longrightarrow>
    t_fiber (loc s t) = Some g \<Longrightarrow> fib s g = Some y \<Longrightarrow> m_state y = FRunning \<Longrightarrow>
    addEvent valid fresh t a fd ev None s = Inr (rt, s') \<Longrightarrow> io_step valid s s'"
| del: "ev = IO_READ \<or> ev = IO_WRITE \<Longrightarrow> delEvent valid fd ev s = Inr (b, s') \<Longrightarrow> io_step valid s s'"
| cancel: "ev = IO_READ \<or> ev = IO_WRITE \<Longrightarrow> \<not> s_locked s \<Longrightarrow> cancelEvent valid fd ev s = Inr (b, s') \<Longrightarrow> io_step valid s s'"
| cancel_all: "\<not> s_locked s \<Longrightarrow> cancelAll valid fd s = Inr (b, s') \<Longrightarrow> io_step valid s s'"
| report: "\<not> s_locked s \<Longrightarrow> Some p \<in> set (m_fdContexts s) \<Longrightarrow> idle_event valid (m, Some p) s = Inr s' \<Longrightarrow> io_step valid s s'"
| elsewhere: "same_table s s' \<Longrightarrow> io_step valid s s'"

text \<open>Calls that the kernel refuses, or that find nothing, change nothing.\<close>

lemma refused:
  assumes "io_inv s" and "i < length (m_fdContexts s)" and "entry_ok s i p c"
    and "\<not> (valid (int i) \<and> int i \<noteq> epfd (ep s) \<and> int i \<noteq> fst (m_tickleFds s))"
  shows "cancelEvent valid (int i) ev s = Inr (False, s)" and "delEvent valid (int i) ev s = Inr (False, s)"
    and "cancelAll valid (int i) s = Inr (False, s)" and "idle_event valid (m, Some p) s = Inr s"
proof -
  have c: "ctx_ok c" "fc_fd c = int i" using assms(3) by (simp_all add: entry_ok_def)
  note look = context_at_entry [OF assms(2,3)]
  have no: "ctl valid op (int i) e p s = (-1, s)" if "fc_events c \<noteq> 0" for op e
  proof (rule ctl_refused)
    have "int i \<noteq> fst (m_tickleFds s)" using assms(3) that by (auto simp: entry_ok_def)
    then show "\<not> (valid (int i) \<and> int i \<noteq> epfd (ep s) \<and> (op = EPOLL_CTL_ADD \<longleftrightarrow> ep_set (ep s) (int i) = None))"
      using assms(4) by blast
  qed
  show "cancelEvent valid (int i) ev s = Inr (False, s)" "delEvent valid (int i) ev s = Inr (False, s)"
    "cancelAll valid (int i) s = Inr (False, s)"
    using look assms(2) no
    by (cases "fc_events c = 0"; simp add: cancelEvent_def delEvent_def cancelAll_def has_event_def Let_def)+
  show "idle_event valid (m, Some p) s = Inr s"
    using look no by (cases "fc_events c = 0") (simp_all add: idle_event_def Let_def IO_NONE_def c)
qed

lemma add_inv_table:
  assumes "io_inv s" and "iom_GetThis t s" and "ev = IO_READ \<or> ev = IO_WRITE"
    and "cb \<noteq> None \<or> (\<exists>g y. t_fiber (loc s t) = Some g \<and> fib s g = Some y \<and> m_state y = FRunning)"
    and "i < length (m_fdContexts s)" and "addEvent valid fresh t a (int i) ev cb s = Inr (rt, s')"
  shows "io_inv s'"
proof -
  obtain p c where e: "entry_ok s i p c" using assms(1,5) by (rule io_invE)
  have new: "\<not> has_event (fc_events c) ev"
    using assms(6) context_at_entry [OF assms(5) e]
    by (auto simp: addEvent_on_entry [OF assms(5) e] addEvent_on_def)
  note add = addEvent_ok [OF assms(1,5) e assms(3) new]
  have t: "scheduler_GetThis t s" using assms(2) by (simp add: iom_GetThis_def)
  show ?thesis
  proof (cases "valid (int i) \<and> int i \<noteq> epfd (ep s) \<and> int i \<noteq> fst (m_tickleFds s)")
    case False
    from add(1) [where valid = valid, OF False] assms(6) assms(1) show ?thesis by simp
  next
    case True
    then have ok: "valid (int i)" "int i \<noteq> epfd (ep s)" "int i \<noteq> fst (m_tickleFds s)" by simp_all
    note inv = event_added_inv [OF assms(1,5) e ok(3) assms(3) new]
    show ?thesis
    proof (cases cb)
      case (Some f)
      from add(2) [where valid = valid, OF ok t] assms(6) Some
      have "s' = event_added ev (cb_context f) i p c s" by simp
      with inv [of "cb_context f"] show ?thesis by simp
    next
      case None
      with assms(4) obtain g y where "t_fiber (loc s t) = Some g" "fib s g = Some y" "m_state y = FRunning" by blast
      from add(3) [where valid = valid, OF ok t this] assms(6) None
      have "s' = event_added ev (fiber_context g) i p c s" by simp
      with inv [of "fiber_context g"] show ?thesis by simp
    qed
  qed
qed

lemma addEvent_grown:
  assumes "io_inv s" and "fresh_for fresh s" and "int (length (m_fdContexts s)) \<le> fd" and "0 \<le> fd"
    and "addEvent valid fresh t a fd ev cb s = Inr (rt, s')"
  defines "s1 \<equiv> contextResize fresh (nat (3 * fd div 2)) s"
  shows "io_inv s1 \<and> addEvent valid fresh t a fd ev cb s1 = Inr (rt, s') \<and> nat fd < length (m_fdContexts s1)"
proof -
  have len: "length (m_fdContexts s) \<le> nat (3 * fd div 2)" using assms(3,4) by linarith
  have inv: "io_inv s1" unfolding s1_def by (rule contextResize_inv [OF assms(1,2) len])
  have n: "length (m_fdContexts s1) = nat (3 * fd div 2)"
    using len by (simp add: s1_def contextResize_grow [OF assms(1,2) len])
  obtain p where p: "context_at fd s1 = Inr p" and on: "addEvent_on valid t a fd ev cb p s1 = Inr (rt, s')"
    using assms(3,5) by (auto simp: addEvent_def addEvent_look_def addEvent_grow_def res_simps s1_def Let_def)
  then have in_range: "fd < int (length (m_fdContexts s1))" by (auto simp: context_at_def split: if_splits)
  have "addEvent valid fresh t a fd ev cb s1 = Inr (rt, s')"
    using p on in_range by (simp add: addEvent_def addEvent_look_def)
  with inv in_range assms(4) show ?thesis by simp
qed

lemma add_inv:
  assumes "io_inv s" and "iom_GetThis t s" and "fresh_for fresh s" and "ev = IO_READ \<or> ev = IO_WRITE"
    and "cb \<noteq> None \<or> (\<exists>g y. t_fiber (loc s t) = Some g \<and> fib s g = Some y \<and> m_state y = FRunning)"
    and "addEvent valid fresh t a fd ev cb s = Inr (rt, s')"
  shows "io_inv s'"
proof (cases "fd < int (length (m_fdContexts s))")
  case True
  then have fd: "0 \<le> fd"
    using assms(6) by (auto simp: addEvent_def addEvent_look_def context_at_def split: if_splits)
  with True have "nat fd < length (m_fdContexts s)" by linarith
  from add_inv_table [OF assms(1,2,4,5) this, of valid fresh a rt s'] fd assms(6) show ?thesis by simp
next
  case False
  then have fd: "int (length (m_fdContexts s)) \<le> fd" "0 \<le> fd" by auto
  note grown = addEvent_grown [OF assms(1,3) fd assms(6)]
  let ?s = "contextResize fresh (nat (3 * fd div 2)) s"
  have "length (m_fdContexts s) \<le> nat (3 * fd div 2)" using fd by linarith
  note same = contextResize_grow [OF assms(1,3) this]
  have t: "iom_GetThis t ?s" using assms(2) by (simp add: same iom_GetThis_def scheduler_GetThis_def)
  have f: "cb \<noteq> None \<or> (\<exists>g y. t_fiber (loc ?s t) = Some g \<and> fib ?s g = Some y \<and> m_state y = FRunning)"
    using assms(5) by (simp add: same)
  from add_inv_table [OF _ t assms(4) f, of "nat fd" valid fresh a rt s'] grown fd(2) show ?thesis by simp
qed

text \<open>The entry a call is about, if it is about one.\<close>

lemma fd_entry:
  assumes "io_inv s" and "0 \<le> fd" and "fd < int (length (m_fdContexts s))"
  obtains i p c where "fd = int i" and "i < length (m_fdContexts s)" and "entry_ok s i p c"
proof -
  have i: "nat fd < length (m_fdContexts s)" using assms(2,3) by linarith
  obtain p c where "entry_ok s (nat fd) p c" using assms(1) i by (rule io_invE)
  with that [of "nat fd" p c] i assms(2) show thesis by simp
qed

lemma del_inv:
  assumes "io_inv s" and "ev = IO_READ \<or> ev = IO_WRITE" and "delEvent valid fd ev s = Inr (b, s')"
  shows "io_inv s'"
proof (cases "fd < int (length (m_fdContexts s))")
  case True
  then have fd: "0 \<le> fd" using assms(3) by (auto simp: delEvent_def context_at_def split: if_splits)
  obtain i p c where i: "fd = int i" "i < length (m_fdContexts s)" and e: "entry_ok s i p c"
    using assms(1) fd True by (rule fd_entry)
  show ?thesis
  proof (cases "valid (int i) \<and> int i \<noteq> epfd (ep s) \<and> int i \<noteq> fst (m_tickleFds s)")
    case False
    with refused(2) [where valid = valid, OF assms(1) i(2) e False, of ev] assms(1,3) i(1) show ?thesis by simp
  next
    case True
    then have ok: "int i \<noteq> fst (m_tickleFds s)" "valid (int i)" "int i \<noteq> epfd (ep s)" by simp_all
    note del = delEvent_ok [where valid = valid, OF assms(1) i(2) e ok]
    have inv: "io_inv ((events_end r w i p c s)\<lparr>m_tasks := ts, pipe_bytes := k\<rparr>)"
      if "r \<longrightarrow> reads c" "w \<longrightarrow> writes c" for r w ts k
      using events_end_inv [OF assms(1) i(2) e ok(1) that]
        same_table_inv [of "events_end r w i p c s" "(events_end r w i p c s)\<lparr>m_tasks := ts, pipe_bytes := k\<rparr>"]
      by (simp add: same_table_def)
    from assms(2) show ?thesis
    proof
      assume "ev = IO_READ"
      with del(1) assms(1,3) i(1) inv [of True False] show ?thesis by (auto split: if_splits)
    next
      assume "ev = IO_WRITE"
      with del(2) assms(1,3) i(1) inv [of False True] show ?thesis by (auto split: if_splits)
    qed
  qed
next
  case False
  with assms(1,3) show ?thesis by (simp add: delEvent_def)
qed

lemma cancel_inv_io:
  assumes "io_inv s" and "ev = IO_READ \<or> ev = IO_WRITE" and "\<not> s_locked s" and "cancelEvent valid fd ev s = Inr (b, s')"
  shows "io_inv s'"
proof (cases "fd < int (length (m_fdContexts s))")
  case True
  then have fd: "0 \<le> fd" using assms(4) by (auto simp: cancelEvent_def context_at_def split: if_splits)
  obtain i p c where i: "fd = int i" "i < length (m_fdContexts s)" and e: "entry_ok s i p c"
    using assms(1) fd True by (rule fd_entry)
  show ?thesis
  proof (cases "valid (int i) \<and> int i \<noteq> epfd (ep s) \<and> int i \<noteq> fst (m_tickleFds s)")
    case False
    with refused(1) [where valid = valid, OF assms(1) i(2) e False, of ev] assms(1,4) i(1) show ?thesis by simp
  next
    case True
    then have ok: "int i \<noteq> fst (m_tickleFds s)" "valid (int i)" "int i \<noteq> epfd (ep s)" by simp_all
    note cancel = cancelEvent_ok [where valid = valid, OF assms(1) i(2) e ok assms(3)]
    note inv = events_end_inv [OF assms(1) i(2) e ok(1)]
    from assms(2) show ?thesis
    proof
      assume "ev = IO_READ"
      with cancel(1) assms(1,4) i(1) inv [of True False] show ?thesis by (auto split: if_splits)
    next
      assume "ev = IO_WRITE"
      with cancel(2) assms(1,4) i(1) inv [of False True] show ?thesis by (auto split: if_splits)
    qed
  qed
next
  case False
  with assms(1,4) show ?thesis by (simp add: cancelEvent_def)
qed

lemma cancelAll_inv:
  assumes "io_inv s" and "\<not> s_locked s" and "cancelAll valid fd s = Inr (b, s')"
  shows "io_inv s'"
proof (cases "fd < int (length (m_fdContexts s))")
  case True
  then have fd: "0 \<le> fd" using assms(3) by (auto simp: cancelAll_def context_at_def split: if_splits)
  obtain i p c where i: "fd = int i" "i < length (m_fdContexts s)" and e: "entry_ok s i p c"
    using assms(1) fd True by (rule fd_entry)
  show ?thesis
  proof (cases "valid (int i) \<and> int i \<noteq> epfd (ep s) \<and> int i \<noteq> fst (m_tickleFds s)")
    case False
    with refused(3) [where valid = valid, OF assms(1) i(2) e False] assms(1,3) i(1) show ?thesis by simp
  next
    case True
    then have ok: "int i \<noteq> fst (m_tickleFds s)" "valid (int i)" "int i \<noteq> epfd (ep s)" by simp_all
    from cancelAll_ok [where valid = valid, OF assms(1) i(2) e ok assms(2)] assms(1,3) i(1)
      events_end_inv [OF assms(1) i(2) e ok(1), of "reads c" "writes c"]
    show ?thesis by (auto split: if_splits)
  qed
next
  case False
  with assms(1,3) show ?thesis by (simp add: cancelAll_def)
qed

lemma report_inv:
  assumes "io_inv s" and "\<not> s_locked s" and "Some p \<in> set (m_fdContexts s)" and "idle_event valid (m, Some p) s = Inr s'"
  shows "io_inv s'"
proof -
  obtain i where i: "i < length (m_fdContexts s)" "m_fdContexts s ! i = Some p"
    using assms(3) by (auto simp: in_set_conv_nth)
  obtain q c where "entry_ok s i q c" using assms(1) i(1) by (rule io_invE)
  with i have e: "entry_ok s i p c" by (auto simp: entry_ok_def)
  show ?thesis
  proof (cases "valid (int i) \<and> int i \<noteq> epfd (ep s) \<and> int i \<noteq> fst (m_tickleFds s)")
    case False
    with refused(4) [where valid = valid, OF assms(1) i(1) e False, of m] assms(1,4) show ?thesis by simp
  next
    case True
    then have ok: "int i \<noteq> fst (m_tickleFds s)" "valid (int i)" "int i \<noteq> epfd (ep s)" by simp_all
    from idle_event_ok [where valid = valid, OF assms(1) i(1) e ok assms(2) refl refl, of m] assms(1,4)
      events_end_inv [OF assms(1) i(1) e ok(1), of "asks_read m c" "asks_write m c"]
    show ?thesis by (auto split: if_splits)
  qed
qed

lemma io_step_inv: "io_step valid s s' \<Longrightarrow> io_inv s \<Longrightarrow> io_inv s'"
proof (induction rule: io_step.induct)
  case add_cb
  show ?case by (rule add_inv [OF add_cb.prems add_cb.hyps(1-3) _ add_cb.hyps(4)]) simp
next
  case add_fiber
  show ?case
    by (rule add_inv [OF add_fiber.prems add_fiber.hyps(1-3) _ add_fiber.hyps(7)]) (use add_fiber.hyps(4-6) in simp)
next
  case del
  show ?case by (rule del_inv [OF del.prems del.hyps])
next
  case cancel
  show ?case by (rule cancel_inv_io [OF cancel.prems cancel.hyps])
next
  case cancel_all
  show ?case by (rule cancelAll_inv [OF cancel_all.prems cancel_all.hyps])
next
  case report
  show ?case by (rule report_inv [OF report.prems report.hyps])
next
  case elsewhere
  show ?case using same_table_inv [OF elsewhere.hyps] elsewhere.prems by simp
qed

lemma io_steps_inv: "(io_step valid)\<^sup>*\<^sup>* s s' \<Longrightarrow> io_inv s \<Longrightarrow> io_inv s'"
  by (induction rule: rtranclp_induct) (auto intro: io_step_inv)

section \<open>Construction\<close>

lemma scheduler_more: "fibers.more w' = fibers.more w \<Longrightarrow> scheduler.more w' = scheduler.more w"
  by (cases w, cases w') simp

lemma scheduler_more_simps [simp]:
  "scheduler.more (upd_loc t h w) = scheduler.more w" "scheduler.more (fiber_new a cb n r w) = scheduler.more w"
  by (rule scheduler_more, simp)+

lemma scheduler_init_more:
  "scheduler_init t am ar threads use_caller name s = Inr s' \<Longrightarrow> scheduler.more s' = scheduler.more s"
  by (auto simp: scheduler_init_def Let_def res_simps split: if_splits
      dest!: GetThis_more [THEN scheduler_more])

lemma iom_init_inv:
  assumes "iom_init t am ar threads use_caller name valid efd pair fresh tids now s0 = Inr s" and "fresh_for fresh s0"
  shows "io_inv s"
proof -
  obtain s1 where s1: "scheduler_init t am ar threads use_caller name s0 = Inr s1"
    using assms(1) by (auto simp: iom_init_def res_simps)
  then have "scheduler.more s1 = scheduler.more s0" by (rule scheduler_init_more)
  then have fdc: "fdc s1 = fdc s0" by (cases s0, cases s1) simp
  obtain rd wr where pair: "pair = Some (rd, wr)" using assms(1) s1 by (cases pair) (auto simp: iom_init_def res_simps)
  let ?d = "\<lparr>epfd = efd, ep_set = [rd \<mapsto> EPOLLIN OR EPOLLET], ep_events = True\<rparr>"
  let ?s2 = "s1\<lparr>io_timers := timerManagerInit now, ep := ?d, ep_ptr := Map.empty, m_tickleFds := (rd, wr), pipe_bytes := 0,
    m_pendingEventCount := 0, m_fdContexts := []\<rparr>"
  have start: "scheduler_start tids (contextResize fresh 32 ?s2) = Inr s"
    using assms(1) s1 by (auto simp: iom_init_def res_simps pair epoll_ctl_def split: if_splits)
  have "io_inv ?s2" by (auto simp: io_inv_def)
  moreover have "fresh_for fresh ?s2" using assms(2) by (simp add: fresh_for_def fdc)
  ultimately have "io_inv (contextResize fresh 32 ?s2)" by (intro contextResize_inv) simp_all
  moreover have "same_table (contextResize fresh 32 ?s2) s"
    using start by (auto simp: scheduler_start_def same_table_def split: if_splits)
  ultimately show ?thesis using same_table_inv by blast
qed

text \<open>The tasks of a manager: when it says it stops, all that were given are done.\<close>

lemma iom_stopped_drained:
  assumes "sched_run iom_tickle s tr s'" and "m_tasks s = []" and "frames s = Map.empty"
    and "m_activeThreadCount s = 0" and "m_idleThreadCount s = 0" and "iom_stopping now s' = Inr (True, timeout, s'')"
  shows "mset (scheduled tr) = mset (taken tr) \<and> finished tr = length (taken tr)"
proof -
  define u where "u = s'\<lparr>io_timers := snd (getNextTimer now (io_timers s'))\<rparr>"
  have "\<exists>v. scheduler_stopping u = Inr (True, v)"
    using assms(6) by (auto simp: iom_stopping_def Let_def case_prod_beta u_def res_simps split: if_splits)
  then have "\<exists>v. scheduler_stopping s' = Inr (True, v)" by (auto simp: scheduler_stopping_def u_def split: if_splits)
  then show ?thesis using iom.drained [OF assms(1-5)] by blast
qed

section \<open>A manager to look at\<close>

definition blank_iom :: iomanager where
  "blank_iom = \<lparr>fib = Map.empty,
     loc = (\<lambda>t. \<lparr>t_fiber = None, t_thread_fiber = None, t_scheduler_fiber = None, on_stack = ThreadStack t\<rparr>),
     s_fiber_id = 0, s_fiber_count = 0, sched_name = [], m_threads = [], m_tasks = [], m_threadIds = [], m_threadCount = 0,
     m_activeThreadCount = 0, m_idleThreadCount = 0, m_userCaller = False, m_rootFiber = None, m_rootThread = 0,
     m_stopping = False, s_locked = False, t_scheduler = (\<lambda>_. False), frames = Map.empty, io_timers = timerManagerInit 0,
     ep = \<lparr>epfd = 0, ep_set = Map.empty, ep_events = False\<rparr>, ep_ptr = Map.empty, m_tickleFds = (0, 0), pipe_bytes = 0,
     m_pendingEventCount = 0, fdc = Map.empty, m_fdContexts = []\<rparr>"

definition example_iom :: iomanager where
  "example_iom = (case iom_init 9 1 2 1 True ''io'' (\<lambda>fd. 0 \<le> fd) 4 (Some (5, 6)) (\<lambda>i. i + 100) [] 1000 blank_iom of
     Inl _ \<Rightarrow> blank_iom | Inr s \<Rightarrow> s)"

lemmas example_iom_unfold = iom_init_def scheduler_init_def fiber_GetThis_def fiber_main_def fiber_new_def fiber_SetThis_def
  Let_def epoll_ctl_def scheduler_start_def blank_iom_def upd_loc_def upd_fiber_def contextResize_def

lemma fresh_blank: "fresh_for (\<lambda>i. i + 100) blank_iom"
  by (simp add: fresh_for_def blank_iom_def inj_def)

lemma example_iom_init:
  "iom_init 9 1 2 1 True ''io'' (\<lambda>fd. 0 \<le> fd) 4 (Some (5, 6)) (\<lambda>i. i + 100) [] 1000 blank_iom = Inr example_iom"
proof -
  have "\<exists>s. iom_init 9 1 2 1 True ''io'' (\<lambda>fd. 0 \<le> fd) 4 (Some (5, 6)) (\<lambda>i. i + 100) [] 1000 blank_iom = Inr s"
    by (simp add: example_iom_unfold split: prod.split)
  then show ?thesis by (auto simp: example_iom_def)
qed

lemma fresh_inj: "inj (\<lambda>i. i + (100::nat))" by (simp add: inj_def)

lemma example_iom_simps:
  "m_tickleFds example_iom = (5, 6)" "epfd (ep example_iom) = 4" "\<not> s_locked example_iom"
  "iom_GetThis 9 example_iom" "m_tasks example_iom = []"
  "m_fdContexts example_iom = map (\<lambda>i. Some (i + 100)) [0..<32]"
  "hasIdleThreads example_iom = False"
  "m_timers (io_timers example_iom) = []" "m_activeThreadCount example_iom = 0"
  "ep_set (ep example_iom) = [5 \<mapsto> EPOLLIN OR EPOLLET]" "m_pendingEventCount example_iom = 0"
  by (simp_all add: example_iom_def example_iom_unfold resize_loop_none [OF fresh_inj]
      iom_GetThis_def scheduler_GetThis_def hasIdleThreads_def timerManagerInit_def del: upt_Suc)

lemma example_iom_ctx: "i < 32 \<Longrightarrow> fdc example_iom (i + 100) = Some (new_fd_context (int i))"
  by (simp add: example_iom_def example_iom_unfold resize_loop_none [OF fresh_inj] the_inv_f_f [OF fresh_inj])

lemma example_iom_fresh: "fresh_for (\<lambda>i. i + 200) example_iom"
proof -
  have "fdc example_iom (i + 200) = None" for i
    by (simp add: example_iom_def example_iom_unfold resize_loop_none [OF fresh_inj])
  then show ?thesis by (simp add: fresh_for_def inj_def)
qed

lemma example_iom_inv: "io_inv example_iom"
  by (rule iom_init_inv [OF example_iom_init fresh_blank])

lemma example_entry:
  assumes "i < 32" and "i \<noteq> 5"
  shows "entry_ok example_iom i (i + 100) (new_fd_context (int i))"
proof -
  have i: "i < length (m_fdContexts example_iom)" using assms(1) by (simp add: example_iom_simps)
  obtain p c where e: "entry_ok example_iom i p c" using example_iom_inv i by (rule io_invE)
  then have "p = i + 100" using assms(1) by (simp add: entry_ok_def example_iom_simps)
  moreover from this e have "c = new_fd_context (int i)" using example_iom_ctx [OF assms(1)] by (simp add: entry_ok_def)
  ultimately show ?thesis using e by simp
qed

text \<open>The same manager with a reader, and then a writer, waiting for descriptor 7.\<close>

definition reading_iom :: iomanager where
  "reading_iom = event_added IO_READ (cb_context 70) 7 107 (new_fd_context 7) example_iom"

definition waiting_iom :: iomanager where
  "waiting_iom = event_added IO_WRITE (cb_context 71) 7 107 (with_event IO_READ (cb_context 70) (new_fd_context 7)) reading_iom"

lemma new_events: "\<not> has_event (fc_events (new_fd_context fd)) ev"
  by (simp add: new_fd_context_def has_event_def IO_NONE_def)

lemma reading_iom_add:
  "addEvent (\<lambda>fd. 0 \<le> fd) (\<lambda>i. i + 200) 9 3 7 IO_READ (Some 70) example_iom = Inr (0, reading_iom)"
  using addEvent_ok(2) [OF example_iom_inv _ example_entry [of 7], of IO_READ "\<lambda>fd. 0 \<le> fd" 9 "\<lambda>i. i + 200" 3 70] new_events
  by (simp add: example_iom_simps iom_GetThis_def [symmetric] reading_iom_def)

lemma waiting_iom_facts:
  "io_inv waiting_iom" "entry_ok waiting_iom 7 107 (ctx_at waiting_iom 7)"
  "m_fdContexts waiting_iom = m_fdContexts example_iom" "m_tickleFds waiting_iom = (5, 6)" "epfd (ep waiting_iom) = 4"
  "\<not> s_locked waiting_iom" "m_tasks waiting_iom = []" "m_pendingEventCount waiting_iom = 2"
  "ctx_at waiting_iom 7 = \<lparr>fc_read = cb_context 70, fc_write = cb_context 71, fc_fd = 7, fc_events = IO_READ OR IO_WRITE\<rparr>"
proof -
  let ?c = "with_event IO_READ (cb_context 70) (new_fd_context 7)"
  have 1: "io_inv reading_iom \<and> entry_ok reading_iom 7 107 ?c"
    unfolding reading_iom_def using example_entry [of 7] new_events
    by (intro event_added_inv [OF example_iom_inv]) (simp_all add: example_iom_simps)
  have n: "\<not> has_event (fc_events ?c) IO_WRITE" by (simp add: with_event_def putContext_def new_fd_context_def IO_NONE_def io_masks)
  have 2: "io_inv waiting_iom \<and> entry_ok waiting_iom 7 107 (with_event IO_WRITE (cb_context 71) ?c)"
    unfolding waiting_iom_def using 1 n
    by (intro event_added_inv) (simp_all add: reading_iom_def event_added_def example_iom_simps)
  then show "io_inv waiting_iom" "entry_ok waiting_iom 7 107 (ctx_at waiting_iom 7)" using entry_ctx [of waiting_iom 7 107] by auto
  show "ctx_at waiting_iom 7 = \<lparr>fc_read = cb_context 70, fc_write = cb_context 71, fc_fd = 7, fc_events = IO_READ OR IO_WRITE\<rparr>"
    using 2 entry_ctx [of waiting_iom 7 107] by (auto simp: with_event_def putContext_def new_fd_context_def IO_NONE_def io_masks)
  show "m_pendingEventCount waiting_iom = 2" by (simp add: waiting_iom_def reading_iom_def event_added_def example_iom_simps)
qed (simp_all add: waiting_iom_def reading_iom_def event_added_def example_iom_simps)

lemma waiting_iom_at: "7 < length (m_fdContexts waiting_iom)" "m_fdContexts waiting_iom ! 7 = Some 107"
  by (simp_all add: waiting_iom_facts example_iom_simps)

section \<open>Properties\<close>

text \<open>
  C4. Whatever sequence of calls the manager's own threads make after its construction, each taken as
  one step - adding an event for a callback or for the running fiber, deleting and cancelling
  events, the idle fiber's dealing with a report, and anything that leaves the table alone: a
  context has who waits for each event it has, and nothing for the others; the kernel watches a
  descriptor for exactly the events of its context, edge-triggered, and keeps that context's address;
  the count of pending events is the number of waiters. Not among the steps are the closing of a watched
  descriptor, calls from threads of no manager, and a call that comes in while
  \<^verbatim>\<open>addEvent\<close> has given up its lock: the last two break this
  (\<open>growth_race_loses_waiter\<close>, and \<open>hooked_close_wakes\<close> of the theory of the hooks).
\<close>

theorem io_table_consistent:
  assumes "iom_init t am ar threads use_caller name valid efd pair fresh tids now s0 = Inr s1"
    and "fresh_for fresh s0" and "(io_step valid)\<^sup>*\<^sup>* s1 s" and "i < length (m_fdContexts s)"
    and "int i \<noteq> fst (m_tickleFds s)"
  shows "\<exists>p c. m_fdContexts s ! i = Some p \<and> fdc s p = Some c \<and> fc_fd c = int i \<and>
    (reads c \<longleftrightarrow> waiting (fc_read c)) \<and> (\<not> reads c \<longleftrightarrow> fc_read c = clean_context) \<and>
    (writes c \<longleftrightarrow> waiting (fc_write c)) \<and> (\<not> writes c \<longleftrightarrow> fc_write c = clean_context) \<and>
    ep_set (ep s) (int i) = (if fc_events c = 0 then None else Some (EPOLLET OR fc_events c)) \<and>
    ep_ptr s (int i) = (if fc_events c = 0 then None else Some p) \<and>
    m_pendingEventCount s = of_nat (\<Sum>j < length (m_fdContexts s). waiters (ctx_at s j))"
proof -
  have inv: "io_inv s" using assms(3) iom_init_inv [OF assms(1,2)] by (rule io_steps_inv)
  obtain p c where e: "entry_ok s i p c" using inv assms(4) by (rule io_invE)
  have "\<not> waiting clean_context" by (simp add: waiting_def clean_context_def)
  moreover have "ctx_ok c" using e by (simp add: entry_ok_def)
  ultimately have slots: "reads c \<longleftrightarrow> waiting (fc_read c)" "\<not> reads c \<longleftrightarrow> fc_read c = clean_context"
    "writes c \<longleftrightarrow> waiting (fc_write c)" "\<not> writes c \<longleftrightarrow> fc_write c = clean_context"
    by (auto simp: ctx_ok_def split: if_splits)
  moreover have "m_pendingEventCount s = of_nat (\<Sum>j < length (m_fdContexts s). waiters (ctx_at s j))"
    using inv by (simp add: io_inv_def)
  ultimately show ?thesis
    by (intro exI [of _ p] exI [of _ c]) (use e assms(5) in \<open>simp add: entry_ok_def kernel_mask_def\<close>)
qed

theorem io_table_consistent_witness:
  "\<exists>p c. m_fdContexts reading_iom ! 7 = Some p \<and> fdc reading_iom p = Some c \<and> reads c \<and> waiting (fc_read c) \<and>
     \<not> writes c \<and> fc_write c = clean_context \<and> ep_set (ep reading_iom) 7 = Some (EPOLLET OR IO_READ)"
proof -
  have "io_step (\<lambda>fd. 0 \<le> fd) example_iom reading_iom"
    by (rule io_step.add_cb [OF _ example_iom_fresh _ reading_iom_add]) (simp_all add: example_iom_simps)
  then have steps: "(io_step (\<lambda>fd. 0 \<le> fd))\<^sup>*\<^sup>* example_iom reading_iom" ..
  have n: "7 < length (m_fdContexts reading_iom)" "int 7 \<noteq> fst (m_tickleFds reading_iom)"
    by (simp_all add: reading_iom_def event_added_def example_iom_simps)
  have "m_fdContexts reading_iom ! 7 = Some 107 \<and> fdc reading_iom 107 = Some (with_event IO_READ (cb_context 70) (new_fd_context 7))"
    by (simp add: reading_iom_def event_added_def example_iom_simps)
  moreover have "fc_events (with_event IO_READ (cb_context 70) (new_fd_context 7)) = IO_READ"
    by (simp add: with_event_def putContext_def new_fd_context_def IO_NONE_def)
  ultimately show ?thesis
    using io_table_consistent [OF example_iom_init fresh_blank steps n] by (auto simp: reads_def writes_def io_masks)
qed

text \<open>
  \<^verbatim>\<open>stopping\<close> says yes only when there is no timer, nobody waits for an event, the queue is
  empty and no thread is at a task.
\<close>

theorem iom_stopping_nothing_left:
  assumes "io_inv s" and "length (m_fdContexts s) < 2 ^ 62" and "0 < now"
    and "iom_stopping now s = Inr (True, timeout, s')"
  shows "m_timers (io_timers s) = [] \<and> (\<forall>i < length (m_fdContexts s). fc_events (ctx_at s i) = 0) \<and>
    m_tasks s = [] \<and> m_activeThreadCount s = 0 \<and> m_stopping s"
proof -
  have to: "fst (getNextTimer now (io_timers s)) = - 1" "m_pendingEventCount s = 0"
    and rest: "m_tasks s = [] \<and> m_activeThreadCount s = 0 \<and> m_stopping s"
    using assms(4) by (auto simp: iom_stopping_def Let_def scheduler_stopping_def case_prod_beta res_simps split: if_splits)
  have "m_timers (io_timers s) = []"
  proof (rule ccontr)
    assume "m_timers (io_timers s) \<noteq> []"
    then obtain u us where us: "m_timers (io_timers s) = u # us" by (cases "m_timers (io_timers s)") auto
    define k where "k = m_next (the (tm_heap (io_timers s) u))"
    from to(1) have "\<not> k \<le> now" and "k - now = - 1" by (auto simp: getNextTimer_def us k_def Let_def split: if_splits)
    moreover have "k = (k - now) + now" by simp
    ultimately have "k = now - 1" by simp
    moreover have "now \<noteq> 0" using assms(3) by auto
    then have "now - 1 < now" by (simp add: word_less_nat_alt measure_unat)
    ultimately have "k < now" by simp
    with \<open>\<not> k \<le> now\<close> show False by simp
  qed
  moreover have "fc_events (ctx_at s i) = 0" if "i < length (m_fdContexts s)" for i
  proof -
    let ?n = "length (m_fdContexts s)"
    have "(\<Sum>j < ?n. waiters (ctx_at s j)) \<le> (\<Sum>j < ?n. 2)" by (rule sum_mono) (simp add: waiters_def)
    then have "(\<Sum>j < ?n. waiters (ctx_at s j)) < 2 ^ 64" using assms(2) by simp
    then have "unat (of_nat (\<Sum>j < ?n. waiters (ctx_at s j)) :: 64 word) = (\<Sum>j < ?n. waiters (ctx_at s j))"
      by (subst unat_of_nat, subst mod_less) simp_all
    moreover have "(of_nat (\<Sum>j < ?n. waiters (ctx_at s j)) :: 64 word) = 0"
      using assms(1) to(2) by (simp add: io_inv_def)
    ultimately have "(\<Sum>j < ?n. waiters (ctx_at s j)) = 0"
      by (metis unat_0)
    then have none: "waiters (ctx_at s i) = 0" using that by simp
    note i = that
    obtain p c where e: "entry_ok s i p c" using assms(1) i by (rule io_invE)
    then have "ctx_ok (ctx_at s i)" using entry_ctx [OF e] by (simp add: entry_ok_def)
    then show ?thesis using none by (cases rule: events_cases) (simp_all add: waiters_def)
  qed
  ultimately show ?thesis using rest by blast
qed

theorem iom_stopping_nothing_left_witness:
  "m_timers (io_timers (example_iom\<lparr>m_stopping := True\<rparr>)) = [] \<and> m_stopping (example_iom\<lparr>m_stopping := True\<rparr>) \<and>
   fc_events (ctx_at (example_iom\<lparr>m_stopping := True\<rparr>) 7) = 0"
proof -
  let ?s = "example_iom\<lparr>m_stopping := True\<rparr>"
  have inv: "io_inv ?s" using example_iom_inv same_table_inv [of example_iom ?s] by (simp add: same_table_def)
  have "\<exists>s'. iom_stopping 1 ?s = Inr (True, - 1, s')"
    by (simp add: iom_stopping_def getNextTimer_def scheduler_stopping_def example_iom_simps Let_def)
  then obtain s' where "iom_stopping 1 ?s = Inr (True, - 1, s')" ..
  from iom_stopping_nothing_left [OF inv _ _ this] show ?thesis by (simp add: example_iom_simps)
qed

text \<open>
  C15. A reported event whose waiters are there: they, and they alone, are put in the queue once,
  the reader first; the context and the kernel keep what is left. An error or a hang-up wakes all.
\<close>

theorem idle_event_wakes_waiters:
  assumes "io_inv s" and "i < length (m_fdContexts s)" and "m_fdContexts s ! i = Some p" and "c = ctx_at s i"
    and "valid (int i)" and "int i \<noteq> epfd (ep s)" and "int i \<noteq> fst (m_tickleFds s)" and "\<not> s_locked s"
    and "has_event m EPOLLIN \<longrightarrow> reads c" and "has_event m EPOLLOUT \<longrightarrow> writes c"
    and "all = has_event m (EPOLLERR OR EPOLLHUP)"
    and "r = (reads c \<and> (has_event m EPOLLIN \<or> all))" and "w = (writes c \<and> (has_event m EPOLLOUT \<or> all))"
  shows "\<exists>s'. idle_event valid (m, Some p) s = Inr s' \<and> io_inv s' \<and>
    m_tasks s' = m_tasks s @ (if r then [waiter_task (fc_read c)] else []) @ (if w then [waiter_task (fc_write c)] else []) \<and>
    reads (ctx_at s' i) = (reads c \<and> \<not> r) \<and> writes (ctx_at s' i) = (writes c \<and> \<not> w) \<and>
    m_pendingEventCount s' = m_pendingEventCount s - (if r then 1 else 0) - (if w then 1 else 0)"
proof -
  note i = assms(2)
  obtain q d where qd: "entry_ok s i q d" using assms(1) i by (rule io_invE)
  with assms(3,4) have e: "entry_ok s i p c" using entry_ctx [OF qd] by (auto simp: entry_ok_def)
  have c: "ctx_ok c" using e by (simp add: entry_ok_def)
  have r: "asks_read m c = r" and w: "asks_write m c = w"
    using assms(9-13) by (auto simp: asks_read_def asks_write_def)
  have ok: "r \<longrightarrow> reads c" "w \<longrightarrow> writes c" using assms(12,13) by simp_all
  note idle = idle_event_ok [where valid = valid, OF assms(1,2) e assms(7,5,6,8) r [symmetric] w [symmetric]]
  show ?thesis
  proof (cases "r \<or> w")
    case False
    with idle assms(1,4) show ?thesis by auto
  next
    case True
    with idle ok have run: "idle_event valid (m, Some p) s = Inr (events_end r w i p c s)" by auto
    have wo: "ctx_ok (without_read r c)" by (rule without_ok(1) [OF c])
    note inv = events_end_inv [OF assms(1,2) e assms(7) ok]
    have "ctx_at (events_end r w i p c s) i = without_write w (without_read r c)"
      using inv by (blast intro: entry_ctx)
    with inv run show ?thesis
      using without_ok(3,4) [OF c, of r] without_ok(5,6) [OF wo, of w]
      by (auto simp: events_end_def Let_def after_triggers_def woken_def)
  qed
qed

theorem idle_event_wakes_waiters_witness:
  "\<exists>s'. idle_event (\<lambda>fd. 0 \<le> fd) (EPOLLIN, Some 107) waiting_iom = Inr s' \<and>
     m_tasks s' = [cb_task (Some 70) any_thread] \<and> \<not> reads (ctx_at s' 7) \<and> writes (ctx_at s' 7) \<and> m_pendingEventCount s' = 1"
proof -
  have c: "reads (ctx_at waiting_iom 7)" "writes (ctx_at waiting_iom 7)"
    by (simp_all add: waiting_iom_facts reads_def writes_def io_masks)
  have m: "has_event EPOLLIN EPOLLIN" "\<not> has_event EPOLLIN EPOLLOUT" "\<not> has_event EPOLLIN (EPOLLERR OR EPOLLHUP)"
    by (simp_all add: has_event_def EPOLLIN_def EPOLLOUT_def EPOLLERR_def EPOLLHUP_def)
  show ?thesis
    using idle_event_wakes_waiters [OF waiting_iom_facts(1) waiting_iom_at refl, of "\<lambda>fd. 0 \<le> fd" EPOLLIN False True False]
      c m
    by (auto simp: waiting_iom_facts waiter_task_def cb_context_def)
qed

text \<open>
  An event taken back while its report is on the way: the descriptor is reported for
  reading and writing, the reader is removed by another thread, and the round that handles the
  report stops the process at the assertion of \<^verbatim>\<open>triggerEvent\<close>.
\<close>

theorem stale_event_aborts:
  assumes "io_inv s" and "i < length (m_fdContexts s)" and "m_fdContexts s ! i = Some p" and "c = ctx_at s i"
    and "valid (int i)" and "int i \<noteq> epfd (ep s)" and "int i \<noteq> fst (m_tickleFds s)" and "\<not> s_locked s"
    and "reads c" and "writes c" and "has_event m EPOLLIN" and "has_event m EPOLLOUT"
  shows "\<exists>s'. delEvent valid (int i) IO_READ s = Inr (True, s') \<and> idle_event valid (m, Some p) s' = Inl AssertFail"
proof -
  note i = assms(2)
  obtain q d where qd: "entry_ok s i q d" using assms(1) i by (rule io_invE)
  with assms(3,4) have e: "entry_ok s i p c" using entry_ctx [OF qd] by (auto simp: entry_ok_def)
  have c: "ctx_ok c" using e by (simp add: entry_ok_def)
  let ?s = "(events_end True False i p c s)\<lparr>m_tasks := m_tasks s, pipe_bytes := pipe_bytes s\<rparr>"
  have del: "delEvent valid (int i) IO_READ s = Inr (True, ?s)"
    using delEvent_ok(1) [where valid = valid, OF assms(1,2) e assms(7,5,6)] assms(9) by simp
  have same: "same_table (events_end True False i p c s) ?s" by (simp add: same_table_def)
  let ?c = "without_read True c"
  have "without_write False ?c = ?c" by (simp add: without_write_def)
  with events_end_inv [OF assms(1,2) e assms(7), of True False] assms(9)
  have "io_inv (events_end True False i p c s)" "entry_ok (events_end True False i p c s) i p ?c" by simp_all
  then have inv: "io_inv ?s" "entry_ok ?s i p ?c"
    using same_table_inv [OF same] same_table_entry [OF same] by blast+
  have kept: "i < length (m_fdContexts ?s)" "int i \<noteq> fst (m_tickleFds ?s)" "int i \<noteq> epfd (ep ?s)" "\<not> s_locked ?s"
    using assms(2,6-8) by (simp_all add: events_end_def Let_def after_triggers_def)
  have "\<not> reads ?c" "writes ?c" using without_ok(3,4) [OF c, of True] assms(10) by simp_all
  then have "idle_event valid (m, Some p) ?s = Inl AssertFail"
    using idle_event_ok [where valid = valid, OF inv(1) kept(1) inv(2) kept(2) assms(5) kept(3,4) refl refl, of m] assms(11,12)
    by (auto simp: asks_read_def asks_write_def)
  with del show ?thesis by blast
qed

theorem stale_event_aborts_witness:
  "\<exists>s'. delEvent (\<lambda>fd. 0 \<le> fd) 7 IO_READ waiting_iom = Inr (True, s') \<and>
     idle_event (\<lambda>fd. 0 \<le> fd) (EPOLLIN OR EPOLLOUT, Some 107) s' = Inl AssertFail"
proof -
  have c: "reads (ctx_at waiting_iom 7)" "writes (ctx_at waiting_iom 7)"
    by (simp_all add: waiting_iom_facts reads_def writes_def io_masks)
  have m: "has_event (EPOLLIN OR EPOLLOUT) EPOLLIN" "has_event (EPOLLIN OR EPOLLOUT) EPOLLOUT"
    by (simp_all add: has_event_def EPOLLIN_def EPOLLOUT_def)
  show ?thesis
    using stale_event_aborts [OF waiting_iom_facts(1) waiting_iom_at refl, of "\<lambda>fd. 0 \<le> fd" "EPOLLIN OR EPOLLOUT"] c m
    by (simp add: waiting_iom_facts)
qed

lemma contextResize_shrink:
  assumes "io_inv s" and "n \<le> length (m_fdContexts s)"
  shows "contextResize fresh n s = s\<lparr>m_fdContexts := take n (m_fdContexts s)\<rparr>"
proof -
  obtain ps where ps: "m_fdContexts s = map Some ps" using assms(1) by (rule io_inv_table)
  have "resize_loop fresh 0 (map Some (take n ps) @ []) (fdc s) = (map Some (take n ps), fdc s)"
    by (subst resize_loop_some) simp
  then show ?thesis using assms(2) by (simp add: contextResize_def ps take_map)
qed

lemma addEvent_via_grow:
  assumes "io_inv s" and "fresh_for fresh s" and "int (length (m_fdContexts s)) \<le> fd" and "2 \<le> fd"
  defines "s1 \<equiv> contextResize fresh (nat (3 * fd div 2)) s"
  shows "addEvent valid fresh t a fd ev cb s = addEvent valid fresh t a fd ev cb s1"
    and "length (m_fdContexts s1) = nat (3 * fd div 2)" and "nat fd < nat (3 * fd div 2)"
proof -
  have le: "length (m_fdContexts s) \<le> nat (3 * fd div 2)" using assms(3,4) by linarith
  then show n: "length (m_fdContexts s1) = nat (3 * fd div 2)"
    by (simp add: s1_def contextResize_grow [OF assms(1,2) le])
  show lt: "nat fd < nat (3 * fd div 2)" using assms(4) by linarith
  have "fd < int (length (m_fdContexts s1))" using n lt by linarith
  then show "addEvent valid fresh t a fd ev cb s = addEvent valid fresh t a fd ev cb s1"
    using assms(3)
    by (cases "context_at fd s1")
      (simp_all add: addEvent_def addEvent_look_def addEvent_grow_def s1_def [symmetric] Let_def)
qed

text \<open>
  The table is looked at and grown under two separate locks. Thread A finds no entry for
  \<open>fd1\<close>; thread B adds an event for the larger \<open>fd2\<close>, which grows the table past it; then A
  resizes to its own size and cuts \<open>fd2\<close> off. The waiter of \<open>fd2\<close> is still with the kernel, and can
  no longer be cancelled.
\<close>

theorem growth_race_loses_waiter:
  assumes "io_inv s" and "fresh_for fresh s" and "iom_GetThis t s" and "ev = IO_READ \<or> ev = IO_WRITE"
    and "int (length (m_fdContexts s)) \<le> fd1" and "2 \<le> fd1" and "3 * fd1 div 2 \<le> fd2"
    and "valid fd2" and "fd2 \<noteq> epfd (ep s)" and "fd2 \<noteq> fst (m_tickleFds s)"
  shows "addEvent_look fd1 s = Inr None \<and>
    (\<exists>s1. addEvent valid fresh t a fd2 ev (Some f) s = Inr (0, s1) \<and>
      (\<exists>p s2. addEvent_grow fresh' fd1 s1 = Inr (p, s2) \<and>
        ep_set (ep s2) fd2 = Some (EPOLLET OR ev) \<and> (\<exists>q. ep_ptr s2 fd2 = Some q \<and> Some q \<notin> set (m_fdContexts s2)) \<and>
        cancelEvent valid fd2 ev s2 = Inr (False, s2) \<and> cancelAll valid fd2 s2 = Inr (False, s2)))"
proof -
  have fd2: "int (length (m_fdContexts s)) \<le> fd2" "2 \<le> fd2" using assms(5-7) by linarith+
  let ?g = "contextResize fresh (nat (3 * fd2 div 2)) s"
  note grow = addEvent_via_grow [OF assms(1,2) fd2]
  have le: "length (m_fdContexts s) \<le> nat (3 * fd2 div 2)" using fd2 by linarith
  note same = contextResize_grow [OF assms(1,2) le]
  have inv: "io_inv ?g" by (rule contextResize_inv [OF assms(1,2) le])
  have i: "nat fd2 < length (m_fdContexts ?g)" using grow(2,3) by simp
  have fdi: "int (nat fd2) = fd2" using fd2 by simp
  obtain q c where e: "entry_ok ?g (nat fd2) q c" using inv i by (rule io_invE)
  have new: "c = new_fd_context fd2"
  proof -
    have "m_fdContexts ?g ! nat fd2 = Some (fresh (nat fd2))"
      using i fd2 grow(2,3) unfolding same by (auto simp: nth_append)
    then have "q = fresh (nat fd2)" using e by (simp add: entry_ok_def)
    moreover have "inj fresh" using assms(2) by (simp add: fresh_for_def)
    ultimately have "fdc ?g q = Some (new_fd_context fd2)"
      using fd2 grow(3) unfolding same by (auto simp: the_inv_f_f fdi)
    then show ?thesis using e by (simp add: entry_ok_def)
  qed
  have noev: "\<not> has_event (fc_events c) ev" by (simp add: new new_fd_context_def has_event_def IO_NONE_def)
  have ok: "valid (int (nat fd2))" "int (nat fd2) \<noteq> epfd (ep ?g)" "int (nat fd2) \<noteq> fst (m_tickleFds ?g)" "scheduler_GetThis t ?g"
    using assms(3,8-10) unfolding fdi unfolding same by (simp_all add: iom_GetThis_def scheduler_GetThis_def)
  let ?s1 = "event_added ev (cb_context f) (nat fd2) q c ?g"
  have add: "addEvent valid fresh t a fd2 ev (Some f) s = Inr (0, ?s1)"
    using addEvent_ok(2) [where valid = valid, OF inv i e assms(4) noev ok] unfolding fdi grow(1) .
  from event_added_inv [OF inv i e ok(3) assms(4) noev, of "cb_context f"]
  have inv1: "io_inv ?s1" and e1: "entry_ok ?s1 (nat fd2) q (with_event ev (cb_context f) c)" by simp_all
  have tbl1: "m_fdContexts ?s1 = m_fdContexts ?g" by (simp add: event_added_def)
  let ?n = "nat (3 * fd1 div 2)"
  have "?n \<le> nat fd2" "nat fd1 < ?n" using assms(6,7) by linarith+
  moreover from this i have "?n \<le> length (m_fdContexts ?s1)" unfolding tbl1 by linarith
  ultimately have n: "?n \<le> nat fd2" "nat fd1 < ?n" "?n \<le> length (m_fdContexts ?s1)" by blast+
  let ?s2 = "?s1\<lparr>m_fdContexts := take ?n (m_fdContexts ?s1)\<rparr>"
  have shrink: "contextResize fresh' ?n ?s1 = ?s2" by (rule contextResize_shrink [OF inv1 n(3)])
  have len2: "length (m_fdContexts ?s2) = ?n" using n(3) by simp
  obtain p1 c1 where e2: "entry_ok ?s1 (nat fd1) p1 c1" using inv1 n(2,3) by (meson io_invE less_le_trans)
  then have "context_at fd1 ?s2 = Inr p1"
    using n len2 assms(6) by (simp add: context_at_def entry_ok_def)
  then have grown: "addEvent_grow fresh' fd1 ?s1 = Inr (p1, ?s2)"
    by (simp add: addEvent_grow_def shrink)
  have gone: "int (length (m_fdContexts ?s2)) \<le> fd2" using len2 n(1) fd2 by linarith
  have dist: "distinct (m_fdContexts ?s1)" using inv1 by (simp add: io_inv_def)
  have at: "m_fdContexts ?s1 ! nat fd2 = Some q" using e1 by (simp add: entry_ok_def)
  have notin: "Some q \<notin> set (m_fdContexts ?s2)"
  proof
    assume "Some q \<in> set (m_fdContexts ?s2)"
    then obtain j where j: "j < ?n" "m_fdContexts ?s1 ! j = Some q" by (auto simp: in_set_conv_nth)
    then have "j = nat fd2"
      using nth_eq_iff_index_eq [OF dist, of j "nat fd2"] at n(3) i tbl1 by simp
    with j(1) n(1) show False by linarith
  qed
  have ev: "fc_events (with_event ev (cb_context f) c) = ev" "ev \<noteq> 0"
    using assms(4) by (auto simp: with_event_def putContext_def new new_fd_context_def IO_NONE_def io_masks)
  have kern: "ep_set (ep ?s2) fd2 = Some (EPOLLET OR ev)" "ep_ptr ?s2 fd2 = Some q"
    using e1 ev ok(3) fd2(2) by (simp_all add: entry_ok_def fdi kernel_mask_def event_added_def)
  have "cancelEvent valid fd2 ev ?s2 = Inr (False, ?s2)" "cancelAll valid fd2 ?s2 = Inr (False, ?s2)"
    using gone by (simp_all add: cancelEvent_def cancelAll_def)
  moreover have "addEvent_look fd1 s = Inr None" using assms(5) by (simp add: addEvent_look_def)
  ultimately show ?thesis using add grown kern notin by blast
qed

theorem growth_race_loses_waiter_witness:
  "\<exists>s1. addEvent (\<lambda>fd. 0 \<le> fd) (\<lambda>i. i + 200) 9 3 60 IO_READ (Some 70) example_iom = Inr (0, s1) \<and>
     (\<exists>p s2. addEvent_grow (\<lambda>i. i + 500) 40 s1 = Inr (p, s2) \<and> ep_set (ep s2) 60 = Some (EPOLLET OR IO_READ) \<and>
        cancelEvent (\<lambda>fd. 0 \<le> fd) 60 IO_READ s2 = Inr (False, s2))"
proof -
  from growth_race_loses_waiter [OF example_iom_inv example_iom_fresh example_iom_simps(4), of IO_READ 40 60 "\<lambda>fd. 0 \<le> fd" 3 70 "\<lambda>i. i + 500"]
  show ?thesis by (auto simp: example_iom_simps)
qed

lemma clamp_timeout_idem: "clamp_timeout (clamp_timeout nt) = clamp_timeout nt"
  by (auto simp: clamp_timeout_def)

lemma wait_loop_timeouts: "wait_loop ws nt = Some (ts, es) \<Longrightarrow> set ts = {wait_timeout nt}"
proof (induction ws nt arbitrary: ts es rule: wait_loop.induct)
  case (2 ws nt)
  then obtain us where "wait_loop ws (clamp_timeout nt) = Some (us, es)" "ts = wait_timeout nt # us" by auto
  with 2 show ?case by (simp add: wait_timeout_def clamp_timeout_idem)
qed auto

text \<open>
  The time a wait may take, in every call a signal makes of it: never above three seconds;
  the time to the next timer, cut there, when that is below 2^31 ms; but the conversion to
  \<open>int\<close> makes it negative, a wait without end, for a next timer whose distance has bit 31 set, the
  nearest of them 25 days away.
\<close>

theorem wait_timeout_range:
  assumes "wait_loop ws nt = Some (ts, es)" and "\<tau> \<in> set ts"
  shows "\<tau> \<le> 3000 \<and> (unat nt < 2 ^ 31 \<longrightarrow> \<tau> = min 3000 (int (unat nt))) \<and> (\<tau> < 0 \<longleftrightarrow> nt \<noteq> - 1 \<and> bit nt 31)"
proof -
  have \<tau>: "\<tau> = wait_timeout nt" using wait_loop_timeouts [OF assms(1)] assms(2) by simp
  let ?k = "ucast nt :: 32 word"
  have k: "sint ?k = signed_take_bit 31 (uint nt)"
    by (simp add: sint_uint unsigned_ucast_eq signed_take_bit_take_bit)
  have neg: "sint ?k < 0 \<longleftrightarrow> bit nt 31" by (simp add: k bit_uint_iff)
  have small: "sint ?k = int (unat nt)" if "unat nt < 2 ^ 31"
  proof -
    have u: "uint nt = int (unat nt)" by simp
    have "int (unat nt) < int (2 ^ 31)" using that by (simp only: of_nat_less_iff)
    then show ?thesis unfolding k u by (intro signed_take_bit_int_eq_self) (simp_all del: of_nat_unat)
  qed
  have minus: "nt = - 1 \<Longrightarrow> bit nt 31" by simp
  have "\<not> unat nt < 2 ^ 31" if "nt = - 1"
    using small neg minus [OF that] by (metis not_less of_nat_0_le_iff)
  with neg small minus show ?thesis
    unfolding \<tau> by (auto simp: wait_timeout_def clamp_timeout_def min_def not_less)
qed

theorem wait_timeout_range_witness:
  "wait_loop [Interrupted, Reported []] 0x80000000 = Some ([- 0x80000000, - 0x80000000], []) \<and> - 0x80000000 < (0::int)"
proof -
  have w: "wait_loop [Interrupted, Reported []] 0x80000000 = Some ([- 0x80000000, - 0x80000000], [])"
    by (simp add: wait_timeout_def clamp_timeout_def)
  with wait_timeout_range [OF this, of "- 0x80000000"] show ?thesis by simp
qed

end
