(* ===== verification/FdManagers.thy ===== *)
theory FdManagers
  imports Prelude
begin

unbundle bit_operations_syntax

text \<open>
  \<^verbatim>\<open>Coroutine/version2/FdManager.cpp\<close>: what the hooked system calls know of a descriptor,
  an object per descriptor in a table. The kernel's part is its table of open files, each with
  what \<^verbatim>\<open>fstat\<close> and \<^verbatim>\<open>fcntl\<close> say of it. The \<open>fcntl\<close> that is called is the C library's,
  through the pointer \<^verbatim>\<open>fcntl_f\<close>, NULL until \<^verbatim>\<open>hook_init\<close> has run.
\<close>

section \<open>The kernel's files\<close>

definition O_NONBLOCK :: "32 word" where "O_NONBLOCK = 0x800"

text \<open>The flags \<^verbatim>\<open>F_SETFL\<close> can change: append, non-blocking, async, direct, noatime.\<close>

definition SETFL_MASK :: "32 word" where "SETFL_MASK = 0x46C00"

record kfile =
  k_socket :: bool
  k_flags :: "32 word"

section \<open>The code\<close>

definition SO_RCVTIMEO :: int where "SO_RCVTIMEO = 20"
definition SO_SNDTIMEO :: int where "SO_SNDTIMEO = 21"

record fd_ctx =
  m_isInit :: bool
  m_isSocket :: bool
  m_sysNonblock :: bool
  m_userNonblock :: bool
  m_isClosed :: bool
  ctx_fd :: int
  m_recvTimeout :: "64 word"
  m_sendTimeout :: "64 word"

text \<open>\<open>orig_set\<close>: the pointers to the C library's functions are set.\<close>

record fd_state =
  kfiles :: "int \<Rightarrow> kfile option"
  orig_set :: bool
  fdctxs :: "nat \<Rightarrow> fd_ctx option"
  m_datas :: "nat option list"

definition orig :: "'a fd_state_scheme \<Rightarrow> unit res" where
  "orig s = guardR (orig_set s) NullDeref"

text \<open>\<^verbatim>\<open>fcntl_f(fd, F_GETFL)\<close> and \<^verbatim>\<open>fcntl_f(fd, F_SETFL, v)\<close>.\<close>

definition orig_getfl :: "int \<Rightarrow> 'a fd_state_scheme \<Rightarrow> (32 word) res" where
  "orig_getfl fd s = bindR (orig s) (\<lambda>_. Inr (case kfiles s fd of None \<Rightarrow> - 1 | Some k \<Rightarrow> k_flags k))"

definition orig_setfl :: "int \<Rightarrow> 32 word \<Rightarrow> 'a fd_state_scheme \<Rightarrow> (32 word \<times> 'a fd_state_scheme) res" where
  "orig_setfl fd v s = bindR (orig s) (\<lambda>_.
     Inr (case kfiles s fd of
            None \<Rightarrow> (- 1, s)
          | Some k \<Rightarrow> (0, s\<lparr>kfiles := (kfiles s)
              (fd \<mapsto> k\<lparr>k_flags := (k_flags k AND NOT SETFL_MASK) OR (v AND SETFL_MASK)\<rparr>)\<rparr>)))"

definition fdctx_init :: "fd_ctx \<Rightarrow> 'a fd_state_scheme \<Rightarrow> (fd_ctx \<times> 'a fd_state_scheme) res" where
  "fdctx_init c s =
     (if m_isInit c then Inr (c, s)
      else
        (let c = c\<lparr>m_recvTimeout := - 1, m_sendTimeout := - 1\<rparr>;
             c = (case kfiles s (ctx_fd c) of
                    None \<Rightarrow> c\<lparr>m_isInit := False, m_isSocket := False\<rparr>
                  | Some k \<Rightarrow> c\<lparr>m_isInit := True, m_isSocket := k_socket k\<rparr>) in
         bindR (if m_isSocket c then
                  bindR (orig_getfl (ctx_fd c) s) (\<lambda>flags.
                  bindR (if flags AND O_NONBLOCK = 0 then orig_setfl (ctx_fd c) (flags OR O_NONBLOCK) s else Inr (0, s))
                    (\<lambda>(_, s). Inr (c\<lparr>m_sysNonblock := True\<rparr>, s)))
                else Inr (c\<lparr>m_sysNonblock := False\<rparr>, s)) (\<lambda>(c, s).
         Inr (c\<lparr>m_userNonblock := False, m_isClosed := False\<rparr>, s))))"

definition FdCtx :: "int \<Rightarrow> 'a fd_state_scheme \<Rightarrow> (fd_ctx \<times> 'a fd_state_scheme) res" where
  "FdCtx fd s = fdctx_init \<lparr>m_isInit = False, m_isSocket = False, m_sysNonblock = False, m_userNonblock = False,
     m_isClosed = False, ctx_fd = fd, m_recvTimeout = - 1, m_sendTimeout = - 1\<rparr> s"

definition setTimeout :: "int \<Rightarrow> 64 word \<Rightarrow> fd_ctx \<Rightarrow> fd_ctx" where
  "setTimeout type v c = (if type = SO_RCVTIMEO then c\<lparr>m_recvTimeout := v\<rparr> else c\<lparr>m_sendTimeout := v\<rparr>)"

definition getTimeout :: "int \<Rightarrow> fd_ctx \<Rightarrow> 64 word" where
  "getTimeout type c = (if type = SO_RCVTIMEO then m_recvTimeout c else m_sendTimeout c)"

definition fdManagerInit :: "'a fd_state_scheme \<Rightarrow> 'a fd_state_scheme" where
  "fdManagerInit s = s\<lparr>m_datas := replicate 64 None\<rparr>"

text \<open>
  \<open>get\<close>: the part under the read lock, which finds the answer or leaves it to the part under the write
  lock, which makes the object, at \<open>a\<close>; \<^verbatim>\<open>fd * 1.5\<close> is exact in a \<^verbatim>\<open>double\<close>.
\<close>

definition fdm_look :: "int \<Rightarrow> bool \<Rightarrow> 'a fd_state_scheme \<Rightarrow> (nat option) option res" where
  "fdm_look fd auto_create s =
     (if fd = -1 then Inr (Some None)
      else if int (length (m_datas s)) \<le> fd then Inr (if auto_create then None else Some None)
      else if fd < 0 then Inl OutOfBounds
      else if m_datas s ! nat fd \<noteq> None \<or> \<not> auto_create then Inr (Some (m_datas s ! nat fd))
      else Inr None)"

definition fdm_create :: "nat \<Rightarrow> int \<Rightarrow> 'a fd_state_scheme \<Rightarrow> (nat \<times> 'a fd_state_scheme) res" where
  "fdm_create a fd s =
     bindR (FdCtx fd s) (\<lambda>(c, s).
     let ds = (if int (length (m_datas s)) \<le> fd
               then take (nat (3 * fd div 2)) (m_datas s) @ replicate (nat (3 * fd div 2) - length (m_datas s)) None
               else m_datas s) in
     if fd < 0 \<or> int (length ds) \<le> fd then Inl OutOfBounds
     else Inr (a, s\<lparr>fdctxs := (fdctxs s)(a \<mapsto> c), m_datas := ds[nat fd := Some a]\<rparr>))"

definition fdm_get :: "nat \<Rightarrow> int \<Rightarrow> bool \<Rightarrow> 'a fd_state_scheme \<Rightarrow> (nat option \<times> 'a fd_state_scheme) res" where
  "fdm_get a fd auto_create s =
     bindR (fdm_look fd auto_create s) (\<lambda>found.
     case found of
       Some r \<Rightarrow> Inr (r, s)
     | None \<Rightarrow> bindR (fdm_create a fd s) (\<lambda>(p, s). Inr (Some p, s)))"

definition fdm_del :: "int \<Rightarrow> 'a fd_state_scheme \<Rightarrow> 'a fd_state_scheme res" where
  "fdm_del fd s =
     (if int (length (m_datas s)) \<le> fd then Inr s
      else if fd < 0 then Inl OutOfBounds
      else Inr (s\<lparr>m_datas := (m_datas s)[nat fd := None]\<rparr>))"

text \<open>The object a hooked call finds without making one.\<close>

definition fdm_find :: "int \<Rightarrow> 'a fd_state_scheme \<Rightarrow> (nat \<times> fd_ctx) option res" where
  "fdm_find fd s =
     bindR (fdm_get 0 fd False s) (\<lambda>(r, _).
     case r of
       None \<Rightarrow> Inr None
     | Some p \<Rightarrow> (case fdctxs s p of None \<Rightarrow> Inl UseAfterFree | Some c \<Rightarrow> Inr (Some (p, c))))"

section \<open>The object of a new descriptor\<close>

definition nonblocking :: "32 word \<Rightarrow> bool" where
  "nonblocking v \<longleftrightarrow> v AND O_NONBLOCK \<noteq> 0"

lemma setfl_bit: "bit SETFL_MASK 11" "bit O_NONBLOCK n \<longleftrightarrow> n = 11"
proof -
  show "bit SETFL_MASK 11" by (simp add: SETFL_MASK_def)
  have "O_NONBLOCK = 2 ^ 11" by (simp add: O_NONBLOCK_def)
  moreover have "bit (2 ^ 11 :: 32 word) n \<longleftrightarrow> n = 11" unfolding bit_exp_iff by auto
  ultimately show "bit O_NONBLOCK n \<longleftrightarrow> n = 11" by metis
qed

lemma nonblocking_bit: "nonblocking v \<longleftrightarrow> bit v 11"
proof
  assume "nonblocking v"
  then show "bit v 11"
    by (rule contrapos_pp) (auto simp: nonblocking_def bit_simps setfl_bit intro: bit_word_eqI)
next
  assume "bit v 11"
  then have "bit (v AND O_NONBLOCK) 11" by (simp add: bit_and_iff setfl_bit)
  then show "nonblocking v" by (auto simp: nonblocking_def)
qed

lemma and_nonblock_0 [simp]: "v AND O_NONBLOCK = 0 \<longleftrightarrow> \<not> nonblocking v"
  by (simp add: nonblocking_def)

lemma nonblocking_simps [simp]:
  "nonblocking (v OR O_NONBLOCK)" "\<not> nonblocking (v AND NOT O_NONBLOCK)" "\<not> nonblocking 0"
  "nonblocking ((k AND NOT SETFL_MASK) OR (v AND SETFL_MASK)) = nonblocking v"
  by (simp_all add: nonblocking_bit bit_simps setfl_bit)

lemma setfl_add_nonblock: "(k AND NOT SETFL_MASK) OR ((k OR O_NONBLOCK) AND SETFL_MASK) = k OR O_NONBLOCK"
  by (rule bit_word_eqI) (auto simp: bit_simps setfl_bit)

definition new_ctx :: "int \<Rightarrow> kfile option \<Rightarrow> fd_ctx" where
  "new_ctx fd k = \<lparr>m_isInit = k \<noteq> None, m_isSocket = (\<exists>x. k = Some x \<and> k_socket x),
     m_sysNonblock = (\<exists>x. k = Some x \<and> k_socket x), m_userNonblock = False, m_isClosed = False, ctx_fd = fd,
     m_recvTimeout = - 1, m_sendTimeout = - 1\<rparr>"

definition made_nonblocking :: "kfile option \<Rightarrow> kfile option" where
  "made_nonblocking = map_option (\<lambda>k. if k_socket k then k\<lparr>k_flags := k_flags k OR O_NONBLOCK\<rparr> else k)"

lemma or_nonblocking: "nonblocking v \<Longrightarrow> v OR O_NONBLOCK = v"
  by (rule bit_word_eqI) (auto simp: bit_simps setfl_bit nonblocking_bit)

lemma FdCtx_eq:
  assumes "orig_set s"
  shows "FdCtx fd s = Inr (new_ctx fd (kfiles s fd), s\<lparr>kfiles := (kfiles s)(fd := made_nonblocking (kfiles s fd))\<rparr>)"
proof (cases "kfiles s fd")
  case None
  then have "(kfiles s)(fd := None) = kfiles s" by auto
  with None show ?thesis by (simp add: FdCtx_def fdctx_init_def Let_def new_ctx_def made_nonblocking_def)
next
  case (Some k)
  then have "(kfiles s)(fd \<mapsto> k) = kfiles s" by auto
  moreover have "k\<lparr>k_flags := k_flags k\<rparr> = k" by simp
  ultimately show ?thesis
    using Some assms
    by (cases "nonblocking (k_flags k)")
      (auto simp: FdCtx_def fdctx_init_def Let_def new_ctx_def made_nonblocking_def orig_getfl_def orig_setfl_def orig_def
        setfl_add_nonblock or_nonblocking)
qed

lemma FdCtx_unset: "\<not> orig_set s \<Longrightarrow> FdCtx fd s =
    (if \<exists>k. kfiles s fd = Some k \<and> k_socket k then Inl NullDeref else Inr (new_ctx fd (kfiles s fd), s))"
  by (auto simp: FdCtx_def fdctx_init_def Let_def new_ctx_def orig_getfl_def orig_def split: option.split)

section \<open>The table is a map\<close>

text \<open>
  The map from descriptors to their objects that the table stands for. Well-formed: objects exist,
  are for their descriptor, and no two descriptors share one; a socket is known to be kept
  non-blocking, anything else is not; and the kernel has it so.
\<close>

definition fdm_slot :: "'a fd_state_scheme \<Rightarrow> int \<Rightarrow> nat option" where
  "fdm_slot s fd = (if 0 \<le> fd \<and> fd < int (length (m_datas s)) then m_datas s ! nat fd else None)"

definition fdm_abs :: "'a fd_state_scheme \<Rightarrow> int \<Rightarrow> fd_ctx option" where
  "fdm_abs s fd = Option.bind (fdm_slot s fd) (fdctxs s)"

definition ctx_typed :: "int \<Rightarrow> fd_ctx \<Rightarrow> bool" where
  "ctx_typed fd c \<longleftrightarrow> ctx_fd c = fd \<and> (m_sysNonblock c \<longleftrightarrow> m_isSocket c) \<and> (m_isSocket c \<longrightarrow> m_isInit c) \<and>
     \<not> m_isClosed c"

definition fd_wf :: "'a fd_state_scheme \<Rightarrow> bool" where
  "fd_wf s \<longleftrightarrow> 64 \<le> length (m_datas s) \<and>
     (\<forall>fd p. fdm_slot s fd = Some p \<longrightarrow> (\<exists>c. fdctxs s p = Some c \<and> ctx_typed fd c)) "

definition kernel_agrees :: "'a fd_state_scheme \<Rightarrow> bool" where
  "kernel_agrees s \<longleftrightarrow> (\<forall>fd c. fdm_abs s fd = Some c \<longrightarrow> m_isSocket c \<longrightarrow>
     (\<exists>k. kfiles s fd = Some k \<and> k_socket k \<and> nonblocking (k_flags k)))"

lemma ctx_typed_new [simp]: "ctx_typed fd (new_ctx fd k)"
  by (auto simp: ctx_typed_def new_ctx_def)

lemma fd_wfE:
  assumes "fd_wf s" and "fdm_slot s fd = Some p"
  obtains c where "fdctxs s p = Some c" and "ctx_typed fd c" and "fdm_abs s fd = Some c"
  using assms unfolding fd_wf_def fdm_abs_def by force

lemma slot_inj:
  assumes "fd_wf s" and "fdm_slot s fd = Some p" and "fdm_slot s fd' = Some p"
  shows "fd = fd'"
proof -
  obtain c where "fdctxs s p = Some c" "ctx_typed fd c" using assms(1,2) by (rule fd_wfE)
  moreover obtain d where "fdctxs s p = Some d" "ctx_typed fd' d" using assms(1,3) by (rule fd_wfE)
  ultimately show ?thesis by (simp add: ctx_typed_def)
qed

lemma slot_negative [simp]: "fd < 0 \<Longrightarrow> fdm_slot s fd = None"
  by (simp add: fdm_slot_def)

lemma abs_None: "fd_wf s \<Longrightarrow> fdm_abs s fd = None \<longleftrightarrow> fdm_slot s fd = None"
  by (cases "fdm_slot s fd") (auto simp: fdm_abs_def fd_wf_def)

lemma fdm_look_eq:
  "fdm_look fd auto s =
     (if fd < -1 then Inl OutOfBounds
      else if fd = -1 then Inr (Some None)
      else if fdm_slot s fd = None \<and> auto then Inr None
      else Inr (Some (fdm_slot s fd)))"
  by (auto simp: fdm_look_def fdm_slot_def)

lemma fdm_find_eq:
  assumes "fd_wf s" and "-1 \<le> fd"
  shows "fdm_find fd s = Inr (case fdm_slot s fd of None \<Rightarrow> None | Some p \<Rightarrow> Some (p, the (fdm_abs s fd)))"
proof (cases "fdm_slot s fd")
  case None
  with assms(2) show ?thesis by (auto simp: fdm_find_def fdm_get_def fdm_look_eq)
next
  case (Some p)
  obtain c where "fdctxs s p = Some c" "fdm_abs s fd = Some c" using assms(1) Some by (rule fd_wfE)
  with Some assms(2) show ?thesis by (auto simp: fdm_find_def fdm_get_def fdm_look_eq)
qed

section \<open>Getting and deleting\<close>

definition entered :: "nat \<Rightarrow> int \<Rightarrow> 'a fd_state_scheme \<Rightarrow> 'a fd_state_scheme \<Rightarrow> bool" where
  "entered a fd s s' \<longleftrightarrow> fdm_slot s' = (fdm_slot s)(fd \<mapsto> a) \<and> length (m_datas s) \<le> length (m_datas s') \<and>
     fdctxs s' = (fdctxs s)(a \<mapsto> new_ctx fd (kfiles s fd)) \<and>
     kfiles s' = (kfiles s)(fd := made_nonblocking (kfiles s fd)) \<and>
     orig_set s' = orig_set s \<and> fd_state.more s' = fd_state.more s"

lemma fdm_create_entered:
  assumes "fd_wf s" and "orig_set s" and "0 \<le> fd"
  shows "\<exists>s'. fdm_create a fd s = Inr (a, s') \<and> entered a fd s s'"
proof -
  let ?n = "nat (3 * fd div 2)"
  define ds where "ds = (if int (length (m_datas s)) \<le> fd
    then take ?n (m_datas s) @ replicate (?n - length (m_datas s)) None else m_datas s)"
  have big: "64 \<le> length (m_datas s)" using assms(1) by (simp add: fd_wf_def)
  have grows: "\<not> 3 * fd div 2 \<le> fd" if "int (length (m_datas s)) \<le> fd" using big that by linarith
  have len: "length (m_datas s) \<le> length ds" and in_range: "nat fd < length ds"
    using big assms(3) by (auto simp: ds_def)
  have nth: "ds ! i = (if i < length (m_datas s) then m_datas s ! i else None)" if "i < length ds" for i
    using that big by (auto simp: ds_def nth_append split: if_splits)
  let ?s = "s\<lparr>kfiles := (kfiles s)(fd := made_nonblocking (kfiles s fd)),
    fdctxs := (fdctxs s)(a \<mapsto> new_ctx fd (kfiles s fd)), m_datas := ds[nat fd := Some a]\<rparr>"
  have "fdm_create a fd s = Inr (a, ?s)"
    using in_range assms(3) grows unfolding ds_def by (simp add: fdm_create_def FdCtx_eq [OF assms(2)])
  moreover have "fdm_slot ?s = (fdm_slot s)(fd \<mapsto> a)"
    using len in_range assms(3) nth by (auto simp: fdm_slot_def fun_eq_iff nth_list_update nat_eq_iff)
  ultimately show ?thesis using len by (auto simp: entered_def)
qed

lemma entered_abs:
  assumes "entered a fd s s'" and "fd_wf s" and "fdctxs s a = None"
  shows "fd_wf s'" and "fdm_abs s' = (fdm_abs s)(fd \<mapsto> new_ctx fd (kfiles s fd))"
proof -
  have other: "p \<noteq> a" if "fdm_slot s fd' = Some p" for fd' p
    using assms(2,3) that by (auto elim: fd_wfE)
  then show "fdm_abs s' = (fdm_abs s)(fd \<mapsto> new_ctx fd (kfiles s fd))"
    using assms(1) by (auto simp: fdm_abs_def entered_def fun_eq_iff split: option.splits bind_splits)
  show "fd_wf s'"
    unfolding fd_wf_def
  proof (intro conjI allI impI)
    show "64 \<le> length (m_datas s')" using assms(1,2) by (simp add: entered_def fd_wf_def)
    show "\<exists>c. fdctxs s' p = Some c \<and> ctx_typed fd' c" if "fdm_slot s' fd' = Some p" for fd' p
      using that other assms(1,2) by (auto simp: entered_def fd_wf_def split: if_splits)
  qed
qed

lemma entered_agrees:
  assumes "entered a fd s s'" and "fd_wf s" and "fdctxs s a = None" and "kernel_agrees s"
  shows "kernel_agrees s'"
  using assms(1,4)
  by (auto simp: kernel_agrees_def entered_abs(2) [OF assms(1-3)] entered_def new_ctx_def made_nonblocking_def)

lemma fdm_del_abs:
  assumes "fd_wf s" and "0 \<le> fd"
  shows "\<exists>s'. fdm_del fd s = Inr s' \<and> fdm_slot s' = (fdm_slot s)(fd := None) \<and> fdm_abs s' = (fdm_abs s)(fd := None) \<and>
    fd_wf s' \<and> length (m_datas s') = length (m_datas s) \<and> fdctxs s' = fdctxs s \<and> kfiles s' = kfiles s \<and>
    orig_set s' = orig_set s \<and> fd_state.more s' = fd_state.more s"
proof -
  define s' where "s' = (if int (length (m_datas s)) \<le> fd then s else s\<lparr>m_datas := (m_datas s)[nat fd := None]\<rparr>)"
  have run: "fdm_del fd s = Inr s'" using assms(2) by (simp add: fdm_del_def s'_def)
  have slot: "fdm_slot s' = (fdm_slot s)(fd := None)"
    using assms(2) by (auto simp: fdm_slot_def fun_eq_iff s'_def nth_list_update nat_eq_iff)
  have rest: "length (m_datas s') = length (m_datas s)" "fdctxs s' = fdctxs s" "kfiles s' = kfiles s"
    "orig_set s' = orig_set s" "fd_state.more s' = fd_state.more s"
    by (simp_all add: s'_def)
  have "fdm_abs s' = (fdm_abs s)(fd := None)" by (auto simp: fdm_abs_def slot rest fun_eq_iff)
  moreover have "fd_wf s'" using assms(1) by (auto simp: fd_wf_def slot rest split: if_splits)
  ultimately show ?thesis using run slot rest by blast
qed

lemma fdm_init_wf:
  "fd_wf (fdManagerInit s)" "fdm_abs (fdManagerInit s) = Map.empty" "kernel_agrees (fdManagerInit s)"
proof -
  have slot: "fdm_slot (fdManagerInit s) fd = None" for fd by (auto simp: fdm_slot_def fdManagerInit_def)
  then show "fdm_abs (fdManagerInit s) = Map.empty" by (auto simp: fdm_abs_def)
  then show "kernel_agrees (fdManagerInit s)" by (simp add: kernel_agrees_def)
  show "fd_wf (fdManagerInit s)" by (simp add: fd_wf_def slot) (simp add: fdManagerInit_def)
qed

text \<open>
  An object is written through its pointer: what the map then has.
\<close>

definition upd_ctx :: "nat \<Rightarrow> (fd_ctx \<Rightarrow> fd_ctx) \<Rightarrow> 'a fd_state_scheme \<Rightarrow> 'a fd_state_scheme" where
  "upd_ctx p f s = s\<lparr>fdctxs := (fdctxs s)(p := map_option f (fdctxs s p))\<rparr>"

lemma upd_ctx_abs:
  assumes "fd_wf s" and "fdm_slot s fd = Some p" and "\<And>c. ctx_typed fd c \<Longrightarrow> ctx_typed fd (f c)"
  shows "fd_wf (upd_ctx p f s)" and "fdm_abs (upd_ctx p f s) = (fdm_abs s)(fd := map_option f (fdm_abs s fd))"
proof -
  have slot: "fdm_slot (upd_ctx p f s) = fdm_slot s" by (simp add: fdm_slot_def upd_ctx_def fun_eq_iff)
  show "fdm_abs (upd_ctx p f s) = (fdm_abs s)(fd := map_option f (fdm_abs s fd))"
  proof
    show "fdm_abs (upd_ctx p f s) fd' = ((fdm_abs s)(fd := map_option f (fdm_abs s fd))) fd'" for fd'
    proof (cases "fdm_slot s fd' = Some p")
      case True
      then have "fd' = fd" using assms(1,2) by (metis slot_inj)
      then show ?thesis using assms(2) by (simp add: fdm_abs_def slot) (simp add: upd_ctx_def)
    next
      case False
      with assms(2) have "fd' \<noteq> fd" by auto
      moreover have "fdctxs (upd_ctx p f s) = (fdctxs s)(p := map_option f (fdctxs s p))" by (simp add: upd_ctx_def)
      ultimately show ?thesis using False by (cases "fdm_slot s fd'") (simp_all add: fdm_abs_def slot)
    qed
  qed
  show "fd_wf (upd_ctx p f s)"
    unfolding fd_wf_def slot
  proof (intro conjI allI impI)
    show "64 \<le> length (m_datas (upd_ctx p f s))" using assms(1) by (simp add: fd_wf_def upd_ctx_def)
    show "\<exists>c. fdctxs (upd_ctx p f s) q = Some c \<and> ctx_typed fd' c" if q: "fdm_slot s fd' = Some q" for fd' q
    proof -
      obtain c where c: "fdctxs s q = Some c" "ctx_typed fd' c" using assms(1) q by (rule fd_wfE)
      show ?thesis
      proof (cases "q = p")
        case True
        then have "fd' = fd" using assms(1,2) q by (metis slot_inj)
        then show ?thesis using c True assms(3) by (simp add: upd_ctx_def)
      next
        case False
        then show ?thesis using c by (simp add: upd_ctx_def)
      qed
    qed
  qed
qed

end
