(* ===== verification/Hooks.thy ===== *)
theory Hooks
  imports IOManagers FdManagers "HOL-Library.Signed_Division"
begin

unbundle bit_operations_syntax

text \<open>
  \<^verbatim>\<open>Coroutine/version2/Hook.cpp\<close>: system calls that put the calling fiber to sleep instead
  of the thread. The C library's functions stand behind pointers; what a call through one gives is
  an argument, as the list of results of successive calls, each with the \<^verbatim>\<open>errno\<close> it leaves;
  behind the last one the call blocks. A call that yields is cut there: it gives what it keeps, and
  goes on with \<^verbatim>\<open>..._resume\<close> in the thread that resumes its fiber. All threads that have a
  manager have the same one.
\<close>

section \<open>The code: state\<close>

definition EINTR :: int where "EINTR = 4"
definition EBADF :: int where "EBADF = 9"
definition EAGAIN :: int where "EAGAIN = 11"
definition ETIMEDOUT :: int where "ETIMEDOUT = 110"
definition EINPROGRESS :: int where "EINPROGRESS = 115"

text \<open>The function objects the hooks make, with what they capture.\<close>

datatype hook_fun = TimedOut nat int "32 word" | Reschedule nat

text \<open>
  \<open>tinfos\<close>: the \<^verbatim>\<open>timer_info\<close> objects alive, each with its member \<^verbatim>\<open>cancelled\<close>.
\<close>

record hooks = fd_state +
  h_iom :: iomanager
  t_hook_enable :: "tid \<Rightarrow> bool"
  h_errno :: "tid \<Rightarrow> int"
  tinfos :: "nat \<Rightarrow> int option"
  h_funs :: "nat \<Rightarrow> hook_fun option"

text \<open>What a call meets: the clock, and the addresses of the objects it may make.\<close>

record hook_env =
  env_now :: "64 word"
  env_timer :: nat
  env_fun :: nat
  env_fiber :: nat
  env_ctx :: "nat \<Rightarrow> nat"

text \<open>What a call in its wait keeps.\<close>

record io_call =
  io_fd :: int
  io_event :: "32 word"
  io_to :: "64 word"
  io_tinfo :: nat
  io_timer :: "nat option"

datatype io_out = Returned int | Suspended io_call

definition hook_init :: "'a fd_state_scheme \<Rightarrow> 'a fd_state_scheme" where
  "hook_init s = s\<lparr>orig_set := True\<rparr>"

definition is_open :: "hooks \<Rightarrow> int \<Rightarrow> bool" where
  "is_open s fd \<longleftrightarrow> kfiles s fd \<noteq> None"

definition set_errno :: "tid \<Rightarrow> int \<Rightarrow> hooks \<Rightarrow> hooks" where
  "set_errno t e s = s\<lparr>h_errno := (h_errno s)(t := e)\<rparr>"

text \<open>A call of a function of the C library that gives \<open>n\<close>, and what it does to \<^verbatim>\<open>errno\<close>.\<close>

definition direct :: "tid \<Rightarrow> (int \<times> int) list \<Rightarrow> hooks \<Rightarrow> (io_out \<times> hooks) run" where
  "direct t rs s =
     (if \<not> orig_set s then Some (Inl NullDeref)
      else (case rs of
              [] \<Rightarrow> None
            | (n, e) # _ \<Rightarrow> Some (Inr (Returned n, if n = -1 then set_errno t e s else s))))"

section \<open>The code: waiting for a descriptor\<close>

text \<open>The function the timer of a wait has.\<close>

definition timed_out :: "nat \<Rightarrow> int \<Rightarrow> 32 word \<Rightarrow> hooks \<Rightarrow> hooks res" where
  "timed_out ti fd ev s =
     (case tinfos s ti of
        None \<Rightarrow> Inr s
      | Some x \<Rightarrow>
          if x \<noteq> 0 then Inr s
          else bindR (cancelEvent (is_open s) fd ev (h_iom s)) (\<lambda>(_, m).
            Inr (s\<lparr>h_iom := m, tinfos := (tinfos s)(ti \<mapsto> ETIMEDOUT)\<rparr>)))"

text \<open>Running a function object of the hooks, and a timer's callback, which looks at its condition first.\<close>

definition run_hook_fun :: "nat \<Rightarrow> hooks \<Rightarrow> hooks res" where
  "run_hook_fun fn s =
     (case h_funs s fn of
        None \<Rightarrow> Inl NullDeref
      | Some (TimedOut ti fd ev) \<Rightarrow> timed_out ti fd ev s
      | Some (Reschedule f) \<Rightarrow>
          bindR (schedule iom_tickle (fiber_task (Some f) any_thread) (h_iom s)) (\<lambda>m. Inr (s\<lparr>h_iom := m\<rparr>)))"

fun run_hook_funs :: "nat list \<Rightarrow> hooks \<Rightarrow> hooks res" where
  "run_hook_funs [] s = Inr s"
| "run_hook_funs (f # fs) s = bindR (run_hook_fun f s) (run_hook_funs fs)"

definition run_hook_cb :: "timer_cb option \<Rightarrow> hooks \<Rightarrow> hooks res" where
  "run_hook_cb cb s = bindR (run_cb (\<lambda>ti. tinfos s ti \<noteq> None) cb) (\<lambda>fs. run_hook_funs fs s)"

text \<open>
  Registering a wait: the timer, unless there is no limit, and the event. \<^verbatim>\<open>iom\<close> is NULL in
  a thread that has no manager.
\<close>

definition arm ::
  "tid \<Rightarrow> hook_env \<Rightarrow> int \<Rightarrow> 32 word \<Rightarrow> 64 word \<Rightarrow> nat \<Rightarrow> hooks \<Rightarrow> (int \<times> nat option \<times> hooks) res" where
  "arm t e fd ev to ti s =
     bindR (guardR (iom_GetThis t (h_iom s)) NullDeref) (\<lambda>_.
     bindR (if to \<noteq> - 1 then
              bindR (iom_addTimer (env_timer e) (env_now e) to (Some (OnTimer ti (Some (env_fun e)))) False (h_iom s))
                (\<lambda>(tm, m). Inr (Some tm, s\<lparr>h_iom := m, h_funs := (h_funs s)(env_fun e \<mapsto> TimedOut ti fd ev)\<rparr>))
            else Inr (None, s)) (\<lambda>(timer, s).
     bindR (addEvent (is_open s) (env_ctx e) t (env_fiber e) fd ev None (h_iom s)) (\<lambda>(rt, m).
     Inr (rt, timer, s\<lparr>h_iom := m\<rparr>))))"

definition disarm :: "nat option \<Rightarrow> hooks \<Rightarrow> hooks res" where
  "disarm timer s =
     (case timer of
        None \<Rightarrow> Inr s
      | Some tm \<Rightarrow> bindR (timer_cancel tm (io_timers (h_iom s))) (\<lambda>(_, m).
          Inr (s\<lparr>h_iom := (h_iom s)\<lparr>io_timers := m\<rparr>\<rparr>)))"

text \<open>\<^verbatim>\<open>Fiber::GetThis()->yield()\<close>.\<close>

definition yield_now :: "tid \<Rightarrow> hook_env \<Rightarrow> hooks \<Rightarrow> hooks res" where
  "yield_now t e s =
     bindR (fiber_GetThis t (env_fiber e) (h_iom s)) (\<lambda>(f, m).
     bindR (fiber_yield t f m) (\<lambda>m. Inr (s\<lparr>h_iom := m\<rparr>)))"

text \<open>The return, with which the last pointer to the \<^verbatim>\<open>timer_info\<close> goes.\<close>

definition returns :: "nat \<Rightarrow> int \<Rightarrow> hooks \<Rightarrow> (io_out \<times> hooks) res" where
  "returns ti n s = Inr (Returned n, s\<lparr>tinfos := (tinfos s)(ti := None)\<rparr>)"

section \<open>The code: input and output\<close>

text \<open>The calls up to one that is not interrupted.\<close>

fun call_retry :: "(int \<times> int) list \<Rightarrow> (int \<times> int) option" where
  "call_retry [] = None"
| "call_retry ((n, e) # rs) = (if n = -1 \<and> e = EINTR then call_retry rs else Some (n, e))"

text \<open>\<open>do_io\<close> from \<^verbatim>\<open>retry\<close> to the yield or the return.\<close>

definition do_io_try :: "tid \<Rightarrow> hook_env \<Rightarrow> io_call \<Rightarrow> (int \<times> int) list \<Rightarrow> hooks \<Rightarrow> (io_out \<times> hooks) run" where
  "do_io_try t e c rs s =
     (if \<not> orig_set s then Some (Inl NullDeref)
      else (case call_retry rs of
              None \<Rightarrow> None
            | Some (n, err) \<Rightarrow>
                (let s = (if n = -1 then set_errno t err s else s) in
                 Some (if n = -1 \<and> err = EAGAIN then
                         bindR (arm t e (io_fd c) (io_event c) (io_to c) (io_tinfo c) s) (\<lambda>(rt, timer, s).
                         if rt \<noteq> 0 then bindR (disarm timer s) (returns (io_tinfo c) (-1))
                         else bindR (yield_now t e s) (\<lambda>s. Inr (Suspended (c\<lparr>io_timer := timer\<rparr>), s)))
                       else returns (io_tinfo c) n s))))"

text \<open>\<open>ti\<close>: the address of the \<^verbatim>\<open>timer_info\<close>.\<close>

definition do_io ::
  "tid \<Rightarrow> hook_env \<Rightarrow> int \<Rightarrow> 32 word \<Rightarrow> int \<Rightarrow> nat \<Rightarrow> (int \<times> int) list \<Rightarrow> hooks \<Rightarrow> (io_out \<times> hooks) run" where
  "do_io t e fd ev timeout_so ti rs s =
     (if \<not> t_hook_enable s t then direct t rs s
      else (case fdm_find fd s of
              Inl f \<Rightarrow> Some (Inl f)
            | Inr None \<Rightarrow> direct t rs s
            | Inr (Some (_, ctx)) \<Rightarrow>
                if m_isClosed ctx then Some (Inr (Returned (-1), set_errno t EBADF s))
                else if \<not> m_isSocket ctx \<or> m_userNonblock ctx then direct t rs s
                else do_io_try t e
                  \<lparr>io_fd = fd, io_event = ev, io_to = getTimeout timeout_so ctx, io_tinfo = ti, io_timer = None\<rparr>
                  rs (s\<lparr>tinfos := (tinfos s)(ti \<mapsto> 0)\<rparr>)))"

definition do_io_resume :: "tid \<Rightarrow> hook_env \<Rightarrow> io_call \<Rightarrow> (int \<times> int) list \<Rightarrow> hooks \<Rightarrow> (io_out \<times> hooks) run" where
  "do_io_resume t e c rs s =
     (case disarm (io_timer c) s of
        Inl f \<Rightarrow> Some (Inl f)
      | Inr s \<Rightarrow>
          (case tinfos s (io_tinfo c) of
             None \<Rightarrow> Some (Inl UseAfterFree)
           | Some x \<Rightarrow>
               if x \<noteq> 0 then Some (returns (io_tinfo c) (-1) (set_errno t x s))
               else do_io_try t e (c\<lparr>io_timer := None\<rparr>) rs s))"

text \<open>The hooked functions that are \<open>do_io\<close>, by what they wait for and the timeout they have.\<close>

datatype io_fun = Accept | Read | Readv | Recv | Recvfrom | Recvmsg | Write | Writev | Send | Sendto | Sendmsg

fun io_kind :: "io_fun \<Rightarrow> (32 word) \<times> int" where
  "io_kind Accept = (IO_READ, SO_RCVTIMEO)"
| "io_kind Read = (IO_READ, SO_RCVTIMEO)"
| "io_kind Readv = (IO_READ, SO_RCVTIMEO)"
| "io_kind Recv = (IO_READ, SO_RCVTIMEO)"
| "io_kind Recvfrom = (IO_READ, SO_RCVTIMEO)"
| "io_kind Recvmsg = (IO_READ, SO_RCVTIMEO)"
| "io_kind Write = (IO_WRITE, SO_SNDTIMEO)"
| "io_kind Writev = (IO_WRITE, SO_SNDTIMEO)"
| "io_kind Send = (IO_WRITE, SO_SNDTIMEO)"
| "io_kind Sendto = (IO_WRITE, SO_SNDTIMEO)"
| "io_kind Sendmsg = (IO_WRITE, SO_SNDTIMEO)"

definition hooked_io :: "io_fun \<Rightarrow> tid \<Rightarrow> hook_env \<Rightarrow> int \<Rightarrow> nat \<Rightarrow> (int \<times> int) list \<Rightarrow> hooks \<Rightarrow> (io_out \<times> hooks) run" where
  "hooked_io f t e fd ti rs s = do_io t e fd (fst (io_kind f)) (snd (io_kind f)) ti rs s"

text \<open>
  The rest of \<^verbatim>\<open>accept\<close>: \<open>k\<close> is the file the kernel has made, \<open>a\<close> the address of its object.
\<close>

definition accept_rest :: "nat \<Rightarrow> kfile \<Rightarrow> io_out \<times> hooks \<Rightarrow> (io_out \<times> hooks) run" where
  "accept_rest a k out =
     (case out of
        (Returned fd, s) \<Rightarrow>
          if 0 \<le> fd then Some (bindR (fdm_get a fd True (s\<lparr>kfiles := (kfiles s)(fd \<mapsto> k)\<rparr>)) (\<lambda>(_, s). Inr (Returned fd, s)))
          else Some (Inr (Returned fd, s))
      | (Suspended c, s) \<Rightarrow> Some (Inr (Suspended c, s)))"

definition hook_accept ::
  "tid \<Rightarrow> hook_env \<Rightarrow> nat \<Rightarrow> kfile \<Rightarrow> int \<Rightarrow> nat \<Rightarrow> (int \<times> int) list \<Rightarrow> hooks \<Rightarrow> (io_out \<times> hooks) run" where
  "hook_accept t e a k fd ti rs s = bindO (hooked_io Accept t e fd ti rs s) (accept_rest a k)"

definition accept_resume ::
  "tid \<Rightarrow> hook_env \<Rightarrow> nat \<Rightarrow> kfile \<Rightarrow> io_call \<Rightarrow> (int \<times> int) list \<Rightarrow> hooks \<Rightarrow> (io_out \<times> hooks) run" where
  "accept_resume t e a k c rs s = bindO (do_io_resume t e c rs s) (accept_rest a k)"

section \<open>The code: sleeping\<close>

text \<open>What the three have in common: a timer that schedules the fiber, and the yield.\<close>

definition sleep_for :: "tid \<Rightarrow> hook_env \<Rightarrow> 64 word \<Rightarrow> hooks \<Rightarrow> hooks res" where
  "sleep_for t e ms s =
     bindR (fiber_GetThis t (env_fiber e) (h_iom s)) (\<lambda>(f, m).
     bindR (guardR (iom_GetThis t m) NullDeref) (\<lambda>_.
     bindR (iom_addTimer (env_timer e) (env_now e) ms (Some (Plain (env_fun e))) False m) (\<lambda>(_, m).
     yield_now t e (s\<lparr>h_iom := m, h_funs := (h_funs s)(env_fun e \<mapsto> Reschedule f)\<rparr>))))"

text \<open>
  \<open>rs\<close>: what the C library's function gives, when it is called; otherwise the fiber sleeps, and
  the call returns 0 when it is resumed.
\<close>

definition sleep_ms :: "32 word \<Rightarrow> 64 word" where
  "sleep_ms seconds = ucast (seconds * 1000)"

definition usleep_ms :: "32 word \<Rightarrow> 64 word" where
  "usleep_ms usec = ucast (usec div 1000)"

definition nanosleep_ms :: "int \<Rightarrow> int \<Rightarrow> 64 word" where
  "nanosleep_ms tv_sec tv_nsec = scast (of_int (tv_sec * 1000 + (tv_nsec sdiv 1000) sdiv 1000) :: 32 word)"

definition sleeps :: "tid \<Rightarrow> hook_env \<Rightarrow> 64 word \<Rightarrow> (int \<times> int) list \<Rightarrow> hooks \<Rightarrow> (int option \<times> hooks) run" where
  "sleeps t e ms rs s =
     (if \<not> t_hook_enable s t then
        bindO (direct t rs s) (\<lambda>(out, s). Some (Inr (case out of Returned n \<Rightarrow> Some n | Suspended _ \<Rightarrow> None, s)))
      else Some (bindR (sleep_for t e ms s) (\<lambda>s. Inr (None, s))))"

definition hook_sleep :: "tid \<Rightarrow> hook_env \<Rightarrow> 32 word \<Rightarrow> (int \<times> int) list \<Rightarrow> hooks \<Rightarrow> (int option \<times> hooks) run" where
  "hook_sleep t e seconds rs s = sleeps t e (sleep_ms seconds) rs s"

definition hook_usleep :: "tid \<Rightarrow> hook_env \<Rightarrow> 32 word \<Rightarrow> (int \<times> int) list \<Rightarrow> hooks \<Rightarrow> (int option \<times> hooks) run" where
  "hook_usleep t e usec rs s = sleeps t e (usleep_ms usec) rs s"

definition hook_nanosleep :: "tid \<Rightarrow> hook_env \<Rightarrow> int \<Rightarrow> int \<Rightarrow> (int \<times> int) list \<Rightarrow> hooks \<Rightarrow> (int option \<times> hooks) run" where
  "hook_nanosleep t e tv_sec tv_nsec rs s = sleeps t e (nanosleep_ms tv_sec tv_nsec) rs s"

section \<open>The code: sockets\<close>

text \<open>\<open>r\<close>: what \<^verbatim>\<open>socket\<close> gives, with \<^verbatim>\<open>errno\<close>; \<open>k\<close>: the file the kernel makes.\<close>

definition hook_socket :: "tid \<Rightarrow> nat \<Rightarrow> int \<times> int \<Rightarrow> kfile \<Rightarrow> hooks \<Rightarrow> (int \<times> hooks) res" where
  "hook_socket t a r k s =
     (if \<not> orig_set s then Inl NullDeref
      else if fst r = -1 then Inr (-1, set_errno t (snd r) s)
      else
        (let s = s\<lparr>kfiles := (kfiles s)(fst r \<mapsto> k)\<rparr> in
         if \<not> t_hook_enable s t then Inr (fst r, s)
         else bindR (fdm_get a (fst r) True s) (\<lambda>(_, s). Inr (fst r, s))))"

text \<open>The end of \<open>connect_with_timeout\<close>: \<open>gs\<close> is what \<^verbatim>\<open>getsockopt\<close> gives, with \<^verbatim>\<open>errno\<close> and the error read.\<close>

definition connect_end :: "tid \<Rightarrow> nat \<Rightarrow> int \<times> int \<times> int \<Rightarrow> hooks \<Rightarrow> (io_out \<times> hooks) res" where
  "connect_end t ti gs s =
     (if \<not> orig_set s then Inl NullDeref
      else
        (let (rc, err, error) = gs in
         if rc = -1 then returns ti (-1) (set_errno t err s)
         else if error = 0 then returns ti 0 s
         else returns ti (-1) (set_errno t error s)))"

definition connect_with_timeout ::
  "tid \<Rightarrow> hook_env \<Rightarrow> int \<Rightarrow> 64 word \<Rightarrow> nat \<Rightarrow> (int \<times> int) list \<Rightarrow> int \<times> int \<times> int \<Rightarrow> hooks \<Rightarrow> (io_out \<times> hooks) run" where
  "connect_with_timeout t e fd timeout_ms ti rs gs s =
     (if \<not> t_hook_enable s t then direct t rs s
      else (case fdm_find fd s of
              Inl f \<Rightarrow> Some (Inl f)
            | Inr None \<Rightarrow> Some (Inr (Returned (-1), set_errno t EBADF s))
            | Inr (Some (_, ctx)) \<Rightarrow>
                if m_isClosed ctx then Some (Inr (Returned (-1), set_errno t EBADF s))
                else if \<not> m_isSocket ctx then direct t rs s
                else if m_userNonblock ctx then direct t rs s
                else
                  bindO (direct t rs s) (\<lambda>(out, s).
                  if \<not> (out = Returned (-1) \<and> h_errno s t = EINPROGRESS) then Some (Inr (out, s))
                  else
                    Some (bindR (arm t e fd IO_WRITE timeout_ms ti (s\<lparr>tinfos := (tinfos s)(ti \<mapsto> 0)\<rparr>)) (\<lambda>(rt, timer, s).
                    if rt = 0 then
                      bindR (yield_now t e s) (\<lambda>s. Inr (Suspended
                        \<lparr>io_fd = fd, io_event = IO_WRITE, io_to = timeout_ms, io_tinfo = ti, io_timer = timer\<rparr>, s))
                    else bindR (disarm timer s) (connect_end t ti gs))))))"

definition connect_resume :: "tid \<Rightarrow> io_call \<Rightarrow> int \<times> int \<times> int \<Rightarrow> hooks \<Rightarrow> (io_out \<times> hooks) res" where
  "connect_resume t c gs s =
     bindR (disarm (io_timer c) s) (\<lambda>s.
     case tinfos s (io_tinfo c) of
       None \<Rightarrow> Inl UseAfterFree
     | Some x \<Rightarrow> if x \<noteq> 0 then returns (io_tinfo c) (-1) (set_errno t x s) else connect_end t (io_tinfo c) gs s)"

definition hook_connect :: "int \<Rightarrow> hooks \<Rightarrow> (int \<times> hooks) res" where
  "hook_connect sockfd s = Inr (0, s)"

text \<open>The kernel closes: the file goes, and with it what \<^verbatim>\<open>epoll\<close> watches it for.\<close>

definition orig_close :: "tid \<Rightarrow> int \<Rightarrow> hooks \<Rightarrow> (int \<times> hooks) res" where
  "orig_close t fd s =
     (if \<not> orig_set s then Inl NullDeref
      else if \<not> is_open s fd then Inr (-1, set_errno t EBADF s)
      else Inr (0, s\<lparr>kfiles := (kfiles s)(fd := None),
        h_iom := (h_iom s)\<lparr>ep := (ep (h_iom s))\<lparr>ep_set := (ep_set (ep (h_iom s)))(fd := None)\<rparr>,
          ep_ptr := (ep_ptr (h_iom s))(fd := None)\<rparr>\<rparr>))"

definition hook_close :: "tid \<Rightarrow> int \<Rightarrow> hooks \<Rightarrow> (int \<times> hooks) res" where
  "hook_close t fd s =
     (if \<not> t_hook_enable s t then orig_close t fd s
      else
        bindR (fdm_find fd s) (\<lambda>found.
        bindR (case found of
            None \<Rightarrow> Inr s
          | Some _ \<Rightarrow>
              bindR (if iom_GetThis t (h_iom s)
                     then bindR (cancelAll (is_open s) fd (h_iom s)) (\<lambda>(_, m). Inr (s\<lparr>h_iom := m\<rparr>))
                     else Inr s) (fdm_del fd)) (orig_close t fd)))"

section \<open>The code: flags and options\<close>

text \<open>
  How \<^verbatim>\<open>fcntl\<close> passes its argument on, by command: as an \<open>int\<close>, as a pointer, or not at all.
\<close>

datatype fcntl_arg = NoArg | IntArg "32 word" | PtrArg "64 word"

definition F_GETFL :: int where "F_GETFL = 3"
definition F_SETFL :: int where "F_SETFL = 4"

text \<open>
  \<^verbatim>\<open>F_DUPFD\<close>, \<^verbatim>\<open>F_DUPFD_CLOEXEC\<close>, \<^verbatim>\<open>F_SETFD\<close>, \<^verbatim>\<open>F_SETOWN\<close>, \<^verbatim>\<open>F_SETSIG\<close>,
  \<^verbatim>\<open>F_SETLEASE\<close>, \<^verbatim>\<open>F_NOTIFY\<close>, \<^verbatim>\<open>F_SETPIPE_SZ\<close>; \<^verbatim>\<open>F_SETLK\<close>, \<^verbatim>\<open>F_SETLKW\<close>,
  \<^verbatim>\<open>F_GETLK\<close> and \<^verbatim>\<open>F_GETOWN_EX\<close>, \<^verbatim>\<open>F_SETOWN_EX\<close>; any other.
\<close>

definition fcntl_pass :: "int \<Rightarrow> 64 word \<Rightarrow> fcntl_arg" where
  "fcntl_pass cmd va =
     (if cmd \<in> {0, 1030, 2, 8, 10, 1024, 1026, 1031} then IntArg (ucast va)
      else if cmd \<in> {6, 7, 5, 16, 15} then PtrArg va
      else NoArg)"

text \<open>
  \<open>other\<close>: the C library's \<^verbatim>\<open>fcntl\<close> on the other commands, and what it does to the kernel's files.
\<close>

type_synonym other_fcntl = "int \<Rightarrow> int \<Rightarrow> fcntl_arg \<Rightarrow> (int \<Rightarrow> kfile option) \<Rightarrow> 32 word \<times> (int \<Rightarrow> kfile option)"

definition hook_fcntl :: "other_fcntl \<Rightarrow> int \<Rightarrow> int \<Rightarrow> 64 word \<Rightarrow> hooks \<Rightarrow> (32 word \<times> hooks) res" where
  "hook_fcntl other fd cmd va s =
     (if cmd = F_SETFL then
        (let arg = ucast va :: 32 word in
         bindR (fdm_find fd s) (\<lambda>found.
         case found of
           None \<Rightarrow> orig_setfl fd arg s
         | Some (p, c) \<Rightarrow>
             if m_isClosed c \<or> \<not> m_isSocket c then orig_setfl fd arg s
             else orig_setfl fd (if m_sysNonblock c then arg OR O_NONBLOCK else arg AND NOT O_NONBLOCK)
               (upd_ctx p (\<lambda>c. c\<lparr>m_userNonblock := nonblocking arg\<rparr>) s)))
      else if cmd = F_GETFL then
        bindR (orig_getfl fd s) (\<lambda>arg.
        bindR (fdm_find fd s) (\<lambda>found.
        case found of
          None \<Rightarrow> Inr (arg, s)
        | Some (p, c) \<Rightarrow>
            if m_isClosed c \<or> \<not> m_isSocket c then Inr (arg, s)
            else Inr (if m_userNonblock c then arg OR O_NONBLOCK else arg AND NOT O_NONBLOCK, s)))
      else
        bindR (orig s) (\<lambda>_.
        let (r, ks) = other fd cmd (fcntl_pass cmd va) (kfiles s) in Inr (r, s\<lparr>kfiles := ks\<rparr>)))"

definition FIONBIO :: "64 word" where "FIONBIO = 0x5421"

text \<open>The C library's \<^verbatim>\<open>ioctl\<close>; \<open>v\<close> is the \<open>int\<close> behind its argument, \<open>r\<close> what other requests give.\<close>

definition orig_ioctl :: "int \<Rightarrow> 64 word \<Rightarrow> 32 word \<Rightarrow> int \<Rightarrow> hooks \<Rightarrow> (int \<times> hooks) res" where
  "orig_ioctl d request v r s =
     bindR (orig s) (\<lambda>_.
     if request \<noteq> FIONBIO then Inr (r, s)
     else (case kfiles s d of
             None \<Rightarrow> Inr (-1, s)
           | Some k \<Rightarrow> Inr (0, s\<lparr>kfiles := (kfiles s)
               (d \<mapsto> k\<lparr>k_flags := (if v \<noteq> 0 then k_flags k OR O_NONBLOCK else k_flags k AND NOT O_NONBLOCK)\<rparr>)\<rparr>)))"

definition hook_ioctl :: "int \<Rightarrow> 64 word \<Rightarrow> 32 word \<Rightarrow> int \<Rightarrow> hooks \<Rightarrow> (int \<times> hooks) res" where
  "hook_ioctl d request v r s =
     (if request = FIONBIO then
        bindR (fdm_find d s) (\<lambda>found.
        case found of
          None \<Rightarrow> orig_ioctl d request v r s
        | Some (p, c) \<Rightarrow>
            if m_isClosed c \<or> \<not> m_isSocket c then orig_ioctl d request v r s
            else orig_ioctl d request v r (upd_ctx p (\<lambda>c. c\<lparr>m_userNonblock := (v \<noteq> 0)\<rparr>) s))
      else orig_ioctl d request v r s)"

definition hook_getsockopt :: "int \<Rightarrow> hooks \<Rightarrow> (int \<times> hooks) res" where
  "hook_getsockopt r s = bindR (orig s) (\<lambda>_. Inr (r, s))"

definition SOL_SOCKET :: int where "SOL_SOCKET = 1"

text \<open>\<open>tv_sec\<close>, \<open>tv_usec\<close>: the option's value read as a \<^verbatim>\<open>timeval\<close>; \<open>r\<close>: the C library's result.\<close>

definition timeval_ms :: "int \<Rightarrow> int \<Rightarrow> 64 word" where
  "timeval_ms tv_sec tv_usec = of_int (tv_sec * 1000 + tv_usec sdiv 1000)"

definition hook_setsockopt :: "tid \<Rightarrow> int \<Rightarrow> int \<Rightarrow> int \<Rightarrow> int \<Rightarrow> int \<Rightarrow> int \<Rightarrow> hooks \<Rightarrow> (int \<times> hooks) res" where
  "hook_setsockopt t sockfd level optname tv_sec tv_usec r s =
     (if \<not> t_hook_enable s t then bindR (orig s) (\<lambda>_. Inr (r, s))
      else
        bindR (if level = SOL_SOCKET \<and> (optname = SO_RCVTIMEO \<or> optname = SO_SNDTIMEO) then
                 bindR (fdm_find sockfd s) (\<lambda>found.
                 case found of
                   None \<Rightarrow> Inr s
                 | Some (p, c) \<Rightarrow> Inr (upd_ctx p (setTimeout optname (timeval_ms tv_sec tv_usec)) s))
               else Inr s) (\<lambda>s.
        bindR (orig s) (\<lambda>_. Inr (r, s))))"

section \<open>Waiting and waking\<close>

lemma is_open_simps [simp]:
  "is_open (s\<lparr>h_iom := m\<rparr>) = is_open s" "is_open (s\<lparr>h_funs := fs\<rparr>) = is_open s" "is_open (s\<lparr>tinfos := ts\<rparr>) = is_open s"
  "is_open (s\<lparr>h_errno := es\<rparr>) = is_open s" "is_open (set_errno t x s) = is_open s"
  by (simp_all add: is_open_def fun_eq_iff set_errno_def)

lemma set_errno_simps [simp]:
  "h_iom (set_errno t x s) = h_iom s" "tinfos (set_errno t x s) = tinfos s" "h_errno (set_errno t x s) t = x"
  "orig_set (set_errno t x s) = orig_set s" "t_hook_enable (set_errno t x s) = t_hook_enable s"
  "h_funs (set_errno t x s) = h_funs s" "kfiles (set_errno t x s) = kfiles s"
  by (simp_all add: set_errno_def)

text \<open>Thread \<open>t\<close>, one of the manager's, runs fiber \<open>g\<close>, and the fiber it came from can be switched back to.\<close>

definition in_fiber :: "tid \<Rightarrow> nat \<Rightarrow> stack \<Rightarrow> iomanager \<Rightarrow> bool" where
  "in_fiber t g home m \<longleftrightarrow> iom_GetThis t m \<and> t_fiber (loc m t) = Some g \<and> on_stack (loc m t) = FiberStack g \<and>
     (\<exists>y b z. fib m g = Some y \<and> m_state y = FRunning \<and> main_of t y m = Inr b \<and> b \<noteq> g \<and>
        fib m b = Some z \<and> m_ctx z = At home)"

text \<open>Fiber \<open>g\<close> is off every thread and can be resumed; thread \<open>t\<close> is back where it came from.\<close>

definition parked :: "tid \<Rightarrow> nat \<Rightarrow> stack \<Rightarrow> iomanager \<Rightarrow> bool" where
  "parked t g home m \<longleftrightarrow> (\<exists>y. fib m g = Some y \<and> m_state y = FReady \<and> own_context g y) \<and> on_stack (loc m t) = home"

definition timers_with :: "hook_env \<Rightarrow> 64 word \<Rightarrow> timer_cb \<Rightarrow> iomanager \<Rightarrow> timer_manager" where
  "timers_with e ms cb m = snd (addTimer (env_timer e) (env_now e) ms (Some cb) False (io_timers m))"

lemma iom_addTimer_eq:
  "\<exists>k. iom_addTimer (env_timer e) (env_now e) ms (Some cb) False m =
     Inr (env_timer e, m\<lparr>io_timers := timers_with e ms cb m, pipe_bytes := k\<rparr>)"
  by (auto simp: iom_addTimer_def timers_with_def addTimer_def onTimerInsertedAtFront_def iom_tickle_def Let_def
      intro: exI [of _ "pipe_bytes m"] exI [of _ "pipe_bytes m + 1"])

text \<open>What a fiber that waits has left behind: its timer, if there is a limit, and its event.\<close>

definition waits_in :: "hook_env \<Rightarrow> 64 word \<Rightarrow> nat \<Rightarrow> 32 word \<Rightarrow> nat \<Rightarrow> nat \<Rightarrow> nat \<Rightarrow> fd_context \<Rightarrow> nat \<Rightarrow> iomanager \<Rightarrow> iomanager" where
  "waits_in e to ti ev g i p c k m = event_added ev (fiber_context g) i p c
     (m\<lparr>io_timers := (if to = - 1 then io_timers m else timers_with e to (OnTimer ti (Some (env_fun e))) m), pipe_bytes := k\<rparr>)"

lemma arm_ok:
  assumes "io_inv (h_iom s)" and "i < length (m_fdContexts (h_iom s))" and "entry_ok (h_iom s) i p c"
    and "ev = IO_READ \<or> ev = IO_WRITE" and "\<not> has_event (fc_events c) ev"
    and "is_open s (int i)" and "int i \<noteq> epfd (ep (h_iom s))" and "int i \<noteq> fst (m_tickleFds (h_iom s))"
    and "in_fiber t g home (h_iom s)"
  shows "\<exists>k. arm t e (int i) ev to ti s = Inr (0, if to = - 1 then None else Some (env_timer e),
    s\<lparr>h_iom := waits_in e to ti ev g i p c k (h_iom s),
      h_funs := (if to = - 1 then h_funs s else (h_funs s)(env_fun e \<mapsto> TimedOut ti (int i) ev))\<rparr>)"
proof -
  let ?m = "h_iom s"
  define m' where "m' k = ?m\<lparr>io_timers := (if to = - 1 then io_timers ?m else timers_with e to (OnTimer ti (Some (env_fun e))) ?m),
    pipe_bytes := k\<rparr>" for k
  obtain y where y: "fib ?m g = Some y" "m_state y = FRunning" and t: "iom_GetThis t ?m" "t_fiber (loc ?m t) = Some g"
    using assms(9) by (auto simp: in_fiber_def)
  have same: "same_table ?m (m' k)" for k by (simp add: same_table_def m'_def)
  have add: "addEvent (is_open s) (env_ctx e) t (env_fiber e) (int i) ev None (m' k) =
      Inr (0, event_added ev (fiber_context g) i p c (m' k))" for k
  proof (rule addEvent_ok(3) [OF _ _ _ assms(4,5)])
    show "io_inv (m' k)" using assms(1) same_table_inv [OF same] by simp
    show "entry_ok (m' k) i p c" using assms(3) same_table_entry [OF same] by simp
  qed (use assms(2,6-8) t y in \<open>simp_all add: m'_def iom_GetThis_def scheduler_GetThis_def\<close>)
  show ?thesis
  proof (cases "to = - 1")
    case True
    have "m' (pipe_bytes ?m) = ?m" using True by (simp add: m'_def)
    with add [of "pipe_bytes ?m"] True t show ?thesis
      by (auto simp: arm_def waits_in_def m'_def intro!: exI [of _ "pipe_bytes ?m"])
  next
    case False
    obtain k where "iom_addTimer (env_timer e) (env_now e) to (Some (OnTimer ti (Some (env_fun e)))) False ?m = Inr (env_timer e, m' k)"
      using iom_addTimer_eq [of e to "OnTimer ti (Some (env_fun e))" ?m] False by (auto simp: m'_def)
    with add [of k] False t show ?thesis
      by (auto simp: arm_def waits_in_def m'_def intro!: exI [of _ k])
  qed
qed

lemma waits_in_loc: "loc (waits_in e to ti ev g i p c k m) = loc m" "fib (waits_in e to ti ev g i p c k m) = fib m"
  "m_tickleFds (waits_in e to ti ev g i p c k m) = m_tickleFds m" "epfd (ep (waits_in e to ti ev g i p c k m)) = epfd (ep m)"
  "m_fdContexts (waits_in e to ti ev g i p c k m) = m_fdContexts m" "m_tasks (waits_in e to ti ev g i p c k m) = m_tasks m"
  "s_locked (waits_in e to ti ev g i p c k m) = s_locked m"
  by (simp_all add: waits_in_def event_added_def)

text \<open>The yield of a fiber that has registered its wait.\<close>

definition away :: "tid \<Rightarrow> nat \<Rightarrow> stack \<Rightarrow> iomanager \<Rightarrow> iomanager" where
  "away t g home m = m\<lparr>fib := (fib m)(g := map_option (\<lambda>y. y\<lparr>m_state := FReady, m_ctx := At (FiberStack g)\<rparr>) (fib m g)),
     loc := (loc m)(t := (loc m t)\<lparr>t_fiber := t_thread_fiber (loc m t), on_stack := home\<rparr>)\<rparr>"

lemma yield_now_ok:
  assumes "in_fiber t g home (h_iom s)"
  shows "yield_now t e s = Inr (s\<lparr>h_iom := away t g home (h_iom s)\<rparr>)"
proof -
  let ?m = "h_iom s"
  obtain y b z where y: "fib ?m g = Some y" "m_state y = FRunning" "main_of t y ?m = Inr b" "b \<noteq> g" "fib ?m b = Some z" "m_ctx z = At home"
    and t: "t_fiber (loc ?m t) = Some g" "on_stack (loc ?m t) = FiberStack g"
    using assms by (auto simp: in_fiber_def)
  have "fiber_yield t g ?m = Inr (away t g home ?m)"
    using fiber_yield_ok [OF y(1) _ y(3-6)] y(1,2) t by (simp add: away_def)
  then show ?thesis by (simp add: yield_now_def fiber_GetThis_def t y)
qed

lemma away_parked: "in_fiber t g home m \<Longrightarrow> parked t g home (away t g home m)"
  by (auto simp: parked_def away_def in_fiber_def own_context_def)

lemma away_same: "same_table m (away t g home m)"
  by (simp add: same_table_def away_def)

lemma in_fiber_waits: "in_fiber t g home (waits_in e to ti ev g i p c k m) = in_fiber t g home m"
proof -
  have "main_of t y (waits_in e to ti ev g i p c k m) = main_of t y m" for y
    by (rule main_of_cong) (simp_all add: waits_in_loc)
  moreover have "iom_GetThis t (waits_in e to ti ev g i p c k m) = iom_GetThis t m"
    by (simp add: iom_GetThis_def scheduler_GetThis_def waits_in_def event_added_def)
  ultimately show ?thesis by (simp add: in_fiber_def waits_in_loc)
qed

text \<open>A socket the caller takes for blocking, in a thread that has the hooks on.\<close>

definition blocking_socket :: "tid \<Rightarrow> int \<Rightarrow> fd_ctx \<Rightarrow> hooks \<Rightarrow> bool" where
  "blocking_socket t fd ctx s \<longleftrightarrow> fd_wf s \<and> orig_set s \<and> t_hook_enable s t \<and> fdm_abs s fd = Some ctx \<and>
     m_isSocket ctx \<and> \<not> m_userNonblock ctx"

text \<open>Fiber \<open>g\<close> can wait for \<open>ev\<close> of descriptor \<open>i\<close>, whose context is \<open>c\<close>, at \<open>p\<close>.\<close>

definition can_wait :: "tid \<Rightarrow> nat \<Rightarrow> stack \<Rightarrow> nat \<Rightarrow> nat \<Rightarrow> fd_context \<Rightarrow> 32 word \<Rightarrow> hooks \<Rightarrow> bool" where
  "can_wait t g home i p c ev s \<longleftrightarrow> io_inv (h_iom s) \<and> i < length (m_fdContexts (h_iom s)) \<and> entry_ok (h_iom s) i p c \<and>
     \<not> has_event (fc_events c) ev \<and> is_open s (int i) \<and> int i \<noteq> epfd (ep (h_iom s)) \<and>
     int i \<noteq> fst (m_tickleFds (h_iom s)) \<and> in_fiber t g home (h_iom s) \<and> \<not> s_locked (h_iom s)"

lemma abs_range: "fdm_abs s fd = Some ctx \<Longrightarrow> 0 \<le> fd"
  by (auto simp: fdm_abs_def fdm_slot_def split: if_splits)

lemma do_io_hooked:
  assumes "blocking_socket t fd ctx s"
  shows "do_io t e fd ev so ti rs s = do_io_try t e
    \<lparr>io_fd = fd, io_event = ev, io_to = getTimeout so ctx, io_tinfo = ti, io_timer = None\<rparr> rs (s\<lparr>tinfos := (tinfos s)(ti \<mapsto> 0)\<rparr>)"
proof -
  have wf: "fd_wf s" and ctx: "fdm_abs s fd = Some ctx" using assms by (simp_all add: blocking_socket_def)
  have "-1 \<le> fd" using abs_range [OF ctx] by simp
  moreover have "fdm_slot s fd \<noteq> None" using ctx abs_None [OF wf] by (metis option.simps(3))
  ultimately obtain p where "fdm_find fd s = Inr (Some (p, ctx))" using fdm_find_eq [OF wf] ctx by auto
  moreover have "\<not> m_isClosed ctx"
  proof -
    obtain p where "fdm_slot s fd = Some p" using \<open>fdm_slot s fd \<noteq> None\<close> by blast
    with wf obtain c where "ctx_typed fd c" "fdm_abs s fd = Some c" by (rule fd_wfE)
    with ctx show ?thesis by (simp add: ctx_typed_def)
  qed
  ultimately show ?thesis using assms by (simp add: do_io_def blocking_socket_def)
qed

lemma io_kind_event: "io_kind f = (ev, so) \<Longrightarrow> ev = IO_READ \<or> ev = IO_WRITE"
  by (cases f) auto

text \<open>The state behind the yield.\<close>

definition suspended ::
  "tid \<Rightarrow> hook_env \<Rightarrow> nat \<Rightarrow> stack \<Rightarrow> nat \<Rightarrow> nat \<Rightarrow> fd_context \<Rightarrow> 32 word \<Rightarrow> 64 word \<Rightarrow> nat \<Rightarrow> nat \<Rightarrow> hooks \<Rightarrow> hooks" where
  "suspended t e g home i p c ev to ti k s = s\<lparr>h_iom := away t g home (waits_in e to ti ev g i p c k (h_iom s)),
     h_funs := (if to = - 1 then h_funs s else (h_funs s)(env_fun e \<mapsto> TimedOut ti (int i) ev))\<rparr>"

lemma do_io_try_suspends:
  assumes "can_wait t g home i p c ev s" and "ev = IO_READ \<or> ev = IO_WRITE" and "orig_set s"
    and "call_retry rs = Some (-1, EAGAIN)" and "io_fd call = int i" and "io_event call = ev"
  shows "\<exists>k. do_io_try t e call rs s = Some (Inr
    (Suspended (call\<lparr>io_timer := (if io_to call = - 1 then None else Some (env_timer e))\<rparr>),
     suspended t e g home i p c ev (io_to call) (io_tinfo call) k (set_errno t EAGAIN s)))"
proof -
  let ?s = "set_errno t EAGAIN s"
  have w: "io_inv (h_iom ?s)" "i < length (m_fdContexts (h_iom ?s))" "entry_ok (h_iom ?s) i p c" "\<not> has_event (fc_events c) ev"
    "is_open ?s (int i)" "int i \<noteq> epfd (ep (h_iom ?s))" "int i \<noteq> fst (m_tickleFds (h_iom ?s))" "in_fiber t g home (h_iom ?s)"
    using assms(1) by (simp_all add: can_wait_def)
  obtain k where arm: "arm t e (int i) ev (io_to call) (io_tinfo call) ?s =
      Inr (0, if io_to call = - 1 then None else Some (env_timer e),
        ?s\<lparr>h_iom := waits_in e (io_to call) (io_tinfo call) ev g i p c k (h_iom ?s),
          h_funs := (if io_to call = - 1 then h_funs ?s else (h_funs ?s)(env_fun e \<mapsto> TimedOut (io_tinfo call) (int i) ev))\<rparr>)"
    (is "_ = Inr (0, ?tm, ?s1)")
    using arm_ok [OF w(1-3) assms(2) w(4-8)] by blast
  have "in_fiber t g home (h_iom ?s1)" using w(8) by (simp add: in_fiber_waits)
  from yield_now_ok [OF this, of e] have "yield_now t e ?s1 = Inr (suspended t e g home i p c ev (io_to call) (io_tinfo call) k ?s)"
    by (simp add: suspended_def)
  then have "do_io_try t e call rs s = Some (Inr (Suspended (call\<lparr>io_timer := ?tm\<rparr>),
      suspended t e g home i p c ev (io_to call) (io_tinfo call) k ?s))"
    by (simp add: do_io_try_def assms(3-6) arm [simplified assms(5,6)] Let_def)
  then show ?thesis by blast
qed

lemma waits_in_inv:
  fixes e :: hook_env and to :: "64 word" and ti :: nat and k :: nat
  assumes "can_wait t g home i p c ev s" and "ev = IO_READ \<or> ev = IO_WRITE"
  defines "m \<equiv> away t g home (waits_in e to ti ev g i p c k (h_iom s))"
  shows "io_inv m" and "entry_ok m i p (with_event ev (fiber_context g) c)"
    and "i < length (m_fdContexts m)" and "int i \<noteq> epfd (ep m)" and "int i \<noteq> fst (m_tickleFds m)"
    and "\<not> s_locked m" and "m_tasks m = m_tasks (h_iom s)"
    and "io_timers m = (if to = - 1 then io_timers (h_iom s) else timers_with e to (OnTimer ti (Some (env_fun e))) (h_iom s))"
    and "parked t g home m"
proof -
  let ?m0 = "(h_iom s)\<lparr>io_timers := (if to = - 1 then io_timers (h_iom s) else timers_with e to (OnTimer ti (Some (env_fun e))) (h_iom s)),
    pipe_bytes := k\<rparr>"
  have w: "io_inv (h_iom s)" "i < length (m_fdContexts (h_iom s))" "entry_ok (h_iom s) i p c" "\<not> has_event (fc_events c) ev"
    "int i \<noteq> epfd (ep (h_iom s))" "int i \<noteq> fst (m_tickleFds (h_iom s))" "in_fiber t g home (h_iom s)" "\<not> s_locked (h_iom s)"
    using assms(1) by (simp_all add: can_wait_def)
  have same: "same_table (h_iom s) ?m0" by (simp add: same_table_def)
  have 0: "io_inv ?m0" "entry_ok ?m0 i p c" using w same_table_inv [OF same] same_table_entry [OF same] by simp_all
  have 1: "io_inv (waits_in e to ti ev g i p c k (h_iom s)) \<and>
      entry_ok (waits_in e to ti ev g i p c k (h_iom s)) i p (with_event ev (fiber_context g) c)"
    unfolding waits_in_def by (rule event_added_inv [OF 0(1) _ 0(2)]) (use w assms(2) in simp_all)
  note aw = away_same [of "waits_in e to ti ev g i p c k (h_iom s)" t g home]
  show "io_inv m" "entry_ok m i p (with_event ev (fiber_context g) c)"
    unfolding m_def using 1 same_table_inv [OF aw] same_table_entry [OF aw] by simp_all
  show "parked t g home m" unfolding m_def by (rule away_parked) (simp add: in_fiber_waits w)
  show "i < length (m_fdContexts m)" "int i \<noteq> epfd (ep m)" "int i \<noteq> fst (m_tickleFds m)" "\<not> s_locked m" "m_tasks m = m_tasks (h_iom s)"
    using w by (simp_all add: m_def away_def waits_in_loc)
  show "io_timers m = (if to = - 1 then io_timers (h_iom s) else timers_with e to (OnTimer ti (Some (env_fun e))) (h_iom s))"
    by (simp add: m_def away_def waits_in_def event_added_def)
qed

section \<open>The ends of a wait\<close>

definition wake_mask :: "32 word \<Rightarrow> 32 word" where
  "wake_mask ev = (if ev = IO_READ then EPOLLIN else EPOLLOUT)"

lemma wake_masks:
  "has_event EPOLLIN EPOLLIN" "\<not> has_event EPOLLIN EPOLLOUT" "\<not> has_event EPOLLIN (EPOLLERR OR EPOLLHUP)"
  "has_event EPOLLOUT EPOLLOUT" "\<not> has_event EPOLLOUT EPOLLIN" "\<not> has_event EPOLLOUT (EPOLLERR OR EPOLLHUP)"
  by (simp_all add: has_event_def EPOLLIN_def EPOLLOUT_def EPOLLERR_def EPOLLHUP_def)

lemma waiter_woken:
  assumes "io_inv m" and "i < length (m_fdContexts m)" and "entry_ok m i p (with_event ev (fiber_context g) c)"
    and "ev = IO_READ \<or> ev = IO_WRITE" and "int i \<noteq> fst (m_tickleFds m)" and "valid (int i)" and "int i \<noteq> epfd (ep m)"
    and "\<not> s_locked m"
  defines "m' \<equiv> events_end (ev = IO_READ) (ev = IO_WRITE) i p (with_event ev (fiber_context g) c) m"
  shows "idle_event valid (wake_mask ev, Some p) m = Inr m'" and "cancelEvent valid (int i) ev m = Inr (True, m')"
    and "m_tasks m' = m_tasks m @ [fiber_task (Some g) any_thread]" and "io_timers m' = io_timers m"
    and "io_inv m'" and "idle_event valid (wake_mask ev, Some p) m' = Inr m'"
proof -
  let ?c = "with_event ev (fiber_context g) c"
  have c: "ctx_ok ?c" using assms(3) by (simp add: entry_ok_def)
  have has: "has_event (fc_events ?c) ev"
    using assms(4) by (auto simp: with_event_def putContext_def has_event_or io_masks)
  from assms(4) consider (rd) "ev = IO_READ" | (wr) "ev = IO_WRITE" by blast
  note cases = this
  have slots: "ev = IO_READ \<Longrightarrow> fc_read ?c = fiber_context g \<and> reads ?c" "ev = IO_WRITE \<Longrightarrow> fc_write ?c = fiber_context g \<and> writes ?c"
    using has by (simp_all add: with_event_def putContext_def reads_def writes_def io_masks)
  have asks: "asks_read (wake_mask ev) ?c = (ev = IO_READ)" "asks_write (wake_mask ev) ?c = (ev = IO_WRITE)"
    using assms(4) by (auto simp: asks_read_def asks_write_def wake_mask_def wake_masks io_masks)
  show "idle_event valid (wake_mask ev, Some p) m = Inr m'"
    unfolding idle_event_ok [where valid = valid, OF assms(1-3,5-8) asks [symmetric]] m'_def
    using slots assms(4) by auto
  show "cancelEvent valid (int i) ev m = Inr (True, m')"
    using cancelEvent_ok [where valid = valid, OF assms(1-3,5-8)] slots
    by (cases rule: cases) (simp_all add: m'_def io_masks)
  show "m_tasks m' = m_tasks m @ [fiber_task (Some g) any_thread]"
    using slots
    by (cases rule: cases)
      (simp_all add: m'_def events_end_def after_triggers_def Let_def woken_def waiter_task_def io_masks fiber_context_def)
  have same: "io_timers m' = io_timers m" "m_fdContexts m' = m_fdContexts m" "m_tickleFds m' = m_tickleFds m"
    "epfd (ep m') = epfd (ep m)" "s_locked m' = s_locked m"
    by (simp_all add: m'_def events_end_def after_triggers_def Let_def)
  then show "io_timers m' = io_timers m" by simp
  let ?d = "without_write (ev = IO_WRITE) (without_read (ev = IO_READ) ?c)"
  have inv: "io_inv m'" "entry_ok m' i p ?d"
    using events_end_inv [OF assms(1-3,5), of "ev = IO_READ" "ev = IO_WRITE"] slots by (simp_all add: m'_def)
  then show "io_inv m'" by simp
  have wo: "ctx_ok (without_read (ev = IO_READ) ?c)" by (rule without_ok(1) [OF c])
  have left: "\<not> (ev = IO_READ \<and> reads ?d)" "\<not> (ev = IO_WRITE \<and> writes ?d)"
    using without_ok(3,4) [OF c, of "ev = IO_READ"] without_ok(5,6) [OF wo, of "ev = IO_WRITE"] by auto
  have asks': "asks_read (wake_mask ev) ?d = (ev = IO_READ)" "asks_write (wake_mask ev) ?d = (ev = IO_WRITE)"
    using assms(4) by (auto simp: asks_read_def asks_write_def wake_mask_def wake_masks io_masks)
  show "idle_event valid (wake_mask ev, Some p) m' = Inr m'"
    using idle_event_ok [where valid = valid, OF inv(1) _ inv(2) _ assms(6) _ _ asks' [symmetric]] left assms(2,5,7,8) same
    by auto
qed

text \<open>A callback whose \<^verbatim>\<open>timer_info\<close> is gone, or has been told already, does nothing.\<close>

lemma late_timeout:
  assumes "tinfos s ti = None \<or> (\<exists>x. tinfos s ti = Some x \<and> x \<noteq> 0)" and "h_funs s fn = Some (TimedOut ti fd ev)"
  shows "run_hook_cb (Some (OnTimer ti (Some fn))) s = Inr s"
  using assms by (auto simp: run_hook_cb_def run_cb_def run_hook_fun_def timed_out_def)

text \<open>A timer that has its callback, or is over.\<close>

definition timer_live :: "nat \<Rightarrow> timer_manager \<Rightarrow> bool" where
  "timer_live tm m \<longleftrightarrow> (\<exists>x. tm_heap m tm = Some x \<and> (m_cb x = None \<longrightarrow> tm \<notin> set (m_timers m)))"

lemma disarm_timer:
  assumes "timers_inv (io_timers (h_iom s))" and "timer_live tm (io_timers (h_iom s))"
  shows "\<exists>m. disarm (Some tm) s = Inr (s\<lparr>h_iom := (h_iom s)\<lparr>io_timers := m\<rparr>\<rparr>) \<and> dead tm m \<and> timers_inv m"
proof -
  obtain x where x: "tm_heap (io_timers (h_iom s)) tm = Some x" "m_cb x = None \<longrightarrow> tm \<notin> set (m_timers (io_timers (h_iom s)))"
    using assms(2) by (auto simp: timer_live_def)
  then have "\<exists>b m. timer_cancel tm (io_timers (h_iom s)) = Inr (b, m) \<and> dead tm m"
    using assms(1) by (cases "m_cb x") (auto simp: timer_cancel_def timers_inv_def dead_def)
  then obtain b m where m: "timer_cancel tm (io_timers (h_iom s)) = Inr (b, m)" "dead tm m" by blast
  with cancel_inv [OF assms(1) m(1)] show ?thesis by (auto simp: disarm_def)
qed

lemma timers_with_facts:
  assumes "timers_inv (io_timers m)" and "tm_heap (io_timers m) (env_timer e) = None"
  shows "timers_inv (timers_with e ms cb m)" and "timer_live (env_timer e) (timers_with e ms cb m)"
    and "env_timer e \<in> set (m_timers (timers_with e ms cb m))"
    and "tm_heap (timers_with e ms cb m) (env_timer e) = Some (new_timer (env_now e) ms (Some cb) False)"
  using addTimer_inv [OF assms]
  by (simp_all add: timers_with_def timer_live_def addTimer_def insertTimer_eq new_timer_def)

lemma do_io_resume_with:
  assumes "timers_inv (io_timers (h_iom s))" and "\<And>tm. io_timer c = Some tm \<Longrightarrow> timer_live tm (io_timers (h_iom s))"
    and "tinfos s (io_tinfo c) = Some x"
  shows "\<exists>m. do_io_resume u e c rs s =
      (if x \<noteq> 0 then Some (returns (io_tinfo c) (-1) (set_errno u x (s\<lparr>h_iom := (h_iom s)\<lparr>io_timers := m\<rparr>\<rparr>)))
       else do_io_try u e (c\<lparr>io_timer := None\<rparr>) rs (s\<lparr>h_iom := (h_iom s)\<lparr>io_timers := m\<rparr>\<rparr>)) \<and>
    timers_inv m \<and> (\<forall>tm. io_timer c = Some tm \<longrightarrow> dead tm m) \<and> (io_timer c = None \<longrightarrow> m = io_timers (h_iom s))"
proof (cases "io_timer c")
  case None
  have "s\<lparr>h_iom := (h_iom s)\<lparr>io_timers := io_timers (h_iom s)\<rparr>\<rparr> = s" by simp
  then show ?thesis using None assms(1,3) by (intro exI [of _ "io_timers (h_iom s)"]) (simp add: do_io_resume_def disarm_def)
next
  case (Some tm)
  then obtain m where "disarm (io_timer c) s = Inr (s\<lparr>h_iom := (h_iom s)\<lparr>io_timers := m\<rparr>\<rparr>)" "dead tm m" "timers_inv m"
    using disarm_timer [OF assms(1) assms(2)] by auto
  then show ?thesis using Some assms(3) by (intro exI [of _ m]) (simp add: do_io_resume_def)
qed

lemma suspended_simps [simp]:
  "h_iom (suspended t e g home i p c ev to ti k s) = away t g home (waits_in e to ti ev g i p c k (h_iom s))"
  "tinfos (suspended t e g home i p c ev to ti k s) = tinfos s" "orig_set (suspended t e g home i p c ev to ti k s) = orig_set s"
  "is_open (suspended t e g home i p c ev to ti k s) = is_open s"
  "h_funs (suspended t e g home i p c ev to ti k s) = (if to = - 1 then h_funs s else (h_funs s)(env_fun e \<mapsto> TimedOut ti (int i) ev))"
  by (simp_all add: suspended_def is_open_def fun_eq_iff)

lemma do_io_try_returns:
  assumes "orig_set s" and "call_retry rs = Some (n, err)" and "\<not> (n = -1 \<and> err = EAGAIN)"
  shows "do_io_try t e c rs s = Some (returns (io_tinfo c) n (if n = -1 then set_errno t err s else s))"
  using assms by (auto simp: do_io_try_def Let_def)

text \<open>The second part: an event has come, or the time was over.\<close>

lemma resume_returns:
  assumes inv: "timers_inv (io_timers (h_iom s))" and live: "tm \<in> set_option (io_timer c) \<Longrightarrow> timer_live tm (io_timers (h_iom s))"
    and timer: "io_timer c = (if armed then Some tm else None)"
    and unarmed: "\<not> armed \<Longrightarrow> tm \<notin> set (m_timers (io_timers (h_iom s)))"
    and told: "tinfos s (io_tinfo c) = Some 0" and "orig_set s" and "call_retry rs = Some (n, err)"
    and "\<not> (n = -1 \<and> err = EAGAIN)"
  shows "\<exists>s'. do_io_resume u e c rs s = Some (Inr (Returned n, s')) \<and> (n = -1 \<longrightarrow> h_errno s' u = err) \<and>
    tm \<notin> set (m_timers (io_timers (h_iom s'))) \<and> tinfos s' (io_tinfo c) = None \<and> h_funs s' = h_funs s"
proof -
  obtain m where m: "do_io_resume u e c rs s = do_io_try u e (c\<lparr>io_timer := None\<rparr>) rs (s\<lparr>h_iom := (h_iom s)\<lparr>io_timers := m\<rparr>\<rparr>)"
    "armed \<Longrightarrow> dead tm m" "\<not> armed \<Longrightarrow> m = io_timers (h_iom s)"
    using do_io_resume_with [where c = c, OF inv _ told, of u e rs] live timer by (cases armed) auto
  have "tm \<notin> set (m_timers m)" using m(2,3) unarmed by (cases armed) (auto simp: dead_def)
  then show ?thesis
    unfolding m(1) using do_io_try_returns [OF _ assms(7,8)] assms(6) by (auto simp: returns_def)
qed

lemma resume_timed_out:
  assumes "timers_inv (io_timers (h_iom s))" and "timer_live tm (io_timers (h_iom s))"
    and "io_timer c = Some tm" and "tinfos s (io_tinfo c) = Some ETIMEDOUT"
  shows "\<exists>s'. do_io_resume u e c rs s = Some (Inr (Returned (-1), s')) \<and> h_errno s' u = ETIMEDOUT \<and>
    tm \<notin> set (m_timers (io_timers (h_iom s'))) \<and> tinfos s' (io_tinfo c) = None"
proof -
  from do_io_resume_with [where c = c, OF assms(1) _ assms(4), of u e rs] assms(2,3)
  obtain m where "do_io_resume u e c rs s =
      Some (returns (io_tinfo c) (-1) (set_errno u ETIMEDOUT (s\<lparr>h_iom := (h_iom s)\<lparr>io_timers := m\<rparr>\<rparr>)))" "dead tm m"
    by (auto simp: ETIMEDOUT_def)
  then show ?thesis by (auto simp: returns_def dead_def)
qed

text \<open>The first part of a hooked call whose descriptor has nothing yet.\<close>

lemma hooked_io_suspends:
  assumes "blocking_socket t (int i) ctx s" and "can_wait t g home i p c ev s" and "io_kind f = (ev, so)"
    and "call_retry rs = Some (-1, EAGAIN)"
  shows "\<exists>k. hooked_io f t e (int i) ti rs s = Some (Inr
    (Suspended \<lparr>io_fd = int i, io_event = ev, io_to = getTimeout so ctx, io_tinfo = ti,
       io_timer = (if getTimeout so ctx = - 1 then None else Some (env_timer e))\<rparr>,
     suspended t e g home i p c ev (getTimeout so ctx) ti k (set_errno t EAGAIN (s\<lparr>tinfos := (tinfos s)(ti \<mapsto> 0)\<rparr>))))"
proof -
  let ?s = "s\<lparr>tinfos := (tinfos s)(ti \<mapsto> 0)\<rparr>"
  let ?call = "\<lparr>io_fd = int i, io_event = ev, io_to = getTimeout so ctx, io_tinfo = ti, io_timer = None\<rparr>"
  have "can_wait t g home i p c ev ?s" using assms(2) by (simp add: can_wait_def)
  from do_io_try_suspends [OF this io_kind_event [OF assms(3)] _ assms(4), of ?call e] assms(1)
  obtain k where "do_io_try t e ?call rs ?s = Some (Inr
    (Suspended (?call\<lparr>io_timer := if io_to ?call = - 1 then None else Some (env_timer e)\<rparr>),
     suspended t e g home i p c ev (io_to ?call) (io_tinfo ?call) k (set_errno t EAGAIN ?s)))"
    by (auto simp: blocking_socket_def)
  then have "do_io t e (int i) ev so ti rs s = Some (Inr
    (Suspended (?call\<lparr>io_timer := if io_to ?call = - 1 then None else Some (env_timer e)\<rparr>),
     suspended t e g home i p c ev (io_to ?call) (io_tinfo ?call) k (set_errno t EAGAIN ?s)))"
    unfolding do_io_hooked [OF assms(1)] .
  then show ?thesis using assms(3) by (auto simp: hooked_io_def)
qed

text \<open>A socket the table knows.\<close>

definition known_socket :: "int \<Rightarrow> fd_ctx \<Rightarrow> kfile \<Rightarrow> hooks \<Rightarrow> bool" where
  "known_socket fd ctx k s \<longleftrightarrow> fd_wf s \<and> orig_set s \<and> fdm_abs s fd = Some ctx \<and> m_isSocket ctx \<and> kfiles s fd = Some k"

section \<open>A descriptor to look at\<close>

text \<open>Thread 9 runs fiber 3, which has socket 7 with a timeout of half a second for reading.\<close>

definition example_iom3 :: iomanager where
  "example_iom3 = example_iom
    \<lparr>fib := [2 \<mapsto> \<lparr>m_id = 1, fib_cb = Some RUN_FN, m_runInScheduler = Some False, m_stacksize = 131072, m_state = FRunning,
         m_ctx = At (ThreadStack 9), m_stack = True\<rparr>,
       3 \<mapsto> \<lparr>m_id = 2, fib_cb = Some 70, m_runInScheduler = Some True, m_stacksize = 131072, m_state = FRunning,
         m_ctx = Entry, m_stack = True\<rparr>],
     loc := (\<lambda>t. \<lparr>t_fiber = Some 3, t_thread_fiber = Some 1, t_scheduler_fiber = Some 2, on_stack = FiberStack 3\<rparr>)\<rparr>"

definition example_file :: kfile where
  "example_file = \<lparr>k_socket = True, k_flags = 0x802\<rparr>"

definition example_ctx :: fd_ctx where
  "example_ctx = (new_ctx 7 (Some example_file))\<lparr>m_recvTimeout := 500\<rparr>"

definition example_hooks :: hooks where
  "example_hooks = \<lparr>kfiles = [7 \<mapsto> example_file], orig_set = True, fdctxs = [50 \<mapsto> example_ctx],
     m_datas = (replicate 64 None)[7 := Some 50], h_iom = example_iom3, t_hook_enable = (\<lambda>_. True), h_errno = (\<lambda>_. 0),
     tinfos = Map.empty, h_funs = Map.empty\<rparr>"

definition example_env :: hook_env where
  "example_env = \<lparr>env_now = 1000, env_timer = 1, env_fun = 90, env_fiber = 80, env_ctx = (\<lambda>i. i + 200)\<rparr>"

lemma example_same: "same_table example_iom example_iom3"
  by (simp add: same_table_def example_iom3_def)

lemma example_slot: "fdm_slot example_hooks fd = (if fd = 7 then Some 50 else None)"
proof -
  have "((replicate 64 None)[7 := Some 50] :: nat option list) ! j = (if j = 7 then Some 50 else None)" if "j < 64" for j
    using that by (simp add: nth_list_update)
  then show ?thesis by (auto simp: fdm_slot_def example_hooks_def nat_eq_iff)
qed

lemma example_abs: "fdm_abs example_hooks = [7 \<mapsto> example_ctx]"
  by (auto simp: fdm_abs_def example_slot fun_eq_iff) (auto simp: example_hooks_def)

lemma example_typed: "ctx_typed 7 example_ctx" "m_isSocket example_ctx" "\<not> m_userNonblock example_ctx"
  by (auto simp: ctx_typed_def example_ctx_def new_ctx_def example_file_def)

lemma example_wf: "fd_wf example_hooks"
  using example_typed(1) by (auto simp: fd_wf_def example_slot split: if_splits) (simp_all add: example_hooks_def)

lemma example_blocking: "blocking_socket t 7 example_ctx example_hooks"
  by (simp add: blocking_socket_def example_wf example_abs example_typed) (simp add: example_hooks_def)

lemma example_known: "known_socket 7 example_ctx example_file example_hooks"
  by (simp add: known_socket_def example_wf example_abs example_typed) (simp add: example_hooks_def)

lemma example_iom3_simps:
  "h_iom example_hooks = example_iom3" "io_timers example_iom3 = io_timers example_iom" "m_tasks example_iom3 = []"
  "\<not> s_locked example_iom3" "iom_GetThis 9 example_iom3" "m_tickleFds example_iom3 = (5, 6)" "epfd (ep example_iom3) = 4"
  "m_fdContexts example_iom3 = m_fdContexts example_iom"
  using example_iom_simps by (simp_all add: example_iom3_def example_hooks_def iom_GetThis_def scheduler_GetThis_def)

lemma example_in_fiber: "in_fiber 9 3 (ThreadStack 9) example_iom3"
  using example_iom3_simps(5) by (simp add: in_fiber_def) (simp add: example_iom3_def main_of_def)

lemma example_can_wait: "can_wait 9 3 (ThreadStack 9) 7 107 (new_fd_context 7) IO_READ example_hooks"
  using same_table_inv [OF example_same] same_table_entry [OF example_same] example_iom_inv example_entry [of 7]
  by (simp add: can_wait_def example_iom3_simps example_iom_simps new_events example_in_fiber)
    (simp add: is_open_def example_hooks_def)

lemma example_iom3_timers: "timers_inv (io_timers example_iom)" "tm_heap (io_timers example_iom) t = None"
proof -
  have "io_timers example_iom = timerManagerInit 1000"
    by (simp add: example_iom_def example_iom_unfold split: prod.split)
  then show "timers_inv (io_timers example_iom)" "tm_heap (io_timers example_iom) t = None"
    by (simp_all add: timers_inv_init) (simp add: timerManagerInit_def)
qed

section \<open>Properties\<close>

text \<open>
  C3. A hooked call on a descriptor that has nothing yet puts its fiber aside, registered for
  the event, with a timer when the socket has a timeout; the thread goes back to its scheduler. The
  event puts the fiber, once, in the queue; whichever thread resumes it makes the call again and
  returns its result, with the timer gone; a callback of it that is still on its way does nothing.
\<close>

theorem hooked_io_completes:
  assumes "blocking_socket t (int i) ctx s" and "can_wait t g home i p c ev s" and "io_kind f = (ev, so)"
    and "call_retry rs = Some (-1, EAGAIN)" and "to = getTimeout so ctx"
    and "timers_inv (io_timers (h_iom s))" and "tm_heap (io_timers (h_iom s)) (env_timer e) = None"
    and "call_retry rs' = Some (n, err)" and "\<not> (n = -1 \<and> err = EAGAIN)"
  shows "\<exists>call s1 m. hooked_io f t e (int i) ti rs s = Some (Inr (Suspended call, s1)) \<and>
    parked t g home (h_iom s1) \<and> io_inv (h_iom s1) \<and> m_tasks (h_iom s1) = m_tasks (h_iom s) \<and>
    (env_timer e \<in> set (m_timers (io_timers (h_iom s1))) \<longleftrightarrow> to \<noteq> - 1) \<and>
    idle_event (is_open s1) (wake_mask ev, Some p) (h_iom s1) = Inr m \<and>
    m_tasks m = m_tasks (h_iom s) @ [fiber_task (Some g) any_thread] \<and>
    (\<forall>u s2. io_timers (h_iom s2) = io_timers m \<longrightarrow> tinfos s2 = tinfos s1 \<longrightarrow> h_funs s2 = h_funs s1 \<longrightarrow> orig_set s2 \<longrightarrow>
      (\<exists>s3. do_io_resume u e' call rs' s2 = Some (Inr (Returned n, s3)) \<and> (n = -1 \<longrightarrow> h_errno s3 u = err) \<and>
        env_timer e \<notin> set (m_timers (io_timers (h_iom s3))) \<and> tinfos s3 ti = None \<and>
        (to \<noteq> - 1 \<longrightarrow> run_hook_cb (Some (OnTimer ti (Some (env_fun e)))) s3 = Inr s3)))"
proof -
  let ?s = "set_errno t EAGAIN (s\<lparr>tinfos := (tinfos s)(ti \<mapsto> 0)\<rparr>)"
  let ?call = "\<lparr>io_fd = int i, io_event = ev, io_to = to, io_tinfo = ti, io_timer = (if to = - 1 then None else Some (env_timer e))\<rparr>"
  obtain k where run: "hooked_io f t e (int i) ti rs s = Some (Inr (Suspended ?call, suspended t e g home i p c ev to ti k ?s))"
    using hooked_io_suspends [OF assms(1-4), of e ti] assms(5) by auto
  let ?s1 = "suspended t e g home i p c ev to ti k ?s"
  have cw: "can_wait t g home i p c ev ?s" using assms(2) by (simp add: can_wait_def)
  note ev = io_kind_event [OF assms(3)]
  note w = waits_in_inv [OF cw ev, where e = e and to = to and ti = ti and k = k]
  have valid: "is_open ?s1 (int i)" using assms(2) by (simp add: can_wait_def)
  note woken = waiter_woken [where valid = "is_open ?s1", OF w(1,3,2) ev w(5) valid w(4,6)]
  define m where "m = events_end (ev = IO_READ) (ev = IO_WRITE) i p (with_event ev (fiber_context g) c) (h_iom ?s1)"
  note fresh = timers_with_facts [OF assms(6,7), where ms = to and cb = "OnTimer ti (Some (env_fun e))"]
  have notin: "env_timer e \<notin> set (m_timers (io_timers (h_iom s)))" using assms(6,7) by (auto simp: timers_inv_def)
  have tm: "timers_inv (io_timers m)" "to \<noteq> - 1 \<Longrightarrow> timer_live (env_timer e) (io_timers m)"
    "to = - 1 \<Longrightarrow> io_timers m = io_timers (h_iom s)"
    using woken(4) w(8) fresh(1,2) assms(6) by (simp_all add: m_def)
  have resume: "\<exists>s3. do_io_resume u e' ?call rs' s2 = Some (Inr (Returned n, s3)) \<and> (n = -1 \<longrightarrow> h_errno s3 u = err) \<and>
      env_timer e \<notin> set (m_timers (io_timers (h_iom s3))) \<and> tinfos s3 ti = None \<and>
      (to \<noteq> - 1 \<longrightarrow> run_hook_cb (Some (OnTimer ti (Some (env_fun e)))) s3 = Inr s3)"
    if s2: "io_timers (h_iom s2) = io_timers m" "tinfos s2 = tinfos ?s1" "h_funs s2 = h_funs ?s1" "orig_set s2" for u s2
  proof -
    have "\<exists>s3. do_io_resume u e' ?call rs' s2 = Some (Inr (Returned n, s3)) \<and> (n = -1 \<longrightarrow> h_errno s3 u = err) \<and>
        env_timer e \<notin> set (m_timers (io_timers (h_iom s3))) \<and> tinfos s3 (io_tinfo ?call) = None \<and> h_funs s3 = h_funs s2"
      using s2 tm notin assms(8,9) by (intro resume_returns [where armed = "to \<noteq> - 1"]) (simp_all split: if_splits)
    then show ?thesis using s2(3) by (auto intro!: late_timeout)
  qed
  show ?thesis
    by (intro exI [of _ ?call] exI [of _ ?s1] exI [of _ m])
      (use run w woken resume notin fresh(3) in \<open>simp add: m_def\<close>)
qed

theorem hooked_io_completes_witness:
  "\<exists>call s1 m s3. hooked_io Read 9 example_env 7 60 [(-1, EINTR), (-1, EAGAIN)] example_hooks = Some (Inr (Suspended call, s1)) \<and>
     idle_event (is_open s1) (EPOLLIN, Some 107) (h_iom s1) = Inr m \<and> m_tasks m = [fiber_task (Some 3) any_thread] \<and>
     do_io_resume 10 example_env call [(5, 0)] (s1\<lparr>h_iom := m\<rparr>) = Some (Inr (Returned 5, s3)) \<and> tinfos s3 60 = None"
proof -
  have rs: "call_retry [(-1, EINTR), (-1, EAGAIN)] = Some (-1, EAGAIN)" and rs': "call_retry [(5, 0)] = Some (5, 0)"
    by (simp_all add: EINTR_def EAGAIN_def)
  have b: "blocking_socket 9 (int 7) example_ctx example_hooks" using example_blocking by simp
  have k: "io_kind Read = (IO_READ, SO_RCVTIMEO)" by simp
  have tm: "timers_inv (io_timers (h_iom example_hooks))" "tm_heap (io_timers (h_iom example_hooks)) (env_timer example_env) = None"
    using example_iom3_timers by (simp_all add: example_iom3_simps)
  have not: "\<not> ((5::int) = -1 \<and> (0::int) = EAGAIN)" by simp
  from hooked_io_completes [where ti = 60 and e = example_env and e' = example_env,
      OF b example_can_wait k rs refl tm rs' not]
  obtain call s1 m where w: "hooked_io Read 9 example_env (int 7) 60 [(-1, EINTR), (-1, EAGAIN)] example_hooks = Some (Inr (Suspended call, s1))"
    "idle_event (is_open s1) (wake_mask IO_READ, Some 107) (h_iom s1) = Inr m"
    "m_tasks m = m_tasks (h_iom example_hooks) @ [fiber_task (Some 3) any_thread]"
    and go: "\<And>u s2. io_timers (h_iom s2) = io_timers m \<Longrightarrow> tinfos s2 = tinfos s1 \<Longrightarrow> h_funs s2 = h_funs s1 \<Longrightarrow> orig_set s2 \<Longrightarrow>
      \<exists>s3. do_io_resume u example_env call [(5, 0)] s2 = Some (Inr (Returned 5, s3)) \<and> tinfos s3 60 = None"
    by blast
  have "orig_set s1"
    using w(1) hooked_io_suspends [OF b example_can_wait k rs, of example_env 60] b by (auto simp: blocking_socket_def)
  then obtain s3 where "do_io_resume 10 example_env call [(5, 0)] (s1\<lparr>h_iom := m\<rparr>) = Some (Inr (Returned 5, s3))" "tinfos s3 60 = None"
    using go [of "s1\<lparr>h_iom := m\<rparr>" 10] by auto
  with w show ?thesis by (auto simp: example_iom3_simps wake_mask_def)
qed

lemma timer_collected:
  fixes now :: "64 word"
  assumes "timers_inv m" and "tm_heap m tmp = None" and "tm \<in> set (m_timers m)"
    and "tm_heap m tm = Some x" and "\<not> m_recurring x" and "m_next x \<le> now"
  shows "\<exists>cbs m'. listExpiredCb tmp now m = Inr (cbs, m') \<and> m_cb x \<in> set cbs \<and> timers_inv m' \<and>
    timer_live tm m' \<and> tm \<notin> set (m_timers m')"
proof -
  let ?d = "\<lambda>t. due (fst (detectClockRollover now m)) now (the (tm_heap m t))"
  have d: "?d tm" using assms(4,6) by (simp add: due_def)
  obtain m' where m': "listExpiredCb tmp now m = Inr (map (\<lambda>t. m_cb (the (tm_heap m t))) (filter ?d (m_timers m)), m')"
    "timers_inv m'" "set (m_timers m') = {t \<in> set (m_timers m). ?d t \<longrightarrow> m_recurring (the (tm_heap m t))}"
    "\<forall>t. tm_heap m' t = (if t \<in> set (m_timers m) \<and> ?d t then map_option (expired_timer now) (tm_heap m t) else tm_heap m t)"
    using listExpiredCb_outcome [OF assms(1,2), of now] by blast
  have "tm \<notin> set (m_timers m')" using m'(3) d assms(4,5) by simp
  moreover have "tm_heap m' tm = Some (expired_timer now x)" using m'(4) d assms(3,4) by simp
  moreover have "m_cb x \<in> set (map (\<lambda>t. m_cb (the (tm_heap m t))) (filter ?d (m_timers m)))"
    using d assms(3,4) by force
  ultimately show ?thesis using m'(1,2) by (auto simp: timer_live_def)
qed

lemma timeout_collected:
  fixes now' :: "64 word"
  assumes "timers_inv (io_timers m)" and "tm_heap (io_timers m) (env_timer e) = None"
    and "tm_heap (io_timers m) tmp = None" and "tmp \<noteq> env_timer e" and "env_now e + ms \<le> now'"
  obtains cbs m' where "listExpiredCb tmp now' (timers_with e ms cb m) = Inr (cbs, m')" "Some cb \<in> set cbs"
    "timers_inv m'" "timer_live (env_timer e) m'" "env_timer e \<notin> set (m_timers m')"
proof -
  note tw = timers_with_facts [OF assms(1,2), where ms = ms and cb = cb]
  have "tm_heap (timers_with e ms cb m) tmp = None"
    using assms(3,4) by (simp add: timers_with_def addTimer_def insertTimer_eq)
  with timer_collected [OF tw(1) _ tw(3,4), of tmp now'] assms(5) that show ?thesis by (auto simp: new_timer_def)
qed

text \<open>
  C7. When the time of the socket is over first, the idle thread collects the timer's callback;
  that takes the fiber off the descriptor and puts it in the queue; an event that is reported then
  finds nobody. Resumed, the call returns \<open>-1\<close> with \<^verbatim>\<open>ETIMEDOUT\<close> and makes no further call.
\<close>

theorem hooked_io_times_out:
  fixes now' :: "64 word"
  assumes "blocking_socket t (int i) ctx s" and "can_wait t g home i p c ev s" and "io_kind f = (ev, so)"
    and "call_retry rs = Some (-1, EAGAIN)" and "to = getTimeout so ctx" and "to \<noteq> - 1"
    and "timers_inv (io_timers (h_iom s))" and "tm_heap (io_timers (h_iom s)) (env_timer e) = None"
    and "tm_heap (io_timers (h_iom s)) tmp = None" and "tmp \<noteq> env_timer e" and "env_now e + to \<le> now'"
  shows "\<exists>call s1 cb cbs m s2 s3. hooked_io f t e (int i) ti rs s = Some (Inr (Suspended call, s1)) \<and>
    listExpiredCb tmp now' (io_timers (h_iom s1)) = Inr (cbs, m) \<and> Some cb \<in> set cbs \<and>
    run_hook_cb (Some cb) (s1\<lparr>h_iom := (h_iom s1)\<lparr>io_timers := m\<rparr>\<rparr>) = Inr s2 \<and> io_inv (h_iom s2) \<and>
    m_tasks (h_iom s2) = m_tasks (h_iom s) @ [fiber_task (Some g) any_thread] \<and>
    idle_event (is_open s2) (wake_mask ev, Some p) (h_iom s2) = Inr (h_iom s2) \<and>
    do_io_resume u e' call rs' s2 = Some (Inr (Returned (-1), s3)) \<and> h_errno s3 u = ETIMEDOUT \<and>
    env_timer e \<notin> set (m_timers (io_timers (h_iom s3))) \<and> tinfos s3 ti = None"
proof -
  let ?s = "set_errno t EAGAIN (s\<lparr>tinfos := (tinfos s)(ti \<mapsto> 0)\<rparr>)"
  let ?call = "\<lparr>io_fd = int i, io_event = ev, io_to = to, io_tinfo = ti, io_timer = Some (env_timer e)\<rparr>"
  obtain k where run: "hooked_io f t e (int i) ti rs s = Some (Inr (Suspended ?call, suspended t e g home i p c ev to ti k ?s))"
    using hooked_io_suspends [OF assms(1-4), of e ti] assms(5,6) by auto
  let ?s1 = "suspended t e g home i p c ev to ti k ?s"
  let ?cb = "OnTimer ti (Some (env_fun e))"
  have cw: "can_wait t g home i p c ev ?s" using assms(2) by (simp add: can_wait_def)
  note ev = io_kind_event [OF assms(3)]
  note w = waits_in_inv [OF cw ev, where e = e and to = to and ti = ti and k = k]
  have "io_timers (h_iom ?s1) = timers_with e to ?cb (h_iom s)"
    using w(8) assms(6) by (simp add: timers_with_def)
  then obtain cbs m where m: "listExpiredCb tmp now' (io_timers (h_iom ?s1)) = Inr (cbs, m)" "Some ?cb \<in> set cbs"
    "timers_inv m" "timer_live (env_timer e) m" "env_timer e \<notin> set (m_timers m)"
    using timeout_collected [OF assms(7-11), of ?cb] by auto
  define M where "M = (h_iom ?s1)\<lparr>io_timers := m\<rparr>"
  define M2 where "M2 = events_end (ev = IO_READ) (ev = IO_WRITE) i p (with_event ev (fiber_context g) c) M"
  define s2 where "s2 = ?s1\<lparr>h_iom := M2, tinfos := (tinfos ?s)(ti \<mapsto> ETIMEDOUT)\<rparr>"
  have same: "same_table (h_iom ?s1) M" by (simp add: same_table_def M_def)
  have M: "io_inv M" "i < length (m_fdContexts M)" "entry_ok M i p (with_event ev (fiber_context g) c)"
    "int i \<noteq> epfd (ep M)" "int i \<noteq> fst (m_tickleFds M)" "\<not> s_locked M" "m_tasks M = m_tasks (h_iom s)"
    using w(1-7) same_table_inv [OF same] same_table_entry [OF same] by (simp_all add: M_def)
  have valid: "is_open s (int i)" using assms(2) by (simp add: can_wait_def)
  note woken = waiter_woken [where valid = "is_open s", OF M(1-3) ev M(5) valid M(4,6), folded M2_def]
  have cb: "run_hook_cb (Some ?cb) (?s1\<lparr>h_iom := M\<rparr>) = Inr s2"
    using woken(2) assms(6) by (simp add: run_hook_cb_def run_cb_def run_hook_fun_def timed_out_def s2_def)
  have ended: "idle_event (is_open s2) (wake_mask ev, Some p) (h_iom s2) = Inr (h_iom s2)" "io_inv (h_iom s2)"
    using woken(5,6) by (simp_all add: s2_def is_open_def)
  have tasks: "m_tasks (h_iom s2) = m_tasks (h_iom s) @ [fiber_task (Some g) any_thread]"
    using woken(3) M(7) by (simp add: s2_def)
  have tm2: "io_timers (h_iom s2) = m" using woken(4) by (simp add: s2_def M_def)
  have "\<exists>s3. do_io_resume u e' ?call rs' s2 = Some (Inr (Returned (-1), s3)) \<and> h_errno s3 u = ETIMEDOUT \<and>
      env_timer e \<notin> set (m_timers (io_timers (h_iom s3))) \<and> tinfos s3 (io_tinfo ?call) = None"
    by (rule resume_timed_out) (use m(3,4) tm2 in \<open>simp_all add: s2_def\<close>)
  then have "\<exists>s3. do_io_resume u e' ?call rs' s2 = Some (Inr (Returned (-1), s3)) \<and> h_errno s3 u = ETIMEDOUT \<and>
      env_timer e \<notin> set (m_timers (io_timers (h_iom s3))) \<and> tinfos s3 ti = None" by simp
  with run m(1,2) cb ended tasks show ?thesis unfolding M_def by blast
qed

theorem hooked_io_times_out_witness:
  "\<exists>call s1 cb m s2 s3. hooked_io Read 9 example_env 7 60 [(-1, EAGAIN)] example_hooks = Some (Inr (Suspended call, s1)) \<and>
     run_hook_cb (Some cb) (s1\<lparr>h_iom := (h_iom s1)\<lparr>io_timers := m\<rparr>\<rparr>) = Inr s2 \<and>
     m_tasks (h_iom s2) = [fiber_task (Some 3) any_thread] \<and>
     do_io_resume 10 example_env call [] s2 = Some (Inr (Returned (-1), s3)) \<and> h_errno s3 10 = ETIMEDOUT"
proof -
  have rs: "call_retry [(-1, EAGAIN)] = Some (-1, EAGAIN)" by (simp add: EINTR_def EAGAIN_def)
  have to: "getTimeout SO_RCVTIMEO example_ctx = 500" by (simp add: getTimeout_def example_ctx_def)
  show ?thesis
    using hooked_io_times_out [of 9 7 example_ctx example_hooks 3 "ThreadStack 9" 107 "new_fd_context 7" IO_READ Read SO_RCVTIMEO,
        OF _ example_can_wait _ rs refl, of example_env 99 1500 60 10 example_env "[]"]
      example_blocking example_iom3_timers
    by (fastforce simp: example_iom3_simps to example_env_def)
qed

section \<open>Flags\<close>

lemma abs_slot:
  assumes "fd_wf s" and "fdm_abs s fd = Some ctx"
  obtains p where "fdm_slot s fd = Some p" and "fdctxs s p = Some ctx" and "ctx_typed fd ctx"
    and "fdm_find fd s = Inr (Some (p, ctx))"
proof -
  obtain p where p: "fdm_slot s fd = Some p" "fdctxs s p = Some ctx"
    using assms(2) by (auto simp: fdm_abs_def bind_eq_Some_conv)
  moreover have "ctx_typed fd ctx" using fd_wfE [OF assms(1) p(1)] p(2) by (metis option.inject)
  moreover have "-1 \<le> fd" using abs_range [OF assms(2)] by simp
  with fdm_find_eq [OF assms(1) this] p(1) assms(2) have "fdm_find fd s = Inr (Some (p, ctx))" by simp
  ultimately show thesis by (rule that)
qed

lemma upd_ctx_simps [simp]:
  "kfiles (upd_ctx p f s) = kfiles s" "orig_set (upd_ctx p f s) = orig_set s" "m_datas (upd_ctx p f s) = m_datas s"
  by (simp_all add: upd_ctx_def)

text \<open>A change of the kernel's files leaves the table alone.\<close>

lemma kfiles_table [simp]:
  "fdm_slot (s\<lparr>kfiles := ks\<rparr>) = fdm_slot s" "fdm_abs (s\<lparr>kfiles := ks\<rparr>) = fdm_abs s" "fd_wf (s\<lparr>kfiles := ks\<rparr>) = fd_wf s"
proof -
  show slot: "fdm_slot (s\<lparr>kfiles := ks\<rparr>) = fdm_slot s" by (simp add: fdm_slot_def fun_eq_iff)
  show "fdm_abs (s\<lparr>kfiles := ks\<rparr>) = fdm_abs s" by (simp add: fdm_abs_def slot fun_eq_iff)
  show "fd_wf (s\<lparr>kfiles := ks\<rparr>) = fd_wf s" by (simp add: fd_wf_def slot)
qed

lemma set_user_nonblock:
  assumes "fd_wf s" and "fdm_slot s fd = Some p" and "fdm_abs s fd = Some ctx"
  shows "fd_wf (upd_ctx p (\<lambda>c. c\<lparr>m_userNonblock := b\<rparr>) s)"
    and "fdm_abs (upd_ctx p (\<lambda>c. c\<lparr>m_userNonblock := b\<rparr>) s) = (fdm_abs s)(fd \<mapsto> ctx\<lparr>m_userNonblock := b\<rparr>)"
  using upd_ctx_abs [OF assms(1,2), of "\<lambda>c. c\<lparr>m_userNonblock := b\<rparr>"] assms(3) by (simp_all add: ctx_typed_def)

lemma hook_setfl:
  fixes va :: "64 word"
  assumes "known_socket fd ctx k s"
  defines "v \<equiv> (k_flags k AND NOT SETFL_MASK) OR ((ucast va OR O_NONBLOCK) AND SETFL_MASK)"
  shows "\<exists>s'. hook_fcntl other fd F_SETFL va s = Inr (0, s') \<and>
    known_socket fd (ctx\<lparr>m_userNonblock := nonblocking (ucast va)\<rparr>) (k\<lparr>k_flags := v\<rparr>) s' \<and>
    fdm_abs s' = (fdm_abs s)(fd \<mapsto> ctx\<lparr>m_userNonblock := nonblocking (ucast va)\<rparr>) \<and>
    kfiles s' = (kfiles s)(fd \<mapsto> k\<lparr>k_flags := v\<rparr>)"
proof -
  have s: "fd_wf s" "orig_set s" "fdm_abs s fd = Some ctx" "m_isSocket ctx" "kfiles s fd = Some k"
    using assms(1) by (simp_all add: known_socket_def)
  obtain p where p: "fdm_slot s fd = Some p" "ctx_typed fd ctx" "fdm_find fd s = Inr (Some (p, ctx))"
    using s(1,3) by (rule abs_slot)
  note upd = set_user_nonblock [OF s(1) p(1) s(3), of "nonblocking (ucast va)"]
  have "m_sysNonblock ctx" "\<not> m_isClosed ctx" using p(2) s(4) by (simp_all add: ctx_typed_def)
  then have "hook_fcntl other fd F_SETFL va s = Inr (0, (upd_ctx p (\<lambda>c. c\<lparr>m_userNonblock := nonblocking (ucast va)\<rparr>) s)
      \<lparr>kfiles := (kfiles s)(fd \<mapsto> k\<lparr>k_flags := v\<rparr>)\<rparr>)"
    using p(3) s(2,4,5) by (simp add: hook_fcntl_def orig_setfl_def orig_def v_def Let_def)
  then show ?thesis using upd s by (auto simp: known_socket_def)
qed

lemma hook_getfl:
  assumes "known_socket fd ctx k s"
  shows "hook_fcntl other fd F_GETFL va s =
    Inr (if m_userNonblock ctx then k_flags k OR O_NONBLOCK else k_flags k AND NOT O_NONBLOCK, s)"
proof -
  have s: "fd_wf s" "orig_set s" "fdm_abs s fd = Some ctx" "m_isSocket ctx" "kfiles s fd = Some k"
    using assms by (simp_all add: known_socket_def)
  obtain p where p: "ctx_typed fd ctx" "fdm_find fd s = Inr (Some (p, ctx))" using s(1,3) by (rule abs_slot)
  then have "\<not> m_isClosed ctx" by (simp add: ctx_typed_def)
  with p(2) s(2,4,5) show ?thesis
    by (simp add: hook_fcntl_def orig_getfl_def orig_def F_GETFL_def F_SETFL_def)
qed

text \<open>
  The caller reads back the flags it has set on a socket, those that cannot be set staying
  as they were; the kernel has the socket non-blocking all the while, and the hooks know which of
  the two the caller asked for.
\<close>

theorem hooked_fcntl_roundtrip:
  assumes "known_socket fd ctx k s" and "arg = ucast va"
  shows "\<exists>s' v k'. hook_fcntl other fd F_SETFL va s = Inr (0, s') \<and> hook_fcntl other fd F_GETFL va' s' = Inr (v, s') \<and>
    v AND SETFL_MASK = arg AND SETFL_MASK \<and> v AND NOT SETFL_MASK = k_flags k AND NOT SETFL_MASK \<and>
    kfiles s' fd = Some k' \<and> nonblocking (k_flags k') \<and>
    fdm_abs s' = (fdm_abs s)(fd \<mapsto> ctx\<lparr>m_userNonblock := nonblocking arg\<rparr>)"
proof -
  let ?k = "k\<lparr>k_flags := (k_flags k AND NOT SETFL_MASK) OR ((arg OR O_NONBLOCK) AND SETFL_MASK)\<rparr>"
  let ?ctx = "ctx\<lparr>m_userNonblock := nonblocking arg\<rparr>"
  obtain s' where s': "hook_fcntl other fd F_SETFL va s = Inr (0, s')" "known_socket fd ?ctx ?k s'"
    "fdm_abs s' = (fdm_abs s)(fd \<mapsto> ?ctx)" "kfiles s' = (kfiles s)(fd \<mapsto> ?k)"
    using hook_setfl [OF assms(1), of other va] assms(2) by auto
  let ?v = "if m_userNonblock ?ctx then k_flags ?k OR O_NONBLOCK else k_flags ?k AND NOT O_NONBLOCK"
  have get: "hook_fcntl other fd F_GETFL va' s' = Inr (?v, s')" by (rule hook_getfl [OF s'(2)])
  have "?v AND SETFL_MASK = arg AND SETFL_MASK"
    by (rule bit_word_eqI) (auto simp: bit_simps setfl_bit nonblocking_bit)
  moreover have "?v AND NOT SETFL_MASK = k_flags k AND NOT SETFL_MASK"
    by (rule bit_word_eqI) (auto simp: bit_simps setfl_bit nonblocking_bit)
  moreover have "nonblocking (k_flags ?k)" by simp
  ultimately show ?thesis using s'(1,3,4) get by (intro exI [of _ s'] exI [of _ ?v] exI [of _ ?k]) simp
qed

theorem hooked_fcntl_roundtrip_witness:
  "\<exists>s' v. hook_fcntl (\<lambda>_ _ _ ks. (0, ks)) 7 F_SETFL 0x400 example_hooks = Inr (0, s') \<and>
     hook_fcntl (\<lambda>_ _ _ ks. (0, ks)) 7 F_GETFL 0 s' = Inr (v, s') \<and> v AND SETFL_MASK = 0x400 \<and>
     (\<exists>k'. kfiles s' 7 = Some k' \<and> nonblocking (k_flags k'))"
proof -
  have "(ucast (0x400 :: 64 word) :: 32 word) AND SETFL_MASK = 0x400" by (simp add: SETFL_MASK_def)
  with hooked_fcntl_roundtrip [OF example_known refl, of "\<lambda>_ _ _ ks. (0, ks)" "0x400" 0] show ?thesis by auto
qed

text \<open>
  \<^verbatim>\<open>ioctl(FIONBIO)\<close> with 0 switches the kernel's socket to blocking, although the hooks go
  on taking it for one that never blocks: from then on a hooked read blocks its thread.
\<close>

theorem hooked_ioctl_blocks:
  assumes "known_socket fd ctx k s"
  shows "\<exists>s' k'. hook_ioctl fd FIONBIO 0 r s = Inr (0, s') \<and> kfiles s' fd = Some k' \<and> \<not> nonblocking (k_flags k') \<and>
    fdm_abs s' fd = Some (ctx\<lparr>m_userNonblock := False\<rparr>) \<and> m_sysNonblock ctx \<and> \<not> kernel_agrees s'"
proof -
  have s: "fd_wf s" "orig_set s" "fdm_abs s fd = Some ctx" "m_isSocket ctx" "kfiles s fd = Some k"
    using assms by (simp_all add: known_socket_def)
  obtain p where p: "fdm_slot s fd = Some p" "ctx_typed fd ctx" "fdm_find fd s = Inr (Some (p, ctx))"
    using s(1,3) by (rule abs_slot)
  let ?k = "k\<lparr>k_flags := k_flags k AND NOT O_NONBLOCK\<rparr>"
  let ?s = "(upd_ctx p (\<lambda>c. c\<lparr>m_userNonblock := False\<rparr>) s)\<lparr>kfiles := (kfiles s)(fd \<mapsto> ?k)\<rparr>"
  have abs: "fdm_abs ?s = (fdm_abs s)(fd \<mapsto> ctx\<lparr>m_userNonblock := False\<rparr>)"
    using set_user_nonblock [OF s(1) p(1) s(3)] by simp
  have "m_sysNonblock ctx" "\<not> m_isClosed ctx" using p(2) s(4) by (simp_all add: ctx_typed_def)
  moreover from this have "hook_ioctl fd FIONBIO 0 r s = Inr (0, ?s)"
    using p(3) s(2,4,5) by (simp add: hook_ioctl_def orig_ioctl_def orig_def)
  moreover have "\<not> kernel_agrees ?s"
    using s(4) by (auto simp: kernel_agrees_def set_user_nonblock(2) [OF s(1) p(1) s(3)] intro!: exI [of _ fd])
  ultimately show ?thesis using abs by (intro exI [of _ ?s] exI [of _ ?k]) simp
qed

theorem hooked_ioctl_blocks_witness:
  "\<exists>s'. hook_ioctl 7 FIONBIO 0 0 example_hooks = Inr (0, s') \<and> \<not> kernel_agrees s'"
  using hooked_ioctl_blocks [OF example_known, of 0] by blast

section \<open>The table over time\<close>

lemma fdm_find_cases:
  assumes "fd_wf s" and "fdm_find fd s = Inr found"
  obtains "-1 \<le> fd" and "found = None" and "fdm_slot s fd = None"
  | p ctx where "0 \<le> fd" and "found = Some (p, ctx)" and "fdm_slot s fd = Some p" and "fdm_abs s fd = Some ctx" and "ctx_typed fd ctx"
proof -
  have fd: "-1 \<le> fd"
  proof (rule ccontr)
    assume "\<not> -1 \<le> fd"
    then have "fdm_find fd s = Inl OutOfBounds" by (simp add: fdm_find_def fdm_get_def fdm_look_eq)
    with assms(2) show False by simp
  qed
  note find = fdm_find_eq [OF assms(1) fd]
  show thesis
  proof (cases "fdm_slot s fd")
    case None
    with find assms(2) fd that(1) show thesis by simp
  next
    case (Some p)
    obtain c where "ctx_typed fd c" "fdm_abs s fd = Some c" using assms(1) Some by (rule fd_wfE)
    moreover from this abs_range have "0 \<le> fd" by blast
    ultimately show thesis using that(2) find assms(2) Some by simp
  qed
qed

text \<open>What the table and the kernel have of the descriptors; the rest of the state may change freely.\<close>

definition desc_same :: "hooks \<Rightarrow> hooks \<Rightarrow> bool" where
  "desc_same s s' \<longleftrightarrow> kfiles s' = kfiles s \<and> m_datas s' = m_datas s \<and> fdctxs s' = fdctxs s \<and> orig_set s' = orig_set s"

definition desc_ok :: "hooks \<Rightarrow> bool" where
  "desc_ok s \<longleftrightarrow> fd_wf s \<and> kernel_agrees s \<and> orig_set s"

lemma desc_same_ok:
  assumes "desc_same s s'"
  shows "desc_ok s' = desc_ok s"
proof -
  have "fdm_slot s' = fdm_slot s" using assms by (simp add: fdm_slot_def desc_same_def fun_eq_iff)
  moreover have "fdctxs s' = fdctxs s" using assms by (simp add: desc_same_def)
  moreover from calculation have "fdm_abs s' = fdm_abs s" unfolding fdm_abs_def by simp
  ultimately show ?thesis using assms by (simp add: desc_ok_def fd_wf_def kernel_agrees_def desc_same_def)
qed

text \<open>
  Hooked calls on descriptors, in threads with the hooks on, that return: new descriptors of any
  kind, with the kernel giving numbers that are not open; the flags; the commands of
  \<^verbatim>\<open>fcntl\<close> that change no file; the options; closing.
\<close>

inductive desc_step :: "hooks \<Rightarrow> hooks \<Rightarrow> bool" where
  socket: "t_hook_enable s t \<Longrightarrow> 0 \<le> fd \<Longrightarrow> kfiles s fd = None \<Longrightarrow> fdctxs s a = None \<Longrightarrow>
    hook_socket t a (fd, err) k s = Inr (r, s') \<Longrightarrow> desc_step s s'"
| accepted: "0 \<le> fd \<Longrightarrow> kfiles s fd = None \<Longrightarrow> fdctxs s a = None \<Longrightarrow>
    accept_rest a k (Returned fd, s) = Some (Inr (out, s')) \<Longrightarrow> desc_step s s'"
| flags: "cmd = F_SETFL \<or> cmd = F_GETFL \<Longrightarrow> hook_fcntl other fd cmd va s = Inr (r, s') \<Longrightarrow> desc_step s s'"
| passed: "cmd \<noteq> F_SETFL \<Longrightarrow> hook_fcntl other fd cmd va s = Inr (r, s') \<Longrightarrow> kfiles s' = kfiles s \<Longrightarrow> desc_step s s'"
| request: "req \<noteq> FIONBIO \<or> v \<noteq> 0 \<Longrightarrow> hook_ioctl fd req v r s = Inr (r', s') \<Longrightarrow> desc_step s s'"
| option: "hook_setsockopt t fd level optname sec usec r s = Inr (r', s') \<Longrightarrow> desc_step s s'"
| closed: "t_hook_enable s t \<Longrightarrow> hook_close t fd s = Inr (r, s') \<Longrightarrow> desc_step s s'"
| elsewhere: "desc_same s s' \<Longrightarrow> desc_step s s'"

lemma desc_enter:
  assumes "desc_ok s" and "0 \<le> fd" and "kfiles s fd = None" and "fdctxs s a = None"
    and "fdm_get a fd True (s\<lparr>kfiles := (kfiles s)(fd \<mapsto> k)\<rparr>) = Inr (p, s')"
  shows "desc_ok s'"
proof -
  let ?s = "s\<lparr>kfiles := (kfiles s)(fd \<mapsto> k)\<rparr>"
  have "\<exists>k'. kfiles s fd' = Some k' \<and> k_socket k' \<and> nonblocking (k_flags k')" if "fdm_abs s fd' = Some c" "m_isSocket c" for fd' c
    using assms(1) that by (auto simp: desc_ok_def kernel_agrees_def)
  then have 1: "fd_wf ?s" "orig_set ?s" "kernel_agrees ?s"
    using assms(1,3) unfolding desc_ok_def kernel_agrees_def by (fastforce)+
  show ?thesis
  proof (cases "fdm_slot s fd")
    case None
    obtain s1 where s1: "fdm_create a fd ?s = Inr (a, s1)" "entered a fd ?s s1"
      using fdm_create_entered [OF 1(1,2) assms(2)] by blast
    with None assms(2,5) have "s' = s1" by (auto simp: fdm_get_def fdm_look_eq)
    moreover have "fdctxs ?s a = None" using assms(4) by simp
    ultimately show ?thesis
      using entered_abs(1) [OF s1(2) 1(1)] entered_agrees [OF s1(2) 1(1) _ 1(3)] s1(2) 1(2) by (simp add: desc_ok_def entered_def)
  next
    case (Some q)
    with assms(2,5) have "s' = ?s" by (auto simp: fdm_get_def fdm_look_eq)
    with 1 show ?thesis by (simp add: desc_ok_def)
  qed
qed

lemma desc_upd:
  assumes "desc_ok s" and "fdm_slot s fd = Some p"
    and "\<And>c. ctx_typed fd c \<Longrightarrow> ctx_typed fd (f c)" and "\<And>c. m_isSocket (f c) = m_isSocket c"
  shows "desc_ok (upd_ctx p f s)"
  using upd_ctx_abs [OF _ assms(2,3)] assms(1,4)
  by (auto simp: desc_ok_def kernel_agrees_def)

lemma desc_flags:
  assumes "desc_ok s" and "\<And>k. kfiles s fd = Some k \<Longrightarrow> nonblocking (k_flags k) \<Longrightarrow> (\<exists>c. fdm_abs s fd = Some c \<and> m_isSocket c) \<Longrightarrow> nonblocking (h k)"
  shows "desc_ok (s\<lparr>kfiles := (kfiles s)(fd := map_option (\<lambda>k. k\<lparr>k_flags := h k\<rparr>) (kfiles s fd))\<rparr>)"
  using assms unfolding desc_ok_def kernel_agrees_def by (fastforce)

lemma setTimeout_typed: "ctx_typed fd c \<Longrightarrow> ctx_typed fd (setTimeout o' v c)" "m_isSocket (setTimeout o' v c) = m_isSocket c"
  by (simp_all add: setTimeout_def ctx_typed_def)

lemma orig_setfl_ok:
  assumes "desc_ok s" and "orig_setfl fd v s = Inr (r, s')"
    and "(\<exists>c. fdm_abs s fd = Some c \<and> m_isSocket c) \<Longrightarrow> nonblocking v"
  shows "desc_ok s'"
proof (cases "kfiles s fd")
  case None
  with assms(1,2) show ?thesis by (simp add: orig_setfl_def desc_ok_def orig_def)
next
  case (Some k)
  from desc_flags [OF assms(1), of fd "\<lambda>k. (k_flags k AND NOT SETFL_MASK) OR (v AND SETFL_MASK)"]
  have "desc_ok (s\<lparr>kfiles := (kfiles s)(fd \<mapsto> k\<lparr>k_flags := (k_flags k AND NOT SETFL_MASK) OR (v AND SETFL_MASK)\<rparr>)\<rparr>)"
    using Some assms(3) by simp
  with Some assms(1,2) show ?thesis by (auto simp: orig_setfl_def desc_ok_def orig_def)
qed

lemma orig_ioctl_ok:
  assumes "desc_ok s" and "orig_ioctl fd req v r s = Inr (r', s')" and "req \<noteq> FIONBIO \<or> v \<noteq> 0"
  shows "desc_ok s'"
proof (cases "req = FIONBIO \<and> kfiles s fd \<noteq> None")
  case True
  then obtain k where k: "kfiles s fd = Some k" by blast
  from desc_flags [OF assms(1), of fd "\<lambda>k. k_flags k OR O_NONBLOCK"]
  have "desc_ok (s\<lparr>kfiles := (kfiles s)(fd \<mapsto> k\<lparr>k_flags := k_flags k OR O_NONBLOCK\<rparr>)\<rparr>)"
    using k by simp
  with True k assms show ?thesis by (auto simp: orig_ioctl_def desc_ok_def orig_def)
next
  case False
  with assms(1,2) show ?thesis by (auto simp: orig_ioctl_def desc_ok_def orig_def split: if_splits)
qed

lemma user_flag_ok:
  "desc_ok s \<Longrightarrow> fdm_slot s fd = Some p \<Longrightarrow> desc_ok (upd_ctx p (\<lambda>c. c\<lparr>m_userNonblock := b\<rparr>) s)"
  by (erule desc_upd) (simp_all add: ctx_typed_def)

lemma hook_setfl_ok:
  assumes "desc_ok s" and "hook_fcntl other fd F_SETFL va s = Inr (r, s')"
  shows "desc_ok s'"
proof -
  have wf: "fd_wf s" using assms(1) by (simp add: desc_ok_def)
  obtain found where found: "fdm_find fd s = Inr found"
    using assms(2) by (auto simp: hook_fcntl_def Let_def res_simps)
  show ?thesis
    using wf found
  proof (cases rule: fdm_find_cases)
    case 1
    have "fdm_abs s fd = None" using 1(3) by (simp add: fdm_abs_def)
    moreover have "orig_setfl fd (ucast va) s = Inr (r, s')" using assms(2) found 1(2) by (simp add: hook_fcntl_def Let_def)
    ultimately show ?thesis by (intro orig_setfl_ok [OF assms(1)]) auto
  next
    case (2 p ctx)
    show ?thesis
    proof (cases "m_isSocket ctx")
      case False
      then have "orig_setfl fd (ucast va) s = Inr (r, s')" using assms(2) found 2(2) by (simp add: hook_fcntl_def Let_def)
      then show ?thesis by (rule orig_setfl_ok [OF assms(1)]) (use 2(4) False in auto)
    next
      case True
      with 2(5) have "m_sysNonblock ctx" "\<not> m_isClosed ctx" by (simp_all add: ctx_typed_def)
      with True assms(2) found 2(2)
      have "orig_setfl fd (ucast va OR O_NONBLOCK) (upd_ctx p (\<lambda>c. c\<lparr>m_userNonblock := nonblocking (ucast va)\<rparr>) s) = Inr (r, s')"
        by (simp add: hook_fcntl_def Let_def)
      then show ?thesis by (rule orig_setfl_ok [OF user_flag_ok [OF assms(1) 2(3)]]) simp
    qed
  qed
qed

lemma hook_ioctl_ok:
  assumes "desc_ok s" and "hook_ioctl fd req v r s = Inr (r', s')" and "req \<noteq> FIONBIO \<or> v \<noteq> 0"
  shows "desc_ok s'"
proof (cases "req = FIONBIO")
  case False
  with assms show ?thesis by (auto simp: hook_ioctl_def intro: orig_ioctl_ok)
next
  case True
  have wf: "fd_wf s" using assms(1) by (simp add: desc_ok_def)
  obtain found where found: "fdm_find fd s = Inr found"
    using assms(2) True by (auto simp: hook_ioctl_def res_simps)
  show ?thesis
    using wf found
  proof (cases rule: fdm_find_cases)
    case 1
    with assms found True show ?thesis by (auto simp: hook_ioctl_def intro: orig_ioctl_ok)
  next
    case (2 p ctx)
    have "desc_ok (upd_ctx p (\<lambda>c. c\<lparr>m_userNonblock := (v \<noteq> 0)\<rparr>) s)" by (rule user_flag_ok [OF assms(1) 2(3)])
    with assms found True 2(2) show ?thesis
      by (auto simp: hook_ioctl_def split: if_splits intro: orig_ioctl_ok)
  qed
qed

lemma hook_setsockopt_ok:
  assumes "desc_ok s" and "hook_setsockopt t fd level optname sec usec r s = Inr (r', s')"
  shows "desc_ok s'"
proof (cases "t_hook_enable s t \<and> level = SOL_SOCKET \<and> (optname = SO_RCVTIMEO \<or> optname = SO_SNDTIMEO)")
  case False
  with assms show ?thesis by (cases "t_hook_enable s t") (auto simp: hook_setsockopt_def res_simps split: if_splits)
next
  case True
  have wf: "fd_wf s" using assms(1) by (simp add: desc_ok_def)
  obtain found where found: "fdm_find fd s = Inr found"
    using assms(2) True by (auto simp: hook_setsockopt_def res_simps)
  show ?thesis
    using wf found
  proof (cases rule: fdm_find_cases)
    case 1
    with assms found True show ?thesis by (auto simp: hook_setsockopt_def res_simps)
  next
    case (2 p ctx)
    have "desc_ok (upd_ctx p (setTimeout optname (timeval_ms sec usec)) s)"
      by (rule desc_upd [OF assms(1) 2(3)]) (simp_all add: setTimeout_typed)
    with assms found True 2(2) show ?thesis by (auto simp: hook_setsockopt_def res_simps)
  qed
qed

lemma orig_close_ok:
  assumes "desc_ok s" and "fdm_abs s fd = None" and "orig_close t fd s = Inr (r, s')"
  shows "desc_ok s'"
proof -
  have "fd_wf s" "kernel_agrees s" using assms(1) by (simp_all add: desc_ok_def)
  then have "desc_ok (s\<lparr>kfiles := (kfiles s)(fd := None)\<rparr>)"
    using assms(1,2) unfolding desc_ok_def kernel_agrees_def by fastforce
  moreover have "desc_same s s' \<or> desc_same (s\<lparr>kfiles := (kfiles s)(fd := None)\<rparr>) s'"
    using assms(3) by (auto simp: orig_close_def desc_same_def set_errno_def split: if_splits)
  ultimately show ?thesis using desc_same_ok assms(1) by blast
qed

lemma hook_close_ok:
  assumes "desc_ok s" and "t_hook_enable s t" and "hook_close t fd s = Inr (r, s')"
  shows "desc_ok s'"
proof -
  have wf: "fd_wf s" using assms(1) by (simp add: desc_ok_def)
  obtain found where found: "fdm_find fd s = Inr found"
    using assms(2,3) by (auto simp: hook_close_def res_simps)
  show ?thesis
    using wf found
  proof (cases rule: fdm_find_cases)
    case 1
    then have "orig_close t fd s = Inr (r, s')" using assms(2,3) found by (simp add: hook_close_def)
    moreover have "fdm_abs s fd = None" using 1(3) by (simp add: fdm_abs_def)
    ultimately show ?thesis using orig_close_ok [OF assms(1)] by blast
  next
    case (2 p ctx)
    have "\<exists>m. bindR (fdm_del fd (s\<lparr>h_iom := m\<rparr>)) (orig_close t fd) = Inr (r, s')"
    proof (cases "iom_GetThis t (h_iom s)")
      case True
      with assms(2,3) found 2(2) show ?thesis by (auto simp: hook_close_def bindR_assoc bindR_eq_Inr)
    next
      case False
      with assms(2,3) found 2(2) show ?thesis by (intro exI [of _ "h_iom s"]) (simp add: hook_close_def)
    qed
    then obtain m s2 where s2: "fdm_del fd (s\<lparr>h_iom := m\<rparr>) = Inr s2" and close: "orig_close t fd s2 = Inr (r, s')"
      by (auto simp: res_simps)
    define s1 where "s1 = s\<lparr>h_iom := m\<rparr>"
    have s1: "desc_same s s1" by (simp add: s1_def desc_same_def)
    note s2 = s2 [folded s1_def]
    have ok1: "desc_ok s1" using desc_same_ok [OF s1] assms(1) by simp
    obtain s3 where "fdm_del fd s1 = Inr s3" and "fdm_abs s3 = (fdm_abs s1)(fd := None)" and "fd_wf s3"
      and "kfiles s3 = kfiles s1" and "orig_set s3 = orig_set s1"
      using fdm_del_abs [OF _ 2(1), of s1] ok1 by (auto simp: desc_ok_def)
    with s2 ok1 have "desc_ok s2" "fdm_abs s2 fd = None"
      by (auto simp: desc_ok_def kernel_agrees_def)
    then show ?thesis using close by (rule orig_close_ok)
  qed
qed

lemma desc_step_ok: "desc_step s s' \<Longrightarrow> desc_ok s \<Longrightarrow> desc_ok s'"
proof (induction rule: desc_step.induct)
  case (socket s t fd a err k r s')
  then have "orig_set s" by (simp add: desc_ok_def)
  with socket obtain p where "fdm_get a fd True (s\<lparr>kfiles := (kfiles s)(fd \<mapsto> k)\<rparr>) = Inr (p, s')"
    by (auto simp: hook_socket_def Let_def res_simps)
  with socket show ?case using desc_enter by blast
next
  case (accepted fd s a k out s')
  then obtain p where "fdm_get a fd True (s\<lparr>kfiles := (kfiles s)(fd \<mapsto> k)\<rparr>) = Inr (p, s')"
    by (auto simp: accept_rest_def res_simps)
  with accepted show ?case using desc_enter by blast
next
  case (flags cmd other fd va s r s')
  from flags(1) show ?case
  proof
    assume "cmd = F_GETFL"
    with flags have "s' = s" by (auto simp: hook_fcntl_def F_GETFL_def F_SETFL_def res_simps split: option.splits if_splits)
    with flags show ?thesis by simp
  qed (use flags hook_setfl_ok in blast)
next
  case (passed cmd other fd va s r s')
  then have "desc_same s s'"
    by (auto simp: hook_fcntl_def desc_same_def orig_set_def res_simps split: option.splits if_splits prod.splits)
  with passed show ?case using desc_same_ok by blast
next
  case (request req v fd r s r' s')
  then show ?case using hook_ioctl_ok by blast
next
  case (option t fd level optname sec usec r s r' s')
  then show ?case using hook_setsockopt_ok by blast
next
  case (closed s t fd r s')
  then show ?case using hook_close_ok by blast
next
  case (elsewhere s s')
  then show ?case using desc_same_ok by blast
qed

text \<open>
  C19. From the construction of the table on, whatever sequence of these calls is made by threads with the hooks on
  - \<^verbatim>\<open>socket\<close>, \<^verbatim>\<open>accept\<close>, \<^verbatim>\<open>close\<close>, \<^verbatim>\<open>setsockopt\<close>, \<^verbatim>\<open>fcntl\<close>
  with \<^verbatim>\<open>F_SETFL\<close>, \<^verbatim>\<open>F_GETFL\<close> or a command that changes no file of the kernel,
  \<^verbatim>\<open>ioctl\<close> except \<^verbatim>\<open>FIONBIO\<close> with 0, and any call that leaves the table and the
  files alone: every object is for
  its own descriptor and not closed; it is known to be kept non-blocking exactly when it is a socket;
  and the kernel's file of every such socket is an open, non-blocking socket. Not among the calls are
  \<^verbatim>\<open>ioctl(FIONBIO)\<close> with 0, which breaks this (\<open>hooked_ioctl_blocks\<close>), and
  \<^verbatim>\<open>F_DUPFD\<close>: two descriptors of one file are not modelled.
\<close>

theorem descriptors_well_typed:
  assumes "orig_set s0" and "desc_step\<^sup>*\<^sup>* (fdManagerInit s0) s" and "fdm_abs s fd = Some c"
  shows "0 \<le> fd \<and> ctx_fd c = fd \<and> \<not> m_isClosed c \<and> (m_sysNonblock c \<longleftrightarrow> m_isSocket c) \<and>
    (m_isSocket c \<longrightarrow> m_isInit c \<and> (\<exists>k. kfiles s fd = Some k \<and> k_socket k \<and> nonblocking (k_flags k))) \<and>
    (\<exists>p. fdm_find fd s = Inr (Some (p, c)) \<and> (\<forall>fd'. fdm_slot s fd' = Some p \<longleftrightarrow> fd' = fd))"
proof -
  have "desc_ok (fdManagerInit s0)" using fdm_init_wf [of s0] assms(1) by (simp add: desc_ok_def fdManagerInit_def)
  with assms(2) have "desc_ok s" by (induction rule: rtranclp_induct) (auto intro: desc_step_ok)
  then have wf: "fd_wf s" and agrees: "kernel_agrees s" by (simp_all add: desc_ok_def)
  obtain p where p: "fdm_slot s fd = Some p" "ctx_typed fd c" "fdm_find fd s = Inr (Some (p, c))"
    using wf assms(3) by (rule abs_slot)
  have "fdm_slot s fd' = Some p \<longleftrightarrow> fd' = fd" for fd' using slot_inj [OF wf] p(1) by metis
  then show ?thesis using p abs_range [OF assms(3)] agrees assms(3) by (auto simp: ctx_typed_def kernel_agrees_def)
qed

theorem descriptors_well_typed_witness:
  "\<exists>s. hook_socket 9 51 (8, 0) example_file (fdManagerInit (example_hooks\<lparr>kfiles := Map.empty, fdctxs := Map.empty\<rparr>)) = Inr (8, s) \<and>
     fdm_abs s 8 = Some (new_ctx 8 (Some example_file)) \<and> (\<exists>k. kfiles s 8 = Some k \<and> nonblocking (k_flags k))"
proof -
  let ?base = "example_hooks\<lparr>kfiles := Map.empty, fdctxs := Map.empty\<rparr>"
  let ?s = "(fdManagerInit ?base)\<lparr>kfiles := [8 \<mapsto> example_file]\<rparr>"
  have set: "orig_set example_hooks" "orig_set ?base" "t_hook_enable example_hooks 9" by (simp_all add: example_hooks_def)
  have wf: "fd_wf ?s" "orig_set ?s" "fdctxs ?s 51 = None" "kfiles ?s = [8 \<mapsto> example_file]" "fdm_slot ?s 8 = None"
    using fdm_init_wf(1) [of ?base] set by (simp, simp_all add: fdManagerInit_def fdm_slot_def)
  have init: "orig_set (fdManagerInit ?base) = orig_set ?base" "kfiles (fdManagerInit ?base) = Map.empty"
    "t_hook_enable (fdManagerInit ?base) 9"
    using set by (simp_all add: fdManagerInit_def)
  obtain s where s: "fdm_create 51 8 ?s = Inr (51, s)" "entered 51 8 ?s s" using fdm_create_entered [OF wf(1,2), of 8] by auto
  have run: "hook_socket 9 51 (8, 0) example_file (fdManagerInit ?base) = Inr (8, s)"
    using s(1) wf(2,5) by (simp add: hook_socket_def fdm_get_def fdm_look_eq init set)
  have abs: "fdm_abs s 8 = Some (new_ctx 8 (Some example_file))" using entered_abs(2) [OF s(2) wf(1,3)] wf(4) by simp
  have "desc_step (fdManagerInit ?base) s"
    by (rule desc_step.socket [OF _ _ _ _ run]) (simp_all add: init, simp add: fdManagerInit_def)
  from descriptors_well_typed [OF set(2) r_into_rtranclp [of desc_step, OF this] abs] run abs show ?thesis
    by (auto simp: new_ctx_def example_file_def)
qed

lemma close_found:
  assumes "fd_wf s" and "t_hook_enable s t" and "fdm_abs s fd = Some ctx" and "orig_set s" and "is_open s fd"
  shows "\<exists>ds. hook_close t fd s =
      bindR (if iom_GetThis t (h_iom s) then bindR (cancelAll (is_open s) fd (h_iom s)) (\<lambda>(_, m). Inr m) else Inr (h_iom s)) (\<lambda>m.
      Inr (0, s\<lparr>h_iom := m\<lparr>ep := (ep m)\<lparr>ep_set := (ep_set (ep m))(fd := None)\<rparr>, ep_ptr := (ep_ptr m)(fd := None)\<rparr>,
        m_datas := ds, kfiles := (kfiles s)(fd := None)\<rparr>)) \<and>
    (\<forall>m ks. fdm_abs (s\<lparr>h_iom := m, m_datas := ds, kfiles := ks\<rparr>) = (fdm_abs s)(fd := None))"
proof -
  obtain p where p: "fdm_find fd s = Inr (Some (p, ctx))" using assms(1,3) by (rule abs_slot)
  have fd: "0 \<le> fd" using abs_range [OF assms(3)] .
  define ds where "ds = (if int (length (m_datas s)) \<le> fd then m_datas s else (m_datas s)[nat fd := None])"
  have del: "fdm_del fd (s\<lparr>h_iom := m\<rparr>) = Inr (s\<lparr>h_iom := m, m_datas := ds\<rparr>)" for m
    using fd by (simp add: fdm_del_def ds_def)
  have "fdm_slot (s\<lparr>h_iom := m, m_datas := ds, kfiles := ks\<rparr>) = (fdm_slot s)(fd := None)" for m ks
    using fd by (auto simp: ds_def fdm_slot_def fun_eq_iff nth_list_update nat_eq_iff)
  then have "fdm_abs (s\<lparr>h_iom := m, m_datas := ds, kfiles := ks\<rparr>) = (fdm_abs s)(fd := None)" for m ks
    by (simp add: fdm_abs_def fun_eq_iff)
  moreover have close: "orig_close t fd (s\<lparr>h_iom := m, m_datas := ds\<rparr>) =
      Inr (0, s\<lparr>h_iom := m\<lparr>ep := (ep m)\<lparr>ep_set := (ep_set (ep m))(fd := None)\<rparr>, ep_ptr := (ep_ptr m)(fd := None)\<rparr>,
        m_datas := ds, kfiles := (kfiles s)(fd := None)\<rparr>)" for m
    using assms(4,5) by (simp add: orig_close_def is_open_def)
  have "hook_close t fd s =
      bindR (if iom_GetThis t (h_iom s) then bindR (cancelAll (is_open s) fd (h_iom s)) (\<lambda>(_, m). Inr m) else Inr (h_iom s)) (\<lambda>m.
      Inr (0, s\<lparr>h_iom := m\<lparr>ep := (ep m)\<lparr>ep_set := (ep_set (ep m))(fd := None)\<rparr>, ep_ptr := (ep_ptr m)(fd := None)\<rparr>,
        m_datas := ds, kfiles := (kfiles s)(fd := None)\<rparr>))"
  proof (cases "iom_GetThis t (h_iom s)")
    case True
    then show ?thesis
      using assms(2) p by (cases "cancelAll (is_open s) fd (h_iom s)") (auto simp: hook_close_def del close)
  next
    case False
    have "s\<lparr>h_iom := h_iom s\<rparr> = s" by simp
    with False assms(2) p del [of "h_iom s"] close [of "h_iom s"] show ?thesis by (simp add: hook_close_def)
  qed
  ultimately show ?thesis by blast
qed

text \<open>What the kernel forgets of a closed descriptor; the manager has taken it back before, or not.\<close>

definition forgotten :: "int \<Rightarrow> iomanager \<Rightarrow> iomanager" where
  "forgotten fd m = m\<lparr>ep := (ep m)\<lparr>ep_set := (ep_set (ep m))(fd := None)\<rparr>, ep_ptr := (ep_ptr m)(fd := None)\<rparr>"

lemma forgotten_simps [simp]:
  "m_tasks (forgotten fd m) = m_tasks m" "ctx_at (forgotten fd m) i = ctx_at m i" "ep_set (ep (forgotten fd m)) fd = None"
  by (simp_all add: forgotten_def ctx_at_def)

lemma cancelAll_wakes:
  assumes "io_inv m0" and "i < length (m_fdContexts m0)" and e: "entry_ok m0 i p c"
    and "int i \<noteq> fst (m_tickleFds m0)" and "valid (int i)" and "int i \<noteq> epfd (ep m0)" and "\<not> s_locked m0"
  obtains b m where "cancelAll valid (int i) m0 = Inr (b, m)" "io_inv m" "forgotten (int i) m = m"
    "fc_events (ctx_at m i) = 0"
    "m_tasks m = m_tasks m0 @ (if reads c then [waiter_task (fc_read c)] else []) @
      (if writes c then [waiter_task (fc_write c)] else [])"
proof -
  have c: "ctx_ok c" using e by (simp add: entry_ok_def)
  define m where "m = (if fc_events c \<noteq> 0 then events_end (reads c) (writes c) i p c m0 else m0)"
  have "cancelAll valid (int i) m0 = Inr (fc_events c \<noteq> 0, m)"
    using cancelAll_ok [where valid = valid, OF assms(1-7)] by (simp add: m_def)
  moreover have none: "fc_events (without_write (writes c) (without_read (reads c) c)) = 0"
    using c by (cases rule: events_cases) (simp_all add: without_read_def without_write_def io_masks)
  have m: "io_inv m \<and> (\<exists>d. entry_ok m i p d \<and> fc_events d = 0)"
    using events_end_inv [OF assms(1-4), of "reads c" "writes c"] none assms(1) e by (auto simp: m_def)
  then obtain d where d: "entry_ok m i p d" "fc_events d = 0" by blast
  moreover have "m_tickleFds m = m_tickleFds m0" by (simp add: m_def events_end_def after_triggers_def Let_def)
  with d assms(4) have "forgotten (int i) m = m"
    by (simp add: forgotten_def entry_ok_def kernel_mask_def fun_upd_idem)
  moreover have "m_tasks m = m_tasks m0 @ (if reads c then [waiter_task (fc_read c)] else []) @
      (if writes c then [waiter_task (fc_write c)] else [])"
    using c by (cases rule: events_cases) (simp_all add: m_def events_end_def after_triggers_def Let_def woken_def io_masks)
  ultimately show ?thesis using that m entry_ctx [OF d(1)] by simp
qed

lemma forgotten_strands:
  assumes "i < length (m_fdContexts m)" and "c = ctx_at m i" and "int i \<noteq> fst (m_tickleFds m)" and "reads c \<or> writes c"
  shows "\<not> io_inv (forgotten (int i) m)"
proof
  assume "io_inv (forgotten (int i) m)"
  then obtain q d where q: "entry_ok (forgotten (int i) m) i q d" using assms(1) by (auto simp: forgotten_def elim: io_invE)
  moreover have "d = c" using entry_ctx [OF q] assms(2) by simp
  ultimately have "kernel_mask c = None" using assms(3) by (simp add: entry_ok_def forgotten_def)
  with assms(4) show False by (auto simp: kernel_mask_def reads_def writes_def io_masks split: if_splits)
qed

text \<open>
  C21. Closing from a thread of the manager puts all who wait for the descriptor in the queue, the
  reader first, and forgets it. From any other thread the waiters are not told: the kernel drops the
  descriptor, nobody is put in the queue, and the context keeps waiting for it.
\<close>

theorem hooked_close_wakes:
  assumes "fd_wf s" and "t_hook_enable s t" and "fdm_abs s (int i) = Some ctx" and "orig_set s" and "is_open s (int i)"
    and "io_inv (h_iom s)" and "i < length (m_fdContexts (h_iom s))" and "c = ctx_at (h_iom s) i"
    and "int i \<noteq> epfd (ep (h_iom s))" and "int i \<noteq> fst (m_tickleFds (h_iom s))" and "\<not> s_locked (h_iom s)"
  shows "\<exists>s'. hook_close t (int i) s = Inr (0, s') \<and> \<not> is_open s' (int i) \<and>
    fdm_abs s' = (fdm_abs s)(int i := None) \<and> ep_set (ep (h_iom s')) (int i) = None \<and>
    (if iom_GetThis t (h_iom s)
     then m_tasks (h_iom s') = m_tasks (h_iom s) @ (if reads c then [waiter_task (fc_read c)] else []) @
            (if writes c then [waiter_task (fc_write c)] else []) \<and>
          fc_events (ctx_at (h_iom s') i) = 0 \<and> io_inv (h_iom s')
     else m_tasks (h_iom s') = m_tasks (h_iom s) \<and> ctx_at (h_iom s') i = c \<and>
          (reads c \<or> writes c \<longrightarrow> \<not> io_inv (h_iom s')))"
proof -
  obtain p where e: "entry_ok (h_iom s) i p c" using assms(6-8) by (metis io_invE entry_ctx)
  obtain ds where close: "hook_close t (int i) s =
      bindR (if iom_GetThis t (h_iom s) then bindR (cancelAll (is_open s) (int i) (h_iom s)) (\<lambda>(_, m). Inr m) else Inr (h_iom s)) (\<lambda>m.
      Inr (0, s\<lparr>h_iom := forgotten (int i) m, m_datas := ds, kfiles := (kfiles s)(int i := None)\<rparr>))"
    and abs: "\<And>m ks. fdm_abs (s\<lparr>h_iom := m, m_datas := ds, kfiles := ks\<rparr>) = (fdm_abs s)(int i := None)"
    using close_found [OF assms(1-5), folded forgotten_def] by blast
  let ?s = "\<lambda>m. s\<lparr>h_iom := forgotten (int i) m, m_datas := ds, kfiles := (kfiles s)(int i := None)\<rparr>"
  show ?thesis
  proof (cases "iom_GetThis t (h_iom s)")
    case True
    obtain b m where m: "cancelAll (is_open s) (int i) (h_iom s) = Inr (b, m)" "io_inv m" "forgotten (int i) m = m"
      "fc_events (ctx_at m i) = 0"
      "m_tasks m = m_tasks (h_iom s) @ (if reads c then [waiter_task (fc_read c)] else []) @
        (if writes c then [waiter_task (fc_write c)] else [])"
      by (rule cancelAll_wakes [where valid = "is_open s", OF assms(6,7) e assms(10,5,9,11)])
    have "ep_set (ep m) (int i) = None" by (subst m(3) [symmetric]) simp
    then show ?thesis
      using close abs m True by (intro exI [of _ "?s m"]) (simp add: is_open_def)
  next
    case False
    then show ?thesis
      using close abs forgotten_strands [OF assms(7,8,10)] assms(8) by (intro exI [of _ "?s (h_iom s)"]) (simp add: is_open_def)
  qed
qed

theorem hooked_close_wakes_witness:
  "\<exists>s'. hook_close 9 7 (example_hooks\<lparr>h_iom := waiting_iom\<rparr>) = Inr (0, s') \<and> fdm_abs s' 7 = None \<and>
     ep_set (ep (h_iom s')) 7 = None"
proof -
  let ?s = "example_hooks\<lparr>h_iom := waiting_iom\<rparr>"
  have "fdm_slot ?s = fdm_slot example_hooks" by (simp add: fdm_slot_def fun_eq_iff)
  then have same: "fd_wf ?s" "fdm_abs ?s = [7 \<mapsto> example_ctx]"
    using example_wf example_abs by (simp_all add: fd_wf_def fdm_abs_def fun_eq_iff)
  have "t_hook_enable ?s 9" "orig_set ?s" "is_open ?s 7" by (simp_all add: example_hooks_def is_open_def)
  with hooked_close_wakes [of ?s 9 7 example_ctx "ctx_at waiting_iom 7"] same waiting_iom_facts waiting_iom_at
  show ?thesis by fastforce
qed

text \<open>
  Nothing in the program calls \<^verbatim>\<open>hook_init\<close>, so the pointers to the C library's functions
  stay NULL, and a call through the hooks on a descriptor the table does not have ends the process:
  also the manager's own calls, the first of which is the \<^verbatim>\<open>fcntl\<close> on the read end of its pipe.
\<close>

theorem hooks_without_init_crash:
  assumes "\<not> orig_set s" and "fd_wf s" and "-1 \<le> fd" and "fdm_abs s fd = None"
  shows "hooked_io f t e fd ti rs s = Some (Inl NullDeref) \<and> hook_fcntl other fd cmd va s = Inl NullDeref \<and>
    hook_ioctl fd req v r s = Inl NullDeref \<and> hook_setsockopt t fd level optname sec usec r s = Inl NullDeref \<and>
    hook_close t fd s = Inl NullDeref \<and> (new \<noteq> -1 \<longrightarrow> hook_socket t a (new, err) k s = Inl NullDeref) \<and>
    orig_set (hook_init s)"
proof -
  have "fdm_slot s fd = None" using assms(2,4) abs_None by blast
  then have find: "fdm_find fd s = Inr None" using fdm_find_eq [OF assms(2,3)] by simp
  show ?thesis
    using assms(1) find
    by (simp add: hooked_io_def do_io_def direct_def hook_fcntl_def orig_setfl_def orig_getfl_def orig_def hook_ioctl_def
        orig_ioctl_def hook_setsockopt_def hook_close_def orig_close_def hook_socket_def hook_init_def Let_def)
qed

theorem hooks_without_init_crash_witness:
  "hook_fcntl (\<lambda>_ _ _ ks. (0, ks)) 5 F_SETFL 0x800 (example_hooks\<lparr>orig_set := False\<rparr>) = Inl NullDeref"
proof -
  let ?s = "example_hooks\<lparr>orig_set := False\<rparr>"
  have "fdm_slot ?s = fdm_slot example_hooks" by (simp add: fdm_slot_def fun_eq_iff)
  then have "fd_wf ?s" "fdm_abs ?s 5 = None" "\<not> orig_set ?s"
    using example_wf example_abs by (simp_all add: fd_wf_def fdm_abs_def example_slot)
  with hooks_without_init_crash [of ?s 5 Read 9 example_env 60 "[]" "\<lambda>_ _ _ ks. (0, ks)" F_SETFL "0x800"] show ?thesis by simp
qed

lemma sleep_for_parks:
  assumes "in_fiber t g home (h_iom s)"
  shows "\<exists>k. sleep_for t e ms s = Inr (s\<lparr>h_iom := away t g home
      ((h_iom s)\<lparr>io_timers := timers_with e ms (Plain (env_fun e)) (h_iom s), pipe_bytes := k\<rparr>),
    h_funs := (h_funs s)(env_fun e \<mapsto> Reschedule g)\<rparr>)"
proof -
  let ?m = "h_iom s"
  obtain k where add: "iom_addTimer (env_timer e) (env_now e) ms (Some (Plain (env_fun e))) False ?m =
      Inr (env_timer e, ?m\<lparr>io_timers := timers_with e ms (Plain (env_fun e)) ?m, pipe_bytes := k\<rparr>)" (is "_ = Inr (_, ?m1)")
    using iom_addTimer_eq by blast
  let ?s1 = "s\<lparr>h_iom := ?m1, h_funs := (h_funs s)(env_fun e \<mapsto> Reschedule g)\<rparr>"
  have get: "fiber_GetThis t (env_fiber e) ?m = Inr (g, ?m)" and t: "iom_GetThis t ?m"
    using assms by (auto simp: in_fiber_def fiber_GetThis_def)
  have "main_of t y ?m1 = main_of t y ?m" for y by (rule main_of_cong) simp_all
  then have "in_fiber t g home (h_iom ?s1)"
    using assms by (simp add: in_fiber_def iom_GetThis_def scheduler_GetThis_def)
  from yield_now_ok [OF this, of e] have "sleep_for t e ms s = Inr (?s1\<lparr>h_iom := away t g home ?m1\<rparr>)"
    using get t add by (simp add: sleep_for_def)
  then show ?thesis by (intro exI [of _ k]) simp
qed

text \<open>
  A fiber that sleeps leaves its thread; when the time has come the idle thread collects its
  timer, and the callback puts the fiber back in the queue, once. The milliseconds are computed in 32
  bits: from 4294968 seconds on the sleep is short.
\<close>

theorem hooked_sleep_wakes:
  fixes now' :: "64 word"
  assumes "t_hook_enable s t" and "in_fiber t g home (h_iom s)" and "\<not> s_locked (h_iom s)"
    and "timers_inv (io_timers (h_iom s))" and "tm_heap (io_timers (h_iom s)) (env_timer e) = None"
    and "tm_heap (io_timers (h_iom s)) tmp = None" and "tmp \<noteq> env_timer e" and "env_now e + sleep_ms seconds \<le> now'"
  shows "\<exists>s1 cb cbs m s2. hook_sleep t e seconds rs s = Some (Inr (None, s1)) \<and> parked t g home (h_iom s1) \<and>
    m_tasks (h_iom s1) = m_tasks (h_iom s) \<and>
    listExpiredCb tmp now' (io_timers (h_iom s1)) = Inr (cbs, m) \<and> Some cb \<in> set cbs \<and> env_timer e \<notin> set (m_timers m) \<and>
    run_hook_cb (Some cb) (s1\<lparr>h_iom := (h_iom s1)\<lparr>io_timers := m\<rparr>\<rparr>) = Inr s2 \<and>
    m_tasks (h_iom s2) = m_tasks (h_iom s) @ [fiber_task (Some g) any_thread] \<and>
    unat (sleep_ms seconds) = unat seconds * 1000 mod 2 ^ 32"
proof -
  let ?ms = "sleep_ms seconds"
  let ?cb = "Plain (env_fun e)"
  obtain k where k: "sleep_for t e ?ms s = Inr (s\<lparr>h_iom := away t g home
      ((h_iom s)\<lparr>io_timers := timers_with e ?ms ?cb (h_iom s), pipe_bytes := k\<rparr>),
    h_funs := (h_funs s)(env_fun e \<mapsto> Reschedule g)\<rparr>)" (is "_ = Inr ?s1")
    using sleep_for_parks [OF assms(2)] by blast
  have run: "hook_sleep t e seconds rs s = Some (Inr (None, ?s1))"
    using assms(1) k by (simp add: hook_sleep_def sleeps_def)
  have park: "parked t g home (h_iom ?s1)"
    using assms(2) by (auto simp: parked_def away_def in_fiber_def own_context_def)
  have tms: "io_timers (h_iom ?s1) = timers_with e ?ms ?cb (h_iom s)" by (simp add: away_def)
  note tw = timers_with_facts [OF assms(4,5), where ms = ?ms and cb = ?cb]
  have "tm_heap (timers_with e ?ms ?cb (h_iom s)) tmp = None"
    using assms(6,7) by (simp add: timers_with_def addTimer_def insertTimer_eq)
  then have "\<exists>cbs m. listExpiredCb tmp now' (timers_with e ?ms ?cb (h_iom s)) = Inr (cbs, m) \<and> Some ?cb \<in> set cbs \<and>
      env_timer e \<notin> set (m_timers m)"
    using timer_collected [OF tw(1) _ tw(3,4), of tmp now'] assms(8) by (auto simp: new_timer_def)
  then obtain cbs m where m: "listExpiredCb tmp now' (io_timers (h_iom ?s1)) = Inr (cbs, m)" "Some ?cb \<in> set cbs"
    "env_timer e \<notin> set (m_timers m)" unfolding tms by blast
  have "runnable (fiber_task (Some g) any_thread)" by (simp add: runnable_def fiber_task_def)
  then have "\<exists>s2. run_hook_cb (Some ?cb) (?s1\<lparr>h_iom := (h_iom ?s1)\<lparr>io_timers := m\<rparr>\<rparr>) = Inr s2 \<and>
      m_tasks (h_iom s2) = m_tasks (h_iom s) @ [fiber_task (Some g) any_thread]"
    using assms(3) by (simp add: run_hook_cb_def run_cb_def run_hook_fun_def schedule_iom away_def)
  moreover have "unat ?ms = unat seconds * 1000 mod 2 ^ 32"
  proof -
    have "unat (seconds * 1000) < 2 ^ 64" by (rule order.strict_trans [OF unsigned_less]) simp
    then show ?thesis
      by (simp add: sleep_ms_def unsigned_ucast_eq take_bit_nat_eq_self unat_word_ariths(2))
  qed
  moreover have "m_tasks (h_iom ?s1) = m_tasks (h_iom s)" by (simp add: away_def)
  ultimately show ?thesis using run park m by blast
qed

theorem hooked_sleep_wakes_witness:
  "\<exists>s1 cb m s2. hook_sleep 9 example_env 2 [] example_hooks = Some (Inr (None, s1)) \<and>
     run_hook_cb (Some cb) (s1\<lparr>h_iom := (h_iom s1)\<lparr>io_timers := m\<rparr>\<rparr>) = Inr s2 \<and>
     m_tasks (h_iom s2) = [fiber_task (Some 3) any_thread]"
proof -
  have "t_hook_enable example_hooks 9" by (simp add: example_hooks_def)
  with hooked_sleep_wakes [of example_hooks 9 3 "ThreadStack 9" example_env 99 2 3000 "[]"] example_in_fiber example_iom3_timers
  show ?thesis by (fastforce simp: example_iom3_simps example_env_def sleep_ms_def)
qed

end
