(* ===== verification/EchoServer.thy ===== *)
theory EchoServer
  imports Hooks
begin

text \<open>
  \<^verbatim>\<open>Coroutine/version2/main.cpp\<close>: an echo server on the manager and the hooks, the program
  the library comes with. A function given to the manager is a number: \<open>TEST_ACCEPT\<close>,
  \<open>WATCH_IO_READ\<close>, and \<open>ECHO fd\<close> for the closure over an accepted descriptor. As in \<open>Hooks\<close> a call
  of the C library is known by its result and its \<^verbatim>\<open>errno\<close>; the bytes are not kept.
\<close>

section \<open>The code: accepting\<close>

definition TEST_ACCEPT :: nat where "TEST_ACCEPT = 0"
definition WATCH_IO_READ :: nat where "WATCH_IO_READ = 1"
definition ECHO :: "int \<Rightarrow> nat" where "ECHO fd = nat fd + 2"

text \<open>\<^verbatim>\<open>IOManager::GetThis()->addEvent(fd, IOManager::READ, f)\<close>.\<close>

definition watch_read :: "tid \<Rightarrow> hook_env \<Rightarrow> int \<Rightarrow> nat \<Rightarrow> hooks \<Rightarrow> hooks res" where
  "watch_read t e fd f s =
     bindR (guardR (iom_GetThis t (h_iom s)) NullDeref) (\<lambda>_.
     bindR (addEvent (is_open s) (env_ctx e) t (env_fiber e) fd IO_READ (Some f) (h_iom s)) (\<lambda>(_, m).
     Inr (s\<lparr>h_iom := m\<rparr>)))"

definition watch_io_read :: "tid \<Rightarrow> hook_env \<Rightarrow> int \<Rightarrow> hooks \<Rightarrow> hooks res" where
  "watch_io_read t e sock_listen_fd = watch_read t e sock_listen_fd TEST_ACCEPT"

text \<open>
  \<open>a\<close> and \<open>k\<close> are the address and the file of the descriptor that \<^verbatim>\<open>accept\<close> makes, \<open>rs\<close> its
  results; a task that waits gives what \<^verbatim>\<open>accept\<close> gives.
\<close>

definition test_accept ::
  "tid \<Rightarrow> hook_env \<Rightarrow> nat \<Rightarrow> kfile \<Rightarrow> other_fcntl \<Rightarrow> int \<Rightarrow> nat \<Rightarrow> (int \<times> int) list \<Rightarrow> hooks \<Rightarrow> (io_out \<times> hooks) run" where
  "test_accept t e a k other sock_listen_fd ti rs s =
     bindO (hook_accept t e a k sock_listen_fd ti rs s) (\<lambda>(out, s).
     case out of
       Suspended c \<Rightarrow> Some (Inr (Suspended c, s))
     | Returned fd \<Rightarrow> Some (
         bindR (if fd < 0 then Inr s
                else bindR (hook_fcntl other fd F_SETFL (ucast O_NONBLOCK) s) (\<lambda>(_, s). watch_read t e fd (ECHO fd) s)) (\<lambda>s.
         bindR (guardR (iom_GetThis t (h_iom s)) NullDeref) (\<lambda>_.
         bindR (schedule iom_tickle (cb_task (Some WATCH_IO_READ) any_thread) (h_iom s)) (\<lambda>m.
         Inr (Returned fd, s\<lparr>h_iom := m\<rparr>))))))"

section \<open>The code: echoing\<close>

text \<open>What the rounds of the loop meet: addresses, and the results of \<^verbatim>\<open>recv\<close> and \<^verbatim>\<open>send\<close>.\<close>

record echo_env =
  ee_hook :: "nat \<Rightarrow> hook_env"
  ee_tinfo :: "nat \<Rightarrow> nat"
  ee_recv :: "nat \<Rightarrow> (int \<times> int) list"
  ee_send :: "nat \<Rightarrow> (int \<times> int) list"

datatype echo_out = EchoEnd | EchoWaits io_call

partial_function (option) echo_loop :: "tid \<Rightarrow> echo_env \<Rightarrow> int \<Rightarrow> nat \<Rightarrow> hooks \<Rightarrow> (echo_out \<times> hooks) run" where
  "echo_loop t v fd i s =
     bindO (hooked_io Recv t (ee_hook v i) fd (ee_tinfo v i) (ee_recv v i) s) (\<lambda>(out, s).
     case out of
       Suspended c \<Rightarrow> Some (Inr (EchoWaits c, s))
     | Returned ret \<Rightarrow>
         bindO (if ret > 0 then hooked_io Send t (ee_hook v i) fd (ee_tinfo v i) (ee_send v i) s
                else Some (Inr (Returned ret, s))) (\<lambda>(out, s).
         case out of
           Suspended c \<Rightarrow> Some (Inr (EchoWaits c, s))
         | Returned ret \<Rightarrow>
             if ret \<le> 0 \<and> h_errno s t \<noteq> EAGAIN
             then Some (bindR (hook_close t fd s) (\<lambda>(_, s). Inr (EchoEnd, s)))
             else echo_loop t v fd (Suc i) s))"

section \<open>The code: the start\<close>

text \<open>
  What the calls of \<^verbatim>\<open>test_iomanager\<close> give, and the addresses and descriptors its objects get.
  The program's \<^verbatim>\<open>error\<close> ends the process.
\<close>

record echo_boot =
  eb_socket :: "int \<times> int"
  eb_fdctx :: nat
  eb_file :: kfile
  eb_setsockopt :: int
  eb_bind :: int
  eb_listen :: int
  eb_main :: nat
  eb_root :: nat
  eb_epfd :: int
  eb_pipe :: "(int \<times> int) option"
  eb_ctx :: "nat \<Rightarrow> nat"
  eb_now :: "64 word"

definition SO_REUSEADDR :: int where "SO_REUSEADDR = 2"

text \<open>
  Up to the destructor of the manager, in which this thread runs the tasks. The descriptors of the
  manager are open to the kernel beside those of the table.
\<close>

definition test_iomanager :: "tid \<Rightarrow> hook_env \<Rightarrow> echo_boot \<Rightarrow> other_fcntl \<Rightarrow> hooks \<Rightarrow> (int \<times> hooks) res" where
  "test_iomanager t e b other s =
     bindR (hook_socket t (eb_fdctx b) (eb_socket b) (eb_file b) s) (\<lambda>(fd, s).
     if fd < 0 then Inl ProcessExit
     else bindR (hook_setsockopt t fd SOL_SOCKET SO_REUSEADDR 1 0 (eb_setsockopt b) s) (\<lambda>(_, s).
     if eb_bind b < 0 then Inl ProcessExit
     else if eb_listen b < 0 then Inl ProcessExit
     else bindR (hook_fcntl other fd F_SETFL (ucast O_NONBLOCK) s) (\<lambda>(_, s).
     let valid = (\<lambda>d. is_open s d \<or> (case eb_pipe b of None \<Rightarrow> False | Some p \<Rightarrow> d = fst p)) in
     bindR (iom_init t (eb_main b) (eb_root b) 1 True [] valid (eb_epfd b) (eb_pipe b) (eb_ctx b) [] (eb_now b) (h_iom s)) (\<lambda>m.
     bindR (addEvent valid (env_ctx e) t (env_fiber e) fd IO_READ (Some TEST_ACCEPT) m) (\<lambda>(_, m).
     Inr (fd, s\<lparr>h_iom := m\<rparr>))))))"

section \<open>A socket the caller has made non-blocking\<close>

definition user_nonblocking :: "int \<Rightarrow> hooks \<Rightarrow> bool" where
  "user_nonblocking fd s \<longleftrightarrow> fd_wf s \<and> orig_set s \<and> (\<exists>ctx. fdm_abs s fd = Some ctx \<and> m_userNonblock ctx)"

lemma hooked_io_direct:
  assumes "user_nonblocking fd s"
  shows "hooked_io f t e fd ti rs s = direct t rs s"
proof -
  obtain ctx where ctx: "fd_wf s" "fdm_abs s fd = Some ctx" "m_userNonblock ctx"
    using assms by (auto simp: user_nonblocking_def)
  obtain p where "fdm_find fd s = Inr (Some (p, ctx))" "ctx_typed fd ctx" using ctx(1,2) by (rule abs_slot)
  with ctx(3) show ?thesis by (simp add: hooked_io_def do_io_def ctx_typed_def)
qed

lemma set_errno_table [simp]:
  "fdm_abs (set_errno t x s) = fdm_abs s" "fd_wf (set_errno t x s) = fd_wf s" "is_open (set_errno t x s) = is_open s"
proof -
  have slot: "fdm_slot (set_errno t x s) = fdm_slot s" by (simp add: fdm_slot_def set_errno_def fun_eq_iff)
  show "fdm_abs (set_errno t x s) = fdm_abs s" by (simp add: fdm_abs_def slot fun_eq_iff) (simp add: set_errno_def)
  show "fd_wf (set_errno t x s) = fd_wf s" by (simp add: fd_wf_def slot) (simp add: set_errno_def)
  show "is_open (set_errno t x s) = is_open s" by (simp add: is_open_def fun_eq_iff)
qed

lemma iom_table [simp]:
  "fdm_abs (s\<lparr>h_iom := m\<rparr>) = fdm_abs s" "fd_wf (s\<lparr>h_iom := m\<rparr>) = fd_wf s" "is_open (s\<lparr>h_iom := m\<rparr>) = is_open s"
proof -
  have slot: "fdm_slot (s\<lparr>h_iom := m\<rparr>) = fdm_slot s" by (simp add: fdm_slot_def fun_eq_iff)
  show "fdm_abs (s\<lparr>h_iom := m\<rparr>) = fdm_abs s" by (simp add: fdm_abs_def slot fun_eq_iff)
  show "fd_wf (s\<lparr>h_iom := m\<rparr>) = fd_wf s" by (simp add: fd_wf_def slot)
  show "is_open (s\<lparr>h_iom := m\<rparr>) = is_open s" by (simp add: is_open_def fun_eq_iff)
qed

lemma user_nonblocking_errno [simp]: "user_nonblocking fd (set_errno t x s) = user_nonblocking fd s"
  by (simp add: user_nonblocking_def)

lemma direct_one:
  assumes "orig_set s"
  shows "direct t ((n, x) # rs) s = Some (Inr (Returned n, if n = -1 then set_errno t x s else s))"
  using assms by (simp add: direct_def)

text \<open>The two turns of the loop: something was echoed, or nothing came.\<close>

lemma echo_loop_on:
  assumes "user_nonblocking fd s" and "ee_recv v i = [(n, x)]" and "0 < n" and "ee_send v i = [(k, y)]" and "0 < k"
  shows "echo_loop t v fd i s = echo_loop t v fd (Suc i) s"
  using assms
  by (subst echo_loop.simps)
    (simp add: hooked_io_direct direct_one user_nonblocking_def)

lemma echo_loop_ends:
  assumes "user_nonblocking fd s" and "ee_recv v i = [(0, x)]" and "h_errno s t \<noteq> EAGAIN"
  shows "echo_loop t v fd i s = Some (bindR (hook_close t fd s) (\<lambda>(_, s). Inr (EchoEnd, s)))"
  using assms by (subst echo_loop.simps) (simp add: hooked_io_direct direct_one user_nonblocking_def)

definition echoes :: "echo_env \<Rightarrow> nat \<Rightarrow> nat \<Rightarrow> bool" where
  "echoes v i m \<longleftrightarrow> (\<forall>j < m. \<exists>n x k y. ee_recv v (i + j) = [(n, x)] \<and> 0 < n \<and> ee_send v (i + j) = [(k, y)] \<and> 0 < k)"

lemma echo_loop_echoes:
  assumes "user_nonblocking fd s" and "echoes v i m"
  shows "echo_loop t v fd i s = echo_loop t v fd (i + m) s"
  using assms(2)
proof (induction m)
  case (Suc m)
  then obtain n x k y where "ee_recv v (i + m) = [(n, x)]" "0 < n" "ee_send v (i + m) = [(k, y)]" "0 < k"
    by (auto simp: echoes_def)
  with Suc echo_loop_on [OF assms(1), of v "i + m"] show ?case by (simp add: echoes_def)
qed simp

text \<open>Nobody sends any more: the client is silent, or gone; \<^verbatim>\<open>errno\<close> is that of a silent one.\<close>

definition nothing_comes :: "tid \<Rightarrow> echo_env \<Rightarrow> nat \<Rightarrow> hooks \<Rightarrow> bool" where
  "nothing_comes t v i s \<longleftrightarrow> (\<forall>j \<ge> i. ee_recv v j = [(-1, EAGAIN)] \<or> (\<exists>x. ee_recv v j = [(0, x)])) \<and>
     (h_errno s t = EAGAIN \<or> ee_recv v i = [(-1, EAGAIN)])"

lemma nothing_comes_next:
  assumes "nothing_comes t v i s"
  obtains n x where "ee_recv v i = [(n, x)]" "\<not> 0 < n" "h_errno (if n = -1 then set_errno t x s else s) t = EAGAIN"
    "nothing_comes t v (Suc i) (if n = -1 then set_errno t x s else s)"
proof -
  have "ee_recv v i = [(-1, EAGAIN)] \<or> (\<exists>x. ee_recv v i = [(0, x)] \<and> h_errno s t = EAGAIN)"
    using assms by (auto simp: nothing_comes_def)
  then show ?thesis
  proof
    assume "ee_recv v i = [(-1, EAGAIN)]"
    then show ?thesis using assms by (intro that [of "-1" EAGAIN]) (auto simp: nothing_comes_def)
  next
    assume "\<exists>x. ee_recv v i = [(0, x)] \<and> h_errno s t = EAGAIN"
    then obtain x where "ee_recv v i = [(0, x)]" "h_errno s t = EAGAIN" by blast
    then show ?thesis using assms by (intro that [of 0 x]) (auto simp: nothing_comes_def)
  qed
qed

lemma echo_loop_spins:
  assumes "user_nonblocking fd s" and "nothing_comes t v i s"
  shows "echo_loop t v fd i s = None"
proof (cases "echo_loop t v fd i s")
  case (Some r)
  have "\<not> (user_nonblocking fd s \<and> nothing_comes t v i s)"
  proof (rule echo_loop.raw_induct [where P = "\<lambda>t v fd i s r. \<not> (user_nonblocking fd s \<and> nothing_comes t v i s)", OF _ Some],
      rule notI, elim conjE)
    fix f :: "tid \<Rightarrow> echo_env \<Rightarrow> int \<Rightarrow> nat \<Rightarrow> hooks \<Rightarrow> (echo_out \<times> hooks) run"
    fix t v fd i s r
    assume IH: "\<And>t v fd i s r. f t v fd i s = Some r \<Longrightarrow> \<not> (user_nonblocking fd s \<and> nothing_comes t v i s)"
      and u: "user_nonblocking fd s" and n: "nothing_comes t v i s"
    assume eq: "bindO (hooked_io Recv t (ee_hook v i) fd (ee_tinfo v i) (ee_recv v i) s) (\<lambda>(out, s).
     case out of
       Suspended c \<Rightarrow> Some (Inr (EchoWaits c, s))
     | Returned ret \<Rightarrow>
         bindO (if ret > 0 then hooked_io Send t (ee_hook v i) fd (ee_tinfo v i) (ee_send v i) s
                else Some (Inr (Returned ret, s))) (\<lambda>(out, s).
         case out of
           Suspended c \<Rightarrow> Some (Inr (EchoWaits c, s))
         | Returned ret \<Rightarrow>
             if ret \<le> 0 \<and> h_errno s t \<noteq> EAGAIN
             then Some (bindR (hook_close t fd s) (\<lambda>(_, s). Inr (EchoEnd, s)))
             else f t v fd (Suc i) s)) = Some r"
    from n obtain m x where m: "ee_recv v i = [(m, x)]" "\<not> 0 < m"
      "h_errno (if m = -1 then set_errno t x s else s) t = EAGAIN"
      "nothing_comes t v (Suc i) (if m = -1 then set_errno t x s else s)" by (rule nothing_comes_next)
    let ?s = "if m = -1 then set_errno t x s else s"
    have "orig_set s" using u by (simp add: user_nonblocking_def)
    from direct_one [OF this] have "hooked_io Recv t (ee_hook v i) fd (ee_tinfo v i) (ee_recv v i) s = Some (Inr (Returned m, ?s))"
      by (simp add: hooked_io_direct [OF u] m(1))
    with eq m(2,3) have "f t v fd (Suc i) ?s = Some r" by (simp only: bindO_simps prod.case io_out.case if_False) simp
    from IH [OF this] m(4) u show False by (simp split: if_splits)
  qed
  with assms show ?thesis by blast
qed simp

section \<open>Accepting a client\<close>

lemma fdm_get_new:
  assumes "fd_wf s" and "orig_set s" and "0 \<le> fd" and "fdm_abs s fd = None"
  shows "\<exists>s'. fdm_get a fd True s = Inr (Some a, s') \<and> entered a fd s s'"
proof -
  have "fdm_slot s fd = None" using assms(1,4) abs_None by blast
  with fdm_create_entered [OF assms(1-3), of a] assms(3) show ?thesis by (auto simp: fdm_get_def fdm_look_eq)
qed

lemma accept_new:
  assumes "user_nonblocking lfd s" and "0 \<le> fd" and "fdm_abs s fd = None" and "fdctxs s a = None" and "k_socket k"
  shows "\<exists>s' c k'. hook_accept t e a k lfd ti [(fd, x)] s = Some (Inr (Returned fd, s')) \<and> known_socket fd c k' s' \<and>
    h_iom s' = h_iom s"
proof -
  let ?s = "s\<lparr>kfiles := (kfiles s)(fd \<mapsto> k)\<rparr>"
  have wf: "fd_wf ?s" "orig_set ?s" "fdm_abs ?s fd = None" using assms(1,3) by (simp_all add: user_nonblocking_def)
  obtain s' where s': "fdm_get a fd True ?s = Inr (Some a, s')" "entered a fd ?s s'"
    using fdm_get_new [OF wf(1,2) assms(2) wf(3)] by blast
  have "fdctxs ?s a = None" using assms(4) by simp
  note abs = entered_abs [OF s'(2) wf(1) this]
  have "known_socket fd (new_ctx fd (Some k)) (k\<lparr>k_flags := k_flags k OR O_NONBLOCK\<rparr>) s'"
    using abs s'(2) wf(2) assms(5) by (simp add: known_socket_def new_ctx_def entered_def made_nonblocking_def)
  moreover have "h_iom s' = h_iom s" using s'(2) by (cases s, cases s') (simp add: entered_def)
  moreover have "hook_accept t e a k lfd ti [(fd, x)] s = Some (Inr (Returned fd, s'))"
    using assms(1,2) s'(1) direct_one [of s t fd x "[]"]
    by (simp add: hook_accept_def hooked_io_direct accept_rest_def user_nonblocking_def)
  ultimately show ?thesis by blast
qed

lemma orig_setfl_iom: "orig_setfl fd arg s = Inr (r, s') \<Longrightarrow> h_iom s' = h_iom s"
  by (auto simp: orig_setfl_def orig_def res_simps split: option.splits)

lemma upd_ctx_iom: "h_iom (upd_ctx p f s) = h_iom s"
  by (simp add: upd_ctx_def)

lemma setfl_keeps_iom:
  assumes "hook_fcntl other fd F_SETFL va s = Inr (r, s')"
  shows "h_iom s' = h_iom s"
proof (cases "fdm_find fd s")
  case (Inr found)
  have "\<exists>arg u. orig_setfl fd arg u = Inr (r, s') \<and> h_iom u = h_iom s"
  proof (cases found)
    case None
    with assms Inr show ?thesis by (auto simp: hook_fcntl_def Let_def)
  next
    case (Some pc)
    obtain p c where "pc = (p, c)" by (cases pc)
    with assms Inr Some have "\<exists>arg. orig_setfl fd arg s = Inr (r, s') \<or>
        (\<exists>f. orig_setfl fd arg (upd_ctx p f s) = Inr (r, s'))"
      by (cases "m_isClosed c \<or> \<not> m_isSocket c") (auto simp: hook_fcntl_def Let_def)
    then show ?thesis using upd_ctx_iom by blast
  qed
  with orig_setfl_iom show ?thesis by metis
qed (use assms in \<open>simp add: hook_fcntl_def Let_def\<close>)

text \<open>The manager can take a reader of descriptor \<open>i\<close>.\<close>

definition room_for :: "tid \<Rightarrow> nat \<Rightarrow> nat \<Rightarrow> fd_context \<Rightarrow> iomanager \<Rightarrow> bool" where
  "room_for t i p c m \<longleftrightarrow> io_inv m \<and> i < length (m_fdContexts m) \<and> entry_ok m i p c \<and> \<not> reads c \<and>
     int i \<noteq> epfd (ep m) \<and> int i \<noteq> fst (m_tickleFds m) \<and> iom_GetThis t m \<and> \<not> s_locked m"

lemma watch_read_ok:
  assumes "room_for t i p c (h_iom s)" and "is_open s (int i)"
  shows "watch_read t e (int i) f s = Inr (s\<lparr>h_iom := event_added IO_READ (cb_context f) i p c (h_iom s)\<rparr>)"
proof -
  have m: "io_inv (h_iom s)" "i < length (m_fdContexts (h_iom s))" "entry_ok (h_iom s) i p c"
    "\<not> has_event (fc_events c) IO_READ" "int i \<noteq> epfd (ep (h_iom s))" "int i \<noteq> fst (m_tickleFds (h_iom s))"
    "iom_GetThis t (h_iom s)" "scheduler_GetThis t (h_iom s)"
    using assms(1) by (simp_all add: room_for_def reads_def iom_GetThis_def scheduler_GetThis_def)
  from addEvent_ok(2) [where valid = "is_open s", OF m(1-3) _ m(4) assms(2) m(5,6,8)] m(7)
  show ?thesis by (simp add: watch_read_def)
qed

lemma schedule_cb:
  assumes "\<not> s_locked m"
  shows "schedule iom_tickle (cb_task (Some f) any_thread) m = Inr (m\<lparr>m_tasks := m_tasks m @ [cb_task (Some f) any_thread],
    pipe_bytes := pipe_bytes m + (if m_tasks m = [] \<and> hasIdleThreads m then 1 else 0)\<rparr>)"
  using schedule_iom [OF _ assms] by (simp add: runnable_def cb_task_def)

section \<open>Properties\<close>

text \<open>
  C39. A client is accepted: its descriptor is known, open and non-blocking for its user, the manager
  waits for it with the echo function, the invariant of the manager is kept, and the task that
  watches for the next client is at the end of the queue.
\<close>

theorem echo_accept_watches:
  assumes "user_nonblocking lfd s" and "fdm_abs s (int i) = None" and "fdctxs s a = None" and "k_socket k"
    and room: "room_for t i p c (h_iom s)"
  shows "\<exists>s'. test_accept t e a k other lfd ti [(int i, x)] s = Some (Inr (Returned (int i), s')) \<and>
    user_nonblocking (int i) s' \<and> is_open s' (int i) \<and> io_inv (h_iom s') \<and>
    reads (ctx_at (h_iom s') i) \<and> fc_read (ctx_at (h_iom s') i) = cb_context (ECHO (int i)) \<and>
    m_tasks (h_iom s') = m_tasks (h_iom s) @ [cb_task (Some WATCH_IO_READ) any_thread]"
proof -
  obtain s1 c1 k1 where s1: "hook_accept t e a k lfd ti [(int i, x)] s = Some (Inr (Returned (int i), s1))"
    "known_socket (int i) c1 k1 s1" "h_iom s1 = h_iom s"
    using accept_new [OF assms(1) _ assms(2-4), of t e ti x] by auto
  obtain s2 k2 where s2: "hook_fcntl other (int i) F_SETFL (ucast O_NONBLOCK) s1 = Inr (0, s2)"
    "known_socket (int i) (c1\<lparr>m_userNonblock := nonblocking (ucast (ucast O_NONBLOCK :: 64 word))\<rparr>) k2 s2"
    using hook_setfl [OF s1(2), where other = other and va = "ucast O_NONBLOCK"] by blast
  have nb: "nonblocking (ucast (ucast O_NONBLOCK :: 64 word))" by (simp add: nonblocking_def O_NONBLOCK_def)
  have iom: "h_iom s2 = h_iom s" using setfl_keeps_iom [OF s2(1)] s1(3) by simp
  have open2: "is_open s2 (int i)" using s2(2) by (simp add: known_socket_def is_open_def)
  define m where "m = event_added IO_READ (cb_context (ECHO (int i))) i p c (h_iom s)"
  have room2: "room_for t i p c (h_iom s2)" using room iom by simp
  from watch_read_ok [OF this open2, of e] have w: "watch_read t e (int i) (ECHO (int i)) s2 = Inr (s2\<lparr>h_iom := m\<rparr>)"
    by (simp add: m_def iom)
  have r: "io_inv (h_iom s)" "i < length (m_fdContexts (h_iom s))" "entry_ok (h_iom s) i p c"
    "int i \<noteq> fst (m_tickleFds (h_iom s))" "\<not> has_event (fc_events c) IO_READ"
    using room by (simp_all add: room_for_def reads_def)
  have m: "io_inv m" "entry_ok m i p (with_event IO_READ (cb_context (ECHO (int i))) c)"
    using event_added_inv [OF r(1-4) _ r(5), of "cb_context (ECHO (int i))"] by (simp_all add: m_def)
  have free: "iom_GetThis t m" "\<not> s_locked m" "m_tasks m = m_tasks (h_iom s)"
    using room by (simp_all add: room_for_def m_def event_added_def iom_GetThis_def scheduler_GetThis_def)
  let ?m = "m\<lparr>m_tasks := m_tasks m @ [cb_task (Some WATCH_IO_READ) any_thread],
    pipe_bytes := pipe_bytes m + (if m_tasks m = [] \<and> hasIdleThreads m then 1 else 0)\<rparr>"
  have same: "same_table m ?m" by (simp add: same_table_def)
  have "test_accept t e a k other lfd ti [(int i, x)] s = Some (Inr (Returned (int i), s2\<lparr>h_iom := ?m\<rparr>))"
    using s1(1) s2(1) w free by (simp add: test_accept_def schedule_cb)
  moreover have "user_nonblocking (int i) (s2\<lparr>h_iom := ?m\<rparr>)"
    using s2(2) nb by (simp add: user_nonblocking_def known_socket_def)
  moreover have "ctx_at ?m i = with_event IO_READ (cb_context (ECHO (int i))) c"
    using same_table_entry [OF same] m(2) entry_ctx by blast
  then have "reads (ctx_at ?m i)" "fc_read (ctx_at ?m i) = cb_context (ECHO (int i))"
    by (simp_all add: with_event_def putContext_def reads_def has_event_or io_masks)
  ultimately show ?thesis
    using open2 same_table_inv [OF same] m(1) free(3) by (intro exI [of _ "s2\<lparr>h_iom := ?m\<rparr>"]) simp
qed

text \<open>
  As long as something comes and goes in every round, the echo goes on; when the client closes
  before it has been silent, the descriptor is closed and forgotten, and the manager's invariant is
  kept.
\<close>

theorem echo_echoes_and_closes:
  assumes "user_nonblocking (int i) s" and "is_open s (int i)" and "t_hook_enable s t" and "io_inv (h_iom s)"
    and "i < length (m_fdContexts (h_iom s))" and "int i \<noteq> epfd (ep (h_iom s))"
    and "int i \<noteq> fst (m_tickleFds (h_iom s))" and "iom_GetThis t (h_iom s)" and "\<not> s_locked (h_iom s)"
    and "echoes v 0 m" and "ee_recv v m = [(0, x)]" and "h_errno s t \<noteq> EAGAIN"
  shows "\<exists>s'. echo_loop t v (int i) 0 s = Some (Inr (EchoEnd, s')) \<and> \<not> is_open s' (int i) \<and>
    fdm_abs s' = (fdm_abs s)(int i := None) \<and> io_inv (h_iom s')"
proof -
  obtain ctx where s: "fd_wf s" "fdm_abs s (int i) = Some ctx" "orig_set s" using assms(1) by (auto simp: user_nonblocking_def)
  obtain p c where e: "entry_ok (h_iom s) i p c" using assms(4,5) by (rule io_invE)
  obtain b n where n: "cancelAll (is_open s) (int i) (h_iom s) = Inr (b, n)" "io_inv n" "forgotten (int i) n = n"
    by (rule cancelAll_wakes [where valid = "is_open s", OF assms(4,5) e assms(7,2,6,9)])
  obtain ds where ds: "hook_close t (int i) s = Inr (0, s\<lparr>h_iom := n, m_datas := ds, kfiles := (kfiles s)(int i := None)\<rparr>)"
    "\<And>m ks. fdm_abs (s\<lparr>h_iom := m, m_datas := ds, kfiles := ks\<rparr>) = (fdm_abs s)(int i := None)"
    using close_found [OF s(1) assms(3) s(2,3) assms(2), folded forgotten_def] assms(8) n(1,3) by auto
  have "echo_loop t v (int i) 0 s = echo_loop t v (int i) m s" using echo_loop_echoes [OF assms(1,10)] by simp
  also have "\<dots> = Some (Inr (EchoEnd, s\<lparr>h_iom := n, m_datas := ds, kfiles := (kfiles s)(int i := None)\<rparr>))"
    using echo_loop_ends [of "int i" s v m x t, OF assms(1,11,12)] ds(1) by simp
  finally show ?thesis using ds(2) n(2) by (simp add: is_open_def)
qed

text \<open>
  C38. Once the client has been silent for a moment, the loop holds its thread until something comes:
  the descriptor is non-blocking for its user, so \<^verbatim>\<open>recv\<close> never lets the fiber wait. If
  nothing comes any more it never ends, not even when the client closes: \<^verbatim>\<open>recv\<close> gives 0
  and leaves \<^verbatim>\<open>errno\<close> at \<^verbatim>\<open>EAGAIN\<close>, and the descriptor is never closed.
\<close>

theorem echo_gone_client_spins:
  assumes "user_nonblocking fd s" and "echoes v 0 m" and "ee_recv v m = [(-1, EAGAIN)]"
    and "\<forall>j > m. ee_recv v j = [(-1, EAGAIN)] \<or> ee_recv v j = [(0, 0)]"
  shows "echo_loop t v fd 0 s = None"
proof -
  have "nothing_comes t v m s"
    using assms(3,4) unfolding nothing_comes_def by (metis le_neq_implies_less)
  with echo_loop_spins [OF assms(1)] echo_loop_echoes [OF assms(1,2)] show ?thesis by simp
qed

text \<open>
  Nothing in the repository calls \<^verbatim>\<open>hook_init\<close>: the program ends at its first call, the
  hooked \<^verbatim>\<open>socket\<close>.
\<close>

theorem echo_needs_init:
  assumes "\<not> orig_set s"
  shows "test_iomanager t e b other s = Inl NullDeref"
  using assms by (simp add: test_iomanager_def hook_socket_def)

section \<open>Instances\<close>

text \<open>Socket 7 of thread 9, made non-blocking by its user.\<close>

definition example_echo :: hooks where
  "example_echo = upd_ctx 50 (\<lambda>c. c\<lparr>m_userNonblock := True\<rparr>) example_hooks"

lemma example_echo_facts:
  "user_nonblocking 7 example_echo" "fdm_abs example_echo = [7 \<mapsto> example_ctx\<lparr>m_userNonblock := True\<rparr>]"
  "h_iom example_echo = example_iom3" "fdctxs example_echo 60 = None" "is_open example_echo 7"
  "t_hook_enable example_echo t" "h_errno example_echo t = 0"
proof -
  have slot: "fdm_slot example_hooks 7 = Some 50" by (simp add: example_slot)
  have abs: "fdm_abs example_hooks 7 = Some example_ctx" by (simp add: example_abs)
  note upd = set_user_nonblock [OF example_wf slot abs, of True]
  show "user_nonblocking 7 example_echo" "fdm_abs example_echo = [7 \<mapsto> example_ctx\<lparr>m_userNonblock := True\<rparr>]"
    using upd by (simp_all add: user_nonblocking_def example_echo_def example_abs) (simp add: example_hooks_def)
qed (simp_all add: example_echo_def upd_ctx_def example_hooks_def is_open_def)

lemma example_room: "i < 32 \<Longrightarrow> i \<noteq> 4 \<Longrightarrow> i \<noteq> 5 \<Longrightarrow> room_for 9 i (i + 100) (new_fd_context (int i)) example_iom3"
  using same_table_inv [OF example_same] same_table_entry [OF example_same] example_iom_inv example_entry [of i]
  by (simp add: room_for_def example_iom3_simps example_iom_simps new_events reads_def)

text \<open>The instance of a client with descriptor 8.\<close>

theorem echo_accept_watches_witness:
  "\<exists>s'. test_accept 9 example_env 60 example_file (\<lambda>_ _ _ ks. (0, ks)) 7 61 [(8, 0)] example_echo =
     Some (Inr (Returned 8, s')) \<and> reads (ctx_at (h_iom s') 8) \<and> m_tasks (h_iom s') = [cb_task (Some 1) any_thread]"
proof -
  have new: "fdm_abs example_echo (int 8) = None" "k_socket example_file"
    by (simp_all add: example_echo_facts example_file_def)
  have "room_for 9 8 108 (new_fd_context 8) (h_iom example_echo)"
    using example_room [of 8] by (simp add: example_echo_facts)
  from echo_accept_watches [OF example_echo_facts(1) new(1) example_echo_facts(4) new(2) this,
      of example_env "\<lambda>_ _ _ ks. (0, ks)" 61 0]
  show ?thesis by (auto simp: example_echo_facts example_iom3_simps WATCH_IO_READ_def)
qed

text \<open>The instance of one line echoed and the end.\<close>

theorem echo_echoes_and_closes_witness:
  "\<exists>s'. echo_loop 9 \<lparr>ee_hook = (\<lambda>_. example_env), ee_tinfo = (\<lambda>i. i + 70),
       ee_recv = (\<lambda>i. if i = 0 then [(5, 0)] else [(0, 0)]), ee_send = (\<lambda>_. [(5, 0)])\<rparr> 7 0 example_echo =
     Some (Inr (EchoEnd, s')) \<and> fdm_abs s' 7 = None"
proof -
  let ?v = "\<lparr>ee_hook = (\<lambda>_. example_env), ee_tinfo = (\<lambda>i. i + 70),
       ee_recv = (\<lambda>i. if i = 0 then [(5, 0)] else [(0, 0)]), ee_send = (\<lambda>_. [(5, 0)])\<rparr>"
  have v: "echoes ?v 0 1" "ee_recv ?v 1 = [(0, 0)]" by (simp_all add: echoes_def)
  have "room_for 9 7 107 (new_fd_context 7) example_iom3" using example_room [of 7] by simp
  with echo_echoes_and_closes [of 7 example_echo 9 ?v 1 0, OF _ _ _ _ _ _ _ _ _ v] example_echo_facts
  show ?thesis by (auto simp: room_for_def EAGAIN_def)
qed

text \<open>The instance of a client that says something, pauses and closes.\<close>

theorem echo_gone_client_spins_witness:
  "echo_loop 9 \<lparr>ee_hook = (\<lambda>_. example_env), ee_tinfo = (\<lambda>i. i + 70),
     ee_recv = (\<lambda>i. if i = 0 then [(5, 0)] else if i = 1 then [(-1, EAGAIN)] else [(0, 0)]),
     ee_send = (\<lambda>_. [(5, 0)])\<rparr> 7 0 example_echo = None"
  by (rule echo_gone_client_spins [where m = 1]) (simp_all add: example_echo_facts echoes_def)

text \<open>The instance of a process that has just begun.\<close>

theorem echo_needs_init_witness:
  "test_iomanager 9 example_env \<lparr>eb_socket = (7, 0), eb_fdctx = 50, eb_file = example_file, eb_setsockopt = 0,
     eb_bind = 0, eb_listen = 0, eb_main = 1, eb_root = 2, eb_epfd = 4, eb_pipe = Some (5, 6), eb_ctx = (\<lambda>i. i + 100),
     eb_now = 1000\<rparr> (\<lambda>_ _ _ ks. (0, ks)) (example_hooks\<lparr>orig_set := False\<rparr>) = Inl NullDeref"
  by (rule echo_needs_init) (simp add: example_hooks_def)

end
