(* ===== verification/StdMap.thy ===== *)
theory StdMap
  imports Prelude "HOL-Library.Char_ord" "HOL-Library.List_Lexorder"
begin

text \<open>
  \<^verbatim>\<open>std::map\<close> as the C++ sources use it: \<^verbatim>\<open>insert\<close> leaves an existing entry alone, and
  iteration goes up the keys. A map is the list of its entries in order; strings are ordered
  byte by byte, as \<^verbatim>\<open>std::string\<close> compares them. What the users of a map rely on is the
  locale \<open>dictionary\<close>.
\<close>

section \<open>The contract\<close>

locale dictionary =
  fixes dinv :: "'m \<Rightarrow> bool"
    and look :: "'m \<Rightarrow> 'k \<Rightarrow> 'v option"
    and none :: 'm
    and add :: "'k \<Rightarrow> 'v \<Rightarrow> 'm \<Rightarrow> 'm"
  assumes none_law: "dinv none \<and> look none = Map.empty"
    and add_law: "dinv m \<Longrightarrow> dinv (add k v m) \<and>
      look (add k v m) = (if look m k = None then (look m)(k \<mapsto> v) else look m)"
begin

text \<open>After any sequence of insertions a key has the value it was given first.\<close>

lemma add_all:
  "dinv m \<Longrightarrow> dinv (fold (\<lambda>(k, v). add k v) kvs m) \<and>
     look (fold (\<lambda>(k, v). add k v) kvs m) = map_of kvs ++ look m"
proof (induction kvs arbitrary: m)
  case (Cons kv kvs)
  obtain k v where kv: "kv = (k, v)" by fastforce
  have "map_of kvs ++ (if look m k = None then (look m)(k \<mapsto> v) else look m) = map_of (kv # kvs) ++ look m"
    by (rule ext) (auto simp: kv map_add_def split: option.split)
  with Cons.IH [of "add k v m"] add_law [OF Cons.prems] show ?case by (simp only: kv fold.simps comp_apply prod.case)
qed simp

lemma first_wins: "look (fold (\<lambda>(k, v). add k v) kvs none) = map_of kvs"
  using add_all [of none kvs] none_law by simp

end

section \<open>Lists in key order\<close>

fun map_insert :: "'k::linorder \<Rightarrow> 'v \<Rightarrow> ('k \<times> 'v) list \<Rightarrow> ('k \<times> 'v) list" where
  "map_insert k v [] = [(k, v)]"
| "map_insert k v ((a, b) # m) =
     (if k < a then (k, v) # (a, b) # m
      else if k = a then (a, b) # m
      else (a, b) # map_insert k v m)"

abbreviation keys_sorted :: "('k::linorder \<times> 'v) list \<Rightarrow> bool" where
  "keys_sorted m \<equiv> sorted_wrt (<) (map fst m)"

lemma set_map_insert: "fst ` set (map_insert k v m) = insert k (fst ` set m)"
proof (induction m)
  case (Cons ab m)
  then show ?case by (cases ab) (simp add: insert_commute)
qed simp

lemma map_of_above:
  fixes k :: "'k::linorder"
  assumes "\<And>a b. (a, b) \<in> set m \<Longrightarrow> k < a"
  shows "map_of m k = None"
proof (cases "map_of m k")
  case (Some b)
  then have "(k, b) \<in> set m" by (rule map_of_SomeD)
  with assms have "k < k" by blast
  then show ?thesis by simp
qed

lemma map_insert_sorted: "keys_sorted m \<Longrightarrow> keys_sorted (map_insert k v m)"
proof (induction m)
  case (Cons ab m)
  obtain a b where ab: "ab = (a, b)" by fastforce
  have "x = k \<or> x \<in> fst ` set m" if "(x, y) \<in> set (map_insert k v m)" for x y
    using set_map_insert [of k v m] that by (metis fst_conv image_eqI insert_iff)
  with Cons show ?case by (fastforce simp: ab)
qed simp

lemma map_of_insert:
  "keys_sorted m \<Longrightarrow> map_of (map_insert k v m) = (if map_of m k = None then (map_of m)(k \<mapsto> v) else map_of m)"
proof (induction m)
  case (Cons ab m)
  obtain a b where ab: "ab = (a, b)" by fastforce
  show ?case
  proof (cases "k < a")
    case True
    then have "map_of m k = None" using Cons.prems by (intro map_of_above) (fastforce simp: ab)
    with True show ?thesis by (auto simp: ab fun_eq_iff)
  next
    case False
    with Cons show ?thesis by (auto simp: ab fun_upd_twist)
  qed
qed simp

interpretation stdmap: dictionary keys_sorted map_of "[]" map_insert
  by unfold_locales (simp_all add: map_insert_sorted map_of_insert)

lemma keys_sorted_unique: "keys_sorted m \<Longrightarrow> keys_sorted m' \<Longrightarrow> map_of m = map_of m' \<Longrightarrow> m = m'"
proof -
  assume a: "keys_sorted m" "keys_sorted m'" "map_of m = map_of m'"
  have d: "distinct (map fst m)" "distinct (map fst m')"
    using a(1,2) by (simp_all add: strict_sorted_iff)
  have s: "set m = set m'" using map_of_inject_set [OF d] a(3) by simp
  have "map fst m = map fst m'"
    using a(1,2) s by (intro strict_sorted_equal) (metis list.set_map)+
  moreover have "inj_on fst (set m \<union> set m')" using d(1) s by (simp add: distinct_map)
  ultimately show "m = m'" using map_inj_on [of fst m m'] by blast
qed

end
