(* ===== verification/CppBuffer.thy ===== *)
theory CppBuffer
  imports SendBody
begin

text \<open>
  \<^verbatim>\<open>ReactorHTTP-CPP/Buffer.cpp\<close>, the C++ rewrite of the byte buffer. Its operations are
  modelled on their own state and shown to be those of the C buffer through the bijection \<open>as_c\<close>,
  so that the contract \<open>byte_queue\<close> and the lemmas on room carry over. The second half is what the
  HTTP code of the rewrite does with a buffer: it sends after every append, so a buffer, the
  answers of \<^verbatim>\<open>send\<close> and the bytes sent go together in a \<open>conn_out\<close>.
\<close>

section \<open>The code\<close>

record cpp_buffer =
  m_capacity :: int
  m_data :: string
  m_readPos :: int
  m_writePos :: int

text \<open>The flag is the outcome of the \<^verbatim>\<open>malloc\<close>, which is not checked.\<close>

definition newBuffer :: "bool \<Rightarrow> int \<Rightarrow> cpp_buffer res" where
  "newBuffer ok sz =
     (if \<not> ok \<or> sz < 0 then Inl NullDeref
      else Inr \<lparr>m_capacity = sz, m_data = replicate (nat sz) NUL, m_readPos = 0, m_writePos = 0\<rparr>)"

definition writeableSize :: "cpp_buffer \<Rightarrow> int" where
  "writeableSize b = m_capacity b - m_writePos b"

definition readableSize :: "cpp_buffer \<Rightarrow> int" where
  "readableSize b = m_writePos b - m_readPos b"

definition extendRoom :: "(int \<Rightarrow> bool) \<Rightarrow> cpp_buffer \<Rightarrow> int \<Rightarrow> cpp_buffer res" where
  "extendRoom mem b sz =
     (if writeableSize b \<ge> sz then Inr b
      else if m_readPos b + writeableSize b \<ge> sz then
        (let readable = readableSize b in
         bindR (memcpy_within (m_data b) 0 (m_readPos b) readable) (\<lambda>d.
         Inr (b\<lparr>m_data := d, m_readPos := 0, m_writePos := readable\<rparr>)))
      else
        bindR (add_i32 (m_capacity b) sz) (\<lambda>cap.
        if \<not> mem cap then Inr b
        else Inr (b\<lparr>m_data := m_data b @ replicate (nat sz) NUL, m_capacity := cap\<rparr>)))"

text \<open>The three overloads of \<^verbatim>\<open>appendString\<close>: with a size, a C string, a \<^verbatim>\<open>std::string\<close>.\<close>

definition appendString_n ::
  "(int \<Rightarrow> bool) \<Rightarrow> cpp_buffer \<Rightarrow> string option \<Rightarrow> int \<Rightarrow> (int \<times> cpp_buffer) res" where
  "appendString_n mem b src sz =
     (case src of
        None \<Rightarrow> Inr (-1, b)
      | Some s \<Rightarrow>
          if sz \<le> 0 then Inr (-1, b)
          else
            bindR (extendRoom mem b sz) (\<lambda>b.
            bindR (memcpy_at (m_data b) (m_writePos b) s sz) (\<lambda>d.
            bindR (add_i32 (m_writePos b) sz) (\<lambda>w.
            Inr (0, b\<lparr>m_data := d, m_writePos := w\<rparr>)))))"

definition appendString_c :: "(int \<Rightarrow> bool) \<Rightarrow> cpp_buffer \<Rightarrow> string \<Rightarrow> (int \<times> cpp_buffer) res" where
  "appendString_c mem b src = appendString_n mem b (Some src) (int (strlen src))"

definition appendString_s :: "(int \<Rightarrow> bool) \<Rightarrow> cpp_buffer \<Rightarrow> string \<Rightarrow> (int \<times> cpp_buffer) res" where
  "appendString_s mem b src = appendString_c mem b (src @ [NUL])"

definition socketRead :: "(int \<Rightarrow> bool) \<Rightarrow> cpp_buffer \<Rightarrow> string option \<Rightarrow> (int \<times> cpp_buffer) res" where
  "socketRead mem b avail =
     (let writeable = writeableSize b in
      case avail of
        None \<Rightarrow> Inr (-1, b)
      | Some s \<Rightarrow>
          (let got = take (nat (writeable + 40960)) s; result = int (length got);
               seg0 = take (nat writeable) got; tmpbuf = drop (nat writeable) got in
           bindR (memcpy_at (m_data b) (m_writePos b) seg0 (int (length seg0))) (\<lambda>d.
           let b = b\<lparr>m_data := d\<rparr> in
           if result \<le> writeable then Inr (result, b\<lparr>m_writePos := m_writePos b + result\<rparr>)
           else
             bindR (appendString_n mem (b\<lparr>m_writePos := m_capacity b\<rparr>) (Some tmpbuf) (result - writeable))
               (\<lambda>(_, b). Inr (result, b)))))"

text \<open>The unread bytes; \<open>data\<close> and \<open>findCRLF\<close> return offsets into the block.\<close>

definition unread :: "cpp_buffer \<Rightarrow> string" where
  "unread b = take (nat (readableSize b)) (drop (nat (m_readPos b)) (m_data b))"

definition data :: "cpp_buffer \<Rightarrow> int" where
  "data b = m_readPos b"

definition findCRLF :: "cpp_buffer \<Rightarrow> int option" where
  "findCRLF b = map_option (\<lambda>i. m_readPos b + int i) (memmem (unread b) crlf)"

definition sendData :: "cpp_buffer \<Rightarrow> send_outcome \<Rightarrow> int \<times> cpp_buffer \<times> string" where
  "sendData b outcome =
     (let readable = readableSize b in
      if readable > 0 then
        (let count = (case outcome of SendErr \<Rightarrow> -1 | SendOk n \<Rightarrow> min (int n) readable) in
         if count > 0
         then (count, b\<lparr>m_readPos := m_readPos b + count\<rparr>, take (nat count) (unread b))
         else (count, b, []))
      else (0, b, []))"

definition readPosIncrease :: "cpp_buffer \<Rightarrow> int \<Rightarrow> cpp_buffer" where
  "readPosIncrease b count = b\<lparr>m_readPos := m_readPos b + count\<rparr>"

section \<open>The C buffer it is\<close>

definition as_c :: "cpp_buffer \<Rightarrow> buffer" where
  "as_c b = \<lparr>buf_data = m_data b, capacity = m_capacity b, readPos = m_readPos b, writePos = m_writePos b\<rparr>"

definition of_c :: "buffer \<Rightarrow> cpp_buffer" where
  "of_c b = \<lparr>m_capacity = capacity b, m_data = buf_data b, m_readPos = readPos b, m_writePos = writePos b\<rparr>"

lemma of_c_as_c [simp]: "of_c (as_c b) = b" "as_c (of_c c) = c"
  by (simp_all add: as_c_def of_c_def)

lemma as_c_simps [simp]:
  "buf_data (as_c b) = m_data b" "capacity (as_c b) = m_capacity b"
  "readPos (as_c b) = m_readPos b" "writePos (as_c b) = m_writePos b"
  by (simp_all add: as_c_def)

lemma sizes_as_c:
  "bufferWriteableSize (as_c b) = writeableSize b" "bufferReadableSize (as_c b) = readableSize b"
  "contents (as_c b) = unread b" "bufferFindCRLF (as_c b) = findCRLF b"
  by (simp_all add: bufferWriteableSize_def writeableSize_def bufferReadableSize_def readableSize_def
      contents_def unread_def bufferFindCRLF_def findCRLF_def)

lemma as_c_update [simp]:
  "as_c (b\<lparr>m_readPos := n\<rparr>) = (as_c b)\<lparr>readPos := n\<rparr>" "as_c (b\<lparr>m_writePos := n\<rparr>) = (as_c b)\<lparr>writePos := n\<rparr>"
  "as_c (b\<lparr>m_data := d\<rparr>) = (as_c b)\<lparr>buf_data := d\<rparr>" "as_c (b\<lparr>m_capacity := n\<rparr>) = (as_c b)\<lparr>capacity := n\<rparr>"
  by (simp_all add: as_c_def)

lemma of_c_update [simp]:
  "of_c (c\<lparr>readPos := n\<rparr>) = (of_c c)\<lparr>m_readPos := n\<rparr>" "of_c (c\<lparr>writePos := n\<rparr>) = (of_c c)\<lparr>m_writePos := n\<rparr>"
  "of_c (c\<lparr>buf_data := d\<rparr>) = (of_c c)\<lparr>m_data := d\<rparr>" "of_c (c\<lparr>capacity := n\<rparr>) = (of_c c)\<lparr>m_capacity := n\<rparr>"
  by (simp_all add: of_c_def)

lemma newBuffer_c: "map_res as_c (newBuffer ok sz) = bindR (bufferInit True ok sz) (\<lambda>b. Inr (the b))"
  by (simp add: newBuffer_def bufferInit_def as_c_def)

lemma extendRoom_c: "map_res as_c (extendRoom mem b sz) = bufferExtendRoom mem (as_c b) sz"
  by (simp add: extendRoom_def bufferExtendRoom_def sizes_as_c map_res_bindR Let_def
      if_distrib [of "map_res as_c"] cong: if_cong)

lemma appendString_n_c:
  "map_res (\<lambda>(r, b). (r, Some (as_c b))) (appendString_n mem b src sz) = bufferAppendData mem (Some (as_c b)) src sz"
proof (cases src)
  case (Some s)
  then show ?thesis
    by (simp add: appendString_n_def bufferAppendData_def extendRoom_c [symmetric] bindR_map_res map_res_bindR)
qed (simp add: appendString_n_def bufferAppendData_def)

lemma socketRead_c:
  "map_res (\<lambda>(r, b). (r, as_c b)) (socketRead mem b avail) = bufferSocketRead mem (as_c b) avail"
proof (cases avail)
  case (Some s)
  have "bufferAppendData mem (Some c) t n =
      map_res (\<lambda>(r, b). (r, Some (as_c b))) (appendString_n mem (of_c c) t n)" for c t n
    by (simp add: appendString_n_c)
  with Some show ?thesis
    by (simp add: socketRead_def bufferSocketRead_def Let_def sizes_as_c map_res_bindR bindR_map_res split_def
        if_distrib [of "map_res _"] cong: if_cong)
qed (simp add: socketRead_def bufferSocketRead_def)

lemma sendData_c:
  "bufferSendData (as_c b) k = (case sendData b k of (n, b, s) \<Rightarrow> (n, as_c b, s))"
  by (simp add: bufferSendData_def sendData_def Let_def sizes_as_c)

section \<open>The contract\<close>

definition cpp_push :: "(int \<Rightarrow> bool) \<Rightarrow> cpp_buffer \<Rightarrow> string \<Rightarrow> cpp_buffer res" where
  "cpp_push mem b s = bindR (appendString_n mem b (Some s) (int (length s))) (\<lambda>(_, b). Inr b)"

definition cpp_pop :: "cpp_buffer \<Rightarrow> send_outcome \<Rightarrow> cpp_buffer \<times> string" where
  "cpp_pop b k = (case sendData b k of (_, b, out) \<Rightarrow> (b, out))"

abbreviation cpp_inv :: "cpp_buffer \<Rightarrow> bool" where
  "cpp_inv b \<equiv> buffer_inv (as_c b)"

lemma cpp_push_c: "buffer_push mem (as_c b) s = map_res as_c (cpp_push mem b s)"
  by (simp add: buffer_push_def cpp_push_def appendString_n_c [symmetric] bindR_map_res map_res_bindR split_def)

lemma appendString_c_push: "bindR (appendString_c mem b s) (\<lambda>(_, b). Inr b) = cpp_push mem b (cstr s)"
proof -
  have "map_res as_c (bindR (appendString_c mem b s) (\<lambda>(_, b). Inr b)) = buffer_puts mem (as_c b) s"
    by (simp add: buffer_puts_def bufferAppendString_def appendString_c_def appendString_n_c [symmetric]
        bindR_map_res map_res_bindR split_def)
  also have "\<dots> = map_res as_c (cpp_push mem b (cstr s))"
    by (simp add: buffer_puts_push cpp_push_c)
  finally have "map_res of_c (map_res as_c (bindR (appendString_c mem b s) (\<lambda>(_, b). Inr b))) =
      map_res of_c (map_res as_c (cpp_push mem b (cstr s)))" by simp
  moreover have "map_res (\<lambda>x. x) r = r" for r :: "cpp_buffer res" by (cases r) simp_all
  ultimately show ?thesis by (simp add: map_res_map_res)
qed

interpretation cppq: byte_queue cpp_inv unread "cpp_push mem" cpp_pop for mem
proof unfold_locales
  show "cpp_inv q' \<and> unread q' = unread q @ s" if "cpp_inv q" "cpp_push mem q s = Inr q'" for q s q'
    using buffer_push_Inr [of "as_c q" mem s "as_c q'"] that by (simp add: cpp_push_c sizes_as_c)
  show "cpp_inv q' \<and> unread q = out @ unread q'" if "cpp_inv q" "cpp_pop q k = (q', out)" for q k q' out
    using that bufq.pop_queue [of "as_c q" k "as_c q'" out]
    by (auto simp: cpp_pop_def buffer_pop_def sendData_c sizes_as_c split: prod.splits)
qed

section \<open>The way out of a connection\<close>

text \<open>
  \<open>o_calls\<close> counts the calls of \<^verbatim>\<open>send\<close>: \<open>sk k\<close> is what the \<open>k\<close>-th of them accepts.
  \<open>sendData\<close> calls it only when there is something to send.
\<close>

record conn_out =
  o_buf :: cpp_buffer
  o_calls :: nat
  o_sent :: string

definition send_now :: "(nat \<Rightarrow> send_outcome) \<Rightarrow> conn_out \<Rightarrow> conn_out" where
  "send_now sk s =
     (if readableSize (o_buf s) > 0 then
        (case sendData (o_buf s) (sk (o_calls s)) of
           (_, b, out) \<Rightarrow> s\<lparr>o_buf := b, o_calls := Suc (o_calls s), o_sent := o_sent s @ out\<rparr>)
      else s)"

definition put :: "(int \<Rightarrow> bool) \<Rightarrow> string \<Rightarrow> conn_out \<Rightarrow> conn_out res" where
  "put mem t s = bindR (cpp_push mem (o_buf s) t) (\<lambda>b. Inr (s\<lparr>o_buf := b\<rparr>))"

definition put_c :: "(int \<Rightarrow> bool) \<Rightarrow> string \<Rightarrow> conn_out \<Rightarrow> conn_out res" where
  "put_c mem t s = bindR (appendString_c mem (o_buf s) t) (\<lambda>(_, b). Inr (s\<lparr>o_buf := b\<rparr>))"

lemma put_c_put: "put_c mem t s = put mem (cstr t) s"
  by (simp add: put_c_def put_def appendString_c_push [symmetric] bindR_assoc split_def)

abbreviation out_inv :: "conn_out \<Rightarrow> bool" where
  "out_inv s \<equiv> cpp_inv (o_buf s)"

text \<open>Everything that is on its way: what was sent and what is still in the buffer.\<close>

definition flow :: "conn_out \<Rightarrow> string" where
  "flow s = o_sent s @ unread (o_buf s)"

lemma send_now_pop:
  "send_now sk s = (if readableSize (o_buf s) > 0 then
     (case cpp_pop (o_buf s) (sk (o_calls s)) of
        (b, out) \<Rightarrow> s\<lparr>o_buf := b, o_calls := Suc (o_calls s), o_sent := o_sent s @ out\<rparr>) else s)"
  by (simp add: send_now_def cpp_pop_def split_def)

lemma send_flow:
  assumes "out_inv s"
  shows "out_inv (send_now sk s)" "flow (send_now sk s) = flow s"
  using cppq.pop_queue [OF assms, of "sk (o_calls s)"] assms
  by (auto simp: send_now_pop flow_def split: prod.splits)

lemma put_flow:
  assumes "out_inv s" and "put mem t s = Inr s'"
  shows "out_inv s' \<and> flow s' = flow s @ t \<and> o_sent s' = o_sent s"
  using assms cppq.push_queue [OF assms(1)] by (auto simp: put_def flow_def res_simps)

subsection \<open>A client that takes what it is sent\<close>

definition eager :: "(nat \<Rightarrow> send_outcome) \<Rightarrow> bool" where
  "eager sk \<longleftrightarrow> (\<forall>k. \<exists>n. sk k = SendOk n \<and> int_max \<le> int n)"

text \<open>Nothing is waiting, and a text of \<open>n\<close> bytes fits.\<close>

definition emptied :: "int \<Rightarrow> conn_out \<Rightarrow> bool" where
  "emptied n s \<longleftrightarrow> out_inv s \<and> unread (o_buf s) = [] \<and> n \<le> m_capacity (o_buf s)"

lemma readable_unread: "cpp_inv b \<Longrightarrow> readableSize b = int (length (unread b))"
  using readable_length [of "as_c b"] by (simp add: sizes_as_c)

lemma send_eager:
  assumes "eager sk" and "out_inv s" and "n \<le> m_capacity (o_buf s)"
  shows "emptied n (send_now sk s) \<and> o_sent (send_now sk s) = flow s"
proof (cases "0 < readableSize (o_buf s)")
  case True
  let ?b = "o_buf s" and ?r = "readableSize (o_buf s)"
  obtain m where m: "sk (o_calls s) = SendOk m" "int_max \<le> int m" using assms(1) by (auto simp: eager_def)
  have le: "?r \<le> int m"
    using buffer_invD [OF assms(2)] m(2) by (simp add: readableSize_def)
  then have d: "sendData ?b (SendOk m) = (?r, ?b\<lparr>m_readPos := m_readPos ?b + ?r\<rparr>, unread ?b)"
    using True readable_unread [OF assms(2)] by (simp add: sendData_def min_def Let_def)
  with True m(1) have e: "send_now sk s =
      s\<lparr>o_buf := ?b\<lparr>m_readPos := m_readPos ?b + ?r\<rparr>, o_calls := Suc (o_calls s), o_sent := flow s\<rparr>"
    by (simp add: send_now_def flow_def)
  have u: "unread (o_buf (send_now sk s)) = []"
    unfolding e by (simp add: unread_def readableSize_def)
  show ?thesis using send_flow(1) [OF assms(2), of sk] u assms(3) by (simp add: emptied_def e)
next
  case False
  then have "unread (o_buf s) = []" using readable_unread [OF assms(2)] by simp
  with False assms show ?thesis by (simp add: send_now_def emptied_def flow_def)
qed

lemma push_emptied:
  assumes inv: "buffer_inv b" and c: "contents b = []" and n: "int (length s) \<le> capacity b"
  shows "\<exists>b'. buffer_push mem b s = Inr b' \<and> capacity b' = capacity b"
proof (cases "s = []")
  case True
  with inv show ?thesis by (simp add: buffer_push_def append_nothing)
next
  case ne: False
  let ?l = "int (length s)"
  have r: "bufferReadableSize b = 0" using readable_length [OF inv] c by simp
  then have ok: "append_ok mem b ?l" and room: "?l \<le> readPos b + bufferWriteableSize b"
    using n inv by (auto simp: append_ok_def bufferReadableSize_def bufferWriteableSize_def buffer_inv_def)
  obtain b1 where b1: "bufferExtendRoom mem b ?l = Inr b1" "buffer_inv b1" "?l \<le> bufferWriteableSize b1"
    using extend_ok [OF inv ok] ne by auto
  then have "capacity b1 = capacity b"
    using room by (auto simp: bufferExtendRoom_def res_simps Let_def split: if_splits)
  with push_after_extend [OF b1(1,2,3) ne] show ?thesis by simp
qed

lemma put_emptied:
  assumes "emptied n s" and "int (length t) \<le> n"
  obtains s' where "put mem t s = Inr s'" "out_inv s'" "n \<le> m_capacity (o_buf s')"
    "flow s' = o_sent s @ t"
proof -
  have d: "out_inv s" "unread (o_buf s) = []" "n \<le> m_capacity (o_buf s)" using assms(1) by (simp_all add: emptied_def)
  obtain b where b: "cpp_push mem (o_buf s) t = Inr b" "m_capacity b = m_capacity (o_buf s)"
    using push_emptied [of "as_c (o_buf s)" t mem] d assms(2)
    by (auto simp: sizes_as_c cpp_push_c res_simps)
  then have p: "put mem t s = Inr (s\<lparr>o_buf := b\<rparr>)" by (simp add: put_def)
  from put_flow [OF d(1) p] b(2) d that [OF p] show ?thesis by (simp add: flow_def)
qed

text \<open>An append and the send behind it, as every producer of a body does.\<close>

definition put_send :: "(int \<Rightarrow> bool) \<Rightarrow> (nat \<Rightarrow> send_outcome) \<Rightarrow> string \<Rightarrow> conn_out \<Rightarrow> conn_out res" where
  "put_send mem sk t s = bindR (put mem t s) (\<lambda>s. Inr (send_now sk s))"

lemma put_send_flow:
  "out_inv s \<Longrightarrow> put_send mem sk t s = Inr s' \<Longrightarrow> out_inv s' \<and> flow s' = flow s @ t"
  using put_flow send_flow by (fastforce simp: put_send_def res_simps)

lemma put_send_eager:
  assumes "eager sk" and "emptied n s" and "int (length t) \<le> n"
  obtains s' where "put_send mem sk t s = Inr s'" "emptied n s'" "o_sent s' = o_sent s @ t"
proof -
  from put_emptied [OF assms(2,3)] obtain s1 where
    s1: "put mem t s = Inr s1" "out_inv s1" "n \<le> m_capacity (o_buf s1)" "flow s1 = o_sent s @ t" by metis
  with send_eager [OF assms(1) s1(2,3)] that show ?thesis by (simp add: put_send_def)
qed

end
