(* ===== verification/CppHttp.thy ===== *)
theory CppHttp
  imports HttpSession StdMap CppBuffer
begin

text \<open>
  \<^verbatim>\<open>ReactorHTTP-CPP/HttpResponse.cpp\<close> and \<^verbatim>\<open>HttpRequest.cpp\<close>: the HTTP code of the C++
  rewrite. Strings are \<^verbatim>\<open>std::string\<close>s, which may hold NULs; \<open>cstr\<close> is what
  \<^verbatim>\<open>data()\<close> is as a C string. Headers are \<^verbatim>\<open>std::map\<close>s. \<^verbatim>\<open>MSG_SEND_AUTO\<close> is not
  defined anywhere in the rewrite: every producer sends after each append. The enumerations are
  those of the C code and shared with it.
\<close>

section \<open>The code: the response\<close>

record cpp_response =
  m_statusCode :: HttpStatusCode
  m_fileName :: string
  m_headers :: "(string \<times> string) list"
  m_sendDataFunc :: "response_body option"

definition newResponse :: cpp_response where
  "newResponse = \<lparr>m_statusCode = Unknown, m_fileName = [], m_headers = [], m_sendDataFunc = None\<rparr>"

definition addResponseHeader :: "string \<Rightarrow> string \<Rightarrow> cpp_response \<Rightarrow> cpp_response" where
  "addResponseHeader key val r =
     (if key = [] \<or> val = [] then r else r\<lparr>m_headers := map_insert key val (m_headers r)\<rparr>)"

definition m_info :: "int \<Rightarrow> string option" where
  "m_info = map_of [(200, ''OK''), (301, ''MovedPermanently''), (302, ''MovedTemporarily''),
     (400, ''BadRequest''), (404, ''NotFound'')]"

text \<open>\<^verbatim>\<open>m_info.at\<close> throws for a code that is not in the table.\<close>

definition put_status :: "(int \<Rightarrow> bool) \<Rightarrow> HttpStatusCode \<Rightarrow> conn_out \<Rightarrow> conn_out res" where
  "put_status mem code s =
     (case m_info (status_code code) of
        None \<Rightarrow> Inl Uncaught
      | Some info \<Rightarrow>
          bindR (strcpy_into 1024 (''HTTP/1.1 '' @ dec_int (status_code code) @ '' '' @ info @ crlf)) (\<lambda>tmp.
          put_c mem tmp s))"

fun put_headers :: "(int \<Rightarrow> bool) \<Rightarrow> (string \<times> string) list \<Rightarrow> conn_out \<Rightarrow> conn_out res" where
  "put_headers mem [] s = Inr s"
| "put_headers mem ((k, v) # hs) s =
     bindR (strcpy_into 1024 (cstr k @ '': '' @ cstr v @ crlf)) (\<lambda>tmp.
     bindR (put_c mem tmp s) (put_headers mem hs))"

text \<open>The reading loop with the send behind every chunk; see \<open>sendFile_loop\<close> of the C code.\<close>

partial_function (option) cpp_sendFile_loop ::
  "(int \<Rightarrow> bool) \<Rightarrow> (nat \<Rightarrow> send_outcome) \<Rightarrow> (nat \<Rightarrow> read_outcome) \<Rightarrow> nat \<Rightarrow> bool \<Rightarrow> conn_out \<Rightarrow> conn_out run" where
  "cpp_sendFile_loop mem sk rd k closed s =
     (case (if closed then ReadErr else rd k) of
        ReadErr \<Rightarrow> cpp_sendFile_loop mem sk rd (Suc k) True s
      | ReadBytes t \<Rightarrow>
          if take 1024 t = [] then Some (Inr s)
          else (case put_send mem sk (take 1024 t) s of
                  Inl e \<Rightarrow> Some (Inl e)
                | Inr s \<Rightarrow> cpp_sendFile_loop mem sk rd (Suc k) closed s))"

definition cpp_sendFile :: "env \<Rightarrow> (nat \<Rightarrow> send_outcome) \<Rightarrow> string \<Rightarrow> conn_out \<Rightarrow> conn_out run" where
  "cpp_sendFile e sk name s =
     (case fs_open e (cstr name) of
        None \<Rightarrow> Some (Inl AssertFail)
      | Some rd \<Rightarrow> cpp_sendFile_loop (e_mem e) sk rd 0 False s)"

fun cpp_sendDir_loop ::
  "env \<Rightarrow> (nat \<Rightarrow> send_outcome) \<Rightarrow> string \<Rightarrow> string list \<Rightarrow> string \<Rightarrow> conn_out \<Rightarrow> (string \<times> conn_out) res" where
  "cpp_sendDir_loop e sk dirName [] cur s = Inr (cur, s)"
| "cpp_sendDir_loop e sk dirName (name # names) cur s =
     bindR (strcpy_into 1024 (dirName @ ''/'' @ name)) (\<lambda>subPath.
     case fs_stat e subPath of
       None \<Rightarrow> Inl Uninitialised
     | Some st \<Rightarrow>
         bindR (strcpy_into 4096 (cur @ dir_row name st)) (\<lambda>buf.
         bindR (put_c (e_mem e) buf s) (\<lambda>s.
         cpp_sendDir_loop e sk dirName names [] (send_now sk s))))"

definition cpp_sendDir :: "env \<Rightarrow> (nat \<Rightarrow> send_outcome) \<Rightarrow> string \<Rightarrow> conn_out \<Rightarrow> conn_out res" where
  "cpp_sendDir e sk dirName s =
     (let dirName = cstr dirName in
      bindR (strcpy_into 4096 (dir_head dirName)) (\<lambda>buf.
      let namelist = fs_scandir e dirName;
          names = (case namelist of None \<Rightarrow> [] | Some ns \<Rightarrow> ns) in
      bindR (cpp_sendDir_loop e sk dirName names buf s) (\<lambda>(_, s).
      bindR (strcpy_into 4096 dir_tail) (\<lambda>buf.
      bindR (put_c (e_mem e) buf s) (\<lambda>s.
      let s = send_now sk s in
      if namelist = None then Inl Uninitialised else Inr s)))))"

text \<open>Calling the empty \<^verbatim>\<open>std::function\<close> throws.\<close>

definition prepareMsg :: "env \<Rightarrow> (nat \<Rightarrow> send_outcome) \<Rightarrow> cpp_response \<Rightarrow> conn_out \<Rightarrow> conn_out run" where
  "prepareMsg e sk r s =
     bindO (Some (put_status (e_mem e) (m_statusCode r) s)) (\<lambda>s.
     bindO (Some (put_headers (e_mem e) (m_headers r) s)) (\<lambda>s.
     bindO (Some (put_c (e_mem e) crlf s)) (\<lambda>s.
     let s = send_now sk s in
     case m_sendDataFunc r of
       None \<Rightarrow> Some (Inl Uncaught)
     | Some SendFile \<Rightarrow> cpp_sendFile e sk (m_fileName r) s
     | Some SendDir \<Rightarrow> Some (cpp_sendDir e sk (m_fileName r) s))))"

section \<open>The code: the request\<close>

record cpp_request =
  m_method :: string
  m_url :: string
  m_version :: string
  m_reqHeaders :: "(string \<times> string) list"
  m_curState :: HttpRequestState

definition resetRequest :: cpp_request where
  "resetRequest = \<lparr>m_method = [], m_url = [], m_version = [], m_reqHeaders = [], m_curState = ParseReqLine\<rparr>"

definition addRequestHeader :: "string \<Rightarrow> string \<Rightarrow> cpp_request \<Rightarrow> cpp_request" where
  "addRequestHeader key val r =
     (if key = [] \<or> val = [] then r else r\<lparr>m_reqHeaders := map_insert key val (m_reqHeaders r)\<rparr>)"

definition getRequestHeader :: "string \<Rightarrow> cpp_request \<Rightarrow> string" where
  "getRequestHeader key r = (case map_of (m_reqHeaders r) key of None \<Rightarrow> [] | Some v \<Rightarrow> v)"

text \<open>The pointer behind the separator, and the string the callback gets.\<close>

definition cpp_splitRequestLine :: "string \<Rightarrow> int \<Rightarrow> int \<Rightarrow> string option \<Rightarrow> (int \<times> string) res" where
  "cpp_splitRequestLine d start end' sub =
     bindR (case sub of
              None \<Rightarrow> Inr end'
            | Some t \<Rightarrow>
                (case memmem (segment d start end') t of
                   None \<Rightarrow> Inl AssertFail
                 | Some i \<Rightarrow> Inr (start + int i)))
       (\<lambda>space. Inr (space + 1, segment d start space))"

text \<open>
  \<open>nd\<close> is the \<^verbatim>\<open>int\<close> that \<^verbatim>\<open>end - start\<close> comes to when no CRLF is found and
  \<^verbatim>\<open>end\<close> is NULL: it depends on where the buffer lies. A positive one sends the first
  \<^verbatim>\<open>splitRequestLine\<close> from \<^verbatim>\<open>start\<close> to NULL.
\<close>

definition cpp_parseRequestLine :: "int \<Rightarrow> cpp_request \<Rightarrow> cpp_buffer \<Rightarrow> (bool \<times> cpp_request \<times> cpp_buffer) res" where
  "cpp_parseRequestLine nd req rb =
     (let crlf_at = findCRLF rb; start = data rb; d = m_data rb;
          lineSize = (case crlf_at of None \<Rightarrow> nd | Some end' \<Rightarrow> end' - start) in
      if lineSize > 0 then
        (case crlf_at of
           None \<Rightarrow> Inl NullDeref
         | Some end' \<Rightarrow>
             bindR (cpp_splitRequestLine d start end' (Some '' '')) (\<lambda>(start, meth).
             bindR (cpp_splitRequestLine d start end' (Some '' '')) (\<lambda>(start, url).
             bindR (cpp_splitRequestLine d start end' None) (\<lambda>(_, version).
             Inr (True, req\<lparr>m_method := meth, m_url := url, m_version := version, m_curState := ParseReqHeaders\<rparr>,
                  readPosIncrease rb (lineSize + 2))))))
      else Inr (False, req, rb))"

definition cpp_parseRequestHeader :: "cpp_request \<Rightarrow> cpp_buffer \<Rightarrow> bool \<times> cpp_request \<times> cpp_buffer" where
  "cpp_parseRequestHeader req rb =
     (case findCRLF rb of
        None \<Rightarrow> (False, req, rb)
      | Some end' \<Rightarrow>
          (let start = data rb; lineSize = end' - start; d = m_data rb in
           case memmem (segment d start end') '': '' of
             Some i \<Rightarrow>
               (let middle = start + int i; keyLen = middle - start; valueLen = end' - middle - 2;
                    req = (if keyLen > 0 \<and> valueLen > 0
                           then addRequestHeader (segment d start middle) (segment d (middle + 2) end') req
                           else req) in
                (True, req, readPosIncrease rb (lineSize + 2)))
           | None \<Rightarrow> (True, req\<lparr>m_curState := ParseReqDone\<rparr>, readPosIncrease rb 2)))"

text \<open>\<^verbatim>\<open>msg.data()\<close> ends with a NUL; the result gets one of its own.\<close>

function cpp_decode_loop :: "string \<Rightarrow> nat \<Rightarrow> string \<Rightarrow> string res" where
  "cpp_decode_loop m from str =
     (if length m \<le> from then Inl OutOfBounds
      else if m ! from = NUL then Inr str
      else case escape_at m from of
             Inl e \<Rightarrow> Inl e
           | Inr True \<Rightarrow> cpp_decode_loop m (from + 3) (str @ [hex_pair (m ! (from + 1)) (m ! (from + 2))])
           | Inr False \<Rightarrow> cpp_decode_loop m (from + 1) (str @ [m ! from]))"
  by pat_completeness auto
termination
  by (relation "measure (\<lambda>(m, from, str). length m - from)") auto

declare cpp_decode_loop.simps [simp del]

definition cpp_decodeMsg :: "string \<Rightarrow> string res" where
  "cpp_decodeMsg msg = bindR (cpp_decode_loop (msg @ [NUL]) 0 []) (\<lambda>str. Inr (str @ [NUL]))"

text \<open>The media type of a name, by what follows its last dot.\<close>

definition media_types :: "(string \<times> string) list" where
  "media_types =
     [(''.html'', ''text/html; charset=utf-8''), (''.htm'', ''text/html; charset=utf-8''),
      (''.jpg'', ''image/jpeg''), (''.jpeg'', ''image/jpeg''), (''.gif'', ''image/gif''),
      (''.png'', ''image/png''), (''.css'', ''text/css''), (''.au'', ''audio/basic''),
      (''.wav'', ''audio/wav''), (''.avi'', ''video/x-msvideo''), (''.mov'', ''video/quicktime''),
      (''.qt'', ''video/quicktime''), (''.mpeg'', ''video/mpeg''), (''.mpe'', ''video/mpeg''),
      (''.vrml'', ''model/vrml''), (''.wrl'', ''model/vrml''), (''.midi'', ''audio/midi''),
      (''.mid'', ''audio/midi''), (''.mp3'', ''audio/mpeg''), (''.ogg'', ''application/ogg''),
      (''.pac'', ''application/x-ns-proxy-autoconfig'')]"

definition cpp_getFileType :: "string \<Rightarrow> string" where
  "cpp_getFileType name =
     (case strrchr (cstr name) (CHR ''.'') of
        None \<Rightarrow> ''text/plain; charset=utf-8''
      | Some dot \<Rightarrow>
          (case map_of media_types dot of None \<Rightarrow> ''text/plain; charset=utf-8'' | Some t \<Rightarrow> t))"

text \<open>
  The handling of a parsed request: \<open>True\<close> is the \<^verbatim>\<open>-1\<close> of the refusal, which is a
  \<^verbatim>\<open>bool\<close> and ignored. \<open>file\<close> is a pointer into the decoded URL.
\<close>

definition cpp_respond :: "env \<Rightarrow> string \<Rightarrow> cpp_response \<Rightarrow> cpp_response" where
  "cpp_respond e file r =
     (case fs_stat e file of
        None \<Rightarrow>
          (addResponseHeader ''Content-type'' (cpp_getFileType ''.html'')
             (r\<lparr>m_fileName := ''404.html'', m_statusCode := NotFound\<rparr>))\<lparr>m_sendDataFunc := Some SendFile\<rparr>
      | Some st \<Rightarrow>
          (let r = r\<lparr>m_fileName := file, m_statusCode := OK\<rparr> in
           if st_isdir st
           then (addResponseHeader ''Content-type'' (cpp_getFileType ''.html'') r)\<lparr>m_sendDataFunc := Some SendDir\<rparr>
           else (addResponseHeader ''Content-length'' (dec_int (st_size st))
                   (addResponseHeader ''Content-type'' (cpp_getFileType file) r))\<lparr>m_sendDataFunc := Some SendFile\<rparr>))"

definition cpp_process :: "env \<Rightarrow> cpp_request \<Rightarrow> cpp_response \<Rightarrow> (bool \<times> cpp_request \<times> cpp_response) res" where
  "cpp_process e req r =
     (if \<not> strcasecmp_eq (cstr (m_method req)) ''get'' then Inr (True, req, r)
      else
        bindR (cpp_decodeMsg (m_url req)) (\<lambda>url.
        let req = req\<lparr>m_url := url\<rparr>;
            file = (if cstr url = ''/'' then ''./'' else cstr (tl (url @ [NUL]))) in
        Inr (False, req, cpp_respond e file r)))"

partial_function (option) cpp_parse_loop ::
  "env \<Rightarrow> int \<Rightarrow> (nat \<Rightarrow> send_outcome) \<Rightarrow> cpp_request \<Rightarrow> cpp_buffer \<Rightarrow> cpp_response \<Rightarrow> conn_out \<Rightarrow>
   (bool \<times> cpp_request \<times> cpp_buffer \<times> cpp_response \<times> conn_out) run" where
  "cpp_parse_loop e nd sk req rb r s =
     (if m_curState req = ParseReqDone then Some (Inr (True, req\<lparr>m_curState := ParseReqLine\<rparr>, rb, r, s))
      else
        bindO (case m_curState req of
                 ParseReqLine \<Rightarrow> Some (cpp_parseRequestLine nd req rb)
               | ParseReqHeaders \<Rightarrow> Some (Inr (cpp_parseRequestHeader req rb))
               | _ \<Rightarrow> Some (Inr (True, req, rb))) (\<lambda>(flag, req, rb).
        if \<not> flag then Some (Inr (False, req, rb, r, s))
        else if m_curState req = ParseReqDone then
          bindO (Some (cpp_process e req r)) (\<lambda>(_, req, r).
          bindO (prepareMsg e sk r s) (\<lambda>s. cpp_parse_loop e nd sk req rb r s))
        else cpp_parse_loop e nd sk req rb r s))"

section \<open>Texts\<close>

lemma if_or: "(if a \<or> b then x else y) = (if a then x else if b then x else y)"
  by simp

lemma cpp_getFileType_c: "cpp_getFileType = getFileType"
proof (rule ext)
  fix name
  show "cpp_getFileType name = getFileType name"
  proof (cases "strrchr (cstr name) (CHR ''.'')")
    case (Some dot)
    show ?thesis
      unfolding cpp_getFileType_def getFileType_def Some media_types_def if_or
      by (simp only: option.case map_of.simps fst_conv snd_conv fun_upd_apply
          if_distrib [of "case_option _ _"])
  qed (simp add: cpp_getFileType_def getFileType_def)
qed

lemma cpp_decode_computes:
  "NUL \<in> set (drop from m) \<Longrightarrow> cpp_decode_loop m from str = Inr (str @ decode (cstr (drop from m)))"
proof (induction m "from" str rule: cpp_decode_loop.induct)
  case (1 m "from" str)
  have f: "from < length m" using "1.prems" by (rule NUL_drop_length)
  show ?case
  proof (cases "m ! from = NUL")
    case True
    then show ?thesis using f by (simp add: cpp_decode_loop.simps [of m "from"] cstr_drop [OF f])
  next
    case False
    note esc = escape_at_is_escape [OF False "1.prems"]
    show ?thesis
    proof (cases "is_escape (cstr (drop from m))")
      case True
      with esc have e: "escape_at m from = Inr True" and n: "NUL \<in> set (drop (from + 3) m)"
        and c: "cstr (drop from m) = CHR ''%'' # m ! (from + 1) # m ! (from + 2) # cstr (drop (from + 3) m)"
        by simp_all
      have d: "decode (cstr (drop from m)) =
          hex_pair (m ! (from + 1)) (m ! (from + 2)) # decode (cstr (drop (from + 3) m))"
        using True unfolding c by (simp add: decode_escape)
      have "cpp_decode_loop m (from + 3) (str @ [hex_pair (m ! (from + 1)) (m ! (from + 2))]) =
          Inr ((str @ [hex_pair (m ! (from + 1)) (m ! (from + 2))]) @ decode (cstr (drop (from + 3) m)))"
        using "1.IH"(1) [of True] f False e n by simp
      then show ?thesis using f False e by (simp add: cpp_decode_loop.simps [of m "from"] d)
    next
      case no: False
      with esc have e: "escape_at m from = Inr False" by simp
      have n: "NUL \<in> set (drop (from + 1) m)" using NUL_drop_Suc [OF f False "1.prems"] .
      have c: "cstr (drop from m) = m ! from # cstr (drop (from + 1) m)"
        using cstr_drop [OF f] False by simp
      with no have "decode (cstr (drop from m)) = m ! from # decode (cstr (drop (from + 1) m))"
        by (simp add: decode_plain)
      moreover have "cpp_decode_loop m (from + 1) (str @ [m ! from]) =
          Inr ((str @ [m ! from]) @ decode (cstr (drop (from + 1) m)))"
        using "1.IH"(2) [of False] f False e n by simp
      ultimately show ?thesis using f False e by (simp add: cpp_decode_loop.simps [of m "from"])
    qed
  qed
qed

lemma cpp_decodeMsg_value: "cpp_decodeMsg msg = Inr (decode (cstr msg) @ [NUL])"
  using cpp_decode_computes [of 0 "msg @ [NUL]" "[]"]
  by (simp add: cpp_decodeMsg_def) (simp add: cstr_def takeWhile_tail)

section \<open>Lines of the input\<close>

lemma cpp_segment:
  "cpp_inv b \<Longrightarrow> j \<le> i \<Longrightarrow> i \<le> length (unread b) \<Longrightarrow>
   segment (m_data b) (m_readPos b + int j) (m_readPos b + int i) = take (i - j) (drop j (unread b))"
  using segment_contents [of "as_c b" j i] by (simp add: sizes_as_c)

lemma cpp_consume:
  "cpp_inv b \<Longrightarrow> n \<le> length (unread b) \<Longrightarrow>
   cpp_inv (readPosIncrease b (int n)) \<and> unread (readPosIncrease b (int n)) = drop n (unread b)"
  using consume_contents [of "as_c b" n] sizes_as_c(3) [of "readPosIncrease b (int n)"]
  by (simp add: sizes_as_c readPosIncrease_def)

lemma cpp_split_space:
  assumes "cpp_inv b" and "j \<le> i" and "i \<le> length (unread b)"
  shows "cpp_splitRequestLine (m_data b) (m_readPos b + int j) (m_readPos b + int i) (Some '' '') =
    (case cut_space (take (i - j) (drop j (unread b))) of
       None \<Rightarrow> Inl AssertFail
     | Some (w, r) \<Rightarrow> Inr (m_readPos b + int (j + length w + 1), w))"
proof -
  let ?l = "take (i - j) (drop j (unread b))"
  note seg = cpp_segment [OF assms]
  show ?thesis
  proof (cases "cut_space ?l")
    case None
    then have "CHR '' '' \<notin> set ?l" by (simp add: cut_space_def split: if_splits)
    with None seg show ?thesis by (simp add: cpp_splitRequestLine_def memmem_single)
  next
    case (Some wr)
    obtain w r where wr: "wr = (w, r)" by fastforce
    with Some have l: "?l = w @ CHR '' '' # r" "CHR '' '' \<notin> set w" using cut_space_Some by auto
    then have m: "memmem ?l '' '' = Some (length w)"
      by (simp only: l(1)) (rule memmem_append_single)
    have "length ?l = i - j" using assms by simp
    with l have len: "length w < i - j" by simp
    have "take (length w) (drop j (unread b)) = take (length w) ?l" using len by simp
    also have "\<dots> = w" using l(1) by simp
    finally have tk: "take (length w) (drop j (unread b)) = w" .
    have "segment (m_data b) (m_readPos b + int j) (m_readPos b + int (j + length w)) = w"
      using cpp_segment [OF assms(1), of j "j + length w"] tk len assms(3) by simp
    with seg m Some wr show ?thesis by (simp add: cpp_splitRequestLine_def add.assoc)
  qed
qed

lemma cpp_parseRequestLine_spec:
  assumes inv: "cpp_inv b" and i: "memmem (unread b) crlf = Some i"
  shows "cpp_parseRequestLine nd req b =
    (if i = 0 then Inr (False, req, b)
     else case split_line (take i (unread b)) of
            None \<Rightarrow> Inl AssertFail
          | Some (m, u, v) \<Rightarrow>
              Inr (True, req\<lparr>m_method := m, m_url := u, m_version := v, m_curState := ParseReqHeaders\<rparr>,
                   readPosIncrease b (int (i + 2))))"
proof -
  let ?l = "take i (unread b)"
  have le: "i \<le> length (unread b)" using memmem_Some_bound [OF i] by simp
  have crlf: "findCRLF b = Some (m_readPos b + int i)" using i by (simp add: findCRLF_def)
  have s1: "cpp_splitRequestLine (m_data b) (m_readPos b) (m_readPos b + int i) (Some '' '') =
      (case cut_space ?l of None \<Rightarrow> Inl AssertFail
       | Some (w, r) \<Rightarrow> Inr (m_readPos b + int (length w + 1), w))"
    using cpp_split_space [OF inv _ le, of 0] by (simp split: option.split)
  show ?thesis
  proof (cases "i = 0 \<or> cut_space ?l = None")
    case True
    then show ?thesis using crlf s1 by (auto simp: cpp_parseRequestLine_def split_line_def data_def)
  next
    case False
    then obtain m r where mr: "cut_space ?l = Some (m, r)" by auto
    then have l: "?l = m @ CHR '' '' # r" using cut_space_Some by blast
    have len: "i = length m + 1 + length r" using arg_cong [OF l, of length] le by simp
    have "drop (length m + 1) ?l = r" using l by simp
    then have r: "take (i - (length m + 1)) (drop (length m + 1) (unread b)) = r" by (simp add: drop_take)
    have s2: "cpp_splitRequestLine (m_data b) (m_readPos b + int (length m + 1)) (m_readPos b + int i) (Some '' '') =
        (case cut_space r of None \<Rightarrow> Inl AssertFail
         | Some (w, r) \<Rightarrow> Inr (m_readPos b + int (length m + 1 + length w + 1), w))"
      using cpp_split_space [OF inv _ le, of "length m + 1"] len unfolding r by simp
    show ?thesis
    proof (cases "cut_space r")
      case None
      with mr s1 s2 crlf False show ?thesis by (simp add: cpp_parseRequestLine_def split_line_def data_def)
    next
      case (Some uv)
      obtain u v where uv: "uv = (u, v)" by fastforce
      with Some have r': "r = u @ CHR '' '' # v" using cut_space_Some by auto
      let ?j = "length m + 1 + length u + 1"
      have j: "?j \<le> i" using len r' by simp
      have "drop ?j ?l = v" using l r' by simp
      then have "take (i - ?j) (drop ?j (unread b)) = v" by (simp add: drop_take)
      then have "segment (m_data b) (m_readPos b + int ?j) (m_readPos b + int i) = v"
        using cpp_segment [OF inv j le] by simp
      then have "cpp_splitRequestLine (m_data b) (m_readPos b + int ?j) (m_readPos b + int i) None =
          Inr (m_readPos b + int i + 1, v)" by (simp add: cpp_splitRequestLine_def)
      with mr s1 s2 crlf False Some uv show ?thesis
        by (simp add: cpp_parseRequestLine_def split_line_def ac_simps data_def)
    qed
  qed
qed

lemma cpp_parseRequestHeader_spec:
  assumes inv: "cpp_inv b" and i: "memmem (unread b) crlf = Some i"
  shows "cpp_parseRequestHeader req b =
    (case memmem (take i (unread b)) '': '' of
       Some j \<Rightarrow> (True, addRequestHeader (take j (unread b)) (drop (j + 2) (take i (unread b))) req,
                  readPosIncrease b (int (i + 2)))
     | None \<Rightarrow> (True, req\<lparr>m_curState := ParseReqDone\<rparr>, readPosIncrease b 2))"
proof -
  let ?l = "take i (unread b)"
  have le: "i \<le> length (unread b)" using memmem_Some_bound [OF i] by simp
  have crlf: "findCRLF b = Some (m_readPos b + int i)" using i by (simp add: findCRLF_def)
  have seg: "segment (m_data b) (m_readPos b) (m_readPos b + int i) = ?l"
    using cpp_segment [OF inv _ le, of 0] by simp
  show ?thesis
  proof (cases "memmem ?l '': ''")
    case None
    with crlf seg show ?thesis by (simp add: cpp_parseRequestHeader_def data_def)
  next
    case (Some j)
    have j: "j + 2 \<le> i" using memmem_Some_bound [OF Some] le by simp
    have k: "segment (m_data b) (m_readPos b) (m_readPos b + int j) = take j (unread b)"
      using cpp_segment [OF inv, of 0 j] j le by simp
    have "segment (m_data b) (m_readPos b + int (j + 2)) (m_readPos b + int i) = drop (j + 2) ?l"
      using cpp_segment [OF inv j le] by (simp add: drop_take)
    then have v: "segment (m_data b) (m_readPos b + int j + 2) (m_readPos b + int i) = drop (j + 2) ?l"
      by (simp add: ac_simps)
    have g: "addRequestHeader (take j (unread b)) (drop (j + 2) ?l) req = req"
      if "\<not> (0 < int j \<and> 0 < int i - int j - 2)"
    proof -
      from that j have "j = 0 \<or> i = j + 2" by linarith
      then show ?thesis by (auto simp: addRequestHeader_def)
    qed
    have n: "m_readPos b + int i - m_readPos b + 2 = int (i + 2)" by simp
    show ?thesis
      using crlf seg k v j g Some unfolding cpp_parseRequestHeader_def data_def Let_def by (simp add: n add.commute)
  qed
qed

section \<open>The header section\<close>

lemma cpp_header_parse:
  assumes inv: "cpp_inv b" and k: "field_ok k" "CHR '':'' \<notin> set k" and v: "field_ok v"
    and cont: "unread b = header_line (k, v) @ rest"
  obtains b' where "cpp_inv b'" "unread b' = rest"
    "cpp_parseRequestHeader req b = (True, addRequestHeader k v req, b')"
proof -
  let ?l = "k @ '': '' @ v"
  have c: "unread b = ?l @ crlf @ rest" using cont by (simp add: header_line_append)
  have "CR \<notin> set ?l" using k v by (simp add: field_ok_def)
  then have i: "memmem (unread b) crlf = Some (length ?l)" unfolding c by (rule memmem_crlf)
  have tk: "take (length ?l) (unread b) = ?l" unfolding c by simp
  have m: "memmem ?l '': '' = Some (length k)"
    using memmem_append_first [of "CHR '':''" k "'' ''" "'' '' @ v"] k(2) by simp
  have ks: "take (length k) (unread b) = k" "drop (length k + 2) ?l = v" unfolding c by simp_all
  let ?b = "readPosIncrease b (int (length ?l + 2))"
  have p: "cpp_parseRequestHeader req b = (True, addRequestHeader k v req, ?b)"
    unfolding cpp_parseRequestHeader_spec [OF inv i] tk m by (simp only: option.case ks)
  have n: "length ?l + 2 \<le> length (unread b)" unfolding c by simp
  have "unread b = (?l @ crlf) @ rest" using c by simp
  then have "drop (length (?l @ crlf)) (unread b) = rest" by (metis append_eq_conv_conj)
  then have "unread ?b = rest" "cpp_inv ?b" using cpp_consume [OF inv n] by simp_all
  with p that show ?thesis by blast
qed

lemma cpp_header_end:
  assumes inv: "cpp_inv b" and cont: "unread b = crlf @ rest"
  shows "cpp_parseRequestHeader req b = (True, req\<lparr>m_curState := ParseReqDone\<rparr>, readPosIncrease b 2)"
    and "cpp_inv (readPosIncrease b 2)" and "unread (readPosIncrease b 2) = rest"
proof -
  have i: "memmem (unread b) crlf = Some 0" using memmem_crlf [of "[]"] cont by simp
  show "cpp_parseRequestHeader req b = (True, req\<lparr>m_curState := ParseReqDone\<rparr>, readPosIncrease b 2)"
    unfolding cpp_parseRequestHeader_spec [OF inv i] by (simp add: memmem_Nil)
  have "2 \<le> length (unread b)" using cont by simp
  from cpp_consume [OF inv this] cont
  show "cpp_inv (readPosIncrease b 2)" "unread (readPosIncrease b 2) = rest" by simp_all
qed

abbreviation add_headers :: "(string \<times> string) list \<Rightarrow> cpp_request \<Rightarrow> cpp_request" where
  "add_headers \<equiv> fold (\<lambda>(k, v). addRequestHeader k v)"

lemma addRequestHeader_frame [simp]:
  "m_curState (addRequestHeader k v req) = m_curState req" "m_method (addRequestHeader k v req) = m_method req"
  "m_url (addRequestHeader k v req) = m_url req" "m_version (addRequestHeader k v req) = m_version req"
  by (simp_all add: addRequestHeader_def)

lemma add_headers_frame [simp]:
  "m_curState (add_headers hs req) = m_curState req" "m_method (add_headers hs req) = m_method req"
  "m_url (add_headers hs req) = m_url req" "m_version (add_headers hs req) = m_version req"
  by (induction hs arbitrary: req) (auto simp: split_def)

lemma cpp_parse_header_step:
  assumes "m_curState req = ParseReqHeaders" and "cpp_parseRequestHeader req b = (True, req', b')"
    and "m_curState req' = ParseReqHeaders"
  shows "cpp_parse_loop e nd sk req b r s = cpp_parse_loop e nd sk req' b' r s"
  by (subst cpp_parse_loop.simps) (simp add: assms)

lemma cpp_parse_header_lines:
  assumes "m_curState req = ParseReqHeaders" and "cpp_inv b"
    and "unread b = concat (map header_line hs) @ rest" and "headers_ok hs"
  obtains b' where "cpp_parse_loop e nd sk req b r s = cpp_parse_loop e nd sk (add_headers hs req) b' r s"
    "cpp_inv b'" "unread b' = rest"
  using assms
proof (induction hs arbitrary: req b thesis)
  case Nil
  then show ?case by simp
next
  case (Cons kv hs)
  obtain k v where kv: "kv = (k, v)" by fastforce
  have ok: "field_ok k" "CHR '':'' \<notin> set k" "field_ok v" "headers_ok hs"
    using Cons.prems(5) by (simp_all add: kv)
  have c: "unread b = header_line (k, v) @ (concat (map header_line hs) @ rest)"
    using Cons.prems(4) by (simp add: kv)
  obtain b1 where b1: "cpp_inv b1" "unread b1 = concat (map header_line hs) @ rest"
      "cpp_parseRequestHeader req b = (True, addRequestHeader k v req, b1)"
    by (rule cpp_header_parse [OF Cons.prems(3) ok(1-3) c])
  have st: "m_curState (addRequestHeader k v req) = ParseReqHeaders" using Cons.prems(2) by simp
  obtain b2 where "cpp_parse_loop e nd sk (addRequestHeader k v req) b1 r s =
      cpp_parse_loop e nd sk (add_headers hs (addRequestHeader k v req)) b2 r s" "cpp_inv b2" "unread b2 = rest"
    by (rule Cons.IH [OF _ st b1(1,2) ok(4)])
  then show ?case
    using Cons.prems(1) [of b2] cpp_parse_header_step [OF Cons.prems(2) b1(3) st] by (simp add: kv)
qed

text \<open>The map of headers: the first value of a key stays, empty keys and values are left out.\<close>

definition kept_headers :: "(string \<times> string) list \<Rightarrow> (string \<times> string) list" where
  "kept_headers hs = filter (\<lambda>(k, v). k \<noteq> [] \<and> v \<noteq> []) hs"

lemma add_headers_map:
  "m_reqHeaders (add_headers hs req) = fold (\<lambda>(k, v). map_insert k v) (kept_headers hs) (m_reqHeaders req)"
  by (induction hs arbitrary: req) (auto simp: kept_headers_def addRequestHeader_def)

lemma add_headers_lookup:
  "m_reqHeaders req = [] \<Longrightarrow> map_of (m_reqHeaders (add_headers hs req)) = map_of (kept_headers hs)"
  using stdmap.first_wins [of "kept_headers hs"] by (simp add: add_headers_map)

section \<open>The whole request\<close>

definition cpp_finish ::
  "env \<Rightarrow> (nat \<Rightarrow> send_outcome) \<Rightarrow> cpp_request \<Rightarrow> cpp_buffer \<Rightarrow> cpp_response \<Rightarrow> conn_out \<Rightarrow>
   (bool \<times> cpp_request \<times> cpp_buffer \<times> cpp_response \<times> conn_out) run" where
  "cpp_finish e sk req rb r s =
     bindO (Some (cpp_process e req r)) (\<lambda>(_, req, r).
     bindO (prepareMsg e sk r s) (\<lambda>s. Some (Inr (True, req\<lparr>m_curState := ParseReqLine\<rparr>, rb, r, s))))"

lemma cpp_process_state: "cpp_process e req r = Inr (f, req', r') \<Longrightarrow> m_curState req' = m_curState req"
  by (auto simp: cpp_process_def res_simps Let_def split: if_splits)

lemma cpp_parse_finish:
  assumes "m_curState req = ParseReqHeaders" and "cpp_parseRequestHeader req b = (True, req', b')"
    and "m_curState req' = ParseReqDone"
  shows "cpp_parse_loop e nd sk req b r s = cpp_finish e sk req' b' r s"
proof -
  have d: "cpp_parse_loop e nd sk q b r s = Some (Inr (True, q\<lparr>m_curState := ParseReqLine\<rparr>, b, r, s))"
    if "m_curState q = ParseReqDone" for q b r s
    using that by (subst cpp_parse_loop.simps) simp
  have "cpp_parse_loop e nd sk req b r s =
      bindO (Some (cpp_process e req' r)) (\<lambda>(_, req, r).
      bindO (prepareMsg e sk r s) (\<lambda>s. cpp_parse_loop e nd sk req b' r s))"
    by (subst cpp_parse_loop.simps) (simp add: assms)
  also have "\<dots> = cpp_finish e sk req' b' r s"
    unfolding cpp_finish_def
    using cpp_process_state [of e req' r] assms(3) by (auto simp: d intro!: bindO_cong_on)
  finally show ?thesis .
qed

lemma cpp_first_line:
  assumes inv: "cpp_inv b" and cont: "unread b = m @ '' '' @ u @ '' '' @ v @ crlf @ rest"
    and ok: "field_ok m" "field_ok u" "field_ok v" "CHR '' '' \<notin> set m" "CHR '' '' \<notin> set u"
  obtains b' where
    "cpp_parseRequestLine nd req b =
       Inr (True, req\<lparr>m_method := m, m_url := u, m_version := v, m_curState := ParseReqHeaders\<rparr>, b')"
    "cpp_inv b'" "unread b' = rest"
proof -
  let ?l = "m @ '' '' @ u @ '' '' @ v"
  have c: "unread b = ?l @ crlf @ rest" using cont by simp
  have "CR \<notin> set ?l" using ok by (simp add: field_ok_def)
  then have i: "memmem (unread b) crlf = Some (length ?l)" unfolding c by (rule memmem_crlf)
  have tk: "take (length ?l) (unread b) = ?l" unfolding c by simp
  have ne: "length ?l \<noteq> 0" by simp
  let ?b = "readPosIncrease b (int (length ?l + 2))"
  have "cpp_parseRequestLine nd req b =
      Inr (True, req\<lparr>m_method := m, m_url := u, m_version := v, m_curState := ParseReqHeaders\<rparr>, ?b)"
    unfolding cpp_parseRequestLine_spec [OF inv i] tk split_line_fields [OF ok(4,5)]
    using ne by (simp only: if_False option.case prod.case)
  moreover have n: "length ?l + 2 \<le> length (unread b)" unfolding c by simp
  have "unread b = (?l @ crlf) @ rest" using c by simp
  then have "drop (length (?l @ crlf)) (unread b) = rest" by (metis append_eq_conv_conj)
  then have "unread ?b = rest" "cpp_inv ?b" using cpp_consume [OF inv n] by simp_all
  ultimately show ?thesis using that by blast
qed

text \<open>What a fresh request has become when the empty line has been read.\<close>

definition parsed :: "string \<Rightarrow> string \<Rightarrow> string \<Rightarrow> (string \<times> string) list \<Rightarrow> cpp_request" where
  "parsed m u v hs = (add_headers hs (resetRequest\<lparr>m_method := m, m_url := u, m_version := v,
     m_curState := ParseReqHeaders\<rparr>))\<lparr>m_curState := ParseReqDone\<rparr>"

lemma parsed_fields [simp]:
  "m_method (parsed m u v hs) = m" "m_url (parsed m u v hs) = u" "m_version (parsed m u v hs) = v"
  "m_curState (parsed m u v hs) = ParseReqDone"
  by (simp_all add: parsed_def)

lemma parsed_headers: "map_of (m_reqHeaders (parsed m u v hs)) = map_of (kept_headers hs)"
  using add_headers_lookup [of "resetRequest\<lparr>m_method := m, m_url := u, m_version := v,
     m_curState := ParseReqHeaders\<rparr>" hs] by (simp add: parsed_def resetRequest_def)

lemma cpp_parse_first:
  assumes inv: "cpp_inv b" and cont: "unread b = m @ '' '' @ u @ '' '' @ v @ crlf @ concat (map header_line hs) @ rest"
    and ok: "request_ok m u v hs"
  obtains b' where "cpp_parse_loop e nd sk resetRequest b r s =
      cpp_parse_loop e nd sk (add_headers hs (resetRequest\<lparr>m_method := m, m_url := u, m_version := v,
        m_curState := ParseReqHeaders\<rparr>)) b' r s" "cpp_inv b'" "unread b' = rest"
proof -
  note ok' = request_okD [OF ok]
  let ?q = "resetRequest\<lparr>m_method := m, m_url := u, m_version := v, m_curState := ParseReqHeaders\<rparr>"
  obtain b1 where b1: "cpp_parseRequestLine nd resetRequest b = Inr (True, ?q, b1)" "cpp_inv b1"
      "unread b1 = concat (map header_line hs) @ rest"
    using cpp_first_line [OF inv cont] ok' by metis
  have l: "cpp_parse_loop e nd sk resetRequest b r s = cpp_parse_loop e nd sk ?q b1 r s"
  proof -
    have "m_curState resetRequest = ParseReqLine" by (simp add: resetRequest_def)
    with b1(1) show ?thesis by (subst cpp_parse_loop.simps) simp
  qed
  have st: "m_curState ?q = ParseReqHeaders" and ho: "headers_ok hs" using ok' by simp_all
  from cpp_parse_header_lines [OF st b1(2,3) ho, of e nd sk r s] l that show ?thesis by metis
qed

lemma cpp_parse_request:
  assumes inv: "cpp_inv b" and cont: "unread b = print_request m u v hs @ rest" and ok: "request_ok m u v hs"
  obtains b' where "cpp_parse_loop e nd sk resetRequest b r s = cpp_finish e sk (parsed m u v hs) b' r s"
    "cpp_inv b'" "unread b' = rest"
proof -
  let ?q = "add_headers hs (resetRequest\<lparr>m_method := m, m_url := u, m_version := v, m_curState := ParseReqHeaders\<rparr>)"
  obtain b1 where b1: "cpp_parse_loop e nd sk resetRequest b r s = cpp_parse_loop e nd sk ?q b1 r s" "cpp_inv b1"
      "unread b1 = crlf @ rest"
    using cpp_parse_first [OF inv cont [unfolded print_request_line] ok] by metis
  note h = cpp_header_end [OF b1(2,3)]
  have st: "m_curState ?q = ParseReqHeaders" by simp
  have "cpp_parse_loop e nd sk ?q b1 r s = cpp_finish e sk (parsed m u v hs) (readPosIncrease b1 2) r s"
    using cpp_parse_finish [OF st h(1)] by (simp add: parsed_def)
  with b1(1) h(2,3) that show ?thesis by metis
qed

section \<open>A reply to a client that takes it\<close>

lemma put_roomy:
  assumes inv: "out_inv s" and rm: "roomy mem (as_c (o_buf s)) n" and le: "int (length t) \<le> n"
  obtains s' where "put mem t s = Inr s'" "grown (as_c (o_buf s)) t (as_c (o_buf s'))" "o_sent s' = o_sent s"
proof -
  obtain b' where b': "buffer_push mem (as_c (o_buf s)) t = Inr b'" "grown (as_c (o_buf s)) t b'"
    using push_roomy [OF inv rm le] by blast
  from b'(1) obtain b where b: "cpp_push mem (o_buf s) t = Inr b" "b' = as_c b"
    by (auto simp: cpp_push_c res_simps)
  then have "put mem t s = Inr (s\<lparr>o_buf := b\<rparr>)" by (simp add: put_def)
  with that [OF this] b'(2) b(2) show ?thesis by simp
qed

definition line_ok :: "string \<times> string \<Rightarrow> bool" where
  "line_ok kv \<longleftrightarrow> NUL \<notin> set (fst kv) \<and> NUL \<notin> set (snd kv) \<and> length (header_line kv) < 1024"

lemma put_headers_roomy:
  assumes "out_inv s" and "roomy mem (as_c (o_buf s)) n" and "\<forall>kv \<in> set hs. line_ok kv"
    and "int (length (concat (map header_line hs))) \<le> n"
  obtains s' where "put_headers mem hs s = Inr s'" "o_sent s' = o_sent s"
    "grown (as_c (o_buf s)) (concat (map header_line hs)) (as_c (o_buf s'))"
  using assms
proof (induction hs arbitrary: s n thesis)
  case Nil
  then show ?case by (simp add: grown_refl)
next
  case (Cons kv hs)
  obtain k v where kv: "kv = (k, v)" by fastforce
  have ok: "NUL \<notin> set k" "NUL \<notin> set v" "length (header_line (k, v)) < 1024"
    using Cons.prems(4) by (simp_all add: kv line_ok_def)
  then have l: "cstr k @ '': '' @ cstr v @ crlf = header_line (k, v)" "cstr (header_line (k, v)) = header_line (k, v)"
    by (simp_all add: cstr_id header_line_def crlf_def)
  have le: "int (length (header_line (k, v))) \<le> n" using Cons.prems(5) by (simp add: kv)
  from put_roomy [OF Cons.prems(2,3) le] obtain s1 where
    s1: "put mem (header_line (k, v)) s = Inr s1" "o_sent s1 = o_sent s"
      "grown (as_c (o_buf s)) (header_line (k, v)) (as_c (o_buf s1))" by blast
  have le1: "int (length (concat (map header_line hs))) \<le> n - int (length (header_line (k, v)))"
    using Cons.prems(5) by (simp add: kv)
  from Cons.IH [OF _ grownD(1) [OF s1(3)] grown_roomy [OF Cons.prems(2) s1(3) Cons.prems(3)] _ le1] Cons.prems(4)
  obtain s2 where s2: "put_headers mem hs s1 = Inr s2" "o_sent s2 = o_sent s1"
      "grown (as_c (o_buf s1)) (concat (map header_line hs)) (as_c (o_buf s2))" by auto
  have "put_headers mem (kv # hs) s = Inr s2"
    using s1(1) s2(1) ok(3) by (simp only: kv put_headers.simps l) (simp add: strcpy_into_def put_c_put l)
  with Cons.prems(1) [of s2] s1(2) s2(2) grown_trans [OF s1(3) s2(3)] show ?case by (simp add: kv)
qed

text \<open>The head of a reply.\<close>

definition cpp_head :: "HttpStatusCode \<Rightarrow> (string \<times> string) list \<Rightarrow> string" where
  "cpp_head c hs = ''HTTP/1.1 '' @ dec_int (status_code c) @ '' '' @ the (m_info (status_code c)) @ crlf @
     concat (map header_line hs) @ crlf"

lemma m_info_cases:
  assumes "c \<noteq> Unknown"
  obtains info where "m_info (status_code c) = Some info" "length info < 20" "NUL \<notin> set info"
  using assms by (cases c) (simp_all add: m_info_def)

lemma prepare_head_eager:
  assumes c: "m_statusCode r \<noteq> Unknown" and hs: "\<forall>kv \<in> set (m_headers r). line_ok kv"
    and e: "eager sk" and inv: "out_inv s" and u: "unread (o_buf s) = []"
    and room: "int (length (cpp_head (m_statusCode r) (m_headers r))) \<le> writeableSize (o_buf s)"
    and f: "m_sendDataFunc r = Some f" and n: "n \<le> m_capacity (o_buf s)"
  obtains s' where "prepareMsg e' sk r s = (case f of
      SendFile \<Rightarrow> cpp_sendFile e' sk (m_fileName r) s' | SendDir \<Rightarrow> Some (cpp_sendDir e' sk (m_fileName r) s'))"
    "emptied n s'" "o_sent s' = o_sent s @ cpp_head (m_statusCode r) (m_headers r)"
proof -
  let ?mem = "e_mem e'" and ?c = "m_statusCode r" and ?hs = "concat (map header_line (m_headers r))"
  obtain info where info: "m_info (status_code ?c) = Some info" "length info < 20" "NUL \<notin> set info"
    using m_info_cases [OF c] .
  let ?st = "''HTTP/1.1 '' @ dec_int (status_code ?c) @ '' '' @ info @ crlf"
  have st: "length ?st < 1024" "cstr ?st = ?st"
    using length_dec_int [of "status_code ?c" 3] status_code_range [of ?c] info(2,3)
    by (auto simp: crlf_def intro!: cstr_id)
  have head: "cpp_head ?c (m_headers r) = ?st @ ?hs @ crlf" by (simp add: cpp_head_def info)
  have rm: "roomy ?mem (as_c (o_buf s)) (int (length (?st @ ?hs @ crlf)))"
    using room head by (simp add: roomy_def sizes_as_c)
  from put_roomy [OF inv rm, of ?st] obtain s1 where
    s1: "put ?mem ?st s = Inr s1" "o_sent s1 = o_sent s" "grown (as_c (o_buf s)) ?st (as_c (o_buf s1))" by auto
  note rm1 = grown_roomy [OF inv s1(3) rm]
  from put_headers_roomy [OF grownD(1) [OF s1(3)] rm1 hs] obtain s2 where
    s2: "put_headers ?mem (m_headers r) s1 = Inr s2" "o_sent s2 = o_sent s1"
      "grown (as_c (o_buf s1)) ?hs (as_c (o_buf s2))" by auto
  note rm2 = grown_roomy [OF grownD(1) [OF s1(3)] s2(3) rm1]
  from put_roomy [OF grownD(1) [OF s2(3)] rm2, of crlf] obtain s3 where
    s3: "put ?mem crlf s2 = Inr s3" "o_sent s3 = o_sent s2" "grown (as_c (o_buf s2)) crlf (as_c (o_buf s3))" by auto
  have g: "grown (as_c (o_buf s)) (?st @ ?hs @ crlf) (as_c (o_buf s3))"
    using grown_trans [OF s1(3) grown_trans [OF s2(3) s3(3)]] by simp
  have fl: "flow s3 = o_sent s @ ?st @ ?hs @ crlf"
    using g u s1(2) s2(2) s3(2) by (simp add: grown_def flow_def sizes_as_c)
  have cap: "n \<le> m_capacity (o_buf s3)" using g n by (simp add: grown_def)
  have i3: "out_inv s3" using g by (rule grownD)
  from send_eager [OF e i3 cap] have
    "emptied n (send_now sk s3)" "o_sent (send_now sk s3) = o_sent s @ cpp_head ?c (m_headers r)"
    by (simp_all add: fl head)
  moreover have "put_status ?mem ?c s = Inr s1"
    using st s1(1) by (simp only: put_status_def info(1) option.case) (simp add: strcpy_into_def put_c_put)
  moreover have "cstr crlf = crlf" by (simp add: crlf_def)
  ultimately show ?thesis
    using that [of "send_now sk s3"] s2(1) s3(1)
    by (simp add: prepareMsg_def f put_c_put split: response_body.split)
qed

lemma cpp_sendFile_content:
  assumes "eager sk" and "emptied n s" and "1024 \<le> n"
  shows "\<exists>s'. cpp_sendFile_loop mem sk (file_reads c) k False s = Some (Inr s') \<and> emptied n s' \<and>
    o_sent s' = o_sent s @ drop (1024 * k) c"
  using assms(2)
proof (induction "length (drop (1024 * k) c)" arbitrary: k s rule: less_induct)
  case less
  let ?rest = "drop (1024 * k) c"
  let ?t = "take 1024 ?rest"
  have fr: "file_reads c k = ReadBytes ?t" by (simp add: file_reads_def)
  show ?case
  proof (cases "?t = []")
    case True
    then have "cpp_sendFile_loop mem sk (file_reads c) k False s = Some (Inr s)"
      by (subst cpp_sendFile_loop.simps) (simp add: fr)
    with True less.prems show ?thesis by simp
  next
    case False
    have split: "drop (1024 * Suc k) c = drop 1024 ?rest" by (simp add: add.commute)
    have "int (length ?t) \<le> n" using assms(3) by simp
    from put_send_eager [OF assms(1) less.prems this, of mem] obtain s1 where
      s1: "put_send mem sk ?t s = Inr s1" "emptied n s1" "o_sent s1 = o_sent s @ ?t" by blast
    have "length (drop (1024 * Suc k) c) < length ?rest" using False by simp
    from less.hyps [OF this s1(2)] obtain s' where
      s': "cpp_sendFile_loop mem sk (file_reads c) (Suc k) False s1 = Some (Inr s')" "emptied n s'"
        "o_sent s' = o_sent s1 @ drop (1024 * Suc k) c" by blast
    have "cpp_sendFile_loop mem sk (file_reads c) k False s = Some (Inr s')"
      using s'(1) s1(1) False by (subst cpp_sendFile_loop.simps) (simp add: fr)
    moreover have "?t @ drop (1024 * Suc k) c = ?rest" unfolding split by (rule append_take_drop_id)
    ultimately show ?thesis using s'(2,3) s1(3) by (intro exI [of _ s']) simp
  qed
qed

lemma cpp_sendDir_page:
  assumes "eager sk" and "emptied 4096 s" and "\<forall>n \<in> set names. entry_ok e dir n" and "length dir < 128"
    and "NUL \<notin> set cur" and "length cur < 1024"
  shows "\<exists>s'. cpp_sendDir_loop e sk dir names cur s = Inr (if names = [] then cur else [], s') \<and>
    emptied 4096 s' \<and> o_sent s' = o_sent s @ (if names = [] then [] else cur @ listing e dir names)"
  using assms(2-)
proof (induction names arbitrary: cur s)
  case Nil
  then show ?case by simp
next
  case (Cons name names)
  let ?row = "entry_row e dir name"
  from Cons.prems(2) have ok: "entry_ok e dir name" by simp
  note row = entry_row_facts [OF ok]
  have l: "listing e dir (name # names) = ?row @ listing e dir names" by (simp add: listing_def)
  from ok obtain st where st: "fs_stat e (dir @ ''/'' @ name) = Some st" "length name < 256"
    by (auto simp: entry_ok_def)
  then have r: "?row = dir_row name st" by (simp add: entry_row_def)
  have line: "cstr (cur @ ?row) = cur @ ?row" "length (cur @ ?row) < 4096"
    using Cons.prems(4,5) row by (auto intro: cstr_id)
  have "int (length (cur @ ?row)) \<le> 4096" using line(2) by simp
  from put_send_eager [OF assms(1) Cons.prems(1) this, of "e_mem e"] obtain s1 where
    s1: "put_send (e_mem e) sk (cur @ ?row) s = Inr s1" "emptied 4096 s1" "o_sent s1 = o_sent s @ cur @ ?row"
    by blast
  then obtain s0 where s0: "put (e_mem e) (cur @ ?row) s = Inr s0" "s1 = send_now sk s0"
    by (auto simp: put_send_def res_simps)
  obtain s' where s': "cpp_sendDir_loop e sk dir names [] s1 = Inr ([], s')" "emptied 4096 s'"
      "o_sent s' = o_sent s1 @ listing e dir names"
    using Cons.IH [of s1 "[]"] s1(2) Cons.prems(2,3) by (cases "names = []") (auto simp: listing_def)
  have "cpp_sendDir_loop e sk dir (name # names) cur s = Inr ([], s')"
    using Cons.prems(3) st line s0 s'(1) by (simp add: strcpy_into_def put_c_put flip: r)
  with s'(2,3) s1(3) show ?case by (simp add: l)
qed

lemma cpp_sendDir_eager:
  assumes "eager sk" and "emptied 4096 s" and "fs_scandir e dir = Some names" and "names \<noteq> []"
    and "\<forall>n \<in> set names. entry_ok e dir n" and "NUL \<notin> set dir" and "length dir < 128"
  obtains s' where "cpp_sendDir e sk dir s = Inr s'" "emptied 4096 s'" "o_sent s' = o_sent s @ dir_page e dir names"
proof -
  have head: "NUL \<notin> set (dir_head dir)" "length (dir_head dir) < 1024"
    using assms(6,7) by (simp_all add: dir_head_def)
  obtain s1 where s1: "cpp_sendDir_loop e sk dir names (dir_head dir) s = Inr ([], s1)" "emptied 4096 s1"
      "o_sent s1 = o_sent s @ dir_head dir @ listing e dir names"
    using cpp_sendDir_page [OF assms(1,2,5,7) head] assms(4) by auto
  have tl: "cstr dir_tail = dir_tail" "length dir_tail < 1024" by (simp_all add: dir_tail_def)
  then have le: "int (length dir_tail) \<le> 4096" by simp
  from put_send_eager [OF assms(1) s1(2) le, of "e_mem e"] obtain s2 where
    s2: "put_send (e_mem e) sk dir_tail s1 = Inr s2" "emptied 4096 s2" "o_sent s2 = o_sent s1 @ dir_tail" by blast
  then obtain s0 where s0: "put (e_mem e) dir_tail s1 = Inr s0" "s2 = send_now sk s0"
    by (auto simp: put_send_def res_simps)
  have "cpp_sendDir e sk dir s = Inr s2"
    using assms(3) head s1(1) s0 tl
    by (simp add: cpp_sendDir_def cstr_id [OF assms(6)] strcpy_into_def put_c_put)
  with that s1(3) s2(2,3) show ?thesis by (simp add: dir_page_def)
qed

text \<open>
  The headers of a reply are those of the C server, in the order of the map; status, body function
  and file are the same.
\<close>

definition sorted_headers :: "(string \<times> string) list \<Rightarrow> (string \<times> string) list" where
  "sorted_headers hs = fold (\<lambda>(k, v). map_insert k v) hs []"

lemma dec_nat_nonempty: "dec_nat n \<noteq> []"
  by (subst dec_nat.simps) simp

lemma dec_int_nonempty: "dec_int i \<noteq> []"
  by (simp add: dec_int_def dec_nat_nonempty)

lemma cpp_respond_reply:
  assumes "reply_for e p = (c, msg, hs, f, fn)"
  shows "cpp_respond e p newResponse = \<lparr>m_statusCode = c, m_fileName = fn, m_headers = sorted_headers hs, m_sendDataFunc = Some f\<rparr>"
proof (cases "fs_stat e p")
  case None
  with assms getFileType_facts [of "''.html''"] show ?thesis
    by (auto simp: reply_for_def cpp_respond_def sorted_headers_def newResponse_def addResponseHeader_def cpp_getFileType_c)
next
  case (Some st)
  with assms getFileType_facts [of "''.html''"] getFileType_facts [of p] dec_int_nonempty [of "st_size st"] show ?thesis
    by (auto simp: reply_for_def cpp_respond_def sorted_headers_def newResponse_def addResponseHeader_def
        cpp_getFileType_c Let_def split: if_splits)
qed

lemma set_map_insert_sub: "set (map_insert k v m) \<subseteq> insert (k, v) (set m)"
  by (induction k v m rule: map_insert.induct) auto

lemma sorted_headers_sub: "set (fold (\<lambda>(k, v). map_insert k v) hs m) \<subseteq> set hs \<union> set m"
proof (induction hs arbitrary: m)
  case (Cons kv hs)
  obtain k v where kv: "kv = (k, v)" by fastforce
  have "set (fold (\<lambda>(k, v). map_insert k v) hs (map_insert k v m)) \<subseteq> set hs \<union> insert (k, v) (set m)"
    using Cons.IH [of "map_insert k v m"] set_map_insert_sub [of k v m] by blast
  then show ?case by (auto simp: kv)
qed simp

lemma length_map_insert: "length (map_insert k v m) \<le> Suc (length m)"
  by (induction k v m rule: map_insert.induct) auto

lemma header_ok_line: "header_ok kv \<Longrightarrow> line_ok kv \<and> length (header_line kv) < 200"
  by (auto simp: header_ok_def line_ok_def header_line_def crlf_def split: prod.splits)

lemma reply_headers_small:
  assumes r: "reply_for e p = (c, msg, hs, f, fn)" and p: "path_ok e p"
  shows "c \<noteq> Unknown" and "\<forall>kv \<in> set (sorted_headers hs). line_ok kv"
    and "length (cpp_head c (sorted_headers hs)) \<le> 1024"
proof -
  have h: "\<forall>kv \<in> set hs. header_ok kv" "length hs \<le> 2" and c: "c \<noteq> Unknown"
    using r p header_ok_type header_ok_length
    by (auto simp: reply_for_def path_ok_def split: option.splits if_splits)
  show "c \<noteq> Unknown" by (fact c)
  have sub: "set (sorted_headers hs) \<subseteq> set hs" using sorted_headers_sub [of hs "[]"] by (simp add: sorted_headers_def)
  then show "\<forall>kv \<in> set (sorted_headers hs). line_ok kv" using h(1) header_ok_line by blast
  have "length (fold (\<lambda>(k, v). map_insert k v) hs m) \<le> length hs + length m" for hs m :: "(string \<times> string) list"
  proof (induction hs arbitrary: m)
    case (Cons kv hs)
    show ?case using Cons.IH [of "map_insert (fst kv) (snd kv) m"] length_map_insert [of "fst kv" "snd kv" m]
      by (simp add: split_def)
  qed simp
  from this [of hs "[]"] have "length (sorted_headers hs) \<le> 2" using h(2) by (simp add: sorted_headers_def)
  moreover have "\<forall>kv \<in> set (sorted_headers hs). length (header_line kv) < 200"
    using sub h(1) header_ok_line by blast
  moreover have "length (concat (map header_line l)) \<le> 200 * length l"
    if "\<forall>kv \<in> set l. length (header_line kv) < 200" for l
    using that by (induction l) auto
  ultimately have "length (concat (map header_line (sorted_headers hs))) \<le> 400" by fastforce
  moreover obtain info where "m_info (status_code c) = Some info" "length info < 20"
    using m_info_cases [OF c] by metis
  ultimately show "length (cpp_head c (sorted_headers hs)) \<le> 1024"
    using length_dec_int [of "status_code c" 3] status_code_range [of c] by (simp add: cpp_head_def)
qed

text \<open>The body of any of the two kinds, to a client that takes what it is sent.\<close>

lemma body_eager:
  assumes e: "eager sk" and d: "emptied 4096 s" and b: "reply_body e' f fn txt" and fn: "NUL \<notin> set fn" "length fn < 128"
  obtains s' where "(case f of SendFile \<Rightarrow> cpp_sendFile e' sk fn s | SendDir \<Rightarrow> Some (cpp_sendDir e' sk fn s)) = Some (Inr s')"
    "emptied 4096 s'" "o_sent s' = o_sent s @ txt"
proof (cases f)
  case SendFile
  with b have "fs_open e' fn = Some (file_reads txt)" by (simp add: reply_body_def produces_def)
  with SendFile cpp_sendFile_content [OF e d, of "e_mem e'" "txt" 0] that show ?thesis
    by (auto simp: cpp_sendFile_def cstr_id [OF fn(1)])
next
  case SendDir
  with b obtain names where n: "fs_scandir e' fn = Some names" "names \<noteq> []" "\<forall>n \<in> set names. entry_ok e' fn n"
      "txt = dir_page e' fn names" by (auto simp: reply_body_def produces_def)
  from cpp_sendDir_eager [OF e d n(1-3) fn] that SendDir n(4) show ?thesis by auto
qed

lemma requested_file:
  assumes "cstr (decode u) \<noteq> []"
  shows "(let url = decode u @ [NUL] in if cstr url = ''/'' then ''./'' else cstr (tl (url @ [NUL]))) = requested_path u"
proof -
  obtain a d where d: "decode u = a # d" "a \<noteq> NUL"
    using assms by (cases "decode u") (auto split: if_splits)
  then show ?thesis by (auto simp: requested_path_def cstr_append cstr_id)
qed

lemma cpp_process_get:
  assumes "strcasecmp_eq m ''get''" and "NUL \<notin> set m" and "NUL \<notin> set u" and "cstr (decode u) \<noteq> []"
  shows "cpp_process e (parsed m u v hs) r =
    Inr (False, (parsed m u v hs)\<lparr>m_url := decode u @ [NUL]\<rparr>, cpp_respond e (requested_path u) r)"
  using assms(1) requested_file [OF assms(4)]
  by (simp add: cpp_process_def cpp_decodeMsg_value cstr_id assms(2,3) Let_def)

lemma requested_path_facts: "NUL \<notin> set (requested_path u)"
  using cstr_no_NUL [of "decode u"] by (cases "cstr (decode u)") (auto simp: requested_path_def)

lemma cpp_get_answered:
  assumes inv: "cpp_inv b" and cont: "unread b = print_request m u v hs @ rest" and ok: "request_ok m u v hs"
    and get: "strcasecmp_eq m ''get''" "cstr (decode u) \<noteq> []"
    and p: "path_ok e (requested_path u)" and r: "reply_for e (requested_path u) = (c, msg, rhs, f, fn)"
    and body: "reply_body e f fn txt"
    and sk: "eager sk" and s: "out_inv s" "unread (o_buf s) = []" "4096 \<le> writeableSize (o_buf s)"
  obtains q b' s' where "cpp_parse_loop e nd sk resetRequest b newResponse s =
      Some (Inr (True, q, b', cpp_respond e (requested_path u) newResponse, s'))"
    "m_curState q = ParseReqLine" "m_method q = m" "m_version q = v"
    "map_of (m_reqHeaders q) = map_of (kept_headers hs)"
    "cpp_inv b'" "unread b' = rest" "emptied 4096 s'"
    "o_sent s' = o_sent s @ cpp_head c (sorted_headers rhs) @ txt"
proof -
  obtain b' where b': "cpp_parse_loop e nd sk resetRequest b newResponse s = cpp_finish e sk (parsed m u v hs) b' newResponse s"
      "cpp_inv b'" "unread b' = rest"
    by (rule cpp_parse_request [OF inv cont ok])
  have nn: "NUL \<notin> set m" "NUL \<notin> set u" using request_okD [OF ok] by (simp_all add: field_ok_def)
  let ?q = "(parsed m u v hs)\<lparr>m_url := decode u @ [NUL]\<rparr>" and ?r = "cpp_respond e (requested_path u) newResponse"
  note pr = cpp_process_get [OF get(1) nn get(2)]
  note rr = cpp_respond_reply [OF r]
  note small = reply_headers_small [OF r p]
  have cap: "4096 \<le> m_capacity (o_buf s)"
    using s(3) buffer_invD [OF s(1)] by (simp add: writeableSize_def)
  have fn: "NUL \<notin> set fn" "length fn < 128"
    using r p requested_path_facts [of u] by (auto simp: reply_for_def path_ok_def split: option.splits if_splits)
  obtain s1 where s1: "prepareMsg e sk ?r s = (case f of
      SendFile \<Rightarrow> cpp_sendFile e sk (m_fileName ?r) s1 | SendDir \<Rightarrow> Some (cpp_sendDir e sk (m_fileName ?r) s1))"
    "emptied 4096 s1" "o_sent s1 = o_sent s @ cpp_head (m_statusCode ?r) (m_headers ?r)"
    by (rule prepare_head_eager [of ?r sk s f 4096 e])
      (use small s sk cap in \<open>simp_all add: rr\<close>)
  have fl: "m_fileName ?r = fn" by (simp add: rr)
  obtain s' where b: "(case f of SendFile \<Rightarrow> cpp_sendFile e sk fn s1 | SendDir \<Rightarrow> Some (cpp_sendDir e sk fn s1)) = Some (Inr s')"
    and d': "emptied 4096 s'" "o_sent s' = o_sent s1 @ txt"
    by (rule body_eager [OF sk s1(2) body fn])
  have s': "prepareMsg e sk ?r s = Some (Inr s')" "emptied 4096 s'" "o_sent s' = o_sent s1 @ txt"
    using s1(1) b d' unfolding fl by (simp_all only:)
  have q: "m_curState (?q\<lparr>m_curState := ParseReqLine\<rparr>) = ParseReqLine" "m_method (?q\<lparr>m_curState := ParseReqLine\<rparr>) = m"
    "m_version (?q\<lparr>m_curState := ParseReqLine\<rparr>) = v"
    "map_of (m_reqHeaders (?q\<lparr>m_curState := ParseReqLine\<rparr>)) = map_of (kept_headers hs)"
    by (simp_all add: parsed_headers)
  have fin: "cpp_parse_loop e nd sk resetRequest b newResponse s =
      Some (Inr (True, ?q\<lparr>m_curState := ParseReqLine\<rparr>, b', ?r, s'))"
    unfolding b'(1) cpp_finish_def pr bindO_simps prod.case s'(1) ..
  have out: "o_sent s' = o_sent s @ cpp_head c (sorted_headers rhs) @ txt"
    unfolding s'(3) s1(3) rr by simp
  show ?thesis by (rule that [OF fin q b'(2,3) s'(2) out])
qed

text \<open>A request whose header section is not complete.\<close>

lemma cpp_parse_partial:
  assumes inv: "cpp_inv b" and ok: "request_ok m u v hs" and rest: "memmem rest crlf = None"
    and cont: "unread b = m @ '' '' @ u @ '' '' @ v @ crlf @ concat (map header_line hs) @ rest"
  obtains q b' where "cpp_parse_loop e nd sk resetRequest b r s = Some (Inr (False, q, b', r, s))"
    "cpp_inv b'" "unread b' = rest"
proof -
  let ?q = "add_headers hs (resetRequest\<lparr>m_method := m, m_url := u, m_version := v, m_curState := ParseReqHeaders\<rparr>)"
  obtain b' where b': "cpp_parse_loop e nd sk resetRequest b r s = cpp_parse_loop e nd sk ?q b' r s" "cpp_inv b'" "unread b' = rest"
    by (rule cpp_parse_first [OF inv cont ok])
  have "cpp_parseRequestHeader ?q b' = (False, ?q, b')"
    using rest b'(3) by (simp add: cpp_parseRequestHeader_def findCRLF_def)
  then have "cpp_parse_loop e nd sk ?q b' r s = Some (Inr (False, ?q, b', r, s))"
    by (subst cpp_parse_loop.simps) simp
  with b' that show ?thesis by simp
qed

text \<open>A first line the parser cannot read.\<close>

lemma cpp_parse_bad_line:
  assumes inv: "cpp_inv b"
  shows "memmem (unread b) crlf = None \<Longrightarrow> cpp_parse_loop e nd sk resetRequest b r s =
      (if 0 < nd then Some (Inl NullDeref) else Some (Inr (False, resetRequest, b, r, s)))"
    and "unread b = crlf @ rest \<Longrightarrow> cpp_parse_loop e nd sk resetRequest b r s = Some (Inr (False, resetRequest, b, r, s))"
    and "memmem (unread b) crlf = Some i \<Longrightarrow> i \<noteq> 0 \<Longrightarrow> split_line (take i (unread b)) = None \<Longrightarrow>
      cpp_parse_loop e nd sk resetRequest b r s = Some (Inl AssertFail)"
proof -
  have st: "m_curState resetRequest = ParseReqLine" by (simp add: resetRequest_def)
  note step = cpp_parse_loop.simps [of e nd sk resetRequest b r s]
  show "cpp_parse_loop e nd sk resetRequest b r s =
      (if 0 < nd then Some (Inl NullDeref) else Some (Inr (False, resetRequest, b, r, s)))" if "memmem (unread b) crlf = None"
    using that by (simp add: step st cpp_parseRequestLine_def findCRLF_def)
  show "cpp_parse_loop e nd sk resetRequest b r s = Some (Inr (False, resetRequest, b, r, s))" if "unread b = crlf @ rest"
    using that memmem_crlf [of "[]" rest] by (simp add: step st cpp_parseRequestLine_spec [OF inv])
  show "cpp_parse_loop e nd sk resetRequest b r s = Some (Inl AssertFail)"
    if "memmem (unread b) crlf = Some i" "i \<noteq> 0" "split_line (take i (unread b)) = None"
    using that by (simp add: step st cpp_parseRequestLine_spec [OF inv])
qed

text \<open>A method other than GET reaches \<^verbatim>\<open>m_info.at(0)\<close>.\<close>

lemma cpp_parse_other:
  assumes "cpp_inv b" and "unread b = print_request m u v hs @ rest" and "request_ok m u v hs"
    and "\<not> strcasecmp_eq m ''get''"
  shows "cpp_parse_loop e nd sk resetRequest b newResponse s = Some (Inl Uncaught)"
proof -
  obtain b' where b': "cpp_parse_loop e nd sk resetRequest b newResponse s = cpp_finish e sk (parsed m u v hs) b' newResponse s"
    by (rule cpp_parse_request [OF assms(1-3)])
  have "NUL \<notin> set m" using request_okD [OF assms(3)] by (simp add: field_ok_def)
  then have "cpp_process e (parsed m u v hs) newResponse = Inr (True, parsed m u v hs, newResponse)"
    using assms(4) by (simp add: cpp_process_def cstr_id)
  moreover have "prepareMsg e sk newResponse s = Some (Inl Uncaught)"
    by (simp add: prepareMsg_def newResponse_def put_status_def m_info_def)
  ultimately show ?thesis unfolding b' by (simp add: cpp_finish_def)
qed

end
