(* ===== verification/CppLoop.thy ===== *)
theory CppLoop
  imports CppHttp World
begin

text \<open>
  The event loop of the C++ rewrite: \<^verbatim>\<open>Channel.cpp\<close>, \<^verbatim>\<open>EpollDispatcher.cpp\<close>,
  \<^verbatim>\<open>EventLoop.cpp\<close> and \<^verbatim>\<open>TcpConnection.cpp\<close> of \<^verbatim>\<open>ReactorHTTP-CPP\<close>. Unlike the
  C server, the loop keeps its tasks in a \<^verbatim>\<open>std::queue\<close> and its channels in a
  \<^verbatim>\<open>std::map\<close>, nothing is ever watched for writing, and a connection is given up after every
  read. The process is a \<open>cpp_world\<close> of maps from addresses to objects; the critical sections of
  \<^verbatim>\<open>m_mutex\<close> are atomic. The four objects a connection allocates are its \<open>parts\<close>, kept
  apart from it because its destructor does not always delete them.
\<close>

section \<open>The code: channels\<close>

text \<open>The functions the program ever stores in a channel; an empty \<^verbatim>\<open>std::function\<close> is \<open>None\<close>.\<close>

datatype handler = ReadMessage | Accept | ConnRead | ConnWrite | ConnDestroy

record cpp_channel =
  c_fd :: int
  c_events :: "32 word"
  c_read :: "handler option"
  c_write :: "handler option"
  c_destroy :: "handler option"
  c_arg :: nat

definition newChannel ::
  "int \<Rightarrow> 32 word \<Rightarrow> handler option \<Rightarrow> handler option \<Rightarrow> handler option \<Rightarrow> nat \<Rightarrow> cpp_channel" where
  "newChannel fd events r w d arg =
     \<lparr>c_fd = fd, c_events = events, c_read = r, c_write = w, c_destroy = d, c_arg = arg\<rparr>"

definition cpp_writeEventEnable :: "bool \<Rightarrow> cpp_channel \<Rightarrow> cpp_channel" where
  "cpp_writeEventEnable flag c =
     (if flag then c\<lparr>c_events := c_events c OR WriteEvent\<rparr>
      else c\<lparr>c_events := c_events c AND NOT WriteEvent\<rparr>)"

definition isWriteEventEnable :: "cpp_channel \<Rightarrow> bool" where
  "isWriteEventEnable c \<longleftrightarrow> c_events c AND WriteEvent \<noteq> 0"

section \<open>The code: the process\<close>

record cpp_loop =
  m_isQuit :: bool
  m_dispatcher :: epoll_data
  m_taskQ :: "(ElemType \<times> nat) list"
  m_channelMap :: "int \<rightharpoonup> nat option"
  m_threadID :: nat
  m_threadName :: string
  m_socketPair :: "int \<times> int"

record cpp_conn =
  m_name :: string
  m_evLoop :: nat
  m_channel :: nat

record conn_parts =
  m_readBuf :: cpp_buffer
  m_writeBuf :: cpp_buffer
  m_request :: cpp_request
  m_response :: cpp_response

text \<open>A worker is the loop its thread has made; the pool hands them out in turn.\<close>

record cpp_worker =
  wk_name :: string
  wk_evLoop :: nat

record cpp_pool =
  tp_mainLoop :: nat
  tp_isStart :: bool
  tp_threadNum :: int
  tp_workers :: "cpp_worker list"
  tp_index :: int

record cpp_server =
  s_port :: "16 word"
  s_lfd :: int
  s_threadNum :: int
  s_mainLoop :: nat
  s_pool :: cpp_pool

text \<open>
  What the system calls of one callback answer: the bytes \<^verbatim>\<open>readv\<close> finds (\<open>None\<close>: it
  fails), what each \<^verbatim>\<open>send\<close> takes, what \<^verbatim>\<open>accept\<close> returns, and the
  \<^verbatim>\<open>int\<close> that NULL less the start of the received bytes comes to.
\<close>

record cpp_io =
  x_avail :: "string option"
  x_sends :: "nat \<Rightarrow> send_outcome"
  x_accept :: int
  x_null :: int

record cpp_world =
  x_loops :: "nat \<Rightarrow> cpp_loop option"
  x_channels :: "nat \<Rightarrow> cpp_channel option"
  x_conns :: "nat \<Rightarrow> cpp_conn option"
  x_parts :: "nat \<Rightarrow> conn_parts option"
  x_servers :: "nat \<Rightarrow> cpp_server option"
  x_next :: nat
  x_self :: nat
  x_open :: "int \<Rightarrow> bool"
  x_inbox :: "int \<Rightarrow> string"
  x_sent :: "int \<Rightarrow> string"
  x_io :: "nat \<Rightarrow> cpp_io"
  x_tick :: nat
  x_env :: env

definition the_io :: "cpp_world \<Rightarrow> cpp_io" where
  "the_io w = x_io w (x_tick w)"

definition set_loop :: "nat \<Rightarrow> (cpp_loop \<Rightarrow> cpp_loop) \<Rightarrow> cpp_world \<Rightarrow> cpp_world" where
  "set_loop l f w = w\<lparr>x_loops := (x_loops w)(l := map_option f (x_loops w l))\<rparr>"

text \<open>Closing a descriptor takes it off every epoll list.\<close>

definition cpp_close :: "int \<Rightarrow> cpp_world \<Rightarrow> cpp_world" where
  "cpp_close fd w = w\<lparr>x_open := (x_open w)(fd := False),
     x_loops := (\<lambda>l. map_option (\<lambda>lp. lp\<lparr>m_dispatcher :=
       (m_dispatcher lp)\<lparr>ep_set := (ep_set (m_dispatcher lp))(fd := None)\<rparr>\<rparr>) (x_loops w l))\<rparr>"

section \<open>The code: releasing a connection\<close>

definition cpp_freeChannel :: "nat \<Rightarrow> nat \<Rightarrow> cpp_world \<Rightarrow> cpp_world res" where
  "cpp_freeChannel l ch w =
     bindR (lookup (x_channels w) ch) (\<lambda>c.
     bindR (lookup (x_loops w) l) (\<lambda>lp.
     if m_channelMap lp (c_fd c) = None then Inr w
     else
       (let w = set_loop l (\<lambda>lp. lp\<lparr>m_channelMap := (m_channelMap lp)(c_fd c := None)\<rparr>) w;
            w = cpp_close (c_fd c) w in
        Inr (w\<lparr>x_channels := (x_channels w)(ch := None)\<rparr>))))"

text \<open>The destructor: the parts and the channel go only when both buffers are empty.\<close>

definition cpp_conn_delete :: "nat \<Rightarrow> cpp_world \<Rightarrow> cpp_world res" where
  "cpp_conn_delete p w =
     bindR (lookup (x_conns w) p) (\<lambda>conn.
     bindR (lookup (x_parts w) p) (\<lambda>parts.
     bindR (if readableSize (m_readBuf parts) = 0 \<and> readableSize (m_writeBuf parts) = 0
            then cpp_freeChannel (m_evLoop conn) (m_channel conn) (w\<lparr>x_parts := (x_parts w)(p := None)\<rparr>)
            else Inr w) (\<lambda>w.
     Inr (w\<lparr>x_conns := (x_conns w)(p := None)\<rparr>))))"

definition cpp_call_destroy :: "handler \<Rightarrow> nat \<Rightarrow> cpp_world \<Rightarrow> cpp_world res" where
  "cpp_call_destroy f a w = (case f of ConnDestroy \<Rightarrow> cpp_conn_delete a w | _ \<Rightarrow> Inl UseAfterFree)"

section \<open>The code: the epoll dispatcher\<close>

text \<open>The argument is the result of \<^verbatim>\<open>epoll_create\<close>.\<close>

definition newEpollDispatcher :: "int \<Rightarrow> epoll_data res" where
  "newEpollDispatcher efd =
     (if efd = -1 then Inl ProcessExit else Inr \<lparr>epfd = efd, ep_set = Map.empty, ep_events = True\<rparr>)"

definition cpp_epollCtl :: "ctl_op \<Rightarrow> nat \<Rightarrow> cpp_channel \<Rightarrow> cpp_world \<Rightarrow> (int \<times> cpp_world) res" where
  "cpp_epollCtl op l c w =
     bindR (lookup (x_loops w) l) (\<lambda>lp.
     let events = (if has_event (c_events c) ReadEvent then EPOLLIN else 0) OR
                  (if has_event (c_events c) WriteEvent then EPOLLOUT else 0);
         (ret, d) = epoll_ctl (x_open w) op (c_fd c) events (m_dispatcher lp) in
     Inr (ret, set_loop l (\<lambda>lp. lp\<lparr>m_dispatcher := d\<rparr>) w))"

definition dispatcher_add :: "nat \<Rightarrow> cpp_channel \<Rightarrow> cpp_world \<Rightarrow> (int \<times> cpp_world) res" where
  "dispatcher_add l c w =
     bindR (cpp_epollCtl EPOLL_CTL_ADD l c w) (\<lambda>(ret, w).
     if ret = -1 then Inl ProcessExit else Inr (ret, w))"

definition dispatcher_remove :: "nat \<Rightarrow> cpp_channel \<Rightarrow> cpp_world \<Rightarrow> (int \<times> cpp_world) res" where
  "dispatcher_remove l c w =
     bindR (cpp_epollCtl EPOLL_CTL_DEL l c w) (\<lambda>(ret, w).
     if ret = -1 then Inl ProcessExit
     else
       (case c_destroy c of
          None \<Rightarrow> Inl Uncaught
        | Some f \<Rightarrow> bindR (cpp_call_destroy f (c_arg c) w) (\<lambda>w. Inr (ret, w))))"

definition dispatcher_modify :: "nat \<Rightarrow> cpp_channel \<Rightarrow> cpp_world \<Rightarrow> (int \<times> cpp_world) res" where
  "dispatcher_modify l c w =
     bindR (cpp_epollCtl EPOLL_CTL_MOD l c w) (\<lambda>(ret, w).
     if ret = -1 then Inl ProcessExit else Inr (ret, w))"

section \<open>The code: the loop\<close>

definition cpp_add :: "nat \<Rightarrow> nat \<Rightarrow> cpp_world \<Rightarrow> (int \<times> cpp_world) res" where
  "cpp_add l ch w =
     bindR (lookup (x_channels w) ch) (\<lambda>c.
     bindR (lookup (x_loops w) l) (\<lambda>lp.
     if m_channelMap lp (c_fd c) = None
     then dispatcher_add l c
            (set_loop l (\<lambda>lp. lp\<lparr>m_channelMap := (m_channelMap lp)(c_fd c \<mapsto> Some ch)\<rparr>) w)
     else Inr (-1, w)))"

definition cpp_remove :: "nat \<Rightarrow> nat \<Rightarrow> cpp_world \<Rightarrow> (int \<times> cpp_world) res" where
  "cpp_remove l ch w =
     bindR (lookup (x_channels w) ch) (\<lambda>c.
     bindR (lookup (x_loops w) l) (\<lambda>lp.
     if m_channelMap lp (c_fd c) = None then Inr (-1, w) else dispatcher_remove l c w))"

definition cpp_modify :: "nat \<Rightarrow> nat \<Rightarrow> cpp_world \<Rightarrow> (int \<times> cpp_world) res" where
  "cpp_modify l ch w =
     bindR (lookup (x_channels w) ch) (\<lambda>c.
     bindR (lookup (x_loops w) l) (\<lambda>lp.
     if m_channelMap lp (c_fd c) = None then Inr (-1, w) else dispatcher_modify l c w))"

text \<open>The message of \<^verbatim>\<open>taskWakeup\<close>, in UTF-8.\<close>

definition wake_msg :: string where
  "wake_msg = map (char_of :: nat \<Rightarrow> char)
   [230, 136, 145, 230, 152, 175, 232, 166, 129, 230, 136, 144, 228, 184, 186, 230, 181, 183,
    232, 180, 188, 231, 142, 139, 231, 154, 132, 231, 148, 183, 228, 186, 186, 33, 33, 33]"

lemma wake_msg_nonempty [simp]: "wake_msg \<noteq> []"
  by (simp add: wake_msg_def)

definition cpp_taskWakeup :: "nat \<Rightarrow> cpp_world \<Rightarrow> cpp_world res" where
  "cpp_taskWakeup l w =
     bindR (lookup (x_loops w) l) (\<lambda>lp.
     let fd = snd (m_socketPair lp) in Inr (w\<lparr>x_inbox := (x_inbox w)(fd := x_inbox w fd @ wake_msg)\<rparr>))"

definition cpp_run_task :: "nat \<Rightarrow> ElemType \<times> nat \<Rightarrow> cpp_world \<Rightarrow> cpp_world res" where
  "cpp_run_task l t w =
     bindR (case fst t of
              ADD \<Rightarrow> cpp_add l (snd t) w
            | DELETE \<Rightarrow> cpp_remove l (snd t) w
            | MODIFY \<Rightarrow> cpp_modify l (snd t) w) (\<lambda>(_, w). Inr w)"

partial_function (option) cpp_processTaskQ :: "nat \<Rightarrow> cpp_world \<Rightarrow> cpp_world run" where
  "cpp_processTaskQ l w =
     bindO (lift (lookup (x_loops w) l)) (\<lambda>lp.
     case m_taskQ lp of
       [] \<Rightarrow> Some (Inr w)
     | t # q \<Rightarrow>
         bindO (lift (cpp_run_task l t (set_loop l (\<lambda>lp. lp\<lparr>m_taskQ := q\<rparr>) w))) (cpp_processTaskQ l))"

definition cpp_addTask :: "nat \<Rightarrow> nat \<Rightarrow> ElemType \<Rightarrow> cpp_world \<Rightarrow> cpp_world run" where
  "cpp_addTask l ch ty w =
     bindO (lift (lookup (x_loops w) l)) (\<lambda>lp.
     let w = set_loop l (\<lambda>lp. lp\<lparr>m_taskQ := m_taskQ lp @ [(ty, ch)]\<rparr>) w in
     if m_threadID lp = x_self w then cpp_processTaskQ l w else lift (cpp_taskWakeup l w))"

text \<open>Reading from the empty socket blocks.\<close>

definition cpp_readMessage :: "nat \<Rightarrow> cpp_world \<Rightarrow> cpp_world run" where
  "cpp_readMessage l w =
     bindO (lift (lookup (x_loops w) l)) (\<lambda>lp.
     let fd = snd (m_socketPair lp) in
     if x_inbox w fd = [] then None
     else Some (Inr (w\<lparr>x_inbox := (x_inbox w)(fd := drop 256 (x_inbox w fd))\<rparr>)))"

text \<open>
  \<^verbatim>\<open>m_channelMap[fd]\<close> makes an empty entry for an unknown descriptor; its NULL is then
  dereferenced. A callback gets the answers of the next system calls.
\<close>

definition cpp_eventActive ::
  "(handler \<Rightarrow> nat \<Rightarrow> cpp_world \<Rightarrow> cpp_world run) \<Rightarrow> nat \<Rightarrow> int \<Rightarrow> 32 word \<Rightarrow> cpp_world \<Rightarrow> cpp_world run" where
  "cpp_eventActive call l fd event w =
     (if fd < 0 then Some (Inr w)
      else
        bindO (lift (lookup (x_loops w) l)) (\<lambda>lp.
        case m_channelMap lp fd of
          None \<Rightarrow> Some (Inl NullDeref)
        | Some None \<Rightarrow> Some (Inl NullDeref)
        | Some (Some ch) \<Rightarrow>
            bindO (lift (lookup (x_channels w) ch)) (\<lambda>c.
            if c_fd c \<noteq> fd then Some (Inl AssertFail)
            else
              bindO (if has_event event ReadEvent then
                       (case c_read c of None \<Rightarrow> Some (Inr w) | Some f \<Rightarrow> call f (c_arg c) w)
                     else Some (Inr w)) (\<lambda>w.
              if has_event event WriteEvent then
                bindO (lift (lookup (x_channels w) ch)) (\<lambda>c.
                case c_write c of None \<Rightarrow> Some (Inr w) | Some f \<Rightarrow> call f (c_arg c) w)
              else Some (Inr w)))))"

text \<open>One round of the loop: the reported events, at most 520, then the tasks.\<close>

fun cpp_dispatch_loop ::
  "(handler \<Rightarrow> nat \<Rightarrow> cpp_world \<Rightarrow> cpp_world run) \<Rightarrow> nat \<Rightarrow> (32 word \<times> int) list \<Rightarrow> cpp_world \<Rightarrow> cpp_world run" where
  "cpp_dispatch_loop call l [] w = Some (Inr w)"
| "cpp_dispatch_loop call l ((events, fd) # es) w =
     (if has_event events EPOLLERR \<or> has_event events EPOLLHUP then cpp_dispatch_loop call l es w
      else
        bindO (if has_event events EPOLLIN then cpp_eventActive call l fd ReadEvent w else Some (Inr w)) (\<lambda>w.
        bindO (if has_event events EPOLLOUT then cpp_eventActive call l fd WriteEvent w else Some (Inr w)) (\<lambda>w.
        cpp_dispatch_loop call l es w)))"

definition cpp_dispatch ::
  "(handler \<Rightarrow> nat \<Rightarrow> cpp_world \<Rightarrow> cpp_world run) \<Rightarrow> nat \<Rightarrow> (32 word \<times> int) list \<Rightarrow> cpp_world \<Rightarrow> cpp_world run" where
  "cpp_dispatch call l report w = cpp_dispatch_loop call l (take 520 report) w"

text \<open>
  \<open>reports k\<close> is what the \<open>k\<close>-th \<^verbatim>\<open>epoll_wait\<close> reports. \<^verbatim>\<open>run\<close> marks the loop as
  running before it looks at the thread.
\<close>

definition cpp_round ::
  "(handler \<Rightarrow> nat \<Rightarrow> cpp_world \<Rightarrow> cpp_world run) \<Rightarrow> nat \<Rightarrow> (32 word \<times> int) list \<Rightarrow> cpp_world \<Rightarrow> cpp_world run" where
  "cpp_round call l report w = bindO (cpp_dispatch call l report w) (cpp_processTaskQ l)"

partial_function (option) cpp_run_loop ::
  "(handler \<Rightarrow> nat \<Rightarrow> cpp_world \<Rightarrow> cpp_world run) \<Rightarrow> nat \<Rightarrow> (nat \<Rightarrow> (32 word \<times> int) list) \<Rightarrow> nat \<Rightarrow> cpp_world \<Rightarrow> cpp_world run" where
  "cpp_run_loop call l reports k w =
     bindO (lift (lookup (x_loops w) l)) (\<lambda>lp.
     if m_isQuit lp then Some (Inr w)
     else bindO (cpp_round call l (reports k) w) (cpp_run_loop call l reports (Suc k)))"

definition cpp_run ::
  "(handler \<Rightarrow> nat \<Rightarrow> cpp_world \<Rightarrow> cpp_world run) \<Rightarrow> nat \<Rightarrow> (nat \<Rightarrow> (32 word \<times> int) list) \<Rightarrow> cpp_world \<Rightarrow> (int \<times> cpp_world) run" where
  "cpp_run call l reports w =
     (let w = set_loop l (\<lambda>lp. lp\<lparr>m_isQuit := False\<rparr>) w in
      bindO (lift (lookup (x_loops w) l)) (\<lambda>lp.
      if m_threadID lp \<noteq> x_self w then Some (Inr (-1, w))
      else bindO (cpp_run_loop call l reports 0 w) (\<lambda>w. Some (Inr (0, w)))))"

text \<open>\<open>pair\<close> is the result of \<^verbatim>\<open>socketpair\<close>.\<close>

definition newEventLoop :: "int \<Rightarrow> (int \<times> int) option \<Rightarrow> string \<Rightarrow> cpp_world \<Rightarrow> (nat \<times> cpp_world) run" where
  "newEventLoop efd pair name w =
     bindO (lift (newEpollDispatcher efd)) (\<lambda>d.
     case pair of
       None \<Rightarrow> Some (Inl ProcessExit)
     | Some (s0, s1) \<Rightarrow>
         (let l = x_next w; ch = Suc l;
              loop = \<lparr>m_isQuit = True, m_dispatcher = d, m_taskQ = [], m_channelMap = Map.empty,
                      m_threadID = x_self w, m_threadName = (if name = [] then ''MainThread'' else name),
                      m_socketPair = (s0, s1)\<rparr>;
              w = w\<lparr>x_next := Suc ch, x_loops := (x_loops w)(l \<mapsto> loop),
                    x_channels := (x_channels w)(ch \<mapsto> newChannel s1 ReadEvent (Some ReadMessage) None None l),
                    x_open := (x_open w)(efd := True, s0 := True, s1 := True)\<rparr> in
          bindO (cpp_addTask l ch ADD w) (\<lambda>w. Some (Inr (l, w)))))"

section \<open>The code: connections\<close>

definition newTcpConnection :: "int \<Rightarrow> nat \<Rightarrow> cpp_world \<Rightarrow> (nat \<times> cpp_world) run" where
  "newTcpConnection fd l w =
     bindO (lift (newBuffer (e_mem (x_env w) 10240) 10240)) (\<lambda>rb.
     bindO (lift (newBuffer (e_mem (x_env w) 10240) 10240)) (\<lambda>wb.
     let p = x_next w; ch = Suc p;
         w = w\<lparr>x_next := Suc ch,
               x_conns := (x_conns w)(p \<mapsto> \<lparr>m_name = ''Connection-'' @ dec_int fd, m_evLoop = l, m_channel = ch\<rparr>),
               x_parts := (x_parts w)(p \<mapsto> \<lparr>m_readBuf = rb, m_writeBuf = wb, m_request = resetRequest, m_response = newResponse\<rparr>),
               x_channels := (x_channels w)(ch \<mapsto>
                 newChannel fd ReadEvent (Some ConnRead) (Some ConnWrite) (Some ConnDestroy) p)\<rparr> in
     bindO (cpp_addTask l ch ADD w) (\<lambda>w. Some (Inr (p, w)))))"

text \<open>
  The part of \<open>processRead\<close> between the read and the task: a request is parsed and answered, a
  refused one is answered with \<open>bad_answer\<close>.
\<close>

definition bad_answer :: string where
  "bad_answer = ''Http/1.1 400 Bad Request'' @ crlf @ crlf"

definition cpp_parse_conn :: "nat \<Rightarrow> int \<Rightarrow> conn_parts \<Rightarrow> cpp_world \<Rightarrow> cpp_world run" where
  "cpp_parse_conn p socket parts w =
     (let sk = x_sends (the_io w) in
      bindO (cpp_parse_loop (x_env w) (x_null (the_io w)) sk (m_request parts) (m_readBuf parts) (m_response parts)
               \<lparr>o_buf = m_writeBuf parts, o_calls = 0, o_sent = []\<rparr>) (\<lambda>(flag, req, rb, r, s).
      bindO (if flag then Some (Inr s)
             else lift (bindR (appendString_s (e_mem (x_env w)) (o_buf s) bad_answer) (\<lambda>(_, b).
                        Inr (send_now sk (s\<lparr>o_buf := b\<rparr>))))) (\<lambda>s.
      Some (Inr (w\<lparr>x_parts := (x_parts w)(p \<mapsto>
                     parts\<lparr>m_request := req, m_readBuf := rb, m_response := r, m_writeBuf := o_buf s\<rparr>),
                   x_sent := (x_sent w)(socket := x_sent w socket @ o_sent s)\<rparr>)))))"

text \<open>The log line prints the unread bytes as a string: there must be a NUL behind them.\<close>

definition cpp_processRead :: "nat \<Rightarrow> cpp_world \<Rightarrow> cpp_world run" where
  "cpp_processRead p w =
     bindO (lift (lookup (x_conns w) p)) (\<lambda>conn.
     bindO (lift (lookup (x_channels w) (m_channel conn))) (\<lambda>c.
     bindO (lift (lookup (x_parts w) p)) (\<lambda>parts.
     bindO (lift (socketRead (e_mem (x_env w)) (m_readBuf parts) (x_avail (the_io w)))) (\<lambda>(count, rb).
     let parts = parts\<lparr>m_readBuf := rb\<rparr>; w = w\<lparr>x_parts := (x_parts w)(p \<mapsto> parts)\<rparr> in
     if NUL \<notin> set (drop (nat (m_readPos rb)) (m_data rb)) then Some (Inl OutOfBounds)
     else
       bindO (if count > 0 then cpp_parse_conn p (c_fd c) parts w else Some (Inr w)) (\<lambda>w.
       cpp_addTask (m_evLoop conn) (m_channel conn) DELETE w)))))"

definition cpp_processWrite :: "nat \<Rightarrow> cpp_world \<Rightarrow> cpp_world run" where
  "cpp_processWrite p w =
     bindO (lift (lookup (x_conns w) p)) (\<lambda>conn.
     bindO (lift (lookup (x_channels w) (m_channel conn))) (\<lambda>c.
     bindO (lift (lookup (x_parts w) p)) (\<lambda>parts.
     case sendData (m_writeBuf parts) (x_sends (the_io w) 0) of
       (count, wb, out) \<Rightarrow>
         (let w = w\<lparr>x_parts := (x_parts w)(p \<mapsto> parts\<lparr>m_writeBuf := wb\<rparr>),
                    x_sent := (x_sent w)(c_fd c := x_sent w (c_fd c) @ out)\<rparr> in
          if count > 0 \<and> readableSize wb = 0 then
            (let w = w\<lparr>x_channels := (x_channels w)(m_channel conn \<mapsto> cpp_writeEventEnable False c)\<rparr> in
             bindO (cpp_addTask (m_evLoop conn) (m_channel conn) MODIFY w)
               (cpp_addTask (m_evLoop conn) (m_channel conn) DELETE))
          else Some (Inr w)))))"

end
