(* ===== verification/CppServer.thy ===== *)
theory CppServer
  imports CppLoop Server
begin

text \<open>
  \<^verbatim>\<open>ThreadPool.cpp\<close>, \<^verbatim>\<open>WorkerThread.cpp\<close>, \<^verbatim>\<open>TcpServer.cpp\<close> and
  \<^verbatim>\<open>main.cpp\<close> of the C++ rewrite, and whole exchanges with a client. What the kernel answers
  while the server is set up is an argument, as in the C model.
\<close>

section \<open>The code: the pool\<close>

definition newThreadPool :: "nat \<Rightarrow> int \<Rightarrow> cpp_pool" where
  "newThreadPool main count =
     \<lparr>tp_mainLoop = main, tp_isStart = False, tp_threadNum = count, tp_workers = [], tp_index = 0\<rparr>"

text \<open>
  \<^verbatim>\<open>WorkerThread::run\<close> returns when the new thread, \<open>tid\<close>, has made its loop; what the thread
  does before that happens in between.
\<close>

definition runWorker :: "nat \<Rightarrow> int \<Rightarrow> (int \<times> int) option \<Rightarrow> int \<Rightarrow> cpp_world \<Rightarrow> (cpp_worker \<times> cpp_world) run" where
  "runWorker tid efd pair index w =
     (let name = ''SubThread-'' @ dec_int index in
      bindO (newEventLoop efd pair name (w\<lparr>x_self := tid\<rparr>)) (\<lambda>(l, w').
      Some (Inr (\<lparr>wk_name = name, wk_evLoop = l\<rparr>, w'\<lparr>x_self := x_self w\<rparr>))))"

fun run_workers ::
  "(nat \<Rightarrow> worker_answer) \<Rightarrow> nat \<Rightarrow> nat \<Rightarrow> cpp_worker list \<Rightarrow> cpp_world \<Rightarrow> (cpp_worker list \<times> cpp_world) run" where
  "run_workers wa i 0 ts w = Some (Inr (ts, w))"
| "run_workers wa i (Suc n) ts w =
     bindO (runWorker (wa_tid (wa i)) (wa_epfd (wa i)) (wa_pair (wa i)) (int i) w) (\<lambda>(t, w).
     run_workers wa (Suc i) n (ts @ [t]) w)"

definition cpp_pool_run :: "(nat \<Rightarrow> worker_answer) \<Rightarrow> cpp_pool \<Rightarrow> cpp_world \<Rightarrow> (cpp_pool \<times> cpp_world) run" where
  "cpp_pool_run wa pool w =
     (if tp_isStart pool then Some (Inl AssertFail)
      else
        bindO (lift (lookup (x_loops w) (tp_mainLoop pool))) (\<lambda>lp.
        if m_threadID lp \<noteq> x_self w then Some (Inl ProcessExit)
        else
          bindO (run_workers wa 0 (nat (tp_threadNum pool)) (tp_workers pool) w) (\<lambda>(ts, w).
          Some (Inr (pool\<lparr>tp_isStart := True, tp_workers := ts\<rparr>, w)))))"

definition cpp_takeWorkerEventLoop :: "cpp_pool \<Rightarrow> cpp_world \<Rightarrow> (nat \<times> cpp_pool) res" where
  "cpp_takeWorkerEventLoop pool w =
     (if \<not> tp_isStart pool then Inl AssertFail
      else
        bindR (lookup (x_loops w) (tp_mainLoop pool)) (\<lambda>lp.
        if m_threadID lp \<noteq> x_self w then Inl ProcessExit
        else if 0 < tp_threadNum pool then
          (let i = tp_index pool in
           if i < 0 \<or> int (length (tp_workers pool)) \<le> i then Inl OutOfBounds
           else Inr (wk_evLoop (tp_workers pool ! nat i), pool\<lparr>tp_index := (i + 1) mod tp_threadNum pool\<rparr>))
        else Inr (tp_mainLoop pool, pool)))"

section \<open>The code: the server\<close>

text \<open>On an error the socket already made stays open; the result is -1.\<close>

definition setListen :: "listen_answer \<Rightarrow> cpp_world \<Rightarrow> int \<times> cpp_world" where
  "setListen a w =
     (let fd = la_socket a in
      if fd = -1 then (-1, w)
      else
        (let w = w\<lparr>x_open := (x_open w)(fd := True)\<rparr> in
         if la_setsockopt a = -1 then (-1, w)
         else if la_bind a = -1 then (-1, w)
         else if la_listen a = -1 then (-1, w)
         else (fd, w)))"

text \<open>The members are made in the order of their declaration.\<close>

definition newTcpServer ::
  "listen_answer \<Rightarrow> int \<Rightarrow> (int \<times> int) option \<Rightarrow> 16 word \<Rightarrow> int \<Rightarrow> cpp_world \<Rightarrow> (nat \<times> cpp_world) run" where
  "newTcpServer a efd pair p n w =
     (let s = x_next w; (fd, w) = setListen a (w\<lparr>x_next := Suc s\<rparr>) in
      bindO (newEventLoop efd pair [] w) (\<lambda>(l, w).
      Some (Inr (s, w\<lparr>x_servers := (x_servers w)(s \<mapsto>
        \<lparr>s_port = p, s_lfd = fd, s_threadNum = n, s_mainLoop = l, s_pool = newThreadPool l n\<rparr>)\<rparr>))))"

text \<open>The result of \<^verbatim>\<open>accept\<close> is not checked.\<close>

definition cpp_acceptConnection :: "nat \<Rightarrow> cpp_world \<Rightarrow> cpp_world run" where
  "cpp_acceptConnection s w =
     bindO (lift (lookup (x_servers w) s)) (\<lambda>server.
     let cfd = x_accept (the_io w);
         w = (if cfd < 0 then w else w\<lparr>x_open := (x_open w)(cfd := True)\<rparr>) in
     bindO (lift (cpp_takeWorkerEventLoop (s_pool server) w)) (\<lambda>(l, pool).
     let w = w\<lparr>x_servers := (x_servers w)(s \<mapsto> server\<lparr>s_pool := pool\<rparr>)\<rparr> in
     bindO (newTcpConnection cfd l w) (\<lambda>(_, w). Some (Inr w))))"

text \<open>The call of what a channel stores; the next callback gets the next answers.\<close>

definition cpp_call :: "handler \<Rightarrow> nat \<Rightarrow> cpp_world \<Rightarrow> cpp_world run" where
  "cpp_call f a w =
     bindO (case f of
              ReadMessage \<Rightarrow> cpp_readMessage a w
            | Accept \<Rightarrow> cpp_acceptConnection a w
            | ConnRead \<Rightarrow> cpp_processRead a w
            | ConnWrite \<Rightarrow> cpp_processWrite a w
            | ConnDestroy \<Rightarrow> lift (cpp_conn_delete a w))
       (\<lambda>w. Some (Inr (w\<lparr>x_tick := Suc (x_tick w)\<rparr>)))"

definition cpp_server_run ::
  "(nat \<Rightarrow> worker_answer) \<Rightarrow> (nat \<Rightarrow> (32 word \<times> int) list) \<Rightarrow> nat \<Rightarrow> cpp_world \<Rightarrow> cpp_world run" where
  "cpp_server_run wa reports s w =
     bindO (lift (lookup (x_servers w) s)) (\<lambda>server.
     bindO (cpp_pool_run wa (s_pool server) w) (\<lambda>(pool, w).
     let ch = x_next w;
         w = w\<lparr>x_servers := (x_servers w)(s \<mapsto> server\<lparr>s_pool := pool\<rparr>), x_next := Suc ch,
               x_channels := (x_channels w)(ch \<mapsto> newChannel (s_lfd server) ReadEvent (Some Accept) None None s)\<rparr> in
     bindO (cpp_addTask (s_mainLoop server) ch ADD w) (\<lambda>w.
     bindO (cpp_run cpp_call (s_mainLoop server) reports w) (\<lambda>(_, w). Some (Inr w)))))"

definition cpp_main ::
  "listen_answer \<Rightarrow> int \<Rightarrow> (int \<times> int) option \<Rightarrow> (nat \<Rightarrow> worker_answer) \<Rightarrow> (nat \<Rightarrow> (32 word \<times> int) list) \<Rightarrow>
   cpp_world \<Rightarrow> cpp_world run" where
  "cpp_main a efd pair wa reports w =
     bindO (newTcpServer a efd pair 10000 4 w) (\<lambda>(s, w). cpp_server_run wa reports s w)"

section \<open>A connection in the middle of its life\<close>

lemma set_loop_known: "x_loops w l = Some lp \<Longrightarrow> set_loop l f w = w\<lparr>x_loops := (x_loops w)(l \<mapsto> f lp)\<rparr>"
  by (simp add: set_loop_def)

lemma set_loop_frame [simp]:
  "x_channels (set_loop l f w) = x_channels w"
  "x_conns (set_loop l f w) = x_conns w"
  "x_parts (set_loop l f w) = x_parts w"
  "x_servers (set_loop l f w) = x_servers w"
  "x_next (set_loop l f w) = x_next w"
  "x_self (set_loop l f w) = x_self w"
  "x_open (set_loop l f w) = x_open w"
  "x_inbox (set_loop l f w) = x_inbox w"
  "x_sent (set_loop l f w) = x_sent w"
  "x_io (set_loop l f w) = x_io w"
  "x_tick (set_loop l f w) = x_tick w"
  "x_env (set_loop l f w) = x_env w"
  by (simp_all add: set_loop_def)

definition conn_channel_of :: "int \<Rightarrow> nat \<Rightarrow> cpp_channel" where
  "conn_channel_of fd p = newChannel fd ReadEvent (Some ConnRead) (Some ConnWrite) (Some ConnDestroy) p"

text \<open>
  Connection \<open>p\<close> of loop \<open>l\<close> with descriptor \<open>fd\<close> is watched, and the loop is at rest in its own
  thread.
\<close>

definition attached :: "cpp_world \<Rightarrow> nat \<Rightarrow> nat \<Rightarrow> int \<Rightarrow> bool" where
  "attached w l p fd \<longleftrightarrow> (\<exists>lp conn. x_loops w l = Some lp \<and> x_conns w p = Some conn \<and>
     m_threadID lp = x_self w \<and> m_taskQ lp = [] \<and> m_evLoop conn = l \<and> x_parts w p \<noteq> None \<and>
     x_channels w (m_channel conn) = Some (conn_channel_of fd p) \<and>
     m_channelMap lp fd = Some (Some (m_channel conn)) \<and> ep_set (m_dispatcher lp) fd = Some EPOLLIN \<and>
     fd \<noteq> epfd (m_dispatcher lp) \<and> x_open w fd \<and> 0 \<le> fd)"

lemma attachedE:
  assumes "attached w l p fd"
  obtains lp conn parts where "x_loops w l = Some lp" "x_conns w p = Some conn" "x_parts w p = Some parts"
    "m_threadID lp = x_self w" "m_taskQ lp = []" "m_evLoop conn = l"
    "x_channels w (m_channel conn) = Some (conn_channel_of fd p)"
    "m_channelMap lp fd = Some (Some (m_channel conn))" "ep_set (m_dispatcher lp) fd = Some EPOLLIN"
    "fd \<noteq> epfd (m_dispatcher lp)" "x_open w fd" "0 \<le> fd"
  using assms unfolding attached_def by blast

lemma conn_channel_of_simps [simp]:
  "c_fd (conn_channel_of fd p) = fd" "c_events (conn_channel_of fd p) = ReadEvent"
  "c_read (conn_channel_of fd p) = Some ConnRead" "c_write (conn_channel_of fd p) = Some ConnWrite"
  "c_destroy (conn_channel_of fd p) = Some ConnDestroy" "c_arg (conn_channel_of fd p) = p"
  by (simp_all add: conn_channel_of_def newChannel_def)

text \<open>The two ends of a connection: everything is released, or only the struct is.\<close>

definition released_world :: "nat \<Rightarrow> nat \<Rightarrow> int \<Rightarrow> cpp_world \<Rightarrow> cpp_world" where
  "released_world l p fd w = (let ch = m_channel (the (x_conns w p));
     w' = cpp_close fd (set_loop l (\<lambda>lp. lp\<lparr>m_channelMap := (m_channelMap lp)(fd := None)\<rparr>) w) in
     w'\<lparr>x_channels := (x_channels w)(ch := None), x_parts := (x_parts w)(p := None), x_conns := (x_conns w)(p := None)\<rparr>)"

definition leaked_world :: "nat \<Rightarrow> nat \<Rightarrow> int \<Rightarrow> cpp_world \<Rightarrow> cpp_world" where
  "leaked_world l p fd w = (set_loop l (\<lambda>lp. lp\<lparr>m_dispatcher :=
     (m_dispatcher lp)\<lparr>ep_set := (ep_set (m_dispatcher lp))(fd := None)\<rparr>\<rparr>) w)\<lparr>x_conns := (x_conns w)(p := None)\<rparr>"

definition both_empty :: "conn_parts \<Rightarrow> bool" where
  "both_empty parts \<longleftrightarrow> readableSize (m_readBuf parts) = 0 \<and> readableSize (m_writeBuf parts) = 0"

lemma processTaskQ_empty:
  "x_loops w l = Some lp \<Longrightarrow> m_taskQ lp = [] \<Longrightarrow> cpp_processTaskQ l w = Some (Inr w)"
  by (subst cpp_processTaskQ.simps) simp

lemma addTask_alone:
  assumes "x_loops w l = Some lp" and "m_taskQ lp = []" and "m_threadID lp = x_self w"
    and r: "cpp_run_task l (ty, ch) w = Inr w'" and "x_loops w' l = Some lp'" and "m_taskQ lp' = []"
  shows "cpp_addTask l ch ty w = Some (Inr w')"
proof -
  let ?w = "set_loop l (\<lambda>lp. lp\<lparr>m_taskQ := m_taskQ lp @ [(ty, ch)]\<rparr>) w"
  have q: "x_loops ?w l = Some (lp\<lparr>m_taskQ := [(ty, ch)]\<rparr>)" using assms(1,2) by (simp add: set_loop_def)
  have "lp\<lparr>m_taskQ := []\<rparr> = lp" using assms(2) by (metis cpp_loop.surjective cpp_loop.update_convs(3))
  then have "set_loop l (\<lambda>lp. lp\<lparr>m_taskQ := []\<rparr>) ?w = w"
    using assms(1) by (simp add: set_loop_def fun_upd_idem)
  then have "cpp_processTaskQ l ?w = cpp_processTaskQ l w'"
    using q r by (subst cpp_processTaskQ.simps) simp
  also have "\<dots> = Some (Inr w')" by (rule processTaskQ_empty [OF assms(5,6)])
  finally show ?thesis using assms(1,3) by (simp add: cpp_addTask_def Let_def)
qed

lemma cpp_has_event [simp]:
  "has_event ReadEvent ReadEvent" "\<not> has_event ReadEvent WriteEvent" "\<not> has_event WriteEvent ReadEvent"
  "has_event WriteEvent WriteEvent"
  by (simp_all add: has_event_def ReadEvent_def WriteEvent_def)

lemma remove_attached:
  assumes at: "attached w l p fd" and parts: "x_parts w p = Some parts"
  shows "cpp_run_task l (DELETE, m_channel (the (x_conns w p))) w =
    Inr (if both_empty parts then released_world l p fd w else leaked_world l p fd w)"
proof -
  from at obtain lp conn where a: "x_loops w l = Some lp" "x_conns w p = Some conn"
    "m_evLoop conn = l" "x_channels w (m_channel conn) = Some (conn_channel_of fd p)"
    "m_channelMap lp fd = Some (Some (m_channel conn))" "ep_set (m_dispatcher lp) fd = Some EPOLLIN"
    "fd \<noteq> epfd (m_dispatcher lp)" "x_open w fd" by (rule attachedE)
  let ?d = "(m_dispatcher lp)\<lparr>ep_set := (ep_set (m_dispatcher lp))(fd := None)\<rparr>"
  let ?w = "set_loop l (\<lambda>lp. lp\<lparr>m_dispatcher := ?d\<rparr>) w"
  have ctl: "cpp_epollCtl EPOLL_CTL_DEL l (conn_channel_of fd p) w = Inr (0, ?w)"
    using a by (simp add: cpp_epollCtl_def epoll_ctl_def)
  have u: "?w = w\<lparr>x_loops := (x_loops w)(l \<mapsto> lp\<lparr>m_dispatcher := ?d\<rparr>)\<rparr>" by (rule set_loop_known [OF a(1)])
  have del: "cpp_conn_delete p ?w =
      Inr (if both_empty parts then released_world l p fd w else leaked_world l p fd w)"
  proof (cases "both_empty parts")
    case True
    with a parts show ?thesis
      unfolding u cpp_conn_delete_def released_world_def
      by (simp add: both_empty_def cpp_freeChannel_def set_loop_def cpp_close_def fun_eq_iff Let_def)
  next
    case False
    with a parts show ?thesis
      unfolding u cpp_conn_delete_def leaked_world_def
      by (auto simp: both_empty_def set_loop_def)
  qed
  show ?thesis
    using a ctl del
    by (simp add: cpp_run_task_def cpp_remove_def dispatcher_remove_def cpp_call_destroy_def)
qed

lemma ended_queue:
  assumes "x_loops w l = Some lp" and "m_taskQ lp = []"
  shows "\<exists>lp'. x_loops (released_world l p fd w) l = Some lp' \<and> m_taskQ lp' = []"
    and "\<exists>lp'. x_loops (leaked_world l p fd w) l = Some lp' \<and> m_taskQ lp' = []"
  using assms by (auto simp: released_world_def leaked_world_def set_loop_def cpp_close_def Let_def)

text \<open>The end of every read.\<close>

lemma delete_attached:
  assumes at: "attached w l p fd" and parts: "x_parts w p = Some parts"
  shows "cpp_addTask l (m_channel (the (x_conns w p))) DELETE w =
    Some (Inr (if both_empty parts then released_world l p fd w else leaked_world l p fd w))"
proof -
  from at obtain lp where lp: "x_loops w l = Some lp" "m_taskQ lp = []" "m_threadID lp = x_self w"
    by (rule attachedE)
  note e = ended_queue [OF lp(1,2), of p fd]
  have "\<exists>lp'. x_loops (if both_empty parts then released_world l p fd w else leaked_world l p fd w) l = Some lp' \<and>
      m_taskQ lp' = []" using e by simp
  then obtain lp' where
    "x_loops (if both_empty parts then released_world l p fd w else leaked_world l p fd w) l = Some lp'"
    "m_taskQ lp' = []" by blast
  with addTask_alone [OF lp remove_attached [OF at parts]] show ?thesis by blast
qed

section \<open>One read of a connection\<close>

definition ended :: "conn_parts \<Rightarrow> nat \<Rightarrow> nat \<Rightarrow> int \<Rightarrow> cpp_world \<Rightarrow> cpp_world" where
  "ended parts l p fd w = (if both_empty parts then released_world l p fd w else leaked_world l p fd w)"

definition with_parts :: "nat \<Rightarrow> conn_parts \<Rightarrow> int \<Rightarrow> string \<Rightarrow> cpp_world \<Rightarrow> cpp_world" where
  "with_parts p parts fd out w =
     w\<lparr>x_parts := (x_parts w)(p \<mapsto> parts), x_sent := (x_sent w)(fd := x_sent w fd @ out)\<rparr>"

lemma attached_with_parts [simp]: "attached w l p fd \<Longrightarrow> attached (with_parts p parts fd' out w) l p fd"
  by (auto simp: attached_def with_parts_def)

lemma with_parts_simps [simp]:
  "x_parts (with_parts p parts fd out w) = (x_parts w)(p \<mapsto> parts)"
  "x_conns (with_parts p parts fd out w) = x_conns w" "x_channels (with_parts p parts fd out w) = x_channels w"
  "x_loops (with_parts p parts fd out w) = x_loops w" "x_open (with_parts p parts fd out w) = x_open w"
  "x_self (with_parts p parts fd out w) = x_self w" "x_tick (with_parts p parts fd out w) = x_tick w"
  "x_sent (with_parts p parts fd out w) = (x_sent w)(fd := x_sent w fd @ out)"
  by (simp_all add: with_parts_def)

text \<open>Parsing and answering, as a change of the parts and the bytes sent.\<close>

definition answer_parts :: "env \<Rightarrow> int \<Rightarrow> (nat \<Rightarrow> send_outcome) \<Rightarrow> conn_parts \<Rightarrow> (conn_parts \<times> string) run" where
  "answer_parts e nd sk parts =
     bindO (cpp_parse_loop e nd sk (m_request parts) (m_readBuf parts) (m_response parts)
              \<lparr>o_buf = m_writeBuf parts, o_calls = 0, o_sent = []\<rparr>) (\<lambda>(flag, req, rb, r, s).
     bindO (if flag then Some (Inr s)
            else lift (bindR (appendString_s (e_mem e) (o_buf s) bad_answer) (\<lambda>(_, b).
                       Inr (send_now sk (s\<lparr>o_buf := b\<rparr>))))) (\<lambda>s.
     Some (Inr (parts\<lparr>m_request := req, m_readBuf := rb, m_response := r, m_writeBuf := o_buf s\<rparr>, o_sent s))))"

lemma parse_conn_answer:
  "cpp_parse_conn p fd parts w =
     bindO (answer_parts (x_env w) (x_null (the_io w)) (x_sends (the_io w)) parts) (\<lambda>(parts, out). Some (Inr (with_parts p parts fd out w)))"
  by (simp add: cpp_parse_conn_def answer_parts_def bindO_assoc with_parts_def split_def Let_def)

lemma with_parts_nothing: "with_parts p parts fd [] w = w\<lparr>x_parts := (x_parts w)(p \<mapsto> parts)\<rparr>"
  by (simp add: with_parts_def)

lemma with_parts_twice:
  "with_parts p q fd out (with_parts p parts fd out' w) = with_parts p q fd (out' @ out) w"
  by (simp add: with_parts_def)

lemma processRead_attached:
  assumes at: "attached w l p fd" and parts: "x_parts w p = Some parts"
    and rd: "socketRead (e_mem (x_env w)) (m_readBuf parts) (x_avail (the_io w)) = Inr (count, rb)"
    and log: "NUL \<in> set (drop (nat (m_readPos rb)) (m_data rb))"
  shows "cpp_processRead p w =
    (if 0 < count then
       bindO (answer_parts (x_env w) (x_null (the_io w)) (x_sends (the_io w)) (parts\<lparr>m_readBuf := rb\<rparr>)) (\<lambda>(q, out).
       Some (Inr (ended q l p fd (with_parts p q fd out w))))
     else Some (Inr (ended (parts\<lparr>m_readBuf := rb\<rparr>) l p fd (with_parts p (parts\<lparr>m_readBuf := rb\<rparr>) fd [] w))))"
proof -
  from at obtain conn where c: "x_conns w p = Some conn" "m_evLoop conn = l"
    "x_channels w (m_channel conn) = Some (conn_channel_of fd p)" by (rule attachedE)
  let ?q = "parts\<lparr>m_readBuf := rb\<rparr>"
  let ?w = "with_parts p ?q fd [] w"
  have fin: "cpp_addTask l (m_channel conn) DELETE (with_parts p q fd out w) =
      Some (Inr (ended q l p fd (with_parts p q fd out w)))" for q out
    using delete_attached [OF attached_with_parts [OF at, of q fd out], of q] c(1) by (simp add: ended_def)
  have io: "the_io ?w = the_io w" "x_env ?w = x_env w" by (simp_all add: the_io_def with_parts_def)
  have "cpp_processRead p w =
      bindO (if 0 < count then cpp_parse_conn p fd ?q ?w else Some (Inr ?w)) (\<lambda>w.
      cpp_addTask l (m_channel conn) DELETE w)"
    using c parts rd log by (simp add: cpp_processRead_def with_parts_nothing Let_def)
  then show ?thesis
    by (simp add: fin parse_conn_answer bindO_assoc io with_parts_twice split_def)
qed

lemma epoll_events [simp]:
  "has_event EPOLLIN EPOLLIN" "\<not> has_event EPOLLIN EPOLLERR" "\<not> has_event EPOLLIN EPOLLHUP" "\<not> has_event EPOLLIN EPOLLOUT"
  by (simp_all add: has_event_def EPOLLIN_def EPOLLERR_def EPOLLHUP_def EPOLLOUT_def)

definition ticked_once :: "cpp_world \<Rightarrow> cpp_world" where
  "ticked_once w = w\<lparr>x_tick := Suc (x_tick w)\<rparr>"

lemma eventActive_attached:
  assumes at: "attached w l p fd"
  shows "cpp_eventActive cpp_call l fd ReadEvent w = map_run ticked_once (cpp_processRead p w)"
proof -
  from at obtain lp conn where a: "x_loops w l = Some lp" "x_conns w p = Some conn"
    "x_channels w (m_channel conn) = Some (conn_channel_of fd p)"
    "m_channelMap lp fd = Some (Some (m_channel conn))" "0 \<le> fd" by (rule attachedE)
  then show ?thesis
    by (simp add: cpp_eventActive_def cpp_call_def map_run_def bindO_assoc ticked_once_def)
qed

text \<open>The round that finds input on one connection.\<close>

lemma ended_ticked: "ticked_once (ended q l p fd w) = ended q l p fd (ticked_once w)"
  by (simp add: ended_def released_world_def leaked_world_def ticked_once_def set_loop_def cpp_close_def Let_def)

lemma round_attached:
  assumes at: "attached w l p fd" and q: "cpp_processRead p w = Some (Inr (ended q l p fd (with_parts p q fd out w)))"
  shows "cpp_round cpp_call l [(EPOLLIN, fd)] w = Some (Inr (ticked_once (ended q l p fd (with_parts p q fd out w))))"
proof -
  from at obtain lp where lp: "x_loops w l = Some lp" "m_taskQ lp = []" by (rule attachedE)
  let ?w = "with_parts p q fd out w"
  have lw: "x_loops ?w l = Some lp" using lp by simp
  obtain lp' where "x_loops (ended q l p fd ?w) l = Some lp'" "m_taskQ lp' = []"
    using ended_queue [OF lw lp(2), of p fd] unfolding ended_def by (cases "both_empty q") auto
  then have "cpp_processTaskQ l (ticked_once (ended q l p fd ?w)) = Some (Inr (ticked_once (ended q l p fd ?w)))"
    by (intro processTaskQ_empty [of _ _ lp']) (simp_all add: ticked_once_def)
  then show ?thesis
    by (simp add: cpp_round_def cpp_dispatch_def eventActive_attached [OF at] q)
qed

lemma round_fault:
  assumes at: "attached w l p fd" and q: "cpp_processRead p w = Some (Inl e)"
  shows "cpp_round cpp_call l [(EPOLLIN, fd)] w = Some (Inl e)"
  by (simp add: cpp_round_def cpp_dispatch_def eventActive_attached [OF at] q)

section \<open>New connections\<close>

definition fresh_cpp :: cpp_buffer where
  "fresh_cpp = of_c (fresh_buffer 10240)"

definition fresh_parts :: conn_parts where
  "fresh_parts = \<lparr>m_readBuf = fresh_cpp, m_writeBuf = fresh_cpp, m_request = resetRequest, m_response = newResponse\<rparr>"

lemma newBuffer_fresh: "newBuffer True 10240 = Inr fresh_cpp"
  by (simp add: newBuffer_def fresh_cpp_def fresh_buffer_def of_c_def)

lemma fresh_cpp_facts: "cpp_inv fresh_cpp" "unread fresh_cpp = []" "writeableSize fresh_cpp = 10240"
  using fresh_buffer_facts [of 10240] sizes_as_c [of fresh_cpp]
  by (simp_all add: fresh_cpp_def int_max_def)

lemma socketRead_fresh:
  assumes "length s < 10240"
  obtains rb where "socketRead mem fresh_cpp (Some s) = Inr (int (length s), rb)" "cpp_inv rb" "unread rb = s"
    "NUL \<in> set (drop (nat (m_readPos rb)) (m_data rb))"
proof -
  let ?rb = "\<lparr>m_capacity = 10240, m_data = s @ replicate (10240 - length s) NUL, m_readPos = 0, m_writePos = int (length s)\<rparr>"
  have f: "fresh_cpp = \<lparr>m_capacity = 10240, m_data = replicate 10240 NUL, m_readPos = 0, m_writePos = 0\<rparr>"
    by (simp add: fresh_cpp_def fresh_buffer_def of_c_def)
  have t: "take 51200 s = s" "take 10240 s = s" using assms by simp_all
  have "socketRead mem fresh_cpp (Some s) = Inr (int (length s), ?rb)"
    using assms by (simp add: socketRead_def f writeableSize_def memcpy_at_def overwrite_def t Let_def)
  moreover have "cpp_inv ?rb" using assms by (simp add: as_c_def buffer_inv_def int_max_def)
  moreover have "unread ?rb = s" by (simp add: unread_def readableSize_def)
  moreover have "NUL \<in> set (drop (nat (m_readPos ?rb)) (m_data ?rb))" using assms by simp
  ultimately show ?thesis by (rule that)
qed

text \<open>A connection nothing has been received on.\<close>

definition awaiting :: "cpp_world \<Rightarrow> nat \<Rightarrow> nat \<Rightarrow> int \<Rightarrow> bool" where
  "awaiting w l p fd \<longleftrightarrow> attached w l p fd \<and> x_parts w p = Some fresh_parts"

lemma processRead_waiting:
  assumes wt: "awaiting w l p fd" and io: "x_avail (the_io w) = Some s" "s \<noteq> []" "length s < 10240"
  obtains rb where "cpp_inv rb" "unread rb = s"
    "cpp_processRead p w = bindO (answer_parts (x_env w) (x_null (the_io w)) (x_sends (the_io w)) (fresh_parts\<lparr>m_readBuf := rb\<rparr>))
       (\<lambda>(q, out). Some (Inr (ended q l p fd (with_parts p q fd out w))))"
proof -
  obtain rb where rb: "socketRead (e_mem (x_env w)) fresh_cpp (Some s) = Inr (int (length s), rb)"
      "cpp_inv rb" "unread rb = s" "NUL \<in> set (drop (nat (m_readPos rb)) (m_data rb))"
    by (rule socketRead_fresh [OF io(3)])
  have at: "attached w l p fd" "x_parts w p = Some fresh_parts" using wt by (simp_all add: awaiting_def)
  have "socketRead (e_mem (x_env w)) (m_readBuf fresh_parts) (x_avail (the_io w)) = Inr (int (length s), rb)"
    using rb(1) io(1) by (simp add: fresh_parts_def)
  from processRead_attached [OF at this rb(4)] io(2) that [OF rb(2,3)] show ?thesis by simp
qed

lemma round_waiting:
  assumes wt: "awaiting w l p fd" and io: "x_avail (the_io w) = Some s" "s \<noteq> []" "length s < 10240"
    and ans: "\<And>rb. cpp_inv rb \<Longrightarrow> unread rb = s \<Longrightarrow>
      \<exists>q. answer_parts (x_env w) (x_null (the_io w)) (x_sends (the_io w)) (fresh_parts\<lparr>m_readBuf := rb\<rparr>) = Some (Inr (q, out)) \<and> P q"
  shows "\<exists>q. P q \<and> cpp_round cpp_call l [(EPOLLIN, fd)] w =
    Some (Inr (ticked_once (ended q l p fd (with_parts p q fd out w))))"
proof -
  obtain rb where rb: "cpp_inv rb" "unread rb = s"
    "cpp_processRead p w = bindO (answer_parts (x_env w) (x_null (the_io w)) (x_sends (the_io w)) (fresh_parts\<lparr>m_readBuf := rb\<rparr>))
       (\<lambda>(q, out). Some (Inr (ended q l p fd (with_parts p q fd out w))))"
    by (rule processRead_waiting [OF wt io])
  from ans [OF rb(1,2)] obtain q where q: "P q"
    "answer_parts (x_env w) (x_null (the_io w)) (x_sends (the_io w)) (fresh_parts\<lparr>m_readBuf := rb\<rparr>) = Some (Inr (q, out))" by blast
  with rb(3) have "cpp_processRead p w = Some (Inr (ended q l p fd (with_parts p q fd out w)))" by simp
  moreover have "attached w l p fd" using wt by (simp add: awaiting_def)
  ultimately show ?thesis using q(1) round_attached by blast
qed

text \<open>The answer to a GET, and to a request whose headers end too early.\<close>

lemma answer_get:
  assumes rb: "cpp_inv rb" "unread rb = print_request m u v hs @ rest" and ok: "request_ok m u v hs"
    and get: "strcasecmp_eq m ''get''" "cstr (decode u) \<noteq> []"
    and p: "path_ok e (requested_path u)" "reply_for e (requested_path u) = (c, msg, rhs, f, fn)"
      "reply_body e f fn txt" and sk: "eager sk"
  shows "\<exists>q. answer_parts e nd sk (fresh_parts\<lparr>m_readBuf := rb\<rparr>) =
      Some (Inr (q, cpp_head c (sorted_headers rhs) @ txt)) \<and> both_empty q = (rest = [])"
proof -
  let ?s = "\<lparr>o_buf = fresh_cpp, o_calls = 0, o_sent = []\<rparr>"
  have s: "out_inv ?s" "unread (o_buf ?s) = []" "4096 \<le> writeableSize (o_buf ?s)"
    using fresh_cpp_facts by simp_all
  obtain q b' s' where a: "cpp_parse_loop e nd sk resetRequest rb newResponse ?s =
      Some (Inr (True, q, b', cpp_respond e (requested_path u) newResponse, s'))"
    "cpp_inv b'" "unread b' = rest" "emptied 4096 s'" "o_sent s' = o_sent ?s @ cpp_head c (sorted_headers rhs) @ txt"
    by (rule cpp_get_answered [OF rb ok get p sk s])
  have "readableSize b' = 0 \<longleftrightarrow> rest = []" "readableSize (o_buf s') = 0"
    using readable_unread [OF a(2)] a(3,4) readable_unread [of "o_buf s'"] by (auto simp: emptied_def)
  with a(1,5) show ?thesis
    by (simp add: answer_parts_def fresh_parts_def both_empty_def)
qed

lemma answer_refused:
  assumes a: "cpp_parse_loop e nd sk resetRequest rb newResponse \<lparr>o_buf = fresh_cpp, o_calls = 0, o_sent = []\<rparr> =
      Some (Inr (False, q, b', newResponse, \<lparr>o_buf = fresh_cpp, o_calls = 0, o_sent = []\<rparr>))"
    and b': "cpp_inv b'" and sk: "eager sk"
  shows "\<exists>q. answer_parts e nd sk (fresh_parts\<lparr>m_readBuf := rb\<rparr>) = Some (Inr (q, bad_answer)) \<and>
    both_empty q = (unread b' = []) \<and> m_readBuf q = b'"
proof -
  let ?s = "\<lparr>o_buf = fresh_cpp, o_calls = 0, o_sent = []\<rparr>"
  have d: "emptied 4096 ?s" using fresh_cpp_facts by (simp add: emptied_def fresh_cpp_def fresh_buffer_def of_c_def)
  have cb: "cstr (bad_answer @ [NUL]) = bad_answer"
    by (intro cstr_append_NUL) (simp add: bad_answer_def crlf_def)
  have le: "int (length bad_answer) \<le> 4096" by (simp add: bad_answer_def)
  obtain s' where s': "put_send (e_mem e) sk bad_answer ?s = Inr s'" "emptied 4096 s'" "o_sent s' = o_sent ?s @ bad_answer"
    by (rule put_send_eager [OF sk d le])
  have "bindR (appendString_s (e_mem e) (o_buf ?s) bad_answer) (\<lambda>(_, b). Inr (send_now sk (?s\<lparr>o_buf := b\<rparr>))) =
      bindR (put_c (e_mem e) (bad_answer @ [NUL]) ?s) (\<lambda>s. Inr (send_now sk s))"
    by (simp add: put_c_def appendString_s_def bindR_assoc split_def)
  also have "\<dots> = put_send (e_mem e) sk bad_answer ?s"
    unfolding put_c_put cb put_send_def ..
  also note s'(1)
  finally have b: "bindR (appendString_s (e_mem e) fresh_cpp bad_answer)
      (\<lambda>(_, b). Inr (send_now sk (?s\<lparr>o_buf := b\<rparr>))) = Inr s'" by simp
  have "readableSize b' = 0 \<longleftrightarrow> unread b' = []" "readableSize (o_buf s') = 0"
    using readable_unread [OF b'] s'(2) readable_unread [of "o_buf s'"] by (auto simp: emptied_def)
  with a b s'(3) show ?thesis
    by (simp add: answer_parts_def fresh_parts_def both_empty_def)
qed

lemma answer_partial:
  assumes rb: "cpp_inv rb" "unread rb = m @ '' '' @ u @ '' '' @ v @ crlf @ concat (map header_line hs) @ rest"
    and ok: "request_ok m u v hs" and rest: "memmem rest crlf = None" and sk: "eager sk"
  shows "\<exists>q. answer_parts e nd sk (fresh_parts\<lparr>m_readBuf := rb\<rparr>) = Some (Inr (q, bad_answer)) \<and>
    both_empty q = (rest = []) \<and> unread (m_readBuf q) = rest"
proof -
  let ?s = "\<lparr>o_buf = fresh_cpp, o_calls = 0, o_sent = []\<rparr>"
  obtain q b' where "cpp_parse_loop e nd sk resetRequest rb newResponse ?s = Some (Inr (False, q, b', newResponse, ?s))"
      "cpp_inv b'" "unread b' = rest"
    by (rule cpp_parse_partial [OF rb(1) ok rest rb(2)])
  with answer_refused [OF this(1,2) sk] show ?thesis by auto
qed

text \<open>A read without a line, where the length of the line does not come out positive.\<close>

lemma answer_no_line:
  assumes rb: "cpp_inv rb" and n: "memmem (unread rb) crlf = None" and nd: "nd \<le> 0" and sk: "eager sk"
  shows "\<exists>q. answer_parts e nd sk (fresh_parts\<lparr>m_readBuf := rb\<rparr>) = Some (Inr (q, bad_answer)) \<and>
    both_empty q = (unread rb = []) \<and> m_readBuf q = rb"
  by (rule answer_refused [OF _ rb sk]) (use cpp_parse_bad_line(1) [OF rb n] nd in simp)

section \<open>Accepting a client\<close>

lemma processTaskQ_one:
  assumes "x_loops w l = Some lp" and "m_taskQ lp = [t]"
    and "cpp_run_task l t (set_loop l (\<lambda>lp. lp\<lparr>m_taskQ := []\<rparr>) w) = Inr w'"
    and "x_loops w' l = Some lp'" and "m_taskQ lp' = []"
  shows "cpp_processTaskQ l w = Some (Inr w')"
  using assms processTaskQ_empty [OF assms(4,5)] by (subst cpp_processTaskQ.simps) simp

lemma watch_read_only:
  "(if has_event ReadEvent ReadEvent then EPOLLIN else 0) OR (if has_event ReadEvent WriteEvent then EPOLLOUT else 0) = EPOLLIN"
  by simp

text \<open>Registering a channel that is to be read, in the thread of the loop.\<close>

lemma add_watches:
  assumes lp: "x_loops w l = Some lp" and ch: "x_channels w ch = Some c"
    and c: "c_fd c = fd" "c_events c = ReadEvent"
    and free: "m_channelMap lp fd = None" "ep_set (m_dispatcher lp) fd = None" "x_open w fd" "fd \<noteq> epfd (m_dispatcher lp)"
  shows "cpp_run_task l (ADD, ch) w = Inr (w\<lparr>x_loops := (x_loops w)(l \<mapsto>
    lp\<lparr>m_channelMap := (m_channelMap lp)(fd \<mapsto> Some ch),
       m_dispatcher := (m_dispatcher lp)\<lparr>ep_set := (ep_set (m_dispatcher lp))(fd \<mapsto> EPOLLIN)\<rparr>\<rparr>)\<rparr>)"
  using assms
  by (simp add: cpp_run_task_def cpp_add_def dispatcher_add_def cpp_epollCtl_def epoll_ctl_def set_loop_def)

text \<open>
  \<open>quiet w s l fd\<close>: the main thread can accept \<open>fd\<close> for the worker \<open>l\<close>, which is at rest in its own
  thread, and \<open>fd\<close> is not in use there.
\<close>

definition quiet :: "cpp_world \<Rightarrow> nat \<Rightarrow> nat \<Rightarrow> int \<Rightarrow> bool" where
  "quiet w s l fd \<longleftrightarrow> (\<exists>server main lp.
     x_servers w s = Some server \<and> tp_isStart (s_pool server) \<and> x_loops w (tp_mainLoop (s_pool server)) = Some main \<and>
     m_threadID main = x_self w \<and> 0 < tp_threadNum (s_pool server) \<and>
     int (length (tp_workers (s_pool server))) = tp_threadNum (s_pool server) \<and>
     0 \<le> tp_index (s_pool server) \<and> tp_index (s_pool server) < tp_threadNum (s_pool server) \<and>
     wk_evLoop (tp_workers (s_pool server) ! nat (tp_index (s_pool server))) = l \<and>
     x_loops w l = Some lp \<and> m_threadID lp \<noteq> x_self w \<and> m_taskQ lp = [] \<and>
     m_channelMap lp fd = None \<and> ep_set (m_dispatcher lp) fd = None \<and> fd \<noteq> epfd (m_dispatcher lp) \<and>
     e_mem (x_env w) 10240 \<and> 0 \<le> fd \<and>
     (\<exists>wch. m_channelMap lp (snd (m_socketPair lp)) = Some (Some wch) \<and> 0 \<le> snd (m_socketPair lp) \<and>
        wch < x_next w \<and> snd (m_socketPair lp) \<noteq> fd \<and>
        x_channels w wch = Some (newChannel (snd (m_socketPair lp)) ReadEvent (Some ReadMessage) None None l)))"

text \<open>What the worker sees then: the new connection is in its queue and its wake-up socket is readable.\<close>

definition wake_fd :: "cpp_world \<Rightarrow> nat \<Rightarrow> int" where
  "wake_fd w l = snd (m_socketPair (the (x_loops w l)))"

lemma accept_queues:
  assumes q: "quiet w s l fd" and acc: "x_accept (the_io w) = fd"
  obtains w' server lp where "cpp_call Accept s w = Some (Inr w')"
    "x_loops w l = Some lp" "x_servers w s = Some server"
    "w' = w\<lparr>x_open := (x_open w)(fd := True),
       x_servers := (x_servers w)(s \<mapsto> server\<lparr>s_pool := (s_pool server)\<lparr>tp_index :=
         (tp_index (s_pool server) + 1) mod tp_threadNum (s_pool server)\<rparr>\<rparr>),
       x_next := Suc (Suc (x_next w)),
       x_conns := (x_conns w)(x_next w \<mapsto> \<lparr>m_name = ''Connection-'' @ dec_int fd, m_evLoop = l, m_channel = Suc (x_next w)\<rparr>),
       x_parts := (x_parts w)(x_next w \<mapsto> fresh_parts),
       x_channels := (x_channels w)(Suc (x_next w) \<mapsto> conn_channel_of fd (x_next w)),
       x_loops := (x_loops w)(l \<mapsto> lp\<lparr>m_taskQ := [(ADD, Suc (x_next w))]\<rparr>),
       x_inbox := (x_inbox w)(snd (m_socketPair lp) := x_inbox w (snd (m_socketPair lp)) @ wake_msg),
       x_tick := Suc (x_tick w)\<rparr>"
proof -
  from q obtain server main lp where a: "x_servers w s = Some server" "tp_isStart (s_pool server)"
    "x_loops w (tp_mainLoop (s_pool server)) = Some main"
    "m_threadID main = x_self w" "0 < tp_threadNum (s_pool server)"
    "int (length (tp_workers (s_pool server))) = tp_threadNum (s_pool server)"
    "0 \<le> tp_index (s_pool server)" "tp_index (s_pool server) < tp_threadNum (s_pool server)"
    "wk_evLoop (tp_workers (s_pool server) ! nat (tp_index (s_pool server))) = l"
    "x_loops w l = Some lp" "m_threadID lp \<noteq> x_self w" "m_taskQ lp = []" "e_mem (x_env w) 10240" "0 \<le> fd"
    unfolding quiet_def by blast
  show ?thesis
    by (rule that [OF _ a(10,1)])
      (use a newBuffer_fresh acc in \<open>simp_all add: cpp_call_def cpp_acceptConnection_def cpp_takeWorkerEventLoop_def
        newTcpConnection_def cpp_addTask_def cpp_taskWakeup_def set_loop_def Let_def fresh_parts_def conn_channel_of_def\<close>)
qed

lemma worker_takes:
  assumes lp: "x_loops w l = Some lp" and q: "m_taskQ lp = [(ADD, ch)]" and t: "m_threadID lp = x_self w"
    and free: "m_channelMap lp fd = None" "ep_set (m_dispatcher lp) fd = None" "x_open w fd" "fd \<noteq> epfd (m_dispatcher lp)"
    and wake: "m_channelMap lp wfd = Some (Some wch)" "wfd = snd (m_socketPair lp)" "0 \<le> wfd"
      "x_channels w wch = Some (newChannel wfd ReadEvent (Some ReadMessage) None None l)" "x_inbox w wfd \<noteq> []"
    and conn: "x_channels w ch = Some (conn_channel_of fd p)" "0 \<le> fd"
      "x_conns w p = Some conn" "m_evLoop conn = l" "m_channel conn = ch" "x_parts w p = Some parts"
  obtains w' where "cpp_round cpp_call l [(EPOLLIN, wfd)] w = Some (Inr w')"
    "attached w' l p fd" "x_parts w' = x_parts w" "x_servers w' = x_servers w"
proof -
  let ?awake = "ticked_once (w\<lparr>x_inbox := (x_inbox w)(wfd := drop 256 (x_inbox w wfd))\<rparr>)"
  have e: "cpp_eventActive cpp_call l wfd ReadEvent w = Some (Inr ?awake)"
    using lp wake by (simp add: cpp_eventActive_def newChannel_def cpp_call_def cpp_readMessage_def ticked_once_def Let_def)
  have lp1: "x_loops ?awake l = Some lp" using lp by (simp add: ticked_once_def)
  let ?empty = "lp\<lparr>m_taskQ := []\<rparr>"
  let ?taken = "?empty\<lparr>m_channelMap := (m_channelMap ?empty)(fd \<mapsto> Some ch),
      m_dispatcher := (m_dispatcher ?empty)\<lparr>ep_set := (ep_set (m_dispatcher ?empty))(fd \<mapsto> EPOLLIN)\<rparr>\<rparr>"
  let ?popped = "set_loop l (\<lambda>lp. lp\<lparr>m_taskQ := []\<rparr>) ?awake"
  let ?done = "?popped\<lparr>x_loops := (x_loops ?popped)(l \<mapsto> ?taken)\<rparr>"
  have lp2: "x_loops ?popped l = Some ?empty" using lp1 by (simp add: set_loop_def)
  have ch2: "x_channels ?popped ch = Some (conn_channel_of fd p)" using conn(1) by (simp add: ticked_once_def)
  have "cpp_run_task l (ADD, ch) ?popped = Inr ?done"
    by (rule add_watches [OF lp2 ch2]) (use free in \<open>simp_all add: ticked_once_def\<close>)
  from processTaskQ_one [OF lp1 q this, where lp' = ?taken] have "cpp_processTaskQ l ?awake = Some (Inr ?done)" by simp
  then have r: "cpp_round cpp_call l [(EPOLLIN, wfd)] w = Some (Inr ?done)"
    by (simp add: cpp_round_def cpp_dispatch_def e)
  have "attached ?done l p fd"
    using t free(3,4) conn by (simp add: attached_def ticked_once_def)
  with r that show ?thesis by (simp add: ticked_once_def)
qed

lemma accept_step:
  assumes q: "quiet w s l fd" and acc: "x_accept (the_io w) = fd"
  obtains w1 w2 tid where "cpp_call Accept s w = Some (Inr w1)"
    "map_option m_threadID (x_loops w l) = Some tid"
    "cpp_round cpp_call l [(EPOLLIN, wake_fd w l)] (w1\<lparr>x_self := tid\<rparr>) = Some (Inr w2)"
    "awaiting w2 l (x_next w) fd" "x_servers w2 = x_servers w1"
proof -
  obtain w1 server lp where a: "cpp_call Accept s w = Some (Inr w1)" "x_loops w l = Some lp" "x_servers w s = Some server"
    "w1 = w\<lparr>x_open := (x_open w)(fd := True),
       x_servers := (x_servers w)(s \<mapsto> server\<lparr>s_pool := (s_pool server)\<lparr>tp_index :=
         (tp_index (s_pool server) + 1) mod tp_threadNum (s_pool server)\<rparr>\<rparr>),
       x_next := Suc (Suc (x_next w)),
       x_conns := (x_conns w)(x_next w \<mapsto> \<lparr>m_name = ''Connection-'' @ dec_int fd, m_evLoop = l, m_channel = Suc (x_next w)\<rparr>),
       x_parts := (x_parts w)(x_next w \<mapsto> fresh_parts),
       x_channels := (x_channels w)(Suc (x_next w) \<mapsto> conn_channel_of fd (x_next w)),
       x_loops := (x_loops w)(l \<mapsto> lp\<lparr>m_taskQ := [(ADD, Suc (x_next w))]\<rparr>),
       x_inbox := (x_inbox w)(snd (m_socketPair lp) := x_inbox w (snd (m_socketPair lp)) @ wake_msg),
       x_tick := Suc (x_tick w)\<rparr>"
    by (rule accept_queues [OF q acc])
  from q a(2) obtain wch where b: "m_channelMap lp fd = None" "ep_set (m_dispatcher lp) fd = None"
    "fd \<noteq> epfd (m_dispatcher lp)" "0 \<le> fd"
    "m_channelMap lp (snd (m_socketPair lp)) = Some (Some wch)" "0 \<le> snd (m_socketPair lp)" "wch < x_next w"
    "x_channels w wch = Some (newChannel (snd (m_socketPair lp)) ReadEvent (Some ReadMessage) None None l)"
    unfolding quiet_def by auto
  have wk: "wake_fd w l = snd (m_socketPair lp)" using a(2) by (simp add: wake_fd_def)
  let ?w = "w1\<lparr>x_self := m_threadID lp\<rparr>"
  let ?lp = "lp\<lparr>m_taskQ := [(ADD, Suc (x_next w))]\<rparr>"
  obtain w2 where "cpp_round cpp_call l [(EPOLLIN, wake_fd w l)] ?w = Some (Inr w2)"
    "attached w2 l (x_next w) fd" "x_parts w2 = x_parts ?w" "x_servers w2 = x_servers ?w"
    by (rule worker_takes [of ?w l ?lp "Suc (x_next w)" fd "wake_fd w l" wch "x_next w"
        "\<lparr>m_name = ''Connection-'' @ dec_int fd, m_evLoop = l, m_channel = Suc (x_next w)\<rparr>" fresh_parts])
      (use b in \<open>simp_all add: a(4) wk\<close>)
  with that [OF a(1), of "m_threadID lp" w2] a(2) show ?thesis by (simp add: awaiting_def a(4))
qed

end
