(* ===== verification/CppConnections.thy ===== *)
theory CppConnections
  imports CppServer
begin

text \<open>
  A worker of the C++ rewrite with any number of connections: connections join it from the main
  thread, wait in its task queue, are watched, and end. The lemmas say what each step of the
  process does to the objects of one loop.
\<close>

section \<open>The connections of a loop\<close>

text \<open>
  Connection \<open>p\<close> of loop \<open>l\<close> with descriptor \<open>fd\<close>: its objects are there, and the descriptor is open.
  It is watched, or its channel \<open>ch\<close> is in the queue of the loop and the descriptor is not known to it yet.
\<close>

definition conn_of :: "cpp_world \<Rightarrow> nat \<Rightarrow> nat \<Rightarrow> int \<Rightarrow> nat \<Rightarrow> bool" where
  "conn_of w l p fd ch \<longleftrightarrow> map_option (\<lambda>conn. (m_evLoop conn, m_channel conn)) (x_conns w p) = Some (l, ch) \<and>
     x_parts w p \<noteq> None \<and> x_channels w ch = Some (conn_channel_of fd p) \<and> x_open w fd \<and> 0 \<le> fd"

definition linked :: "cpp_world \<Rightarrow> nat \<Rightarrow> nat \<Rightarrow> int \<Rightarrow> bool" where
  "linked w l p fd \<longleftrightarrow> (\<exists>lp ch. x_loops w l = Some lp \<and> conn_of w l p fd ch \<and>
     m_channelMap lp fd = Some (Some ch) \<and> ep_set (m_dispatcher lp) fd = Some EPOLLIN \<and> fd \<noteq> epfd (m_dispatcher lp))"

definition pending :: "cpp_world \<Rightarrow> nat \<Rightarrow> nat \<Rightarrow> int \<Rightarrow> nat \<Rightarrow> bool" where
  "pending w l p fd ch \<longleftrightarrow> (\<exists>lp. x_loops w l = Some lp \<and> conn_of w l p fd ch \<and>
     m_channelMap lp fd = None \<and> ep_set (m_dispatcher lp) fd = None \<and> fd \<noteq> epfd (m_dispatcher lp))"

lemma attached_linked:
  "attached w l p fd \<longleftrightarrow> linked w l p fd \<and> map_option (\<lambda>lp. (m_taskQ lp, m_threadID lp)) (x_loops w l) = Some ([], x_self w)"
  unfolding attached_def linked_def conn_of_def by auto

definition watched_fds :: "cpp_world \<Rightarrow> nat \<Rightarrow> int set" where
  "watched_fds w l = {fd. ep_set (m_dispatcher (the (x_loops w l))) fd \<noteq> None}"

text \<open>The queued tasks with the descriptors of their channels.\<close>

definition task_fds :: "(nat \<Rightarrow> cpp_channel option) \<Rightarrow> (ElemType \<times> nat) list \<Rightarrow> (nat \<times> int) list" where
  "task_fds cs q = map (\<lambda>(_, ch). (ch, c_fd (the (cs ch)))) q"

definition pending_fds :: "cpp_world \<Rightarrow> nat \<Rightarrow> int set" where
  "pending_fds w l = snd ` set (task_fds (x_channels w) (m_taskQ (the (x_loops w l))))"

definition heap_bounded :: "cpp_world \<Rightarrow> bool" where
  "heap_bounded w \<longleftrightarrow> (\<forall>a. x_next w \<le> a \<longrightarrow> x_conns w a = None \<and> x_parts w a = None \<and> x_channels w a = None)"

definition wake_channel :: "int \<Rightarrow> nat \<Rightarrow> cpp_channel" where
  "wake_channel fd l = newChannel fd ReadEvent (Some ReadMessage) None None l"

text \<open>An entry of the map: the descriptor is open and its channel is there.\<close>

definition entry_live :: "cpp_world \<Rightarrow> int \<Rightarrow> nat option \<Rightarrow> bool" where
  "entry_live w fd x \<longleftrightarrow> x_open w fd \<and> (\<exists>ch c. x = Some ch \<and> x_channels w ch = Some c \<and> c_fd c = fd)"

text \<open>
  What holds of a worker's loop, seen from its thread: everything it watches, apart from its wake-up
  socket, is a live connection with its channel in the map; every entry of the map is an open
  descriptor with its channel; what is in its queue is new connections with descriptors it does not know.
\<close>

definition consistent :: "cpp_world \<Rightarrow> nat \<Rightarrow> bool" where
  "consistent w l \<longleftrightarrow> heap_bounded w \<and> (\<exists>lp wch. x_loops w l = Some lp \<and> m_threadID lp = x_self w \<and>
     x_open w (epfd (m_dispatcher lp)) \<and> (\<forall>fd x. m_channelMap lp fd = Some x \<longrightarrow> entry_live w fd x) \<and>
     m_channelMap lp (wake_fd w l) = Some (Some wch) \<and> x_channels w wch = Some (wake_channel (wake_fd w l) l) \<and>
     0 \<le> wake_fd w l \<and>
     (\<forall>fd \<in> watched_fds w l - {wake_fd w l}. \<exists>p. linked w l p fd) \<and>
     (\<forall>(ty, ch) \<in> set (m_taskQ lp). ty = ADD \<and> (\<exists>p fd. pending w l p fd ch)) \<and>
     distinct (map snd (task_fds (x_channels w) (m_taskQ lp))))"

lemma consistentE:
  assumes "consistent w l"
  obtains lp wch where "heap_bounded w" "x_loops w l = Some lp" "m_threadID lp = x_self w"
    "x_open w (epfd (m_dispatcher lp))" "\<And>fd x. m_channelMap lp fd = Some x \<Longrightarrow> entry_live w fd x"
    "m_channelMap lp (wake_fd w l) = Some (Some wch)" "x_channels w wch = Some (wake_channel (wake_fd w l) l)"
    "0 \<le> wake_fd w l" "\<And>fd. fd \<in> watched_fds w l \<Longrightarrow> fd \<noteq> wake_fd w l \<Longrightarrow> \<exists>p. linked w l p fd"
    "\<And>ty ch. (ty, ch) \<in> set (m_taskQ lp) \<Longrightarrow> ty = ADD \<and> (\<exists>p fd. pending w l p fd ch)"
    "distinct (map snd (task_fds (x_channels w) (m_taskQ lp)))"
  using assms unfolding consistent_def by blast

lemma consistentI:
  assumes "heap_bounded w" "x_loops w l = Some lp" "m_threadID lp = x_self w"
    "x_open w (epfd (m_dispatcher lp))" "\<And>fd x. m_channelMap lp fd = Some x \<Longrightarrow> entry_live w fd x"
    "m_channelMap lp (wake_fd w l) = Some (Some wch)" "x_channels w wch = Some (wake_channel (wake_fd w l) l)"
    "0 \<le> wake_fd w l" "\<And>fd. fd \<in> watched_fds w l \<Longrightarrow> fd \<noteq> wake_fd w l \<Longrightarrow> \<exists>p. linked w l p fd"
    "\<And>ty ch. (ty, ch) \<in> set (m_taskQ lp) \<Longrightarrow> ty = ADD \<and> (\<exists>p fd. pending w l p fd ch)"
    "distinct (map snd (task_fds (x_channels w) (m_taskQ lp)))"
  shows "consistent w l"
  using assms unfolding consistent_def by blast

lemma wake_channel_fd [simp]: "c_fd (wake_channel fd l) = fd"
  by (simp add: wake_channel_def newChannel_def)

lemma wake_conn_channel [simp]: "wake_channel fd l \<noteq> conn_channel_of fd' p" "conn_channel_of fd' p \<noteq> wake_channel fd l"
  by (auto simp: wake_channel_def conn_channel_of_def newChannel_def)

lemma conn_channel_inj: "conn_channel_of fd p = conn_channel_of fd' p' \<longleftrightarrow> fd = fd' \<and> p = p'"
  by (auto simp: conn_channel_of_def newChannel_def)

lemma entry_live_open: "entry_live w fd x \<Longrightarrow> x_open w fd"
  by (simp add: entry_live_def)

lemma linked_open: "linked w l p fd \<Longrightarrow> x_open w fd" "pending w l p fd ch \<Longrightarrow> x_open w fd"
  by (auto simp: linked_def pending_def conn_of_def)

section \<open>Taking in the new connections\<close>

definition take_in :: "(nat \<times> int) list \<Rightarrow> cpp_loop \<Rightarrow> cpp_loop" where
  "take_in js lp = lp\<lparr>m_taskQ := drop (length js) (m_taskQ lp),
     m_channelMap := fold (\<lambda>(ch, fd) m. m(fd \<mapsto> Some ch)) js (m_channelMap lp),
     m_dispatcher := (m_dispatcher lp)\<lparr>ep_set := fold (\<lambda>(ch, fd) m. m(fd \<mapsto> EPOLLIN)) js (ep_set (m_dispatcher lp))\<rparr>\<rparr>"

definition taken_in :: "nat \<Rightarrow> cpp_world \<Rightarrow> cpp_world" where
  "taken_in l w = set_loop l (\<lambda>lp. take_in (task_fds (x_channels w) (m_taskQ lp)) lp) w"

lemma fold_watch:
  "fold (\<lambda>(ch, fd) m. m(fd \<mapsto> EPOLLIN)) js m fd = (if fd \<in> snd ` set js then Some EPOLLIN else m fd)"
  by (induction js arbitrary: m) auto

lemma fold_map:
  "fd \<notin> snd ` set js \<Longrightarrow> fold (\<lambda>(ch, fd) m. m(fd \<mapsto> Some ch)) js m fd = m fd"
  "distinct (map snd js) \<Longrightarrow> (ch, fd) \<in> set js \<Longrightarrow> fold (\<lambda>(ch, fd) m. m(fd \<mapsto> Some ch)) js m fd = Some (Some ch)"
proof (induction js arbitrary: m)
  case (Cons j js)
  {
    case 1
    then show ?case using Cons.IH(1) by (auto split: prod.splits)
  next
    case 2
    then show ?case
    proof (cases "j = (ch, fd)")
      case True
      with 2 have "fd \<notin> snd ` set js" by auto
      with Cons.IH(1) True show ?thesis by simp
    next
      case False
      with 2 Cons.IH(2) show ?thesis by (auto split: prod.splits)
    qed
  }
qed simp_all

text \<open>The queue is worked off from its front, in the thread of the loop.\<close>

lemma processTaskQ_adds:
  assumes "x_loops w l = Some lp" and "m_taskQ lp = q @ rest"
    and "\<forall>(ty, ch) \<in> set q. ty = ADD \<and> (\<exists>p fd. pending w l p fd ch)" and "distinct (map snd (task_fds (x_channels w) q))"
  shows "cpp_processTaskQ l w = cpp_processTaskQ l (set_loop l (take_in (task_fds (x_channels w) q)) w)"
  using assms
proof (induction q arbitrary: w lp)
  case Nil
  then show ?case by (simp add: take_in_def task_fds_def set_loop_def fun_upd_idem)
next
  case (Cons t q)
  obtain ch where t: "t = (ADD, ch)" using Cons.prems(3) by (cases t) auto
  with Cons.prems(3) obtain p fd where p: "pending w l p fd ch" by auto
  let ?lp = "lp\<lparr>m_taskQ := q @ rest\<rparr>"
  let ?w = "set_loop l (\<lambda>lp. lp\<lparr>m_taskQ := q @ rest\<rparr>) w"
  let ?lp1 = "?lp\<lparr>m_channelMap := (m_channelMap ?lp)(fd \<mapsto> Some ch),
       m_dispatcher := (m_dispatcher ?lp)\<lparr>ep_set := (ep_set (m_dispatcher ?lp))(fd \<mapsto> EPOLLIN)\<rparr>\<rparr>"
  let ?w1 = "?w\<lparr>x_loops := (x_loops ?w)(l \<mapsto> ?lp1)\<rparr>"
  have lp: "x_loops ?w l = Some ?lp" using Cons.prems(1) by (simp add: set_loop_def)
  have c: "x_channels w ch = Some (conn_channel_of fd p)" "m_channelMap lp fd = None" "ep_set (m_dispatcher lp) fd = None"
    "x_open w fd" "fd \<noteq> epfd (m_dispatcher lp)"
    using p Cons.prems(1) by (auto simp: pending_def conn_of_def)
  have "cpp_run_task l (ADD, ch) ?w = Inr ?w1"
    by (rule add_watches [OF lp, where c = "conn_channel_of fd p"]) (use c in \<open>simp_all add: conn_channel_of_simps\<close>)
  then have step: "cpp_processTaskQ l w = cpp_processTaskQ l ?w1"
    using Cons.prems(1,2) t by (subst cpp_processTaskQ.simps) simp
  have qd: "task_fds (x_channels ?w1) q = task_fds (x_channels w) q" "task_fds (x_channels w) (t # q) = (ch, fd) # task_fds (x_channels w) q"
    using c(1) t by (simp_all add: task_fds_def)
  have "\<exists>p' fd'. pending ?w1 l p' fd' ch'" if m: "(ty, ch') \<in> set q" for ty ch'
  proof -
    from Cons.prems(3) m obtain p' fd' where p': "pending w l p' fd' ch'" by auto
    have "(ch', fd') \<in> set (task_fds (x_channels w) q)"
      using m p' by (force simp: task_fds_def pending_def conn_of_def)
    then have "fd' \<noteq> fd" using Cons.prems(4) unfolding qd(2) by force
    then show ?thesis using p' Cons.prems(1) by (auto simp: pending_def conn_of_def)
  qed
  then have "cpp_processTaskQ l ?w1 = cpp_processTaskQ l (set_loop l (take_in (task_fds (x_channels ?w1) q)) ?w1)"
    using Cons.IH [of ?w1 ?lp1] Cons.prems(3,4) qd by fastforce
  also have "set_loop l (take_in (task_fds (x_channels ?w1) q)) ?w1 = set_loop l (take_in (task_fds (x_channels w) (t # q))) w"
    using Cons.prems(1,2) by (simp add: qd set_loop_def take_in_def fun_eq_iff)
  finally show ?case unfolding step .
qed

lemma taken_in_frame [simp]:
  "x_channels (taken_in l w) = x_channels w" "x_conns (taken_in l w) = x_conns w" "x_parts (taken_in l w) = x_parts w"
  "x_next (taken_in l w) = x_next w" "x_self (taken_in l w) = x_self w" "x_open (taken_in l w) = x_open w"
  "x_inbox (taken_in l w) = x_inbox w" "x_sent (taken_in l w) = x_sent w" "x_env (taken_in l w) = x_env w"
  "x_io (taken_in l w) = x_io w" "x_tick (taken_in l w) = x_tick w" "the_io (taken_in l w) = the_io w"
  by (simp_all add: taken_in_def the_io_def)

lemma taken_in_loop:
  assumes "x_loops w l = Some lp"
  shows "x_loops (taken_in l w) l = Some (take_in (task_fds (x_channels w) (m_taskQ lp)) lp)"
    "m_taskQ (take_in (task_fds (x_channels w) (m_taskQ lp)) lp) = []" "wake_fd (taken_in l w) l = wake_fd w l"
  using assms by (simp_all add: taken_in_def set_loop_def take_in_def task_fds_def wake_fd_def)

lemma taken_in_known:
  "x_loops w l = Some lp \<Longrightarrow> taken_in l w = w\<lparr>x_loops := (x_loops w)(l \<mapsto> take_in (task_fds (x_channels w) (m_taskQ lp)) lp)\<rparr>"
  by (simp add: taken_in_def set_loop_def)

text \<open>Taking in makes the pending connections watched ones.\<close>

lemma consistent_taken_in:
  assumes con: "consistent w l"
  shows "consistent (taken_in l w) l" "watched_fds (taken_in l w) l = watched_fds w l \<union> pending_fds w l"
    "pending_fds (taken_in l w) l = {}"
proof -
  obtain lp wch where c: "heap_bounded w" "x_loops w l = Some lp" "m_threadID lp = x_self w"
    "x_open w (epfd (m_dispatcher lp))" "\<And>fd x. m_channelMap lp fd = Some x \<Longrightarrow> entry_live w fd x"
    "m_channelMap lp (wake_fd w l) = Some (Some wch)" "x_channels w wch = Some (wake_channel (wake_fd w l) l)"
    "0 \<le> wake_fd w l" "\<And>fd. fd \<in> watched_fds w l \<Longrightarrow> fd \<noteq> wake_fd w l \<Longrightarrow> \<exists>p. linked w l p fd"
    "\<And>ty ch. (ty, ch) \<in> set (m_taskQ lp) \<Longrightarrow> ty = ADD \<and> (\<exists>p fd. pending w l p fd ch)"
    "distinct (map snd (task_fds (x_channels w) (m_taskQ lp)))"
    by (rule consistentE [OF con]) blast
  let ?js = "task_fds (x_channels w) (m_taskQ lp)" and ?v = "taken_in l w"
  let ?lp = "take_in ?js lp"
  note v = taken_in_loop [OF c(2)]
  have js: "\<exists>p. pending w l p fd ch" if "(ch, fd) \<in> set ?js" for ch fd
    using that c(10) by (force simp: task_fds_def pending_def conn_of_def)
  have m: "m_channelMap ?lp fd = m_channelMap lp fd" "ep_set (m_dispatcher ?lp) fd = ep_set (m_dispatcher lp) fd"
    if "fd \<notin> snd ` set ?js" for fd
    using that by (simp_all add: take_in_def fold_map(1) fold_watch)
  have n: "m_channelMap ?lp fd = Some (Some ch)" "ep_set (m_dispatcher ?lp) fd = Some EPOLLIN" if "(ch, fd) \<in> set ?js" for ch fd
    using that by (force simp: take_in_def fold_map(2) [OF c(11)] fold_watch)+
  have e: "epfd (m_dispatcher ?lp) = epfd (m_dispatcher lp)" "m_threadID ?lp = m_threadID lp" by (simp_all add: take_in_def)
  have pd: "pending_fds w l = snd ` set ?js" using c(2) by (simp add: pending_fds_def)
  show w: "watched_fds ?v l = watched_fds w l \<union> pending_fds w l"
    using c(2) v(1) by (auto simp: watched_fds_def pd take_in_def fold_watch)
  show "pending_fds ?v l = {}" using v(1,2) by (simp add: pending_fds_def task_fds_def)
  have new: "\<exists>p. linked ?v l p fd" if fd: "(ch, fd) \<in> set ?js" for ch fd
  proof -
    obtain p where "pending w l p fd ch" using js [OF fd] by blast
    with n [OF fd] v(1) c(2) e show ?thesis by (auto simp: linked_def pending_def conn_of_def)
  qed
  have old: "linked ?v l p fd" if "linked w l p fd" for p fd
  proof -
    from that c(2) obtain ch where ch: "conn_of w l p fd ch" "m_channelMap lp fd = Some (Some ch)"
      "ep_set (m_dispatcher lp) fd = Some EPOLLIN" "fd \<noteq> epfd (m_dispatcher lp)" by (auto simp: linked_def)
    have "fd \<notin> snd ` set ?js" using js c(2) ch(2) by (force simp: pending_def)
    with ch m v(1) e show ?thesis by (auto simp: linked_def conn_of_def)
  qed
  have wk: "wake_fd w l \<notin> snd ` set ?js" using js c(2,6) by (force simp: pending_def)
  show "consistent ?v l"
  proof (rule consistentI [OF _ v(1)])
    show "heap_bounded ?v" using c(1) by (simp add: heap_bounded_def)
    show "entry_live ?v fd x" if x: "m_channelMap ?lp fd = Some x" for fd x
    proof (cases "fd \<in> snd ` set ?js")
      case True
      then obtain ch where ch: "(ch, fd) \<in> set ?js" by auto
      from js [OF ch] n(1) [OF ch] x show ?thesis by (auto simp: entry_live_def pending_def conn_of_def)
    next
      case False
      with x m(1) have "entry_live w fd x" by (intro c(5)) simp
      then show ?thesis by (simp add: entry_live_def)
    qed
    show "\<exists>p. linked ?v l p fd" if "fd \<in> watched_fds ?v l" "fd \<noteq> wake_fd ?v l" for fd
    proof (cases "fd \<in> pending_fds w l")
      case True
      then show ?thesis using new unfolding pd by auto
    next
      case False
      with that c(9) [of fd] old show ?thesis unfolding w v(3) by blast
    qed
    show "m_channelMap ?lp (wake_fd ?v l) = Some (Some wch)" using m(1) [OF wk] c(6) by (simp add: v(3))
  qed (use c e v in \<open>simp_all add: task_fds_def\<close>)
qed

text \<open>
  The end of a task queue: what is left are the new connections. A task the loop's own thread adds
  is run behind them.
\<close>

lemma processTaskQ_consistent:
  assumes con: "consistent w l"
  shows "cpp_processTaskQ l w = Some (Inr (taken_in l w))"
proof -
  from con obtain lp where c: "x_loops w l = Some lp"
    "\<And>ty ch. (ty, ch) \<in> set (m_taskQ lp) \<Longrightarrow> ty = ADD \<and> (\<exists>p fd. pending w l p fd ch)"
    "distinct (map snd (task_fds (x_channels w) (m_taskQ lp)))" by (rule consistentE) blast
  from processTaskQ_adds [OF c(1), of "m_taskQ lp" "[]"] c(2,3)
  have "cpp_processTaskQ l w = cpp_processTaskQ l (set_loop l (take_in (task_fds (x_channels w) (m_taskQ lp))) w)" by fastforce
  also have "set_loop l (take_in (task_fds (x_channels w) (m_taskQ lp))) w = taken_in l w"
    using c(1) by (simp add: taken_in_known set_loop_def)
  also have "cpp_processTaskQ l (taken_in l w) = Some (Inr (taken_in l w))"
    using processTaskQ_empty taken_in_loop [OF c(1)] by blast
  finally show ?thesis .
qed

lemma addTask_taken_in:
  assumes con: "consistent w l"
  shows "cpp_addTask l ch ty w = cpp_addTask l ch ty (taken_in l w)"
proof -
  from con obtain lp where c: "x_loops w l = Some lp" "m_threadID lp = x_self w"
    "\<And>ty ch. (ty, ch) \<in> set (m_taskQ lp) \<Longrightarrow> ty = ADD \<and> (\<exists>p fd. pending w l p fd ch)"
    "distinct (map snd (task_fds (x_channels w) (m_taskQ lp)))" by (rule consistentE) blast
  let ?js = "task_fds (x_channels w) (m_taskQ lp)"
  let ?lp = "lp\<lparr>m_taskQ := m_taskQ lp @ [(ty, ch)]\<rparr>"
  let ?w = "set_loop l (\<lambda>lp. lp\<lparr>m_taskQ := m_taskQ lp @ [(ty, ch)]\<rparr>) w"
  have lp: "x_loops ?w l = Some ?lp" using c(1) by (simp add: set_loop_def)
  have pd: "pending ?w l p fd c' = pending w l p fd c'" for p fd c'
    using c(1) by (simp add: pending_def conn_of_def set_loop_def)
  have "cpp_addTask l ch ty w = cpp_processTaskQ l ?w" using c(1,2) by (simp add: cpp_addTask_def Let_def)
  also have "\<dots> = cpp_processTaskQ l (set_loop l (take_in ?js) ?w)"
    using processTaskQ_adds [OF lp, of "m_taskQ lp" "[(ty, ch)]"] c(3,4) by (fastforce simp: pd)
  also have "set_loop l (take_in ?js) ?w = set_loop l (\<lambda>lp. lp\<lparr>m_taskQ := m_taskQ lp @ [(ty, ch)]\<rparr>) (taken_in l w)"
  proof -
    have "take_in ?js ?lp = (take_in ?js lp)\<lparr>m_taskQ := m_taskQ (take_in ?js lp) @ [(ty, ch)]\<rparr>"
      by (rule cpp_loop.equality) (simp_all add: take_in_def task_fds_def)
    then show ?thesis using c(1) by (simp add: taken_in_known set_loop_def)
  qed
  also have "cpp_processTaskQ l \<dots> = cpp_addTask l ch ty (taken_in l w)"
    using c(2) taken_in_loop [OF c(1)] by (simp add: cpp_addTask_def take_in_def Let_def)
  finally show ?thesis .
qed

section \<open>One read of a connection\<close>

lemma conn_of_with_parts: "conn_of w l p fd ch \<Longrightarrow> conn_of (with_parts p' q fd' out w) l p fd ch"
  by (simp add: conn_of_def)

lemma wake_fd_with_parts [simp]: "wake_fd (with_parts p q fd out w) l = wake_fd w l"
  by (simp add: wake_fd_def)

lemma watched_with_parts [simp]: "watched_fds (with_parts p q fd out w) l = watched_fds w l"
  by (simp add: watched_fds_def)

lemma x_next_with_parts [simp]: "x_next (with_parts p q fd out w) = x_next w"
  by (simp add: with_parts_def)

lemma entry_live_with_parts [simp]: "entry_live (with_parts p q fd out w) fd' x = entry_live w fd' x"
  by (simp add: entry_live_def)

lemma consistent_with_parts:
  assumes con: "consistent w l" and p: "x_conns w p \<noteq> None"
  shows "consistent (with_parts p q fd out w) l"
proof -
  let ?v = "with_parts p q fd out w"
  have l: "linked w l p' fd' \<Longrightarrow> linked ?v l p' fd'" for p' fd'
    using conn_of_with_parts by (fastforce simp: linked_def)
  have d: "pending w l p' fd' ch \<Longrightarrow> pending ?v l p' fd' ch" for p' fd' ch
    using conn_of_with_parts by (fastforce simp: pending_def)
  from con p have h: "heap_bounded ?v" by (auto simp: consistent_def heap_bounded_def)
  from con show ?thesis
    by (rule consistentE, intro consistentI [OF h]) (use l d in \<open>auto; blast\<close>)+
qed

lemma taken_in_with_parts: "taken_in l (with_parts p q fd out w) = with_parts p q fd out (taken_in l w)"
  by (simp add: taken_in_def with_parts_def set_loop_def)

lemma processRead_taken_in:
  assumes con: "consistent w l" and at: "linked w l p fd"
  shows "cpp_processRead p w = cpp_processRead p (taken_in l w)"
proof -
  from at obtain conn ch parts where c: "x_conns w p = Some conn" "m_evLoop conn = l" "m_channel conn = ch"
    "x_channels w ch = Some (conn_channel_of fd p)" "x_parts w p = Some parts"
    by (auto simp: linked_def conn_of_def)
  have fin: "cpp_addTask l ch DELETE (with_parts p q fd out w) = cpp_addTask l ch DELETE (with_parts p q fd out (taken_in l w))"
    for q out
    using addTask_taken_in [OF consistent_with_parts [OF con]] c(1) by (simp add: taken_in_with_parts)
  have w: "v\<lparr>x_parts := (x_parts v)(p \<mapsto> q)\<rparr> = with_parts p q fd [] v" for q v by (simp add: with_parts_nothing)
  have io: "the_io (with_parts p q fd [] v) = the_io v" "x_env (with_parts p q fd [] v) = x_env v" for q v
    by (simp_all add: the_io_def with_parts_def)
  have n: "with_parts p q' fd out (with_parts p q fd [] v) = with_parts p q' fd out v" for q q' out v
    by (simp add: with_parts_twice)
  have t: "(taken_in l w)\<lparr>x_parts := (x_parts w)(p \<mapsto> q)\<rparr> = with_parts p q fd [] (taken_in l w)" for q
    using w [of "taken_in l w"] by simp
  have i: "bindO (if b then m else m') f = (if b then bindO m f else bindO m' f)"
    for b and m m' :: "cpp_world run" and f :: "cpp_world \<Rightarrow> cpp_world run" by simp
  show ?thesis
    using c by (simp add: cpp_processRead_def w t i parse_conn_answer bindO_assoc io n fin split_def Let_def cong: if_cong)
qed

text \<open>What an event of a watched connection does: the new connections are taken in, then the connection ends.\<close>

lemma attached_taken_in:
  assumes con: "consistent w l" and at: "linked w l p fd"
  shows "attached (taken_in l w) l p fd"
proof -
  from con obtain lp where c: "x_loops w l = Some lp" "m_threadID lp = x_self w"
    "\<And>ty ch. (ty, ch) \<in> set (m_taskQ lp) \<Longrightarrow> ty = ADD \<and> (\<exists>p fd. pending w l p fd ch)" by (rule consistentE) blast
  let ?js = "task_fds (x_channels w) (m_taskQ lp)"
  from at c(1) obtain ch where ch: "conn_of w l p fd ch" "m_channelMap lp fd = Some (Some ch)"
    "ep_set (m_dispatcher lp) fd = Some EPOLLIN" "fd \<noteq> epfd (m_dispatcher lp)" by (auto simp: linked_def)
  have "fd \<notin> snd ` set ?js" using c(1,3) ch(2) by (fastforce simp: task_fds_def pending_def conn_of_def)
  then have "linked (taken_in l w) l p fd"
    using ch taken_in_loop(1) [OF c(1)] by (auto simp: linked_def conn_of_def take_in_def fold_map(1) fold_watch)
  then show ?thesis
    using c(2) taken_in_loop(1,2) [OF c(1)] by (simp add: attached_linked take_in_def)
qed

lemma processRead_ends:
  assumes at: "attached w l p fd" and r: "cpp_processRead p w = Some (Inr w')"
  obtains q out where "w' = ended q l p fd (with_parts p q fd out w)"
proof -
  from at obtain conn parts where c: "x_conns w p = Some conn" "x_parts w p = Some parts"
    "x_channels w (m_channel conn) = Some (conn_channel_of fd p)" by (rule attachedE)
  with r obtain count rb where rd: "socketRead (e_mem (x_env w)) (m_readBuf parts) (x_avail (the_io w)) = Inr (count, rb)"
    by (cases "socketRead (e_mem (x_env w)) (m_readBuf parts) (x_avail (the_io w))") (auto simp: cpp_processRead_def)
  have "NUL \<in> set (drop (nat (m_readPos rb)) (m_data rb))"
    using r c rd by (auto simp: cpp_processRead_def Let_def split: if_splits)
  note p = processRead_attached [OF at c(2) rd this]
  show ?thesis
  proof (cases "0 < count")
    case True
    with p r have "bindO (answer_parts (x_env w) (x_null (the_io w)) (x_sends (the_io w)) (parts\<lparr>m_readBuf := rb\<rparr>)) (\<lambda>(q, out).
        Some (Inr (ended q l p fd (with_parts p q fd out w)))) = Some (Inr w')" by simp
    then obtain q out where "w' = ended q l p fd (with_parts p q fd out w)"
      by (auto simp: bindO_eq_Inr split: prod.splits)
    then show ?thesis by (rule that)
  next
    case False
    with p r that show ?thesis by simp
  qed
qed

section \<open>The end of a connection\<close>

lemma ended_loop:
  assumes "x_loops w l = Some lp"
  shows "\<exists>lp'. x_loops (ended q l p fd w) l = Some lp' \<and> m_taskQ lp' = m_taskQ lp \<and>
    m_threadID lp' = m_threadID lp \<and> m_socketPair lp' = m_socketPair lp \<and>
    epfd (m_dispatcher lp') = epfd (m_dispatcher lp) \<and>
    ep_set (m_dispatcher lp') = (ep_set (m_dispatcher lp))(fd := None) \<and>
    (\<forall>fd' \<noteq> fd. m_channelMap lp' fd' = m_channelMap lp fd') \<and>
    (m_channelMap lp' fd \<noteq> None \<longrightarrow> x_open (ended q l p fd w) fd = x_open w fd \<and>
       m_channelMap lp' fd = m_channelMap lp fd \<and> x_channels (ended q l p fd w) = x_channels w)"
  using assms
  by (simp add: ended_def released_world_def leaked_world_def set_loop_def cpp_close_def Let_def)

lemma ended_heaps:
  "x_self (ended q l p fd w) = x_self w" "x_next (ended q l p fd w) = x_next w"
  "fd' \<noteq> fd \<Longrightarrow> x_open (ended q l p fd w) fd' = x_open w fd'"
  "p' \<noteq> p \<Longrightarrow> x_conns (ended q l p fd w) p' = x_conns w p'"
  "p' \<noteq> p \<Longrightarrow> x_parts (ended q l p fd w) p' = x_parts w p'"
  "ch \<noteq> m_channel (the (x_conns w p)) \<Longrightarrow> x_channels (ended q l p fd w) ch = x_channels w ch"
  by (simp_all add: ended_def released_world_def leaked_world_def set_loop_def cpp_close_def Let_def)

lemma ended_removes:
  "x_conns w a = None \<Longrightarrow> x_conns (ended q l p fd w) a = None" "x_parts w a = None \<Longrightarrow> x_parts (ended q l p fd w) a = None"
  "x_channels w a = None \<Longrightarrow> x_channels (ended q l p fd w) a = None"
  by (simp_all add: ended_def released_world_def leaked_world_def set_loop_def cpp_close_def Let_def)

text \<open>What happens to one connection leaves the others alone.\<close>

lemma ended_other:
  assumes at: "attached w l p fd" and at': "linked w l p' fd'" and ne: "fd \<noteq> fd'"
  shows "linked (ended q l p fd w) l p' fd'"
proof -
  from at obtain lp conn where c: "x_loops w l = Some lp" "x_conns w p = Some conn"
    "x_channels w (m_channel conn) = Some (conn_channel_of fd p)" by (rule attachedE)
  from at' c(1) obtain ch where a: "conn_of w l p' fd' ch" "m_channelMap lp fd' = Some (Some ch)"
    "ep_set (m_dispatcher lp) fd' = Some EPOLLIN" "fd' \<noteq> epfd (m_dispatcher lp)" by (auto simp: linked_def)
  have n: "p' \<noteq> p" "ch \<noteq> m_channel conn" using a(1) c(2,3) ne by (auto simp: conn_of_def conn_channel_inj)
  from ended_loop [OF c(1), of q p fd] a n c(2) ne show ?thesis
    by (auto simp: linked_def conn_of_def ended_heaps)
qed

lemma consistent_ended:
  assumes con: "consistent w l" and at: "attached w l p fd"
  shows "consistent (ended q l p fd w) l" "watched_fds (ended q l p fd w) l = watched_fds w l - {fd}"
    "wake_fd (ended q l p fd w) l = wake_fd w l" "pending_fds (ended q l p fd w) l = {}"
proof -
  obtain lp wch where c: "heap_bounded w" "x_loops w l = Some lp" "m_threadID lp = x_self w"
    "x_open w (epfd (m_dispatcher lp))" "\<And>fd x. m_channelMap lp fd = Some x \<Longrightarrow> entry_live w fd x"
    "m_channelMap lp (wake_fd w l) = Some (Some wch)" "x_channels w wch = Some (wake_channel (wake_fd w l) l)"
    "0 \<le> wake_fd w l" "\<And>fd. fd \<in> watched_fds w l \<Longrightarrow> fd \<noteq> wake_fd w l \<Longrightarrow> \<exists>p. linked w l p fd"
    by (rule consistentE [OF con]) blast
  from at c(2) obtain conn where a: "x_conns w p = Some conn" "m_taskQ lp = []"
    "x_channels w (m_channel conn) = Some (conn_channel_of fd p)" "m_channelMap lp fd = Some (Some (m_channel conn))"
    "fd \<noteq> epfd (m_dispatcher lp)" unfolding attached_def by auto
  let ?v = "ended q l p fd w"
  obtain lp' where l': "x_loops ?v l = Some lp'" "m_taskQ lp' = m_taskQ lp" "m_threadID lp' = m_threadID lp"
    "m_socketPair lp' = m_socketPair lp" "epfd (m_dispatcher lp') = epfd (m_dispatcher lp)"
    "ep_set (m_dispatcher lp') = (ep_set (m_dispatcher lp))(fd := None)"
    "\<And>fd'. fd' \<noteq> fd \<Longrightarrow> m_channelMap lp' fd' = m_channelMap lp fd'"
    "m_channelMap lp' fd \<noteq> None \<Longrightarrow> x_open ?v fd = x_open w fd \<and> m_channelMap lp' fd = m_channelMap lp fd \<and> x_channels ?v = x_channels w"
    using ended_loop [OF c(2), of q p fd] by blast
  show wk: "wake_fd ?v l = wake_fd w l" using l'(1,4) c(2) by (simp add: wake_fd_def)
  show wt: "watched_fds ?v l = watched_fds w l - {fd}" using l'(1,6) c(2) by (auto simp: watched_fds_def)
  show "pending_fds ?v l = {}" using l'(1,2) a(2) by (simp add: pending_fds_def task_fds_def)
  have n: "wch \<noteq> m_channel conn" "fd \<noteq> wake_fd w l" using a(3,4) c(6,7) by auto
  have wch: "x_channels ?v wch = x_channels w wch" by (rule ended_heaps(6)) (simp add: a(1) n(1))
  show "consistent ?v l"
  proof (rule consistentI [OF _ l'(1)])
    show "heap_bounded ?v" using c(1) by (auto simp: heap_bounded_def ended_heaps ended_removes)
    show "entry_live ?v fd' x" if x: "m_channelMap lp' fd' = Some x" for fd' x
    proof (cases "fd' = fd")
      case True
      with x l'(8) c(5) [of fd x] show ?thesis by (simp add: entry_live_def)
    next
      case False
      with x l'(7) have "entry_live w fd' x" by (intro c(5)) simp
      moreover have "x_channels ?v ch = x_channels w ch" if "x_channels w ch = Some k" "c_fd k = fd'" for ch k
        by (rule ended_heaps(6)) (use that a(1,3) False in auto)
      ultimately show ?thesis using False by (auto simp: entry_live_def ended_heaps(3))
    qed
    show "\<exists>p. linked ?v l p fd'" if "fd' \<in> watched_fds ?v l" "fd' \<noteq> wake_fd ?v l" for fd'
      using that c(9) [of fd'] ended_other [OF at] unfolding wt wk by blast
  qed (use c a l' n wk wch in \<open>simp_all add: ended_heaps(1-3) task_fds_def\<close>)
qed

section \<open>What the other threads do\<close>

text \<open>
  The main thread accepts a client with descriptor \<open>fd\<close>, which is not in use, and it is the turn of
  the worker with loop \<open>l\<close>.
\<close>

definition main_accepts :: "nat \<Rightarrow> int \<Rightarrow> cpp_world \<Rightarrow> cpp_world \<Rightarrow> bool" where
  "main_accepts l fd w w' \<longleftrightarrow> (\<exists>s tid server pool w1. map_option m_threadID (x_loops w l) \<noteq> Some tid \<and> x_accept (the_io w) = fd \<and> 0 \<le> fd \<and> \<not> x_open w fd \<and>
     x_servers w s = Some server \<and> cpp_takeWorkerEventLoop (s_pool server) (w\<lparr>x_self := tid\<rparr>) = Inr (l, pool) \<and>
     cpp_call Accept s (w\<lparr>x_self := tid\<rparr>) = Some (Inr w1) \<and> w' = w1\<lparr>x_self := x_self w\<rparr>)"

text \<open>
  Any step of another thread that leaves the loop and the objects it knows alone: another worker's,
  or the accepting of a client for another worker (\<open>accepts_elsewhere\<close>).
\<close>

definition knows :: "cpp_loop \<Rightarrow> nat \<Rightarrow> bool" where
  "knows lp ch \<longleftrightarrow> (\<exists>fd. m_channelMap lp fd = Some (Some ch)) \<or> ch \<in> snd ` set (m_taskQ lp)"

definition untouched :: "nat \<Rightarrow> cpp_world \<Rightarrow> cpp_world \<Rightarrow> bool" where
  "untouched l w w' \<longleftrightarrow> x_loops w' l = x_loops w l \<and> x_self w' = x_self w \<and> heap_bounded w' \<and>
     (\<forall>lp. x_loops w l = Some lp \<longrightarrow> x_open w' (epfd (m_dispatcher lp)) = x_open w (epfd (m_dispatcher lp)) \<and>
       (\<forall>fd. m_channelMap lp fd \<noteq> None \<longrightarrow> x_open w' fd = x_open w fd) \<and>
       (\<forall>ch. knows lp ch \<longrightarrow> x_channels w' ch = x_channels w ch \<and>
         (\<forall>fd p. x_channels w ch = Some (conn_channel_of fd p) \<longrightarrow>
            x_open w' fd = x_open w fd \<and>
            (x_parts w p \<noteq> None \<longrightarrow> x_conns w' p = x_conns w p \<and> x_parts w' p = x_parts w p))))"

lemma main_accepts_world:
  assumes acc: "main_accepts l fd w w'" and lp: "x_loops w l = Some lp"
  obtains srv parts where "w' = w\<lparr>x_open := (x_open w)(fd := True), x_servers := srv,
       x_next := Suc (Suc (x_next w)),
       x_conns := (x_conns w)(x_next w \<mapsto> \<lparr>m_name = ''Connection-'' @ dec_int fd, m_evLoop = l, m_channel = Suc (x_next w)\<rparr>),
       x_parts := (x_parts w)(x_next w \<mapsto> parts),
       x_channels := (x_channels w)(Suc (x_next w) \<mapsto> conn_channel_of fd (x_next w)),
       x_loops := (x_loops w)(l \<mapsto> lp\<lparr>m_taskQ := m_taskQ lp @ [(ADD, Suc (x_next w))]\<rparr>),
       x_inbox := (x_inbox w)(snd (m_socketPair lp) := x_inbox w (snd (m_socketPair lp)) @ wake_msg),
       x_tick := Suc (x_tick w)\<rparr>"
    "\<not> x_open w fd" "0 \<le> fd"
proof -
  from acc obtain s tid server pool w1 where a: "m_threadID lp \<noteq> tid" "x_accept (the_io w) = fd" "0 \<le> fd" "\<not> x_open w fd"
    "x_servers w s = Some server" "cpp_takeWorkerEventLoop (s_pool server) (w\<lparr>x_self := tid\<rparr>) = Inr (l, pool)"
    "cpp_call Accept s (w\<lparr>x_self := tid\<rparr>) = Some (Inr w1)" "w' = w1\<lparr>x_self := x_self w\<rparr>"
    unfolding main_accepts_def using lp by auto
  have io: "the_io (w\<lparr>x_self := tid\<rparr>) = the_io w" by (simp add: the_io_def)
  have t: "cpp_takeWorkerEventLoop (s_pool server) (w\<lparr>x_self := tid, x_open := (x_open w)(fd := True)\<rparr>) = Inr (l, pool)"
  proof -
    have "cpp_takeWorkerEventLoop pl (v\<lparr>x_open := f\<rparr>) = cpp_takeWorkerEventLoop pl v" for pl v f
      by (simp add: cpp_takeWorkerEventLoop_def)
    with a(6) show ?thesis by metis
  qed
  show ?thesis
  proof (cases "newBuffer (e_mem (x_env w) 10240) 10240")
    case (Inl e)
    then show ?thesis using a(2,3,5,7) t by (simp add: cpp_call_def cpp_acceptConnection_def newTcpConnection_def io)
  next
    case (Inr rb)
    show ?thesis
      by (rule that [OF _ a(4,3), where srv = "(x_servers w)(s \<mapsto> server\<lparr>s_pool := pool\<rparr>)" and
            parts = "\<lparr>m_readBuf = rb, m_writeBuf = rb, m_request = resetRequest, m_response = newResponse\<rparr>"])
        (use a Inr t lp in \<open>auto simp: cpp_call_def cpp_acceptConnection_def newTcpConnection_def io
          cpp_addTask_def cpp_taskWakeup_def set_loop_def Let_def conn_channel_of_def\<close>)
  qed
qed

lemma linked_known: "x_loops w l = Some lp \<Longrightarrow> linked w l p fd \<Longrightarrow> \<exists>ch. conn_of w l p fd ch \<and> knows lp ch"
  by (auto simp: linked_def knows_def)

lemma consistent_accepts:
  assumes con: "consistent w l" and acc: "main_accepts l fd w w'"
  shows "consistent w' l" "watched_fds w' l = watched_fds w l" "pending_fds w' l = insert fd (pending_fds w l)"
    "wake_fd w' l = wake_fd w l"
proof -
  obtain lp wch where c: "heap_bounded w" "x_loops w l = Some lp" "m_threadID lp = x_self w"
    "x_open w (epfd (m_dispatcher lp))" "\<And>fd x. m_channelMap lp fd = Some x \<Longrightarrow> entry_live w fd x"
    "m_channelMap lp (wake_fd w l) = Some (Some wch)" "x_channels w wch = Some (wake_channel (wake_fd w l) l)"
    "0 \<le> wake_fd w l" "\<And>fd. fd \<in> watched_fds w l \<Longrightarrow> fd \<noteq> wake_fd w l \<Longrightarrow> \<exists>p. linked w l p fd"
    "\<And>ty ch. (ty, ch) \<in> set (m_taskQ lp) \<Longrightarrow> ty = ADD \<and> (\<exists>p fd. pending w l p fd ch)"
    "distinct (map snd (task_fds (x_channels w) (m_taskQ lp)))"
    by (rule consistentE [OF con]) blast
  let ?p = "x_next w" and ?lp = "lp\<lparr>m_taskQ := m_taskQ lp @ [(ADD, Suc (x_next w))]\<rparr>"
  obtain srv parts where w': "w' = w\<lparr>x_open := (x_open w)(fd := True), x_servers := srv,
       x_next := Suc (Suc ?p),
       x_conns := (x_conns w)(?p \<mapsto> \<lparr>m_name = ''Connection-'' @ dec_int fd, m_evLoop = l, m_channel = Suc ?p\<rparr>),
       x_parts := (x_parts w)(?p \<mapsto> parts), x_channels := (x_channels w)(Suc ?p \<mapsto> conn_channel_of fd ?p),
       x_loops := (x_loops w)(l \<mapsto> ?lp),
       x_inbox := (x_inbox w)(snd (m_socketPair lp) := x_inbox w (snd (m_socketPair lp)) @ wake_msg),
       x_tick := Suc (x_tick w)\<rparr>" and fd: "\<not> x_open w fd" "0 \<le> fd"
    by (rule main_accepts_world [OF acc c(2)]) blast
  have lp: "x_loops w' l = Some ?lp" by (simp add: w')
  have b: "x_conns w a = None" "x_channels w a = None" if "a = ?p \<or> a = Suc ?p" for a
    using that c(1) by (auto simp: heap_bounded_def)
  have cn: "conn_of w' l p fd' ch" if "conn_of w l p fd' ch" for p fd' ch
    using that b by (auto simp: conn_of_def w')
  show wt: "watched_fds w' l = watched_fds w l" and wk: "wake_fd w' l = wake_fd w l"
    using lp c(2) by (simp_all add: watched_fds_def wake_fd_def)
  have ch: "x_channels w' ch = x_channels w ch" if "(ty, ch) \<in> set (m_taskQ lp)" for ty ch
    using c(10) [OF that] b by (auto simp: pending_def conn_of_def w')
  have q: "task_fds (x_channels w') (m_taskQ lp) = task_fds (x_channels w) (m_taskQ lp)"
    using ch by (force simp: task_fds_def)
  have q': "task_fds (x_channels w') (m_taskQ ?lp) = task_fds (x_channels w) (m_taskQ lp) @ [(Suc ?p, fd)]"
    using q by (simp add: task_fds_def w')
  show "pending_fds w' l = insert fd (pending_fds w l)"
    unfolding pending_fds_def lp c(2) option.sel q' by auto
  have used: "x_open w fd'" if "(ch, fd') \<in> set (task_fds (x_channels w) (m_taskQ lp))" for ch fd'
    using that c(10) by (force simp: task_fds_def pending_def conn_of_def)
  have free: "m_channelMap lp fd = None" "fd \<noteq> epfd (m_dispatcher lp)" using c(4) c(5) [of fd] fd(1) by (cases "m_channelMap lp fd", auto simp: entry_live_def)
  have unw: "ep_set (m_dispatcher lp) fd = None"
  proof (rule ccontr)
    assume "ep_set (m_dispatcher lp) fd \<noteq> None"
    then have "fd \<in> watched_fds w l" using c(2) by (simp add: watched_fds_def)
    then show False
    proof (cases "fd = wake_fd w l")
      case True
      then show ?thesis using c(5) [OF c(6)] fd(1) by (simp add: entry_live_def)
    next
      case False
      with \<open>fd \<in> watched_fds w l\<close> c(9) obtain p where "linked w l p fd" by blast
      with linked_open(1) fd(1) show ?thesis by blast
    qed
  qed
  show "consistent w' l"
  proof (rule consistentI [OF _ lp])
    show "heap_bounded w'" using c(1) by (auto simp: heap_bounded_def w')
    show "\<exists>p. linked w' l p fd'" if fd': "fd' \<in> watched_fds w' l" "fd' \<noteq> wake_fd w' l" for fd'
    proof -
      obtain p where "linked w l p fd'" using fd' c(9) unfolding wt wk by blast
      then have "linked w' l p fd'" using cn lp c(2) by (auto simp: linked_def)
      then show ?thesis ..
    qed
    show "ty = ADD \<and> (\<exists>p fd. pending w' l p fd ch)" if t: "(ty, ch) \<in> set (m_taskQ ?lp)" for ty ch
    proof (cases "(ty, ch) \<in> set (m_taskQ lp)")
      case True
      from c(10) [OF this] show ?thesis using cn lp c(2) by (fastforce simp: pending_def)
    next
      case False
      with t have "ty = ADD" "ch = Suc ?p" by auto
      moreover have "pending w' l ?p fd (Suc ?p)"
        using free unw fd(2) lp by (simp add: pending_def conn_of_def w')
      ultimately show ?thesis by blast
    qed
    have "fd \<notin> snd ` set (task_fds (x_channels w) (m_taskQ lp))" using used fd(1) by auto
    then show "distinct (map snd (task_fds (x_channels w') (m_taskQ ?lp)))" unfolding q' using c(11) by simp
    show "x_channels w' wch = Some (wake_channel (wake_fd w' l) l)" using c(7) b unfolding wk by (auto simp: w')
    show "entry_live w' fd' x" if "m_channelMap ?lp fd' = Some x" for fd' x
    proof -
      have "entry_live w fd' x" using c(5) that by simp
      moreover from this obtain ch where "x = Some ch" "x_channels w ch \<noteq> None" by (auto simp: entry_live_def)
      moreover from this(2) b have "ch \<noteq> Suc ?p" by auto
      ultimately show ?thesis by (simp add: entry_live_def w')
    qed
  qed (use c wk in \<open>simp_all add: w'\<close>)
qed

text \<open>Accepting a client for another worker is such a step.\<close>

lemma accepts_elsewhere:
  assumes con: "consistent w l" and acc: "main_accepts l' fd w w'" and l': "x_loops w l' = Some lp'" "l' \<noteq> l"
  shows "untouched l w w'"
proof -
  obtain lp where c: "heap_bounded w" "x_loops w l = Some lp" "x_open w (epfd (m_dispatcher lp))"
    "\<And>fd x. m_channelMap lp fd = Some x \<Longrightarrow> entry_live w fd x"
    "\<And>ty ch. (ty, ch) \<in> set (m_taskQ lp) \<Longrightarrow> ty = ADD \<and> (\<exists>p fd. pending w l p fd ch)"
    by (rule consistentE [OF con]) blast
  let ?p = "x_next w"
  obtain srv parts where w': "w' = w\<lparr>x_open := (x_open w)(fd := True), x_servers := srv,
       x_next := Suc (Suc ?p),
       x_conns := (x_conns w)(?p \<mapsto> \<lparr>m_name = ''Connection-'' @ dec_int fd, m_evLoop = l', m_channel = Suc ?p\<rparr>),
       x_parts := (x_parts w)(?p \<mapsto> parts), x_channels := (x_channels w)(Suc ?p \<mapsto> conn_channel_of fd ?p),
       x_loops := (x_loops w)(l' \<mapsto> lp'\<lparr>m_taskQ := m_taskQ lp' @ [(ADD, Suc ?p)]\<rparr>),
       x_inbox := (x_inbox w)(snd (m_socketPair lp') := x_inbox w (snd (m_socketPair lp')) @ wake_msg),
       x_tick := Suc (x_tick w)\<rparr>" and fd: "\<not> x_open w fd" "0 \<le> fd"
    by (rule main_accepts_world [OF acc l'(1)]) blast
  have b: "x_parts w ?p = None" "x_channels w (Suc ?p) = None" using c(1) by (auto simp: heap_bounded_def)
  have known: "x_channels w ch \<noteq> None \<and> (\<forall>fd' p. x_channels w ch = Some (conn_channel_of fd' p) \<longrightarrow> x_open w fd')"
    if ch: "knows lp ch" for ch
  proof (cases "ch \<in> snd ` set (m_taskQ lp)")
    case True
    then obtain ty where "(ty, ch) \<in> set (m_taskQ lp)" by auto
    from c(5) [OF this] show ?thesis by (auto simp: pending_def conn_of_def conn_channel_inj)
  next
    case False
    with ch obtain fd where "m_channelMap lp fd = Some (Some ch)" by (auto simp: knows_def)
    from c(4) [OF this] show ?thesis by (auto simp: entry_live_def conn_channel_of_simps)
  qed
  have "x_open w' fd' = x_open w fd'" if "x_open w fd'" for fd' using that fd(1) by (simp add: w')
  moreover have "x_channels w' ch = x_channels w ch" if "x_channels w ch \<noteq> None" for ch using that b by (auto simp: w')
  moreover have "x_conns w' p = x_conns w p \<and> x_parts w' p = x_parts w p" if "x_parts w p \<noteq> None" for p
    using that b by (auto simp: w')
  moreover have "x_loops w' l = x_loops w l" "x_self w' = x_self w" using l'(2) by (simp_all add: w')
  moreover have "heap_bounded w'" using c(1) by (auto simp: heap_bounded_def w')
  moreover have "x_open w fd'" if "m_channelMap lp fd' \<noteq> None" for fd' using that c(4) entry_live_open by blast
  ultimately show ?thesis using c(2,3) known unfolding untouched_def by simp
qed

lemma untouched_knows:
  assumes u: "untouched l w w'" and lp: "x_loops w l = Some lp"
  shows "conn_of w l p fd ch \<Longrightarrow> knows lp ch \<Longrightarrow> conn_of w' l p fd ch"
    "linked w l p fd \<Longrightarrow> linked w' l p fd" "ch \<in> snd ` set (m_taskQ lp) \<Longrightarrow> pending w l p fd ch \<Longrightarrow> pending w' l p fd ch"
proof -
  have l: "x_loops w' l = Some lp" using u lp by (simp add: untouched_def)
  have c: "conn_of w' l p fd ch" if "conn_of w l p fd ch" "knows lp ch" for p fd ch
    using that u lp by (auto simp: untouched_def conn_of_def)
  then show "conn_of w l p fd ch \<Longrightarrow> knows lp ch \<Longrightarrow> conn_of w' l p fd ch" .
  show "linked w l p fd \<Longrightarrow> linked w' l p fd" using c lp l by (fastforce simp: linked_def knows_def)
  show "ch \<in> snd ` set (m_taskQ lp) \<Longrightarrow> pending w l p fd ch \<Longrightarrow> pending w' l p fd ch"
    using c [of p fd ch] lp l by (auto simp: pending_def knows_def)
qed

lemma consistent_untouched:
  assumes con: "consistent w l" and u: "untouched l w w'"
  shows "consistent w' l" "watched_fds w' l = watched_fds w l" "pending_fds w' l = pending_fds w l"
    "wake_fd w' l = wake_fd w l"
proof -
  obtain lp wch where c: "heap_bounded w" "x_loops w l = Some lp" "m_threadID lp = x_self w"
    "x_open w (epfd (m_dispatcher lp))" "\<And>fd x. m_channelMap lp fd = Some x \<Longrightarrow> entry_live w fd x"
    "m_channelMap lp (wake_fd w l) = Some (Some wch)" "x_channels w wch = Some (wake_channel (wake_fd w l) l)"
    "0 \<le> wake_fd w l" "\<And>fd. fd \<in> watched_fds w l \<Longrightarrow> fd \<noteq> wake_fd w l \<Longrightarrow> \<exists>p. linked w l p fd"
    "\<And>ty ch. (ty, ch) \<in> set (m_taskQ lp) \<Longrightarrow> ty = ADD \<and> (\<exists>p fd. pending w l p fd ch)"
    "distinct (map snd (task_fds (x_channels w) (m_taskQ lp)))"
    by (rule consistentE [OF con]) blast
  note k = untouched_knows [OF u c(2)]
  have lp: "x_loops w' l = Some lp" using u c(2) by (simp add: untouched_def)
  have ch: "x_channels w' ch = x_channels w ch" if "knows lp ch" for ch
    using u c(2) that by (simp add: untouched_def)
  have q: "task_fds (x_channels w') (m_taskQ lp) = task_fds (x_channels w) (m_taskQ lp)"
    using ch by (force simp: task_fds_def knows_def)
  show wt: "watched_fds w' l = watched_fds w l" and wk: "wake_fd w' l = wake_fd w l" and "pending_fds w' l = pending_fds w l"
    using lp c(2) q by (simp_all add: watched_fds_def wake_fd_def pending_fds_def)
  show "consistent w' l"
  proof (rule consistentI [OF _ lp])
    show "ty = ADD \<and> (\<exists>p fd. pending w' l p fd ch)" if t: "(ty, ch) \<in> set (m_taskQ lp)" for ty ch
      using c(10) [OF t] k(3) t by force
    show "\<exists>p. linked w' l p fd" if "fd \<in> watched_fds w' l" "fd \<noteq> wake_fd w' l" for fd
      using that c(9) k(2) unfolding wt wk by blast
    show "x_channels w' wch = Some (wake_channel (wake_fd w' l) l)"
      using ch [of wch] c(6,7) unfolding wk by (auto simp: knows_def)
    show "entry_live w' fd x" if x: "m_channelMap lp fd = Some x" for fd x
    proof -
      obtain ch k where e: "x = Some ch" "x_channels w ch = Some k" "c_fd k = fd" "x_open w fd"
        using c(5) [OF x] by (auto simp: entry_live_def)
      then have "x_channels w' ch = Some k" using ch [of ch] x by (auto simp: knows_def)
      moreover have "x_open w' fd" using u c(2) x e(4) by (simp add: untouched_def)
      ultimately show ?thesis using e by (simp add: entry_live_def)
    qed
  qed (use u c wk q in \<open>simp_all add: untouched_def\<close>)
qed

section \<open>The steps of a loop\<close>

text \<open>
  What \<^verbatim>\<open>epoll_wait\<close> can report: a watched descriptor with no event that was not asked for
  except errors and hang-ups, the wake-up socket only when something is in it; a report has each
  descriptor once.
\<close>

definition legal_event :: "cpp_world \<Rightarrow> nat \<Rightarrow> 32 word \<times> int \<Rightarrow> bool" where
  "legal_event w l e \<longleftrightarrow> snd e \<in> watched_fds w l \<and> \<not> has_event (fst e) EPOLLOUT \<and>
     (snd e = wake_fd w l \<longrightarrow> x_inbox w (snd e) \<noteq> [])"

definition legal_report :: "cpp_world \<Rightarrow> nat \<Rightarrow> (32 word \<times> int) list \<Rightarrow> bool" where
  "legal_report w l evs \<longleftrightarrow> distinct (map snd evs) \<and> length evs \<le> 520 \<and> (\<forall>e \<in> set evs. legal_event w l e)"

definition readable_event :: "32 word \<Rightarrow> bool" where
  "readable_event ev \<longleftrightarrow> has_event ev EPOLLIN \<and> \<not> has_event ev EPOLLERR \<and> \<not> has_event ev EPOLLHUP"

definition readable_fds :: "(32 word \<times> int) list \<Rightarrow> int set" where
  "readable_fds evs = {fd. \<exists>ev. (ev, fd) \<in> set evs \<and> readable_event ev}"

text \<open>What a connection has become when an event of its descriptor has been dealt with.\<close>

definition read_out :: "conn_parts \<Rightarrow> nat \<Rightarrow> nat \<Rightarrow> int \<Rightarrow> string \<Rightarrow> cpp_world \<Rightarrow> cpp_world" where
  "read_out q l p fd out w = ticked_once (ended q l p fd (with_parts p q fd out (taken_in l w)))"

definition awoken :: "nat \<Rightarrow> cpp_world \<Rightarrow> cpp_world" where
  "awoken l w = ticked_once (w\<lparr>x_inbox := (x_inbox w)(wake_fd w l := drop 256 (x_inbox w (wake_fd w l)))\<rparr>)"

lemma consistent_frame:
  assumes "x_loops w' = x_loops w" "x_channels w' = x_channels w" "x_conns w' = x_conns w" "x_parts w' = x_parts w"
    "x_open w' = x_open w" "x_self w' = x_self w" "x_next w' = x_next w"
  shows "consistent w' l = consistent w l" "watched_fds w' l = watched_fds w l" "pending_fds w' l = pending_fds w l"
    "wake_fd w' l = wake_fd w l" "linked w' l p fd = linked w l p fd" "attached w' l p fd = attached w l p fd"
  using assms
  by (simp_all add: consistent_def heap_bounded_def watched_fds_def pending_fds_def wake_fd_def linked_def pending_def
      conn_of_def attached_def entry_live_def)

lemma ticked_frame [simp]:
  "x_loops (ticked_once w) = x_loops w" "x_channels (ticked_once w) = x_channels w" "x_conns (ticked_once w) = x_conns w"
  "x_parts (ticked_once w) = x_parts w" "x_open (ticked_once w) = x_open w" "x_self (ticked_once w) = x_self w"
  "x_next (ticked_once w) = x_next w" "x_inbox (ticked_once w) = x_inbox w" "x_sent (ticked_once w) = x_sent w"
  by (simp_all add: ticked_once_def)

lemma awoken_frame [simp]:
  "x_loops (awoken l w) = x_loops w" "x_channels (awoken l w) = x_channels w" "x_conns (awoken l w) = x_conns w"
  "x_parts (awoken l w) = x_parts w" "x_open (awoken l w) = x_open w" "x_self (awoken l w) = x_self w"
  "x_next (awoken l w) = x_next w"
  by (simp_all add: awoken_def)

lemma attached_conn: "attached w l p fd \<Longrightarrow> x_conns w p \<noteq> None"
  by (auto simp: attached_def)

lemma attached_watched: "attached w l p fd \<Longrightarrow> fd \<in> watched_fds w l"
  by (auto simp: attached_def watched_fds_def)

lemma with_parts_pending [simp]: "pending_fds (with_parts p q fd out w) l = pending_fds w l"
  by (simp add: pending_fds_def)

lemma ended_with_parts_inbox: "x_inbox (ended q l p fd (with_parts p q fd out w)) = x_inbox w"
  by (simp add: ended_def released_world_def leaked_world_def set_loop_def cpp_close_def with_parts_def Let_def)

lemma consistent_read_out:
  assumes con: "consistent w l" and at: "linked w l p fd"
  shows "consistent (read_out q l p fd out w) l"
    "watched_fds (read_out q l p fd out w) l = watched_fds w l \<union> pending_fds w l - {fd}"
    "wake_fd (read_out q l p fd out w) l = wake_fd w l" "pending_fds (read_out q l p fd out w) l = {}"
    "x_inbox (read_out q l p fd out w) = x_inbox w"
proof -
  let ?v = "taken_in l w" and ?u = "with_parts p q fd out (taken_in l w)"
  note at' = attached_taken_in [OF con at]
  note c = consistent_taken_in [OF con]
  have u: "consistent ?u l" "attached ?u l p fd"
    using consistent_with_parts [OF c(1) attached_conn [OF at']] at' by auto
  note e = consistent_ended [OF u, of q]
  note f = consistent_frame [of "read_out q l p fd out w" "ended q l p fd ?u" l, unfolded read_out_def, simplified]
  from con obtain lp where lp: "x_loops w l = Some lp" by (rule consistentE)
  show "consistent (read_out q l p fd out w) l"
    "watched_fds (read_out q l p fd out w) l = watched_fds w l \<union> pending_fds w l - {fd}"
    "wake_fd (read_out q l p fd out w) l = wake_fd w l" "pending_fds (read_out q l p fd out w) l = {}"
    using e f c(2) taken_in_loop(3) [OF lp] by (simp_all add: read_out_def)
  show "x_inbox (read_out q l p fd out w) = x_inbox w" by (simp add: read_out_def ended_with_parts_inbox)
qed

lemma wake_not_linked: "consistent w l \<Longrightarrow> \<not> linked w l p (wake_fd w l)"
  by (rule consistentE) (auto simp: linked_def conn_of_def)

text \<open>One event.\<close>

lemma event_steps:
  assumes con: "consistent w l" and e: "legal_event w l (ev, fd)"
    and r: "cpp_dispatch_loop cpp_call l [(ev, fd)] w = Some (Inr w')"
  shows "if readable_event ev then
      (if fd = wake_fd w l then w' = awoken l w else \<exists>p q out. linked w l p fd \<and> w' = read_out q l p fd out w)
    else w' = w"
proof (cases "readable_event ev")
  case False
  then show ?thesis using r e by (auto simp: readable_event_def legal_event_def split: if_splits)
next
  case True
  have call: "cpp_eventActive cpp_call l fd ReadEvent w = Some (Inr w')"
    using r e True by (simp add: readable_event_def legal_event_def)
  obtain lp wch where c: "x_loops w l = Some lp" "m_channelMap lp (wake_fd w l) = Some (Some wch)"
    "x_channels w wch = Some (wake_channel (wake_fd w l) l)" "0 \<le> wake_fd w l"
    "\<And>fd. fd \<in> watched_fds w l \<Longrightarrow> fd \<noteq> wake_fd w l \<Longrightarrow> \<exists>p. linked w l p fd" by (rule consistentE [OF con]) blast
  show ?thesis
  proof (cases "fd = wake_fd w l")
    case wake: True
    have i: "x_inbox w (wake_fd w l) \<noteq> []" using e wake by (simp add: legal_event_def)
    have s: "snd (m_socketPair lp) = wake_fd w l" using c(1) by (simp add: wake_fd_def)
    have "cpp_eventActive cpp_call l (wake_fd w l) ReadEvent w = Some (Inr (awoken l w))"
      using c i by (simp add: cpp_eventActive_def wake_channel_def newChannel_def cpp_call_def cpp_readMessage_def s awoken_def
          ticked_once_def Let_def)
    with call wake True show ?thesis by simp
  next
    case conn: False
    from e conn c(5) obtain p where p: "linked w l p fd" by (auto simp: legal_event_def)
    then obtain ch where ch: "conn_of w l p fd ch" "m_channelMap lp fd = Some (Some ch)" using c(1) by (auto simp: linked_def)
    have "cpp_eventActive cpp_call l fd ReadEvent w = map_run ticked_once (cpp_processRead p w)"
      using c(1) ch
      by (simp add: conn_of_def cpp_eventActive_def cpp_call_def map_run_def bindO_assoc ticked_once_def)
    with call obtain w0 where w0: "cpp_processRead p w = Some (Inr w0)" "w' = ticked_once w0"
      by (auto simp: map_run_def res_simps)
    from w0(1) have "cpp_processRead p (taken_in l w) = Some (Inr w0)" by (simp add: processRead_taken_in [OF con p])
    then obtain q out where "w0 = ended q l p fd (with_parts p q fd out (taken_in l w))"
      by (rule processRead_ends [OF attached_taken_in [OF con p]])
    with w0(2) p conn True show ?thesis by (auto simp: read_out_def)
  qed
qed

text \<open>
  The states the process comes to, seen from the thread of loop \<open>l\<close>: one event of a report, the task queue
  at the end of a round, a client accepted for this loop in between, any step of the other threads
  elsewhere.
\<close>

inductive cpp_reaches :: "nat \<Rightarrow> cpp_world \<Rightarrow> cpp_world \<Rightarrow> bool" for l where
  reaches_refl: "cpp_reaches l w w"
| reaches_event: "cpp_reaches l w w1 \<Longrightarrow> legal_event w1 l e \<Longrightarrow>
    cpp_dispatch_loop cpp_call l [e] w1 = Some (Inr w2) \<Longrightarrow> cpp_reaches l w w2"
| reaches_tasks: "cpp_reaches l w w1 \<Longrightarrow> cpp_processTaskQ l w1 = Some (Inr w2) \<Longrightarrow> cpp_reaches l w w2"
| reaches_accept: "cpp_reaches l w w1 \<Longrightarrow> main_accepts l fd w1 w2 \<Longrightarrow> cpp_reaches l w w2"
| reaches_others: "cpp_reaches l w w1 \<Longrightarrow> untouched l w1 w2 \<Longrightarrow> cpp_reaches l w w2"

text \<open>What each of these steps keeps, a run keeps.\<close>

lemma reaches_keeps:
  assumes "cpp_reaches l w w'" and "consistent w l" and "P w"
    and taken: "\<And>w. consistent w l \<Longrightarrow> P w \<Longrightarrow> P (taken_in l w)"
    and read: "\<And>w p fd q out. consistent w l \<Longrightarrow> linked w l p fd \<Longrightarrow> P w \<Longrightarrow> P (read_out q l p fd out w)"
    and wake: "\<And>w. consistent w l \<Longrightarrow> P w \<Longrightarrow> P (awoken l w)"
    and acc: "\<And>w w' fd. consistent w l \<Longrightarrow> main_accepts l fd w w' \<Longrightarrow> P w \<Longrightarrow> P w'"
    and oth: "\<And>w w'. consistent w l \<Longrightarrow> untouched l w w' \<Longrightarrow> P w \<Longrightarrow> P w'"
  shows "consistent w' l \<and> P w'"
  using assms(1-3)
proof (induction rule: cpp_reaches.induct)
  case (reaches_event w w1 e w2)
  then have c: "consistent w1 l" "P w1" by simp_all
  obtain ev fd where e: "e = (ev, fd)" by fastforce
  note es = event_steps [OF c(1) reaches_event.hyps(2,3) [unfolded e]]
  consider "w2 = awoken l w1" | p q out where "linked w1 l p fd" "w2 = read_out q l p fd out w1" | "w2 = w1"
    using es by (cases "readable_event ev"; cases "fd = wake_fd w1 l") auto
  then show ?case
  proof cases
    case 1
    with c wake [OF c] show ?thesis by (simp add: consistent_frame(1) [of "awoken l w1" w1])
  next
    case 2
    with read [OF c(1) 2(1) c(2)] consistent_read_out(1) [OF c(1) 2(1)] show ?thesis by simp
  next
    case 3
    with c show ?thesis by simp
  qed
next
  case (reaches_tasks w w1 w2)
  then have c: "consistent w1 l" "P w1" by simp_all
  then have "w2 = taken_in l w1" using processTaskQ_consistent [OF c(1)] reaches_tasks.hyps(2) by simp
  with c taken consistent_taken_in(1) show ?case by auto
next
  case (reaches_accept w w1 fd w2)
  with acc consistent_accepts(1) show ?case by blast
next
  case (reaches_others w w1 w2)
  with oth consistent_untouched(1) show ?case by blast
qed simp

lemma reaches_consistent: "cpp_reaches l w w' \<Longrightarrow> consistent w l \<Longrightarrow> consistent w' l"
  using reaches_keeps [of l w w' "\<lambda>_. True"] by simp

section \<open>A round\<close>

lemma dispatch_Cons:
  "cpp_dispatch_loop cpp_call l (e # es) w = bindO (cpp_dispatch_loop cpp_call l [e] w) (cpp_dispatch_loop cpp_call l es)"
  by (cases e) (simp add: bindO_assoc)

lemma reaches_trans: "cpp_reaches l w1 w2 \<Longrightarrow> cpp_reaches l w w1 \<Longrightarrow> cpp_reaches l w w2"
  by (induction rule: cpp_reaches.induct) (blast intro: cpp_reaches.intros)+

lemma event_fds:
  assumes con: "consistent w l" and e: "legal_event w l (ev, fd)"
    and r: "cpp_dispatch_loop cpp_call l [(ev, fd)] w = Some (Inr w')"
  shows "consistent w' l" "wake_fd w' l = wake_fd w l"
    "watched_fds w' l \<union> pending_fds w' l = (watched_fds w l \<union> pending_fds w l) - (readable_fds [(ev, fd)] - {wake_fd w l})"
    "\<And>e'. legal_event w l e' \<Longrightarrow> snd e' \<noteq> fd \<Longrightarrow> legal_event w' l e'"
proof -
  have rd: "readable_fds [(ev, fd)] = (if readable_event ev then {fd} else {})" by (auto simp: readable_fds_def)
  show "consistent w' l"
    using reaches_consistent [OF cpp_reaches.reaches_event [OF cpp_reaches.reaches_refl e r] con] .
  from event_steps [OF con e r]
  consider (same) "w' = w" "\<not> readable_event ev" | (wake) "w' = awoken l w" "fd = wake_fd w l" "readable_event ev"
    | (read) p q out where "linked w l p fd" "w' = read_out q l p fd out w" "readable_event ev" "fd \<noteq> wake_fd w l"
    by (auto split: if_splits)
  then have "wake_fd w' l = wake_fd w l \<and>
      watched_fds w' l \<union> pending_fds w' l = (watched_fds w l \<union> pending_fds w l) - (readable_fds [(ev, fd)] - {wake_fd w l}) \<and>
      (\<forall>e'. legal_event w l e' \<longrightarrow> snd e' \<noteq> fd \<longrightarrow> legal_event w' l e')"
  proof cases
    case same
    then show ?thesis by (simp add: rd)
  next
    case wake
    note f = consistent_frame [of "awoken l w" w l, simplified]
    have "legal_event w' l e'" if "legal_event w l e'" "snd e' \<noteq> fd" for e'
      using that wake(1,2) f by (simp add: legal_event_def)
    then show ?thesis using wake f rd by auto
  next
    case read
    note f = consistent_read_out [OF con read(1), of q out]
    have "legal_event w' l e'" if "legal_event w l e'" "snd e' \<noteq> fd" for e'
      using that f by (simp add: legal_event_def read(2))
    then show ?thesis using read f rd by auto
  qed
  then show "wake_fd w' l = wake_fd w l"
    "watched_fds w' l \<union> pending_fds w' l = (watched_fds w l \<union> pending_fds w l) - (readable_fds [(ev, fd)] - {wake_fd w l})"
    "\<And>e'. legal_event w l e' \<Longrightarrow> snd e' \<noteq> fd \<Longrightarrow> legal_event w' l e'" by blast+
qed

lemma dispatch_steps:
  assumes "consistent w l" and "\<forall>e \<in> set evs. legal_event w l e" and "distinct (map snd evs)"
    and "cpp_dispatch_loop cpp_call l evs w = Some (Inr w')"
  shows "cpp_reaches l w w' \<and> wake_fd w' l = wake_fd w l \<and>
    watched_fds w' l \<union> pending_fds w' l = (watched_fds w l \<union> pending_fds w l) - (readable_fds evs - {wake_fd w l})"
  using assms
proof (induction evs arbitrary: w)
  case Nil
  then show ?case by (simp add: readable_fds_def cpp_reaches.reaches_refl)
next
  case (Cons e evs)
  obtain ev fd where e: "e = (ev, fd)" by fastforce
  from trans [OF dispatch_Cons [symmetric] Cons.prems(4)] obtain w1 where w1: "cpp_dispatch_loop cpp_call l [(ev, fd)] w = Some (Inr w1)"
    "cpp_dispatch_loop cpp_call l evs w1 = Some (Inr w')" by (auto simp: res_simps e)
  have le: "legal_event w l (ev, fd)" using Cons.prems(2) e by simp
  note f = event_fds [OF Cons.prems(1) le w1(1)]
  have "\<forall>e' \<in> set evs. legal_event w1 l e'" using f(4) Cons.prems(2,3) e by force
  from Cons.IH [OF f(1) this _ w1(2)] Cons.prems(3)
  have IH: "cpp_reaches l w1 w'" "wake_fd w' l = wake_fd w1 l"
    "watched_fds w' l \<union> pending_fds w' l = (watched_fds w1 l \<union> pending_fds w1 l) - (readable_fds evs - {wake_fd w1 l})" by simp_all
  have "cpp_reaches l w w'"
    by (rule reaches_trans [OF IH(1) cpp_reaches.reaches_event [OF cpp_reaches.reaches_refl le w1(1)]])
  moreover have "readable_fds (e # evs) = readable_fds [(ev, fd)] \<union> readable_fds evs" by (auto simp: readable_fds_def e)
  ultimately show ?case using IH(2,3) f(2,3) by auto
qed

lemma round_steps:
  assumes con: "consistent w l" and rep: "legal_report w l evs" and r: "cpp_round cpp_call l evs w = Some (Inr w')"
  shows "cpp_reaches l w w'" "watched_fds w' l = (watched_fds w l \<union> pending_fds w l) - (readable_fds evs - {wake_fd w l})"
    "pending_fds w' l = {}"
proof -
  have "take 520 evs = evs" using rep by (simp add: legal_report_def)
  with r obtain w1 where w1: "cpp_dispatch_loop cpp_call l evs w = Some (Inr w1)" "cpp_processTaskQ l w1 = Some (Inr w')"
    by (auto simp: cpp_round_def cpp_dispatch_def res_simps)
  have d: "cpp_reaches l w w1"
    "watched_fds w1 l \<union> pending_fds w1 l = (watched_fds w l \<union> pending_fds w l) - (readable_fds evs - {wake_fd w l})"
    using dispatch_steps [OF con _ _ w1(1)] rep by (simp_all add: legal_report_def)
  have c: "consistent w1 l" by (rule reaches_consistent [OF d(1) con])
  have w': "w' = taken_in l w1" using processTaskQ_consistent [OF c] w1(2) by simp
  show "cpp_reaches l w w'" by (rule cpp_reaches.reaches_tasks [OF d(1) w1(2)])
  show "watched_fds w' l = (watched_fds w l \<union> pending_fds w l) - (readable_fds evs - {wake_fd w l})" "pending_fds w' l = {}"
    using consistent_taken_in(2,3) [OF c] d(2) by (simp_all add: w')
qed

section \<open>Descriptors nobody closes\<close>

text \<open>
  A descriptor nobody will ever close: its connection is gone, its channel and the parts of the
  connection are still there.
\<close>

definition stranded :: "cpp_world \<Rightarrow> nat \<Rightarrow> nat \<Rightarrow> int \<Rightarrow> bool" where
  "stranded w l p fd \<longleftrightarrow> x_open w fd \<and> x_conns w p = None \<and> x_parts w p \<noteq> None \<and> fd \<notin> watched_fds w l \<and>
     (\<exists>lp ch. x_loops w l = Some lp \<and> m_channelMap lp fd = Some (Some ch) \<and> x_channels w ch = Some (conn_channel_of fd p))"

lemma strandedE:
  assumes "stranded w l p fd" and "consistent w l"
  obtains lp ch where "x_open w fd" "x_conns w p = None" "x_parts w p \<noteq> None" "fd \<notin> watched_fds w l" "x_loops w l = Some lp"
    "m_channelMap lp fd = Some (Some ch)" "x_channels w ch = Some (conn_channel_of fd p)" "fd \<notin> pending_fds w l"
proof -
  from assms(1) obtain lp ch where s: "x_open w fd" "x_conns w p = None" "x_parts w p \<noteq> None" "fd \<notin> watched_fds w l"
    "x_loops w l = Some lp" "m_channelMap lp fd = Some (Some ch)" "x_channels w ch = Some (conn_channel_of fd p)"
    unfolding stranded_def by blast
  have "fd \<notin> pending_fds w l"
  proof
    assume "fd \<in> pending_fds w l"
    then obtain ty ch' where t: "(ty, ch') \<in> set (m_taskQ lp)" "fd = c_fd (the (x_channels w ch'))"
      using s(5) by (auto simp: pending_fds_def task_fds_def)
    from assms(2) s(5) t(1) obtain p' fd' where "pending w l p' fd' ch'" unfolding consistent_def by fastforce
    with s(5,6) t(2) show False by (auto simp: pending_def conn_of_def)
  qed
  with s that show ?thesis by blast
qed

lemma stranded_frame:
  assumes "x_loops w' = x_loops w" "x_channels w' = x_channels w" "x_conns w' = x_conns w" "x_parts w' = x_parts w"
    "x_open w' = x_open w"
  shows "stranded w' l p fd = stranded w l p fd"
  using assms by (simp add: stranded_def watched_fds_def)

lemma stranded_taken_in:
  assumes con: "consistent w l" and st: "stranded w l p fd"
  shows "stranded (taken_in l w) l p fd"
proof -
  obtain lp ch where s: "x_open w fd" "x_conns w p = None" "x_parts w p \<noteq> None" "fd \<notin> watched_fds w l"
    "x_loops w l = Some lp" "m_channelMap lp fd = Some (Some ch)" "x_channels w ch = Some (conn_channel_of fd p)"
    "fd \<notin> pending_fds w l" by (rule strandedE [OF st con])
  have "m_channelMap (take_in (task_fds (x_channels w) (m_taskQ lp)) lp) fd = Some (Some ch)"
    using s(5,6,8) by (simp add: take_in_def fold_map(1) pending_fds_def)
  with s consistent_taken_in(2) [OF con] taken_in_loop(1) [OF s(5)] show ?thesis by (auto simp: stranded_def)
qed

lemma stranded_ended:
  assumes at: "attached w l p' fd'" and con: "consistent w l" and st: "stranded w l p fd"
  shows "stranded (ended q l p' fd' w) l p fd"
proof -
  from at obtain conn where c: "x_conns w p' = Some conn" "x_channels w (m_channel conn) = Some (conn_channel_of fd' p')"
    by (rule attachedE)
  obtain lp ch where s: "x_open w fd" "x_conns w p = None" "x_parts w p \<noteq> None" "fd \<notin> watched_fds w l"
    "x_loops w l = Some lp" "m_channelMap lp fd = Some (Some ch)" "x_channels w ch = Some (conn_channel_of fd p)"
    by (rule strandedE [OF st con])
  have ne: "fd \<noteq> fd'" "p \<noteq> p'" using s(2,4) c(1) attached_watched [OF at] by auto
  then have ch: "ch \<noteq> m_channel conn" using c(2) s(7) by (auto simp: conn_channel_inj)
  from ended_loop [OF s(5), of q p' fd'] consistent_ended(2) [OF con at, of q] s ne ch c show ?thesis
    by (auto simp: stranded_def ended_heaps)
qed

lemma stranded_read_out:
  assumes con: "consistent w l" and at: "linked w l p' fd'" and st: "stranded w l p fd"
  shows "stranded (read_out q l p' fd' out w) l p fd"
proof -
  note at' = attached_taken_in [OF con at]
  let ?u = "with_parts p' q fd' out (taken_in l w)"
  have "stranded ?u l p fd" using stranded_taken_in [OF con st] by (auto simp: stranded_def)
  moreover have "consistent ?u l" "attached ?u l p' fd'"
    using consistent_with_parts [OF consistent_taken_in(1) [OF con] attached_conn [OF at']] at' by auto
  ultimately have "stranded (ended q l p' fd' ?u) l p fd" by (intro stranded_ended)
  then show ?thesis by (simp add: read_out_def stranded_frame [of "ticked_once (ended q l p' fd' ?u)" "ended q l p' fd' ?u"])
qed

lemma stranded_accepts:
  assumes con: "consistent w l" and acc: "main_accepts l fd' w w'" and st: "stranded w l p fd"
  shows "stranded w' l p fd"
proof -
  from con obtain lp where c: "heap_bounded w" "x_loops w l = Some lp" "m_threadID lp = x_self w" by (rule consistentE)
  obtain ch where s: "x_open w fd" "x_conns w p = None" "x_parts w p \<noteq> None" "fd \<notin> watched_fds w l"
    "m_channelMap lp fd = Some (Some ch)" "x_channels w ch = Some (conn_channel_of fd p)"
    using strandedE [OF st con] c(2) by (metis option.inject)
  have n: "p \<noteq> x_next w" "p \<noteq> Suc (x_next w)" "ch \<noteq> x_next w" "ch \<noteq> Suc (x_next w)"
    using c(1) s(3,6) by (auto simp: heap_bounded_def)
  show ?thesis
    by (rule main_accepts_world [OF acc c(2)])
      (use s n c(2) consistent_accepts(2) [OF con acc] in \<open>auto simp: stranded_def\<close>)
qed

lemma stranded_untouched:
  assumes con: "consistent w l" and u: "untouched l w w'" and st: "stranded w l p fd"
  shows "stranded w' l p fd"
proof -
  obtain lp ch where s: "x_open w fd" "x_conns w p = None" "x_parts w p \<noteq> None" "fd \<notin> watched_fds w l" "x_loops w l = Some lp"
    "m_channelMap lp fd = Some (Some ch)" "x_channels w ch = Some (conn_channel_of fd p)" by (rule strandedE [OF st con])
  have "knows lp ch" using s(6) by (auto simp: knows_def)
  with u s have "x_channels w' ch = Some (conn_channel_of fd p)" "x_open w' fd" "x_conns w' p = None" "x_parts w' p \<noteq> None"
    "x_loops w' l = Some lp" by (auto simp: untouched_def)
  with s(4,6) consistent_untouched(2) [OF con u] show ?thesis by (auto simp: stranded_def)
qed

text \<open>Once stranded, always stranded.\<close>

lemma reaches_stranded:
  assumes "cpp_reaches l w w'" and "consistent w l" and "stranded w l p fd"
  shows "stranded w' l p fd"
proof -
  have "consistent w' l \<and> stranded w' l p fd"
  proof (rule reaches_keeps [OF assms(1,2), where P = "\<lambda>w. stranded w l p fd"])
    show "stranded (awoken l w) l p fd" if "stranded w l p fd" for w
      using that stranded_frame [of "awoken l w" w] by simp
  qed (use assms(3) in \<open>blast intro: stranded_taken_in stranded_read_out stranded_accepts stranded_untouched\<close>)+
  then show ?thesis ..
qed

text \<open>A read that leaves something in a buffer.\<close>

lemma leaked_strands:
  assumes at: "attached w l p fd" and q: "\<not> both_empty q"
  shows "stranded (ended q l p fd (with_parts p q fd out w)) l p fd"
proof -
  from at obtain lp conn where a: "x_loops w l = Some lp" "x_conns w p = Some conn"
    "x_channels w (m_channel conn) = Some (conn_channel_of fd p)" "m_channelMap lp fd = Some (Some (m_channel conn))"
    "x_open w fd" by (rule attachedE)
  show ?thesis
    using a q by (simp add: stranded_def ended_def leaked_world_def set_loop_def watched_fds_def)
qed

end
