(* ===== verification/CppStart.thy ===== *)
theory CppStart
  imports CppConnections
begin

text \<open>
  The C++ rewrite starts: from \<^verbatim>\<open>main\<close> through the constructors of the server, the pool
  and the loops to the first \<^verbatim>\<open>epoll_wait\<close>. The worker threads start one after the other,
  because \<^verbatim>\<open>WorkerThread::run\<close> waits for the loop of its thread.
\<close>

section \<open>Starting\<close>

text \<open>A loop as its constructor leaves it: only the wake-up socket is watched.\<close>

definition ready_loop :: "int \<Rightarrow> int \<times> int \<Rightarrow> string \<Rightarrow> nat \<Rightarrow> nat \<Rightarrow> cpp_loop" where
  "ready_loop efd pair name tid ch =
     \<lparr>m_isQuit = True, m_dispatcher = \<lparr>epfd = efd, ep_set = [snd pair \<mapsto> EPOLLIN], ep_events = True\<rparr>, m_taskQ = [],
      m_channelMap = [snd pair \<mapsto> Some ch], m_threadID = tid,
      m_threadName = (if name = [] then ''MainThread'' else name), m_socketPair = pair\<rparr>"

definition with_loop :: "int \<Rightarrow> int \<times> int \<Rightarrow> string \<Rightarrow> cpp_world \<Rightarrow> cpp_world" where
  "with_loop efd pair name w = w\<lparr>x_next := Suc (Suc (x_next w)),
     x_loops := (x_loops w)(x_next w \<mapsto> ready_loop efd pair name (x_self w) (Suc (x_next w))),
     x_channels := (x_channels w)(Suc (x_next w) \<mapsto> wake_channel (snd pair) (x_next w)),
     x_open := (x_open w)(efd := True, fst pair := True, snd pair := True)\<rparr>"

lemma newEventLoop_ready:
  assumes "efd \<noteq> -1" and "snd pair \<noteq> efd"
  shows "newEventLoop efd (Some pair) name w = Some (Inr (x_next w, with_loop efd pair name w))"
proof -
  obtain s0 s1 where p: "pair = (s0, s1)" by fastforce
  let ?lp = "\<lparr>m_isQuit = True, m_dispatcher = \<lparr>epfd = efd, ep_set = Map.empty, ep_events = True\<rparr>, m_taskQ = [],
    m_channelMap = Map.empty, m_threadID = x_self w, m_threadName = (if name = [] then ''MainThread'' else name),
    m_socketPair = (s0, s1)\<rparr>"
  let ?w = "w\<lparr>x_next := Suc (Suc (x_next w)), x_loops := (x_loops w)(x_next w \<mapsto> ?lp),
    x_channels := (x_channels w)(Suc (x_next w) \<mapsto> newChannel s1 ReadEvent (Some ReadMessage) None None (x_next w)),
    x_open := (x_open w)(efd := True, s0 := True, s1 := True)\<rparr>"
  let ?c = "newChannel s1 ReadEvent (Some ReadMessage) None None (x_next w)"
  have l: "x_loops ?w (x_next w) = Some ?lp" "x_channels ?w (Suc (x_next w)) = Some ?c" by simp_all
  have "cpp_run_task (x_next w) (ADD, Suc (x_next w)) ?w = Inr (with_loop efd pair name w)"
    using add_watches [OF l, of s1] assms by (simp add: p with_loop_def ready_loop_def wake_channel_def newChannel_def)
  from addTask_alone [OF l(1) _ _ this]
  have "cpp_addTask (x_next w) (Suc (x_next w)) ADD ?w = Some (Inr (with_loop efd pair name w))"
    by (simp add: with_loop_def ready_loop_def)
  with assms(1) show ?thesis by (simp add: newEventLoop_def newEpollDispatcher_def p Let_def)
qed

text \<open>The answers of the system calls that make a server possible.\<close>

definition good_worker :: "worker_answer \<Rightarrow> bool" where
  "good_worker a \<longleftrightarrow> wa_epfd a \<noteq> -1 \<and> (\<exists>pair. wa_pair a = Some pair \<and> snd pair \<noteq> wa_epfd a \<and> 0 \<le> snd pair)"

definition the_pair :: "worker_answer \<Rightarrow> int \<times> int" where
  "the_pair a = the (wa_pair a)"

definition worker_at :: "cpp_world \<Rightarrow> cpp_worker \<Rightarrow> nat \<Rightarrow> worker_answer \<Rightarrow> nat \<Rightarrow> bool" where
  "worker_at w t i a l \<longleftrightarrow> t = \<lparr>wk_name = ''SubThread-'' @ dec_int (int i), wk_evLoop = l\<rparr> \<and>
     x_loops w l = Some (ready_loop (wa_epfd a) (the_pair a) (wk_name t) (wa_tid a) (Suc l)) \<and>
     x_channels w (Suc l) = Some (wake_channel (snd (the_pair a)) l)"

definition new_worker :: "nat \<Rightarrow> worker_answer \<Rightarrow> cpp_world \<Rightarrow> cpp_world" where
  "new_worker i a w = (with_loop (wa_epfd a) (the_pair a) (''SubThread-'' @ dec_int (int i)) (w\<lparr>x_self := wa_tid a\<rparr>))\<lparr>x_self := x_self w\<rparr>"

lemma runWorker_ready:
  assumes "good_worker a"
  shows "runWorker (wa_tid a) (wa_epfd a) (wa_pair a) (int i) w =
    Some (Inr (\<lparr>wk_name = ''SubThread-'' @ dec_int (int i), wk_evLoop = x_next w\<rparr>, new_worker i a w))"
proof -
  from assms obtain pair where p: "wa_epfd a \<noteq> -1" "wa_pair a = Some pair" "snd pair \<noteq> wa_epfd a"
    by (auto simp: good_worker_def)
  then show ?thesis
    by (simp add: runWorker_def newEventLoop_ready the_pair_def new_worker_def Let_def)
qed

lemma new_worker_frame:
  "x_self (new_worker i a w) = x_self w" "x_next (new_worker i a w) = Suc (Suc (x_next w))"
  "l < x_next w \<Longrightarrow> x_loops (new_worker i a w) l = x_loops w l"
  "c < x_next w \<Longrightarrow> x_channels (new_worker i a w) c = x_channels w c"
  "x_servers (new_worker i a w) = x_servers w" "x_env (new_worker i a w) = x_env w"
  "x_open w fd \<Longrightarrow> x_open (new_worker i a w) fd"
  by (simp_all add: new_worker_def with_loop_def)

lemma new_worker_at:
  "worker_at (new_worker i a w) \<lparr>wk_name = ''SubThread-'' @ dec_int (int i), wk_evLoop = x_next w\<rparr> i a (x_next w)"
  by (simp add: worker_at_def new_worker_def with_loop_def)

text \<open>The workers start one after the other, each with a loop and a thread of its own.\<close>

lemma run_workers_ready:
  assumes "\<forall>k < n. good_worker (wa (i + k))"
  shows "\<exists>us w'. run_workers wa i n ts w = Some (Inr (ts @ us, w')) \<and> length us = n \<and>
    (\<forall>k < n. worker_at w' (us ! k) (i + k) (wa (i + k)) (x_next w + 2 * k)) \<and>
    x_self w' = x_self w \<and> x_next w' = x_next w + 2 * n \<and> x_servers w' = x_servers w \<and> x_env w' = x_env w \<and>
    (\<forall>l < x_next w. x_loops w' l = x_loops w l \<and> x_channels w' l = x_channels w l) \<and>
    (\<forall>fd. x_open w fd \<longrightarrow> x_open w' fd)"
  using assms
proof (induction n arbitrary: i ts w)
  case (Suc n)
  let ?t = "\<lparr>wk_name = ''SubThread-'' @ dec_int (int i), wk_evLoop = x_next w\<rparr>" and ?w = "new_worker i (wa i) w"
  have g: "good_worker (wa i)" "\<forall>k < n. good_worker (wa (Suc i + k))" using Suc.prems by (auto dest: spec [of _ 0] spec [of _ "Suc _"])
  from Suc.IH [OF g(2), of "ts @ [?t]" ?w] obtain us w' where
    u: "run_workers wa (Suc i) n (ts @ [?t]) ?w = Some (Inr ((ts @ [?t]) @ us, w'))" "length us = n"
    "\<forall>k < n. worker_at w' (us ! k) (Suc i + k) (wa (Suc i + k)) (x_next ?w + 2 * k)"
    "x_self w' = x_self ?w" "x_next w' = x_next ?w + 2 * n" "x_servers w' = x_servers ?w" "x_env w' = x_env ?w"
    "\<forall>l < x_next ?w. x_loops w' l = x_loops ?w l \<and> x_channels w' l = x_channels ?w l" "\<forall>fd. x_open ?w fd \<longrightarrow> x_open w' fd"
    by blast
  have "worker_at w' ?t i (wa i) (x_next w)"
    using new_worker_at [of i "wa i" w] u(8) by (simp add: worker_at_def new_worker_frame)
  with u(3) have "worker_at w' ((?t # us) ! k) (i + k) (wa (i + k)) (x_next w + 2 * k)" if "k < Suc n" for k
    using that by (cases k) (auto simp: new_worker_frame)
  moreover have "run_workers wa i (Suc n) ts w = Some (Inr (ts @ ?t # us, w'))"
    using u(1) by (simp add: runWorker_ready [OF g(1)])
  moreover have "\<forall>l < x_next w. x_loops w' l = x_loops w l \<and> x_channels w' l = x_channels w l"
    using u(8) by (simp add: new_worker_frame)
  ultimately show ?case
    using u(2,4-7,9) by (intro exI [of _ "?t # us"] exI [of _ w']) (simp add: new_worker_frame)
qed simp


text \<open>
  Server \<open>s\<close> listens at \<open>lsn\<close> in the loop \<open>l\<close> of the current thread, and its \<open>n\<close> workers wait for
  clients in loops of their own.
\<close>

definition serving :: "cpp_world \<Rightarrow> nat \<Rightarrow> nat \<Rightarrow> nat \<Rightarrow> (nat \<Rightarrow> worker_answer) \<Rightarrow> int \<Rightarrow> bool" where
  "serving w s l n wa lsn \<longleftrightarrow> (\<exists>server lp ch. x_servers w s = Some server \<and> x_loops w l = Some lp \<and>
     s_lfd server = lsn \<and> s_mainLoop server = l \<and> tp_mainLoop (s_pool server) = l \<and> tp_isStart (s_pool server) \<and>
     tp_threadNum (s_pool server) = int n \<and> tp_index (s_pool server) = 0 \<and> length (tp_workers (s_pool server)) = n \<and>
     (\<forall>k < n. \<exists>wl. worker_at w (tp_workers (s_pool server) ! k) k (wa k) wl \<and> Suc wl < x_next w) \<and>
     distinct (l # map wk_evLoop (tp_workers (s_pool server))) \<and>
     m_threadID lp = x_self w \<and> m_taskQ lp = [] \<and> m_channelMap lp lsn = Some (Some ch) \<and>
     x_channels w ch = Some (newChannel lsn ReadEvent (Some Accept) None None s) \<and>
     ep_set (m_dispatcher lp) = [snd (m_socketPair lp) \<mapsto> EPOLLIN, lsn \<mapsto> EPOLLIN])"

text \<open>Then the first worker is ready for any new descriptor.\<close>

lemma serving_quiet:
  assumes sv: "serving w s l n wa lsn" and n: "0 < n" and g: "good_worker (wa 0)" "wa_tid (wa 0) \<noteq> x_self w"
    and m: "e_mem (x_env w) 10240" and fd: "0 \<le> fd" "fd \<noteq> wa_epfd (wa 0)" "fd \<noteq> snd (the_pair (wa 0))"
  shows "\<exists>wl. quiet w s wl fd"
proof -
  from sv obtain server lp where a: "x_servers w s = Some server" "x_loops w l = Some lp"
    "tp_mainLoop (s_pool server) = l" "tp_isStart (s_pool server)" "tp_threadNum (s_pool server) = int n"
    "tp_index (s_pool server) = 0" "length (tp_workers (s_pool server)) = n" "m_threadID lp = x_self w"
    "\<forall>k < n. \<exists>wl. worker_at w (tp_workers (s_pool server) ! k) k (wa k) wl \<and> Suc wl < x_next w"
    unfolding serving_def by blast
  then obtain wl where wl: "worker_at w (tp_workers (s_pool server) ! 0) 0 (wa 0) wl" "Suc wl < x_next w" using n by blast
  have "0 \<le> snd (the_pair (wa 0))" using g(1) by (auto simp: good_worker_def the_pair_def)
  with a wl n g(2) m fd have "quiet w s wl fd"
    by (auto simp: quiet_def worker_at_def ready_loop_def wake_channel_def)
  then show ?thesis ..
qed

text \<open>A worker's loop is then consistent, seen from its thread.\<close>

lemma worker_consistent:
  assumes "worker_at w t i a l" and "heap_bounded w" and "0 \<le> snd (the_pair a)"
    and "x_open w (wa_epfd a)" and "x_open w (snd (the_pair a))"
  shows "consistent (w\<lparr>x_self := wa_tid a\<rparr>) l \<and> watched_fds (w\<lparr>x_self := wa_tid a\<rparr>) l = {snd (the_pair a)}"
  using assms
  by (auto simp: worker_at_def consistent_def entry_live_def heap_bounded_def watched_fds_def wake_fd_def task_fds_def ready_loop_def
      split: if_splits)

lemma with_loop_facts:
  "x_self (with_loop efd pair name w) = x_self w" "x_next (with_loop efd pair name w) = Suc (Suc (x_next w))"
  "x_loops (with_loop efd pair name w) (x_next w) = Some (ready_loop efd pair name (x_self w) (Suc (x_next w)))"
  "x_servers (with_loop efd pair name w) = x_servers w" "x_env (with_loop efd pair name w) = x_env w"
  "x_open w fd \<Longrightarrow> x_open (with_loop efd pair name w) fd"
  by (simp_all add: with_loop_def)

text \<open>A server that could be made, and its pool.\<close>

definition made_server :: "int \<Rightarrow> 16 word \<Rightarrow> int \<Rightarrow> nat \<Rightarrow> cpp_server" where
  "made_server lsn p n l = \<lparr>s_port = p, s_lfd = lsn, s_threadNum = n, s_mainLoop = l, s_pool = newThreadPool l n\<rparr>"

lemma newTcpServer_made:
  assumes a: "la_socket a \<noteq> -1" "la_setsockopt a \<noteq> -1" "la_bind a \<noteq> -1" "la_listen a \<noteq> -1"
    and l: "efd \<noteq> -1" "snd pair \<noteq> efd"
  obtains w' where "newTcpServer a efd (Some pair) p n w = Some (Inr (x_next w, w'))"
    "x_servers w' (x_next w) = Some (made_server (la_socket a) p n (Suc (x_next w)))"
    "x_loops w' (Suc (x_next w)) = Some (ready_loop efd pair [] (x_self w) (Suc (Suc (x_next w))))"
    "x_self w' = x_self w" "x_next w' = x_next w + 3" "x_env w' = x_env w" "x_open w' (la_socket a)"
proof -
  let ?w = "w\<lparr>x_next := Suc (x_next w), x_open := (x_open w)(la_socket a := True)\<rparr>"
  let ?v = "(with_loop efd pair [] ?w)\<lparr>x_servers := (x_servers w)(x_next w \<mapsto> made_server (la_socket a) p n (Suc (x_next w)))\<rparr>"
  have "setListen a (w\<lparr>x_next := Suc (x_next w)\<rparr>) = (la_socket a, ?w)" using a by (simp add: setListen_def Let_def)
  then have "newTcpServer a efd (Some pair) p n w = Some (Inr (x_next w, ?v))"
    using newEventLoop_ready [OF l, of "[]" ?w] by (simp add: newTcpServer_def made_server_def with_loop_def Let_def)
  then show ?thesis by (rule that) (simp_all add: with_loop_def)
qed

text \<open>
  C31. The rewrite starts. When the system calls of the set-up succeed, \<^verbatim>\<open>main\<close> comes to its event
  loop with four workers: each has a loop of its own in its own thread, all loops are different,
  every loop watches its wake-up socket and the main loop watches the listening socket besides,
  whose events lead to \<^verbatim>\<open>acceptConnection\<close>; and a client whose descriptor is not in use can
  be handed to the first worker.
\<close>

theorem cpp_main_serves:
  assumes a: "la_socket a \<noteq> -1" "la_setsockopt a \<noteq> -1" "la_bind a \<noteq> -1" "la_listen a \<noteq> -1"
    and l: "efd \<noteq> -1" "snd pair \<noteq> efd" "la_socket a \<noteq> efd" "la_socket a \<noteq> snd pair"
    and wa: "\<forall>k < 4. good_worker (wa k) \<and> wa_tid (wa k) \<noteq> x_self w" and mem: "e_mem (x_env w) 10240"
  shows "\<exists>s l w'. cpp_main a efd (Some pair) wa reports w = bindO (cpp_run cpp_call l reports w') (\<lambda>(_, w). Some (Inr w)) \<and>
    serving w' s l 4 wa (la_socket a) \<and>
    (\<forall>fd \<ge> 0. fd \<noteq> wa_epfd (wa 0) \<and> fd \<noteq> snd (the_pair (wa 0)) \<longrightarrow> (\<exists>wl. quiet w' s wl fd))"
proof -
  let ?s = "x_next w" and ?l = "Suc (x_next w)" and ?fd = "la_socket a"
  let ?srv = "made_server ?fd 10000 4 ?l" and ?main = "ready_loop efd pair [] (x_self w) (Suc ?l)"
  obtain v where v: "newTcpServer a efd (Some pair) 10000 4 w = Some (Inr (?s, v))" "x_servers v ?s = Some ?srv"
    "x_loops v ?l = Some ?main" "x_self v = x_self w" "x_next v = x_next w + 3" "x_env v = x_env w" "x_open v ?fd"
    by (rule newTcpServer_made [OF a l(1,2)])
  obtain us u where u: "run_workers wa 0 4 [] v = Some (Inr (us, u))" "length us = 4"
    "\<forall>k < 4. worker_at u (us ! k) k (wa k) (x_next v + 2 * k)" "x_self u = x_self v" "x_next u = x_next v + 8"
    "x_servers u = x_servers v" "x_env u = x_env v" "\<forall>l < x_next v. x_loops u l = x_loops v l" "\<forall>fd. x_open v fd \<longrightarrow> x_open u fd"
    using run_workers_ready [of 4 wa 0 "[]" v] wa by auto
  let ?pool = "(newThreadPool ?l 4)\<lparr>tp_isStart := True, tp_workers := us\<rparr>"
  have pool: "cpp_pool_run wa (s_pool ?srv) v = Some (Inr (?pool, u))"
    using u(1) v(3,4) by (simp add: cpp_pool_run_def made_server_def newThreadPool_def ready_loop_def)
  let ?ch = "x_next u" and ?c = "newChannel ?fd ReadEvent (Some Accept) None None ?s"
  let ?u = "u\<lparr>x_servers := (x_servers u)(?s \<mapsto> ?srv\<lparr>s_pool := ?pool\<rparr>), x_next := Suc ?ch, x_channels := (x_channels u)(?ch \<mapsto> ?c)\<rparr>"
  let ?watch = "?main\<lparr>m_channelMap := (m_channelMap ?main)(?fd \<mapsto> Some ?ch),
    m_dispatcher := (m_dispatcher ?main)\<lparr>ep_set := (ep_set (m_dispatcher ?main))(?fd \<mapsto> EPOLLIN)\<rparr>\<rparr>"
  let ?w = "?u\<lparr>x_loops := (x_loops ?u)(?l \<mapsto> ?watch)\<rparr>"
  have ul: "x_loops ?u ?l = Some ?main" "x_channels ?u ?ch = Some ?c" using u(8) v(3,5) by simp_all
  have "cpp_run_task ?l (ADD, ?ch) ?u = Inr ?w"
    by (rule add_watches [OF ul]) (use l u(9) v(7) in \<open>simp_all add: newChannel_def ready_loop_def\<close>)
  from addTask_alone [OF ul(1) _ _ this]
  have add: "cpp_addTask ?l ?ch ADD ?u = Some (Inr ?w)" using u(4) v(4) by (simp add: ready_loop_def)
  have main: "cpp_main a efd (Some pair) wa reports w = bindO (cpp_run cpp_call ?l reports ?w) (\<lambda>(_, w). Some (Inr w))"
    using v(1,2) pool add by (simp add: cpp_main_def cpp_server_run_def made_server_def Let_def)
  have "distinct (map wk_evLoop us)" "?l \<notin> set (map wk_evLoop us)"
    using u(2,3) v(5) by (auto simp: distinct_conv_nth in_set_conv_nth worker_at_def)
  moreover have "\<exists>wl. worker_at ?w (us ! k) k (wa k) wl \<and> Suc wl < x_next ?w" if "k < 4" for k
    using u(3,5) v(5) that by (intro exI [of _ "x_next v + 2 * k"]) (auto simp: worker_at_def)
  ultimately have sv: "serving ?w ?s ?l 4 wa ?fd"
    using u(2,4) v(4) by (simp add: serving_def made_server_def newThreadPool_def ready_loop_def)
  have "\<exists>wl. quiet ?w ?s wl fd" if "0 \<le> fd" "fd \<noteq> wa_epfd (wa 0)" "fd \<noteq> snd (the_pair (wa 0))" for fd
    by (rule serving_quiet [OF sv]) (use wa mem that u(4,7) v(4,6) in auto)
  with main sv show ?thesis by blast
qed

text \<open>The instance of a set-up that succeeds.\<close>

definition blank_cpp :: "env \<Rightarrow> cpp_world" where
  "blank_cpp e = \<lparr>x_loops = Map.empty, x_channels = Map.empty, x_conns = Map.empty, x_parts = Map.empty,
     x_servers = Map.empty, x_next = 0, x_self = 0, x_open = (\<lambda>_. False), x_inbox = (\<lambda>_. []), x_sent = (\<lambda>_. []),
     x_io = (\<lambda>_. \<lparr>x_avail = None, x_sends = (\<lambda>_. SendErr), x_accept = -1, x_null = 1\<rparr>), x_tick = 0, x_env = e\<rparr>"

definition example_worker :: "nat \<Rightarrow> worker_answer" where
  "example_worker k = \<lparr>wa_tid = Suc k, wa_epfd = 10 * int k + 10,
     wa_pair = Some (10 * int k + 11, 10 * int k + 12), wa_junk = Map.empty\<rparr>"

theorem cpp_main_serves_witness:
  "\<exists>s l w'. cpp_main \<lparr>la_socket = 3, la_setsockopt = 0, la_bind = 0, la_listen = 0\<rparr> 4 (Some (5, 6))
      example_worker (\<lambda>_. []) (blank_cpp (small_env Map.empty)) =
      bindO (cpp_run cpp_call l (\<lambda>_. []) w') (\<lambda>(_, w). Some (Inr w)) \<and>
    serving w' s l 4 example_worker 3 \<and> (\<exists>wl. quiet w' s wl 9)"
proof -
  have "\<forall>k < 4. good_worker (example_worker k) \<and> wa_tid (example_worker k) \<noteq> x_self (blank_cpp (small_env Map.empty))"
    by (simp add: good_worker_def example_worker_def blank_cpp_def)
  moreover have "e_mem (x_env (blank_cpp (small_env Map.empty))) 10240" by (simp add: blank_cpp_def small_env_def)
  moreover have fd: "(9::int) \<noteq> wa_epfd (example_worker 0)" "(9::int) \<noteq> snd (the_pair (example_worker 0))"
    by (simp_all add: example_worker_def the_pair_def)
  ultimately obtain s l w' where "cpp_main \<lparr>la_socket = 3, la_setsockopt = 0, la_bind = 0, la_listen = 0\<rparr> 4 (Some (5, 6))
      example_worker (\<lambda>_. []) (blank_cpp (small_env Map.empty)) =
      bindO (cpp_run cpp_call l (\<lambda>_. []) w') (\<lambda>(_, w). Some (Inr w))" "serving w' s l 4 example_worker 3"
      "\<forall>fd \<ge> 0. fd \<noteq> wa_epfd (example_worker 0) \<and> fd \<noteq> snd (the_pair (example_worker 0)) \<longrightarrow> (\<exists>wl. quiet w' s wl fd)"
    using cpp_main_serves [of "\<lparr>la_socket = 3, la_setsockopt = 0, la_bind = 0, la_listen = 0\<rparr>" 4 "(5, 6)" example_worker
        "blank_cpp (small_env Map.empty)" "\<lambda>_. []"] by auto
  moreover from this(3) fd have "\<exists>wl. quiet w' s wl 9" by simp
  ultimately show ?thesis by blast
qed

end
