(* ===== verification/CppServing.thy ===== *)
theory CppServing
  imports CppConnections
begin

text \<open>
  What the C++ rewrite does for its clients: it accepts and answers them, and a loop with any
  number of connections keeps track of every descriptor it watches, but loses the descriptor of a
  client whose request does not arrive in one piece. The lemmas follow one read of a connection,
  \<open>cpp_processRead\<close>, through the rounds of a loop.
\<close>

section \<open>One client\<close>

text \<open>
  Accepting a client in the main thread of the rewrite puts its connection in the queue of the
  worker whose turn it is and wakes that worker; the worker's next round watches the new
  descriptor for input, with a connection nothing has been received on. The next client goes to
  the next worker.
\<close>

theorem cpp_accept_attaches:
  assumes "quiet w s l fd" and "x_accept (the_io w) = fd"
  shows "\<exists>w1 w2 tid. cpp_call Accept s w = Some (Inr w1) \<and> map_option m_threadID (x_loops w l) = Some tid \<and>
    cpp_round cpp_call l [(EPOLLIN, wake_fd w l)] (w1\<lparr>x_self := tid\<rparr>) = Some (Inr w2) \<and>
    awaiting w2 l (x_next w) fd \<and>
    map_option (tp_index \<circ> s_pool) (x_servers w2 s) =
      map_option (\<lambda>srv. (tp_index (s_pool srv) + 1) mod tp_threadNum (s_pool srv)) (x_servers w s)"
proof -
  obtain w1 server lp where a: "cpp_call Accept s w = Some (Inr w1)" "x_servers w s = Some server"
    "map_option (tp_index \<circ> s_pool) (x_servers w1 s) =
       Some ((tp_index (s_pool server) + 1) mod tp_threadNum (s_pool server))"
    by (rule accept_queues [OF assms]) auto
  obtain w1' w2 tid where b: "cpp_call Accept s w = Some (Inr w1')"
    "map_option m_threadID (x_loops w l) = Some tid"
    "cpp_round cpp_call l [(EPOLLIN, wake_fd w l)] (w1'\<lparr>x_self := tid\<rparr>) = Some (Inr w2)"
    "awaiting w2 l (x_next w) fd" "x_servers w2 = x_servers w1'" by (rule accept_step [OF assms])
  then show ?thesis using a by auto
qed

text \<open>
  C5. A GET that arrives whole on a waiting connection of the rewrite is answered in one round of the
  loop: exactly the head and the body of the resource are sent to it, whatever the size of the
  file, from a send buffer that never grows; then the connection is closed and everything it
  allocated is released. Nothing else of the process changes. The client takes what it is sent.
\<close>

theorem cpp_serves_get:
  assumes wt: "awaiting w l p fd" and io: "x_avail (the_io w) = Some (print_request m u v hs)"
    and len: "length (print_request m u v hs) < 10240" and ok: "request_ok m u v hs"
    and get: "strcasecmp_eq m ''get''" "cstr (decode u) \<noteq> []"
    and path: "path_ok (x_env w) (requested_path u)" "reply_for (x_env w) (requested_path u) = (c, msg, rhs, f, fn)"
      "reply_body (x_env w) f fn txt"
    and sk: "eager (x_sends (the_io w))"
  shows "\<exists>w'. cpp_round cpp_call l [(EPOLLIN, fd)] w = Some (Inr w') \<and>
    x_sent w' = (x_sent w)(fd := x_sent w fd @ cpp_head c (sorted_headers rhs) @ txt) \<and>
    x_conns w' = (x_conns w)(p := None) \<and> x_parts w' = (x_parts w)(p := None) \<and>
    x_channels w' = (x_channels w)(m_channel (the (x_conns w p)) := None) \<and>
    x_open w' = (x_open w)(fd := False) \<and>
    m_channelMap (the (x_loops w' l)) = (m_channelMap (the (x_loops w l)))(fd := None) \<and>
    ep_set (m_dispatcher (the (x_loops w' l))) = (ep_set (m_dispatcher (the (x_loops w l))))(fd := None)"
proof -
  have ne: "print_request m u v hs \<noteq> []" by (simp add: print_request_def)
  obtain q where q: "both_empty q" "cpp_round cpp_call l [(EPOLLIN, fd)] w =
      Some (Inr (ticked_once (ended q l p fd (with_parts p q fd (cpp_head c (sorted_headers rhs) @ txt) w))))"
    using round_waiting [OF wt io ne len, of _ both_empty]
      answer_get [OF _ _ ok get path sk, of _ "[]"] by fastforce
  from wt obtain lp conn where "x_loops w l = Some lp" "x_conns w p = Some conn"
    unfolding awaiting_def by (meson attachedE)
  with q show ?thesis
    by (simp add: ended_def released_world_def ticked_once_def cpp_close_def set_loop_def Let_def)
qed




section \<open>Any number of connections\<close>

text \<open>
  C6. A worker's loop of the rewrite never loses track of a descriptor. Clients are accepted for it
  at any time, other threads do what they do elsewhere, events of its connections and of its wake-up
  socket come in any order: in every state this leads to, as long as the callbacks return, everything the loop
  watches besides its wake-up socket is a live connection with its channel in the map, every
  entry of the map is an open descriptor with its channel, and all that is queued are new connections. A round
  then watches exactly the connections that were watched or queued before it, less those it has read from.
\<close>

theorem cpp_connections_consistent:
  assumes "consistent w l" and "cpp_reaches l w w1"
  shows "consistent w1 l \<and>
    (\<forall>evs w2. legal_report w1 l evs \<and> cpp_round cpp_call l evs w1 = Some (Inr w2) \<longrightarrow>
       cpp_reaches l w w2 \<and> pending_fds w2 l = {} \<and>
       watched_fds w2 l = (watched_fds w1 l \<union> pending_fds w1 l) - (readable_fds evs - {wake_fd w1 l}))"
proof -
  have c: "consistent w1 l" by (rule reaches_consistent [OF assms(2,1)])
  have "cpp_reaches l w w2 \<and> pending_fds w2 l = {} \<and>
       watched_fds w2 l = (watched_fds w1 l \<union> pending_fds w1 l) - (readable_fds evs - {wake_fd w1 l})"
    if "legal_report w1 l evs" "cpp_round cpp_call l evs w1 = Some (Inr w2)" for evs w2
    using round_steps [OF c that] reaches_trans assms(2) by blast
  with c show ?thesis by blast
qed




section \<open>Instances\<close>

text \<open>
  A server \<open>4\<close> whose main loop \<open>0\<close> runs in thread 5 and whose only worker has loop \<open>1\<close> in thread
  7; the next client has descriptor 9. Then loop \<open>1\<close> with that client, seen from its thread.
\<close>

definition bare_loop :: "nat \<Rightarrow> int \<Rightarrow> (int \<times> int) \<Rightarrow> nat \<Rightarrow> cpp_loop" where
  "bare_loop tid ep pair wch =
     \<lparr>m_isQuit = False, m_dispatcher = \<lparr>epfd = ep, ep_set = [snd pair \<mapsto> EPOLLIN], ep_events = True\<rparr>, m_taskQ = [],
      m_channelMap = [snd pair \<mapsto> Some wch], m_threadID = tid, m_threadName = ''t'', m_socketPair = pair\<rparr>"

definition two_loops :: "env \<Rightarrow> (nat \<Rightarrow> cpp_io) \<Rightarrow> cpp_world" where
  "two_loops e io =
     \<lparr>x_loops = [0 \<mapsto> bare_loop 5 10 (11, 12) 2, 1 \<mapsto> bare_loop 7 20 (21, 22) 3],
      x_channels = [2 \<mapsto> newChannel 12 ReadEvent (Some ReadMessage) None None 0,
                    3 \<mapsto> newChannel 22 ReadEvent (Some ReadMessage) None None 1],
      x_conns = Map.empty, x_parts = Map.empty,
      x_servers = [4 \<mapsto> \<lparr>s_port = 10000, s_lfd = 8, s_threadNum = 1, s_mainLoop = 0,
         s_pool = \<lparr>tp_mainLoop = 0, tp_isStart = True, tp_threadNum = 1,
                   tp_workers = [\<lparr>wk_name = ''SubThread-0'', wk_evLoop = 1\<rparr>], tp_index = 0\<rparr>\<rparr>],
      x_next = 5, x_self = 5, x_open = (\<lambda>fd. fd \<in> {8, 10, 11, 12, 20, 21, 22}), x_inbox = (\<lambda>_. []), x_sent = (\<lambda>_. []),
      x_io = io, x_tick = 0, x_env = e\<rparr>"

lemma two_loops_quiet: "quiet (two_loops (small_env files) io) 4 1 9"
  by (simp add: quiet_def two_loops_def bare_loop_def small_env_def)

text \<open>The instance of an accepted client.\<close>

theorem cpp_accept_attaches_witness:
  "\<exists>w1 w2. cpp_call Accept 4 (two_loops (small_env Map.empty) (\<lambda>_. \<lparr>x_avail = None, x_sends = (\<lambda>_. SendErr), x_accept = 9, x_null = 1\<rparr>)) =
      Some (Inr w1) \<and>
    cpp_round cpp_call 1 [(EPOLLIN, 22)] (w1\<lparr>x_self := 7\<rparr>) = Some (Inr w2) \<and> awaiting w2 1 5 9"
proof -
  let ?w = "two_loops (small_env Map.empty) (\<lambda>_. \<lparr>x_avail = None, x_sends = (\<lambda>_. SendErr), x_accept = 9, x_null = 1\<rparr>)"
  have "x_accept (the_io ?w) = 9" by (simp add: the_io_def two_loops_def)
  moreover have "wake_fd ?w 1 = 22" "x_next ?w = 5" "map_option m_threadID (x_loops ?w 1) = Some 7"
    by (simp_all add: two_loops_def bare_loop_def wake_fd_def)
  ultimately show ?thesis using cpp_accept_attaches [OF two_loops_quiet] by fastforce
qed

text \<open>One client, nothing received.\<close>

definition one_client :: "env \<Rightarrow> string \<Rightarrow> cpp_world" where
  "one_client e s = (two_loops e (\<lambda>_. \<lparr>x_avail = Some s, x_sends = (\<lambda>_. SendOk 2147483647), x_accept = -1, x_null = 1\<rparr>))
     \<lparr>x_self := 7,
      x_loops := [1 \<mapsto> (bare_loop 7 20 (21, 22) 3)
        \<lparr>m_dispatcher := \<lparr>epfd = 20, ep_set = [22 \<mapsto> EPOLLIN, 9 \<mapsto> EPOLLIN], ep_events = True\<rparr>,
         m_channelMap := [22 \<mapsto> Some 3, 9 \<mapsto> Some 6]\<rparr>],
      x_channels := [3 \<mapsto> newChannel 22 ReadEvent (Some ReadMessage) None None 1, 6 \<mapsto> conn_channel_of 9 5],
      x_conns := [5 \<mapsto> \<lparr>m_name = ''Connection-9'', m_evLoop = 1, m_channel = 6\<rparr>],
      x_parts := [5 \<mapsto> fresh_parts], x_open := (\<lambda>fd. fd \<in> {9, 20, 21, 22}), x_next := 7\<rparr>"

lemma one_client_facts:
  "awaiting (one_client e s) 1 5 9" "consistent (one_client e s) 1" "x_avail (the_io (one_client e s)) = Some s"
  "eager (x_sends (the_io (one_client e s)))" "x_null (the_io (one_client e s)) = 1" "x_env (one_client e s) = e" "x_sent (one_client e s) 9 = []"
  "wake_fd (one_client e s) 1 = 22" "watched_fds (one_client e s) 1 = {9, 22}"
  by (simp_all add: awaiting_def attached_def one_client_def two_loops_def bare_loop_def the_io_def eager_def int_max_def
      wake_fd_def)
    (auto simp: consistent_def entry_live_def newChannel_def heap_bounded_def linked_def conn_of_def task_fds_def wake_channel_def
      one_client_def two_loops_def bare_loop_def watched_fds_def wake_fd_def)

lemma example_cpp_head:
  "cpp_head OK (sorted_headers [(''Content-type'', ''text/plain; charset=utf-8''), (''Content-length'', ''2'')]) @ ''hi'' =
     ''HTTP/1.1 200 OK'' @ crlf @ ''Content-length: 2'' @ crlf @ ''Content-type: text/plain; charset=utf-8'' @ crlf @ crlf @ ''hi''"
  by code_simp

text \<open>The instance of the answer to a GET.\<close>

theorem cpp_serves_get_witness:
  "\<exists>w'. cpp_round cpp_call 1 [(EPOLLIN, 9)]
      (one_client (small_env [''f'' \<mapsto> ''hi'']) (print_request ''GET'' ''/%66'' ''HTTP/1.1'' [(''Host'', ''a b'')])) = Some (Inr w') \<and>
    x_sent w' 9 = ''HTTP/1.1 200 OK'' @ crlf @ ''Content-length: 2'' @ crlf @
      ''Content-type: text/plain; charset=utf-8'' @ crlf @ crlf @ ''hi'' \<and> \<not> x_open w' 9"
proof -
  let ?e = "small_env [''f'' \<mapsto> ''hi'']" and ?s = "print_request ''GET'' ''/%66'' ''HTTP/1.1'' [(''Host'', ''a b'')]"
  let ?hs = "[(''Content-type'', ''text/plain; charset=utf-8''), (''Content-length'', ''2'')]"
  have "length ?s < 10240" by (simp add: print_request_def header_line_def)
  moreover have "strcasecmp_eq ''GET'' ''get''" by code_simp
  ultimately show ?thesis
    using cpp_serves_get [OF one_client_facts(1), of ?e ?s "''GET''" "''/%66''" "''HTTP/1.1''" "[(''Host'', ''a b'')]"
        OK "''OK''" ?hs SendFile "''f''" "''hi''"] one_client_facts(3-7) example_get example_cpp_head by auto
qed

text \<open>
  The instance of the bookkeeping: a client is accepted for the idle worker, whose next round watches
  its descriptor.
\<close>

definition idle_worker :: cpp_world where
  "idle_worker = (two_loops (small_env Map.empty) (\<lambda>_. \<lparr>x_avail = None, x_sends = (\<lambda>_. SendErr), x_accept = 9, x_null = 1\<rparr>))
     \<lparr>x_self := 7\<rparr>"

lemma idle_worker_facts:
  "consistent idle_worker 1" "wake_fd idle_worker 1 = 22" "watched_fds idle_worker 1 = {22}" "pending_fds idle_worker 1 = {}"
  "\<exists>lp. x_loops idle_worker 1 = Some lp \<and> m_threadID lp = x_self idle_worker \<and> snd (m_socketPair lp) = 22"
  by (simp_all add: idle_worker_def two_loops_def bare_loop_def wake_fd_def watched_fds_def pending_fds_def task_fds_def)
    (auto simp: consistent_def entry_live_def newChannel_def heap_bounded_def task_fds_def wake_channel_def two_loops_def bare_loop_def watched_fds_def wake_fd_def)

lemma idle_worker_accepts:
  "\<exists>w1 w2. main_accepts 1 9 idle_worker w1 \<and> cpp_round cpp_call 1 [(EPOLLIN, 22)] w1 = Some (Inr w2)"
proof -
  let ?io = "\<lambda>_. \<lparr>x_avail = None, x_sends = (\<lambda>_. SendErr), x_accept = 9, x_null = 1\<rparr> :: cpp_io"
  let ?w = "two_loops (small_env Map.empty) ?io"
  have s: "idle_worker\<lparr>x_self := 5\<rparr> = ?w" by (simp add: idle_worker_def two_loops_def)
  have io: "x_accept (the_io ?w) = 9" "x_accept (the_io idle_worker) = 9"
    by (simp_all add: the_io_def two_loops_def idle_worker_def)
  have l: "wake_fd ?w 1 = 22" "map_option m_threadID (x_loops ?w 1) = Some 7"
    by (simp_all add: two_loops_def bare_loop_def wake_fd_def)
  obtain w1 w2 where w: "cpp_call Accept 4 ?w = Some (Inr w1)"
    "cpp_round cpp_call 1 [(EPOLLIN, 22)] (w1\<lparr>x_self := 7\<rparr>) = Some (Inr w2)"
    using accept_step [OF two_loops_quiet io(1)] l by (metis option.inject)
  have pool: "\<exists>server pool. x_servers idle_worker 4 = Some server \<and> cpp_takeWorkerEventLoop (s_pool server) ?w = Inr (1, pool)"
    by (simp add: idle_worker_def two_loops_def cpp_takeWorkerEventLoop_def bare_loop_def Let_def)
  have "main_accepts 1 9 idle_worker (w1\<lparr>x_self := 7\<rparr>)"
    unfolding main_accepts_def
    by (rule exI [of _ 4], rule exI [of _ 5]) (use w(1) io s pool in \<open>auto simp: idle_worker_def two_loops_def bare_loop_def\<close>)
  with w(2) show ?thesis by blast
qed

theorem cpp_connections_consistent_witness:
  "\<exists>w1 w2. cpp_reaches 1 idle_worker w1 \<and> cpp_round cpp_call 1 [(EPOLLIN, 22)] w1 = Some (Inr w2) \<and>
    consistent w1 1 \<and> pending_fds w1 1 = {9} \<and> watched_fds w2 1 = {9, 22}"
proof -
  note f = idle_worker_facts
  obtain w1 w2 where w: "main_accepts 1 9 idle_worker w1" "cpp_round cpp_call 1 [(EPOLLIN, 22)] w1 = Some (Inr w2)"
    using idle_worker_accepts by blast
  note a = consistent_accepts [OF f(1) w(1)]
  have r: "cpp_reaches 1 idle_worker w1" by (rule cpp_reaches.reaches_accept [OF cpp_reaches.reaches_refl w(1)])
  obtain lp where lp: "x_loops idle_worker 1 = Some lp" "snd (m_socketPair lp) = 22" using f(5) by blast
  have "x_inbox w1 22 \<noteq> []" by (rule main_accepts_world [OF w(1) lp(1)]) (simp add: lp(2))
  then have "legal_report w1 1 [(EPOLLIN, 22)]" using a f by (simp add: legal_report_def legal_event_def)
  moreover have "readable_fds [(EPOLLIN, 22)] = {22}" by (auto simp: readable_fds_def readable_event_def)
  ultimately have "watched_fds w2 1 = {9, 22}"
    using cpp_connections_consistent [OF f(1) r] w(2) a f by auto
  with r w(2) a f show ?thesis by auto
qed



end
