(* ===== verification/CppDispatchers.thy ===== *)
theory CppDispatchers
  imports CppLoop Poll Select
begin

text \<open>
  \<^verbatim>\<open>ReactorHTTP-CPP/PollDispatcher.cpp\<close> and \<^verbatim>\<open>SelectDispatcher.cpp\<close>, the two
  dispatchers of the C++ rewrite its loop can be given instead of \<^verbatim>\<open>epoll\<close>. Their members
  are those of the C structs, and the records are shared. They are shown to keep the contract of
  \<open>Dispatcher\<close>; unlike its C ancestor, the modification of \<^verbatim>\<open>select\<close> changes what is watched,
  but never watches for both events.
\<close>

section \<open>The code: poll\<close>

definition newPollDispatcher :: poll_data where
  "newPollDispatcher = \<lparr>maxfd = 0, fds = replicate 1024 \<lparr>pfd = -1, pevents = 0, revents = 0\<rparr>\<rparr>"

definition cpp_poll_events :: "cpp_channel \<Rightarrow> 16 word" where
  "cpp_poll_events c =
     (if has_event (c_events c) ReadEvent then POLLIN else 0) OR
     (if has_event (c_events c) WriteEvent then POLLOUT else 0)"

definition cpp_poll_add :: "cpp_channel \<Rightarrow> poll_data \<Rightarrow> (int \<times> poll_data) res" where
  "cpp_poll_add c d =
     (let events = cpp_poll_events c in
      case find_slot (-1) (fds d) of
        None \<Rightarrow> Inr (-1, d)
      | Some i \<Rightarrow>
          Inr (0, d\<lparr>fds := (fds d)[i := (fds d ! i)\<lparr>pevents := events, pfd := c_fd c\<rparr>],
                    maxfd := (if int i > maxfd d then int i else maxfd d)\<rparr>))"

text \<open>Calling an empty \<^verbatim>\<open>destroyCallback\<close> throws.\<close>

definition cpp_poll_remove ::
  "('w \<Rightarrow> poll_data) \<Rightarrow> (poll_data \<Rightarrow> 'w \<Rightarrow> 'w) \<Rightarrow> (handler \<Rightarrow> nat \<Rightarrow> 'w \<Rightarrow> 'w res) \<Rightarrow>
   cpp_channel \<Rightarrow> 'w \<Rightarrow> (int \<times> 'w) res" where
  "cpp_poll_remove get upd destroy c w =
     (let d = get w; i = find_slot (c_fd c) (fds d);
          w = (case i of
                 None \<Rightarrow> w
               | Some i \<Rightarrow> upd (d\<lparr>fds := (fds d)[i := \<lparr>pfd = -1, pevents = 0, revents = 0\<rparr>]\<rparr>) w) in
      case c_destroy c of
        None \<Rightarrow> Inl Uncaught
      | Some f \<Rightarrow> bindR (destroy f (c_arg c) w) (\<lambda>w. Inr (if i = None then -1 else 0, w)))"

definition cpp_poll_modify :: "cpp_channel \<Rightarrow> poll_data \<Rightarrow> (int \<times> poll_data) res" where
  "cpp_poll_modify c d =
     (let events = cpp_poll_events c in
      case find_slot (c_fd c) (fds d) of
        None \<Rightarrow> Inr (-1, d)
      | Some i \<Rightarrow> Inr (0, d\<lparr>fds := (fds d)[i := (fds d ! i)\<lparr>pevents := events\<rparr>]\<rparr>))"

text \<open>The loop over the slots is that of the C code; a failure of \<^verbatim>\<open>poll\<close> ends the process.\<close>

definition cpp_poll_dispatch ::
  "('w \<Rightarrow> poll_data) \<Rightarrow> (poll_data \<Rightarrow> 'w \<Rightarrow> 'w) \<Rightarrow> (nat \<Rightarrow> 16 word) option \<Rightarrow>
   (int \<Rightarrow> 32 word \<Rightarrow> 'w \<Rightarrow> 'w run) \<Rightarrow> 'w \<Rightarrow> 'w run" where
  "cpp_poll_dispatch get upd ready activate w =
     (case ready of
        None \<Rightarrow> Some (Inl ProcessExit)
      | Some r \<Rightarrow> poll_loop get activate 0 (upd (poll_fill (Some r) (get w)) w))"

section \<open>The code: select\<close>

definition newSelectDispatcher :: select_data where
  "newSelectDispatcher = \<lparr>readSet = 0, writeSet = 0\<rparr>"

definition cpp_setFdSet :: "cpp_channel \<Rightarrow> select_data \<Rightarrow> select_data res" where
  "cpp_setFdSet c d =
     bindR (if has_event (c_events c) ReadEvent
            then bindR (FD_SET (c_fd c) (readSet d)) (\<lambda>s. Inr (d\<lparr>readSet := s\<rparr>)) else Inr d) (\<lambda>d.
     if has_event (c_events c) WriteEvent
     then bindR (FD_SET (c_fd c) (writeSet d)) (\<lambda>s. Inr (d\<lparr>writeSet := s\<rparr>)) else Inr d)"

definition cpp_clearFdSet :: "cpp_channel \<Rightarrow> select_data \<Rightarrow> select_data res" where
  "cpp_clearFdSet c d =
     bindR (if has_event (c_events c) ReadEvent
            then bindR (FD_CLR (c_fd c) (readSet d)) (\<lambda>s. Inr (d\<lparr>readSet := s\<rparr>)) else Inr d) (\<lambda>d.
     if has_event (c_events c) WriteEvent
     then bindR (FD_CLR (c_fd c) (writeSet d)) (\<lambda>s. Inr (d\<lparr>writeSet := s\<rparr>)) else Inr d)"

definition cpp_select_add :: "cpp_channel \<Rightarrow> select_data \<Rightarrow> (int \<times> select_data) res" where
  "cpp_select_add c d =
     (if c_fd c \<ge> 1024 then Inr (-1, d) else bindR (cpp_setFdSet c d) (\<lambda>d. Inr (0, d)))"

definition cpp_select_remove ::
  "('w \<Rightarrow> select_data) \<Rightarrow> (select_data \<Rightarrow> 'w \<Rightarrow> 'w) \<Rightarrow> (handler \<Rightarrow> nat \<Rightarrow> 'w \<Rightarrow> 'w res) \<Rightarrow>
   cpp_channel \<Rightarrow> 'w \<Rightarrow> (int \<times> 'w) res" where
  "cpp_select_remove get upd destroy c w =
     bindR (cpp_clearFdSet c (get w)) (\<lambda>d.
     case c_destroy c of
       None \<Rightarrow> Inl Uncaught
     | Some f \<Rightarrow> bindR (destroy f (c_arg c) (upd d w)) (\<lambda>w. Inr (0, w)))"

definition cpp_select_modify :: "cpp_channel \<Rightarrow> select_data \<Rightarrow> (int \<times> select_data) res" where
  "cpp_select_modify c d =
     bindR (if has_event (c_events c) ReadEvent
            then bindR (FD_SET (c_fd c) (readSet d)) (\<lambda>r.
                 bindR (FD_CLR (c_fd c) (writeSet d)) (\<lambda>s. Inr (d\<lparr>readSet := r, writeSet := s\<rparr>)))
            else Inr d) (\<lambda>d.
     bindR (if has_event (c_events c) WriteEvent
            then bindR (FD_SET (c_fd c) (writeSet d)) (\<lambda>s.
                 bindR (FD_CLR (c_fd c) (readSet d)) (\<lambda>r. Inr (d\<lparr>writeSet := s, readSet := r\<rparr>)))
            else Inr d) (\<lambda>d.
     Inr (0, d)))"

definition cpp_select_dispatch ::
  "('w \<Rightarrow> select_data) \<Rightarrow> (fd_set \<times> fd_set) option \<Rightarrow> (int \<Rightarrow> 32 word \<Rightarrow> 'w \<Rightarrow> 'w run) \<Rightarrow> 'w \<Rightarrow> 'w run" where
  "cpp_select_dispatch get ready activate w =
     (case ready of
        None \<Rightarrow> Some (Inl ProcessExit)
      | Some (r, s) \<Rightarrow>
          select_loop activate (readSet (get w) AND r) (writeSet (get w) AND s) [0..<1024] w)"

section \<open>The contract\<close>

text \<open>
  The requests of \<open>Dispatcher\<close>, made with channels of the rewrite. A removal calls back; the
  contract is about the data, with a callback that leaves them alone.
\<close>

definition cpp_of :: "channel \<Rightarrow> cpp_channel" where
  "cpp_of c = newChannel (ch_fd c) (ch_events c) None None (Some ConnDestroy) 0"

lemma cpp_of_simps [simp]:
  "c_fd (cpp_of c) = ch_fd c" "c_events (cpp_of c) = ch_events c" "c_destroy (cpp_of c) = Some ConnDestroy"
  by (simp_all add: cpp_of_def newChannel_def)

definition cpp_poll_remove_data :: "channel \<Rightarrow> poll_data \<Rightarrow> (int \<times> poll_data) res" where
  "cpp_poll_remove_data c = cpp_poll_remove (\<lambda>d. d) (\<lambda>d _. d) (\<lambda>_ _ d. Inr d) (cpp_of c)"

definition cpp_select_remove_data :: "channel \<Rightarrow> select_data \<Rightarrow> (int \<times> select_data) res" where
  "cpp_select_remove_data c = cpp_select_remove (\<lambda>d. d) (\<lambda>d _. d) (\<lambda>_ _ d. Inr d) (cpp_of c)"

lemma cpp_poll_events_c: "cpp_poll_events (cpp_of c) = poll_events c"
  by (simp add: cpp_poll_events_def poll_events_def)

lemma pollfd_order: "p\<lparr>pevents := e, pfd := f\<rparr> = p\<lparr>pfd := f, pevents := e\<rparr>"
  by (cases p) simp

lemma cpp_poll_add_c: "cpp_poll_add (cpp_of c) d = pollAdd c d"
  by (simp add: pollfd_order cpp_poll_add_def pollAdd_def cpp_poll_events_c Let_def split: option.split)

lemma cpp_poll_modify_c: "cpp_poll_modify (cpp_of c) d = pollModify c d"
  by (simp add: cpp_poll_modify_def pollModify_def cpp_poll_events_c Let_def)

interpretation cpppoll: modifying_watcher poll_inv poll_interest poll_room
  "\<lambda>c. cpp_poll_add (cpp_of c)" cpp_poll_remove_data "\<lambda>c. cpp_poll_modify (cpp_of c)"
proof unfold_locales
  show "\<exists>d'. cpp_poll_remove_data c d = Inr (0, d') \<and> poll_inv d' \<and>
      poll_interest d' = watch_step (Remove c) (poll_interest d)"
    if "poll_inv d" "op_legal poll_room (Remove c) (poll_interest d)" for d c
  proof -
    have "poll_remove_data c d = Inr (0, d') \<Longrightarrow> cpp_poll_remove_data c d = Inr (0, d')" for d'
      by (auto simp: poll_remove_data_def cpp_poll_remove_data_def pollRemove_def cpp_poll_remove_def Let_def
          split: option.splits if_splits)
    with pollw.remove_law [OF that] show ?thesis by blast
  qed
qed (simp_all only: cpp_poll_add_c cpp_poll_modify_c pollw.add_law pollw.modify_law)

lemma cpp_setFdSet_c: "cpp_setFdSet (cpp_of c) = setFdSet c"
  and cpp_clearFdSet_c: "cpp_clearFdSet (cpp_of c) = clearFdSet c"
  by (simp_all add: fun_eq_iff cpp_setFdSet_def setFdSet_def cpp_clearFdSet_def clearFdSet_def)

definition exclusive :: "watch \<Rightarrow> watch" where
  "exclusive w = (fst w \<and> \<not> snd w, snd w)"

lemma cpp_select_modify_value:
  assumes "0 \<le> c_fd c" and "c_fd c < 1024"
  shows "cpp_select_modify c d = Inr (0,
    if has_event (c_events c) WriteEvent
    then d\<lparr>readSet := unset_bit (nat (c_fd c)) (if has_event (c_events c) ReadEvent
             then Bit_Operations.set_bit (nat (c_fd c)) (readSet d) else readSet d),
           writeSet := Bit_Operations.set_bit (nat (c_fd c)) (if has_event (c_events c) ReadEvent
             then unset_bit (nat (c_fd c)) (writeSet d) else writeSet d)\<rparr>
    else if has_event (c_events c) ReadEvent
    then d\<lparr>readSet := Bit_Operations.set_bit (nat (c_fd c)) (readSet d), writeSet := unset_bit (nat (c_fd c)) (writeSet d)\<rparr>
    else d)"
  using assms by (cases d) (simp add: cpp_select_modify_def FD_SET_def FD_CLR_def)

interpretation cppselect: watcher "\<lambda>_. True" select_interest select_room
  "\<lambda>c. cpp_select_add (cpp_of c)" cpp_select_remove_data
proof unfold_locales
  have "cpp_select_add (cpp_of c) d = selectAdd c d" for c d
    by (simp add: cpp_select_add_def selectAdd_def SELECT_MAX_def cpp_setFdSet_c)
  then show "\<exists>d'. cpp_select_add (cpp_of c) d = Inr (0, d') \<and> True \<and>
      select_interest d' = watch_step (Add c) (select_interest d)"
    if "op_legal select_room (Add c) (select_interest d)" for d c using selectw.add_law [OF TrueI that] by simp
  have "select_remove_data c d = Inr (0, d') \<Longrightarrow> cpp_select_remove_data c d = Inr (0, d')" for c d d'
    by (auto simp: select_remove_data_def cpp_select_remove_data_def selectRemove_def cpp_select_remove_def
        cpp_clearFdSet_c clearFdSet_def res_simps split: if_splits)
  then show "\<exists>d'. cpp_select_remove_data c d = Inr (0, d') \<and> True \<and>
      select_interest d' = watch_step (Remove c) (select_interest d)"
    if "op_legal select_room (Remove c) (select_interest d)" for d c using selectw.remove_law [OF TrueI that] by blast
qed

section \<open>Properties\<close>

text \<open>
  The poll dispatcher of the rewrite watches what the loop asked for, along any sequence of
  additions, removals and modifications that never watches a descriptor twice, never more than
  1024 at a time, and removes or modifies only watched ones.
\<close>

theorem cpp_poll_watches_requests:
  assumes "ops_legal poll_room ops Map.empty"
  shows "\<exists>d. run_disp (\<lambda>c. cpp_poll_add (cpp_of c)) cpp_poll_remove_data (\<lambda>c. cpp_poll_modify (cpp_of c)) ops
      newPollDispatcher = Some d \<and> poll_inv d \<and> poll_interest d = fold watch_step ops Map.empty"
proof -
  have "newPollDispatcher = pollInit" by (simp add: newPollDispatcher_def pollInit_def POLL_MAX_def)
  with cpppoll.run_law [of newPollDispatcher ops] pollInit_inv assms show ?thesis by simp
qed

text \<open>
  C40. What modifying does with select in the rewrite, for every descriptor below 1024 and all events:
  the descriptor is watched for writing alone if the channel asks for writing, whether it asks
  for reading or not; for reading alone if that is all it asks for; and as before if it asks for
  nothing. No other descriptor changes.
\<close>

theorem cpp_select_modify_exclusive:
  assumes "0 \<le> c_fd c" and "c_fd c < 1024"
  defines "w \<equiv> (has_event (c_events c) ReadEvent, has_event (c_events c) WriteEvent)"
  shows "\<exists>d'. cpp_select_modify c d = Inr (0, d') \<and>
    select_interest d' = (if w = (False, False) then select_interest d else (select_interest d)(c_fd c \<mapsto> exclusive w))"
proof -
  let ?n = "nat (c_fd c)"
  have b: "bit (Bit_Operations.set_bit ?n s) k \<longleftrightarrow> bit s k \<or> k = ?n"
    "bit (unset_bit ?n s) k \<longleftrightarrow> bit s k \<and> k \<noteq> ?n" for s :: fd_set and k
    using assms(1,2) by (auto simp: bit_simps)
  obtain d' where d': "cpp_select_modify c d = Inr (0, d')" using cpp_select_modify_value [OF assms(1,2)] by blast
  have "select_interest d' fd =
      (if w = (False, False) then select_interest d else (select_interest d)(c_fd c \<mapsto> exclusive w)) fd" for fd
  proof -
    have n: "0 \<le> fd \<Longrightarrow> nat fd = ?n \<longleftrightarrow> fd = c_fd c" using assms(1) by auto
    have v: "d' = snd (projr (cpp_select_modify c d))" using d' by simp
    show ?thesis
      unfolding v cpp_select_modify_value [OF assms(1,2)] w_def
      by (cases "has_event (c_events c) ReadEvent"; cases "has_event (c_events c) WriteEvent"; cases "fd = c_fd c")
        (simp_all add: select_interest_def b exclusive_def assms(1), (use n in blast)+)
  qed
  with d' show ?thesis by (auto simp: fun_eq_iff)
qed

text \<open>The instance of a channel that asks for both events: it is no longer read.\<close>

theorem cpp_select_modify_exclusive_witness:
  "\<exists>d'. cpp_select_modify (newChannel 5 (ReadEvent OR WriteEvent) None None None 0)
      \<lparr>readSet = 0, writeSet = 0\<rparr> = Inr (0, d') \<and> select_interest d' 5 = Some (False, True)"
proof -
  have e: "has_event (ReadEvent OR WriteEvent) ReadEvent" "has_event (ReadEvent OR WriteEvent) WriteEvent"
    by (simp_all add: has_event_def ReadEvent_def WriteEvent_def)
  from cpp_select_modify_exclusive [of "newChannel 5 (ReadEvent OR WriteEvent) None None None 0" "\<lparr>readSet = 0, writeSet = 0\<rparr>"]
  show ?thesis using e by (auto simp: newChannel_def exclusive_def)
qed

text \<open>The instance of two descriptors, one of them removed.\<close>

theorem cpp_poll_watches_requests_witness:
  "let a = channelInit 5 ReadEvent None None None (LoopArg 0);
       b = channelInit 7 ReadEvent None None None (LoopArg 0) in
   \<exists>d. run_disp (\<lambda>c. cpp_poll_add (cpp_of c)) cpp_poll_remove_data (\<lambda>c. cpp_poll_modify (cpp_of c))
      [Add a, Add b, Remove b] newPollDispatcher = Some d \<and> poll_interest d = [5 \<mapsto> (True, False)]"
proof -
  let ?a = "channelInit 5 ReadEvent None None None (LoopArg 0)"
  let ?b = "channelInit 7 ReadEvent None None None (LoopArg 0)"
  have w: "watch_of ?a = (True, False)" "watch_of ?b = (True, False)"
    by (simp_all add: watch_of_def has_event_def channelInit_def ReadEvent_def WriteEvent_def)
  have fd: "ch_fd ?a = 5" "ch_fd ?b = 7" by (simp_all add: channelInit_def)
  have "ops_legal poll_room [Add ?a, Add ?b, Remove ?b] Map.empty" by (simp add: w fd poll_room_def)
  from cpp_poll_watches_requests [OF this] show ?thesis by (auto simp: Let_def w fd)
qed

end
