(* ===== verification/Locks.thy ===== *)
theory Locks
  imports Prelude "HOL-Library.Multiset"
begin

text \<open>
  \<^verbatim>\<open>Mutex.h\<close> of \<^verbatim>\<open>Coroutine/version2\<close> and of
  \<^verbatim>\<open>Coroutine/version3/base\<close>: the lock classes, which wrap POSIX objects, and the scoped
  guards every other file of the scheduler takes them with. The guards are the same for every
  kind of lock, so what they guarantee is proved once, in the locale \<open>lockable\<close>, from the laws of
  a lock, and holds for each class by interpretation. Any number of threads work with any number
  of guards on one lock; a step of a run is one call of one guard.

  A call that has to wait is \<open>None\<close>. POSIX gives no meaning to unlocking what the caller does not
  hold: the release of a lock is \<open>None\<close> then, and a theorem that it is \<open>Some\<close> says this does not
  happen. Taking once more what the thread itself holds for writing is \<open>None\<close> as well: POSIX lets
  that call wait for ever or fail, and the classes ignore a failure, so a run ends there.
\<close>

section \<open>The code: the locks\<close>

text \<open>What a lock is taken for; the exclusive kinds are only ever taken for writing.\<close>

datatype lock_mode = ReadMode | WriteMode

subsection \<open>\<open>Mutex\<close> and \<open>Spinlock\<close>: who holds it\<close>

type_synonym mutex_state = "nat option"

definition mutex_init :: mutex_state where
  "mutex_init = None"

definition mutex_acquire :: "nat \<Rightarrow> mutex_state \<Rightarrow> mutex_state option" where
  "mutex_acquire t s = (if s = None then Some (Some t) else None)"

definition mutex_release :: "nat \<Rightarrow> mutex_state \<Rightarrow> mutex_state option" where
  "mutex_release t s = (if s = Some t then Some None else None)"

definition spin_init :: mutex_state where
  "spin_init = None"

definition spin_acquire :: "nat \<Rightarrow> mutex_state \<Rightarrow> mutex_state option" where
  "spin_acquire t s = (if s = None then Some (Some t) else None)"

definition spin_release :: "nat \<Rightarrow> mutex_state \<Rightarrow> mutex_state option" where
  "spin_release t s = (if s = Some t then Some None else None)"

subsection \<open>\<open>RWMutex\<close>: one writer or any number of readers\<close>

record rw_state =
  rw_writer :: "nat option"
  rw_readers :: "nat multiset"

definition rw_init :: rw_state where
  "rw_init = \<lparr>rw_writer = None, rw_readers = {#}\<rparr>"

definition rdlock :: "nat \<Rightarrow> rw_state \<Rightarrow> rw_state option" where
  "rdlock t s = (if rw_writer s = None then Some (s\<lparr>rw_readers := add_mset t (rw_readers s)\<rparr>) else None)"

definition wrlock :: "nat \<Rightarrow> rw_state \<Rightarrow> rw_state option" where
  "wrlock t s = (if rw_writer s = None \<and> rw_readers s = {#} then Some (s\<lparr>rw_writer := Some t\<rparr>) else None)"

definition rw_unlock :: "nat \<Rightarrow> rw_state \<Rightarrow> rw_state option" where
  "rw_unlock t s =
     (if rw_writer s = Some t then Some (s\<lparr>rw_writer := None\<rparr>)
      else if t \<in># rw_readers s then Some (s\<lparr>rw_readers := rw_readers s - {#t#}\<rparr>)
      else None)"

subsection \<open>\<open>CASLock\<close>: a flag\<close>

text \<open>The loop of \<^verbatim>\<open>lock\<close> ends when the flag was clear. Anybody can clear it.\<close>

definition cas_init :: bool where
  "cas_init = False"

definition cas_acquire :: "nat \<Rightarrow> bool \<Rightarrow> bool option" where
  "cas_acquire t flag = (if flag then None else Some True)"

definition cas_release :: "nat \<Rightarrow> bool \<Rightarrow> bool option" where
  "cas_release t flag = Some False"

subsection \<open>\<open>NullMutex\<close> and \<open>NullRWMutex\<close>: nothing\<close>

definition null_acquire :: "nat \<Rightarrow> unit \<Rightarrow> unit option" where
  "null_acquire t s = Some ()"

definition null_release :: "nat \<Rightarrow> unit \<Rightarrow> unit option" where
  "null_release t s = Some ()"

definition null_rdlock :: "nat \<Rightarrow> unit \<Rightarrow> unit option" where
  "null_rdlock t s = Some ()"

definition null_wrlock :: "nat \<Rightarrow> unit \<Rightarrow> unit option" where
  "null_wrlock t s = Some ()"

definition null_rw_unlock :: "nat \<Rightarrow> unit \<Rightarrow> unit option" where
  "null_rw_unlock t s = Some ()"

section \<open>The code: the guards\<close>

text \<open>
  \<open>ScopedLockImpl\<close>, \<open>ReadScopedLockImpl\<close> and \<open>WriteScopedLockImpl\<close>. They differ in what they call
  to take the lock, \<open>acq\<close>; \<open>rel\<close> is its \<^verbatim>\<open>unlock\<close>. A guard belongs to the thread that made
  it.
\<close>

record scoped_lock =
  g_thread :: nat
  m_locked :: bool

definition scoped_new ::
  "(nat \<Rightarrow> 's \<Rightarrow> 's option) \<Rightarrow> nat \<Rightarrow> 's \<Rightarrow> (scoped_lock \<times> 's) option" where
  "scoped_new acq t s = map_option (\<lambda>s. (\<lparr>g_thread = t, m_locked = True\<rparr>, s)) (acq t s)"

definition scoped_relock ::
  "(nat \<Rightarrow> 's \<Rightarrow> 's option) \<Rightarrow> scoped_lock \<Rightarrow> 's \<Rightarrow> (scoped_lock \<times> 's) option" where
  "scoped_relock acq g s =
     (if \<not> m_locked g then map_option (\<lambda>s. (g\<lparr>m_locked := True\<rparr>, s)) (acq (g_thread g) s)
      else Some (g, s))"

definition scoped_unlock ::
  "(nat \<Rightarrow> 's \<Rightarrow> 's option) \<Rightarrow> scoped_lock \<Rightarrow> 's \<Rightarrow> (scoped_lock \<times> 's) option" where
  "scoped_unlock rel g s =
     (if m_locked g then map_option (\<lambda>s. (g\<lparr>m_locked := False\<rparr>, s)) (rel (g_thread g) s)
      else Some (g, s))"

definition scoped_delete :: "(nat \<Rightarrow> 's \<Rightarrow> 's option) \<Rightarrow> scoped_lock \<Rightarrow> 's \<Rightarrow> 's option" where
  "scoped_delete rel g s = map_option snd (scoped_unlock rel g s)"

text \<open>The guards for reading and for writing of a lock: the constructor, \<^verbatim>\<open>lock\<close> and \<^verbatim>\<open>unlock\<close>.\<close>

definition read_guard :: "nat \<Rightarrow> rw_state \<Rightarrow> (scoped_lock \<times> rw_state) option" where
  "read_guard = scoped_new rdlock"

definition write_guard :: "nat \<Rightarrow> rw_state \<Rightarrow> (scoped_lock \<times> rw_state) option" where
  "write_guard = scoped_new wrlock"

definition read_relock :: "scoped_lock \<Rightarrow> rw_state \<Rightarrow> (scoped_lock \<times> rw_state) option" where
  "read_relock = scoped_relock rdlock"

definition write_relock :: "scoped_lock \<Rightarrow> rw_state \<Rightarrow> (scoped_lock \<times> rw_state) option" where
  "write_relock = scoped_relock wrlock"

definition read_unlock :: "scoped_lock \<Rightarrow> rw_state \<Rightarrow> (scoped_lock \<times> rw_state) option" where
  "read_unlock = scoped_unlock rw_unlock"

definition write_unlock :: "scoped_lock \<Rightarrow> rw_state \<Rightarrow> (scoped_lock \<times> rw_state) option" where
  "write_unlock = scoped_unlock rw_unlock"

section \<open>Runs\<close>

text \<open>
  One call of one guard. \<open>acq m\<close> is what a guard of mode \<open>m\<close> calls; a guard keeps its mode, and
  the live guards are a list in no particular order.
\<close>

inductive gstep ::
  "(lock_mode \<Rightarrow> nat \<Rightarrow> 's \<Rightarrow> 's option) \<Rightarrow> (nat \<Rightarrow> 's \<Rightarrow> 's option) \<Rightarrow> lock_mode set \<Rightarrow>
   (lock_mode \<times> scoped_lock) list \<times> 's \<Rightarrow> (lock_mode \<times> scoped_lock) list \<times> 's \<Rightarrow> bool"
  for acq rel modes where
  g_new: "m \<in> modes \<Longrightarrow> scoped_new (acq m) t s = Some (g, s') \<Longrightarrow> gstep acq rel modes (gs, s) ((m, g) # gs, s')"
| g_lock: "scoped_relock (acq m) g s = Some (g', s') \<Longrightarrow>
    gstep acq rel modes (gs1 @ (m, g) # gs2, s) (gs1 @ (m, g') # gs2, s')"
| g_unlock: "scoped_unlock rel g s = Some (g', s') \<Longrightarrow>
    gstep acq rel modes (gs1 @ (m, g) # gs2, s) (gs1 @ (m, g') # gs2, s')"
| g_delete: "scoped_delete rel g s = Some s' \<Longrightarrow> gstep acq rel modes (gs1 @ (m, g) # gs2, s) (gs1 @ gs2, s')"

inductive_cases gstepE: "gstep acq rel modes c c'"

inductive guard_run for acq rel modes s0 where
  run_start: "guard_run acq rel modes s0 ([], s0)"
| run_step: "guard_run acq rel modes s0 c \<Longrightarrow> gstep acq rel modes c c' \<Longrightarrow> guard_run acq rel modes s0 c'"

text \<open>What the live guards hold.\<close>

definition held_by :: "(lock_mode \<times> scoped_lock) list \<Rightarrow> (lock_mode \<times> nat) multiset" where
  "held_by gs = mset (map (\<lambda>(m, g). (m, g_thread g)) (filter (\<lambda>(m, g). m_locked g) gs))"

lemma held_by_simps [simp]:
  "held_by [] = {#}"
  "held_by ((m, g) # gs) = (if m_locked g then add_mset (m, g_thread g) (held_by gs) else held_by gs)"
  "held_by (gs @ gs') = held_by gs + held_by gs'"
  by (simp_all add: held_by_def)

section \<open>The contract of a lock\<close>

text \<open>
  \<open>held s H\<close>: in state \<open>s\<close> the lock is taken exactly as in \<open>H\<close>, once for each pair of a mode and a
  thread. Two ways of holding it at once must be compatible.
\<close>

locale lockable =
  fixes acq :: "lock_mode \<Rightarrow> nat \<Rightarrow> 's \<Rightarrow> 's option"
    and rel :: "nat \<Rightarrow> 's \<Rightarrow> 's option"
    and modes :: "lock_mode set"
    and held :: "'s \<Rightarrow> (lock_mode \<times> nat) multiset \<Rightarrow> bool"
    and compatible :: "lock_mode \<Rightarrow> lock_mode \<Rightarrow> bool"
    and s0 :: 's
  assumes start: "held s0 {#}"
    and taking: "m \<in> modes \<Longrightarrow> held s H \<Longrightarrow> acq m t s = Some s' \<Longrightarrow> held s' (add_mset (m, t) H)"
    and giving: "held s H \<Longrightarrow> (m, t) \<in># H \<Longrightarrow> m \<in> modes \<Longrightarrow>
      \<exists>s'. rel t s = Some s' \<and> held s' (H - {#(m, t)#})"
    and free: "m \<in> modes \<Longrightarrow> held s {#} \<Longrightarrow> acq m t s \<noteq> None"
    and sharing: "held s (add_mset (m, t) (add_mset (m', t') H)) \<Longrightarrow> compatible m m'"
begin

lemma unlock_held:
  assumes "held s (held_by (gs1 @ (m, g) # gs2))" and "m \<in> modes"
  shows "\<exists>g' s'. scoped_unlock rel g s = Some (g', s') \<and> held s' (held_by (gs1 @ gs2)) \<and> \<not> m_locked g'"
proof (cases "m_locked g")
  case True
  then have "(m, g_thread g) \<in># held_by (gs1 @ (m, g) # gs2)" by simp
  from giving [OF assms(1) this assms(2)] True show ?thesis by (auto simp: scoped_unlock_def)
next
  case False
  then show ?thesis using assms(1) by (simp add: scoped_unlock_def)
qed

lemma step_held:
  assumes "gstep acq rel modes (gs, s) (gs', s')" and "held s (held_by gs)" and "fst ` set gs \<subseteq> modes"
  shows "held s' (held_by gs') \<and> fst ` set gs' \<subseteq> modes"
  using assms(1)
proof (cases rule: gstep.cases)
  case (g_new m t g)
  then show ?thesis using assms taking [of m s "held_by gs" t s'] by (auto simp: scoped_new_def)
next
  case (g_lock m g g' gs1 gs2)
  then show ?thesis
    using assms(2,3) taking [of m s "held_by gs" "g_thread g" s']
    by (cases "m_locked g") (auto simp: scoped_relock_def)
next
  case (g_unlock g g' gs1 m gs2)
  then show ?thesis using assms(2,3) unlock_held [of s gs1 m g gs2] by auto
next
  case (g_delete g gs1 m gs2)
  then show ?thesis using assms(2,3) unlock_held [of s gs1 m g gs2] by (auto simp: scoped_delete_def)
qed

lemma run_held:
  assumes "guard_run acq rel modes s0 c"
  shows "held (snd c) (held_by (fst c)) \<and> fst ` set (fst c) \<subseteq> modes"
  using assms
proof (induction rule: guard_run.induct)
  case run_start
  then show ?case using start by simp
next
  case (run_step c c')
  then show ?case using step_held [of "fst c" "snd c" "fst c'" "snd c'"] by simp
qed

lemma run_excludes:
  assumes "guard_run acq rel modes s0 (gs1 @ (m, g) # gs2 @ (m', g') # gs3, s)" and "m_locked g" and "m_locked g'"
  shows "compatible m m'"
proof -
  have "held s (add_mset (m, g_thread g) (add_mset (m', g_thread g') (held_by (gs1 @ gs2 @ gs3))))"
    using run_held [OF assms(1)] assms(2,3) by (simp add: ac_simps)
  then show ?thesis by (rule sharing)
qed

lemma run_excludes_nth:
  assumes "guard_run acq rel modes s0 (gs, s)" and "i < j" and "j < length gs"
    and "m_locked (snd (gs ! i))" and "m_locked (snd (gs ! j))"
  shows "compatible (fst (gs ! i)) (fst (gs ! j))"
proof -
  let ?rest = "drop (Suc i) gs"
  have ij: "j - Suc i < length ?rest" "?rest ! (j - Suc i) = gs ! j" using assms(2,3) by simp_all
  have "gs = take i gs @ gs ! i # ?rest" using assms(2,3) by (simp add: id_take_nth_drop)
  also have "?rest = take (j - Suc i) ?rest @ gs ! j # drop (Suc (j - Suc i)) ?rest"
    using id_take_nth_drop [OF ij(1)] ij(2) by simp
  finally show ?thesis
    using assms(1,4,5) run_excludes [of "take i gs" "fst (gs ! i)" "snd (gs ! i)" _ "fst (gs ! j)" "snd (gs ! j)" _ s]
    by (metis prod.collapse)
qed

lemma run_releases:
  assumes "guard_run acq rel modes s0 (gs, s)" and "(m, g) \<in> set gs"
  shows "scoped_unlock rel g s \<noteq> None \<and> scoped_delete rel g s \<noteq> None"
proof -
  from assms(2) obtain gs1 gs2 where gs: "gs = gs1 @ (m, g) # gs2" by (meson split_list)
  with run_held [OF assms(1)] unlock_held [of s gs1 m g gs2] show ?thesis by (auto simp: scoped_delete_def)
qed

lemma run_available:
  assumes "guard_run acq rel modes s0 (gs, s)" and "\<forall>(m, g) \<in> set gs. \<not> m_locked g" and "m \<in> modes"
  shows "scoped_new (acq m) t s \<noteq> None"
proof -
  have "held_by gs = {#}" using assms(2) by (auto simp: held_by_def filter_empty_conv)
  with run_held [OF assms(1)] free [OF assms(3), of s t] show ?thesis by (simp add: scoped_new_def)
qed

end

section \<open>The classes keep the contract\<close>

definition alone :: "lock_mode \<Rightarrow> lock_mode \<Rightarrow> bool" where
  "alone m m' = False"

definition readers :: "lock_mode \<Rightarrow> lock_mode \<Rightarrow> bool" where
  "readers m m' \<longleftrightarrow> m = ReadMode \<and> m' = ReadMode"

definition owner_is :: "mutex_state \<Rightarrow> (lock_mode \<times> nat) multiset \<Rightarrow> bool" where
  "owner_is s H \<longleftrightarrow> H = (case s of None \<Rightarrow> {#} | Some t \<Rightarrow> {#(WriteMode, t)#})"

definition rw_held :: "rw_state \<Rightarrow> (lock_mode \<times> nat) multiset \<Rightarrow> bool" where
  "rw_held s H \<longleftrightarrow> (case rw_writer s of
     None \<Rightarrow> H = image_mset (Pair ReadMode) (rw_readers s)
   | Some t \<Rightarrow> rw_readers s = {#} \<and> H = {#(WriteMode, t)#})"

definition rw_acquire :: "lock_mode \<Rightarrow> nat \<Rightarrow> rw_state \<Rightarrow> rw_state option" where
  "rw_acquire m = (case m of ReadMode \<Rightarrow> rdlock | WriteMode \<Rightarrow> wrlock)"

definition flag_held :: "bool \<Rightarrow> (lock_mode \<times> nat) multiset \<Rightarrow> bool" where
  "flag_held s H \<longleftrightarrow> (if s then \<exists>a. H = {#a#} else H = {#})"

lemma add_mset_single [simp]: "add_mset a (add_mset b M) \<noteq> {#c#}"
  by (auto dest: arg_cong [of _ _ size])

lemma owner_lockable:
  assumes acq: "\<And>t s. acq t s = (if s = None then Some (Some t) else None)"
    and rel: "\<And>t s. rel t s = (if s = Some t then Some None else None)"
  shows "lockable (\<lambda>_. acq) rel {WriteMode} owner_is alone None"
proof unfold_locales
  show "owner_is s' (add_mset (m, t) H)" if "m \<in> {WriteMode}" "owner_is s H" "acq t s = Some s'" for s H t s' m
    using that by (cases s) (auto simp: owner_is_def acq)
  show "\<exists>s'. rel t s = Some s' \<and> owner_is s' (H - {#(m, t)#})"
    if "owner_is s H" "(m, t) \<in># H" "m \<in> {WriteMode}" for s H m t
    using that by (cases s) (simp_all add: owner_is_def rel)
  show "acq t s \<noteq> None" if "owner_is s {#}" for s t
    using that by (cases s) (simp_all add: owner_is_def acq)
  show "alone m m'" if "owner_is s (add_mset (m, t) (add_mset (m', t') H))" for s m t m' t' H
    using that by (cases s) (simp_all add: owner_is_def)
qed (simp add: owner_is_def)

interpretation mutexl: lockable "\<lambda>_. mutex_acquire" mutex_release "{WriteMode}" owner_is alone mutex_init
  unfolding mutex_init_def by (rule owner_lockable) (simp_all add: mutex_acquire_def mutex_release_def)

interpretation spinl: lockable "\<lambda>_. spin_acquire" spin_release "{WriteMode}" owner_is alone spin_init
  unfolding spin_init_def by (rule owner_lockable) (simp_all add: spin_acquire_def spin_release_def)

interpretation casl: lockable "\<lambda>_. cas_acquire" cas_release "{WriteMode}" flag_held alone cas_init
proof unfold_locales
  show "\<exists>s'. cas_release t s = Some s' \<and> flag_held s' (H - {#(m, t)#})"
    if "flag_held s H" "(m, t) \<in># H" for s H m t
  proof -
    from that obtain a where "H = {#a#}" by (cases s) (auto simp: flag_held_def)
    with that(2) have "flag_held False (H - {#(m, t)#})" by (simp add: flag_held_def)
    then show ?thesis by (auto simp: cas_release_def)
  qed
  show "alone m m'" if "flag_held s (add_mset (m, t) (add_mset (m', t') H))" for s m t m' t' H
    using that by (cases s) (simp_all add: flag_held_def)
  show "flag_held s' (add_mset (m, t) H)" if "flag_held s H" "cas_acquire t s = Some s'" for s H t s' m
    using that by (cases s) (auto simp: flag_held_def cas_acquire_def)
  show "cas_acquire t s \<noteq> None" if "flag_held s {#}" for s t
    using that by (cases s) (simp_all add: flag_held_def cas_acquire_def)
qed (simp add: flag_held_def cas_init_def)

interpretation rwl: lockable rw_acquire rw_unlock UNIV rw_held readers rw_init
proof unfold_locales
  show "\<exists>s'. rw_unlock t s = Some s' \<and> rw_held s' (H - {#(m, t)#})"
    if "rw_held s H" "(m, t) \<in># H" for s H m t
  proof (cases "rw_writer s")
    case None
    with that have "H = image_mset (Pair ReadMode) (rw_readers s)" "m = ReadMode" "t \<in># rw_readers s"
      by (auto simp: rw_held_def)
    with None show ?thesis by (simp add: rw_unlock_def rw_held_def image_mset_Diff)
  next
    case (Some u)
    with that show ?thesis by (auto simp: rw_unlock_def rw_held_def)
  qed
  show "readers m m'" if "rw_held s (add_mset (m, t) (add_mset (m', t') H))" for s m t m' t' H
  proof (cases "rw_writer s")
    case None
    with that have e: "image_mset (Pair ReadMode) (rw_readers s) = add_mset (m, t) (add_mset (m', t') H)"
      by (simp add: rw_held_def)
    have "\<forall>a \<in># image_mset (Pair ReadMode) (rw_readers s). fst a = ReadMode" by auto
    then show ?thesis unfolding e readers_def by simp
  next
    case (Some u)
    with that show ?thesis by (simp add: rw_held_def)
  qed
qed (auto simp: rw_held_def rw_init_def rw_acquire_def rdlock_def wrlock_def split: lock_mode.splits option.splits if_splits)

interpretation nulll: lockable "\<lambda>_. null_acquire" null_release UNIV "\<lambda>_ _. True" "\<lambda>_ _. True" "()"
  by unfold_locales (simp_all add: null_acquire_def null_release_def)

section \<open>What the guards guarantee\<close>

lemma held_locked: "(m, g) \<in> set gs \<Longrightarrow> m_locked g \<Longrightarrow> held_by gs \<noteq> {#}"
  by (auto simp: held_by_def filter_empty_conv)

lemma held_nothing: "\<forall>(m, g) \<in> set gs. \<not> m_locked g \<Longrightarrow> held_by gs = {#}"
  by (auto simp: held_by_def filter_empty_conv)

text \<open>
  Whatever any number of threads do with guards on one \<^verbatim>\<open>Mutex\<close> - making them, locking and
  unlocking them again and again, in any order, deleting them locked or not - at most one guard is
  locked at any time; no guard ever unlocks a mutex its thread does not hold; while a guard is
  locked everybody who wants the mutex waits, its own thread too; and when no guard is locked the
  mutex is free.
\<close>

theorem mutex_guards_exclude:
  assumes run: "guard_run (\<lambda>_. mutex_acquire) mutex_release {WriteMode} mutex_init (gs, s)"
  shows "(\<forall>i j. i < j \<and> j < length gs \<longrightarrow> \<not> (m_locked (snd (gs ! i)) \<and> m_locked (snd (gs ! j)))) \<and>
    (\<forall>(m, g) \<in> set gs. scoped_unlock mutex_release g s \<noteq> None \<and> scoped_delete mutex_release g s \<noteq> None) \<and>
    (if \<exists>(m, g) \<in> set gs. m_locked g then \<forall>t. scoped_new mutex_acquire t s = None else s = mutex_init)"
proof -
  have h: "owner_is s (held_by gs)" using mutexl.run_held [OF run] by simp
  have "\<forall>t. scoped_new mutex_acquire t s = None" if "(m, g) \<in> set gs" "m_locked g" for m g
    using h held_locked [OF that] by (cases s) (simp_all add: owner_is_def scoped_new_def mutex_acquire_def)
  moreover have "s = mutex_init" if "\<not> (\<exists>(m, g) \<in> set gs. m_locked g)"
    using h held_nothing [of gs] that by (cases s) (auto simp: owner_is_def mutex_init_def)
  ultimately show ?thesis
    using mutexl.run_excludes_nth [OF run] mutexl.run_releases [OF run] by (auto simp: alone_def)
qed

text \<open>
  C32. The guards of a \<^verbatim>\<open>RWMutex\<close>: two guards are locked at once only if both are for reading; no
  guard unlocks what its thread does not hold, although one \<^verbatim>\<open>unlock\<close> serves readers and
  writers; as long as any guard is locked, whoever wants to write waits, so that a thread that
  still has its read guard waits for itself; and without a locked guard the lock is free.
\<close>

theorem rw_guards_share:
  assumes run: "guard_run rw_acquire rw_unlock UNIV rw_init (gs, s)"
  shows "(\<forall>i j. i < j \<and> j < length gs \<and> m_locked (snd (gs ! i)) \<and> m_locked (snd (gs ! j)) \<longrightarrow>
       fst (gs ! i) = ReadMode \<and> fst (gs ! j) = ReadMode) \<and>
    (\<forall>(m, g) \<in> set gs. read_unlock g s \<noteq> None \<and> write_unlock g s \<noteq> None \<and> scoped_delete rw_unlock g s \<noteq> None) \<and>
    (if \<exists>(m, g) \<in> set gs. m_locked g then \<forall>t. write_guard t s = None else s = rw_init)"
proof -
  have h: "rw_held s (held_by gs)" using rwl.run_held [OF run] by simp
  have "\<forall>t. write_guard t s = None" if "(m, g) \<in> set gs" "m_locked g" for m g
    using h held_locked [OF that]
    by (auto simp: rw_held_def write_guard_def scoped_new_def wrlock_def split: option.splits)
  moreover have "s = rw_init" if "\<not> (\<exists>(m, g) \<in> set gs. m_locked g)"
  proof -
    have "held_by gs = {#}" using that by (intro held_nothing) auto
    with h show ?thesis by (cases s) (auto simp: rw_held_def rw_init_def split: option.splits)
  qed
  ultimately show ?thesis
    using rwl.run_excludes_nth [OF run] rwl.run_releases [OF run] by (auto simp: readers_def read_unlock_def write_unlock_def)
qed

text \<open>
  The spinning locks of version 3 exclude as the mutex does. A \<^verbatim>\<open>CASLock\<close> does not know
  who holds it: its guards are safe, but a bare \<^verbatim>\<open>unlock\<close> by a thread that does not hold
  it lets a second one in.
\<close>

theorem spinning_guards_exclude:
  "(guard_run (\<lambda>_. spin_acquire) spin_release {WriteMode} spin_init (gs, s) \<longrightarrow>
     (\<forall>i j. i < j \<and> j < length gs \<longrightarrow> \<not> (m_locked (snd (gs ! i)) \<and> m_locked (snd (gs ! j))))) \<and>
   (guard_run (\<lambda>_. cas_acquire) cas_release {WriteMode} cas_init (gs, f) \<longrightarrow>
     (\<forall>i j. i < j \<and> j < length gs \<longrightarrow> \<not> (m_locked (snd (gs ! i)) \<and> m_locked (snd (gs ! j))))) \<and>
   (t \<noteq> t' \<longrightarrow> cas_acquire t cas_init = Some True \<and> cas_release t' True = Some cas_init \<and> mutex_release t' (Some t) = None)"
  using spinl.run_excludes_nth [of gs s] casl.run_excludes_nth [of gs f]
  by (auto simp: alone_def cas_acquire_def cas_release_def cas_init_def mutex_release_def)

section \<open>The code: semaphores\<close>

text \<open>
  A wait on a semaphore at 0 is \<open>None\<close>; a wait that a signal interrupts throws, as does a
  \<^verbatim>\<open>sem_post\<close> at the largest value.
\<close>

definition sem_value_max :: nat where
  "sem_value_max = 2147483647"

definition sem_new :: "32 word \<Rightarrow> nat res" where
  "sem_new n = (if unat n > sem_value_max then Inl Uncaught else Inr (unat n))"

definition sem_waits :: "bool \<Rightarrow> nat \<Rightarrow> nat run" where
  "sem_waits interrupted n =
     (if n > 0 then Some (Inr (n - 1)) else if interrupted then Some (Inl Uncaught) else None)"

definition sem_notify :: "nat \<Rightarrow> nat res" where
  "sem_notify n = (if n < sem_value_max then Inr (n + 1) else Inl Uncaught)"

text \<open>Calls on one semaphore that return, \<open>True\<close> for \<^verbatim>\<open>notify\<close>.\<close>

inductive sem_run :: "nat \<Rightarrow> bool list \<Rightarrow> nat \<Rightarrow> bool" for n0 where
  sem_start: "sem_run n0 [] n0"
| sem_up: "sem_run n0 cs n \<Longrightarrow> sem_notify n = Inr n' \<Longrightarrow> sem_run n0 (True # cs) n'"
| sem_down: "sem_run n0 cs n \<Longrightarrow> sem_waits i n = Some (Inr n') \<Longrightarrow> sem_run n0 (False # cs) n'"

text \<open>
  A semaphore counts: no more waits have returned than there were notifications and initial
  units, and the next wait returns at once exactly while some are left.
\<close>

theorem semaphore_counts:
  assumes "sem_run n0 cs n"
  shows "n + count_list cs False = n0 + count_list cs True \<and> (n0 \<le> sem_value_max \<longrightarrow> n \<le> sem_value_max) \<and>
    (sem_waits False n = None \<longleftrightarrow> count_list cs False = n0 + count_list cs True)"
proof -
  have "n + count_list cs False = n0 + count_list cs True \<and> (n0 \<le> sem_value_max \<longrightarrow> n \<le> sem_value_max)"
    using assms by induction (auto simp: sem_notify_def sem_waits_def split: if_splits)
  then show ?thesis by (auto simp: sem_waits_def)
qed

section \<open>Instances\<close>

lemma two_readers:
  "guard_run rw_acquire rw_unlock UNIV rw_init
     ([(ReadMode, \<lparr>g_thread = 2, m_locked = True\<rparr>), (ReadMode, \<lparr>g_thread = 1, m_locked = True\<rparr>)],
      \<lparr>rw_writer = None, rw_readers = {#1, 2#}\<rparr>)"
proof -
  have "gstep rw_acquire rw_unlock UNIV ([], rw_init)
      ([(ReadMode, \<lparr>g_thread = 1, m_locked = True\<rparr>)], \<lparr>rw_writer = None, rw_readers = {#1#}\<rparr>)"
    by (rule gstep.g_new) (simp_all add: scoped_new_def rw_acquire_def rdlock_def rw_init_def)
  moreover have "gstep rw_acquire rw_unlock UNIV ([(ReadMode, \<lparr>g_thread = 1, m_locked = True\<rparr>)], \<lparr>rw_writer = None, rw_readers = {#1#}\<rparr>)
      ([(ReadMode, \<lparr>g_thread = 2, m_locked = True\<rparr>), (ReadMode, \<lparr>g_thread = 1, m_locked = True\<rparr>)],
       \<lparr>rw_writer = None, rw_readers = {#1, 2#}\<rparr>)"
    by (rule gstep.g_new) (simp_all add: scoped_new_def rw_acquire_def rdlock_def)
  ultimately show ?thesis by (meson run_start run_step)
qed

text \<open>The instance of two readers: a third thread cannot write.\<close>

theorem rw_guards_share_witness:
  "write_guard 3 \<lparr>rw_writer = None, rw_readers = {#1, 2#}\<rparr> = None \<and>
   read_unlock \<lparr>g_thread = 2, m_locked = True\<rparr> \<lparr>rw_writer = None, rw_readers = {#1, 2#}\<rparr> \<noteq> None"
  using rw_guards_share [OF two_readers] by simp

text \<open>The instance of one locked guard: everybody else waits.\<close>

theorem mutex_guards_exclude_witness:
  "scoped_new mutex_acquire 2 (Some 1) = None \<and> scoped_new mutex_acquire 1 (Some 1) = None"
proof -
  have "gstep (\<lambda>_. mutex_acquire) mutex_release {WriteMode} ([], mutex_init) ([(WriteMode, \<lparr>g_thread = 1, m_locked = True\<rparr>)], Some 1)"
    by (rule gstep.g_new) (simp_all add: scoped_new_def mutex_acquire_def mutex_init_def)
  then have "guard_run (\<lambda>_. mutex_acquire) mutex_release {WriteMode} mutex_init ([(WriteMode, \<lparr>g_thread = 1, m_locked = True\<rparr>)], Some 1)"
    by (meson run_start run_step)
  from mutex_guards_exclude [OF this] show ?thesis by simp
qed

text \<open>The instance of a notification and the wait for it.\<close>

theorem semaphore_counts_witness: "sem_waits False 0 = None"
proof -
  have "sem_run 0 [] 0" by (rule sem_start)
  then have "sem_run 0 [True] 1" by (rule sem_up) (simp add: sem_notify_def sem_value_max_def)
  then have "sem_run 0 [False, True] 0" by (rule sem_down [of _ _ _ False]) (simp add: sem_waits_def)
  from semaphore_counts [OF this] show ?thesis by simp
qed

end
