(* ===== verification/Threads.thy ===== *)
theory Threads
  imports Locks
begin

text \<open>
  \<^verbatim>\<open>Coroutine/version2/Thread.cpp\<close>: a thread object is made by one thread and filled in by
  the new one, which tells the constructor through a semaphore when it is done. The two run in any
  order. A callback is a number; the object and the variables the new thread has of its own are
  parts of one state.
\<close>

section \<open>The code: the object\<close>

record thread_obj =
  th_cb :: "nat option"
  th_name :: string
  th_id :: int
  th_thread :: bool

definition thread_obj_init :: "nat \<Rightarrow> string \<Rightarrow> thread_obj" where
  "thread_obj_init cb name =
     \<lparr>th_cb = Some cb, th_name = (if name = [] then ''UNKNOW'' else name), th_id = -1, th_thread = False\<rparr>"

text \<open>The answer of \<^verbatim>\<open>pthread_join\<close> is an argument.\<close>

definition thread_join :: "int \<Rightarrow> thread_obj \<Rightarrow> thread_obj res" where
  "thread_join rt th =
     (if th_thread th then (if rt \<noteq> 0 then Inl Uncaught else Inr (th\<lparr>th_thread := False\<rparr>)) else Inr th)"

text \<open>The destructor detaches a thread nobody has joined.\<close>

definition thread_detached :: "thread_obj \<Rightarrow> bool" where
  "thread_detached th \<longleftrightarrow> th_thread th"

text \<open>\<open>own\<close> is the object \<^verbatim>\<open>t_thread\<close> points to, if any; the second result is \<^verbatim>\<open>t_thread_name\<close>.\<close>

definition thread_SetName :: "string \<Rightarrow> thread_obj option \<Rightarrow> string \<Rightarrow> thread_obj option \<times> string" where
  "thread_SetName name own current =
     (if name = [] then (own, current) else (map_option (\<lambda>th. th\<lparr>th_name := name\<rparr>) own, name))"

section \<open>The code: the constructor and the new thread\<close>

datatype creator_pc = CStart | CWait | CBack | CThrown
datatype runner_pc = RNone | REntry | RNamed | RIdent | RSwapped | RNotified | REnded

record creation =
  c_pc :: creator_pc
  r_pc :: runner_pc
  obj :: thread_obj
  sem :: nat
  own_thread :: bool
  own_name :: string
  own_cb :: "nat option"
  called :: "nat list"

definition creation_init :: "nat \<Rightarrow> string \<Rightarrow> creation" where
  "creation_init cb name =
     \<lparr>c_pc = CStart, r_pc = RNone, obj = thread_obj_init cb name, sem = 0, own_thread = False,
      own_name = ''UNKNOW'', own_cb = None, called = []\<rparr>"

text \<open>
  \<open>tid\<close> is the kernel's number of the new thread. \<^verbatim>\<open>sem_wait\<close> may be interrupted while it
  waits; the constructor throws then, as it does when \<^verbatim>\<open>pthread_create\<close> fails.
\<close>

inductive thread_step :: "int \<Rightarrow> creation \<Rightarrow> creation \<Rightarrow> bool" for tid where
  c_create: "c_pc s = CStart \<Longrightarrow>
    thread_step tid s (s\<lparr>c_pc := CWait, r_pc := REntry, obj := (obj s)\<lparr>th_thread := True\<rparr>\<rparr>)"
| c_fail: "c_pc s = CStart \<Longrightarrow> thread_step tid s (s\<lparr>c_pc := CThrown\<rparr>)"
| c_wait: "c_pc s = CWait \<Longrightarrow> sem_waits i (sem s) = Some (Inr n) \<Longrightarrow> thread_step tid s (s\<lparr>c_pc := CBack, sem := n\<rparr>)"
| c_interrupt: "c_pc s = CWait \<Longrightarrow> sem_waits True (sem s) = Some (Inl e) \<Longrightarrow> thread_step tid s (s\<lparr>c_pc := CThrown\<rparr>)"
| r_local: "r_pc s = REntry \<Longrightarrow>
    thread_step tid s (s\<lparr>r_pc := RNamed, own_thread := True, own_name := th_name (obj s)\<rparr>)"
| r_ident: "r_pc s = RNamed \<Longrightarrow> thread_step tid s (s\<lparr>r_pc := RIdent, obj := (obj s)\<lparr>th_id := tid\<rparr>\<rparr>)"
| r_swap: "r_pc s = RIdent \<Longrightarrow>
    thread_step tid s (s\<lparr>r_pc := RSwapped, own_cb := th_cb (obj s), obj := (obj s)\<lparr>th_cb := None\<rparr>\<rparr>)"
| r_notify: "r_pc s = RSwapped \<Longrightarrow> sem_notify (sem s) = Inr n \<Longrightarrow> thread_step tid s (s\<lparr>r_pc := RNotified, sem := n\<rparr>)"
| r_call: "r_pc s = RNotified \<Longrightarrow> own_cb s = Some f \<Longrightarrow> thread_step tid s (s\<lparr>r_pc := REnded, called := called s @ [f]\<rparr>)"

inductive_cases thread_stepE: "thread_step tid s s'"

inductive created :: "int \<Rightarrow> nat \<Rightarrow> string \<Rightarrow> creation \<Rightarrow> bool" for tid cb name where
  created_init: "created tid cb name (creation_init cb name)"
| created_step: "created tid cb name s \<Longrightarrow> thread_step tid s s' \<Longrightarrow> created tid cb name s'"

section \<open>The invariant\<close>

text \<open>The points of the new thread, in the order of its program.\<close>

fun runner_index :: "runner_pc \<Rightarrow> nat" where
  "runner_index RNone = 0"
| "runner_index REntry = 1"
| "runner_index RNamed = 2"
| "runner_index RIdent = 3"
| "runner_index RSwapped = 4"
| "runner_index RNotified = 5"
| "runner_index REnded = 6"

lemma runner_index_inject: "runner_index p = runner_index q \<Longrightarrow> p = q"
  by (cases p; cases q) simp_all

instantiation runner_pc :: linorder
begin

definition less_eq_runner_pc :: "runner_pc \<Rightarrow> runner_pc \<Rightarrow> bool" where
  "p \<le> q \<longleftrightarrow> runner_index p \<le> runner_index q"

definition less_runner_pc :: "runner_pc \<Rightarrow> runner_pc \<Rightarrow> bool" where
  "p < q \<longleftrightarrow> runner_index p < runner_index q"

instance
  by standard (auto simp: less_eq_runner_pc_def less_runner_pc_def intro: runner_index_inject)

end

lemmas runner_order [simp] = less_eq_runner_pc_def less_runner_pc_def

text \<open>The new thread has given its notification.\<close>

definition told :: "creation \<Rightarrow> bool" where
  "told s \<longleftrightarrow> RNotified \<le> r_pc s"

definition creation_inv :: "int \<Rightarrow> nat \<Rightarrow> string \<Rightarrow> creation \<Rightarrow> bool" where
  "creation_inv tid cb name s \<longleftrightarrow>
     (c_pc s = CStart \<longrightarrow> r_pc s = RNone) \<and> (r_pc s = RNone \<longrightarrow> c_pc s \<in> {CStart, CThrown}) \<and>
     th_name (obj s) = (if name = [] then ''UNKNOW'' else name) \<and>
     (own_thread s \<longleftrightarrow> RNamed \<le> r_pc s) \<and>
     (own_thread s \<longrightarrow> own_name s = th_name (obj s)) \<and>
     (th_id (obj s) = (if r_pc s < RIdent then -1 else tid)) \<and>
     (if RSwapped \<le> r_pc s then own_cb s = Some cb \<and> th_cb (obj s) = None
      else th_cb (obj s) = Some cb) \<and>
     sem s = (if told s \<and> c_pc s \<noteq> CBack then 1 else 0) \<and> (c_pc s = CBack \<longrightarrow> told s) \<and>
     called s = (if r_pc s = REnded then [cb] else [])"

lemma creation_inv_step:
  assumes "creation_inv tid cb name s" and "thread_step tid s s'"
  shows "creation_inv tid cb name s'"
  using assms(2)
proof (cases rule: thread_step.cases)
  case (c_wait i n)
  with assms(1) show ?thesis
    by (cases "r_pc s") (simp_all add: creation_inv_def told_def sem_waits_def split: if_splits)
next
  case (r_notify n)
  with assms(1) show ?thesis
    by (cases "c_pc s") (simp_all add: creation_inv_def told_def sem_notify_def sem_value_max_def)
next
  case (r_call f)
  with assms(1) show ?thesis by (cases "c_pc s") (simp_all add: creation_inv_def told_def)
qed (use assms(1) in \<open>cases "c_pc s"; cases "r_pc s"; simp add: creation_inv_def told_def\<close>)+

lemma created_inv: "created tid cb name s \<Longrightarrow> creation_inv tid cb name s"
proof (induction rule: created.induct)
  case created_init
  show ?case by (simp add: creation_inv_def creation_init_def thread_obj_init_def told_def)
qed (rule creation_inv_step)

section \<open>Progress\<close>

fun creator_rank :: "creator_pc \<Rightarrow> nat" where
  "creator_rank CStart = 2"
| "creator_rank CWait = 1"
| "creator_rank CBack = 0"
| "creator_rank CThrown = 0"

fun runner_rank :: "runner_pc \<Rightarrow> nat" where
  "runner_rank RNone = 0"
| "runner_rank REntry = 5"
| "runner_rank RNamed = 4"
| "runner_rank RIdent = 3"
| "runner_rank RSwapped = 2"
| "runner_rank RNotified = 1"
| "runner_rank REnded = 0"

definition creation_rank :: "creation \<Rightarrow> nat" where
  "creation_rank s = creator_rank (c_pc s) + (if c_pc s = CStart then 5 else runner_rank (r_pc s))"

lemma creation_rank_step:
  "creation_inv tid cb name s \<Longrightarrow> thread_step tid s s' \<Longrightarrow> creation_rank s' < creation_rank s"
  by (erule thread_stepE) (auto simp: creation_rank_def creation_inv_def)

lemma creation_progress:
  assumes inv: "creation_inv tid cb name s" and stuck: "\<nexists>s'. thread_step tid s s'"
  shows "c_pc s = CBack \<and> r_pc s = REnded \<or> c_pc s = CThrown \<and> r_pc s \<in> {RNone, REnded}"
proof -
  have "c_pc s \<noteq> CStart" using stuck by (blast intro: c_create)
  moreover have "r_pc s \<notin> {REntry, RNamed, RIdent}" using stuck by (blast intro: r_local r_ident r_swap)
  moreover have "r_pc s \<noteq> RSwapped"
  proof
    assume pc: "r_pc s = RSwapped"
    with inv have "sem_notify (sem s) = Inr 1"
      by (simp add: creation_inv_def told_def sem_notify_def sem_value_max_def)
    with pc stuck show False by (blast intro: r_notify)
  qed
  moreover have "r_pc s \<noteq> RNotified"
  proof
    assume pc: "r_pc s = RNotified"
    with inv have "own_cb s = Some cb" by (simp add: creation_inv_def)
    with pc stuck show False by (blast intro: r_call)
  qed
  ultimately have r: "c_pc s \<noteq> CStart" "r_pc s = RNone \<or> r_pc s = REnded" by (cases "r_pc s"; simp)+
  moreover have "c_pc s \<noteq> CWait"
  proof
    assume pc: "c_pc s = CWait"
    with inv r(2) have "r_pc s = REnded" by (auto simp: creation_inv_def)
    with pc inv have "sem_waits False (sem s) = Some (Inr 0)" by (simp add: creation_inv_def told_def sem_waits_def)
    with pc stuck show False by (blast intro: c_wait)
  qed
  moreover have "c_pc s = CBack \<Longrightarrow> r_pc s \<noteq> RNone" using inv by (simp add: creation_inv_def)
  ultimately show ?thesis by (cases "c_pc s") auto
qed

lemma creation_rank_bound:
  assumes "created tid cb name s" shows "creation_rank s \<le> 7"
  using assms
proof (induction rule: created.induct)
  case (created_step s s')
  from creation_rank_step [OF created_inv [OF created_step.hyps(1)] created_step.hyps(2)] created_step.IH
  show ?case by simp
qed (simp add: creation_init_def creation_rank_def)

section \<open>Properties\<close>

text \<open>
  C33. Before a new thread gives its notification it has taken everything it needs from the object, and
  after that it never writes the object again: its own name is set, its number is in the object, the callback has moved to the new
  thread. The callback is called at most once and only after the notification; that may be
  before the constructor has returned. When the constructor has returned, the notification has been
  given and taken, and from then on neither of the two writes the object and the
  semaphore stays at 0, so that the object may be deleted while the callback runs.
\<close>

theorem thread_ready_when_back:
  assumes run: "created tid cb name s"
  shows "(if c_pc s = CBack
      then th_id (obj s) = tid \<and> th_cb (obj s) = None \<and> own_name s = th_name (obj s) \<and> own_cb s = Some cb \<and> sem s = 0
      else sem s \<le> 1) \<and>
    called s = (if r_pc s = REnded then [cb] else []) \<and> (c_pc s = CBack \<or> called s \<noteq> [] \<longrightarrow> told s) \<and>
    (told s \<longrightarrow> th_id (obj s) = tid \<and> th_cb (obj s) = None \<and> own_name s = th_name (obj s) \<and> own_cb s = Some cb \<and>
       (\<forall>s'. thread_step tid s s' \<longrightarrow> obj s' = obj s)) \<and>
    (\<forall>s'. thread_step tid s s' \<and> c_pc s = CBack \<longrightarrow> obj s' = obj s \<and> sem s' = sem s \<and> c_pc s' = CBack)"
proof -
  note inv = created_inv [OF run]
  have "obj s' = obj s \<and> sem s' = sem s \<and> c_pc s' = CBack" if "thread_step tid s s'" "c_pc s = CBack" for s'
    using that inv by (cases rule: thread_step.cases) (auto simp: creation_inv_def told_def)
  moreover have "obj s' = obj s" if "thread_step tid s s'" "told s" for s'
    using that inv by (cases rule: thread_step.cases) (auto simp: creation_inv_def told_def)
  moreover have "c_pc s = CBack \<or> called s \<noteq> [] \<longrightarrow> told s" using inv by (auto simp: creation_inv_def told_def)
  moreover have "told s \<longrightarrow> th_id (obj s) = tid \<and> th_cb (obj s) = None \<and> own_name s = th_name (obj s) \<and> own_cb s = Some cb"
    using inv by (auto simp: creation_inv_def told_def)
  moreover have "if c_pc s = CBack
      then th_id (obj s) = tid \<and> th_cb (obj s) = None \<and> own_name s = th_name (obj s) \<and> own_cb s = Some cb \<and> sem s = 0
      else sem s \<le> 1" "called s = (if r_pc s = REnded then [cb] else [])"
    using inv by (auto simp: creation_inv_def told_def)
  ultimately show ?thesis by blast
qed

text \<open>
  C34. Making a thread always ends, in whatever order the two threads run: no run has more than seven
  steps, and one that cannot go on has a constructor that is back and a callback that has been
  called, or a constructor that has thrown and a thread that was never made or has ended. A
  notification that comes before the wait is not lost.
\<close>

theorem thread_creation_ends:
  assumes run: "created tid cb name s"
  shows "creation_rank s \<le> 7 \<and> (\<forall>s'. thread_step tid s s' \<longrightarrow> creation_rank s' < creation_rank s) \<and>
    ((\<nexists>s'. thread_step tid s s') \<longrightarrow>
      c_pc s = CBack \<and> called s = [cb] \<or> c_pc s = CThrown \<and> r_pc s \<in> {RNone, REnded})"
proof -
  note inv = created_inv [OF run]
  have "called s = [cb]" if "r_pc s = REnded" using inv that by (simp add: creation_inv_def)
  with creation_progress [OF inv] creation_rank_step [OF inv] creation_rank_bound [OF run] show ?thesis by blast
qed

text \<open>
  A signal that interrupts the wait makes the constructor throw while the new thread is running:
  the object is gone and the thread still fills it in.
\<close>

theorem thread_interrupted:
  "\<exists>s s'. created tid cb name s \<and> c_pc s = CThrown \<and> thread_step tid s s' \<and> obj s' \<noteq> obj s"
proof -
  let ?s = "\<lparr>c_pc = CThrown, r_pc = RIdent, obj = (thread_obj_init cb name)\<lparr>th_thread := True, th_id := tid\<rparr>, sem = 0,
    own_thread = True, own_name = th_name (thread_obj_init cb name), own_cb = None, called = []\<rparr>"
  let ?i = "creation_init cb name"
  let ?a = "?i\<lparr>c_pc := CWait, r_pc := REntry, obj := (obj ?i)\<lparr>th_thread := True\<rparr>\<rparr>"
  let ?b = "?a\<lparr>c_pc := CThrown\<rparr>"
  let ?c = "?b\<lparr>r_pc := RNamed, own_thread := True, own_name := th_name (obj ?b)\<rparr>"
  let ?d = "?c\<lparr>r_pc := RIdent, obj := (obj ?c)\<lparr>th_id := tid\<rparr>\<rparr>"
  let ?e = "?d\<lparr>r_pc := RSwapped, own_cb := th_cb (obj ?d), obj := (obj ?d)\<lparr>th_cb := None\<rparr>\<rparr>"
  have "thread_step tid ?i ?a" by (rule c_create) (simp add: creation_init_def)
  moreover have "thread_step tid ?a ?b" by (rule c_interrupt) (simp_all add: creation_init_def sem_waits_def)
  moreover have "thread_step tid ?b ?c" by (rule r_local) simp
  moreover have "thread_step tid ?c ?d" by (rule r_ident) simp
  ultimately have d: "created tid cb name ?d" by (meson created_init created_step)
  have e: "thread_step tid ?d ?e" by (rule r_swap) simp
  have "obj ?e \<noteq> obj ?d"
  proof
    assume "obj ?e = obj ?d"
    then have "th_cb (obj ?e) = th_cb (obj ?d)" by simp
    then show False by (simp add: creation_init_def thread_obj_init_def)
  qed
  with d e show ?thesis by (intro exI [of _ ?d] exI [of _ ?e]) (simp add: creation_init_def)
qed

section \<open>Instances\<close>

text \<open>A run of the two threads up to the return of the constructor.\<close>

lemma back_run:
  "\<exists>s. created 7 1 ''worker'' s \<and> c_pc s = CBack \<and> r_pc s = RNotified"
proof -
  let ?i = "creation_init 1 ''worker''"
  let ?a = "?i\<lparr>c_pc := CWait, r_pc := REntry, obj := (obj ?i)\<lparr>th_thread := True\<rparr>\<rparr>"
  let ?b = "?a\<lparr>r_pc := RNamed, own_thread := True, own_name := th_name (obj ?a)\<rparr>"
  let ?c = "?b\<lparr>r_pc := RIdent, obj := (obj ?b)\<lparr>th_id := 7\<rparr>\<rparr>"
  let ?d = "?c\<lparr>r_pc := RSwapped, own_cb := th_cb (obj ?c), obj := (obj ?c)\<lparr>th_cb := None\<rparr>\<rparr>"
  let ?e = "?d\<lparr>r_pc := RNotified, sem := 1\<rparr>"
  let ?f = "?e\<lparr>c_pc := CBack, sem := 0\<rparr>"
  have "thread_step 7 ?i ?a" by (rule c_create) (simp add: creation_init_def)
  moreover have "thread_step 7 ?a ?b" by (rule r_local) simp
  moreover have "thread_step 7 ?b ?c" by (rule r_ident) simp
  moreover have "thread_step 7 ?c ?d" by (rule r_swap) simp
  moreover have "thread_step 7 ?d ?e"
    by (rule r_notify) (simp_all add: creation_init_def sem_notify_def sem_value_max_def)
  moreover have "thread_step 7 ?e ?f" by (rule c_wait [of _ False]) (simp_all add: sem_waits_def)
  ultimately have "created 7 1 ''worker'' ?f" by (meson created_init created_step)
  then show ?thesis by (intro exI [of _ ?f]) simp
qed

text \<open>The instance of that run: the object is filled in, the callback has not run yet.\<close>

theorem thread_ready_when_back_witness:
  "\<exists>s. created 7 1 ''worker'' s \<and> c_pc s = CBack \<and> th_id (obj s) = 7 \<and> own_cb s = Some 1 \<and> called s = []"
proof -
  obtain s where s: "created 7 1 ''worker'' s" "c_pc s = CBack" "r_pc s = RNotified" using back_run by blast
  from thread_ready_when_back [OF s(1)] s show ?thesis by (intro exI [of _ s]) simp
qed

text \<open>The instance of the thread that has not been made yet: it can take a step.\<close>

theorem thread_creation_ends_witness: "\<exists>s'. thread_step 7 (creation_init 1 ''worker'') s'"
proof -
  have "c_pc (creation_init 1 ''worker'') = CStart" by (simp add: creation_init_def)
  with thread_creation_ends [OF created_init [of 7 1 "''worker''"]] show ?thesis by auto
qed

end
