(* ===== verification/FibersV1.thy ===== *)
theory FibersV1
  imports Fibers "HOL-Library.Multiset"
begin

text \<open>
  \<^verbatim>\<open>Coroutine/version1\<close>: the first fibers of the repository and the list of tasks that runs
  them, in one thread. The callback of a fiber is code of the client, a parameter: a point of the
  client's code, and \<open>prog\<close> says what the code does at a point and where it goes on. It may come
  back to a point it was at, make fibers that run the same code as itself, and never end. Of the
  library it calls the constructor, \<^verbatim>\<open>schedule\<close> and \<^verbatim>\<open>yield\<close>. The states of a
  fiber are those of version 2.
\<close>

section \<open>The code: fibers\<close>

text \<open>
  \<open>New\<close> gives the code the address of the fiber it has made; \<open>Done\<close> is the return of the callback.
\<close>

datatype 'pc client = Print string 'pc | New 'pc "nat \<Rightarrow> 'pc" | Sched nat 'pc | Yield 'pc | Done

text \<open>
  A saved context. \<open>V1Entry\<close>: \<^verbatim>\<open>makecontext\<close> has set it to the start of \<^verbatim>\<open>MainFunc\<close>;
  \<open>V1End\<close>: the end of \<^verbatim>\<open>MainFunc\<close>, after its own \<^verbatim>\<open>yield\<close>.
\<close>

datatype 'pc v1_context = V1None | V1Entry | V1At 'pc | V1End

record 'pc fiber1 =
  f_id :: "64 word"
  f_cb :: "'pc option"
  f_stacksize :: "32 word"
  f_state :: fiber_state
  f_ctx :: "'pc v1_context"
  f_stack :: bool

record 'pc world1 =
  v_fib :: "nat \<Rightarrow> 'pc fiber1 option"
  v_this :: "nat option"
  v_main :: "nat option"
  v_fiber_id :: "64 word"
  v_fiber_count :: "64 word"
  v_next :: nat
  v_tasks :: "nat list"
  v_out :: string

definition set_fiber :: "nat \<Rightarrow> ('pc fiber1 \<Rightarrow> 'pc fiber1) \<Rightarrow> 'pc world1 \<Rightarrow> 'pc world1" where
  "set_fiber a f w = w\<lparr>v_fib := (v_fib w)(a := map_option f (v_fib w a))\<rparr>"

definition v1_SetThis :: "nat option \<Rightarrow> 'pc world1 \<Rightarrow> 'pc world1" where
  "v1_SetThis f w = w\<lparr>v_this := f\<rparr>"

text \<open>The private constructor.\<close>

definition v1_main_fiber :: "'pc world1 \<Rightarrow> nat \<times> 'pc world1" where
  "v1_main_fiber w =
     (let a = v_next w; w = v1_SetThis (Some a) w in
      (a, w\<lparr>v_next := Suc a, v_fiber_count := v_fiber_count w + 1, v_fiber_id := v_fiber_id w + 1,
            v_fib := (v_fib w)(a \<mapsto> \<lparr>f_id = v_fiber_id w, f_cb = None, f_stacksize = 0, f_state = FRunning,
                                       f_ctx = V1None, f_stack = False\<rparr>)\<rparr>))"

text \<open>The public constructor; \<open>run_in_scheduler\<close> is not stored.\<close>

definition v1_new :: "'pc \<Rightarrow> 64 word \<Rightarrow> bool \<Rightarrow> 'pc world1 \<Rightarrow> nat \<times> 'pc world1" where
  "v1_new cb stacksize run_in_scheduler w =
     (let a = v_next w in
      (a, w\<lparr>v_next := Suc a, v_fiber_count := v_fiber_count w + 1, v_fiber_id := v_fiber_id w + 1,
            v_fib := (v_fib w)(a \<mapsto> \<lparr>f_id = v_fiber_id w, f_cb = Some cb,
              f_stacksize = ucast (if stacksize \<noteq> 0 then stacksize else g_fiber_stack_size),
              f_state = FReady, f_ctx = V1Entry, f_stack = True\<rparr>)\<rparr>))"

definition v1_GetThis :: "'pc world1 \<Rightarrow> nat \<times> 'pc world1" where
  "v1_GetThis w =
     (case v_this w of
        Some a \<Rightarrow> (a, w)
      | None \<Rightarrow> (let (a, w) = v1_main_fiber w in (a, w\<lparr>v_main := Some a\<rparr>)))"

definition v1_schedule :: "nat \<Rightarrow> 'pc world1 \<Rightarrow> 'pc world1" where
  "v1_schedule task w = w\<lparr>v_tasks := v_tasks w @ [task]\<rparr>"

text \<open>Back to the main fiber: where the fiber goes on is saved in its context.\<close>

definition v1_yield :: "nat \<Rightarrow> 'pc v1_context \<Rightarrow> 'pc world1 \<Rightarrow> 'pc world1 res" where
  "v1_yield a ctx w =
     bindR (lookup (v_fib w) a) (\<lambda>f.
     if f_state f \<noteq> FRunning \<and> f_state f \<noteq> FTerm then Inl AssertFail
     else if v_main w = None then Inl NullDeref
     else
       (let w = v1_SetThis (v_main w) w;
            f = (if f_state f \<noteq> FTerm then f\<lparr>f_state := FReady\<rparr> else f) in
        Inr (w\<lparr>v_fib := (v_fib w)(a \<mapsto> f\<lparr>f_ctx := ctx\<rparr>)\<rparr>)))"

text \<open>
  \<^verbatim>\<open>MainFunc\<close> of fiber \<open>a\<close> from a point of its callback on, up to the next
  \<^verbatim>\<open>yield\<close>: that of the callback, or the one after its return. A callback that does
  neither keeps the thread for ever.
\<close>

partial_function (option) v1_segment ::
  "('pc \<Rightarrow> 'pc client) \<Rightarrow> nat \<Rightarrow> 'pc \<Rightarrow> 'pc world1 \<Rightarrow> 'pc world1 run" where
  "v1_segment prog a pc w =
     (case prog pc of
        Print s pc' \<Rightarrow> v1_segment prog a pc' (w\<lparr>v_out := v_out w @ s\<rparr>)
      | New cb k \<Rightarrow> v1_segment prog a (k (fst (v1_new cb 0 True w))) (snd (v1_new cb 0 True w))
      | Sched b pc' \<Rightarrow> v1_segment prog a pc' (v1_schedule b w)
      | Yield pc' \<Rightarrow> Some (v1_yield a (V1At pc') w)
      | Done \<Rightarrow> Some (v1_yield a V1End (set_fiber a (\<lambda>f. f\<lparr>f_cb := None, f_state := FTerm\<rparr>) w)))"

text \<open>A context without \<^verbatim>\<open>uc_link\<close> ends the process when its function returns.\<close>

definition v1_resume :: "('pc \<Rightarrow> 'pc client) \<Rightarrow> nat \<Rightarrow> 'pc world1 \<Rightarrow> 'pc world1 run" where
  "v1_resume prog a w =
     bindO (Some (lookup (v_fib w) a)) (\<lambda>f.
     if f_state f = FTerm \<or> f_state f = FRunning then Some (Inl AssertFail)
     else
       (let w = set_fiber a (\<lambda>f. f\<lparr>f_state := FRunning\<rparr>) (v1_SetThis (Some a) w) in
        if v_main w = None then Some (Inl NullDeref)
        else case f_ctx f of
          V1At pc \<Rightarrow> v1_segment prog a pc w
        | V1Entry \<Rightarrow> (case f_cb f of None \<Rightarrow> Some (Inl Uncaught) | Some cb \<Rightarrow> v1_segment prog a cb w)
        | V1End \<Rightarrow> Some (Inl ProcessExit)
        | V1None \<Rightarrow> Some (Inl UseAfterFree)))"

text \<open>\<^verbatim>\<open>assert(m_state = TERM)\<close> is an assignment; it holds always.\<close>

definition v1_reset :: "nat \<Rightarrow> 'pc \<Rightarrow> 'pc world1 \<Rightarrow> 'pc world1 res" where
  "v1_reset a cb w =
     bindR (lookup (v_fib w) a) (\<lambda>f.
     if \<not> f_stack f then Inl AssertFail
     else
       (let f = f\<lparr>f_state := FTerm\<rparr> in
        Inr (w\<lparr>v_fib := (v_fib w)(a \<mapsto> f\<lparr>f_cb := Some cb, f_ctx := V1Entry, f_state := FReady\<rparr>)\<rparr>)))"

definition v1_TotalFibers :: "'pc world1 \<Rightarrow> 64 word" where
  "v1_TotalFibers w = v_fiber_count w"

definition v1_GetFiberId :: "'pc world1 \<Rightarrow> 64 word" where
  "v1_GetFiberId w = v_fiber_id w"

section \<open>The code: the scheduler\<close>

text \<open>
  The iterator is moved on and its old element erased before the task runs: when there is no
  next element at that time, the loop ends after the task, whatever the task has appended.
\<close>

partial_function (option) v1_run :: "('pc \<Rightarrow> 'pc client) \<Rightarrow> 'pc world1 \<Rightarrow> 'pc world1 run" where
  "v1_run prog w =
     (case v_tasks w of
        [] \<Rightarrow> Some (Inr w)
      | task # rest \<Rightarrow>
          bindO (v1_resume prog task (w\<lparr>v_tasks := rest\<rparr>)) (\<lambda>w.
          if rest = [] then Some (Inr w) else v1_run prog w))"

text \<open>The callback \<^verbatim>\<open>std::bind(testFiber, i)\<close>, at its start and after its line.\<close>

datatype test_pc = TestFiber int | TestEnd

fun testFiber :: "test_pc \<Rightarrow> test_pc client" where
  "testFiber (TestFiber i) = Print (''hello niu0217 '' @ dec_int i @ [CHR 0x0A]) TestEnd"
| "testFiber TestEnd = Done"

definition add_test :: "int \<Rightarrow> test_pc world1 \<Rightarrow> test_pc world1" where
  "add_test i w = (let (a, w) = v1_new (TestFiber i) 0 True w in v1_schedule a w)"

definition v1_main :: "test_pc world1 \<Rightarrow> test_pc world1 run" where
  "v1_main w = (let (_, w) = v1_GetThis w; w = fold add_test [0..9] w in v1_run testFiber w)"

section \<open>One resumption\<close>

text \<open>
  What the code does from a point up to its next \<^verbatim>\<open>yield\<close>, when it comes to one: it prints
  \<open>out\<close>, makes fibers with the callbacks \<open>cbs\<close> - at the addresses from \<open>n\<close> on -, schedules \<open>ts\<close>,
  and yields (\<open>nx\<close> is where it goes on) or returns (\<open>nx\<close> is \<open>None\<close>).
\<close>

inductive code_seg ::
  "('pc \<Rightarrow> 'pc client) \<Rightarrow> nat \<Rightarrow> 'pc \<Rightarrow> string \<Rightarrow> 'pc list \<Rightarrow> nat list \<Rightarrow> 'pc option \<Rightarrow> bool" for prog where
  Done: "prog pc = Done \<Longrightarrow> code_seg prog n pc [] [] [] None"
| Yield: "prog pc = Yield pc' \<Longrightarrow> code_seg prog n pc [] [] [] (Some pc')"
| Print: "prog pc = Print s pc' \<Longrightarrow> code_seg prog n pc' out cbs ts nx \<Longrightarrow> code_seg prog n pc (s @ out) cbs ts nx"
| Sched: "prog pc = Sched b pc' \<Longrightarrow> code_seg prog n pc' out cbs ts nx \<Longrightarrow> code_seg prog n pc out cbs (b # ts) nx"
| New: "prog pc = New cb k \<Longrightarrow> code_seg prog (Suc n) (k n) out cbs ts nx \<Longrightarrow> code_seg prog n pc out (cb # cbs) ts nx"

text \<open>The point a fiber that is not running goes on from.\<close>

definition next_code :: "'pc fiber1 \<Rightarrow> 'pc option" where
  "next_code f = (case f_ctx f of V1At pc \<Rightarrow> Some pc | V1Entry \<Rightarrow> f_cb f | _ \<Rightarrow> None)"

definition ready1 :: "'pc world1 \<Rightarrow> nat \<Rightarrow> 'pc \<Rightarrow> bool" where
  "ready1 w a pc \<longleftrightarrow> (\<exists>f. v_fib w a = Some f \<and> f_state f = FReady \<and> next_code f = Some pc)"

text \<open>A fiber after its segment, and one that has just been made.\<close>

definition stopped :: "'pc option \<Rightarrow> 'pc fiber1 \<Rightarrow> 'pc fiber1" where
  "stopped nx f = (case nx of Some pc \<Rightarrow> f\<lparr>f_state := FReady, f_ctx := V1At pc\<rparr>
                            | None \<Rightarrow> f\<lparr>f_cb := None, f_state := FTerm, f_ctx := V1End\<rparr>)"

definition just_made :: "'pc \<Rightarrow> 'pc fiber1 option \<Rightarrow> bool" where
  "just_made cb x \<longleftrightarrow> (\<exists>f. x = Some f \<and> f_cb f = Some cb \<and> f_state f = FReady \<and> f_ctx f = V1Entry)"


text \<open>What a segment of fiber \<open>a\<close> changes.\<close>

definition effect ::
  "nat \<Rightarrow> string \<Rightarrow> 'pc list \<Rightarrow> nat list \<Rightarrow> 'pc option \<Rightarrow> 'pc world1 \<Rightarrow> 'pc world1 \<Rightarrow> bool" where
  "effect a out cbs ts nx w w' \<longleftrightarrow>
     v_out w' = v_out w @ out \<and> v_tasks w' = v_tasks w @ ts \<and> v_next w' = v_next w + length cbs \<and>
     v_main w' = v_main w \<and> v_fib w' a = map_option (stopped nx) (v_fib w a) \<and>
     (\<forall>i < length cbs. just_made (cbs ! i) (v_fib w' (v_next w + i))) \<and>
     (\<forall>b. b \<noteq> a \<and> b \<notin> {v_next w..<v_next w + length cbs} \<longrightarrow> v_fib w' b = v_fib w b)"

lemma segment_runs:
  assumes "code_seg prog (v_next w) pc out cbs ts nx" and "v_fib w a = Some f" "f_state f = FRunning"
    and "v_main w \<noteq> None" "a < v_next w"
  shows "\<exists>w'. v1_segment prog a pc w = Some (Inr w') \<and> effect a out cbs ts nx w w'"
  using assms
proof (induction "v_next w" pc out cbs ts nx arbitrary: w rule: code_seg.induct)
  case (Done pc)
  then show ?case
    by (subst v1_segment.simps)
      (auto simp: v1_yield_def set_fiber_def v1_SetThis_def effect_def stopped_def Let_def)
next
  case (Yield pc pc')
  then show ?case
    by (subst v1_segment.simps) (auto simp: v1_yield_def v1_SetThis_def effect_def stopped_def Let_def)
next
  case (Print pc s pc' out cbs ts nx)
  from Print.hyps(3) [of "w\<lparr>v_out := v_out w @ s\<rparr>"] Print.prems
  obtain w' where "v1_segment prog a pc' (w\<lparr>v_out := v_out w @ s\<rparr>) = Some (Inr w')"
    "effect a out cbs ts nx (w\<lparr>v_out := v_out w @ s\<rparr>) w'" by auto
  then show ?case using Print.hyps(1) by (subst v1_segment.simps) (auto simp: effect_def)
next
  case (Sched pc b pc' out cbs ts nx)
  from Sched.hyps(3) [of "v1_schedule b w"] Sched.prems
  obtain w' where "v1_segment prog a pc' (v1_schedule b w) = Some (Inr w')"
    "effect a out cbs ts nx (v1_schedule b w) w'" by (auto simp: v1_schedule_def)
  then show ?case using Sched.hyps(1) by (subst v1_segment.simps) (auto simp: effect_def v1_schedule_def)
next
  case (New pc cb k out cbs ts nx)
  let ?v = "snd (v1_new cb 0 True w)"
  have v: "v_next ?v = Suc (v_next w)" "v_main ?v = v_main w" "v_out ?v = v_out w" "v_tasks ?v = v_tasks w"
    "fst (v1_new cb 0 True w) = v_next w" "just_made cb (v_fib ?v (v_next w))"
    "\<And>b. b \<noteq> v_next w \<Longrightarrow> v_fib ?v b = v_fib w b"
    by (simp_all add: v1_new_def just_made_def Let_def)
  have a: "a \<noteq> v_next w" using New.prems(4) by simp
  from New.hyps(3) [of ?v] New.prems v(1,2) v(7) [OF a]
  obtain w' where w': "v1_segment prog a (k (v_next w)) ?v = Some (Inr w')" "effect a out cbs ts nx ?v w'" by auto
  have "just_made ((cb # cbs) ! i) (v_fib w' (v_next w + i))" if i: "i < length (cb # cbs)" for i
  proof (cases i)
    case 0
    have "v_fib w' (v_next w) = v_fib ?v (v_next w)" using w'(2) a v(1) by (simp add: effect_def)
    with 0 v(6) show ?thesis by simp
  next
    case (Suc j)
    with w'(2) v(1) i show ?thesis by (simp add: effect_def)
  qed
  moreover have "v_fib w' b = v_fib w b" if b: "b \<noteq> a" "b \<notin> {v_next w..<v_next w + length (cb # cbs)}" for b
  proof -
    from b(2) have "b \<noteq> v_next w" "b \<notin> {v_next ?v..<v_next ?v + length cbs}" using v(1) by auto
    with w'(2) b(1) v(7) show ?thesis unfolding effect_def by metis
  qed
  ultimately have "effect a out (cb # cbs) ts nx w w'"
    using w'(2) a v(1-4) v(7) [OF a] by (simp add: effect_def)
  then show ?case using w'(1) New.hyps(1) v(5) by (subst v1_segment.simps) simp
qed

text \<open>A segment comes back only if the code comes to a \<^verbatim>\<open>yield\<close> or to its end.\<close>

lemma segment_returns_seg:
  assumes "v1_segment prog a pc w = Some r"
  shows "\<exists>out cbs ts nx. code_seg prog (v_next w) pc out cbs ts nx"
proof (rule v1_segment.raw_induct [where P = "\<lambda>prog a pc w r. \<exists>out cbs ts nx. code_seg prog (v_next w) pc out cbs ts nx", OF _ assms])
  fix seg and prog :: "'c \<Rightarrow> 'c client" and a pc w r
  assume IH: "\<And>prog a pc w r. seg prog a pc w = Some r \<Longrightarrow> \<exists>out cbs ts nx. code_seg prog (v_next w) pc out cbs ts nx"
    and r: "(case prog pc of Print s pc' \<Rightarrow> seg prog a pc' (w\<lparr>v_out := v_out w @ s\<rparr>)
      | New cb k \<Rightarrow> seg prog a (k (fst (v1_new cb 0 True w))) (snd (v1_new cb 0 True w))
      | Sched b pc' \<Rightarrow> seg prog a pc' (v1_schedule b w)
      | Yield pc' \<Rightarrow> Some (v1_yield a (V1At pc') w)
      | Done \<Rightarrow> Some (v1_yield a V1End (set_fiber a (\<lambda>f. f\<lparr>f_cb := None, f_state := FTerm\<rparr>) w))) = Some r"
  show "\<exists>out cbs ts nx. code_seg prog (v_next w) pc out cbs ts nx"
  proof (cases "prog pc")
    case (Print s pc')
    with r IH [of prog a pc' "w\<lparr>v_out := v_out w @ s\<rparr>" r] show ?thesis by simp (metis code_seg.Print)
  next
    case (New cb k)
    with r IH [of prog a "k (v_next w)" "snd (v1_new cb 0 True w)" r] show ?thesis
      by (simp add: v1_new_def Let_def) (metis code_seg.New)
  next
    case (Sched b pc')
    with r IH [of prog a pc' "v1_schedule b w" r] show ?thesis by (simp add: v1_schedule_def) (metis code_seg.Sched)
  next
    case (Yield pc')
    then show ?thesis by (blast intro: code_seg.Yield)
  next
    case Done
    then show ?thesis by (blast intro: code_seg.Done)
  qed
qed

lemma resume_ready:
  assumes r: "ready1 w a pc" and m: "v_main w \<noteq> None" and a: "a < v_next w"
    and s: "code_seg prog (v_next w) pc out cbs ts nx"
  shows "\<exists>w'. v1_resume prog a w = Some (Inr w') \<and> effect a out cbs ts nx w w'"
proof -
  from r obtain f where f: "v_fib w a = Some f" "f_state f = FReady" "next_code f = Some pc"
    unfolding ready1_def by blast
  let ?e = "set_fiber a (\<lambda>f. f\<lparr>f_state := FRunning\<rparr>) (v1_SetThis (Some a) w)"
  let ?f = "f\<lparr>f_state := FRunning\<rparr>"
  have e: "v_fib ?e a = Some ?f" "v_main ?e = v_main w" "v_next ?e = v_next w" "v_out ?e = v_out w"
    "v_tasks ?e = v_tasks w" "\<And>b. b \<noteq> a \<Longrightarrow> v_fib ?e b = v_fib w b"
    using f(1) by (simp_all add: set_fiber_def v1_SetThis_def)
  have "v1_resume prog a w = v1_segment prog a pc ?e"
    using f m by (auto simp: v1_resume_def v1_SetThis_def next_code_def set_fiber_def Let_def
        split: v1_context.splits)
  moreover obtain w' where w': "v1_segment prog a pc ?e = Some (Inr w')" "effect a out cbs ts nx ?e w'"
    using segment_runs [of prog ?e pc out cbs ts nx a ?f] s e(1-3) m a by auto
  moreover have "stopped nx ?f = stopped nx f" by (simp add: stopped_def split: option.splits)
  then have "effect a out cbs ts nx w w'" using w'(2) e f(1) by (simp add: effect_def)
  ultimately show ?thesis by auto
qed
section \<open>A run\<close>


lemma run_step:
  assumes q: "v_tasks w = a # rest" and t: "ready1 w a pc" "v_main w \<noteq> None" "a < v_next w"
    and s: "code_seg prog (v_next w) pc out cbs ts nx"
  shows "\<exists>w'. effect a out cbs ts nx (w\<lparr>v_tasks := rest\<rparr>) w' \<and>
    v1_run prog w = (if rest = [] then Some (Inr w') else v1_run prog w')"
proof -
  from t s have "ready1 (w\<lparr>v_tasks := rest\<rparr>) a pc" by (simp add: ready1_def)
  from resume_ready [OF this, of prog out cbs ts nx] t(2,3) s obtain w' where
    "v1_resume prog a (w\<lparr>v_tasks := rest\<rparr>) = Some (Inr w')" "effect a out cbs ts nx (w\<lparr>v_tasks := rest\<rparr>) w'" by auto
  then show ?thesis using q by (subst v1_run.simps) auto
qed


text \<open>Segments that only print: \<open>out a\<close> is what task \<open>a\<close> prints, \<open>nx a\<close> where it stops.\<close>

definition plain_tasks ::
  "('pc \<Rightarrow> 'pc client) \<Rightarrow> (nat \<Rightarrow> 'pc) \<Rightarrow> (nat \<Rightarrow> string) \<Rightarrow> (nat \<Rightarrow> 'pc option) \<Rightarrow> nat list \<Rightarrow> 'pc world1 \<Rightarrow> bool" where
  "plain_tasks prog code out nx ts w \<longleftrightarrow> distinct ts \<and> v_main w \<noteq> None \<and>
     (\<forall>a \<in> set ts. ready1 w a (code a) \<and> a < v_next w \<and> code_seg prog (v_next w) (code a) (out a) [] [] (nx a))"

definition ran ::
  "(nat \<Rightarrow> string) \<Rightarrow> (nat \<Rightarrow> 'pc option) \<Rightarrow> nat list \<Rightarrow> 'pc world1 \<Rightarrow> 'pc world1 \<Rightarrow> bool" where
  "ran out nx ts w w' \<longleftrightarrow> v_next w' = v_next w \<and> v_main w' = v_main w \<and> v_out w' = v_out w @ concat (map out ts) \<and>
     (\<forall>a. v_fib w' a = (if a \<in> set ts then map_option (stopped (nx a)) (v_fib w a) else v_fib w a))"

lemma plain_step:
  assumes "plain_tasks prog code out nx (a # ts) w" and q: "v_tasks w = a # rest"
  shows "\<exists>u. v1_run prog w = (if rest = [] then Some (Inr u) else v1_run prog u) \<and> v_tasks u = rest \<and>
    ran out nx [a] w u \<and> plain_tasks prog code out nx ts u"
proof -
  from run_step [OF q, of "code a" prog "out a" "[]" "[]" "nx a"] assms(1)
  obtain u where u: "effect a (out a) [] [] (nx a) (w\<lparr>v_tasks := rest\<rparr>) u"
    "v1_run prog w = (if rest = [] then Some (Inr u) else v1_run prog u)" by (auto simp: plain_tasks_def)
  have "ran out nx [a] w u" using u(1) by (simp add: effect_def ran_def)
  moreover have "plain_tasks prog code out nx ts u"
    using assms(1) u(1) by (auto simp: plain_tasks_def effect_def ready1_def)
  ultimately show ?thesis using u by (auto simp: effect_def)
qed

lemma ran_Cons: "ran out nx [a] w u \<Longrightarrow> ran out nx ts u w' \<Longrightarrow> a \<notin> set ts \<Longrightarrow> ran out nx (a # ts) w w'"
  by (auto simp: ran_def)

lemma run_plain_prefix:
  assumes "plain_tasks prog code out nx ts w" and "v_tasks w = ts @ rest" "rest \<noteq> []"
  shows "\<exists>u. v1_run prog w = v1_run prog u \<and> v_tasks u = rest \<and> ran out nx ts w u"
  using assms(1,2)
proof (induction ts arbitrary: w)
  case Nil
  then show ?case by (auto simp: ran_def)
next
  case (Cons a ts)
  from plain_step [OF Cons.prems(1), of "ts @ rest"] Cons.prems(2) assms(3)
  obtain u where u: "v1_run prog w = v1_run prog u" "v_tasks u = ts @ rest" "ran out nx [a] w u"
    "plain_tasks prog code out nx ts u" by auto
  from Cons.IH [OF u(4,2)] obtain v where "v1_run prog u = v1_run prog v" "v_tasks v = rest" "ran out nx ts u v" by blast
  with u ran_Cons [OF u(3)] Cons.prems(1) show ?case by (auto simp: plain_tasks_def)
qed

lemma plain_run:
  assumes "plain_tasks prog code out nx (v_tasks w) w"
  shows "\<exists>w'. v1_run prog w = Some (Inr w') \<and> v_tasks w' = [] \<and> ran out nx (v_tasks w) w w'"
  using assms
proof (induction "v_tasks w" arbitrary: w)
  case Nil
  then show ?case by (subst v1_run.simps) (auto simp: ran_def)
next
  case (Cons a ts)
  from plain_step [of prog code out nx a ts w ts] Cons.prems Cons.hyps(2)
  obtain u where u: "v1_run prog w = (if ts = [] then Some (Inr u) else v1_run prog u)" "v_tasks u = ts"
    "ran out nx [a] w u" "plain_tasks prog code out nx ts u" by (metis (no_types, lifting))
  from Cons.hyps(1) [of u] u(2,4) obtain w' where w': "v1_run prog u = Some (Inr w')" "v_tasks w' = []" "ran out nx ts u w'"
    by auto
  have a: "a \<notin> set ts" using Cons.prems Cons.hyps(2) [symmetric] by (simp add: plain_tasks_def)
  have "v1_run prog u = Some (Inr u)" if "ts = []" using u(2) that by (subst v1_run.simps) simp
  then have "v1_run prog w = Some (Inr w')" using u(1) w'(1) by (cases "ts = []") auto
  with w'(2) ran_Cons [OF u(3) w'(3) a] Cons.hyps(2) show ?case by auto
qed

section \<open>Properties\<close>







text \<open>
  Each task runs once. When the next segments of the tasks only print, \<^verbatim>\<open>run\<close> resumes every
  task exactly once, in the order they were scheduled: their texts come out one after the other,
  a fiber whose callback has ended is in state TERM without its callback, no other fiber
  changes and the list is empty. A fiber that yields instead of ending is in state READY at the
  point it goes on from, and nothing will resume it: it is not in the list any more.
\<close>

theorem v1_run_once_in_order:
  assumes "plain_tasks prog code out nx (v_tasks w) w"
  shows "\<exists>w'. v1_run prog w = Some (Inr w') \<and> v_tasks w' = [] \<and>
    v_out w' = v_out w @ concat (map out (v_tasks w)) \<and>
    (\<forall>a. v_fib w' a = (if a \<in> set (v_tasks w) then map_option (stopped (nx a)) (v_fib w a) else v_fib w a))"
  using plain_run [OF assms] unfolding ran_def by blast

text \<open>
  C37. What the last task schedules never runs. If the tasks before it only print, the loop ends
  after the last task although that has put fibers in the list: they are still there when
  \<^verbatim>\<open>run\<close> returns, the fibers the last task made are as their constructor left them, and no
  fiber but the tasks of the list \<^verbatim>\<open>run\<close> was called with has been resumed.
\<close>

theorem v1_last_task_loses:
  assumes ts: "plain_tasks prog code out nx ts w" and t: "ready1 w t pc" "t < v_next w" "t \<notin> set ts"
    and s: "code_seg prog (v_next w) pc last_out cbs ss last_nx"
    and q: "v_tasks w = ts @ [t]"
  shows "\<exists>w'. v1_run prog w = Some (Inr w') \<and> v_tasks w' = ss \<and>
    v_out w' = v_out w @ concat (map out ts) @ last_out \<and> v_next w' = v_next w + length cbs \<and>
    (\<forall>i < length cbs. just_made (cbs ! i) (v_fib w' (v_next w + i))) \<and>
    (\<forall>a. a \<notin> set (v_tasks w) \<and> a \<notin> {v_next w..<v_next w + length cbs} \<longrightarrow> v_fib w' a = v_fib w a)"
proof -
  from run_plain_prefix [OF ts q] obtain u where u: "v1_run prog w = v1_run prog u" "v_tasks u = [t]" "ran out nx ts w u" by auto
  have "ready1 u t pc" "v_main u \<noteq> None" "t < v_next u" "v_next u = v_next w"
    using u(3) t ts by (auto simp: ran_def ready1_def plain_tasks_def)
  with run_step [OF u(2), of pc prog last_out cbs ss last_nx] s obtain w' where
    "effect t last_out cbs ss last_nx (u\<lparr>v_tasks := []\<rparr>) w'" "v1_run prog u = Some (Inr w')" by auto
  with u(1,3) q show ?thesis by (auto simp: effect_def ran_def)
qed

section \<open>The program\<close>

text \<open>The process before \<^verbatim>\<open>main\<close>.\<close>

definition v1_start :: "'pc world1" where
  "v1_start = \<lparr>v_fib = Map.empty, v_this = None, v_main = None, v_fiber_id = 0, v_fiber_count = 0, v_next = 0,
     v_tasks = [], v_out = []\<rparr>"

lemma add_tests:
  assumes "w' = fold add_test is w"
  shows "v_next w' = v_next w + length is \<and> v_tasks w' = v_tasks w @ [v_next w..<v_next w + length is] \<and>
    v_main w' = v_main w \<and> v_out w' = v_out w \<and> (\<forall>a < v_next w. v_fib w' a = v_fib w a) \<and>
    (\<forall>k < length is. ready1 w' (v_next w + k) (TestFiber (is ! k)))"
  using assms
proof (induction "is" arbitrary: w)
  case (Cons i "is")
  let ?v = "add_test i w"
  have v: "v_next ?v = Suc (v_next w)" "v_tasks ?v = v_tasks w @ [v_next w]" "v_main ?v = v_main w" "v_out ?v = v_out w"
    "\<forall>a < v_next w. v_fib ?v a = v_fib w a" "ready1 ?v (v_next w) (TestFiber i)"
    by (simp_all add: add_test_def v1_new_def v1_schedule_def ready1_def next_code_def Let_def)
  have IH: "v_next w' = v_next ?v + length is" "v_tasks w' = v_tasks ?v @ [v_next ?v..<v_next ?v + length is]"
    "v_main w' = v_main ?v" "v_out w' = v_out ?v" "\<forall>a < v_next ?v. v_fib w' a = v_fib ?v a"
    "\<forall>k < length is. ready1 w' (v_next ?v + k) (TestFiber (is ! k))"
    using Cons.IH [of ?v] Cons.prems by simp_all
  have "ready1 w' (v_next w + k) (TestFiber ((i # is) ! k))" if "k < Suc (length is)" for k
    using that v(1,6) IH(5,6) by (cases k) (auto simp: ready1_def)
  moreover have "[v_next w..<v_next w + length (i # is)] = v_next w # [v_next ?v..<v_next ?v + length is]"
    using upt_conv_Cons [of "v_next w" "v_next w + length (i # is)"] by (simp add: v(1))
  ultimately show ?case using v IH by simp
qed simp

definition test_line :: "int \<Rightarrow> string" where
  "test_line i = ''hello niu0217 '' @ dec_int i @ [CHR 0x0A]"

lemma test_seg: "code_seg testFiber n (TestFiber i) (test_line i) [] [] None"
proof -
  have "code_seg testFiber n TestEnd [] [] [] None" by (rule code_seg.Done) simp
  from code_seg.Print [OF _ this] show ?thesis by (simp add: test_line_def)
qed

text \<open>
  The program of version 1 prints its ten lines in order and ends: each fiber runs once and is
  in state TERM when \<^verbatim>\<open>main\<close> returns.
\<close>

theorem v1_main_prints:
  "\<exists>w. v1_main v1_start = Some (Inr w) \<and> v_tasks w = [] \<and> v_out w = concat (map test_line [0..9]) \<and>
    (\<forall>a \<in> {1..10}. map_option f_state (v_fib w a) = Some FTerm)"
proof -
  let ?st = "snd (v1_GetThis v1_start) :: test_pc world1"
  let ?w = "fold add_test [0..9] ?st"
  have w0: "v_next ?st = 1" "v_tasks ?st = []" "v_out ?st = []" "v_main ?st = Some 0"
    by (simp_all add: v1_GetThis_def v1_start_def v1_main_fiber_def v1_SetThis_def Let_def)
  have ten: "length [0..9::int] = 10" by simp
  note t = add_tests [OF refl, of "[0..9]" ?st, unfolded w0 ten]
  let ?i = "\<lambda>a. [0..9] ! (a - 1)"
  have r: "ready1 ?w a (TestFiber (?i a))" if "a \<in> {1..10}" for a
  proof -
    from that have "a - 1 < 10" "1 + (a - 1) = a" by auto
    with t show ?thesis by metis
  qed
  have tasks: "v_tasks ?w = [1..<11]" "v_next ?w = 11" "v_main ?w = Some 0" "v_out ?w = []" using t by simp_all
  have "plain_tasks testFiber (\<lambda>a. TestFiber (?i a)) (\<lambda>a. test_line (?i a)) (\<lambda>_. None) (v_tasks ?w) ?w"
    using r by (auto simp: plain_tasks_def tasks test_seg)
  from plain_run [OF this] obtain w' where w': "v1_run testFiber ?w = Some (Inr w')" "v_tasks w' = []"
    "v_out w' = concat (map (\<lambda>a. test_line (?i a)) [1..<11])"
    "\<forall>a \<in> {1..10}. v_fib w' a = map_option (stopped None) (v_fib ?w a)"
    by (auto simp: ran_def tasks)
  have "map (\<lambda>a. test_line (?i a)) [1..<11] = map test_line [0..9]" by (rule nth_equalityI) simp_all
  then have "v_out w' = concat (map test_line [0..9])" using w'(3) by simp
  moreover have "map_option f_state (v_fib w' a) = Some FTerm" if "a \<in> {1..10}" for a
    using r [OF that] w'(4) that by (auto simp: ready1_def stopped_def)
  moreover have "v1_main v1_start = v1_run testFiber ?w" by (simp add: v1_main_def split_def Let_def)
  ultimately show ?thesis using w'(1,2) by metis
qed

section \<open>Instances\<close>

text \<open>
  Code that counts: at stage 0 it prints, then makes a fiber that runs the same code from \<open>d k\<close>, and
  schedules it; at count 0 it makes none. The address comes in as the third component.
\<close>

fun counting :: "(nat \<Rightarrow> nat) \<Rightarrow> nat \<times> nat \<times> nat \<Rightarrow> (nat \<times> nat \<times> nat) client" where
  "counting d (s, k, a) =
     (if s = 0 then Print ''x'' (if k = 0 then 3 else 1, k, a)
      else if s = 1 then New (0, d k, 0) (\<lambda>b. (2, k, b))
      else if s = 2 then Sched a (3, k, a)
      else Done)"

lemma counting_seg:
  "\<exists>out nx. code_seg (counting d) n (0, k, a) out (if k = 0 then [] else [(0, d k, 0)]) (if k = 0 then [] else [n]) nx"
proof -
  have 3: "code_seg (counting d) m (3, k, b) [] [] [] None" for m b by (rule code_seg.Done) simp
  have 2: "code_seg (counting d) m (2, k, b) [] [] [b] None" for m b by (rule code_seg.Sched [OF _ 3]) simp
  have 1: "code_seg (counting d) n (1, k, a) [] [(0, d k, 0)] [n] None" 
    using 2 [of "Suc n" n] by (intro code_seg.New [where k = "\<lambda>b. (2, k, b)"]) simp_all
  show ?thesis
  proof (cases "k = 0")
    case True
    have "code_seg (counting d) n (0, k, a) (''x'' @ []) [] [] None" by (rule code_seg.Print [OF _ 3]) (simp add: True)
    with True show ?thesis by auto
  next
    case False
    have "code_seg (counting d) n (0, k, a) (''x'' @ []) [(0, d k, 0)] [n] None"
      by (rule code_seg.Print [OF _ 1]) (simp add: False)
    with False show ?thesis by auto
  qed
qed

text \<open>Two fibers with that code, after the main fiber.\<close>

definition two_fibers :: "(nat \<times> nat \<times> nat) world1" where
  "two_fibers = snd (v1_new (0, 1, 0) 0 True (snd (v1_new (0, 5, 0) 0 True (snd (v1_GetThis v1_start)))))"

lemma two_fibers_facts:
  "ready1 (two_fibers\<lparr>v_tasks := q\<rparr>) 1 (0, 5, 0)" "ready1 (two_fibers\<lparr>v_tasks := q\<rparr>) 2 (0, 1, 0)"
  "v_next two_fibers = 3" "v_main two_fibers = Some 0" "v_out two_fibers = []"
  by (auto simp: two_fibers_def v1_new_def v1_GetThis_def v1_start_def v1_main_fiber_def v1_SetThis_def
      ready1_def next_code_def Let_def)



text \<open>The instance of a last task that has made a fiber: it stays in the list, as it was made.\<close>

theorem v1_last_task_loses_witness:
  "\<exists>w'. v1_run (counting Suc) (two_fibers\<lparr>v_tasks := [2]\<rparr>) = Some (Inr w') \<and> v_tasks w' = [3] \<and>
    just_made (0, 2, 0) (v_fib w' 3)"
proof -
  let ?w = "two_fibers\<lparr>v_tasks := [2]\<rparr>"
  from counting_seg [of Suc 3 1 0] obtain out nx where "code_seg (counting Suc) (v_next ?w) (0, 1, 0) out [(0, 2, 0)] [3] nx"
    by (auto simp: two_fibers_facts numeral_2_eq_2)
  from v1_last_task_loses [OF _ two_fibers_facts(2) _ _ this, of undefined undefined undefined "[]"] show ?thesis
    by (auto simp: plain_tasks_def two_fibers_facts)
qed

text \<open>The instance of a fiber that yields: its second line is never printed.\<close>

fun yielding :: "nat \<Rightarrow> nat client" where
  "yielding n = (if n = 0 then Print ''a'' 1 else if n = 1 then Yield 2 else if n = 2 then Print ''b'' 3 else Done)"

theorem v1_run_once_in_order_witness:
  "\<exists>w'. v1_run yielding ((snd (v1_new 0 0 True (snd (v1_GetThis v1_start))))\<lparr>v_tasks := [1]\<rparr>) = Some (Inr w') \<and>
    v_tasks w' = [] \<and> v_out w' = ''a''"
proof -
  let ?w = "(snd (v1_new 0 0 True (snd (v1_GetThis v1_start))))\<lparr>v_tasks := [1]\<rparr> :: nat world1"
  have "code_seg yielding 2 1 [] [] [] (Some 2)" by (rule code_seg.Yield) simp
  then have "code_seg yielding 2 0 (''a'' @ []) [] [] (Some 2)" by (rule code_seg.Print [rotated]) simp
  then have "plain_tasks yielding (\<lambda>_. 0) (\<lambda>_. ''a'') (\<lambda>_. Some 2) (v_tasks ?w) ?w"
    by (auto simp: plain_tasks_def v1_new_def v1_GetThis_def v1_start_def v1_main_fiber_def v1_SetThis_def
      ready1_def next_code_def Let_def numeral_2_eq_2)
  from v1_run_once_in_order [OF this] show ?thesis
    by (auto simp: v1_new_def v1_GetThis_def v1_start_def v1_main_fiber_def v1_SetThis_def Let_def)
qed

end
