(* ===== verification/Spec2Isabelle.thy ===== *)
theory Spec2Isabelle
  imports Poll Select Serving SimpleHttp EchoServer CppStart CppServing
    CppDispatchers Threads FibersV1
begin

text \<open>
  A verification development for NiuServer, a repository of network servers: the reactor HTTP
  server in C (\<^verbatim>\<open>ReactorHTTP-C\<close>), its rewrite in C++ (\<^verbatim>\<open>ReactorHTTP-CPP\<close>), a one-file HTTP server
  (\<^verbatim>\<open>SimpleHTTP\<close>), and a library of coroutines in three versions (\<^verbatim>\<open>Coroutine\<close>), the second of which
  schedules fibers on threads, wakes them by \<^verbatim>\<open>epoll\<close> and timers, and replaces the blocking system
  calls. The paths below are those under \<^verbatim>\<open>src/\<close>.

  All four are modelled by definitions that follow the text of the sources: a struct or a class is
  a record, an enumeration a datatype, an operation a function from state to state, and every
  early return, assertion, wild access, uncaught exception and \<^verbatim>\<open>exit\<close> is a branch of its result.

  \<^bold>\<open>Outcomes.\<close>

  A result that may go wrong has type \<open>fault + 'a\<close>, written \<open>'a res\<close> (theory \<open>Prelude\<close>). A theorem
  that a function returns \<open>Inr\<close> excludes every fault: NULL and wild accesses, overlapping
  \<^verbatim>\<open>memcpy\<close>, use after free, signed overflow, failed assertions, the end of the process, a
  second locking of a mutex, an exception nobody catches. A loop that need not end is a
  \<^theory_text>\<open>partial_function\<close> with results of type \<open>'a res option\<close>, written \<open>'a run\<close>, where \<open>None\<close> is a run
  that never comes back. No definition has a fuel argument: that a loop ends is a theorem
  \<open>\<exists>r. f x = Some r\<close>, and that it does not is \<open>f x = None\<close>. Functions that run over lists of
  entries, events or answers are structural. Machine integers are words of their width where they
  wrap (event masks, times, counters, fiber numbers), and integers with the overflow written out
  where C leaves it undefined.

  What an operating system, an allocator or a clock answers is an argument: \<open>mem n\<close> says whether a
  block of \<open>n\<close> bytes is to be had, an \<open>env\<close> what the file calls find, \<open>answers w (tick w)\<close> what the
  calls of the next callback get. The theorems hold for all answers their hypotheses allow, and
  the hypotheses are documented behaviour: \<^verbatim>\<open>epoll_ctl\<close> refuses what its manual says it refuses,
  \<^verbatim>\<open>read\<close> gives at most what was asked for.

  \<^bold>\<open>The C reactor.\<close>

  One main loop accepts, worker loops serve. A loop waits in its dispatcher, calls the callbacks
  of the channels reported, and then runs its list of tasks, which other threads append to and
  announce through a socket pair. A connection owns a channel, a request, a response and two
  buffers; its read callback reads, parses and answers, its write callback sends and gives the
  connection up.

  \<^item> \<open>Buffer\<close> (\<^verbatim>\<open>Buffer.c\<close>): the operations keep the positions ordered and refine a queue of bytes;
    the locale \<open>byte_queue\<close> states what a run of appends and sends does with the queue.
  \<^item> \<open>Channel\<close> (\<^verbatim>\<open>Channel.c\<close>), \<open>ChannelMap\<close> (\<^verbatim>\<open>ChannelMap.c\<close>): event bits, and the array from
    descriptors to channels with its doubling.
  \<^item> \<open>HttpText\<close> (\<^verbatim>\<open>HttpRequest.c\<close>: \<^verbatim>\<open>decodeMsg\<close>, \<^verbatim>\<open>hexToDec\<close>, \<^verbatim>\<open>getFileType\<close>): percent
    decoding in place equals percent decoding of the string, and inverts any encoding.
  \<^item> \<open>SendBody\<close> (\<^verbatim>\<open>HttpRequest.c\<close>: \<^verbatim>\<open>sendFile\<close>, \<^verbatim>\<open>sendDir\<close>), \<open>HttpResponse\<close> (\<^verbatim>\<open>HttpResponse.c\<close>),
    \<open>HttpRequest\<close> (the rest of \<^verbatim>\<open>HttpRequest.c\<close>): the line parser over the buffer, the reply that is
    built from it. \<open>HttpSession\<close> puts them together: round trip of requests, the answer to a
    GET, what malformed and cut requests do, and that the parser never loops.
  \<^item> \<open>Dispatcher\<close> (\<^verbatim>\<open>Dispatcher.h\<close>) states what a loop relies on as the locales \<open>watcher\<close> and, with
    modification, \<open>modifying_watcher\<close>; \<open>Poll\<close>, \<open>Select\<close> and \<open>Epoll\<close> (\<^verbatim>\<open>PollDispatcher.c\<close>,
    \<^verbatim>\<open>SelectDispatcher.c\<close>, \<^verbatim>\<open>EpollDispatcher.c\<close>) interpret them on their data. The modification of
    \<^verbatim>\<open>SelectDispatcher.c\<close> does not keep the law, and is shown not to.
  \<^item> \<open>World\<close> holds the heaps of the objects that point at one another; \<open>EventLoop\<close> (\<^verbatim>\<open>EventLoop.c\<close>)
    the loop and its tasks, with the locale \<open>task_queue\<close>; \<open>TcpConnection\<close> (\<^verbatim>\<open>TcpConnection.c\<close>) the
    callbacks of a connection, and the interpretation of \<open>task_queue\<close> on the linked list of nodes;
    \<open>WorkerThread\<close> (\<^verbatim>\<open>WorkerThread.c\<close>) the hand-over of a loop between two threads as interleaved
    steps under a mutex and a condition variable; \<open>Server\<close> (\<^verbatim>\<open>ThreadPool.c\<close>, \<^verbatim>\<open>TcpServer.c\<close>, \<^verbatim>\<open>main.c\<close>)
    the pool, the accepting callback and the start.
  \<^item> \<open>Serving\<close> composes all of it: a connection from the first byte of its request to its close,
    and what the end of the stream does at each moment.

  \<^bold>\<open>The C++ rewrite.\<close>

  The rewrite keeps the architecture and changes the parts: tasks in a \<^verbatim>\<open>std::queue\<close>, channels
  and headers in \<^verbatim>\<open>std::map\<close>s, a reply sent piece by piece while it is made, a connection given
  up after every read.

  \<^item> \<open>StdMap\<close>: \<^verbatim>\<open>std::map\<close> as an ordered association list, with the contract \<open>dictionary\<close>.
  \<^item> \<open>CppBuffer\<close> (\<^verbatim>\<open>Buffer.cpp\<close>): its operations are those of the C buffer on its own state, so \<open>byte_queue\<close> is
    interpreted on it as well. \<open>CppHttp\<close> (\<^verbatim>\<open>HttpRequest.cpp\<close>, \<^verbatim>\<open>HttpResponse.cpp\<close>): parser and replies.
  \<^item> \<open>CppLoop\<close> (\<^verbatim>\<open>Channel.cpp\<close>, \<^verbatim>\<open>EpollDispatcher.cpp\<close>, \<^verbatim>\<open>EventLoop.cpp\<close>, \<^verbatim>\<open>TcpConnection.cpp\<close>),
    \<open>CppServer\<close> (\<^verbatim>\<open>ThreadPool.cpp\<close>, \<^verbatim>\<open>WorkerThread.cpp\<close>, \<^verbatim>\<open>TcpServer.cpp\<close>, \<^verbatim>\<open>main.cpp\<close>), \<open>CppDispatchers\<close>
    (\<^verbatim>\<open>PollDispatcher.cpp\<close>, \<^verbatim>\<open>SelectDispatcher.cpp\<close>: interpretations of \<open>modifying_watcher\<close> and
    \<open>watcher\<close>).
    The two threads of \<^verbatim>\<open>WorkerThread::run\<close> take the steps of \<open>hstep\<close> in theory \<open>WorkerThread\<close>.
  \<^item> \<open>CppStart\<close> follows \<^verbatim>\<open>main\<close> to the first wait. \<open>CppConnections\<close> is a worker's loop with any number
    of connections: its steps are the events of its connections and of its wake-up socket, its task
    queue, the accepting of a client for it by the main thread, and the steps of other threads
    elsewhere, which are taken to leave its objects alone (\<open>untouched\<close>); the invariant \<open>consistent\<close>
    holds in every state these lead to. \<open>CppServing\<close> accepts and serves clients, and shows what a
    request in two pieces leaks and which first lines end the process. What
    \<^verbatim>\<open>end - start\<close> gives when \<^verbatim>\<open>end\<close> is NULL is an argument (\<open>x_null\<close>).

  \<^bold>\<open>The one-file server.\<close>

  \<open>SimpleHttp\<close> (\<^verbatim>\<open>SimpleHTTP/Server.c\<close>, \<^verbatim>\<open>simple_http.c\<close>): a thread per event. It serves a GET request
  however the bytes arrive, within its fixed arrays; what overlong lines, missing line ends and
  dead clients do is stated too.

  \<^bold>\<open>The coroutines.\<close>

  \<^item> \<open>Locks\<close> (\<^verbatim>\<open>version2/Mutex.h\<close>, \<^verbatim>\<open>version3/base/Mutex.h\<close>): mutexes, read-write, spinning and null
    locks, semaphores, and the scoped guards. The locale \<open>lockable\<close> is the contract of a lock; its
    lemmas on runs of guards by any number of threads are interpreted on every class.
  \<^item> \<open>Threads\<close> (\<^verbatim>\<open>version2/Thread.cpp\<close>): the constructor and the new thread as interleaved steps over a
    semaphore, with an invariant and a rank.
  \<^item> \<open>FibersV1\<close> (\<^verbatim>\<open>version1\<close>): fibers, the list that runs them, and its program. A callback is any code
    of the client, given by its points and what it does at each; it may come back to a point, start
    fibers of its own kind and never end. It shows when \<^verbatim>\<open>run\<close> returns and when it never does.
  \<^item> \<open>Fibers\<close> (\<^verbatim>\<open>version2/Fiber.cpp\<close>): objects, saved contexts, and the thread-local variables of every
    thread; a switch of contexts is a step, split where another thread can come between.
    \<open>Timers\<close> (\<^verbatim>\<open>version2/Timer.cpp\<close>): the ordered set of timers. \<open>Schedulers\<close> (\<^verbatim>\<open>version2/Scheduler.cpp\<close>):
    the queue of tasks, with each critical section of \<^verbatim>\<open>run\<close> a step of one of its threads; the
    locale \<open>notifier\<close> is what it relies on of the virtual \<^verbatim>\<open>tickle\<close>.
  \<^item> \<open>IOManagers\<close> (\<^verbatim>\<open>version2/IOManager.cpp\<close>): a scheduler, whose record it extends, and a timer
    manager over one epoll descriptor; an interpretation of \<open>notifier\<close>. The invariant \<open>io_inv\<close> ties the
    table of contexts, the waiters, the kernel's list and the count of pending events together.
  \<^item> \<open>FdManagers\<close> (\<^verbatim>\<open>version2/FdManager.cpp\<close>) and \<open>Hooks\<close> (\<^verbatim>\<open>version2/Hook.cpp\<close>): the hooked calls, from
    the first attempt through the wait to the result, by event, by timeout and by \<^verbatim>\<open>close\<close>.
    \<open>EchoServer\<close> (\<^verbatim>\<open>version2/main.cpp\<close>) is the program on top of them: it accepts and echoes, and the
    echo never ends for a client that pauses before it closes.

  \<^bold>\<open>Conventions of the proofs.\<close>

  \<open>Prelude\<close> keeps the collections the proofs draw on: \<open>res_simps\<close> computes with results,
  \<open>buf_simps\<close> with sizes of buffers, \<open>ensures_rules\<close> and \<open>run_rules\<close> are rules for postconditions,
  applied backwards. Each theory has its code first, then its invariant with one preservation
  lemma per operation, the behaviour of the operations, and at the end the properties with an
  instance of each at concrete values.

  \<^bold>\<open>What is taken for granted.\<close>

  \<^item> Small blocks whose \<^verbatim>\<open>malloc\<close> or \<^verbatim>\<open>new\<close> the sources never check are there; the growth of
    buffers and of the channel map may fail.
  \<^item> A critical section of a mutex is one step. Threads interleave between steps in \<open>WorkerThread\<close>,
    \<open>Threads\<close>, \<open>Locks\<close>, \<open>Schedulers\<close> and \<open>Fibers\<close>, and between the callbacks of a loop in
    \<open>CppConnections\<close>; the rounds of the other event loops run alone, with the
    tasks other threads add as operations of their own. Between its callbacks \<open>IOManagers\<close> takes each call of
    a manager as one step, except where a theorem splits it.
  \<^item> Memory is sequentially consistent.
  \<^item> A writer finds room in the pipe and in the wake-up sockets. \<^verbatim>\<open>epoll_wait\<close> reports what its
    argument says, once for each descriptor.
  \<^item> In \<open>Hooks\<close> all threads share one manager, and \<open>IOManagers\<close> uses the kernel's own calls.
  \<^item> The lock inside POSIX objects is theirs: releasing what is not held, and taking again what the
    thread holds for writing, ends a run of \<open>Locks\<close>.

  \<^bold>\<open>Not modelled.\<close>

  \<^item> \<^verbatim>\<open>ReactorHTTP-C/test_pressure/webbench-1.5\<close>: a third-party load generator.
  \<^item> Log and assertion macros (\<^verbatim>\<open>Log.h\<close>, \<^verbatim>\<open>Macro.h\<close>), backtraces and wrappers of system calls
    (\<^verbatim>\<open>version2/Util.cpp\<close>); the clock and the thread ids are arguments.
  \<^item> \<^verbatim>\<open>Singleton.h\<close>, \<^verbatim>\<open>Noncopyable.h\<close>: no operations on state.
  \<^item> \<^verbatim>\<open>version3/base/Thread.cpp\<close> is the text of version 2 in a namespace; the \<^verbatim>\<open>FiberSemaphore\<close> of
    \<^verbatim>\<open>version3/base/Mutex.h\<close> is declared and nowhere defined.
  \<^item> The virtual functions of \<^verbatim>\<open>ReactorHTTP-CPP/Dispatcher.cpp\<close> have empty bodies: their contract is in
    the locales of \<open>Dispatcher\<close>.
  \<^item> Programs for trying the library out: \<^verbatim>\<open>version2/tests\<close>, \<^verbatim>\<open>Sources/hello.cpp\<close>.
\<close>

end
